(* ===== verification/Morrow_Prelude.thy ===== *)
theory Morrow_Prelude
  imports
    Main
    "HOL-Library.Word"
    "HOL-Library.List_Lexorder"
    "HOL-Library.Char_ord"
    "HOL-Library.Product_Lexorder"
    "HOL-Library.Option_ord"
    "HOL-Library.Sublist"
begin

text \<open>
  What every component of the development shares.

  \<^item> Rust's \<open>Result\<close> is a sum: \<open>Err\<close> is \<open>Inl\<close>, \<open>Ok\<close> is \<open>Inr\<close>. A \<open>BrokerError\<close> is
    its message.
  \<^item> Rust's \<open>str\<close> is a list of UTF-8 bytes, as in the language: \<open>len\<close> counts bytes and
    \<open>Ord\<close> compares bytes lexicographically. HOL's \<open>string\<close> is the byte list.
  \<^item> Unsigned integers that only move by saturating operations are naturals with the
    saturation written out; where an addition can overflow (and the release profile sets
    \<open>overflow-checks = true\<close>, so an overflow panics) they are words with a checked addition.
  \<^item> \<open>BTreeMap\<close> is an association list with strictly increasing keys, so that iteration
    order is the code's; a \<open>HashMap\<close> is represented the same way and nothing that is proved
    depends on its order.
  \<^item> The locales are the interfaces that several components implement: finite maps,
    transition systems with an invariant, and monotone epochs.
\<close>

named_theorems bt_simps \<open>lookup laws of ordered maps\<close>
named_theorems sat_simps \<open>saturating arithmetic\<close>

section \<open>Results\<close>

type_synonym broker_error = string

type_synonym 'a result = "broker_error + 'a"

abbreviation Err :: "'e \<Rightarrow> 'e + 'a" where
  "Err \<equiv> Inl"

abbreviation Ok :: "'a \<Rightarrow> 'e + 'a" where
  "Ok \<equiv> Inr"

section \<open>Unsigned integers\<close>

type_synonym u32 = nat

type_synonym u64 = nat

definition u32_max :: nat where
  "u32_max = 2 ^ 32 - 1"

definition u64_max :: nat where
  "u64_max = 2 ^ 64 - 1"

definition sat_add64 :: "nat \<Rightarrow> nat \<Rightarrow> nat" where
  "sat_add64 a b = min (a + b) u64_max"

definition sat_mul64 :: "nat \<Rightarrow> nat \<Rightarrow> nat" where
  "sat_mul64 a b = min (a * b) u64_max"

text \<open>The same operations at a fixed width; \<open>checked_add\<close> is \<open>None\<close> where the code panics.\<close>

definition word_sat_add :: "'a::len word \<Rightarrow> 'a word \<Rightarrow> 'a word" where
  "word_sat_add a b = (if unat a + unat b < 2 ^ LENGTH('a) then a + b else - 1)"

definition word_sat_sub :: "'a::len word \<Rightarrow> 'a word \<Rightarrow> 'a word" where
  "word_sat_sub a b = (if b \<le> a then a - b else 0)"

definition checked_add :: "'a::len word \<Rightarrow> 'a word \<Rightarrow> 'a word option" where
  "checked_add a b = (if unat a + unat b < 2 ^ LENGTH('a) then Some (a + b) else None)"

section \<open>Strings\<close>

fun split_char :: "char \<Rightarrow> string \<Rightarrow> string list" where
  "split_char c [] = [[]]"
| "split_char c (x # xs) =
     (if x = c then [] # split_char c xs
      else (case split_char c xs of [] \<Rightarrow> [[x]] | t # ts \<Rightarrow> (x # t) # ts))"

fun join_char :: "char \<Rightarrow> string list \<Rightarrow> string" where
  "join_char c [] = []"
| "join_char c [t] = t"
| "join_char c (t # u # ts) = t @ c # join_char c (u # ts)"

fun contains_str :: "string \<Rightarrow> string \<Rightarrow> bool" where
  "contains_str needle [] = (needle = [])"
| "contains_str needle (x # xs) = (prefix needle (x # xs) \<or> contains_str needle xs)"

text \<open>
  The code points for which \<open>char::is_whitespace\<close> holds, in UTF-8. UTF-8 is
  self-synchronising: one of them occurs in a string exactly when its encoding occurs as a
  substring.
\<close>

definition whitespace_encodings :: "string list" where
  "whitespace_encodings =
     [[CHR 0x20], [CHR 0x09], [CHR 0x0A], [CHR 0x0B], [CHR 0x0C], [CHR 0x0D],
      [CHR 0xC2, CHR 0x85], [CHR 0xC2, CHR 0xA0], [CHR 0xE1, CHR 0x9A, CHR 0x80],
      [CHR 0xE2, CHR 0x80, CHR 0x80], [CHR 0xE2, CHR 0x80, CHR 0x81],
      [CHR 0xE2, CHR 0x80, CHR 0x82], [CHR 0xE2, CHR 0x80, CHR 0x83],
      [CHR 0xE2, CHR 0x80, CHR 0x84], [CHR 0xE2, CHR 0x80, CHR 0x85],
      [CHR 0xE2, CHR 0x80, CHR 0x86], [CHR 0xE2, CHR 0x80, CHR 0x87],
      [CHR 0xE2, CHR 0x80, CHR 0x88], [CHR 0xE2, CHR 0x80, CHR 0x89],
      [CHR 0xE2, CHR 0x80, CHR 0x8A], [CHR 0xE2, CHR 0x80, CHR 0xA8],
      [CHR 0xE2, CHR 0x80, CHR 0xA9], [CHR 0xE2, CHR 0x80, CHR 0xAF],
      [CHR 0xE2, CHR 0x81, CHR 0x9F], [CHR 0xE3, CHR 0x80, CHR 0x80]]"

fun has_whitespace :: "string \<Rightarrow> bool" where
  "has_whitespace [] = False"
| "has_whitespace (c # cs) =
     (list_ex (\<lambda>w. prefix w (c # cs)) whitespace_encodings \<or> has_whitespace cs)"

declare has_whitespace.simps [simp del]

text \<open>\<open>{}\<close> and \<open>{:010}\<close> of an unsigned number.\<close>

function decimal :: "nat \<Rightarrow> string" where
  "decimal n = (if n < 10 then [char_of (48 + n)] else decimal (n div 10) @ [char_of (48 + n mod 10)])"
  by pat_completeness auto
termination
  by (relation "measure (\<lambda>n. n)") auto

declare decimal.simps [simp del]

definition decimal10 :: "nat \<Rightarrow> string" where
  "decimal10 n = replicate (10 - length (decimal n)) CHR ''0'' @ decimal n"

text \<open>\<open>is_ascii_alphanumeric\<close>, an underscore, a hyphen or a dot.\<close>

definition name_char :: "char \<Rightarrow> bool" where
  "name_char c \<longleftrightarrow>
     (let n = of_char c :: nat in (48 \<le> n \<and> n \<le> 57) \<or> (65 \<le> n \<and> n \<le> 90) \<or> (97 \<le> n \<and> n \<le> 122))
     \<or> c = CHR ''_'' \<or> c = CHR ''-'' \<or> c = CHR ''.''"

section \<open>Iterator helpers\<close>

text \<open>\<open>Iterator::min_by_key\<close> keeps the first minimum, \<open>max_by_key\<close> the last maximum.\<close>

fun min_by_key :: "('a \<Rightarrow> 'k::linorder) \<Rightarrow> 'a list \<Rightarrow> 'a option" where
  "min_by_key f [] = None"
| "min_by_key f (x # xs) =
     (case min_by_key f xs of
        None \<Rightarrow> Some x
      | Some y \<Rightarrow> if f x \<le> f y then Some x else Some y)"

fun max_by_key :: "('a \<Rightarrow> 'k::linorder) \<Rightarrow> 'a list \<Rightarrow> 'a option" where
  "max_by_key f [] = None"
| "max_by_key f (x # xs) =
     (case max_by_key f xs of
        None \<Rightarrow> Some x
      | Some y \<Rightarrow> if f x \<le> f y then Some y else Some x)"

fun find_map :: "('a \<Rightarrow> 'b option) \<Rightarrow> 'a list \<Rightarrow> 'b option" where
  "find_map f [] = None"
| "find_map f (x # xs) = (case f x of None \<Rightarrow> find_map f xs | Some y \<Rightarrow> Some y)"

definition get_at :: "'a list \<Rightarrow> nat \<Rightarrow> 'a option" where
  "get_at xs i = (if i < length xs then Some (xs ! i) else None)"

section \<open>Ordered maps\<close>

type_synonym ('k, 'v) btree_map = "('k \<times> 'v) list"

definition bt_wf :: "('k::linorder, 'v) btree_map \<Rightarrow> bool" where
  "bt_wf m \<longleftrightarrow> sorted_wrt (<) (map fst m)"

fun bt_insert :: "'k::linorder \<Rightarrow> 'v \<Rightarrow> ('k, 'v) btree_map \<Rightarrow> ('k, 'v) btree_map" where
  "bt_insert k v [] = [(k, v)]"
| "bt_insert k v (e # m) =
     (if fst e < k then e # bt_insert k v m
      else if fst e = k then (k, v) # m
      else (k, v) # e # m)"

definition bt_remove :: "'k \<Rightarrow> ('k, 'v) btree_map \<Rightarrow> ('k, 'v) btree_map" where
  "bt_remove k m = filter (\<lambda>e. fst e \<noteq> k) m"

definition bt_retain :: "('k \<Rightarrow> 'v \<Rightarrow> bool) \<Rightarrow> ('k, 'v) btree_map \<Rightarrow> ('k, 'v) btree_map" where
  "bt_retain P m = filter (\<lambda>e. P (fst e) (snd e)) m"

definition bt_update :: "'k \<Rightarrow> ('v \<Rightarrow> 'v) \<Rightarrow> ('k, 'v) btree_map \<Rightarrow> ('k, 'v) btree_map" where
  "bt_update k f m = map (\<lambda>e. if fst e = k then (fst e, f (snd e)) else e) m"

definition bt_map_values :: "('v \<Rightarrow> 'w) \<Rightarrow> ('k, 'v) btree_map \<Rightarrow> ('k, 'w) btree_map" where
  "bt_map_values f m = map (\<lambda>e. (fst e, f (snd e))) m"

definition bt_contains :: "'k \<Rightarrow> ('k, 'v) btree_map \<Rightarrow> bool" where
  "bt_contains k m = (map_of m k \<noteq> None)"

abbreviation bt_keys :: "('k, 'v) btree_map \<Rightarrow> 'k list" where
  "bt_keys m \<equiv> map fst m"

abbreviation bt_values :: "('k, 'v) btree_map \<Rightarrow> 'v list" where
  "bt_values m \<equiv> map snd m"

text \<open>\<open>entry(k).or_insert(v)\<close>: the value stays when the key is present.\<close>

definition bt_or_insert :: "'k::linorder \<Rightarrow> 'v \<Rightarrow> ('k, 'v) btree_map \<Rightarrow> ('k, 'v) btree_map" where
  "bt_or_insert k v m = (case map_of m k of None \<Rightarrow> bt_insert k v m | Some _ \<Rightarrow> m)"

text \<open>\<open>collect()\<close> into a map: a later entry replaces an earlier one.\<close>

definition bt_collect :: "('k::linorder \<times> 'v) list \<Rightarrow> ('k, 'v) btree_map" where
  "bt_collect es = fold (\<lambda>e m. bt_insert (fst e) (snd e) m) es []"

section \<open>Snapshot files\<close>

text \<open>
  Several components keep their state in one file: \<open>serde_json::to_vec\<close>, written to a temporary
  file and renamed over the old one, read back by \<open>serde_json::from_slice\<close>. The library's two
  functions are parameters and the bytes an abstract type; the code relies on reading back
  what it wrote. A missing file gives the default state.
\<close>

record ('a, 'b) snapshot_codec =
  sn_encode :: "'a \<Rightarrow> 'b"
  sn_decode :: "'b \<Rightarrow> 'a option"

definition snapshot_ok :: "('a, 'b) snapshot_codec \<Rightarrow> bool" where
  "snapshot_ok cd \<longleftrightarrow> (\<forall>x. sn_decode cd (sn_encode cd x) = Some x)"

definition load_snapshot :: "('a, 'b) snapshot_codec \<Rightarrow> 'a \<Rightarrow> 'b option \<Rightarrow> 'a option" where
  "load_snapshot cd initial file = (case file of None \<Rightarrow> Some initial | Some body \<Rightarrow> sn_decode cd body)"

definition store_snapshot :: "('a, 'b) snapshot_codec \<Rightarrow> bool \<Rightarrow> 'a \<Rightarrow> 'b option \<Rightarrow> 'b option" where
  "store_snapshot cd durable x file = (if durable then Some (sn_encode cd x) else file)"

lemma load_store_snapshot:
  "snapshot_ok cd \<Longrightarrow> load_snapshot cd initial (store_snapshot cd True x file) = Some x"
  by (simp add: snapshot_ok_def load_snapshot_def store_snapshot_def)

section \<open>Laws of the helpers\<close>

lemma split_char_not_Nil [simp]: "split_char c s \<noteq> []"
  by (induction s) (auto split: list.splits)

lemma split_char_no_sep: "t \<in> set (split_char c s) \<Longrightarrow> c \<notin> set t"
  by (induction s arbitrary: t) (auto split: list.splits if_splits)

lemma join_char_Cons: "ts \<noteq> [] \<Longrightarrow> join_char c (t # ts) = t @ c # join_char c ts"
  by (cases ts) auto

lemma join_split [simp]: "join_char c (split_char c s) = s"
proof (induction s)
  case Nil
  then show ?case by simp
next
  case (Cons x s)
  obtain t ts where split: "split_char c s = t # ts"
    by (cases "split_char c s") auto
  from Cons split show ?case
    by (cases ts) auto
qed

lemma split_char_append_sep:
  "c \<notin> set t \<Longrightarrow> split_char c (t @ c # s) = t # split_char c s"
  by (induction t) auto

lemma split_char_token: "c \<notin> set t \<Longrightarrow> split_char c t = [t]"
  by (induction t) auto

lemma split_join:
  "ts \<noteq> [] \<Longrightarrow> \<forall>t\<in>set ts. c \<notin> set t \<Longrightarrow> split_char c (join_char c ts) = ts"
  by (induction c ts rule: join_char.induct) (auto simp: split_char_append_sep split_char_token)

lemma decimal_no_colon: "CHR '':'' \<notin> set (decimal n)"
proof (induction n rule: decimal.induct)
  case (1 n)
  have digit: "char_of (48 + d) \<noteq> CHR '':''" if "d < 10" for d :: nat
  proof
    assume "char_of (48 + d) = CHR '':''"
    then have "of_char (char_of (48 + d)) = (of_char CHR '':'' :: nat)" by (rule arg_cong)
    moreover have "(of_char CHR '':'' :: nat) = 58" by (simp add: of_char_def)
    ultimately show False using that by simp
  qed
  show ?case
    by (subst decimal.simps) (use 1 digit [of n] digit [of "n mod 10"] in auto)
qed

definition decimal_value :: "string \<Rightarrow> nat" where
  "decimal_value s = foldl (\<lambda>v c. v * 10 + (of_char c - 48)) 0 s"

lemma decimal_value_decimal: "decimal_value (decimal n) = n"
proof (induction n rule: decimal.induct)
  case (1 n)
  have digit: "of_char (char_of (48 + d)) - 48 = d" if "d < 10" for d :: nat
    using that by simp
  show ?case
    by (subst decimal.simps) (use 1 digit [of n] digit [of "n mod 10"] in \<open>auto simp: decimal_value_def\<close>)
qed

lemma decimal_value_decimal10: "decimal_value (decimal10 n) = n"
proof -
  have "foldl (\<lambda>v c. v * 10 + (of_char c - 48)) 0 (replicate k CHR ''0'') = (0 :: nat)" for k
    by (induction k) (simp_all add: of_char_def)
  then show ?thesis using decimal_value_decimal [of n] by (simp add: decimal_value_def decimal10_def)
qed

lemma decimal10_no_colon: "CHR '':'' \<notin> set (decimal10 n)"
  using decimal_no_colon by (simp add: decimal10_def)

lemma colon_key_inj:
  assumes "s @ CHR '':'' # a = s' @ CHR '':'' # a'" "CHR '':'' \<notin> set a" "CHR '':'' \<notin> set a'"
  shows "s = s' \<and> a = a'"
proof -
  have parts: "takeWhile (\<lambda>c. c \<noteq> CHR '':'') (rev (s @ CHR '':'' # a)) = rev a"
    "dropWhile (\<lambda>c. c \<noteq> CHR '':'') (rev (s @ CHR '':'' # a)) = CHR '':'' # rev s" if "CHR '':'' \<notin> set a" for s a
    using that by (auto simp: takeWhile_append dropWhile_append)
  have "rev a = rev a'" "CHR '':'' # rev s = CHR '':'' # rev s'"
    using parts [OF assms(2), of s] parts [OF assms(3), of s'] unfolding assms(1) by simp_all
  then show ?thesis by simp
qed

lemma decimal10_key_inj: "s @ '':'' @ decimal10 p = s' @ '':'' @ decimal10 p' \<longleftrightarrow> s = s' \<and> p = p'"
  using colon_key_inj [of s "decimal10 p" s' "decimal10 p'"] decimal10_no_colon decimal_value_decimal10
  by (metis append_Cons append_Nil)

lemma min_by_key_None [simp]: "min_by_key f xs = None \<longleftrightarrow> xs = []"
  by (cases xs) (auto split: option.splits)

lemma max_by_key_None [simp]: "max_by_key f xs = None \<longleftrightarrow> xs = []"
  by (cases xs) (auto split: option.splits)

lemma min_by_key_Some:
  "min_by_key f xs = Some y \<Longrightarrow> y \<in> set xs \<and> (\<forall>x\<in>set xs. f y \<le> f x)"
proof (induction xs arbitrary: y)
  case Nil
  then show ?case by simp
next
  case (Cons x xs)
  show ?case
  proof (cases "min_by_key f xs")
    case None
    with Cons.prems show ?thesis by simp
  next
    case (Some z)
    with Cons.IH have "z \<in> set xs \<and> (\<forall>x\<in>set xs. f z \<le> f x)" by blast
    with Cons.prems Some show ?thesis
      by (auto split: if_splits intro: order_trans)
  qed
qed

lemma max_by_key_Some:
  "max_by_key f xs = Some y \<Longrightarrow> y \<in> set xs \<and> (\<forall>x\<in>set xs. f x \<le> f y)"
proof (induction xs arbitrary: y)
  case Nil
  then show ?case by simp
next
  case (Cons x xs)
  show ?case
  proof (cases "max_by_key f xs")
    case None
    with Cons.prems show ?thesis by simp
  next
    case (Some z)
    with Cons.IH have "z \<in> set xs \<and> (\<forall>x\<in>set xs. f x \<le> f z)" by blast
    with Cons.prems Some show ?thesis
      by (auto split: if_splits intro: order_trans)
  qed
qed

lemma find_map_Some: "find_map f xs = Some y \<Longrightarrow> \<exists>x\<in>set xs. f x = Some y"
  by (induction xs) (auto split: option.splits)

lemma find_map_None [simp]: "find_map f xs = None \<longleftrightarrow> (\<forall>x\<in>set xs. f x = None)"
  by (induction xs) (auto split: option.splits)

lemma get_at_Some [simp]: "get_at xs i = Some x \<longleftrightarrow> i < length xs \<and> xs ! i = x"
  by (auto simp: get_at_def)

lemma get_at_None [simp]: "get_at xs i = None \<longleftrightarrow> length xs \<le> i"
  by (auto simp: get_at_def)

lemma in_set_concat_map:
  "x \<in> set (concat (map f xs)) \<longleftrightarrow> (\<exists>y\<in>set xs. x \<in> set (f y))"
  by auto

lemma find_SomeD: "find P xs = Some x \<Longrightarrow> x \<in> set xs \<and> P x"
  by (induction xs) (auto split: if_splits)

lemma find_append:
  "find P (xs @ ys) = (case find P xs of None \<Rightarrow> find P ys | Some x \<Rightarrow> Some x)"
  by (induction xs) auto

subsection \<open>Saturating arithmetic\<close>

lemma sat_add64_le [sat_simps]: "sat_add64 a b \<le> u64_max"
  by (simp add: sat_add64_def)

lemma sat_add64_ge [sat_simps]: "a \<le> u64_max \<Longrightarrow> a \<le> sat_add64 a b"
  by (simp add: sat_add64_def)

lemma sat_add64_exact: "a + b \<le> u64_max \<Longrightarrow> sat_add64 a b = a + b"
  by (simp add: sat_add64_def)

lemma sat_add64_le_iff: "m < u64_max \<Longrightarrow> sat_add64 a b \<le> m \<longleftrightarrow> a + b \<le> m"
  by (auto simp: sat_add64_def)

lemma unat_word_sat_add:
  "unat (word_sat_add a b) = min (unat a + unat b) (2 ^ LENGTH('a) - 1)"
  for a b :: "'a::len word"
proof (cases "unat a + unat b < 2 ^ LENGTH('a)")
  case True
  then have "unat (a + b) = unat a + unat b"
    by (rule unat_add_lem [THEN iffD1])
  with True show ?thesis by (simp add: word_sat_add_def)
next
  case False
  then show ?thesis by (simp add: word_sat_add_def unsigned_minus_1_eq_mask mask_eq_exp_minus_1)
qed

lemma unat_word_sat_sub: "unat (word_sat_sub a b) = unat a - unat b"
  by (auto simp: word_sat_sub_def word_le_nat_alt unat_sub)

lemma checked_add_Some:
  "checked_add a b = Some c \<longleftrightarrow> unat a + unat b < 2 ^ LENGTH('a) \<and> unat c = unat a + unat b"
  for a b c :: "'a::len word"
proof
  assume "checked_add a b = Some c"
  then show "unat a + unat b < 2 ^ LENGTH('a) \<and> unat c = unat a + unat b"
    using unat_add_lem [of a b] by (auto simp: checked_add_def split: if_splits)
next
  assume h: "unat a + unat b < 2 ^ LENGTH('a) \<and> unat c = unat a + unat b"
  then have "unat (a + b) = unat c"
    using unat_add_lem [of a b] by simp
  then have "a + b = c" by (simp add: word_unat_eq_iff)
  with h show "checked_add a b = Some c" by (simp add: checked_add_def)
qed

text \<open>
  The guard the quota code uses before an addition: \<open>used.saturating_add(n) > limit\<close>. Below the
  maximum of the type it is exact, and the addition that follows does not overflow.
\<close>

lemma word_less_max: "w < - 1 \<longleftrightarrow> unat w < 2 ^ LENGTH('a) - 1" for w :: "'a::len word"
  by (simp add: word_less_nat_alt unsigned_minus_1_eq_mask mask_eq_exp_minus_1)

lemma sat_guard_iff:
  "limit < - 1 \<Longrightarrow> word_sat_add a b \<le> limit \<longleftrightarrow> unat a + unat b \<le> unat limit" for limit :: "'a::len word"
  by (auto simp: word_less_max word_le_nat_alt unat_word_sat_add)

lemma sat_guard_add:
  fixes limit :: "'a::len word"
  assumes "limit < - 1" and "word_sat_add a b \<le> limit"
  shows "checked_add a b = Some (a + b) \<and> unat (a + b) = unat a + unat b \<and> a + b \<le> limit"
proof -
  have sum: "unat a + unat b \<le> unat limit" using sat_guard_iff [OF assms(1)] assms(2) by blast
  then have fits: "unat a + unat b < 2 ^ LENGTH('a)" using assms(1) by (simp add: word_less_max)
  then have "unat (a + b) = unat a + unat b" by (rule unat_add_lem [THEN iffD1])
  with sum fits show ?thesis by (simp add: checked_add_def word_le_nat_alt)
qed

subsection \<open>Ordered maps\<close>

lemma bt_wf_Nil [simp]: "bt_wf []"
  by (simp add: bt_wf_def)

lemma bt_wf_distinct: "bt_wf m \<Longrightarrow> distinct (map fst m)"
  by (simp add: bt_wf_def strict_sorted_iff)

lemma key_iff: "k \<in> fst ` set m \<longleftrightarrow> (\<exists>v. map_of m k = Some v)"
  using map_of_eq_None_iff [of m k] by auto

lemma bt_contains_iff: "bt_contains k m \<longleftrightarrow> k \<in> fst ` set m"
  by (auto simp: bt_contains_def key_iff)

lemma map_of_bt_insert [simp, bt_simps]: "map_of (bt_insert k v m) = (map_of m)(k \<mapsto> v)"
  if "bt_wf m" for k :: "'k::linorder" and v :: 'v
  using that
proof (induction m)
  case Nil
  then show ?case by simp
next
  case (Cons e m)
  then have "bt_wf m" and less: "\<forall>x\<in>set m. fst e < fst x"
    by (auto simp: bt_wf_def)
  with Cons.IH have IH: "map_of (bt_insert k v m) = (map_of m)(k \<mapsto> v)" by blast
  have "map_of m k = None" if "k \<le> fst e"
    using that less by (force simp: map_of_eq_None_iff)
  with IH show ?case
    by (cases e) (auto simp: fun_eq_iff)
qed

lemma set_bt_insert_keys [simp]: "fst ` set (bt_insert k v m) = insert k (fst ` set m)"
  by (induction m) (auto simp: insert_commute)

lemma set_bt_insert_subset: "set (bt_insert k v m) \<subseteq> insert (k, v) (set m)"
  by (induction m) auto

lemma bt_wf_insert [simp]: "bt_wf m \<Longrightarrow> bt_wf (bt_insert k v m)"
proof (induction m)
  case Nil
  then show ?case by (simp add: bt_wf_def)
next
  case (Cons e m)
  then have wf: "bt_wf (bt_insert k v m)" and less: "\<forall>x\<in>fst ` set m. fst e < x"
    by (auto simp: bt_wf_def)
  have keys: "fst ` set (bt_insert k v m) = insert k (fst ` set m)" by simp
  show ?case
  proof (cases "fst e < k")
    case True
    with less keys have "\<forall>x\<in>fst ` set (bt_insert k v m). fst e < x" by auto
    with True wf show ?thesis by (auto simp: bt_wf_def)
  next
    case False
    with Cons.prems show ?thesis by (auto simp: bt_wf_def)
  qed
qed

lemma map_of_filter_key:
  "map_of (filter (\<lambda>e. P (fst e)) m) k = (if P k then map_of m k else None)"
  by (induction m) auto

lemma map_of_bt_remove [simp, bt_simps]: "map_of (bt_remove k m) = (map_of m)(k := None)"
  by (auto simp: bt_remove_def fun_eq_iff map_of_filter_key [where P = "\<lambda>x. x \<noteq> k"])

lemma bt_wf_filter [simp]: "bt_wf m \<Longrightarrow> bt_wf (filter P m)"
  by (auto simp: bt_wf_def sorted_wrt_map intro: sorted_wrt_filter)

lemma bt_wf_remove [simp]: "bt_wf m \<Longrightarrow> bt_wf (bt_remove k m)"
  by (simp add: bt_remove_def)

lemma bt_wf_retain [simp]: "bt_wf m \<Longrightarrow> bt_wf (bt_retain P m)"
  by (simp add: bt_retain_def)

lemma bt_keys_update [simp]: "map fst (bt_update k f m) = map fst m"
  by (simp add: bt_update_def comp_def if_distrib cong: if_cong)

lemma bt_wf_update [simp]: "bt_wf (bt_update k f m) = bt_wf m"
  by (simp add: bt_wf_def)

lemma map_of_bt_update [simp, bt_simps]:
  "map_of (bt_update k f m) k' = (if k' = k then map_option f (map_of m k) else map_of m k')"
  by (induction m) (auto simp: bt_update_def)

lemma bt_keys_map_values [simp]: "map fst (bt_map_values f m) = map fst m"
  by (simp add: bt_map_values_def)

lemma bt_wf_map_values [simp]: "bt_wf (bt_map_values f m) = bt_wf m"
  by (simp add: bt_wf_def)

lemma map_of_bt_map_values [simp, bt_simps]:
  "map_of (bt_map_values f m) k = map_option f (map_of m k)"
  by (induction m) (auto simp: bt_map_values_def)

lemma bt_wf_or_insert [simp]: "bt_wf m \<Longrightarrow> bt_wf (bt_or_insert k v m)"
  by (simp add: bt_or_insert_def split: option.split)

lemma map_of_bt_or_insert [simp, bt_simps]:
  "bt_wf m \<Longrightarrow> map_of (bt_or_insert k v m) k' =
     (if k' = k then Some (case map_of m k of None \<Rightarrow> v | Some w \<Rightarrow> w) else map_of m k')"
  by (auto simp: bt_or_insert_def split: option.split)

lemma map_of_bt_retain [simp, bt_simps]:
  "bt_wf m \<Longrightarrow> map_of (bt_retain P m) k =
     (case map_of m k of None \<Rightarrow> None | Some v \<Rightarrow> if P k v then Some v else None)"
proof (induction m)
  case Nil
  then show ?case by (simp add: bt_retain_def)
next
  case (Cons e m)
  then have "bt_wf m" and "\<forall>x\<in>set m. fst e < fst x"
    by (auto simp: bt_wf_def)
  moreover from this have "map_of m (fst e) = None"
    by (force simp: map_of_eq_None_iff)
  ultimately show ?case
    using Cons.IH by (cases e) (auto simp: bt_retain_def split: option.splits)
qed

lemma bt_ext:
  assumes wf: "bt_wf m" "bt_wf m'" and eq: "map_of m = map_of m'"
  shows "m = m'"
proof (rule map_sorted_distinct_set_unique [where f = fst])
  from wf have d: "distinct (map fst m)" "distinct (map fst m')"
    by (auto intro: bt_wf_distinct)
  with eq show same: "set m = set m'"
    using map_of_inject_set by blast
  have "inj_on fst (set m)"
    using d(1) by (simp add: distinct_map)
  with same show "inj_on fst (set m \<union> set m')" by simp
qed (use wf in \<open>auto simp: bt_wf_def strict_sorted_iff\<close>)

lemma bt_collect_snoc:
  "bt_collect (es @ [e]) = bt_insert (fst e) (snd e) (bt_collect es)"
  by (simp add: bt_collect_def)

lemma bt_wf_collect [simp]: "bt_wf (bt_collect es)"
  by (induction es rule: rev_induct) (simp_all add: bt_collect_snoc, simp add: bt_collect_def)

lemma map_of_bt_collect [simp, bt_simps]: "map_of (bt_collect es) = map_of (rev es)"
  by (induction es rule: rev_induct) (simp_all add: bt_collect_snoc, simp add: bt_collect_def)

lemma bt_wf_Cons_iff: "bt_wf (e # m) \<longleftrightarrow> bt_wf m \<and> (\<forall>x\<in>set m. fst e < fst x)"
  by (auto simp: bt_wf_def)

lemma bt_insert_last: "\<forall>x\<in>set m. fst x < k \<Longrightarrow> bt_insert k v m = m @ [(k, v)]"
  by (induction m) auto

lemma bt_insert_present: "map_of m k = Some v \<Longrightarrow> bt_wf m \<Longrightarrow> bt_insert k w m = bt_update k (\<lambda>_. w) m"
  by (rule bt_ext) (auto simp: fun_eq_iff)

lemma length_bt_insert:
  "length (bt_insert k v m) = (if k \<in> fst ` set m then length m else Suc (length m))"
  if "bt_wf m"
proof -
  have "card (set (map fst (bt_insert k v m))) = card (insert k (set (map fst m)))" by simp
  then have "length (bt_insert k v m) = card (insert k (set (map fst m)))"
    using distinct_card [OF bt_wf_distinct [OF bt_wf_insert [OF that, of k v]]] by simp
  moreover have "card (set (map fst m)) = length m"
    using distinct_card [OF bt_wf_distinct [OF that]] by simp
  ultimately show ?thesis by (simp add: card_insert_if)
qed

lemma bt_value_iff: "bt_wf m \<Longrightarrow> v \<in> snd ` set m \<longleftrightarrow> (\<exists>k. map_of m k = Some v)"
  by (drule bt_wf_distinct) (auto simp: map_of_eq_Some_iff intro: rev_image_eqI)

lemma length_filter_bt:
  "bt_wf m \<Longrightarrow> length (filter P m) = card {k. \<exists>v. map_of m k = Some v \<and> P (k, v)}"
proof -
  assume wf: "bt_wf m"
  then have d: "distinct (map fst m)" by (rule bt_wf_distinct)
  then have "distinct (map fst (filter P m))" by (simp add: distinct_map_filter)
  then have "length (filter P m) = card (set (map fst (filter P m)))"
    using distinct_card by fastforce
  also have "set (map fst (filter P m)) = {k. \<exists>v. map_of m k = Some v \<and> P (k, v)}"
    using d by (force simp: map_of_eq_Some_iff)
  finally show ?thesis .
qed

lemma map_of_rev_distinct: "distinct (map fst es) \<Longrightarrow> map_of (rev es) = map_of es"
  using map_of_inject_set [of "rev es" es] by (simp add: rev_map [symmetric])

lemma bt_collect_wf: "bt_wf es \<Longrightarrow> bt_collect es = es"
  by (rule bt_ext) (simp_all add: map_of_rev_distinct bt_wf_distinct)

lemma fold_bt_insert: "fold (\<lambda>x. bt_insert (f x) (g x)) xs [] = bt_collect (map (\<lambda>x. (f x, g x)) xs)"
  by (simp add: bt_collect_def fold_map comp_def)

lemma fold_bt_or_insert_present:
  "\<forall>x\<in>set xs. f x \<in> fst ` set m \<Longrightarrow> fold (\<lambda>x. bt_or_insert (f x) v) xs m = m"
  by (induction xs) (auto simp: bt_or_insert_def key_iff)

lemma length_fold_bt_remove: "length (fold bt_remove ks m) \<le> length m"
proof (induction ks arbitrary: m)
  case (Cons k ks)
  have "length (bt_remove k m) \<le> length m" by (simp add: bt_remove_def)
  with Cons [of "bt_remove k m"] show ?case by simp
qed simp

lemma set_fold_bt_remove: "set (fold bt_remove ks m) \<subseteq> set m"
proof (induction ks arbitrary: m)
  case (Cons k ks)
  have "set (bt_remove k m) \<subseteq> set m" by (auto simp: bt_remove_def)
  with Cons show ?case by fastforce
qed simp

section \<open>Interfaces\<close>

subsection \<open>Finite maps\<close>

text \<open>What the components rely on when they keep a \<open>BTreeMap\<close> or a \<open>HashMap\<close>.\<close>

locale finite_map =
  fixes empty :: 'm
    and get :: "'m \<Rightarrow> 'k \<Rightarrow> 'v option"
    and put :: "'k \<Rightarrow> 'v \<Rightarrow> 'm \<Rightarrow> 'm"
    and del :: "'k \<Rightarrow> 'm \<Rightarrow> 'm"
    and wf :: "'m \<Rightarrow> bool"
  assumes get_empty: "get empty k = None"
    and get_put: "wf m \<Longrightarrow> get (put k v m) k' = (if k' = k then Some v else get m k')"
    and get_del: "wf m \<Longrightarrow> get (del k m) k' = (if k' = k then None else get m k')"
    and wf_empty: "wf empty"
    and wf_put: "wf m \<Longrightarrow> wf (put k v m)"
    and wf_del: "wf m \<Longrightarrow> wf (del k m)"
begin

lemma wf_fold_put: "wf m \<Longrightarrow> wf (fold (\<lambda>x. put (f x) (g x)) xs m)"
  by (induction xs arbitrary: m) (auto intro: wf_put)

text \<open>A loop that stores under distinct keys leaves each key with the value stored for it.\<close>

lemma get_fold_put:
  "wf m \<Longrightarrow> get (fold (\<lambda>x. put (f x) (g x)) xs m) k =
     (case find (\<lambda>x. f x = k) (rev xs) of None \<Rightarrow> get m k | Some x \<Rightarrow> Some (g x))"
proof (induction xs arbitrary: m)
  case Nil
  then show ?case by simp
next
  case (Cons x xs)
  then have "wf (put (f x) (g x) m)" by (auto intro: wf_put)
  then have "get (fold (\<lambda>x. put (f x) (g x)) xs (put (f x) (g x) m)) k =
      (case find (\<lambda>x. f x = k) (rev xs) of
         None \<Rightarrow> get (put (f x) (g x) m) k | Some x \<Rightarrow> Some (g x))"
    by (rule Cons.IH)
  with Cons.prems show ?case
    by (auto simp: find_append get_put split: option.splits)
qed

lemma wf_fold_del: "wf m \<Longrightarrow> wf (fold del ks m)"
  by (induction ks arbitrary: m) (auto intro: wf_del)

lemma get_fold_del:
  "wf m \<Longrightarrow> get (fold del ks m) k = (if k \<in> set ks then None else get m k)"
  by (induction ks arbitrary: m) (auto simp: get_del wf_del)

end

interpretation bt: finite_map "[]" map_of bt_insert bt_remove bt_wf
  by unfold_locales auto

subsection \<open>Transition systems\<close>

text \<open>
  A stateful component as the set of its starting states and the relation of its
  operations; the client lemma is that an invariant of every operation holds in every state
  the component can reach.
\<close>

inductive reaches :: "('s \<Rightarrow> bool) \<Rightarrow> ('s \<Rightarrow> 's \<Rightarrow> bool) \<Rightarrow> 's \<Rightarrow> bool" for init step where
  reaches_init: "init s \<Longrightarrow> reaches init step s"
| reaches_step: "reaches init step s \<Longrightarrow> step s t \<Longrightarrow> reaches init step t"

locale invariant_system =
  fixes init :: "'s \<Rightarrow> bool"
    and step :: "'s \<Rightarrow> 's \<Rightarrow> bool"
    and inv :: "'s \<Rightarrow> bool"
  assumes init_inv: "init s \<Longrightarrow> inv s"
    and step_inv: "inv s \<Longrightarrow> step s t \<Longrightarrow> inv t"
begin

lemma reaches_inv: "reaches init step s \<Longrightarrow> inv s"
  by (induction rule: reaches.induct) (auto intro: init_inv step_inv)

lemma steps_inv: "step\<^sup>*\<^sup>* s t \<Longrightarrow> inv s \<Longrightarrow> inv t"
  by (induction rule: rtranclp_induct) (auto intro: step_inv)

end

text \<open>
  Fencing: a number that no operation decreases. A token that was handed out under an older
  number and is refused now is refused in every later state.
\<close>

locale monotone_epoch = invariant_system +
  fixes epoch :: "'s \<Rightarrow> nat"
  assumes epoch_step: "inv s \<Longrightarrow> step s t \<Longrightarrow> epoch s \<le> epoch t"
begin

lemma epoch_steps: "step\<^sup>*\<^sup>* s t \<Longrightarrow> inv s \<Longrightarrow> epoch s \<le> epoch t"
proof (induction rule: rtranclp_induct)
  case base
  then show ?case by simp
next
  case (step t u)
  then have "inv t" by (auto intro: steps_inv)
  with step show ?case by (meson epoch_step le_trans)
qed

lemma stale_stays_stale:
  "step\<^sup>*\<^sup>* s t \<Longrightarrow> inv s \<Longrightarrow> e < epoch s \<Longrightarrow> e \<noteq> epoch t"
  using epoch_steps by fastforce

end

end
