(* ===== verification/Consumer_Group.thy ===== *)
theory Consumer_Group
  imports Morrow_Prelude
begin

text \<open>
  The consumer-group coordinator of \<open>crates/server/src/consumer_group.rs\<close>: membership,
  generations, partition assignment by three strategies, fenced offset commits, and the
  record from which a coordinator is recovered or replicated.

  An operation takes the coordinator and returns the code's result together with the
  coordinator as the code leaves it, on the error branches too. A \<open>BTreeSet<u32>\<close> is a set
  of naturals.
\<close>

section \<open>Data\<close>

datatype assignment_strategy = Range | RoundRobin | Sticky

record group_config =
  gc_heartbeat_timeout_ms :: u64
  gc_rebalance_timeout_ms :: u64
  gc_strategy :: assignment_strategy
  gc_max_members :: nat
  gc_max_partitions :: u32

record member =
  mem_id :: string
  mem_instance_id :: "string option"
  mem_last_heartbeat_ms :: u64

record assignment =
  as_generation :: u64
  as_member_id :: string
  as_partitions :: "u32 list"

record rebalance =
  rb_generation :: u64
  rb_moved_partitions :: "u32 list"
  rb_deadline_ms :: u64

record group_snapshot =
  gs_generation :: u64
  gs_members :: "member list"
  gs_assignments :: "assignment list"
  gs_committed_offsets :: "(u32, u64) btree_map"
  gs_rebalance :: "rebalance option"

record group_record =
  gr_partitions :: u32
  gr_config :: group_config
  gr_snapshot :: group_snapshot

datatype group_error =
    UnknownMember
  | StaleGeneration (expected: u64) (actual: u64)
  | MemberAlreadyExists
  | InvalidTimeout
  | PartitionCountCannotDecrease
  | QuotaExceeded

record group_coordinator =
  g_config :: group_config
  g_partitions :: u32
  g_generation :: u64
  g_members :: "(string, member) btree_map"
  g_assignments :: "(string, u32 set) btree_map"
  g_previous_assignments :: "(string, u32 set) btree_map"
  g_committed_offsets :: "(u32, u64) btree_map"
  g_rebalance :: "rebalance option"

definition default_group_config :: group_config where
  "default_group_config =
     \<lparr>gc_heartbeat_timeout_ms = 30000, gc_rebalance_timeout_ms = 60000, gc_strategy = Sticky,
      gc_max_members = 10000, gc_max_partitions = 10000\<rparr>"

section \<open>Operations\<close>

definition group_new :: "u32 \<Rightarrow> group_config \<Rightarrow> group_error + group_coordinator" where
  "group_new parts config =
     (if gc_heartbeat_timeout_ms config = 0 \<or> gc_rebalance_timeout_ms config = 0
      then Err InvalidTimeout
      else if parts = 0 \<or> parts > gc_max_partitions config \<or> gc_max_members config = 0
      then Err QuotaExceeded
      else Ok \<lparr>g_config = config, g_partitions = parts, g_generation = 0, g_members = [],
               g_assignments = [], g_previous_assignments = [], g_committed_offsets = [],
               g_rebalance = None\<rparr>)"

text \<open>One step of each assignment loop: where partition \<open>p\<close> goes.\<close>

definition range_owner :: "u32 \<Rightarrow> string list \<Rightarrow> u32 \<Rightarrow> string" where
  "range_owner parts ids p = ids ! min (p * length ids div max parts 1) (length ids - 1)"

definition round_robin_owner :: "string list \<Rightarrow> u32 \<Rightarrow> string" where
  "round_robin_owner ids p = ids ! (p mod length ids)"

definition assigned_count :: "(string, u32 set) btree_map \<Rightarrow> string \<Rightarrow> nat" where
  "assigned_count asg m = (case map_of asg m of None \<Rightarrow> 0 | Some ps \<Rightarrow> card ps)"

definition div_ceil :: "nat \<Rightarrow> nat \<Rightarrow> nat" where
  "div_ceil a b = a div b + (if a mod b = 0 then 0 else 1)"

definition sticky_owner ::
  "nat \<Rightarrow> (string, u32 set) btree_map \<Rightarrow> string list \<Rightarrow> (string, u32 set) btree_map \<Rightarrow> u32 \<Rightarrow> string" where
  "sticky_owner max_per_member prev ids asg p =
     (let previous_owner = find_map (\<lambda>(m, ps). if p \<in> ps then Some m else None) prev;
          kept = (case previous_owner of
                    None \<Rightarrow> None
                  | Some m \<Rightarrow> (case map_of asg m of
                                 None \<Rightarrow> None
                               | Some ps \<Rightarrow> if card ps < max_per_member then Some m else None))
      in case kept of
           Some m \<Rightarrow> m
         | None \<Rightarrow> the (min_by_key (\<lambda>m. (assigned_count asg m, m)) ids))"

definition sticky_loop ::
  "nat \<Rightarrow> (string, u32 set) btree_map \<Rightarrow> string list \<Rightarrow> (string, u32 set) btree_map \<Rightarrow> u32
   \<Rightarrow> (string, u32 set) btree_map" where
  "sticky_loop max_per_member prev ids asg parts =
     fold (\<lambda>p a. bt_update (sticky_owner max_per_member prev ids a p) (insert p) a) [0 ..< parts] asg"

definition assign_sticky ::
  "u32 \<Rightarrow> (string, u32 set) btree_map \<Rightarrow> string list \<Rightarrow> (string, u32 set) btree_map
   \<Rightarrow> (string, u32 set) btree_map" where
  "assign_sticky parts prev ids asg =
     sticky_loop (div_ceil parts (length ids mod 2 ^ 32)) prev ids asg parts"

definition assign_partitions ::
  "assignment_strategy \<Rightarrow> u32 \<Rightarrow> (string, u32 set) btree_map \<Rightarrow> string list
   \<Rightarrow> (string, u32 set) btree_map" where
  "assign_partitions strategy parts prev ids =
     (let empty = map (\<lambda>m. (m, {})) ids in
      if ids = [] then empty
      else case strategy of
        Range \<Rightarrow> fold (\<lambda>p. bt_update (range_owner parts ids p) (insert p)) [0 ..< parts] empty
      | RoundRobin \<Rightarrow> fold (\<lambda>p. bt_update (round_robin_owner ids p) (insert p)) [0 ..< parts] empty
      | Sticky \<Rightarrow> assign_sticky parts prev ids empty)"

text \<open>The partitions that some member owned before and does not own now.\<close>

definition moved_partitions ::
  "(string, u32 set) btree_map \<Rightarrow> (string, u32 set) btree_map \<Rightarrow> u32 set" where
  "moved_partitions prev asg =
     (\<Union>(m, ps)\<in>set prev. Set.filter (\<lambda>p. \<not> (case map_of asg m of None \<Rightarrow> False | Some cur \<Rightarrow> p \<in> cur)) ps)"

definition group_rebalance :: "group_coordinator \<Rightarrow> u64 \<Rightarrow> group_coordinator" where
  "group_rebalance g now_ms =
     (let gen = sat_add64 (g_generation g) 1;
          prev = g_assignments g;
          asg = assign_partitions (gc_strategy (g_config g)) (g_partitions g) prev (bt_keys (g_members g));
          moved = moved_partitions prev asg
      in g\<lparr>g_generation := gen,
           g_previous_assignments := prev,
           g_assignments := asg,
           g_rebalance :=
             (if moved = {} then None
              else Some \<lparr>rb_generation = gen,
                         rb_moved_partitions = sorted_list_of_set moved,
                         rb_deadline_ms = sat_add64 now_ms (gc_rebalance_timeout_ms (g_config g))\<rparr>)\<rparr>)"

definition check_generation :: "group_coordinator \<Rightarrow> u64 \<Rightarrow> group_error option" where
  "check_generation g gen =
     (if gen \<noteq> g_generation g then Some (StaleGeneration (g_generation g) gen) else None)"

definition group_join ::
  "group_coordinator \<Rightarrow> string \<Rightarrow> string option \<Rightarrow> u64 \<Rightarrow> (group_error + u64) \<times> group_coordinator" where
  "group_join g member_id instance_id now_ms =
     (if \<not> bt_contains member_id (g_members g) \<and> length (g_members g) \<ge> gc_max_members (g_config g)
      then (Err QuotaExceeded, g)
      else let members = bt_insert member_id
                 \<lparr>mem_id = member_id, mem_instance_id = instance_id, mem_last_heartbeat_ms = now_ms\<rparr>
                 (bt_remove member_id (g_members g));
               g' = group_rebalance (g\<lparr>g_members := members\<rparr>) now_ms
           in (Ok (g_generation g'), g'))"

definition group_expand_partitions ::
  "group_coordinator \<Rightarrow> u32 \<Rightarrow> u64 \<Rightarrow> (group_error + unit) \<times> group_coordinator" where
  "group_expand_partitions g parts now_ms =
     (if parts < g_partitions g then (Err PartitionCountCannotDecrease, g)
      else if parts > gc_max_partitions (g_config g) then (Err QuotaExceeded, g)
      else if parts > g_partitions g
      then (Ok (), group_rebalance (g\<lparr>g_partitions := parts\<rparr>) now_ms)
      else (Ok (), g))"

definition group_heartbeat ::
  "group_coordinator \<Rightarrow> string \<Rightarrow> u64 \<Rightarrow> u64 \<Rightarrow> (group_error + unit) \<times> group_coordinator" where
  "group_heartbeat g member_id gen now_ms =
     (case check_generation g gen of
        Some e \<Rightarrow> (Err e, g)
      | None \<Rightarrow>
         (case map_of (g_members g) member_id of
            None \<Rightarrow> (Err UnknownMember, g)
          | Some _ \<Rightarrow>
              (Ok (),
               g\<lparr>g_members := bt_update member_id (\<lambda>m. m\<lparr>mem_last_heartbeat_ms := now_ms\<rparr>) (g_members g),
                 g_rebalance :=
                   (case g_rebalance g of
                      None \<Rightarrow> None
                    | Some r \<Rightarrow> if rb_generation r = gen then None else Some r)\<rparr>)))"

definition group_refresh_member ::
  "group_coordinator \<Rightarrow> string \<Rightarrow> u64 \<Rightarrow> (group_error + u64) \<times> group_coordinator" where
  "group_refresh_member g member_id now_ms =
     (case map_of (g_members g) member_id of
        None \<Rightarrow> (Err UnknownMember, g)
      | Some _ \<Rightarrow>
          (Ok (g_generation g),
           g\<lparr>g_members := bt_update member_id (\<lambda>m. m\<lparr>mem_last_heartbeat_ms := now_ms\<rparr>) (g_members g)\<rparr>))"

definition group_leave ::
  "group_coordinator \<Rightarrow> string \<Rightarrow> u64 \<Rightarrow> u64 \<Rightarrow> (group_error + unit) \<times> group_coordinator" where
  "group_leave g member_id gen now_ms =
     (case check_generation g gen of
        Some e \<Rightarrow> (Err e, g)
      | None \<Rightarrow>
          (if \<not> bt_contains member_id (g_members g) then (Err UnknownMember, g)
           else (Ok (), group_rebalance (g\<lparr>g_members := bt_remove member_id (g_members g)\<rparr>) now_ms)))"

definition group_expired :: "group_coordinator \<Rightarrow> u64 \<Rightarrow> string list" where
  "group_expired g now_ms =
     map mem_id
       (filter (\<lambda>m. now_ms - mem_last_heartbeat_ms m \<ge> gc_heartbeat_timeout_ms (g_config g))
          (bt_values (g_members g)))"

definition group_expire :: "group_coordinator \<Rightarrow> u64 \<Rightarrow> string list \<times> group_coordinator" where
  "group_expire g now_ms =
     (let expired = group_expired g now_ms in
      if expired = [] then (expired, g)
      else (expired,
            group_rebalance (g\<lparr>g_members := fold bt_remove expired (g_members g)\<rparr>) now_ms))"

definition group_commit ::
  "group_coordinator \<Rightarrow> string \<Rightarrow> u64 \<Rightarrow> u32 \<Rightarrow> u64 \<Rightarrow> (group_error + bool) \<times> group_coordinator" where
  "group_commit g member_id gen part offset =
     (case check_generation g gen of
        Some e \<Rightarrow> (Err e, g)
      | None \<Rightarrow>
          (if \<not> bt_contains member_id (g_members g) then (Err UnknownMember, g)
           else if \<not> (case map_of (g_assignments g) member_id of None \<Rightarrow> False | Some ps \<Rightarrow> part \<in> ps)
           then (Err UnknownMember, g)
           else
             (let offsets = bt_or_insert part 0 (g_committed_offsets g);
                  current = the (map_of offsets part)
              in if offset \<le> current then (Ok False, g\<lparr>g_committed_offsets := offsets\<rparr>)
                 else (Ok True, g\<lparr>g_committed_offsets := bt_insert part offset offsets\<rparr>))))"

definition group_assigned_partitions ::
  "group_coordinator \<Rightarrow> string \<Rightarrow> u64 \<Rightarrow> group_error + u32 set" where
  "group_assigned_partitions g member_id gen =
     (case check_generation g gen of
        Some e \<Rightarrow> Err e
      | None \<Rightarrow> (case map_of (g_assignments g) member_id of None \<Rightarrow> Err UnknownMember | Some ps \<Rightarrow> Ok ps))"

definition group_snapshot_of :: "group_coordinator \<Rightarrow> group_snapshot" where
  "group_snapshot_of g =
     \<lparr>gs_generation = g_generation g,
      gs_members = bt_values (g_members g),
      gs_assignments =
        sort_key as_member_id
          (map (\<lambda>(m, ps). \<lparr>as_generation = g_generation g, as_member_id = m,
                            as_partitions = sorted_list_of_set ps\<rparr>) (g_assignments g)),
      gs_committed_offsets = g_committed_offsets g,
      gs_rebalance = g_rebalance g\<rparr>"

definition group_record_of :: "group_coordinator \<Rightarrow> group_record" where
  "group_record_of g =
     \<lparr>gr_partitions = g_partitions g, gr_config = g_config g, gr_snapshot = group_snapshot_of g\<rparr>"

definition from_record_internal :: "group_record \<Rightarrow> bool \<Rightarrow> group_error + group_coordinator" where
  "from_record_internal r recovery_fence =
     (let snap = gr_snapshot r;
          stored = fold (\<lambda>a. bt_insert (as_member_id a) (set (as_partitions a))) (gs_assignments snap) [];
          assignments = fold (\<lambda>m. bt_or_insert (mem_id m) {}) (gs_members snap) stored;
          config = gr_config r
      in if gc_heartbeat_timeout_ms config = 0 \<or> gc_rebalance_timeout_ms config = 0
         then Err InvalidTimeout
         else if gc_max_members config = 0 \<or> gr_partitions r = 0
                 \<or> gr_partitions r > gc_max_partitions config
         then Err QuotaExceeded
         else Ok
           \<lparr>g_config = config,
            g_partitions = gr_partitions r,
            g_generation = (if recovery_fence then sat_add64 (gs_generation snap) 1 else gs_generation snap),
            g_members = (if recovery_fence then []
                         else fold (\<lambda>m. bt_insert (mem_id m) m) (gs_members snap) []),
            g_assignments = (if recovery_fence then [] else assignments),
            g_previous_assignments = assignments,
            g_committed_offsets = gs_committed_offsets snap,
            g_rebalance = (if recovery_fence then None else gs_rebalance snap)\<rparr>)"

definition from_record :: "group_record \<Rightarrow> group_error + group_coordinator" where
  "from_record r = from_record_internal r True"

definition from_replicated_record :: "group_record \<Rightarrow> group_error + group_coordinator" where
  "from_replicated_record r = from_record_internal r False"

section \<open>Assignment\<close>

definition owns :: "(string, u32 set) btree_map \<Rightarrow> string \<Rightarrow> u32 \<Rightarrow> bool" where
  "owns asg m p \<longleftrightarrow> (\<exists>ps. map_of asg m = Some ps \<and> p \<in> ps)"

text \<open>The first \<open>n\<close> partitions are handed out, each to exactly one of the members \<open>ids\<close>.\<close>

definition partitioned :: "string list \<Rightarrow> nat \<Rightarrow> (string, u32 set) btree_map \<Rightarrow> bool" where
  "partitioned ids n asg \<longleftrightarrow>
     bt_keys asg = ids
     \<and> (\<forall>m p. owns asg m p \<longrightarrow> p < n)
     \<and> (\<forall>p<n. \<exists>m. owns asg m p)
     \<and> (\<forall>m m' p. owns asg m p \<longrightarrow> owns asg m' p \<longrightarrow> m = m')"

lemma partitioned_set: "partitioned ids n asg \<Longrightarrow> set ids = fst ` set asg"
  by (metis list.set_map partitioned_def)

lemma owns_update:
  "owns (bt_update k (insert p) asg) m q \<longleftrightarrow>
     owns asg m q \<or> (m = k \<and> q = p \<and> k \<in> fst ` set asg)"
  by (cases "map_of asg k") (auto simp: owns_def key_iff)

lemma partitioned_step:
  assumes "partitioned ids n asg" and "m \<in> set ids"
  shows "partitioned ids (Suc n) (bt_update m (insert n) asg)"
proof -
  from assms have keys: "bt_keys asg = ids" and m: "m \<in> fst ` set asg"
    by (auto simp: partitioned_def)
  with assms show ?thesis
    unfolding partitioned_def by (auto simp: owns_update less_Suc_eq)
qed

lemma partitioned_empty: "partitioned ids 0 (map (\<lambda>m. (m, {})) ids)"
proof -
  have "\<not> owns (map (\<lambda>m. (m, {})) ids) m p" for m p
    by (auto simp: owns_def map_of_map_restrict restrict_map_def split: if_splits)
  then show ?thesis by (simp add: partitioned_def comp_def)
qed

lemma partitioned_loop:
  assumes "\<And>a p. bt_keys a = ids \<Longrightarrow> owner a p \<in> set ids"
  shows "partitioned ids n (fold (\<lambda>p a. bt_update (owner a p) (insert p) a) [0 ..< n] (map (\<lambda>m. (m, {})) ids))"
proof (induction n)
  case 0
  show ?case using partitioned_empty by simp
next
  case (Suc n)
  then have "owner (fold (\<lambda>p a. bt_update (owner a p) (insert p) a) [0 ..< n] (map (\<lambda>m. (m, {})) ids)) n \<in> set ids"
    by (intro assms) (simp add: partitioned_def)
  with Suc show ?case by (simp add: partitioned_step)
qed

lemma range_owner_in: "ids \<noteq> [] \<Longrightarrow> range_owner parts ids p \<in> set ids"
  unfolding range_owner_def by (rule nth_mem) (cases ids, auto)

lemma round_robin_owner_in: "ids \<noteq> [] \<Longrightarrow> round_robin_owner ids p \<in> set ids"
  unfolding round_robin_owner_def by (rule nth_mem) simp

lemma sticky_owner_in:
  assumes "bt_keys asg = ids" and "ids \<noteq> []"
  shows "sticky_owner k prev ids asg p \<in> set ids"
proof -
  obtain m where m: "min_by_key (\<lambda>m. (assigned_count asg m, m)) ids = Some m"
    using assms(2) by (cases "min_by_key (\<lambda>m. (assigned_count asg m, m)) ids") auto
  then have "m \<in> set ids" by (blast dest: min_by_key_Some)
  moreover have "m' \<in> set ids" if "map_of asg m' = Some ps" for m' ps
    using that unfolding assms(1) [symmetric] set_map key_iff by blast
  ultimately show ?thesis
    using m by (auto simp: sticky_owner_def Let_def split: option.splits)
qed

lemma assign_partitions_partitioned:
  "ids \<noteq> [] \<Longrightarrow> partitioned ids parts (assign_partitions strategy parts prev ids)"
  using partitioned_loop [of ids "\<lambda>_. range_owner parts ids" parts]
    partitioned_loop [of ids "\<lambda>_. round_robin_owner ids" parts]
    partitioned_loop [of ids "sticky_owner (div_ceil parts (length ids mod 2 ^ 32)) prev ids" parts,
      folded sticky_loop_def]
  by (auto simp: assign_partitions_def assign_sticky_def Let_def range_owner_in round_robin_owner_in
      sticky_owner_in split: assignment_strategy.split)

lemma assign_partitions_none: "assign_partitions strategy parts prev [] = []"
  by (simp add: assign_partitions_def)

lemma assign_partitions_keys: "bt_keys (assign_partitions strategy parts prev ids) = ids"
  using assign_partitions_partitioned [of ids parts strategy prev]
  by (cases "ids = []") (auto simp: assign_partitions_none partitioned_def)

subsection \<open>Balance\<close>

lemma div_ceil_mult: "0 < b \<Longrightarrow> a \<le> b * div_ceil a b"
proof -
  assume "0 < b"
  have eq: "b * (a div b) + a mod b = a" by (rule mult_div_mod_eq)
  have "a mod b < b" using \<open>0 < b\<close> by simp
  show ?thesis
  proof (cases "a mod b = 0")
    case True
    with eq show ?thesis by (simp add: div_ceil_def)
  next
    case False
    have "a < b * (a div b) + b" using eq \<open>a mod b < b\<close> by linarith
    with False show ?thesis by (simp add: div_ceil_def)
  qed
qed

lemma div_ceil_le:
  assumes "0 < b" and "a \<le> c * b"
  shows "div_ceil a b \<le> c"
proof (cases "a mod b = 0")
  case True
  have "a div b \<le> c * b div b" using assms(2) by (rule div_le_mono)
  with assms(1) True show ?thesis by (simp add: div_ceil_def)
next
  case False
  then have "a \<noteq> c * b" by auto
  with assms(2) have "a < c * b" by simp
  then have "a div b < c" by (rule less_mult_imp_div_less)
  with False show ?thesis by (simp add: div_ceil_def)
qed

lemma owned_static:
  "map_of (fold (\<lambda>p. bt_update (f p) (insert p)) [0 ..< n] (map (\<lambda>m. (m, {})) ids)) m =
     (if m \<in> set ids then Some {p. p < n \<and> f p = m} else None)"
proof (induction n)
  case 0
  then show ?case by (simp add: map_of_map_restrict)
next
  case (Suc n)
  then show ?case by (auto simp: less_Suc_eq)
qed

lemma round_robin_share:
  assumes "0 < k"
  shows "card {p. p < n \<and> p mod k = i} \<le> div_ceil n k"
proof -
  have "inj_on (\<lambda>p. p div k) {p. p < n \<and> p mod k = i}"
    by (auto simp: inj_on_def) (metis div_mult_mod_eq)
  moreover have "(\<lambda>p. p div k) ` {p. p < n \<and> p mod k = i} \<subseteq> {..< div_ceil n k}"
  proof clarify
    fix p assume "p < n"
    then have "p < k * div_ceil n k" using div_ceil_mult [OF assms, of n] by linarith
    then show "p div k < div_ceil n k"
      using assms by (simp add: less_mult_imp_div_less mult.commute)
  qed
  ultimately show ?thesis
    by (metis card_inj_on_le card_lessThan finite_lessThan)
qed

lemma range_share:
  assumes k: "0 < k" and n: "0 < n"
  shows "card {p. p < n \<and> p * k div n = i} \<le> div_ceil n k"
proof -
  define a where "a = div_ceil (i * n) k"
  have "{p. p < n \<and> p * k div n = i} \<subseteq> {a ..< a + div_ceil n k}"
  proof clarify
    fix p assume "p < n" and i: "i = p * k div n"
    have "i * n + p * k mod n = p * k" unfolding i by (rule div_mult_mod_eq)
    moreover have "p * k mod n < n" using n by simp
    ultimately have lower: "i * n \<le> p * k" and upper: "p * k < i * n + n" by linarith+
    from k lower have "a \<le> p" unfolding a_def by (rule div_ceil_le)
    moreover have "p < a + div_ceil n k"
    proof (rule ccontr)
      assume "\<not> p < a + div_ceil n k"
      then have "k * (a + div_ceil n k) \<le> k * p" by simp
      moreover have "i * n \<le> k * a" "n \<le> k * div_ceil n k"
        using div_ceil_mult [OF k] by (auto simp: a_def)
      ultimately show False using upper by (simp add: algebra_simps)
    qed
    ultimately show "p \<in> {a ..< a + div_ceil n k}" by simp
  qed
  then have "card {p. p < n \<and> p * k div n = i} \<le> card {a ..< a + div_ceil n k}"
    by (intro card_mono) auto
  then show ?thesis by simp
qed

text \<open>The handed-out partitions add up, so a member with the fewest is below the average.\<close>

lemma partitioned_count:
  assumes "partitioned ids n asg" and "distinct ids"
  shows "(\<Sum>m\<in>set ids. assigned_count asg m) = n"
proof -
  let ?own = "\<lambda>m. {p. owns asg m p}"
  have sub: "?own m \<subseteq> {..< n}" for m
    using assms(1) by (auto simp: partitioned_def)
  then have fin: "finite (?own m)" for m by (rule finite_subset) simp
  have "assigned_count asg m = card (?own m)" for m
    by (cases "map_of asg m") (auto simp: assigned_count_def owns_def)
  then have "(\<Sum>m\<in>set ids. assigned_count asg m) = (\<Sum>m\<in>set ids. card (?own m))" by simp
  also have "\<dots> = card (\<Union>m\<in>set ids. ?own m)"
    using fin assms(1) by (intro card_UN_disjoint [symmetric]) (auto simp: partitioned_def)
  also have "(\<Union>m\<in>set ids. ?own m) = {..< n}"
  proof (rule set_eqI)
    fix p
    have "m \<in> set ids" if "owns asg m p" for m
      using that unfolding partitioned_set [OF assms(1)] owns_def key_iff by blast
    then have "(\<exists>m\<in>set ids. owns asg m p) \<longleftrightarrow> (\<exists>m. owns asg m p)" by blast
    also have "\<dots> \<longleftrightarrow> p < n" using assms(1) unfolding partitioned_def by metis
    finally show "p \<in> (\<Union>m\<in>set ids. ?own m) \<longleftrightarrow> p \<in> {..< n}" by simp
  qed
  finally show ?thesis by simp
qed

lemma least_loaded_below:
  assumes part: "partitioned ids n asg" and "distinct ids" and n: "n < length ids * k"
    and min: "min_by_key (\<lambda>m. (assigned_count asg m, m)) ids = Some m"
  shows "assigned_count asg m < k"
proof (rule ccontr)
  assume "\<not> assigned_count asg m < k"
  then have "k \<le> assigned_count asg m'" if "m' \<in> set ids" for m'
    using that min_by_key_Some [OF min] by (force simp: less_eq_prod_def)
  then have "card (set ids) * k \<le> (\<Sum>m\<in>set ids. assigned_count asg m)"
    using sum_bounded_below [of "set ids" k "assigned_count asg"] by simp
  with partitioned_count [OF part \<open>distinct ids\<close>] n \<open>distinct ids\<close> show False
    by (simp add: distinct_card)
qed

lemma assigned_count_update:
  assumes "partitioned ids n asg" and "m \<in> set ids"
  shows "assigned_count (bt_update m (insert n) asg) m' =
    (if m' = m then Suc (assigned_count asg m) else assigned_count asg m')"
proof -
  note partitioned_set [OF assms(1)]
  with assms(2) obtain ps where ps: "map_of asg m = Some ps" by (auto simp: key_iff)
  then have "ps \<subseteq> {..< n}" using assms(1) by (auto simp: partitioned_def owns_def)
  then have "finite ps" "n \<notin> ps" by (auto intro: finite_subset)
  with ps show ?thesis by (simp add: assigned_count_def)
qed

lemma partitioned_sticky:
  "ids \<noteq> [] \<Longrightarrow> partitioned ids n (sticky_loop k prev ids (map (\<lambda>m. (m, {})) ids) n)"
  unfolding sticky_loop_def by (rule partitioned_loop) (rule sticky_owner_in)

lemma sticky_share:
  assumes ids: "ids \<noteq> []" "distinct ids" and k: "parts \<le> length ids * k" and "n \<le> parts"
  shows "assigned_count (sticky_loop k prev ids (map (\<lambda>m. (m, {})) ids) n) m \<le> k"
  using \<open>n \<le> parts\<close>
proof (induction n arbitrary: m)
  case 0
  then show ?case by (simp add: sticky_loop_def assigned_count_def map_of_map_restrict restrict_map_def)
next
  case (Suc n)
  let ?loop = "sticky_loop k prev ids (map (\<lambda>m. (m, {})) ids)"
  let ?o = "sticky_owner k prev ids (?loop n) n"
  have part: "partitioned ids n (?loop n)"
    by (rule partitioned_sticky [OF ids(1)])
  then have o: "?o \<in> set ids" by (intro sticky_owner_in ids) (simp add: partitioned_def)
  have step: "?loop (Suc n) = bt_update ?o (insert n) (?loop n)" by (simp add: sticky_loop_def)
  have "assigned_count (?loop n) ?o < k"
  proof -
    obtain m' where m': "min_by_key (\<lambda>m. (assigned_count (?loop n) m, m)) ids = Some m'"
      using ids(1) by (cases "min_by_key (\<lambda>m. (assigned_count (?loop n) m, m)) ids") auto
    then have "assigned_count (?loop n) m' < k"
      using least_loaded_below [OF part ids(2)] Suc.prems k by simp
    with m' show ?thesis
      by (auto simp: sticky_owner_def Let_def assigned_count_def split: option.splits if_splits)
  qed
  with Suc show ?case
    unfolding step assigned_count_update [OF part o] by simp
qed

lemma nth_eq_iff_index:
  "distinct ids \<Longrightarrow> j < length ids \<Longrightarrow> i < length ids \<Longrightarrow> ids ! j = ids ! i \<longleftrightarrow> j = i"
  by (rule nth_eq_iff_index_eq)

lemma assign_partitions_share:
  assumes ids: "ids \<noteq> []" "distinct ids" "length ids < 2 ^ 32" and parts: "0 < parts"
  shows "assigned_count (assign_partitions strategy parts prev ids) m \<le> div_ceil parts (length ids)"
proof (cases "m \<in> set ids")
  case True
  then obtain i where i: "i < length ids" "m = ids ! i" by (metis in_set_conv_nth)
  have k: "0 < length ids" using ids(1) by simp
  show ?thesis
  proof (cases strategy)
    case Range
    have "range_owner parts ids p = m \<longleftrightarrow> p * length ids div parts = i" if "p < parts" for p
    proof -
      have "p * length ids < length ids * parts" using that k by simp
      then have "p * length ids div parts < length ids" by (rule less_mult_imp_div_less)
      with parts i ids(2) show ?thesis
        by (simp add: range_owner_def min_absorb1 nth_eq_iff_index max_absorb1)
    qed
    then have "{p. p < parts \<and> range_owner parts ids p = m} = {p. p < parts \<and> p * length ids div parts = i}"
      by auto
    with Range ids True range_share [OF k parts, of i] show ?thesis
      by (simp add: assign_partitions_def assigned_count_def owned_static Let_def)
  next
    case RoundRobin
    have "round_robin_owner ids p = m \<longleftrightarrow> p mod length ids = i" for p
      using i k ids(2) by (simp add: round_robin_owner_def nth_eq_iff_index)
    with RoundRobin ids True round_robin_share [OF k, of parts i] show ?thesis
      by (simp add: assign_partitions_def assigned_count_def owned_static Let_def)
  next
    case Sticky
    with ids sticky_share [OF ids(1,2) div_ceil_mult [OF k, of parts] le_refl, of prev m]
    show ?thesis by (simp add: assign_partitions_def assign_sticky_def Let_def)
  qed
next
  case False
  then have "map_of (assign_partitions strategy parts prev ids) m = None"
    using assign_partitions_keys [of strategy parts prev ids]
    by (metis list.set_map map_of_eq_None_iff)
  then show ?thesis by (simp add: assigned_count_def)
qed

text \<open>
  Stickiness: in the sticky loop a member only gains, so a partition passes its previous owner
  by only when that owner is full.
\<close>

lemma sticky_loop_mono:
  assumes ids: "ids \<noteq> []" and "n \<le> n'"
  shows "assigned_count (sticky_loop k prev ids (map (\<lambda>m. (m, {})) ids) n) m
      \<le> assigned_count (sticky_loop k prev ids (map (\<lambda>m. (m, {})) ids) n') m
    \<and> (owns (sticky_loop k prev ids (map (\<lambda>m. (m, {})) ids) n) m q \<longrightarrow>
         owns (sticky_loop k prev ids (map (\<lambda>m. (m, {})) ids) n') m q)"
  using \<open>n \<le> n'\<close>
proof (induction n' rule: dec_induct)
  case base
  then show ?case by simp
next
  case (step n')
  let ?loop = "sticky_loop k prev ids (map (\<lambda>m. (m, {})) ids)"
  note part = partitioned_sticky [OF ids, of n' k prev]
  then have "sticky_owner k prev ids (?loop n') n' \<in> set ids"
    by (intro sticky_owner_in ids) (simp add: partitioned_def)
  moreover have "?loop (Suc n') = bt_update (sticky_owner k prev ids (?loop n') n') (insert n') (?loop n')"
    by (simp add: sticky_loop_def)
  ultimately show ?case
    using step.IH assigned_count_update [OF part] by (auto simp: owns_update)
qed

lemma sticky_owner_kept:
  assumes prev: "owns prev m p" "\<And>m'. owns prev m' p \<Longrightarrow> m' = m" "distinct (bt_keys prev)"
    and asg: "map_of asg m = Some ps" "card ps < k"
  shows "sticky_owner k prev ids asg p = m"
proof -
  have "find_map (\<lambda>(m, ps). if p \<in> ps then Some m else None) prev = Some m"
  proof (cases "find_map (\<lambda>(m, ps). if p \<in> ps then Some m else None) prev")
    case None
    with prev(1) show ?thesis by (fastforce simp: owns_def dest: map_of_SomeD)
  next
    case (Some m')
    then obtain ps' where "(m', ps') \<in> set prev" "p \<in> ps'"
      by (auto dest!: find_map_Some split: if_splits)
    with prev(3) have "owns prev m' p" by (auto simp: owns_def)
    with prev(2) Some show ?thesis by simp
  qed
  with asg show ?thesis by (simp add: sticky_owner_def)
qed

lemma sticky_keeps:
  assumes ids: "ids \<noteq> []" "distinct ids" "length ids < 2 ^ 32" and p: "p < parts"
    and prev: "owns prev m p" "\<And>m'. owns prev m' p \<Longrightarrow> m' = m" "distinct (bt_keys prev)" and m: "m \<in> set ids"
    and moved: "\<not> owns (assign_partitions Sticky parts prev ids) m p"
  shows "assigned_count (assign_partitions Sticky parts prev ids) m = div_ceil parts (length ids)"
proof -
  let ?k = "div_ceil parts (length ids)"
  let ?loop = "sticky_loop ?k prev ids (map (\<lambda>m. (m, {})) ids)"
  have final: "assign_partitions Sticky parts prev ids = ?loop parts"
    using ids by (simp add: assign_partitions_def assign_sticky_def)
  note part = partitioned_sticky [OF ids(1), of p ?k prev]
  with m obtain ps where ps: "map_of (?loop p) m = Some ps"
    using partitioned_set [OF part] by (auto simp: key_iff)
  have "\<not> card ps < ?k"
  proof
    assume "card ps < ?k"
    then have "sticky_owner ?k prev ids (?loop p) p = m"
      by (rule sticky_owner_kept [OF prev(1) _ prev(3) ps, rotated]) (rule prev(2))
    then have "owns (?loop (Suc p)) m p"
      using ps by (simp add: sticky_loop_def owns_update key_iff)
    then have "owns (?loop parts) m p"
      using sticky_loop_mono [OF ids(1), of "Suc p" parts ?k prev m p] p by simp
    with moved final show False by simp
  qed
  then have "?k \<le> assigned_count (?loop p) m" by (simp add: assigned_count_def ps)
  also have "\<dots> \<le> assigned_count (?loop parts) m"
    using sticky_loop_mono [OF ids(1), of p parts ?k prev m p] p by simp
  finally show ?thesis
    using assign_partitions_share [OF ids, of parts Sticky prev m] p unfolding final by linarith
qed

section \<open>The invariant of a coordinator\<close>

definition group_inv :: "group_coordinator \<Rightarrow> bool" where
  "group_inv g \<longleftrightarrow>
     bt_wf (g_members g) \<and> bt_wf (g_committed_offsets g)
     \<and> (\<forall>(k, m)\<in>set (g_members g). mem_id m = k)
     \<and> length (g_members g) \<le> gc_max_members (g_config g)
     \<and> 0 < gc_max_members (g_config g)
     \<and> 0 < gc_heartbeat_timeout_ms (g_config g) \<and> 0 < gc_rebalance_timeout_ms (g_config g)
     \<and> 0 < g_partitions g \<and> g_partitions g \<le> gc_max_partitions (g_config g)
     \<and> g_generation g \<le> u64_max
     \<and> bt_keys (g_assignments g) = bt_keys (g_members g)
     \<and> (g_members g \<noteq> [] \<longrightarrow> partitioned (bt_keys (g_members g)) (g_partitions g) (g_assignments g))
     \<and> (gc_max_members (g_config g) < 2 ^ 32 \<longrightarrow>
          (\<forall>m. assigned_count (g_assignments g) m \<le> div_ceil (g_partitions g) (length (g_members g))))"

text \<open>What has to hold of the members before a rebalance; the rebalance establishes the rest.\<close>

definition group_base_inv :: "group_coordinator \<Rightarrow> bool" where
  "group_base_inv g \<longleftrightarrow>
     bt_wf (g_members g) \<and> bt_wf (g_committed_offsets g)
     \<and> (\<forall>(k, m)\<in>set (g_members g). mem_id m = k)
     \<and> length (g_members g) \<le> gc_max_members (g_config g)
     \<and> 0 < gc_max_members (g_config g)
     \<and> 0 < gc_heartbeat_timeout_ms (g_config g) \<and> 0 < gc_rebalance_timeout_ms (g_config g)
     \<and> 0 < g_partitions g \<and> g_partitions g \<le> gc_max_partitions (g_config g)
     \<and> g_generation g \<le> u64_max"

lemma group_inv_base: "group_inv g \<Longrightarrow> group_base_inv g"
  by (simp add: group_inv_def group_base_inv_def)

lemma group_rebalance_fields [simp]:
  "g_config (group_rebalance g now) = g_config g"
  "g_partitions (group_rebalance g now) = g_partitions g"
  "g_members (group_rebalance g now) = g_members g"
  "g_committed_offsets (group_rebalance g now) = g_committed_offsets g"
  "g_generation (group_rebalance g now) = sat_add64 (g_generation g) 1"
  "g_assignments (group_rebalance g now) =
     assign_partitions (gc_strategy (g_config g)) (g_partitions g) (g_assignments g) (bt_keys (g_members g))"
  by (simp_all add: group_rebalance_def Let_def)

lemma group_rebalance_inv: "group_base_inv g \<Longrightarrow> group_inv (group_rebalance g now)"
proof -
  assume base: "group_base_inv g"
  then have d: "distinct (bt_keys (g_members g))" by (auto simp: group_base_inv_def intro: bt_wf_distinct)
  have share: "assigned_count (assign_partitions st (g_partitions g) prev (bt_keys (g_members g))) m
      \<le> div_ceil (g_partitions g) (length (g_members g))"
    if "gc_max_members (g_config g) < 2 ^ 32" for st prev m
  proof (cases "g_members g = []")
    case True
    then show ?thesis by (simp add: assign_partitions_none assigned_count_def)
  next
    case False
    moreover have "length (bt_keys (g_members g)) < 2 ^ 32" using that base by (simp add: group_base_inv_def)
    ultimately show ?thesis
      using assign_partitions_share [OF _ d] base by (fastforce simp: group_base_inv_def)
  qed
  from base show ?thesis
    by (simp add: group_inv_def group_base_inv_def assign_partitions_keys assign_partitions_partitioned
        sat_simps share)
qed

end
