(* ===== verification/Group_Coordination.thy ===== *)
theory Group_Coordination
  imports Consumer_Group
begin

text \<open>
  The consumer-group coordinator as a state machine: one rule of \<open>group_step\<close> per public
  operation, an invariant that every operation keeps, and the promises that follow for every
  state the coordinator can reach: exclusive and balanced ownership, fencing by generation,
  monotone commits, and recovery from its own record.
\<close>

section \<open>Steps\<close>

inductive group_step :: "group_coordinator \<Rightarrow> group_coordinator \<Rightarrow> bool" where
  step_join: "group_step g (snd (group_join g m i now))"
| step_expand: "group_step g (snd (group_expand_partitions g n now))"
| step_heartbeat: "group_step g (snd (group_heartbeat g m gen now))"
| step_refresh: "group_step g (snd (group_refresh_member g m now))"
| step_leave: "group_step g (snd (group_leave g m gen now))"
| step_expire: "group_step g (snd (group_expire g now))"
| step_commit: "group_step g (snd (group_commit g m gen p off))"
| step_recover: "from_record (group_record_of g) = Ok g' \<Longrightarrow> group_step g g'"
| step_replicate: "from_replicated_record (group_record_of g) = Ok g' \<Longrightarrow> group_step g g'"

definition group_init :: "group_coordinator \<Rightarrow> bool" where
  "group_init g \<longleftrightarrow> (\<exists>parts config. group_new parts config = Ok g)"

definition committed :: "group_coordinator \<Rightarrow> u32 \<Rightarrow> u64" where
  "committed g p = (case map_of (g_committed_offsets g) p of None \<Rightarrow> 0 | Some off \<Rightarrow> off)"

section \<open>Every operation keeps the invariant\<close>

lemma group_new_inv: "group_new parts config = Ok g \<Longrightarrow> group_inv g"
  by (auto simp: group_new_def group_inv_def assigned_count_def split: if_splits)

lemma base_inv_members:
  assumes "group_base_inv g" and "bt_wf ms" and "\<forall>(k, m)\<in>set ms. mem_id m = k"
    and "length ms \<le> gc_max_members (g_config g)"
  shows "group_base_inv (g\<lparr>g_members := ms\<rparr>)"
  using assms by (simp add: group_base_inv_def)

lemma group_join_inv:
  assumes "group_inv g"
  shows "group_inv (snd (group_join g m i now))"
proof (cases "\<not> bt_contains m (g_members g) \<and> length (g_members g) \<ge> gc_max_members (g_config g)")
  case True
  then show ?thesis using assms by (simp add: group_join_def)
next
  case False
  let ?mem = "\<lparr>mem_id = m, mem_instance_id = i, mem_last_heartbeat_ms = now\<rparr>"
  let ?ms = "bt_insert m ?mem (bt_remove m (g_members g))"
  have wf: "bt_wf (g_members g)" and ids: "\<forall>(k, x)\<in>set (g_members g). mem_id x = k"
    and len: "length (g_members g) \<le> gc_max_members (g_config g)"
    using assms by (simp_all add: group_inv_def)
  have "\<forall>(k, x)\<in>set ?ms. mem_id x = k"
    using set_bt_insert_subset [of m ?mem "bt_remove m (g_members g)"] ids
    by (fastforce simp: bt_remove_def)
  moreover have "length ?ms \<le> gc_max_members (g_config g)"
  proof (cases "bt_contains m (g_members g)")
    case True
    then have "length (bt_remove m (g_members g)) < length (g_members g)"
      by (auto simp: bt_remove_def bt_contains_iff intro: length_filter_less)
    with len wf show ?thesis by (auto simp: length_bt_insert)
  next
    case False2: False
    then have "bt_remove m (g_members g) = g_members g"
      by (auto simp: bt_remove_def bt_contains_iff filter_id_conv)
    with False False2 wf show ?thesis by (auto simp: length_bt_insert)
  qed
  ultimately have "group_base_inv (g\<lparr>g_members := ?ms\<rparr>)"
    using wf by (intro base_inv_members group_inv_base [OF assms]) auto
  then show ?thesis
    using False by (auto simp: group_join_def Let_def group_rebalance_inv)
qed

lemma group_expand_inv: "group_inv g \<Longrightarrow> group_inv (snd (group_expand_partitions g n now))"
proof -
  assume inv: "group_inv g"
  have "group_base_inv (g\<lparr>g_partitions := n\<rparr>)"
    if "g_partitions g < n" "n \<le> gc_max_partitions (g_config g)"
    using that group_inv_base [OF inv] by (simp add: group_base_inv_def)
  with inv show ?thesis by (simp add: group_expand_partitions_def group_rebalance_inv)
qed

text \<open>Touching a member's lease changes neither the membership nor the assignments.\<close>

lemma touch_inv:
  assumes "group_inv g"
  shows "group_inv (g\<lparr>g_members := bt_update m (\<lambda>x. x\<lparr>mem_last_heartbeat_ms := now\<rparr>) (g_members g),
    g_rebalance := r\<rparr>)"
proof -
  have "\<forall>(k, x)\<in>set (bt_update m (\<lambda>x. x\<lparr>mem_last_heartbeat_ms := now\<rparr>) (g_members g)). mem_id x = k"
    using assms by (fastforce simp: group_inv_def bt_update_def split: if_splits)
  moreover have "length (bt_update m (\<lambda>x. x\<lparr>mem_last_heartbeat_ms := now\<rparr>) (g_members g)) = length (g_members g)"
    by (simp add: bt_update_def)
  moreover have "bt_update m (\<lambda>x. x\<lparr>mem_last_heartbeat_ms := now\<rparr>) (g_members g) = [] \<longleftrightarrow> g_members g = []"
    by (simp add: bt_update_def)
  ultimately show ?thesis using assms by (simp add: group_inv_def)
qed

lemma group_heartbeat_inv: "group_inv g \<Longrightarrow> group_inv (snd (group_heartbeat g m gen now))"
  by (auto simp: group_heartbeat_def touch_inv split: option.splits)

lemma group_refresh_inv: "group_inv g \<Longrightarrow> group_inv (snd (group_refresh_member g m now))"
  using touch_inv [where g = g and m = m and now = now and r = "g_rebalance g"]
  by (auto simp: group_refresh_member_def split: option.splits)

lemma drop_members_inv:
  assumes "group_inv g"
  shows "group_inv (group_rebalance (g\<lparr>g_members := fold bt_remove ks (g_members g)\<rparr>) now)"
proof (rule group_rebalance_inv, rule base_inv_members)
  show "group_base_inv g" by (rule group_inv_base [OF assms])
  show "bt_wf (fold bt_remove ks (g_members g))"
    using assms by (intro bt.wf_fold_del) (simp add: group_inv_def)
  show "\<forall>(k, m)\<in>set (fold bt_remove ks (g_members g)). mem_id m = k"
    using set_fold_bt_remove [of ks "g_members g"] assms by (auto simp: group_inv_def)
  show "length (fold bt_remove ks (g_members g)) \<le> gc_max_members (g_config g)"
    using length_fold_bt_remove [of ks "g_members g"] assms by (simp add: group_inv_def)
qed

lemma group_leave_inv: "group_inv g \<Longrightarrow> group_inv (snd (group_leave g m gen now))"
  using drop_members_inv [of g "[m]" now] by (simp add: group_leave_def split: option.splits)

lemma group_expire_inv: "group_inv g \<Longrightarrow> group_inv (snd (group_expire g now))"
  by (simp add: group_expire_def Let_def drop_members_inv)

lemma group_commit_inv: "group_inv g \<Longrightarrow> group_inv (snd (group_commit g m gen p off))"
  by (auto simp: group_commit_def group_inv_def Let_def split: option.splits)

section \<open>Recovery and replication\<close>

lemma sorted_by_key: "sorted (map f xs) \<Longrightarrow> sort_key f xs = xs"
  by (induction xs) (auto simp: insort_is_Cons)

lemma group_inv_assignments:
  assumes "group_inv g"
  shows "bt_wf (g_assignments g)" and "(m, ps) \<in> set (g_assignments g) \<Longrightarrow> finite ps"
proof -
  show wf: "bt_wf (g_assignments g)"
    using assms by (simp add: group_inv_def bt_wf_def)
  assume ps: "(m, ps) \<in> set (g_assignments g)"
  then have "g_members g \<noteq> []"
    using assms by (auto simp: group_inv_def)
  then have "\<forall>m p. owns (g_assignments g) m p \<longrightarrow> p < g_partitions g"
    using assms by (simp add: group_inv_def partitioned_def)
  moreover have "map_of (g_assignments g) m = Some ps"
    using ps wf by (simp add: bt_wf_distinct)
  ultimately have "ps \<subseteq> {..< g_partitions g}" by (auto simp: owns_def)
  then show "finite ps" by (rule finite_subset) simp
qed

lemma snapshot_assignments:
  assumes "group_inv g"
  shows "fold (\<lambda>a. bt_insert (as_member_id a) (set (as_partitions a)))
      (gs_assignments (group_snapshot_of g)) [] = g_assignments g"
proof -
  let ?mk = "\<lambda>(m, ps). \<lparr>as_generation = g_generation g, as_member_id = m, as_partitions = sorted_list_of_set ps\<rparr>"
  have keys: "map as_member_id (map ?mk (g_assignments g)) = bt_keys (g_assignments g)"
    by (simp add: comp_def case_prod_beta)
  have "sorted (bt_keys (g_assignments g))"
    using group_inv_assignments(1) [OF assms] by (simp add: bt_wf_def strict_sorted_iff)
  with keys have "sort_key as_member_id (map ?mk (g_assignments g)) = map ?mk (g_assignments g)"
    by (intro sorted_by_key) (simp only: keys)
  then have "gs_assignments (group_snapshot_of g) = map ?mk (g_assignments g)"
    by (simp add: group_snapshot_of_def)
  moreover have "map (\<lambda>a. (as_member_id a, set (as_partitions a))) (map ?mk (g_assignments g)) = g_assignments g"
    using group_inv_assignments(2) [OF assms] by (auto intro!: map_idI)
  ultimately show ?thesis
    using group_inv_assignments(1) [OF assms] by (simp add: fold_bt_insert bt_collect_wf)
qed

lemma snapshot_members:
  assumes "group_inv g"
  shows "fold (\<lambda>m. bt_insert (mem_id m) m) (gs_members (group_snapshot_of g)) [] = g_members g"
proof -
  have "map (\<lambda>m. (mem_id m, m)) (bt_values (g_members g)) = g_members g"
    using assms by (auto simp: group_inv_def intro!: map_idI)
  then show ?thesis
    using assms by (simp add: group_snapshot_of_def fold_bt_insert bt_collect_wf group_inv_def)
qed

lemma restored_assignments:
  assumes "group_inv g"
  shows "fold (\<lambda>m. bt_or_insert (mem_id m) {}) (gs_members (group_snapshot_of g)) (g_assignments g) = g_assignments g"
proof (rule fold_bt_or_insert_present, rule ballI)
  fix m assume "m \<in> set (gs_members (group_snapshot_of g))"
  then obtain k where "(k, m) \<in> set (g_members g)" by (auto simp: group_snapshot_of_def)
  moreover from this have "mem_id m = k" using assms by (auto simp: group_inv_def)
  moreover have "fst ` set (g_assignments g) = fst ` set (g_members g)"
    using assms by (metis group_inv_def list.set_map)
  ultimately show "mem_id m \<in> fst ` set (g_assignments g)" by force
qed

lemma record_roundtrip:
  assumes "group_inv g"
  shows "from_record_internal (group_record_of g) fence =
    Ok (if fence
        then g\<lparr>g_generation := sat_add64 (g_generation g) 1, g_members := [], g_assignments := [],
               g_previous_assignments := g_assignments g, g_rebalance := None\<rparr>
        else g\<lparr>g_previous_assignments := g_assignments g\<rparr>)"
proof -
  have snap: "gs_generation (group_snapshot_of g) = g_generation g"
    "gs_committed_offsets (group_snapshot_of g) = g_committed_offsets g"
    "gs_rebalance (group_snapshot_of g) = g_rebalance g"
    by (simp_all add: group_snapshot_of_def)
  show ?thesis
    using assms
    by (simp add: from_record_internal_def group_record_of_def Let_def snapshot_assignments [OF assms]
        restored_assignments [OF assms] snapshot_members [OF assms] snap group_inv_def)
qed

lemma recover_inv: "group_inv g \<Longrightarrow> from_record (group_record_of g) = Ok g' \<Longrightarrow> group_inv g'"
  by (auto simp: from_record_def record_roundtrip group_inv_def assigned_count_def sat_simps)

lemma replicate_inv: "group_inv g \<Longrightarrow> from_replicated_record (group_record_of g) = Ok g' \<Longrightarrow> group_inv g'"
  by (auto simp: from_replicated_record_def record_roundtrip group_inv_def)

lemmas group_op_inv =
  group_join_inv group_expand_inv group_heartbeat_inv group_refresh_inv group_leave_inv
  group_expire_inv group_commit_inv recover_inv replicate_inv

section \<open>Generations and offsets never go back\<close>

lemma rebalance_generation: "group_inv g \<Longrightarrow> g_generation g \<le> sat_add64 (g_generation g) n"
  by (simp add: group_inv_def sat_simps)

lemma group_step_generation: "group_inv g \<Longrightarrow> group_step g g' \<Longrightarrow> g_generation g \<le> g_generation g'"
  by (erule group_step.cases)
    (auto simp: group_join_def group_expand_partitions_def group_heartbeat_def group_refresh_member_def
      group_leave_def group_expire_def group_commit_def Let_def from_record_def from_replicated_record_def
      record_roundtrip rebalance_generation split: option.splits)

lemma commit_offset: "group_inv g \<Longrightarrow> committed g q \<le> committed (snd (group_commit g m gen p off)) q"
  by (auto simp: group_commit_def committed_def Let_def group_inv_def split: option.splits)

lemma group_step_committed: "group_inv g \<Longrightarrow> group_step g g' \<Longrightarrow> committed g p \<le> committed g' p"
proof (erule group_step.cases)
  fix h m gen q off assume "group_inv g" "g = h" "g' = snd (group_commit h m gen q off)"
  then show ?thesis using commit_offset by simp
qed (auto simp: group_join_def group_expand_partitions_def group_heartbeat_def group_refresh_member_def
      group_leave_def group_expire_def Let_def from_record_def from_replicated_record_def committed_def
      record_roundtrip split: option.splits)

interpretation grp: monotone_epoch group_init group_step group_inv g_generation
proof unfold_locales
  show "group_inv g" if "group_init g" for g
    using that by (auto simp: group_init_def intro: group_new_inv)
  show "group_inv g'" if "group_inv g" "group_step g g'" for g g'
    using that(2,1) by cases (auto intro: group_op_inv)
qed (rule group_step_generation)

interpretation offs: monotone_epoch group_init group_step group_inv "\<lambda>g. committed g p" for p
  by unfold_locales (rule group_step_committed)

section \<open>A group of three partitions that two members joined\<close>

definition sample_group0 :: group_coordinator where
  "sample_group0 =
     \<lparr>g_config = default_group_config, g_partitions = 3, g_generation = 0, g_members = [],
      g_assignments = [], g_previous_assignments = [], g_committed_offsets = [], g_rebalance = None\<rparr>"

definition sample_group1 :: group_coordinator where
  "sample_group1 = snd (group_join sample_group0 ''a'' None 0)"

definition sample_group2 :: group_coordinator where
  "sample_group2 = snd (group_join sample_group1 ''b'' None 5)"


lemma upt_3: "[0 ..< 3] = [0, 1, 2 :: nat]"
  by (simp add: upt_rec)

lemma sample_shares: "div_ceil 3 1 = 3" "div_ceil 3 2 = 2"
  by (simp_all add: div_ceil_def)

lemmas group_eval = group_join_def group_rebalance_def default_group_config_def
  assign_sticky_def sticky_loop_def sticky_owner_def assigned_count_def
  bt_update_def bt_remove_def bt_contains_def sat_add64_def u64_max_def less_char_def Let_def upt_3

lemma sample_assign1: "assign_partitions Sticky 3 [] [''a''] = [(''a'', {0, 1, 2})]"
  using sample_shares(1) by (simp add: assign_partitions_def group_eval) auto

lemma sample_assign2:
  "assign_partitions Sticky 3 [(''a'', {0, 1, 2})] [''a'', ''b''] = [(''a'', {0, 1}), (''b'', {2})]"
proof -
  have k: "div_ceil 3 (length [''a'', ''b''] mod 2 ^ 32) = 2"
    by (simp add: div_ceil_def numeral_2_eq_2 [symmetric])
  show ?thesis
    unfolding assign_partitions_def assign_sticky_def Let_def k
    by (simp add: group_eval numeral_2_eq_2) auto
qed

lemma sample_moved: "moved_partitions [(''a'', {0, 1, 2})] [(''a'', {0, 1}), (''b'', {2})] = {2}"
  by (auto simp: moved_partitions_def)

lemma sample_group1_eval:
  "sample_group1 =
     sample_group0\<lparr>g_generation := 1,
       g_members := [(''a'', \<lparr>mem_id = ''a'', mem_instance_id = None, mem_last_heartbeat_ms = 0\<rparr>)],
       g_assignments := [(''a'', {0, 1, 2})]\<rparr>"
  using sample_assign1 by (simp add: sample_group1_def sample_group0_def group_eval moved_partitions_def)

lemma sample_group2_eval:
  "sample_group2 =
     sample_group1\<lparr>g_generation := 2,
       g_members := [(''a'', \<lparr>mem_id = ''a'', mem_instance_id = None, mem_last_heartbeat_ms = 0\<rparr>),
                     (''b'', \<lparr>mem_id = ''b'', mem_instance_id = None, mem_last_heartbeat_ms = 5\<rparr>)],
       g_assignments := [(''a'', {0, 1}), (''b'', {2})],
       g_previous_assignments := [(''a'', {0, 1, 2})],
       g_rebalance := Some \<lparr>rb_generation = 2, rb_moved_partitions = [2], rb_deadline_ms = 60005\<rparr>\<rparr>"
  using sample_assign2 sample_moved
  by (simp add: sample_group2_def sample_group1_eval sample_group0_def group_eval)

lemma sample_group_reached:
  "reaches group_init group_step sample_group1" "reaches group_init group_step sample_group2"
proof -
  have "group_new 3 default_group_config = Ok sample_group0"
    by (simp add: group_new_def sample_group0_def default_group_config_def)
  then have "reaches group_init group_step sample_group0"
    by (intro reaches_init) (auto simp: group_init_def)
  then show r1: "reaches group_init group_step sample_group1"
    unfolding sample_group1_def by (rule reaches_step) (rule step_join)
  show "reaches group_init group_step sample_group2"
    unfolding sample_group2_def by (rule reaches_step [OF r1]) (rule step_join)
qed

lemmas sample_group_eval = sample_group2_eval sample_group1_eval sample_group0_def

section \<open>Properties\<close>

text \<open>
  C6. In every reachable coordinator with members, each partition is owned by exactly one member,
  that member is active, and nobody owns a partition that does not exist: under all three
  strategies and through every sequence of joins, departures, expiries, expansions,
  recoveries and replications.
\<close>

theorem group_ownership_exclusive:
  assumes "reaches group_init group_step g" and "g_members g \<noteq> []"
  shows "((\<exists>!m. owns (g_assignments g) m p) \<longleftrightarrow> p < g_partitions g)
    \<and> (\<forall>m. owns (g_assignments g) m p \<longrightarrow> m \<in> set (bt_keys (g_members g)))"
proof -
  have part: "partitioned (bt_keys (g_members g)) (g_partitions g) (g_assignments g)"
    using grp.reaches_inv [OF assms(1)] assms(2) by (simp add: group_inv_def)
  then have "(\<exists>!m. owns (g_assignments g) m p) \<longleftrightarrow> p < g_partitions g"
    unfolding partitioned_def by metis
  moreover have "\<forall>m. owns (g_assignments g) m p \<longrightarrow> m \<in> set (bt_keys (g_members g))"
    unfolding partitioned_set [OF part] owns_def key_iff by blast
  ultimately show ?thesis by blast
qed

theorem group_ownership_exclusive_witness:
  "\<exists>!m. owns (g_assignments sample_group2) m 1"
proof -
  have "g_members sample_group2 \<noteq> []" "1 < g_partitions sample_group2"
    by (simp_all add: sample_group_eval)
  then show ?thesis using group_ownership_exclusive [OF sample_group_reached(2)] by blast
qed

text \<open>
  C7. Balance: in every reachable coordinator no member owns more than its rounded-up share of the
  partitions, under all three strategies (the group being bounded to fewer than \<open>2^32\<close> members,
  where the code's cast of the member count is exact).
\<close>

theorem group_share_bounded:
  assumes "reaches group_init group_step g" and "gc_max_members (g_config g) < 2 ^ 32"
  shows "assigned_count (g_assignments g) m \<le> div_ceil (g_partitions g) (length (g_members g))"
  using grp.reaches_inv [OF assms(1)] assms(2) by (simp add: group_inv_def)

theorem group_share_bounded_witness:
  "assigned_count (g_assignments sample_group2) ''a''
     \<le> div_ceil (g_partitions sample_group2) (length (g_members sample_group2))"
  by (rule group_share_bounded [OF sample_group_reached(2)])
    (simp add: sample_group_eval default_group_config_def)

text \<open>
  Sticky assignment keeps existing ownership while balancing: when a member joins, another
  member loses a partition only if it is left with its full rounded-up share.
\<close>

theorem sticky_join_keeps_ownership:
  assumes "reaches group_init group_step g" and "gc_max_members (g_config g) < 2 ^ 32"
    and "gc_strategy (g_config g) = Sticky" and "group_join g new inst now = (Ok gen, g')"
    and "owns (g_assignments g) m p" and "\<not> owns (g_assignments g') m p"
  shows "assigned_count (g_assignments g') m = div_ceil (g_partitions g') (length (g_members g'))"
proof -
  have inv: "group_inv g" by (rule grp.reaches_inv [OF assms(1)])
  have inv': "group_inv g'" using group_join_inv [OF inv, of new inst now] assms(4) by simp
  have own: "m \<in> fst ` set (g_assignments g)" using assms(5) by (auto simp: owns_def key_iff)
  then have "g_members g \<noteq> []" using inv by (auto simp: group_inv_def)
  then have part: "partitioned (bt_keys (g_members g)) (g_partitions g) (g_assignments g)"
    using inv by (simp add: group_inv_def)
  have g': "g_members g' = bt_insert new \<lparr>mem_id = new, mem_instance_id = inst, mem_last_heartbeat_ms = now\<rparr>
        (bt_remove new (g_members g))" "g_partitions g' = g_partitions g" "g_config g' = g_config g"
      "g_assignments g' = assign_partitions Sticky (g_partitions g) (g_assignments g) (bt_keys (g_members g'))"
    using assms(3,4) by (auto simp: group_join_def Let_def split: if_splits)
  have members: "m \<in> set (bt_keys (g_members g'))"
    using own unfolding partitioned_set [OF part, symmetric] by (auto simp: g' bt_remove_def)
  have ids: "bt_keys (g_members g') \<noteq> []" "distinct (bt_keys (g_members g'))"
      "length (bt_keys (g_members g')) < 2 ^ 32"
    using members inv' assms(2) by (auto simp: group_inv_def g'(3) intro: bt_wf_distinct)
  have p: "p < g_partitions g" and only: "\<And>m'. owns (g_assignments g) m' p \<Longrightarrow> m' = m"
    using part assms(5) by (auto simp: partitioned_def)
  have prev: "distinct (bt_keys (g_assignments g))"
    by (intro bt_wf_distinct group_inv_assignments(1) [OF inv])
  have "assigned_count (assign_partitions Sticky (g_partitions g) (g_assignments g) (bt_keys (g_members g'))) m =
      div_ceil (g_partitions g) (length (bt_keys (g_members g')))"
    by (rule sticky_keeps [OF ids p assms(5) _ prev members assms(6) [unfolded g'(4)]]) (rule only)
  then show ?thesis by (simp add: g'(2,4))
qed

theorem sticky_join_keeps_ownership_witness:
  "owns (g_assignments sample_group1) ''a'' 2 \<and> \<not> owns (g_assignments sample_group2) ''a'' 2
   \<and> assigned_count (g_assignments sample_group2) ''a'' =
       div_ceil (g_partitions sample_group2) (length (g_members sample_group2))"
proof -
  have own: "owns (g_assignments sample_group1) ''a'' 2" "\<not> owns (g_assignments sample_group2) ''a'' 2"
    by (simp_all add: owns_def sample_group_eval)
  have "fst (group_join sample_group1 ''b'' None 5) = Ok (g_generation sample_group2)"
    by (auto simp: sample_group2_def group_join_def Let_def sample_group1_eval sample_group0_def
        default_group_config_def)
  then have join: "group_join sample_group1 ''b'' None 5 = (Ok (g_generation sample_group2), sample_group2)"
    by (simp add: sample_group2_def prod_eq_iff)
  have config: "g_config sample_group1 = default_group_config" by (simp add: sample_group_eval)
  show ?thesis
    using sticky_join_keeps_ownership [OF sample_group_reached(1) _ _ join own] own
    by (simp add: config default_group_config_def)
qed

text \<open>
  C9. Fencing: a generation that was superseded once is refused for ever. Whatever happens after a
  state with a newer generation, heartbeats, commits, departures and assignment queries under
  the old one return the stale-generation error and change nothing.
\<close>

theorem stale_generation_fenced:
  assumes "reaches group_init group_step g" and "group_step\<^sup>*\<^sup>* g g'" and "gen < g_generation g"
  shows "group_heartbeat g' m gen now = (Err (StaleGeneration (g_generation g') gen), g')
    \<and> group_commit g' m gen p off = (Err (StaleGeneration (g_generation g') gen), g')
    \<and> group_leave g' m gen now = (Err (StaleGeneration (g_generation g') gen), g')
    \<and> group_assigned_partitions g' m gen = Err (StaleGeneration (g_generation g') gen)"
proof -
  have "gen \<noteq> g_generation g'"
    by (rule grp.stale_stays_stale [OF assms(2) grp.reaches_inv [OF assms(1)] assms(3)])
  then have "check_generation g' gen = Some (StaleGeneration (g_generation g') gen)"
    by (simp add: check_generation_def)
  then show ?thesis
    by (simp add: group_heartbeat_def group_commit_def group_leave_def group_assigned_partitions_def)
qed

theorem stale_generation_fenced_witness:
  "group_heartbeat sample_group2 ''a'' 1 9 = (Err (StaleGeneration 2 1), sample_group2)
    \<and> group_commit sample_group2 ''a'' 1 0 7 = (Err (StaleGeneration 2 1), sample_group2)
    \<and> group_leave sample_group2 ''a'' 1 9 = (Err (StaleGeneration 2 1), sample_group2)
    \<and> group_assigned_partitions sample_group2 ''a'' 1 = Err (StaleGeneration 2 1)"
  using stale_generation_fenced [OF sample_group_reached(2) rtranclp.rtrancl_refl, of 1]
  by (simp add: sample_group_eval)

text \<open>
  C10. Commits are monotone and fenced: a commit that reports progress was made under the current
  generation by the owner of the partition with a larger offset, and it sets exactly that
  offset; and no later operation, recovery or replication ever lowers a committed offset.
\<close>

theorem commit_fenced_and_monotone:
  assumes "reaches group_init group_step g" and "group_commit g m gen p off = (Ok True, g1)"
    and "group_step\<^sup>*\<^sup>* g1 g'"
  shows "gen = g_generation g \<and> owns (g_assignments g) m p \<and> committed g p < off
    \<and> committed g1 = (committed g)(p := off) \<and> off \<le> committed g' p"
proof -
  have inv: "group_inv g" by (rule grp.reaches_inv [OF assms(1)])
  have effect: "gen = g_generation g \<and> owns (g_assignments g) m p \<and> committed g p < off
      \<and> committed g1 = (committed g)(p := off)"
    using assms(2) inv
    by (auto simp: group_commit_def check_generation_def committed_def owns_def Let_def group_inv_def
        fun_eq_iff split: option.splits if_splits)
  have "group_inv g1" using group_commit_inv [OF inv, of m gen p off] assms(2) by simp
  then have "committed g1 p \<le> committed g' p" by (rule offs.epoch_steps [OF assms(3)])
  with effect show ?thesis by simp
qed

theorem commit_fenced_and_monotone_witness:
  "\<exists>g1. group_commit sample_group2 ''b'' 2 2 7 = (Ok True, g1)
     \<and> committed g1 = (committed sample_group2)(2 := 7) \<and> 7 \<le> committed g1 2"
proof -
  have "fst (group_commit sample_group2 ''b'' 2 2 7) = Ok True"
    by (simp add: group_commit_def check_generation_def sample_group_eval bt_contains_def bt_or_insert_def)
  then obtain g1 where g1: "group_commit sample_group2 ''b'' 2 2 7 = (Ok True, g1)"
    by (metis prod.collapse)
  show ?thesis
    using commit_fenced_and_monotone [OF sample_group_reached(2) g1 rtranclp.rtrancl_refl] g1 by blast
qed

text \<open>
  A client's call and its reply. The fields of a coordinator that later calls read do not include
  the previous assignment: a rebalance overwrites it before it is read.
\<close>

datatype group_request =
    JoinRequest string "string option" u64
  | ExpandRequest u32 u64
  | HeartbeatRequest string u64 u64
  | RefreshRequest string u64
  | LeaveRequest string u64 u64
  | ExpireRequest u64
  | CommitRequest string u64 u32 u64
  | AssignedRequest string u64
  | RecordRequest

datatype group_reply =
    GenerationReply "group_error + u64"
  | UnitReply "group_error + unit"
  | ExpiredReply "string list"
  | CommitReply "group_error + bool"
  | AssignedReply "group_error + u32 set"
  | RecordReply group_record

fun serve :: "group_coordinator \<Rightarrow> group_request \<Rightarrow> group_reply \<times> group_coordinator" where
  "serve g (JoinRequest m i now) = map_prod GenerationReply id (group_join g m i now)"
| "serve g (ExpandRequest n now) = map_prod UnitReply id (group_expand_partitions g n now)"
| "serve g (HeartbeatRequest m gen now) = map_prod UnitReply id (group_heartbeat g m gen now)"
| "serve g (RefreshRequest m now) = map_prod GenerationReply id (group_refresh_member g m now)"
| "serve g (LeaveRequest m gen now) = map_prod UnitReply id (group_leave g m gen now)"
| "serve g (ExpireRequest now) = map_prod ExpiredReply id (group_expire g now)"
| "serve g (CommitRequest m gen p off) = map_prod CommitReply id (group_commit g m gen p off)"
| "serve g (AssignedRequest m gen) = (AssignedReply (group_assigned_partitions g m gen), g)"
| "serve g RecordRequest = (RecordReply (group_record_of g), g)"

fun serve_all :: "group_coordinator \<Rightarrow> group_request list \<Rightarrow> group_reply list" where
  "serve_all g [] = []"
| "serve_all g (q # qs) = (let (a, g') = serve g q in a # serve_all g' qs)"

lemma rebalance_previous [simp]: "group_rebalance (g\<lparr>g_previous_assignments := x\<rparr>) now = group_rebalance g now"
  by (simp add: group_rebalance_def Let_def)

lemma rebalance_previous_update [simp]:
  "group_rebalance (g\<lparr>g_previous_assignments := x, g_members := ms\<rparr>) now = group_rebalance (g\<lparr>g_members := ms\<rparr>) now"
  "group_rebalance (g\<lparr>g_previous_assignments := x, g_partitions := n\<rparr>) now = group_rebalance (g\<lparr>g_partitions := n\<rparr>) now"
  by (simp_all add: group_rebalance_def Let_def)

lemma serve_previous:
  "fst (serve (g\<lparr>g_previous_assignments := x\<rparr>) q) = fst (serve g q)
   \<and> (snd (serve (g\<lparr>g_previous_assignments := x\<rparr>) q))\<lparr>g_previous_assignments := []\<rparr> = (snd (serve g q))\<lparr>g_previous_assignments := []\<rparr>"
proof (cases q)
  case (ExpireRequest now)
  then show ?thesis by (auto simp: group_expire_def group_expired_def Let_def)
qed (auto simp: group_join_def group_expand_partitions_def group_heartbeat_def group_refresh_member_def group_leave_def
    group_commit_def group_assigned_partitions_def group_record_of_def group_snapshot_of_def check_generation_def Let_def
    split: option.splits)

lemma serve_all_alike:
  "g\<lparr>g_previous_assignments := []\<rparr> = h\<lparr>g_previous_assignments := []\<rparr> \<Longrightarrow> serve_all g qs = serve_all h qs"
proof (induction qs arbitrary: g h)
  case (Cons q qs)
  have "g = (g\<lparr>g_previous_assignments := []\<rparr>)\<lparr>g_previous_assignments := g_previous_assignments g\<rparr>" by simp
  also have "\<dots> = h\<lparr>g_previous_assignments := g_previous_assignments g\<rparr>" unfolding Cons.prems by simp
  finally have g: "g = h\<lparr>g_previous_assignments := g_previous_assignments g\<rparr>" .
  have eq: "fst (serve g q) = fst (serve h q)"
    "(snd (serve g q))\<lparr>g_previous_assignments := []\<rparr> = (snd (serve h q))\<lparr>g_previous_assignments := []\<rparr>"
    using serve_previous [where g = h and x = "g_previous_assignments g" and q = q] unfolding g [symmetric] by blast+
  show ?case using eq(1) Cons.IH [OF eq(2)] by (simp add: split_beta Let_def)
qed simp

lemma serve_all_previous: "serve_all (g\<lparr>g_previous_assignments := x\<rparr>) qs = serve_all g qs"
  by (rule serve_all_alike) simp

text \<open>
  So the assignment that a restart saves for the next sticky rebalance is not used: the first join
  after a restart assigns as if there had been none.
\<close>

lemma restart_forgets_stickiness:
  "group_join (g\<lparr>g_previous_assignments := x\<rparr>) m i now = group_join (g\<lparr>g_previous_assignments := []\<rparr>) m i now
    \<or> length (g_members g) \<ge> gc_max_members (g_config g)"
  by (auto simp: group_join_def Let_def)

text \<open>
  C11. Recovery: a coordinator rebuilt from its own record keeps the configuration, the partition
  count and the committed offsets. After a restart nobody is a member or owns anything, and the
  generation is the next one (short of saturation), so that heartbeats, departures, commits and
  queries under any earlier generation are refused; a live replica answers every further sequence
  of calls as the original does.
\<close>

theorem group_record_recovers:
  assumes "reaches group_init group_step g"
  shows "\<exists>r h. from_record (group_record_of g) = Ok r
    \<and> r = g\<lparr>g_generation := sat_add64 (g_generation g) 1, g_members := [], g_assignments := [],
            g_previous_assignments := g_assignments g, g_rebalance := None\<rparr>
    \<and> (g_generation g < u64_max \<longrightarrow>
        (\<forall>gen m now p off. gen \<le> g_generation g \<longrightarrow>
          group_heartbeat r m gen now = (Err (StaleGeneration (g_generation g + 1) gen), r)
          \<and> group_leave r m gen now = (Err (StaleGeneration (g_generation g + 1) gen), r)
          \<and> group_commit r m gen p off = (Err (StaleGeneration (g_generation g + 1) gen), r)
          \<and> group_assigned_partitions r m gen = Err (StaleGeneration (g_generation g + 1) gen)))
    \<and> from_replicated_record (group_record_of g) = Ok h \<and> (\<forall>qs. serve_all h qs = serve_all g qs)"
  using record_roundtrip [OF grp.reaches_inv [OF assms]]
  by (simp add: from_record_def from_replicated_record_def serve_all_previous group_heartbeat_def group_leave_def
      group_commit_def group_assigned_partitions_def check_generation_def sat_add64_def)

theorem group_record_recovers_witness:
  "\<exists>r h. from_record (group_record_of sample_group2) = Ok r
    \<and> r = sample_group2\<lparr>g_generation := 3, g_members := [], g_assignments := [],
            g_previous_assignments := [(''a'', {0, 1}), (''b'', {2})], g_rebalance := None\<rparr>
    \<and> group_commit r ''a'' 2 0 7 = (Err (StaleGeneration 3 2), r)
    \<and> from_replicated_record (group_record_of sample_group2) = Ok h
    \<and> serve_all h [JoinRequest ''c'' None 9] = serve_all sample_group2 [JoinRequest ''c'' None 9]"
proof -
  have g: "g_generation sample_group2 = 2" "g_assignments sample_group2 = [(''a'', {0, 1}), (''b'', {2})]"
    by (simp_all add: sample_group_eval)
  show ?thesis
    using group_record_recovers [OF sample_group_reached(2)]
    by (elim exE conjE) (simp add: g sat_add64_def u64_max_def del: serve_all.simps)
qed

end
