(* ===== verification/Subject_Routing.thy ===== *)
theory Subject_Routing
  imports Morrow_Prelude
begin

text \<open>
  Subjects, subscription patterns and the subject trie of \<open>crates/protocol/src/subject.rs\<close>.

  A subject is a slash-separated path; in a pattern the token \<open>*\<close> stands for one token and
  a final \<open>**\<close> for any number of further tokens. \<open>matches\<close> is the reference matcher; the
  trie is the index the broker uses instead. The interface \<open>interest_index\<close> says what a
  client of the index may rely on, and the trie is shown to provide it.

  The trie's recursion follows the remaining tokens, which is the suffix of the token vector
  from the code's \<open>index\<close> on. \<open>HashMap<String, TrieNode>\<close> is a partial function, since the
  code never iterates over it; \<open>BTreeSet<T>\<close> is a set, listed in order by \<open>matching\<close>.
\<close>

section \<open>Validation and matching\<close>

definition validate_subject_token :: "string \<Rightarrow> bool" where
  "validate_subject_token t \<longleftrightarrow>
     t \<noteq> [] \<and> CHR ''*'' \<notin> set t \<and> CHR ''>'' \<notin> set t \<and> \<not> has_whitespace t"

definition validate_subject :: "string \<Rightarrow> bool" where
  "validate_subject s \<longleftrightarrow>
     \<not> (s = [] \<or> hd s = CHR ''/'' \<or> last s = CHR ''/'')
     \<and> list_all validate_subject_token (split_char CHR ''/'' s)"

text \<open>The loop of \<open>validate_subscription\<close>: \<open>idx\<close> counts the tokens, \<open>count\<close> is their number.\<close>

fun validate_pattern_tokens :: "nat \<Rightarrow> nat \<Rightarrow> string list \<Rightarrow> bool" where
  "validate_pattern_tokens count idx [] = True"
| "validate_pattern_tokens count idx (t # ts) =
     (if t = [] \<or> has_whitespace t then False
      else if t = ''**'' then
        (if idx + 1 \<noteq> count then False else validate_pattern_tokens count (idx + 1) ts)
      else if t \<noteq> ''*'' \<and> (CHR ''*'' \<in> set t \<or> CHR ''>'' \<in> set t) then False
      else validate_pattern_tokens count (idx + 1) ts)"

definition validate_subscription :: "string \<Rightarrow> bool" where
  "validate_subscription p \<longleftrightarrow>
     \<not> (p = [] \<or> hd p = CHR ''/'' \<or> last p = CHR ''/'')
     \<and> (let ts = split_char CHR ''/'' p in validate_pattern_tokens (length ts) 0 ts)"

fun matches_tokens :: "string list \<Rightarrow> string list \<Rightarrow> bool" where
  "matches_tokens [] [] = True"
| "matches_tokens [] (s # ss) = False"
| "matches_tokens (p # ps) ss =
     (if p = ''**'' then True
      else case ss of
        [] \<Rightarrow> False
      | s # ss' \<Rightarrow> if p = ''*'' \<or> p = s then matches_tokens ps ss' else False)"

definition matches :: "string \<Rightarrow> string \<Rightarrow> bool" where
  "matches pattern subject =
     matches_tokens (split_char CHR ''/'' pattern) (split_char CHR ''/'' subject)"

section \<open>The subject trie\<close>

datatype (dead 'a) trie_node =
  TrieNode
    (literals: "string \<Rightarrow> 'a trie_node option")
    (wildcard: "'a trie_node option")
    (exact: "'a set")
    (tail: "'a set")

definition empty_node :: "'a trie_node" where
  "empty_node = TrieNode (\<lambda>_. None) None {} {}"

record 'a subject_trie =
  root :: "'a trie_node"

definition empty_trie :: "'a subject_trie" where
  "empty_trie = \<lparr>root = empty_node\<rparr>"

fun node_insert :: "'a trie_node \<Rightarrow> string list \<Rightarrow> 'a \<Rightarrow> bool \<times> 'a trie_node" where
  "node_insert (TrieNode ls w e t) [] v = (v \<notin> e, TrieNode ls w (insert v e) t)"
| "node_insert (TrieNode ls w e t) (tok # toks) v =
     (if tok = ''**'' then (v \<notin> t, TrieNode ls w e (insert v t))
      else if tok = ''*'' then
        (let (fresh, n) = node_insert (case w of None \<Rightarrow> empty_node | Some n \<Rightarrow> n) toks v
         in (fresh, TrieNode ls (Some n) e t))
      else
        (let (fresh, n) = node_insert (case ls tok of None \<Rightarrow> empty_node | Some n \<Rightarrow> n) toks v
         in (fresh, TrieNode (ls(tok \<mapsto> n)) w e t)))"

definition trie_insert :: "'a subject_trie \<Rightarrow> string \<Rightarrow> 'a \<Rightarrow> bool \<times> 'a subject_trie" where
  "trie_insert tr pattern v =
     (if \<not> validate_subscription pattern then (False, tr)
      else let (fresh, n) = node_insert (root tr) (split_char CHR ''/'' pattern) v
           in (fresh, \<lparr>root = n\<rparr>))"

fun node_remove :: "'a trie_node \<Rightarrow> string list \<Rightarrow> 'a \<Rightarrow> bool \<times> 'a trie_node" where
  "node_remove (TrieNode ls w e t) [] v = (v \<in> e, TrieNode ls w (e - {v}) t)"
| "node_remove (TrieNode ls w e t) (tok # toks) v =
     (if tok = ''**'' then (v \<in> t, TrieNode ls w e (t - {v}))
      else if tok = ''*'' then
        (case w of
           None \<Rightarrow> (False, TrieNode ls w e t)
         | Some n \<Rightarrow> (let (found, n') = node_remove n toks v
                      in (found, TrieNode ls (Some n') e t)))
      else
        (case ls tok of
           None \<Rightarrow> (False, TrieNode ls w e t)
         | Some n \<Rightarrow> (let (found, n') = node_remove n toks v
                      in (found, TrieNode (ls(tok \<mapsto> n')) w e t))))"

definition trie_remove :: "'a subject_trie \<Rightarrow> string \<Rightarrow> 'a \<Rightarrow> bool \<times> 'a subject_trie" where
  "trie_remove tr pattern v =
     (if \<not> validate_subscription pattern then (False, tr)
      else let (found, n) = node_remove (root tr) (split_char CHR ''/'' pattern) v
           in (found, \<lparr>root = n\<rparr>))"

fun collect_matches :: "'a trie_node \<Rightarrow> string list \<Rightarrow> 'a set \<Rightarrow> 'a set" where
  "collect_matches (TrieNode ls w e t) [] acc = (acc \<union> t) \<union> e"
| "collect_matches (TrieNode ls w e t) (tok # toks) acc =
     (let acc1 = acc \<union> t;
          acc2 = (case ls tok of None \<Rightarrow> acc1 | Some n \<Rightarrow> collect_matches n toks acc1)
      in (case w of None \<Rightarrow> acc2 | Some n \<Rightarrow> collect_matches n toks acc2))"

definition trie_matching :: "'a::linorder subject_trie \<Rightarrow> string \<Rightarrow> 'a list" where
  "trie_matching tr subject =
     (if \<not> validate_subject subject then []
      else sorted_list_of_set (collect_matches (root tr) (split_char CHR ''/'' subject) {}))"

fun matches_node :: "'a trie_node \<Rightarrow> string list \<Rightarrow> bool" where
  "matches_node (TrieNode ls w e t) [] = (if t \<noteq> {} then True else e \<noteq> {})"
| "matches_node (TrieNode ls w e t) (tok # toks) =
     (if t \<noteq> {} then True
      else (case ls tok of None \<Rightarrow> False | Some n \<Rightarrow> matches_node n toks)
        \<or> (case w of None \<Rightarrow> False | Some n \<Rightarrow> matches_node n toks))"

definition trie_matches_any :: "'a subject_trie \<Rightarrow> string \<Rightarrow> bool" where
  "trie_matches_any tr subject =
     (if \<not> validate_subject subject then False
      else matches_node (root tr) (split_char CHR ''/'' subject))"

section \<open>Abstraction: the interests a trie holds\<close>

text \<open>\<open>node_has n ts v\<close>: the value is stored under the pattern with tokens \<open>ts\<close>.\<close>

fun node_has :: "'a trie_node \<Rightarrow> string list \<Rightarrow> 'a \<Rightarrow> bool" where
  "node_has (TrieNode ls w e t) [] v = (v \<in> e)"
| "node_has (TrieNode ls w e t) (tok # toks) v =
     (if tok = ''**'' then toks = [] \<and> v \<in> t
      else if tok = ''*'' then (case w of None \<Rightarrow> False | Some n \<Rightarrow> node_has n toks v)
      else (case ls tok of None \<Rightarrow> False | Some n \<Rightarrow> node_has n toks v))"

definition trie_interests :: "'a subject_trie \<Rightarrow> (string \<times> 'a) set" where
  "trie_interests tr = {(p, v). node_has (root tr) (split_char CHR ''/'' p) v}"

fun tail_only_last :: "string list \<Rightarrow> bool" where
  "tail_only_last [] = True"
| "tail_only_last (t # ts) = ((t = ''**'' \<longrightarrow> ts = []) \<and> tail_only_last ts)"

section \<open>Facts about validation\<close>

lemma split_char_hd_empty: "s \<noteq> [] \<Longrightarrow> hd s = c \<Longrightarrow> [] \<in> set (split_char c s)"
  by (cases s) auto

lemma split_char_last_empty: "s \<noteq> [] \<Longrightarrow> last s = c \<Longrightarrow> [] \<in> set (split_char c s)"
proof -
  have "[] \<in> set (tl (split_char c s))" if "s \<noteq> []" "last s = c"
    using that by (induction s) (auto split: list.splits if_splits)
  then show "s \<noteq> [] \<Longrightarrow> last s = c \<Longrightarrow> [] \<in> set (split_char c s)"
    by (cases "split_char c s") auto
qed

lemma validate_subject_tokens:
  "validate_subject s \<longleftrightarrow> (\<forall>t\<in>set (split_char CHR ''/'' s). validate_subject_token t)"
proof
  assume "\<forall>t\<in>set (split_char CHR ''/'' s). validate_subject_token t"
  moreover from this have "[] \<notin> set (split_char CHR ''/'' s)"
    by (auto simp: validate_subject_token_def)
  ultimately show "validate_subject s"
    using split_char_hd_empty [of s "CHR ''/''"] split_char_last_empty [of s "CHR ''/''"]
    by (cases "s = []") (auto simp: validate_subject_def list_all_iff)
qed (auto simp: validate_subject_def list_all_iff)

text \<open>What a token of a valid pattern looks like.\<close>

definition pattern_token :: "string \<Rightarrow> bool" where
  "pattern_token t \<longleftrightarrow> t = ''**'' \<or> t = ''*'' \<or> validate_subject_token t"

lemma special_tokens_no_whitespace: "\<not> has_whitespace ''*''" "\<not> has_whitespace ''**''"
  by (simp_all add: has_whitespace.simps whitespace_encodings_def)

lemma validate_pattern_tokens_iff:
  "count = idx + length ts \<Longrightarrow>
     validate_pattern_tokens count idx ts \<longleftrightarrow> tail_only_last ts \<and> (\<forall>t\<in>set ts. pattern_token t)"
proof (induction ts arbitrary: idx)
  case Nil
  then show ?case by simp
next
  case (Cons t ts)
  then have "validate_pattern_tokens count (idx + 1) ts \<longleftrightarrow>
      tail_only_last ts \<and> (\<forall>t\<in>set ts. pattern_token t)"
    by simp
  with Cons.prems special_tokens_no_whitespace show ?case
    by (auto simp: pattern_token_def validate_subject_token_def)
qed

lemma validate_subscription_iff:
  "validate_subscription p \<longleftrightarrow>
     tail_only_last (split_char CHR ''/'' p) \<and> (\<forall>t\<in>set (split_char CHR ''/'' p). pattern_token t)"
proof -
  have "[] \<notin> set (split_char CHR ''/'' p)" if "\<forall>t\<in>set (split_char CHR ''/'' p). pattern_token t"
    using that by (auto simp: pattern_token_def validate_subject_token_def)
  then show ?thesis
    using split_char_hd_empty [of p "CHR ''/''"] split_char_last_empty [of p "CHR ''/''"]
    by (cases "p = []") (auto simp: validate_subscription_def validate_pattern_tokens_iff Let_def)
qed

lemma subject_token_not_special:
  "validate_subject_token t \<Longrightarrow> t \<noteq> ''*'' \<and> t \<noteq> ''**''"
  by (auto simp: validate_subject_token_def)

lemma validate_subject_subscription: "validate_subject s \<Longrightarrow> validate_subscription s"
proof -
  assume s: "validate_subject s"
  have "tail_only_last ts" if "\<forall>t\<in>set ts. validate_subject_token t" for ts
    using that subject_token_not_special by (induction ts) auto
  with s show ?thesis
    by (auto simp: validate_subscription_iff validate_subject_tokens pattern_token_def)
qed

lemma matches_tokens_refl: "matches_tokens ts ts"
  by (induction ts) auto

section \<open>Facts about the trie\<close>

lemma node_has_empty [simp]: "\<not> node_has empty_node ts v"
  by (cases ts) (auto simp: empty_node_def)

lemma fst_node_insert: "tail_only_last ts \<Longrightarrow> fst (node_insert n ts v) = (\<not> node_has n ts v)"
  by (induction n ts v rule: node_insert.induct)
    (auto split: option.splits prod.splits simp: case_prod_beta)

lemma node_has_insert:
  "tail_only_last ts \<Longrightarrow>
     node_has (snd (node_insert n ts v)) us u \<longleftrightarrow> node_has n us u \<or> (us = ts \<and> u = v)"
proof (induction n ts v arbitrary: us rule: node_insert.induct)
  case (1 ls w e t v)
  then show ?case by (cases us) auto
next
  case (2 ls w e t tok toks v)
  show ?case
  proof (cases us)
    case Nil
    then show ?thesis by (auto simp: case_prod_beta)
  next
    case (Cons u' us')
    then show ?thesis
      using "2.IH"(1) [of us'] "2.IH"(2) [of us'] "2.prems"
      by (auto simp: case_prod_beta split: option.splits)
  qed
qed

lemma fst_node_remove: "tail_only_last ts \<Longrightarrow> fst (node_remove n ts v) = node_has n ts v"
  by (induction n ts v rule: node_remove.induct)
    (auto split: option.splits prod.splits simp: case_prod_beta)

lemma node_has_remove:
  "tail_only_last ts \<Longrightarrow>
     node_has (snd (node_remove n ts v)) us u \<longleftrightarrow> node_has n us u \<and> \<not> (us = ts \<and> u = v)"
proof (induction n ts v arbitrary: us rule: node_remove.induct)
  case (1 ls w e t v)
  then show ?case by (cases us) auto
next
  case (2 ls w e t tok toks v)
  show ?case
  proof (cases us)
    case Nil
    then show ?thesis by (auto simp: case_prod_beta split: option.splits)
  next
    case (Cons u' us')
    then show ?thesis
      using "2.IH"(1) [of _ us'] "2.IH"(2) [of _ us'] "2.prems"
      by (auto simp: case_prod_beta split: option.splits)
  qed
qed

lemma collect_matches_iff:
  "\<forall>t\<in>set ss. validate_subject_token t \<Longrightarrow>
     v \<in> collect_matches n ss acc \<longleftrightarrow> v \<in> acc \<or> (\<exists>ps. node_has n ps v \<and> matches_tokens ps ss)"
proof (induction n ss acc rule: collect_matches.induct)
  case (1 ls w e t acc)
  have "(\<exists>ps. node_has (TrieNode ls w e t) ps v \<and> matches_tokens ps []) \<longleftrightarrow> v \<in> t \<or> v \<in> e"
  proof
    assume "\<exists>ps. node_has (TrieNode ls w e t) ps v \<and> matches_tokens ps []"
    then obtain ps where "node_has (TrieNode ls w e t) ps v" "matches_tokens ps []" by blast
    then show "v \<in> t \<or> v \<in> e" by (cases ps) (auto split: if_splits)
  next
    assume "v \<in> t \<or> v \<in> e"
    then have "node_has (TrieNode ls w e t) [''**''] v \<or> node_has (TrieNode ls w e t) [] v" by simp
    then show "\<exists>ps. node_has (TrieNode ls w e t) ps v \<and> matches_tokens ps []"
      by (metis matches_tokens.simps(1,3))
  qed
  then show ?case by auto
next
  case (2 ls w e t tok toks acc)
  let ?n = "TrieNode ls w e t"
  have tok: "tok \<noteq> ''*''" "tok \<noteq> ''**''"
    using "2.prems" subject_token_not_special by auto
  have split: "(\<exists>ps. node_has ?n ps v \<and> matches_tokens ps (tok # toks)) \<longleftrightarrow>
      v \<in> t
      \<or> (\<exists>n. ls tok = Some n \<and> (\<exists>ps. node_has n ps v \<and> matches_tokens ps toks))
      \<or> (\<exists>n. w = Some n \<and> (\<exists>ps. node_has n ps v \<and> matches_tokens ps toks))" (is "?L \<longleftrightarrow> ?R")
  proof
    assume ?L
    then obtain ps where "node_has ?n ps v" "matches_tokens ps (tok # toks)" by blast
    then show ?R by (cases ps) (auto split: if_splits option.splits)
  next
    assume ?R
    then consider "v \<in> t"
      | n ps where "ls tok = Some n" "node_has n ps v" "matches_tokens ps toks"
      | n ps where "w = Some n" "node_has n ps v" "matches_tokens ps toks" by blast
    then show ?L
    proof cases
      case 1
      then have "node_has ?n [''**''] v \<and> matches_tokens [''**''] (tok # toks)" by simp
      then show ?thesis by blast
    next
      case 2
      then have "node_has ?n (tok # ps) v \<and> matches_tokens (tok # ps) (tok # toks)"
        using tok by simp
      then show ?thesis by blast
    next
      case 3
      then have "node_has ?n (''*'' # ps) v \<and> matches_tokens (''*'' # ps) (tok # toks)" by simp
      then show ?thesis by blast
    qed
  qed
  from "2.prems" have toks: "\<forall>t\<in>set toks. validate_subject_token t" by simp
  show ?case
    unfolding split using "2.IH" toks
    by (auto simp: Let_def split: option.splits)
qed

lemma collect_matches_acc: "collect_matches n ss acc = acc \<union> collect_matches n ss {}"
proof (induction ss arbitrary: n acc)
  case Nil
  then show ?case by (cases n) auto
next
  case (Cons tok toks)
  obtain ls w e t where n: "n = TrieNode ls w e t" by (cases n)
  show ?case
  proof (cases "ls tok")
    case None
    show ?thesis
      by (cases w) (simp_all add: n None Let_def Un_assoc Cons.IH [of _ "acc \<union> t"] Cons.IH [of _ t])
  next
    case (Some m)
    show ?thesis
      by (cases w) (simp_all add: n Some Let_def Un_assoc Cons.IH [of m "acc \<union> t"] Cons.IH [of m t]
        Cons.IH [of _ "acc \<union> (t \<union> _)"] Cons.IH [of _ "t \<union> _"])
  qed
qed

lemma collect_matches_empty:
  "collect_matches n ss acc = {} \<longleftrightarrow> acc = {} \<and> collect_matches n ss {} = {}"
  by (subst collect_matches_acc) simp

lemma matches_node_iff: "matches_node n ss \<longleftrightarrow> collect_matches n ss {} \<noteq> {}"
proof (induction ss arbitrary: n)
  case Nil
  then show ?case by (cases n) auto
next
  case (Cons tok toks)
  obtain ls w e t where n: "n = TrieNode ls w e t" by (cases n)
  show ?case
  proof (cases "t = {}")
    case True
    then show ?thesis
      by (simp add: n Let_def Cons.IH collect_matches_empty [of _ toks "collect_matches _ toks {}"]
          split: option.split)
  next
    case False
    then have "collect_matches n (tok # toks) {} \<noteq> {}"
      by (simp add: n Let_def collect_matches_empty [of _ toks t]
          collect_matches_empty [of _ toks "collect_matches _ toks t"] split: option.split)
    with False show ?thesis by (simp add: n)
  qed
qed

text \<open>Every operation keeps the trie finite, with only valid patterns in it.\<close>

definition trie_inv :: "'a subject_trie \<Rightarrow> bool" where
  "trie_inv tr \<longleftrightarrow> finite {(ts, v). node_has (root tr) ts v}
     \<and> (\<forall>ts v. node_has (root tr) ts v \<longrightarrow> (\<exists>p. validate_subscription p \<and> ts = split_char CHR ''/'' p))"

lemma trie_inv_empty: "trie_inv empty_trie"
  by (simp add: trie_inv_def empty_trie_def)

lemma split_char_eq_iff: "split_char c p = split_char c q \<longleftrightarrow> p = q"
  by (metis join_split)

lemma trie_inv_insert: "trie_inv tr \<Longrightarrow> trie_inv (snd (trie_insert tr p v))"
proof (cases "validate_subscription p")
  case True
  assume inv: "trie_inv tr"
  let ?n = "snd (node_insert (root tr) (split_char CHR ''/'' p) v)"
  have tail: "tail_only_last (split_char CHR ''/'' p)"
    using True by (simp add: validate_subscription_iff)
  have "{(ts, u). node_has ?n ts u} =
      insert (split_char CHR ''/'' p, v) {(ts, u). node_has (root tr) ts u}"
    by (auto simp: node_has_insert [OF tail])
  with inv True show ?thesis
    by (auto simp: trie_inv_def trie_insert_def case_prod_beta node_has_insert [OF tail])
qed (simp add: trie_insert_def)

lemma trie_inv_remove: "trie_inv tr \<Longrightarrow> trie_inv (snd (trie_remove tr p v))"
proof (cases "validate_subscription p")
  case True
  assume inv: "trie_inv tr"
  let ?n = "snd (node_remove (root tr) (split_char CHR ''/'' p) v)"
  have tail: "tail_only_last (split_char CHR ''/'' p)"
    using True by (simp add: validate_subscription_iff)
  have "{(ts, u). node_has ?n ts u} \<subseteq> {(ts, u). node_has (root tr) ts u}"
    by (auto simp: node_has_remove [OF tail])
  with inv True show ?thesis
    by (auto simp: trie_inv_def trie_remove_def case_prod_beta node_has_remove [OF tail]
        intro: finite_subset)
qed (simp add: trie_remove_def)

lemma interests_insert:
  "trie_interests (snd (trie_insert tr p v)) =
     trie_interests tr \<union> (if validate_subscription p then {(p, v)} else {})"
  by (auto simp: trie_interests_def trie_insert_def case_prod_beta validate_subscription_iff
      node_has_insert split_char_eq_iff)

lemma interests_remove:
  "trie_interests (snd (trie_remove tr p v)) =
     trie_interests tr - (if validate_subscription p then {(p, v)} else {})"
  by (auto simp: trie_interests_def trie_remove_def case_prod_beta validate_subscription_iff
      node_has_remove split_char_eq_iff)

lemma interests_empty: "trie_interests empty_trie = {}"
  by (simp add: trie_interests_def empty_trie_def)

lemma interests_valid: "trie_inv tr \<Longrightarrow> (p, v) \<in> trie_interests tr \<Longrightarrow> validate_subscription p"
  by (auto simp: trie_inv_def trie_interests_def) (metis split_char_eq_iff)

lemma finite_interests: "trie_inv tr \<Longrightarrow> finite (trie_interests tr)"
proof -
  assume "trie_inv tr"
  then have "finite {(ts, v). node_has (root tr) ts v}" by (simp add: trie_inv_def)
  moreover have "trie_interests tr \<subseteq>
      (\<lambda>(ts, v). (join_char CHR ''/'' ts, v)) ` {(ts, v). node_has (root tr) ts v}"
    by (force simp: trie_interests_def)
  ultimately show ?thesis by (meson finite_imageI finite_subset)
qed

lemma insert_fresh:
  "trie_inv tr \<Longrightarrow>
     fst (trie_insert tr p v) = (validate_subscription p \<and> (p, v) \<notin> trie_interests tr)"
  by (auto simp: trie_insert_def trie_interests_def case_prod_beta fst_node_insert
      validate_subscription_iff)

lemma remove_found:
  "trie_inv tr \<Longrightarrow>
     fst (trie_remove tr p v) = ((p, v) \<in> trie_interests tr)"
  using interests_valid [of tr p v]
  by (auto simp: trie_remove_def trie_interests_def case_prod_beta fst_node_remove
      validate_subscription_iff)

lemma collect_root_iff:
  assumes "trie_inv tr" and "validate_subject s"
  shows "v \<in> collect_matches (root tr) (split_char CHR ''/'' s) {} \<longleftrightarrow>
    (\<exists>p. (p, v) \<in> trie_interests tr \<and> matches p s)"
proof -
  have "v \<in> collect_matches (root tr) (split_char CHR ''/'' s) {} \<longleftrightarrow>
      (\<exists>ps. node_has (root tr) ps v \<and> matches_tokens ps (split_char CHR ''/'' s))"
    using collect_matches_iff [of "split_char CHR ''/'' s" v "root tr" "{}"] assms(2)
    by (simp add: validate_subject_tokens)
  also have "\<dots> \<longleftrightarrow> (\<exists>p. (p, v) \<in> trie_interests tr \<and> matches p s)"
    using assms(1) by (auto simp: trie_inv_def trie_interests_def matches_def)
  finally show ?thesis .
qed

lemma matching_interests:
  assumes "trie_inv tr"
  shows "trie_matching tr s =
    (if validate_subject s
     then sorted_list_of_set {v. \<exists>p. (p, v) \<in> trie_interests tr \<and> matches p s} else [])"
proof (cases "validate_subject s")
  case True
  then have "collect_matches (root tr) (split_char CHR ''/'' s) {} =
      {v. \<exists>p. (p, v) \<in> trie_interests tr \<and> matches p s}"
    using collect_root_iff [OF assms, of s] by auto
  with True show ?thesis by (simp add: trie_matching_def)
qed (simp add: trie_matching_def)

lemma matches_any_interests:
  assumes "trie_inv tr"
  shows "trie_matches_any tr s =
    (validate_subject s \<and> (\<exists>p v. (p, v) \<in> trie_interests tr \<and> matches p s))"
  using collect_root_iff [OF assms, of s] by (auto simp: trie_matches_any_def matches_node_iff)

section \<open>The interface of a subject index\<close>

locale interest_index =
  fixes empty :: 't
    and ins :: "'t \<Rightarrow> string \<Rightarrow> 'a::linorder \<Rightarrow> bool \<times> 't"
    and rem :: "'t \<Rightarrow> string \<Rightarrow> 'a \<Rightarrow> bool \<times> 't"
    and lookup :: "'t \<Rightarrow> string \<Rightarrow> 'a list"
    and any_match :: "'t \<Rightarrow> string \<Rightarrow> bool"
    and interests :: "'t \<Rightarrow> (string \<times> 'a) set"
    and inv :: "'t \<Rightarrow> bool"
  assumes empty_interests: "interests empty = {}"
    and ins_interests: "inv t \<Longrightarrow> interests (snd (ins t p v)) =
          interests t \<union> (if validate_subscription p then {(p, v)} else {})"
    and ins_fresh: "inv t \<Longrightarrow> fst (ins t p v) = (validate_subscription p \<and> (p, v) \<notin> interests t)"
    and rem_interests: "inv t \<Longrightarrow> interests (snd (rem t p v)) =
          interests t - (if validate_subscription p then {(p, v)} else {})"
    and rem_found: "inv t \<Longrightarrow> fst (rem t p v) = ((p, v) \<in> interests t)"
    and lookup_interests: "inv t \<Longrightarrow> lookup t s =
          (if validate_subject s
           then sorted_list_of_set {v. \<exists>p. (p, v) \<in> interests t \<and> matches p s} else [])"
    and any_interests: "inv t \<Longrightarrow> any_match t s =
          (validate_subject s \<and> (\<exists>p v. (p, v) \<in> interests t \<and> matches p s))"
    and interests_finite: "inv t \<Longrightarrow> finite (interests t)"
    and inv_empty: "inv empty"
    and inv_ins: "inv t \<Longrightarrow> inv (snd (ins t p v))"
    and inv_rem: "inv t \<Longrightarrow> inv (snd (rem t p v))"
begin

lemma finite_matching: "inv t \<Longrightarrow> finite {v. \<exists>p. (p, v) \<in> interests t \<and> matches p s}"
proof -
  assume "inv t"
  then have "finite (snd ` interests t)" by (intro finite_imageI interests_finite)
  then show ?thesis by (rule finite_subset [rotated]) force
qed

lemma in_lookup:
  "inv t \<Longrightarrow> v \<in> set (lookup t s) \<longleftrightarrow>
     validate_subject s \<and> (\<exists>p. (p, v) \<in> interests t \<and> matches p s)"
  using finite_matching [of t s] by (auto simp: lookup_interests)

lemma any_iff_lookup: "inv t \<Longrightarrow> any_match t s \<longleftrightarrow> lookup t s \<noteq> []"
proof -
  assume t: "inv t"
  have "any_match t s \<longleftrightarrow> (\<exists>v. v \<in> set (lookup t s))"
    unfolding in_lookup [OF t] any_interests [OF t] by blast
  also have "\<dots> \<longleftrightarrow> lookup t s \<noteq> []" by (cases "lookup t s") auto
  finally show ?thesis .
qed

text \<open>An index that was filled from a list of bindings answers from that list.\<close>

lemma fold_ins:
  "inv t \<Longrightarrow> inv (fold (\<lambda>(p, v) t. snd (ins t p v)) bs t)
     \<and> interests (fold (\<lambda>(p, v) t. snd (ins t p v)) bs t) =
         interests t \<union> {(p, v) \<in> set bs. validate_subscription p}"
proof (induction bs arbitrary: t)
  case Nil
  then show ?case by simp
next
  case (Cons b bs)
  obtain p v where b: "b = (p, v)" by (cases b)
  from Cons.prems have "inv (snd (ins t p v))" by (rule inv_ins)
  from Cons.IH [OF this] Cons.prems show ?case
    by (auto simp: b ins_interests)
qed

end

interpretation trie: interest_index empty_trie trie_insert trie_remove trie_matching
  trie_matches_any trie_interests trie_inv
  by unfold_locales
    (simp_all add: interests_empty interests_insert insert_fresh interests_remove remove_found
      matching_interests matches_any_interests finite_interests trie_inv_empty trie_inv_insert
      trie_inv_remove)

section \<open>Subscribing and unsubscribing\<close>

datatype 'a interest_op = Subscribe string 'a | Unsubscribe string 'a

fun apply_interest :: "'a interest_op \<Rightarrow> 'a subject_trie \<Rightarrow> 'a subject_trie" where
  "apply_interest (Subscribe p v) tr = snd (trie_insert tr p v)"
| "apply_interest (Unsubscribe p v) tr = snd (trie_remove tr p v)"

text \<open>The specification: the set of interests that are live after the operations.\<close>

fun live_interests :: "'a interest_op \<Rightarrow> (string \<times> 'a) set \<Rightarrow> (string \<times> 'a) set" where
  "live_interests (Subscribe p v) I = (if validate_subscription p then insert (p, v) I else I)"
| "live_interests (Unsubscribe p v) I = I - {(p, v)}"

lemma apply_interest_refines:
  fixes tr :: "'a::linorder subject_trie"
  assumes "trie_inv tr"
  shows "trie_inv (apply_interest x tr)
    \<and> trie_interests (apply_interest x tr) = live_interests x (trie_interests tr)"
proof (cases x)
  case (Subscribe p v)
  then show ?thesis using assms by (simp add: trie.inv_ins trie.ins_interests)
next
  case (Unsubscribe p v)
  have "(p, v) \<notin> trie_interests tr" if "\<not> validate_subscription p"
    using that interests_valid [OF assms] by blast
  then show ?thesis using assms Unsubscribe by (simp add: trie.inv_rem trie.rem_interests)
qed

lemma fold_interest_refines:
  fixes tr :: "'a::linorder subject_trie"
  shows "trie_inv tr \<Longrightarrow> trie_inv (fold apply_interest xs tr)
    \<and> trie_interests (fold apply_interest xs tr) = fold live_interests xs (trie_interests tr)"
  by (induction xs arbitrary: tr) (simp_all add: apply_interest_refines)

text \<open>
  C1. The trie is equivalent to scanning the live patterns: after any sequence of insertions
  and removals, looking up a subject lists, in order and once each, exactly the values whose
  pattern is live and matches the subject.
\<close>

theorem trie_lookup_is_scan:
  "trie_matching (fold apply_interest xs empty_trie) s =
     (if validate_subject s
      then sorted_list_of_set {v. \<exists>p. (p, v) \<in> fold live_interests xs {} \<and> matches p s}
      else [])"
proof -
  have "trie_inv (fold apply_interest xs empty_trie)"
    "trie_interests (fold apply_interest xs empty_trie) = fold live_interests xs {}"
    using fold_interest_refines [OF trie_inv_empty, of xs] by (simp_all add: interests_empty)
  then show ?thesis by (simp only: trie.lookup_interests)
qed

text \<open>
  The boolean query used on the publish path agrees with the full lookup, and both see a
  pattern through every unrelated insertion and removal.
\<close>

theorem trie_any_is_lookup:
  "trie_matches_any (fold apply_interest xs empty_trie) s \<longleftrightarrow>
     trie_matching (fold apply_interest xs empty_trie) s \<noteq> []"
  using fold_interest_refines [OF trie_inv_empty, of xs] by (intro trie.any_iff_lookup) simp

end
