(* ===== verification/Stream_Catalog.thy ===== *)
theory Stream_Catalog
  imports Subject_Routing
begin

text \<open>
  Stream definitions and the catalog of \<open>crates/server/src/stream.rs\<close>: which stream owns a
  published subject, and which streams a consumer's filter can see. The catalog is a client
  of the subject index: its facts come from the interface \<open>interest_index\<close>.
\<close>

section \<open>Data\<close>

datatype partitioning_strategy = KeyStrategy | SubjectToken u32

datatype partition_fallback = StickyFallback | SubjectHash

record partitioning_policy =
  pp_strategy :: partitioning_strategy
  pp_fallback :: partition_fallback
  pp_epoch :: u64

datatype storage_mode = LocalMode | QuorumMode | QuorumFsyncMode

record storage_policy =
  sp_mode :: storage_mode
  sp_replicas :: u32
  sp_min_ack_replicas :: u32

datatype compaction_policy = NoCompaction | KeyCompaction

record retention_policy =
  rp_max_age_ms :: "u64 option"
  rp_max_bytes :: "u64 option"
  rp_compaction :: compaction_policy

record stream_definition =
  sd_name :: string
  sd_subjects :: "string list"
  sd_partitions :: u32
  sd_partitioning :: partitioning_policy
  sd_storage :: storage_policy
  sd_retention :: retention_policy

record stream_catalog =
  sc_streams :: "stream_definition list"
  sc_bindings :: "nat subject_trie"

section \<open>Operations\<close>

definition stream_id_new :: "string \<Rightarrow> string result" where
  "stream_id_new v =
     (if v \<noteq> [] \<and> hd v \<noteq> CHR ''_'' \<and> CHR ''.'' \<notin> set v \<and> \<not> has_whitespace v then Ok v
      else Err (''stream name must be non-empty, contain no '' @ [CHR 39, CHR ''.'', CHR 39]
                @ '', contain no whitespace, and not start with '' @ [CHR 39, CHR ''_'', CHR 39]))"

fun patterns_overlap_from :: "string list \<Rightarrow> string list \<Rightarrow> bool" where
  "patterns_overlap_from [] [] = True"
| "patterns_overlap_from (l # ls) [] = (l = ''**'')"
| "patterns_overlap_from [] (r # rs) = (r = ''**'')"
| "patterns_overlap_from (l # ls) (r # rs) =
     (if l = ''**'' \<or> r = ''**'' then True
      else if l = r \<or> l = ''*'' \<or> r = ''*'' then patterns_overlap_from ls rs
      else False)"

definition patterns_overlap :: "string \<Rightarrow> string \<Rightarrow> bool" where
  "patterns_overlap l r =
     patterns_overlap_from (split_char CHR ''/'' l) (split_char CHR ''/'' r)"

text \<open>The loop over the bindings of \<open>StreamDefinition::validate\<close>.\<close>

fun validate_bindings :: "string list \<Rightarrow> unit result" where
  "validate_bindings [] = Ok ()"
| "validate_bindings (b # bs) =
     (if \<not> validate_subscription b then Err (''stream contains invalid subject binding '' @ b)
      else if patterns_overlap b ''_MORROW/INBOX/**''
      then Err (''stream binding '' @ b @ '' captures reserved inbox subjects'')
      else validate_bindings bs)"

definition stream_validate :: "stream_definition \<Rightarrow> unit result" where
  "stream_validate d =
     (if \<not> sd_partitions d > 0 then Err ''stream partitions must be greater than zero''
      else if \<not> pp_epoch (sd_partitioning d) > 0
      then Err ''stream partitioning epoch must be greater than zero''
      else if sd_subjects d = [] then Err ''stream subjects must not be empty''
      else if \<not> sp_replicas (sd_storage d) > 0
      then Err ''stream storage replicas must be greater than zero''
      else if \<not> (sp_min_ack_replicas (sd_storage d) > 0
               \<and> sp_min_ack_replicas (sd_storage d) \<le> sp_replicas (sd_storage d))
      then Err ''stream min_ack_replicas must be between one and replicas''
      else if sp_mode (sd_storage d) = LocalMode
              \<and> \<not> (sp_replicas (sd_storage d) = 1 \<and> sp_min_ack_replicas (sd_storage d) = 1)
      then Err ''local stream storage requires replicas=1 and min_ack_replicas=1''
      else validate_bindings (sd_subjects d))"

fun validate_streams :: "stream_definition list \<Rightarrow> unit result" where
  "validate_streams [] = Ok ()"
| "validate_streams (d # ds) =
     (case stream_validate d of Err e \<Rightarrow> Err e | Ok _ \<Rightarrow> validate_streams ds)"

text \<open>\<open>windows(2)\<close> over the sorted streams.\<close>

fun adjacent_duplicate :: "stream_definition list \<Rightarrow> bool" where
  "adjacent_duplicate (a # b # ds) = (sd_name a = sd_name b \<or> adjacent_duplicate (b # ds))"
| "adjacent_duplicate _ = False"

text \<open>The four nested loops: the pairs of bindings of two different streams, in order.\<close>

definition binding_pairs :: "stream_definition list \<Rightarrow> (nat \<times> nat \<times> string \<times> string) list" where
  "binding_pairs ds =
     [(i, j, l, r). i \<leftarrow> [0 ..< length ds], j \<leftarrow> [i + 1 ..< length ds],
                    l \<leftarrow> sd_subjects (ds ! i), r \<leftarrow> sd_subjects (ds ! j)]"

definition ambiguous_binding :: "stream_definition list \<Rightarrow> broker_error option" where
  "ambiguous_binding ds =
     find_map
       (\<lambda>(i, j, l, r).
          if patterns_overlap l r
          then Some (''ambiguous stream bindings '' @ l @ '' ('' @ sd_name (ds ! i) @ '') and '' @ r
                     @ '' ('' @ sd_name (ds ! j) @ '')'')
          else None)
       (binding_pairs ds)"

definition catalog_bindings :: "stream_definition list \<Rightarrow> (string \<times> nat) list" where
  "catalog_bindings ds = concat (map (\<lambda>(i, d). map (\<lambda>b. (b, i)) (sd_subjects d)) (enumerate 0 ds))"

definition catalog_new :: "stream_definition list \<Rightarrow> stream_catalog result" where
  "catalog_new streams =
     (case validate_streams streams of
        Err e \<Rightarrow> Err e
      | Ok _ \<Rightarrow>
         (let ds = sort_key sd_name streams in
          if adjacent_duplicate ds then Err ''duplicate stream name''
          else case ambiguous_binding ds of
            Some e \<Rightarrow> Err e
          | None \<Rightarrow>
              Ok \<lparr>sc_streams = ds,
                  sc_bindings =
                    fold (\<lambda>(b, i) tr. snd (trie_insert tr b i)) (catalog_bindings ds) empty_trie\<rparr>))"

definition resolve_primary :: "stream_catalog \<Rightarrow> string \<Rightarrow> stream_definition option" where
  "resolve_primary cat s =
     (if \<not> validate_subject s \<or> prefix ''_MORROW/INBOX/'' s then None
      else case trie_matching (sc_bindings cat) s of
        [] \<Rightarrow> None
      | i # _ \<Rightarrow> get_at (sc_streams cat) i)"

definition streams_for_filter :: "stream_catalog \<Rightarrow> string \<Rightarrow> stream_definition list" where
  "streams_for_filter cat f =
     (if \<not> validate_subscription f then []
      else filter (\<lambda>d. list_ex (\<lambda>b. patterns_overlap b f) (sd_subjects d)) (sc_streams cat))"

section \<open>Overlap of patterns\<close>

text \<open>A subject that a pattern matches: every \<open>*\<close> becomes some token, a tail is cut.\<close>

fun ground_tokens :: "string list \<Rightarrow> string list" where
  "ground_tokens [] = []"
| "ground_tokens (t # ts) =
     (if t = ''**'' then [] else (if t = ''*'' then ''x'' else t) # ground_tokens ts)"

definition clean_token :: "string \<Rightarrow> bool" where
  "clean_token t \<longleftrightarrow> validate_subject_token t \<and> CHR ''/'' \<notin> set t"

definition clean_pattern :: "string list \<Rightarrow> bool" where
  "clean_pattern ts \<longleftrightarrow>
     tail_only_last ts \<and> (\<forall>t\<in>set ts. t = ''**'' \<or> t = ''*'' \<or> clean_token t)"

lemma sample_token: "clean_token ''x''"
  by code_simp

lemma clean_pattern_Cons:
  "clean_pattern (t # ts) \<longleftrightarrow>
     (t = ''**'' \<and> ts = [] \<or> t \<noteq> ''**'' \<and> (t = ''*'' \<or> clean_token t)) \<and> clean_pattern ts"
  by (auto simp: clean_pattern_def)

lemma clean_pattern_split: "validate_subscription p \<Longrightarrow> clean_pattern (split_char CHR ''/'' p)"
  using split_char_no_sep [of _ "CHR ''/''" p]
  by (auto simp: validate_subscription_iff clean_pattern_def pattern_token_def clean_token_def)

lemma ground_tokens_clean: "clean_pattern ts \<Longrightarrow> \<forall>t\<in>set (ground_tokens ts). clean_token t"
  using sample_token by (induction ts) (auto simp: clean_pattern_Cons)

lemma ground_tokens_match: "matches_tokens ts (ground_tokens ts)"
  by (induction ts) auto

lemma overlap_tokens_witness:
  assumes "patterns_overlap_from ls rs" and "clean_pattern ls" and "clean_pattern rs"
  shows "\<exists>ss. (\<forall>t\<in>set ss. clean_token t) \<and> matches_tokens ls ss \<and> matches_tokens rs ss"
  using assms
proof (induction ls rs rule: patterns_overlap_from.induct)
  case 1
  show ?case by (rule exI [of _ "[]"]) simp
next
  case (2 l ls)
  then show ?case by (intro exI [of _ "[]"]) simp
next
  case (3 r rs)
  then show ?case by (intro exI [of _ "[]"]) simp
next
  case (4 l ls r rs)
  consider (left) "l = ''**''" | (right) "r = ''**''"
    | (both) "l \<noteq> ''**''" "r \<noteq> ''**''" "l = r \<or> l = ''*'' \<or> r = ''*''"
    using "4.prems"(1) by (auto split: if_splits)
  then show ?case
  proof cases
    case left
    then show ?thesis
      using ground_tokens_clean [OF "4.prems"(3)] ground_tokens_match [of "r # rs"]
      by (intro exI [of _ "ground_tokens (r # rs)"]) (simp del: ground_tokens.simps)
  next
    case right
    then show ?thesis
      using ground_tokens_clean [OF "4.prems"(2)] ground_tokens_match [of "l # ls"]
      by (intro exI [of _ "ground_tokens (l # ls)"]) (simp del: ground_tokens.simps)
  next
    case both
    then obtain ss where ss: "\<forall>t\<in>set ss. clean_token t" "matches_tokens ls ss" "matches_tokens rs ss"
      using "4.IH" "4.prems" by (auto simp: clean_pattern_Cons)
    let ?t = "if l = ''*'' then (if r = ''*'' then ''x'' else r) else l"
    have "clean_token ?t"
      using "4.prems" both sample_token by (auto simp: clean_pattern_Cons)
    with both ss show ?thesis by (intro exI [of _ "?t # ss"]) auto
  qed
qed

lemma matches_tokens_overlap:
  "matches_tokens ls ss \<Longrightarrow> matches_tokens rs ss \<Longrightarrow> patterns_overlap_from ls rs"
proof (induction ls rs arbitrary: ss rule: patterns_overlap_from.induct)
  case (4 l ls r rs)
  then show ?case by (cases ss) (auto split: if_splits)
qed (auto split: list.splits if_splits)

lemma patterns_overlap_witness:
  assumes l: "validate_subscription l" and r: "validate_subscription r"
    and overlap: "patterns_overlap l r"
  shows "\<exists>s. validate_subject s \<and> matches l s \<and> matches r s"
proof -
  let ?l = "split_char CHR ''/'' l" and ?r = "split_char CHR ''/'' r"
  obtain ss where ss: "\<forall>t\<in>set ss. clean_token t" "matches_tokens ?l ss" "matches_tokens ?r ss"
    using overlap_tokens_witness [of ?l ?r] clean_pattern_split l r overlap
    by (auto simp: patterns_overlap_def)
  define us where "us = (if ss = [] then [''x''] else ss)"
  have any: "matches_tokens ts us" if "matches_tokens ts ss" "ts \<noteq> []" for ts
    using that by (cases ts) (auto simp: us_def split: if_splits)
  have us: "\<forall>t\<in>set us. clean_token t" "us \<noteq> []"
    using ss sample_token by (auto simp: us_def)
  then have "split_char CHR ''/'' (join_char CHR ''/'' us) = us"
    by (intro split_join) (auto simp: clean_token_def)
  then show ?thesis
    using us any [OF ss(2)] any [OF ss(3)]
    by (intro exI [of _ "join_char CHR ''/'' us"])
      (auto simp: validate_subject_tokens matches_def clean_token_def)
qed

lemma matches_overlap: "matches l s \<Longrightarrow> matches r s \<Longrightarrow> patterns_overlap l r"
  unfolding matches_def patterns_overlap_def by (rule matches_tokens_overlap)

section \<open>The catalog\<close>

lemma validate_bindings_Ok:
  "validate_bindings bs = Ok u \<longleftrightarrow>
     (\<forall>b\<in>set bs. validate_subscription b \<and> \<not> patterns_overlap b ''_MORROW/INBOX/**'')"
  by (induction bs) auto

lemma validate_streams_Ok:
  "validate_streams ds = Ok u \<longleftrightarrow> (\<forall>d\<in>set ds. stream_validate d = Ok ())"
  by (induction ds) (auto split: sum.splits)

lemma stream_validate_bindings:
  "stream_validate d = Ok u \<Longrightarrow> b \<in> set (sd_subjects d) \<Longrightarrow>
     validate_subscription b \<and> \<not> patterns_overlap b ''_MORROW/INBOX/**''"
  by (auto simp: stream_validate_def validate_bindings_Ok split: if_splits)

lemma adjacent_duplicate_sorted:
  "sorted (map sd_name ds) \<Longrightarrow> \<not> adjacent_duplicate ds \<Longrightarrow> distinct (map sd_name ds)"
proof (induction ds rule: adjacent_duplicate.induct)
  case (1 a b ds)
  then have "sd_name a < sd_name b" by auto
  moreover have "\<forall>x\<in>set ds. sd_name b \<le> sd_name x" using "1.prems" by auto
  ultimately show ?case using 1 by fastforce
qed auto

lemma binding_pairs_iff:
  "(i, j, l, r) \<in> set (binding_pairs ds) \<longleftrightarrow>
     i < j \<and> j < length ds \<and> l \<in> set (sd_subjects (ds ! i)) \<and> r \<in> set (sd_subjects (ds ! j))"
  unfolding binding_pairs_def in_set_concat_map set_map image_iff prod.inject by auto

lemma not_ambiguous:
  assumes "ambiguous_binding ds = None" and "i < j" "j < length ds"
    and "l \<in> set (sd_subjects (ds ! i))" "r \<in> set (sd_subjects (ds ! j))"
  shows "\<not> patterns_overlap l r"
proof -
  have "(i, j, l, r) \<in> set (binding_pairs ds)" using assms by (simp add: binding_pairs_iff)
  with assms(1) show ?thesis by (force simp: ambiguous_binding_def split: if_splits)
qed

lemma catalog_bindings_iff:
  "(b, i) \<in> set (catalog_bindings ds) \<longleftrightarrow> i < length ds \<and> b \<in> set (sd_subjects (ds ! i))"
proof -
  have "(b, i) \<in> set (catalog_bindings ds) \<longleftrightarrow> (\<exists>d. (i, d) \<in> set (enumerate 0 ds) \<and> b \<in> set (sd_subjects d))"
    by (auto simp: catalog_bindings_def)
  then show ?thesis by (simp add: in_set_enumerate_eq)
qed

text \<open>What a catalog that was accepted looks like.\<close>

lemma catalog_newD:
  assumes "catalog_new streams = Ok cat"
  shows "sc_streams cat = sort_key sd_name streams"
    and "distinct (map sd_name (sc_streams cat))"
    and "\<forall>d\<in>set (sc_streams cat). stream_validate d = Ok ()"
    and "ambiguous_binding (sc_streams cat) = None"
    and "trie_inv (sc_bindings cat)"
    and "trie_interests (sc_bindings cat) = set (catalog_bindings (sc_streams cat))"
proof -
  let ?ds = "sort_key sd_name streams"
  from assms have ok: "validate_streams streams = Ok ()" "\<not> adjacent_duplicate ?ds"
      "ambiguous_binding ?ds = None"
    and cat: "cat = \<lparr>sc_streams = ?ds, sc_bindings =
        fold (\<lambda>(b, i) tr. snd (trie_insert tr b i)) (catalog_bindings ?ds) empty_trie\<rparr>"
    by (auto simp: catalog_new_def Let_def split: sum.splits if_splits option.splits)
  show "sc_streams cat = ?ds" "ambiguous_binding (sc_streams cat) = None"
    using ok cat by simp_all
  show valid: "\<forall>d\<in>set (sc_streams cat). stream_validate d = Ok ()"
    using ok(1) cat by (simp add: validate_streams_Ok)
  show "distinct (map sd_name (sc_streams cat))"
    using adjacent_duplicate_sorted [of ?ds] ok(2) cat by simp
  have "validate_subscription b" if "(b, i) \<in> set (catalog_bindings ?ds)" for b i
  proof -
    from that have "i < length ?ds" "b \<in> set (sd_subjects (?ds ! i))"
      by (simp_all only: catalog_bindings_iff)
    moreover from this(1) have "?ds ! i \<in> set (sc_streams cat)"
      unfolding cat stream_catalog.simps by (rule nth_mem)
    moreover from this have "stream_validate (?ds ! i) = Ok ()"
      using valid by blast
    ultimately show ?thesis using stream_validate_bindings by blast
  qed
  then have all: "{(p, v) \<in> set (catalog_bindings ?ds). validate_subscription p} = set (catalog_bindings ?ds)"
    by blast
  note filled = trie.fold_ins [OF trie_inv_empty, of "catalog_bindings ?ds", unfolded all interests_empty]
  show "trie_inv (sc_bindings cat)"
    using filled [THEN conjunct1] by (simp add: cat)
  show "trie_interests (sc_bindings cat) = set (catalog_bindings (sc_streams cat))"
    using filled [THEN conjunct2] by (simp add: cat)
qed

lemma prefix_split_inbox:
  "prefix ''_MORROW/INBOX/'' s \<Longrightarrow> matches ''_MORROW/INBOX/**'' s"
proof -
  assume "prefix ''_MORROW/INBOX/'' s"
  then obtain u where "s = ''_MORROW/INBOX/'' @ u" by (auto simp: prefix_def)
  moreover have "split_char CHR ''/'' (''_MORROW/INBOX/'' @ u) = ''_MORROW'' # ''INBOX'' # split_char CHR ''/'' u"
    by simp
  ultimately show ?thesis by (simp add: matches_def)
qed

text \<open>At most one stream of an accepted catalog owns a subject.\<close>

lemma catalog_owner_unique:
  assumes "catalog_new streams = Ok cat"
    and "i < length (sc_streams cat)" "j < length (sc_streams cat)"
    and "b \<in> set (sd_subjects (sc_streams cat ! i))" "matches b s"
    and "c \<in> set (sd_subjects (sc_streams cat ! j))" "matches c s"
  shows "i = j"
proof (rule ccontr)
  assume "i \<noteq> j"
  then consider "i < j" | "j < i" by linarith
  then show False
    using not_ambiguous [OF catalog_newD(4) [OF assms(1)]] assms(2-) matches_overlap
    by cases blast+
qed

lemma catalog_matching:
  assumes "catalog_new streams = Ok cat" and "validate_subject s"
  shows "set (trie_matching (sc_bindings cat) s) =
    {i. i < length (sc_streams cat) \<and> (\<exists>b\<in>set (sd_subjects (sc_streams cat ! i)). matches b s)}"
  using trie.in_lookup [OF catalog_newD(5) [OF assms(1)], of _ s] assms(2)
  by (auto simp: catalog_newD(6) [OF assms(1)] catalog_bindings_iff)

lemma inbox_unbound:
  assumes cat: "catalog_new streams = Ok cat" and "prefix ''_MORROW/INBOX/'' s"
  shows "\<forall>d\<in>set streams. \<forall>b\<in>set (sd_subjects d). \<not> matches b s"
proof (intro ballI)
  fix d b assume "d \<in> set streams" "b \<in> set (sd_subjects d)"
  then have "\<not> patterns_overlap b ''_MORROW/INBOX/**''"
    using catalog_newD(1,3) [OF cat] stream_validate_bindings by (metis set_sort)
  then show "\<not> matches b s" using prefix_split_inbox [OF assms(2)] matches_overlap by blast
qed

lemma resolve_primary_index:
  assumes cat: "catalog_new streams = Ok cat" and s: "validate_subject s"
    and i: "i < length (sc_streams cat)" "b \<in> set (sd_subjects (sc_streams cat ! i))" "matches b s"
  shows "resolve_primary cat s = Some (sc_streams cat ! i)"
proof -
  have "set (trie_matching (sc_bindings cat) s) = {i}"
    using catalog_owner_unique [OF cat] i by (auto simp: catalog_matching [OF cat s])
  then obtain k ks where m: "trie_matching (sc_bindings cat) s = k # ks" and k: "k = i"
    by (cases "trie_matching (sc_bindings cat) s") auto
  have "sc_streams cat ! i \<in> set streams" using i(1) catalog_newD(1) [OF cat] by (metis nth_mem set_sort)
  then have "\<not> prefix ''_MORROW/INBOX/'' s" using inbox_unbound [OF cat] i(2,3) by blast
  with s i(1) show ?thesis by (simp add: resolve_primary_def m k)
qed

lemma resolve_primary_Some:
  assumes cat: "catalog_new streams = Ok cat" and res: "resolve_primary cat s = Some d"
  shows "validate_subject s \<and> d \<in> set streams \<and> (\<exists>b\<in>set (sd_subjects d). matches b s)"
proof -
  from res obtain i ks where s: "validate_subject s"
      and m: "trie_matching (sc_bindings cat) s = i # ks"
      and d: "i < length (sc_streams cat)" "sc_streams cat ! i = d"
    by (auto simp: resolve_primary_def split: if_splits list.splits)
  from m have "i \<in> set (trie_matching (sc_bindings cat) s)" by simp
  then have "\<exists>b\<in>set (sd_subjects d). matches b s"
    using d by (simp add: catalog_matching [OF cat s])
  moreover have "d \<in> set streams"
    using d catalog_newD(1) [OF cat] by (metis nth_mem set_sort)
  ultimately show ?thesis using s by blast
qed

section \<open>Properties\<close>

text \<open>
  The overlap test of the catalog is exact: two valid patterns overlap if and only if some
  publishable subject is matched by both.
\<close>

theorem patterns_overlap_exact:
  assumes "validate_subscription l" and "validate_subscription r"
  shows "patterns_overlap l r \<longleftrightarrow> (\<exists>s. validate_subject s \<and> matches l s \<and> matches r s)"
  using patterns_overlap_witness [OF assms] matches_overlap by blast

lemma orders_patterns_valid:
  "validate_subscription ''orders/*/eu''" "validate_subscription ''orders/**''"
  by code_simp+

theorem patterns_overlap_exact_witness:
  "patterns_overlap ''orders/*/eu'' ''orders/**'' \<longleftrightarrow>
     (\<exists>s. validate_subject s \<and> matches ''orders/*/eu'' s \<and> matches ''orders/**'' s)"
  by (rule patterns_overlap_exact [OF orders_patterns_valid])

text \<open>
  C4. Routing is well defined: in an accepted catalog a subject resolves to a stream if and only
  if that stream is defined and one of its bindings matches the subject. So at most one
  stream owns a subject, whatever the order of the definitions. Inbox subjects are bound by no
  stream and have no owner.
\<close>

theorem resolve_primary_owner:
  assumes "catalog_new streams = Ok cat"
  shows "(resolve_primary cat s = Some d \<longleftrightarrow>
      validate_subject s \<and> d \<in> set streams \<and> (\<exists>b\<in>set (sd_subjects d). matches b s))
    \<and> (prefix ''_MORROW/INBOX/'' s \<longrightarrow>
        resolve_primary cat s = None \<and> (\<forall>d'\<in>set streams. \<forall>b\<in>set (sd_subjects d'). \<not> matches b s))"
proof (rule conjI)
  show "resolve_primary cat s = Some d \<longleftrightarrow>
      validate_subject s \<and> d \<in> set streams \<and> (\<exists>b\<in>set (sd_subjects d). matches b s)"
  proof
    assume "validate_subject s \<and> d \<in> set streams \<and> (\<exists>b\<in>set (sd_subjects d). matches b s)"
    then obtain b where s: "validate_subject s" and d: "d \<in> set (sc_streams cat)"
        and b: "b \<in> set (sd_subjects d)" "matches b s"
      using catalog_newD(1) [OF assms] by auto
    then show "resolve_primary cat s = Some d"
      using resolve_primary_index [OF assms s] by (metis in_set_conv_nth)
  qed (rule resolve_primary_Some [OF assms])
  show "prefix ''_MORROW/INBOX/'' s \<longrightarrow>
      resolve_primary cat s = None \<and> (\<forall>d'\<in>set streams. \<forall>b\<in>set (sd_subjects d'). \<not> matches b s)"
    using inbox_unbound [OF assms] by (simp add: resolve_primary_def)
qed

definition sample_stream :: stream_definition where
  "sample_stream =
     \<lparr>sd_name = ''orders'', sd_subjects = [''orders/**''], sd_partitions = 2,
      sd_partitioning = \<lparr>pp_strategy = KeyStrategy, pp_fallback = StickyFallback, pp_epoch = 1\<rparr>,
      sd_storage = \<lparr>sp_mode = LocalMode, sp_replicas = 1, sp_min_ack_replicas = 1\<rparr>,
      sd_retention = \<lparr>rp_max_age_ms = None, rp_max_bytes = None, rp_compaction = NoCompaction\<rparr>\<rparr>"

lemma sample_catalog: "\<exists>cat. catalog_new [sample_stream] = Ok cat"
proof -
  have "validate_streams [sample_stream] = Ok ()" by code_simp
  moreover have "ambiguous_binding [sample_stream] = None" by code_simp
  ultimately show ?thesis
    by (simp add: catalog_new_def Let_def del: validate_streams.simps)
qed

theorem resolve_primary_owner_witness:
  "\<exists>cat. catalog_new [sample_stream] = Ok cat \<and> resolve_primary cat ''orders/eu'' = Some sample_stream
    \<and> resolve_primary cat ''_MORROW/INBOX/a'' = None \<and> \<not> matches ''orders/**'' ''_MORROW/INBOX/a''"
proof -
  obtain cat where cat: "catalog_new [sample_stream] = Ok cat" using sample_catalog by blast
  have "validate_subject ''orders/eu''" by code_simp
  moreover have "matches ''orders/**'' ''orders/eu''" by code_simp
  moreover have "sd_subjects sample_stream = [''orders/**'']" by (simp add: sample_stream_def)
  ultimately show ?thesis
    using cat resolve_primary_owner [OF cat, of "''orders/eu''" sample_stream]
      resolve_primary_owner [OF cat, of "''_MORROW/INBOX/a''" sample_stream]
    by (simp add: prefix_def)
qed

text \<open>
  C5. A consumer's filter selects exactly the streams it can receive from: a stream is selected
  if and only if some subject that the filter matches is routed to it.
\<close>

theorem streams_for_filter_exact:
  assumes cat: "catalog_new streams = Ok cat" and f: "validate_subscription f"
  shows "d \<in> set (streams_for_filter cat f) \<longleftrightarrow>
    (\<exists>s. matches f s \<and> resolve_primary cat s = Some d)"
proof
  assume "d \<in> set (streams_for_filter cat f)"
  then obtain b where d: "d \<in> set (sc_streams cat)" and b: "b \<in> set (sd_subjects d)"
      and overlap: "patterns_overlap b f"
    using f by (auto simp: streams_for_filter_def list_ex_iff)
  have "validate_subscription b"
    using catalog_newD(3) [OF cat] d b stream_validate_bindings by blast
  then obtain s where s: "validate_subject s" "matches b s" "matches f s"
    using patterns_overlap_witness [OF _ f overlap] by blast
  obtain i where "i < length (sc_streams cat)" "d = sc_streams cat ! i"
    using d by (metis in_set_conv_nth)
  then have "resolve_primary cat s = Some d"
    using resolve_primary_index [OF cat s(1)] b s(2) by blast
  with s show "\<exists>s. matches f s \<and> resolve_primary cat s = Some d" by blast
next
  assume "\<exists>s. matches f s \<and> resolve_primary cat s = Some d"
  then obtain s b where "matches f s" and d: "d \<in> set (sc_streams cat)"
      and b: "b \<in> set (sd_subjects d)" "matches b s"
    using resolve_primary_Some [OF cat] catalog_newD(1) [OF cat] by fastforce
  then have "patterns_overlap b f" by (blast intro: matches_overlap)
  with d b f show "d \<in> set (streams_for_filter cat f)"
    by (auto simp: streams_for_filter_def list_ex_iff)
qed

theorem streams_for_filter_exact_witness:
  "\<exists>cat. catalog_new [sample_stream] = Ok cat \<and>
     (sample_stream \<in> set (streams_for_filter cat ''orders/*'') \<longleftrightarrow>
        (\<exists>s. matches ''orders/*'' s \<and> resolve_primary cat s = Some sample_stream))"
proof -
  obtain cat where cat: "catalog_new [sample_stream] = Ok cat" using sample_catalog by blast
  have "validate_subscription ''orders/*''" by code_simp
  with cat streams_for_filter_exact [OF cat] show ?thesis by blast
qed

end
