(* ===== verification/Message_Envelope.thy ===== *)
theory Message_Envelope
  imports Stream_Catalog
begin

text \<open>
  Message envelopes and the choice of a partition, from \<open>crates/server/src/partition_log.rs\<close>.
  Bytes are 8-bit words and the FNV-1a hash is computed in 64-bit words, where the code
  multiplies with wrap-around.
\<close>

unbundle bit_operations_syntax

type_synonym bytes = "8 word list"

record message_header =
  mh_name :: string
  mh_value :: string

record message_envelope =
  en_namespace :: string
  en_stream :: string
  en_partition :: u32
  en_offset :: u64
  en_subject :: string
  en_key :: "bytes option"
  en_headers :: "message_header list"
  en_timestamp_ms :: u64
  en_reply_to :: "string option"
  en_schema_id :: "u64 option"
  en_payload :: bytes
  en_partitioning_epoch :: u64
  en_leader_epoch :: u64
  en_legacy_seq :: u64

definition into_resident_metadata :: "message_envelope \<Rightarrow> message_envelope" where
  "into_resident_metadata e = e\<lparr>en_payload := []\<rparr>"

text \<open>The published record of \<open>crates/server/src/wal.rs\<close>, whose routing fields are optional.\<close>

record publish_record =
  pub_seq :: u64
  pub_namespace :: string
  pub_stream :: "string option"
  pub_partition :: "u32 option"
  pub_offset :: "u64 option"
  pub_subject :: string
  pub_key :: "bytes option"
  pub_headers :: "message_header list"
  pub_timestamp_ms :: u64
  pub_reply_to :: "string option"
  pub_payload :: bytes
  pub_partitioning_epoch :: u64
  pub_leader_epoch :: u64

definition publish_resident_metadata :: "publish_record \<Rightarrow> publish_record" where
  "publish_resident_metadata r = (if pub_stream r \<noteq> None then r\<lparr>pub_payload := []\<rparr> else r)"

definition publish_record_of :: "message_envelope \<Rightarrow> publish_record" where
  "publish_record_of e =
     \<lparr>pub_seq = en_legacy_seq e, pub_namespace = en_namespace e, pub_stream = Some (en_stream e),
      pub_partition = Some (en_partition e), pub_offset = Some (en_offset e), pub_subject = en_subject e,
      pub_key = en_key e, pub_headers = en_headers e, pub_timestamp_ms = en_timestamp_ms e,
      pub_reply_to = en_reply_to e, pub_payload = en_payload e,
      pub_partitioning_epoch = en_partitioning_epoch e, pub_leader_epoch = en_leader_epoch e\<rparr>"

section \<open>Partition selection\<close>

definition stable_hash :: "bytes \<Rightarrow> 64 word" where
  "stable_hash bs = foldl (\<lambda>h b. (h XOR ucast b) * 0x100000001b3) 0xcbf29ce484222325 bs"

definition bytes_of_string :: "string \<Rightarrow> bytes" where
  "bytes_of_string s = map of_char s"

definition fallback_hash :: "stream_definition \<Rightarrow> string \<Rightarrow> 64 word \<Rightarrow> 64 word" where
  "fallback_hash d subject sticky_value =
     (case pp_fallback (sd_partitioning d) of
        StickyFallback \<Rightarrow> sticky_value
      | SubjectHash \<Rightarrow> stable_hash (bytes_of_string subject))"

text \<open>\<open>None\<close> is the failed assertion on an empty partition count.\<close>

definition select_partition_with_count ::
  "stream_definition \<Rightarrow> string \<Rightarrow> bytes option \<Rightarrow> 64 word \<Rightarrow> u32 \<Rightarrow> u32 option" where
  "select_partition_with_count d subject key sticky_value count =
     (if \<not> count > 0 then None
      else
        let hash = (case key of
              Some k \<Rightarrow> stable_hash k
            | None \<Rightarrow>
               (case pp_strategy (sd_partitioning d) of
                  SubjectToken token \<Rightarrow>
                    (case get_at (split_char CHR ''/'' subject) token of
                       Some t \<Rightarrow> stable_hash (bytes_of_string t)
                     | None \<Rightarrow> fallback_hash d subject sticky_value)
                | KeyStrategy \<Rightarrow> fallback_hash d subject sticky_value))
        in Some (unat (hash mod of_nat count)))"

definition select_partition ::
  "stream_definition \<Rightarrow> string \<Rightarrow> bytes option \<Rightarrow> 64 word \<Rightarrow> u32 option" where
  "select_partition d subject key sticky_value =
     select_partition_with_count d subject key sticky_value (sd_partitions d)"

lemma select_partition_total:
  assumes "0 < count" and "count \<le> u32_max"
  shows "\<exists>p. select_partition_with_count d subject key sticky count = Some p \<and> p < count"
proof -
  have "count < 2 ^ 64" using assms(2) by (simp add: u32_max_def)
  then have u: "unat (of_nat count :: 64 word) = count" by (simp add: unat_of_nat take_bit_nat_eq_self)
  then have "unat (h mod of_nat count) < count" for h :: "64 word"
    using assms(1) by (simp add: unat_mod)
  with assms(1) show ?thesis by (simp add: select_partition_with_count_def Let_def)
qed

end
