(* ===== verification/Partition_Replication.thy ===== *)
theory Partition_Replication
  imports Message_Envelope
begin

text \<open>
  Leader/follower replication of \<open>crates/server/src/partition_replication.rs\<close>: assignments with
  leader epochs, quorum appends, catch-up of a follower, leadership transfer and election.

  The state is the engine's: a map from partitions to their assignment, the replica logs and
  the high watermark, and the set of nodes that are available. Where the code would panic (an
  index or an \<open>unwrap\<close> that misses) the model returns the error \<open>panic\<close>; the invariant shows
  that no reachable state does.
\<close>

section \<open>Data\<close>

datatype durability = Quorum | QuorumFsync

record partition_assignment =
  pa_stream :: string
  pa_partition :: u32
  pa_replicas :: "u64 set"
  pa_leader :: u64
  pa_leader_epoch :: u64

record replica_progress =
  rp_match_offset :: "u64 option"
  rp_flushed_offset :: "u64 option"

record commit_result =
  cr_offset :: u64
  cr_high_watermark :: u64
  cr_leader_epoch :: u64
  cr_replicated :: nat
  cr_flushed :: nat

record replica =
  rep_records :: "message_envelope list"
  rep_flushed_offset :: "u64 option"

record partition_state =
  ps_assignment :: partition_assignment
  ps_replicas :: "(u64, replica) btree_map"
  ps_high_watermark :: "u64 option"

type_synonym partition_key = "string \<times> u32"

record partition_replication =
  pr_partitions :: "(partition_key, partition_state) btree_map"
  pr_available :: "u64 set"

definition panic :: broker_error where
  "panic = ''panic''"

definition empty_replica :: replica where
  "empty_replica = \<lparr>rep_records = [], rep_flushed_offset = None\<rparr>"

section \<open>Helpers on one replica\<close>

definition append_or_validate ::
  "replica \<Rightarrow> message_envelope \<Rightarrow> u64 option \<Rightarrow> unit result \<times> replica" where
  "append_or_validate r e hw =
     (let (res, r') =
        (case get_at (rep_records r) (en_offset e) of
           Some existing \<Rightarrow>
             if existing = e then (Ok (), r) else (Err ''immutable record conflict'', r)
         | None \<Rightarrow>
             if en_offset e = length (rep_records r)
             then (Ok (), r\<lparr>rep_records := rep_records r @ [e]\<rparr>)
             else (Err ''partition append creates an offset gap'', r))
      in case res of
           Err x \<Rightarrow> (Err x, r')
         | Ok _ \<Rightarrow>
             if (case hw of None \<Rightarrow> False | Some c \<Rightarrow> en_offset e \<le> c)
             then (case get_at (rep_records r') (en_offset e) of
                     None \<Rightarrow> (Err panic, r')
                   | Some x \<Rightarrow> if x = e then (Ok (), r') else (Err ''committed record conflict'', r'))
             else (Ok (), r'))"

definition reconcile_and_append ::
  "replica \<Rightarrow> message_envelope \<Rightarrow> u64 option \<Rightarrow> unit result \<times> replica" where
  "reconcile_and_append r e hw =
     (case get_at (rep_records r) (en_offset e) of
        Some existing \<Rightarrow>
          if existing \<noteq> e then
            (if \<not> (case hw of None \<Rightarrow> True | Some c \<Rightarrow> en_offset e > c)
             then (Err ''replica diverges within committed history'', r)
             else append_or_validate (r\<lparr>rep_records := take (en_offset e) (rep_records r)\<rparr>) e hw)
          else append_or_validate r e hw
      | None \<Rightarrow> append_or_validate r e hw)"

definition committed_count :: "u64 option \<Rightarrow> nat" where
  "committed_count hw = (case hw of None \<Rightarrow> 0 | Some off \<Rightarrow> off + 1)"

text \<open>The loop of \<open>reconcile_committed\<close> over the leader's committed records.\<close>

fun reconcile_loop ::
  "nat \<Rightarrow> message_envelope list \<Rightarrow> message_envelope list \<Rightarrow> unit result \<times> message_envelope list" where
  "reconcile_loop index [] records = (Ok (), records)"
| "reconcile_loop index (expected # rest) records =
     (case get_at records index of
        Some actual \<Rightarrow>
          if actual = expected then reconcile_loop (index + 1) rest records
          else (Err ''replica diverges within committed history'', records)
      | None \<Rightarrow> reconcile_loop (index + 1) rest (records @ [expected]))"

definition reconcile_committed ::
  "replica \<Rightarrow> message_envelope list \<Rightarrow> u64 option \<Rightarrow> unit result \<times> replica" where
  "reconcile_committed r leader hw =
     (let count = committed_count hw;
          (res, records) = reconcile_loop 0 (take count leader) (rep_records r)
      in case res of
           Err x \<Rightarrow> (Err x, r\<lparr>rep_records := records\<rparr>)
         | Ok _ \<Rightarrow> (Ok (), r\<lparr>rep_records := take count records\<rparr>))"

section \<open>Helpers on a partition\<close>

definition records_of :: "partition_state \<Rightarrow> u64 \<Rightarrow> message_envelope list option" where
  "records_of st node = map_option rep_records (map_of (ps_replicas st) node)"

text \<open>Indexing the replica map or the leader's records panics where there is nothing.\<close>

definition matching_replicas :: "partition_state \<Rightarrow> u64 \<Rightarrow> u64 set \<Rightarrow> nat result" where
  "matching_replicas st offset available =
     (case records_of st (pa_leader (ps_assignment st)) of
        None \<Rightarrow> Err panic
      | Some rs \<Rightarrow>
         (case get_at rs offset of
            None \<Rightarrow> Err panic
          | Some leader_record \<Rightarrow>
              Ok (length (filter (\<lambda>(node, r). node \<in> pa_replicas (ps_assignment st) \<and> node \<in> available
                           \<and> get_at (rep_records r) offset = Some leader_record) (ps_replicas st)))))"

definition flushed_replicas :: "partition_state \<Rightarrow> u64 \<Rightarrow> u64 set \<Rightarrow> nat" where
  "flushed_replicas st offset available =
     length (filter (\<lambda>(node, r). node \<in> available
               \<and> (case rep_flushed_offset r of None \<Rightarrow> False | Some f \<Rightarrow> f \<ge> offset)) (ps_replicas st))"

definition is_safe :: "partition_state \<Rightarrow> u64 \<Rightarrow> bool result" where
  "is_safe st node =
     (case ps_high_watermark st of
        None \<Rightarrow> Ok True
      | Some hw \<Rightarrow>
         (case records_of st node of
            None \<Rightarrow> Err panic
          | Some rs \<Rightarrow>
             (case records_of st (pa_leader (ps_assignment st)) of
                None \<Rightarrow> Err panic
              | Some ls \<Rightarrow> Ok (get_at rs hw = get_at ls hw))))"

text \<open>The search of an election over the replicas, in ascending order.\<close>

fun first_safe :: "partition_state \<Rightarrow> u64 set \<Rightarrow> u64 list \<Rightarrow> u64 option result" where
  "first_safe st available [] = Ok None"
| "first_safe st available (n # ns) =
     (if n \<notin> available then first_safe st available ns
      else case is_safe st n of
             Err x \<Rightarrow> Err x
           | Ok safe \<Rightarrow> if safe then Ok (Some n) else first_safe st available ns)"

definition flush_mark :: "durability \<Rightarrow> message_envelope \<Rightarrow> replica \<Rightarrow> replica" where
  "flush_mark d e r = (if d = QuorumFsync then r\<lparr>rep_flushed_offset := Some (en_offset e)\<rparr> else r)"

text \<open>The loop over the available followers, in ascending order; the first error stops it.\<close>

fun append_followers ::
  "u64 list \<Rightarrow> message_envelope \<Rightarrow> durability \<Rightarrow> u64 option \<Rightarrow> (u64, replica) btree_map
   \<Rightarrow> unit result \<times> (u64, replica) btree_map" where
  "append_followers [] e d hw rs = (Ok (), rs)"
| "append_followers (n # ns) e d hw rs =
     (case map_of rs n of
        None \<Rightarrow> (Err panic, rs)
      | Some r \<Rightarrow>
         (let (res, r') = reconcile_and_append r e hw in
          case res of
            Err x \<Rightarrow> (Err x, bt_insert n r' rs)
          | Ok _ \<Rightarrow> append_followers ns e d hw (bt_insert n (flush_mark d e r') rs)))"

section \<open>Operations\<close>

definition repl_new :: "u64 list \<Rightarrow> partition_replication" where
  "repl_new nodes = \<lparr>pr_partitions = [], pr_available = set nodes\<rparr>"

definition repl_assign ::
  "partition_replication \<Rightarrow> partition_assignment \<Rightarrow> unit result \<times> partition_replication" where
  "repl_assign s a =
     (if pa_replicas a = {} then (Err ''empty replica set'', s)
      else if pa_leader a \<notin> pa_replicas a then (Err ''partition leader is not a replica'', s)
      else if \<not> pa_leader_epoch a > 0 then (Err ''leader epoch must be positive'', s)
      else
        let key = (pa_stream a, pa_partition a);
            nodes = sorted_list_of_set (pa_replicas a)
        in case map_of (pr_partitions s) key of
          Some st \<Rightarrow>
            if \<not> pa_leader_epoch a \<ge> pa_leader_epoch (ps_assignment st)
            then (Err ''stale partition assignment epoch'', s)
            else
              let added = fold (\<lambda>n. bt_or_insert n empty_replica) nodes (ps_replicas st);
                  kept = bt_retain (\<lambda>n _. n \<in> pa_replicas a) added
              in (Ok (), s\<lparr>pr_partitions :=
                    bt_insert key (st\<lparr>ps_assignment := a, ps_replicas := kept\<rparr>) (pr_partitions s)\<rparr>)
        | None \<Rightarrow>
            (Ok (), s\<lparr>pr_partitions :=
               bt_insert key
                 \<lparr>ps_assignment = a, ps_replicas = bt_collect (map (\<lambda>n. (n, empty_replica)) nodes),
                  ps_high_watermark = None\<rparr> (pr_partitions s)\<rparr>))"

text \<open>
  The work of \<open>append\<close> on the partition once the guards passed: leader, followers, quorum.
  The state is returned as the code leaves it, on errors too.
\<close>

definition append_partition ::
  "partition_state \<Rightarrow> u64 set \<Rightarrow> u64 \<Rightarrow> message_envelope \<Rightarrow> durability
   \<Rightarrow> commit_result result \<times> partition_state" where
  "append_partition st available node e d =
     (let a = ps_assignment st;
          quorum = card (pa_replicas a) div 2 + 1;
          hw = ps_high_watermark st
      in case map_of (ps_replicas st) node of
        None \<Rightarrow> (Err panic, st)
      | Some leader \<Rightarrow>
         (let (res, leader') = append_or_validate leader e hw in
          case res of
            Err x \<Rightarrow> (Err x, st\<lparr>ps_replicas := bt_insert node leader' (ps_replicas st)\<rparr>)
          | Ok _ \<Rightarrow>
             (let rs = bt_insert node (flush_mark d e leader') (ps_replicas st);
                  followers = filter (\<lambda>r. r \<noteq> node \<and> r \<in> available) (sorted_list_of_set (pa_replicas a));
                  (res2, rs') = append_followers followers e d hw rs;
                  st' = st\<lparr>ps_replicas := rs'\<rparr>
              in case res2 of
                Err x \<Rightarrow> (Err x, st')
              | Ok _ \<Rightarrow>
                 (case matching_replicas st' (en_offset e) available of
                    Err x \<Rightarrow> (Err x, st')
                  | Ok replicated \<Rightarrow>
                     (let flushed = flushed_replicas st' (en_offset e) available
                      in if \<not> replicated \<ge> quorum then (Err ''partition quorum unavailable'', st')
                         else if d = QuorumFsync \<and> \<not> flushed \<ge> quorum
                         then (Err ''partition fsync quorum unavailable'', st')
                         else (Ok \<lparr>cr_offset = en_offset e, cr_high_watermark = en_offset e,
                                   cr_leader_epoch = pa_leader_epoch a, cr_replicated = replicated,
                                   cr_flushed = flushed\<rparr>,
                               st'\<lparr>ps_high_watermark := Some (en_offset e)\<rparr>))))))"

definition repl_append ::
  "partition_replication \<Rightarrow> u64 \<Rightarrow> u64 \<Rightarrow> message_envelope \<Rightarrow> durability
   \<Rightarrow> commit_result result \<times> partition_replication" where
  "repl_append s node epoch e d =
     (let key = (en_stream e, en_partition e) in
      case map_of (pr_partitions s) key of
        None \<Rightarrow> (Err ''unknown partition assignment'', s)
      | Some st \<Rightarrow>
          if pa_leader (ps_assignment st) \<noteq> node then (Err ''not partition leader'', s)
          else if pa_leader_epoch (ps_assignment st) \<noteq> epoch then (Err ''fenced partition leader epoch'', s)
          else if node \<notin> pr_available s then (Err ''partition leader unavailable'', s)
          else if en_leader_epoch e \<noteq> epoch then (Err ''envelope leader epoch mismatch'', s)
          else
            let (res, st') = append_partition st (pr_available s) node e d
            in (res, s\<lparr>pr_partitions := bt_insert key st' (pr_partitions s)\<rparr>))"

definition repl_catch_up ::
  "partition_replication \<Rightarrow> string \<Rightarrow> u32 \<Rightarrow> u64 \<Rightarrow> unit result \<times> partition_replication" where
  "repl_catch_up s stream part node =
     (if node \<notin> pr_available s then (Err ''replica unavailable'', s)
      else case map_of (pr_partitions s) (stream, part) of
        None \<Rightarrow> (Err ''unknown partition assignment'', s)
      | Some st \<Rightarrow>
          if node \<notin> pa_replicas (ps_assignment st) then (Err ''not a replica'', s)
          else case (records_of st (pa_leader (ps_assignment st)), map_of (ps_replicas st) node) of
            (Some leader_records, Some r) \<Rightarrow>
              (let (res, r') = reconcile_committed r leader_records (ps_high_watermark st)
               in (res, s\<lparr>pr_partitions :=
                     bt_insert (stream, part) (st\<lparr>ps_replicas := bt_insert node r' (ps_replicas st)\<rparr>)
                       (pr_partitions s)\<rparr>))
          | _ \<Rightarrow> (Err panic, s))"

definition promote :: "partition_state \<Rightarrow> u64 \<Rightarrow> partition_state" where
  "promote st candidate =
     st\<lparr>ps_assignment := (ps_assignment st)\<lparr>pa_leader := candidate,
          pa_leader_epoch := sat_add64 (pa_leader_epoch (ps_assignment st)) 1\<rparr>\<rparr>"

definition repl_transfer_leadership ::
  "partition_replication \<Rightarrow> string \<Rightarrow> u32 \<Rightarrow> u64 \<Rightarrow> u64 result \<times> partition_replication" where
  "repl_transfer_leadership s stream part candidate =
     (if candidate \<notin> pr_available s then (Err ''candidate unavailable'', s)
      else case map_of (pr_partitions s) (stream, part) of
        None \<Rightarrow> (Err ''unknown partition assignment'', s)
      | Some st \<Rightarrow>
          if candidate \<notin> pa_replicas (ps_assignment st) then (Err ''candidate is not a replica'', s)
          else case is_safe st candidate of
                 Err x \<Rightarrow> (Err x, s)
               | Ok safe \<Rightarrow>
                   if \<not> safe then (Err ''candidate is missing committed partition data'', s)
                   else let st' = promote st candidate
                        in (Ok (pa_leader_epoch (ps_assignment st')),
                            s\<lparr>pr_partitions := bt_insert (stream, part) st' (pr_partitions s)\<rparr>))"

definition repl_elect_safe_leader ::
  "partition_replication \<Rightarrow> string \<Rightarrow> u32 \<Rightarrow> (u64 \<times> u64) result \<times> partition_replication" where
  "repl_elect_safe_leader s stream part =
     (case map_of (pr_partitions s) (stream, part) of
        None \<Rightarrow> (Err ''unknown partition assignment'', s)
      | Some st \<Rightarrow>
         (case first_safe st (pr_available s) (sorted_list_of_set (pa_replicas (ps_assignment st))) of
            Err x \<Rightarrow> (Err x, s)
          | Ok None \<Rightarrow> (Err ''no safe replica available'', s)
          | Ok (Some candidate) \<Rightarrow>
             (let st' = promote st candidate
              in (Ok (candidate, pa_leader_epoch (ps_assignment st')),
                  s\<lparr>pr_partitions := bt_insert (stream, part) st' (pr_partitions s)\<rparr>))))"

definition repl_set_available :: "partition_replication \<Rightarrow> u64 list \<Rightarrow> partition_replication" where
  "repl_set_available s nodes = s\<lparr>pr_available := set nodes\<rparr>"

definition repl_progress ::
  "partition_replication \<Rightarrow> string \<Rightarrow> u32 \<Rightarrow> ((u64, replica_progress) btree_map) result" where
  "repl_progress s stream part =
     (case map_of (pr_partitions s) (stream, part) of
        None \<Rightarrow> Err ''unknown partition assignment''
      | Some st \<Rightarrow>
          Ok (bt_map_values
                (\<lambda>r. \<lparr>rp_match_offset =
                         (if rep_records r = [] then None else Some (en_offset (last (rep_records r)))),
                      rp_flushed_offset = rep_flushed_offset r\<rparr>) (ps_replicas st)))"

definition repl_high_watermark :: "partition_replication \<Rightarrow> string \<Rightarrow> u32 \<Rightarrow> (u64 option) result" where
  "repl_high_watermark s stream part =
     (case map_of (pr_partitions s) (stream, part) of
        None \<Rightarrow> Err ''unknown partition assignment''
      | Some st \<Rightarrow> Ok (ps_high_watermark st))"

definition repl_committed_records ::
  "partition_replication \<Rightarrow> string \<Rightarrow> u32 \<Rightarrow> u64 \<Rightarrow> (message_envelope list) result" where
  "repl_committed_records s stream part node =
     (case map_of (pr_partitions s) (stream, part) of
        None \<Rightarrow> Err ''unknown partition assignment''
      | Some st \<Rightarrow>
         (case map_of (ps_replicas st) node of
            None \<Rightarrow> Err ''not a replica''
          | Some r \<Rightarrow> Ok (take (committed_count (ps_high_watermark st)) (rep_records r))))"


section \<open>Invariant\<close>

definition replica_ok :: "replica \<Rightarrow> bool" where
  "replica_ok r \<longleftrightarrow> (\<forall>i < length (rep_records r). en_offset (rep_records r ! i) = i)"

definition part_inv :: "partition_state \<Rightarrow> bool" where
  "part_inv st \<longleftrightarrow>
     bt_wf (ps_replicas st) \<and> finite (pa_replicas (ps_assignment st))
     \<and> fst ` set (ps_replicas st) = pa_replicas (ps_assignment st)
     \<and> pa_leader (ps_assignment st) \<in> pa_replicas (ps_assignment st)
     \<and> 0 < pa_leader_epoch (ps_assignment st) \<and> pa_leader_epoch (ps_assignment st) \<le> u64_max
     \<and> (\<forall>n r. map_of (ps_replicas st) n = Some r \<longrightarrow> replica_ok r)"

definition repl_inv :: "partition_replication \<Rightarrow> bool" where
  "repl_inv s \<longleftrightarrow>
     bt_wf (pr_partitions s)
     \<and> (\<forall>key st. map_of (pr_partitions s) key = Some st \<longrightarrow>
          part_inv st \<and> key = (pa_stream (ps_assignment st), pa_partition (ps_assignment st)))"

text \<open>
  How a partition may change in one operation: the invariant is kept, the epoch does not
  decrease, and on every replica that stays the committed records stay a prefix of the log.
\<close>

definition part_evolves :: "partition_state \<Rightarrow> partition_state \<Rightarrow> bool" where
  "part_evolves st st' \<longleftrightarrow>
     part_inv st'
     \<and> pa_stream (ps_assignment st') = pa_stream (ps_assignment st)
     \<and> pa_partition (ps_assignment st') = pa_partition (ps_assignment st)
     \<and> pa_leader_epoch (ps_assignment st) \<le> pa_leader_epoch (ps_assignment st')
     \<and> (\<forall>n r r'. map_of (ps_replicas st) n = Some r \<longrightarrow> map_of (ps_replicas st') n = Some r' \<longrightarrow>
          prefix (take (committed_count (ps_high_watermark st)) (rep_records r)) (rep_records r'))"

section \<open>Laws of the replica helpers\<close>

lemma replica_ok_append:
  "replica_ok r \<Longrightarrow> en_offset e = length (rep_records r) \<Longrightarrow>
     replica_ok (r\<lparr>rep_records := rep_records r @ [e]\<rparr>)"
  by (auto simp: replica_ok_def nth_append less_Suc_eq)

lemma replica_ok_take: "replica_ok r \<Longrightarrow> replica_ok (r\<lparr>rep_records := take n (rep_records r)\<rparr>)"
  by (auto simp: replica_ok_def)

lemma replica_ok_flush_mark [simp]: "replica_ok (flush_mark d e r) = replica_ok r"
  by (simp add: replica_ok_def flush_mark_def)

lemma records_flush_mark [simp]: "rep_records (flush_mark d e r) = rep_records r"
  by (simp add: flush_mark_def)

lemma append_or_validate_law:
  assumes "append_or_validate r e hw = (res, r')"
  shows "prefix (rep_records r) (rep_records r')"
    and "replica_ok r \<Longrightarrow> replica_ok r'"
    and "res = Ok () \<Longrightarrow> get_at (rep_records r') (en_offset e) = Some e"
    and "res \<noteq> Err panic"
  using assms
  by (auto simp: append_or_validate_def Let_def panic_def replica_ok_append nth_append
      split: option.splits if_splits sum.splits)

lemma reconcile_and_append_law:
  assumes "reconcile_and_append r e hw = (res, r')"
  shows "prefix (take (committed_count hw) (rep_records r)) (rep_records r')"
    and "replica_ok r \<Longrightarrow> replica_ok r'"
    and "res = Ok () \<Longrightarrow> get_at (rep_records r') (en_offset e) = Some e"
    and "res \<noteq> Err panic"
proof -
  consider (refused) "res = Err ''replica diverges within committed history''" "r' = r"
    | (plain) "append_or_validate r e hw = (res, r')"
    | (cut) "committed_count hw \<le> en_offset e"
        "append_or_validate (r\<lparr>rep_records := take (en_offset e) (rep_records r)\<rparr>) e hw = (res, r')"
  proof (cases "get_at (rep_records r) (en_offset e)")
    case None
    with assms plain show thesis by (simp add: reconcile_and_append_def del: get_at_None)
  next
    case (Some x)
    show thesis
    proof (cases "x = e \<or> (case hw of None \<Rightarrow> True | Some c \<Rightarrow> en_offset e > c)")
      case True
      then have "x = e \<or> committed_count hw \<le> en_offset e"
        by (auto simp: committed_count_def split: option.splits)
      with True Some assms plain cut show thesis
        by (cases "x = e") (simp_all add: reconcile_and_append_def del: get_at_Some)
    next
      case False
      with Some assms have "res = Err ''replica diverges within committed history'' \<and> r' = r"
        by (simp add: reconcile_and_append_def del: get_at_Some)
      with refused show thesis by blast
    qed
  qed
  note cases = this
  show "prefix (take (committed_count hw) (rep_records r)) (rep_records r')"
  proof (cases rule: cases)
    case refused
    then show ?thesis by (simp add: take_is_prefix)
  next
    case plain
    then show ?thesis
      using append_or_validate_law(1) prefix_order.trans take_is_prefix by blast
  next
    case cut
    have "prefix (take (committed_count hw) (rep_records r)) (take (en_offset e) (rep_records r))"
      using cut(1) by (metis min.absorb1 take_is_prefix take_take)
    with append_or_validate_law(1) [OF cut(2)] show ?thesis
      by (simp add: prefix_order.trans)
  qed
  show "replica_ok r'" if "replica_ok r"
    using that
    by (cases rule: cases) (auto dest: append_or_validate_law(2) intro: replica_ok_take)
  show "get_at (rep_records r') (en_offset e) = Some e" if "res = Ok ()"
    using that
    by (cases rule: cases) (auto dest: append_or_validate_law(3))
  show "res \<noteq> Err panic"
    by (cases rule: cases) (auto dest: append_or_validate_law(4) simp: panic_def)
qed

lemma reconcile_loop_law:
  assumes "reconcile_loop i lead recs = (res, recs')" and "i \<le> length recs"
  shows "prefix recs recs'
    \<and> (res = Ok () \<longrightarrow> i + length lead \<le> length recs' \<and> take (length lead) (drop i recs') = lead)
    \<and> res \<noteq> Err panic
    \<and> ((\<forall>j < length recs. en_offset (recs ! j) = j) \<and> (\<forall>j < length lead. en_offset (lead ! j) = i + j)
        \<longrightarrow> (\<forall>j < length recs'. en_offset (recs' ! j) = j))"
  using assms
proof (induction i lead recs arbitrary: res recs' rule: reconcile_loop.induct)
  case (1 i recs)
  then show ?case by auto
next
  case (2 i x rest recs)
  show ?case
  proof (cases "get_at recs i")
    case None
    with 2(4) have i: "i = length recs" by simp
    from None 2(3) have "reconcile_loop (i + 1) rest (recs @ [x]) = (res, recs')"
      by (simp del: get_at_None)
    from 2(1) [OF None this] i have IH: "prefix (recs @ [x]) recs'
      \<and> (res = Ok () \<longrightarrow> i + 1 + length rest \<le> length recs' \<and> take (length rest) (drop (i + 1) recs') = rest)
      \<and> res \<noteq> Err panic
      \<and> ((\<forall>j < length (recs @ [x]). en_offset ((recs @ [x]) ! j) = j)
          \<and> (\<forall>j < length rest. en_offset (rest ! j) = i + 1 + j)
          \<longrightarrow> (\<forall>j < length recs'. en_offset (recs' ! j) = j))"
      by simp
    from IH i have p: "prefix (recs @ [x]) recs'" by simp
    then have "recs' ! i = x" and "i < length recs'"
      using i by (auto simp: prefix_def nth_append)
    then have d: "drop i recs' = x # drop (Suc i) recs'"
      by (metis Cons_nth_drop_Suc)
    from p have "prefix recs recs'" by (auto simp: prefix_def)
    moreover have "\<forall>j < length (recs @ [x]). en_offset ((recs @ [x]) ! j) = j"
      if "\<forall>j < length recs. en_offset (recs ! j) = j" and "en_offset x = length recs"
      using that by (auto simp: nth_append less_Suc_eq)
    moreover have "en_offset x = i \<and> (\<forall>j < length rest. en_offset (rest ! j) = i + 1 + j)"
      if "\<forall>j < length (x # rest). en_offset ((x # rest) ! j) = i + j"
      using that by (auto simp: All_less_Suc2)
    ultimately show ?thesis
      using IH d i by (auto simp del: length_append)
  next
    case (Some y)
    show ?thesis
    proof (cases "y = x")
      case True
      with Some 2(3) have eq: "reconcile_loop (i + 1) rest recs = (res, recs')"
        by (simp del: get_at_Some)
      from Some have i: "i < length recs" "recs ! i = y" by auto
      note IH = 2(2) [OF Some True eq]
      from IH i have p: "prefix recs recs'" by simp
      then have "recs' ! i = x" and "i < length recs'"
        using i True by (auto simp: prefix_def nth_append)
      then have d: "drop i recs' = x # drop (Suc i) recs'"
        by (metis Cons_nth_drop_Suc)
      from IH d i p show ?thesis by (auto simp: All_less_Suc2)
    next
      case False
      with Some 2(3) have "res = Err ''replica diverges within committed history'' \<and> recs' = recs"
        by (simp del: get_at_Some)
      then show ?thesis by (auto simp: panic_def)
    qed
  qed
qed


lemma reconcile_committed_law:
  assumes "reconcile_committed r lead hw = (res, r')"
  shows "prefix (take (committed_count hw) (rep_records r)) (rep_records r')"
    and "replica_ok r \<Longrightarrow> \<forall>j < length lead. en_offset (lead ! j) = j \<Longrightarrow> replica_ok r'"
    and "res = Ok () \<Longrightarrow> length (rep_records r') \<le> committed_count hw
           \<and> prefix (take (committed_count hw) lead) (rep_records r')"
    and "res \<noteq> Err panic" and "rep_flushed_offset r' = rep_flushed_offset r"
proof -
  let ?n = "committed_count hw"
  obtain res1 recs where loop: "reconcile_loop 0 (take ?n lead) (rep_records r) = (res1, recs)"
    by (cases "reconcile_loop 0 (take ?n lead) (rep_records r)")
  note law = reconcile_loop_law [OF loop]
  have p: "prefix (rep_records r) recs" using law by simp
  have r': "res1 = res \<and> (res = Ok () \<longrightarrow> rep_records r' = take ?n recs)
      \<and> (res \<noteq> Ok () \<longrightarrow> rep_records r' = recs) \<and> rep_flushed_offset r' = rep_flushed_offset r"
    using assms loop by (auto simp: reconcile_committed_def split: sum.splits)
  have "prefix (take ?n (rep_records r)) (take ?n recs)"
    using p by (auto simp: prefix_def)
  moreover have "prefix (take ?n (rep_records r)) recs"
    using p prefix_order.trans take_is_prefix by blast
  ultimately show "prefix (take ?n (rep_records r)) (rep_records r')"
    using r' by metis
  show "res \<noteq> Err panic" using law r' by simp
  show "rep_flushed_offset r' = rep_flushed_offset r" using r' by simp
  show "length (rep_records r') \<le> ?n \<and> prefix (take ?n lead) (rep_records r')" if "res = Ok ()"
  proof -
    from law r' that have "take (length (take ?n lead)) recs = take ?n lead" by simp
    then have "prefix (take ?n lead) (take ?n recs)"
      by (metis length_take min.cobounded2 take_is_prefix take_take min.absorb1)
    with r' that show ?thesis by simp
  qed
  show "replica_ok r'" if "replica_ok r" "\<forall>j < length lead. en_offset (lead ! j) = j"
  proof -
    from law that have "\<forall>j < length recs. en_offset (recs ! j) = j"
      by (simp add: replica_ok_def)
    with r' show ?thesis by (cases "res = Ok ()") (auto simp: replica_ok_def)
  qed
qed

section \<open>Laws of the partition operations\<close>

lemma part_evolves_refl: "part_inv st \<Longrightarrow> part_evolves st st"
  by (simp add: part_evolves_def take_is_prefix)

lemma part_inv_replica:
  "part_inv st \<Longrightarrow> n \<in> pa_replicas (ps_assignment st) \<Longrightarrow>
     \<exists>r. map_of (ps_replicas st) n = Some r \<and> replica_ok r"
  by (metis key_iff part_inv_def)

text \<open>Replacing one assigned replica by one that keeps its committed prefix.\<close>

lemma part_evolves_put:
  assumes inv: "part_inv st" and r: "map_of (ps_replicas st) n = Some r"
    and ok: "replica_ok r'"
    and pre: "prefix (take (committed_count (ps_high_watermark st)) (rep_records r)) (rep_records r')"
  shows "part_evolves st (st\<lparr>ps_replicas := bt_insert n r' (ps_replicas st)\<rparr>)"
proof -
  from r have "n \<in> fst ` set (ps_replicas st)" by (metis key_iff)
  with inv ok have "part_inv (st\<lparr>ps_replicas := bt_insert n r' (ps_replicas st)\<rparr>)"
    by (auto simp: part_inv_def insert_absorb split: if_splits)
  moreover from inv have "bt_wf (ps_replicas st)" by (simp add: part_inv_def)
  ultimately show ?thesis
    using r pre by (auto simp: part_evolves_def take_is_prefix split: if_splits)
qed

lemma part_evolves_trans:
  assumes "part_evolves st st1" and "part_evolves st1 st2"
    and "ps_high_watermark st1 = ps_high_watermark st"
    and "\<And>n. n \<in> fst ` set (ps_replicas st) \<Longrightarrow> n \<in> fst ` set (ps_replicas st1)"
  shows "part_evolves st st2"
proof -
  let ?n = "committed_count (ps_high_watermark st)"
  have "prefix (take ?n (rep_records r)) (rep_records r2)"
    if r: "map_of (ps_replicas st) n = Some r" and r2: "map_of (ps_replicas st2) n = Some r2"
    for n r r2
  proof -
    from r have "n \<in> fst ` set (ps_replicas st)" by (metis key_iff)
    with assms(4) obtain r1 where r1: "map_of (ps_replicas st1) n = Some r1"
      by (metis key_iff)
    with assms(1) r have "prefix (take ?n (rep_records r)) (rep_records r1)"
      by (simp add: part_evolves_def)
    then have "prefix (take ?n (rep_records r)) (take ?n (rep_records r1))"
      by (auto simp: prefix_def)
    moreover from assms(2,3) r1 r2 have "prefix (take ?n (rep_records r1)) (rep_records r2)"
      by (simp add: part_evolves_def)
    ultimately show ?thesis by (rule prefix_order.trans)
  qed
  with assms show ?thesis by (auto simp: part_evolves_def)
qed

lemma append_followers_law:
  assumes "append_followers ns e d (ps_high_watermark st) (ps_replicas st) = (res, rs')"
    and "part_inv st" and "set ns \<subseteq> pa_replicas (ps_assignment st)"
  shows "part_evolves st (st\<lparr>ps_replicas := rs'\<rparr>) \<and> res \<noteq> Err panic
    \<and> (\<forall>m. m \<notin> set ns \<longrightarrow> map_of rs' m = map_of (ps_replicas st) m)"
  using assms
proof (induction ns arbitrary: st)
  case Nil
  then show ?case by (auto intro: part_evolves_refl)
next
  case (Cons n ns)
  let ?hw = "ps_high_watermark st"
  from Cons.prems obtain r where r: "map_of (ps_replicas st) n = Some r" "replica_ok r"
    using part_inv_replica by fastforce
  obtain res1 r1 where rec: "reconcile_and_append r e ?hw = (res1, r1)"
    by (cases "reconcile_and_append r e ?hw")
  note law = reconcile_and_append_law [OF rec]
  have wf: "bt_wf (ps_replicas st)" using Cons.prems(2) by (simp add: part_inv_def)
  show ?case
  proof (cases res1)
    case (Inl x)
    have "part_evolves st (st\<lparr>ps_replicas := bt_insert n r1 (ps_replicas st)\<rparr>)"
      by (rule part_evolves_put [OF Cons.prems(2) r(1)]) (use law r(2) in auto)
    moreover from Cons.prems(1) rec r Inl have "res = Err x \<and> rs' = bt_insert n r1 (ps_replicas st)"
      by simp
    ultimately show ?thesis using law(4) Inl wf by auto
  next
    case (Inr u)
    let ?st = "st\<lparr>ps_replicas := bt_insert n (flush_mark d e r1) (ps_replicas st)\<rparr>"
    have ev: "part_evolves st ?st"
      by (rule part_evolves_put [OF Cons.prems(2) r(1)]) (use law r(2) in auto)
    from Cons.prems(1) rec r Inr
    have "append_followers ns e d (ps_high_watermark ?st) (ps_replicas ?st) = (res, rs')" by simp
    moreover from ev have "part_inv ?st" by (simp add: part_evolves_def)
    ultimately have IH: "part_evolves ?st (?st\<lparr>ps_replicas := rs'\<rparr>) \<and> res \<noteq> Err panic
        \<and> (\<forall>m. m \<notin> set ns \<longrightarrow> map_of rs' m = map_of (ps_replicas ?st) m)"
      using Cons.IH [of ?st] Cons.prems(3) by simp
    then have "part_evolves st (st\<lparr>ps_replicas := rs'\<rparr>)"
      using part_evolves_trans [OF ev] by simp
    with IH wf show ?thesis by auto
  qed
qed


text \<open>The replicas a count ranges over: assigned, available, and holding \<open>e\<close> at its offset.\<close>

definition holders :: "partition_state \<Rightarrow> u64 set \<Rightarrow> message_envelope \<Rightarrow> u64 set" where
  "holders st available e =
     {n \<in> pa_replicas (ps_assignment st) \<inter> available.
        \<exists>r. map_of (ps_replicas st) n = Some r \<and> get_at (rep_records r) (en_offset e) = Some e}"

definition flushers :: "partition_state \<Rightarrow> u64 set \<Rightarrow> u64 \<Rightarrow> u64 set" where
  "flushers st available offset =
     {n \<in> pa_replicas (ps_assignment st) \<inter> available.
        \<exists>r f. map_of (ps_replicas st) n = Some r \<and> rep_flushed_offset r = Some f \<and> offset \<le> f}"

lemma matching_replicas_holders:
  assumes "part_inv st" and "map_of (ps_replicas st) (pa_leader (ps_assignment st)) = Some l"
    and "get_at (rep_records l) (en_offset e) = Some e"
  shows "matching_replicas st (en_offset e) available = Ok (card (holders st available e))"
proof -
  have wf: "bt_wf (ps_replicas st)" using assms(1) by (simp add: part_inv_def)
  have "matching_replicas st (en_offset e) available =
    Ok (length (filter (\<lambda>(node, r). node \<in> pa_replicas (ps_assignment st) \<and> node \<in> available
          \<and> get_at (rep_records r) (en_offset e) = Some e) (ps_replicas st)))"
    using assms(2,3) by (simp add: matching_replicas_def records_of_def del: get_at_Some)
  then show ?thesis
    unfolding holders_def
    by (simp only: length_filter_bt [OF wf]) (rule arg_cong [where f = "\<lambda>x. Ok (card x)"], auto)
qed

lemma is_safe_total:
  assumes "part_inv st" and "node \<in> pa_replicas (ps_assignment st)"
  obtains b where "is_safe st node = Ok b"
proof -
  have "pa_leader (ps_assignment st) \<in> pa_replicas (ps_assignment st)" using assms(1) by (simp add: part_inv_def)
  then obtain l r where "map_of (ps_replicas st) node = Some r" "map_of (ps_replicas st) (pa_leader (ps_assignment st)) = Some l"
    using part_inv_replica [OF assms(1)] assms(2) by blast
  then show thesis using that by (cases "ps_high_watermark st") (auto simp: is_safe_def records_of_def)
qed

lemma first_safe_total:
  assumes "part_inv st" and "set ns \<subseteq> pa_replicas (ps_assignment st)"
  shows "\<exists>c. first_safe st available ns = Ok c"
    and "first_safe st available ns = Ok (Some n) \<Longrightarrow> n \<in> set ns \<and> n \<in> available \<and> is_safe st n = Ok True"
proof -
  have "(\<exists>c. first_safe st available ns = Ok c)
    \<and> (first_safe st available ns = Ok (Some n) \<longrightarrow> n \<in> set ns \<and> n \<in> available \<and> is_safe st n = Ok True)"
    using assms(2)
  proof (induction ns)
    case (Cons m ns)
    then obtain b where "is_safe st m = Ok b" using is_safe_total [OF assms(1)] by auto
    with Cons show ?case by auto
  qed simp
  then show "\<exists>c. first_safe st available ns = Ok c"
    and "first_safe st available ns = Ok (Some n) \<Longrightarrow> n \<in> set ns \<and> n \<in> available \<and> is_safe st n = Ok True"
    by blast+
qed

lemma flushed_replicas_flushers:
  assumes "part_inv st"
  shows "flushed_replicas st off available = card (flushers st available off)"
proof -
  have "bt_wf (ps_replicas st)" using assms by (simp add: part_inv_def)
  moreover have "n \<in> pa_replicas (ps_assignment st)" if "map_of (ps_replicas st) n = Some r" for n r
    using assms that by (metis key_iff part_inv_def)
  ultimately show ?thesis
    unfolding flushed_replicas_def flushers_def
    by (simp only: length_filter_bt)
      (rule arg_cong [where f = card], auto split: option.splits)
qed

lemma append_partition_law:
  assumes run: "append_partition st av node e d = (res, st')" and inv: "part_inv st"
    and node: "node = pa_leader (ps_assignment st)"
  shows "part_evolves st st' \<and> res \<noteq> Err panic \<and> ps_assignment st' = ps_assignment st
    \<and> (\<forall>x. res = Err x \<longrightarrow> ps_high_watermark st' = ps_high_watermark st)
    \<and> (\<forall>c. res = Ok c \<longrightarrow>
         ps_high_watermark st' = Some (en_offset e)
         \<and> c = \<lparr>cr_offset = en_offset e, cr_high_watermark = en_offset e,
                cr_leader_epoch = pa_leader_epoch (ps_assignment st),
                cr_replicated = card (holders st' av e),
                cr_flushed = card (flushers st' av (en_offset e))\<rparr>
         \<and> card (pa_replicas (ps_assignment st)) div 2 < card (holders st' av e)
         \<and> (d = QuorumFsync \<longrightarrow>
              card (pa_replicas (ps_assignment st)) div 2 < card (flushers st' av (en_offset e)))
         \<and> (\<exists>l. map_of (ps_replicas st') node = Some l \<and> get_at (rep_records l) (en_offset e) = Some e))"
proof -
  let ?a = "ps_assignment st"
  have fin: "finite (pa_replicas ?a)" and wf: "bt_wf (ps_replicas st)"
    using inv by (simp_all add: part_inv_def)
  from inv node obtain l where l: "map_of (ps_replicas st) node = Some l" "replica_ok l"
    using part_inv_replica part_inv_def by metis
  obtain res1 l1 where aov: "append_or_validate l e (ps_high_watermark st) = (res1, l1)"
    by (cases "append_or_validate l e (ps_high_watermark st)")
  note law = append_or_validate_law [OF aov]
  have pre: "prefix (take (committed_count (ps_high_watermark st)) (rep_records l)) (rep_records l1)"
    using law(1) prefix_order.trans take_is_prefix by blast
  show ?thesis
  proof (cases res1)
    case (Inl x)
    have "part_evolves st (st\<lparr>ps_replicas := bt_insert node l1 (ps_replicas st)\<rparr>)"
      by (rule part_evolves_put [OF inv l(1)]) (use law(2) l(2) pre in auto)
    moreover from run l(1) aov Inl
    have "res = Err x \<and> st' = st\<lparr>ps_replicas := bt_insert node l1 (ps_replicas st)\<rparr>"
      by (simp add: append_partition_def)
    ultimately show ?thesis using law(4) Inl by simp
  next
    case (Inr u)
    let ?st1 = "st\<lparr>ps_replicas := bt_insert node (flush_mark d e l1) (ps_replicas st)\<rparr>"
    let ?ns = "filter (\<lambda>r. r \<noteq> node \<and> r \<in> av) (sorted_list_of_set (pa_replicas ?a))"
    obtain res2 rs where loop: "append_followers ?ns e d (ps_high_watermark ?st1) (ps_replicas ?st1) = (res2, rs)"
      by (cases "append_followers ?ns e d (ps_high_watermark ?st1) (ps_replicas ?st1)")
    let ?st2 = "st\<lparr>ps_replicas := rs\<rparr>"
    have ev1: "part_evolves st ?st1"
      by (rule part_evolves_put [OF inv l(1)]) (use law(2) l(2) pre in auto)
    then have "part_inv ?st1" by (simp add: part_evolves_def)
    moreover have "set ?ns \<subseteq> pa_replicas (ps_assignment ?st1)" using fin by auto
    ultimately have fl: "part_evolves ?st1 (?st1\<lparr>ps_replicas := rs\<rparr>) \<and> res2 \<noteq> Err panic
        \<and> (\<forall>m. m \<notin> set ?ns \<longrightarrow> map_of rs m = map_of (ps_replicas ?st1) m)"
      by (rule append_followers_law [OF loop])
    have ev2: "part_evolves st ?st2"
      using part_evolves_trans [OF ev1, of ?st2] fl by simp
    then have inv2: "part_inv ?st2" by (simp add: part_evolves_def)
    show ?thesis
    proof (cases res2)
      case (Inl x)
      with run l(1) aov Inr loop have "res = Err x \<and> st' = ?st2"
        by (simp add: append_partition_def Let_def)
      with ev2 fl Inl show ?thesis by simp
    next
      case (Inr v)
      have leader: "map_of rs node = Some (flush_mark d e l1)"
        using fl wf by auto
      have rec: "get_at (rep_records l1) (en_offset e) = Some e"
        using law(3) \<open>res1 = Inr u\<close> by simp
      have m: "matching_replicas ?st2 (en_offset e) av = Ok (card (holders ?st2 av e))"
        by (rule matching_replicas_holders [OF inv2, of "flush_mark d e l1"]) (use leader rec node in auto)
      have f: "flushed_replicas ?st2 (en_offset e) av = card (flushers ?st2 av (en_offset e))"
        by (rule flushed_replicas_flushers [OF inv2])
      have hw: "part_evolves st (?st2\<lparr>ps_high_watermark := Some (en_offset e)\<rparr>)"
        using ev2 by (simp add: part_evolves_def part_inv_def)
      have sets: "holders (?st2\<lparr>ps_high_watermark := h\<rparr>) av e = holders ?st2 av e"
        "flushers (?st2\<lparr>ps_high_watermark := h\<rparr>) av k = flushers ?st2 av k" for h k
        by (simp_all add: holders_def flushers_def)
      from l(1) aov \<open>res1 = Inr u\<close> loop Inr
      have "append_partition st av node e d =
         (if \<not> card (pa_replicas ?a) div 2 + 1 \<le> card (holders ?st2 av e)
          then (Err ''partition quorum unavailable'', ?st2)
          else if d = QuorumFsync \<and> \<not> card (pa_replicas ?a) div 2 + 1 \<le> card (flushers ?st2 av (en_offset e))
          then (Err ''partition fsync quorum unavailable'', ?st2)
          else (Ok \<lparr>cr_offset = en_offset e, cr_high_watermark = en_offset e,
                    cr_leader_epoch = pa_leader_epoch ?a, cr_replicated = card (holders ?st2 av e),
                    cr_flushed = card (flushers ?st2 av (en_offset e))\<rparr>,
                ?st2\<lparr>ps_high_watermark := Some (en_offset e)\<rparr>))"
        by (simp add: append_partition_def Let_def m f)
      with run ev2 hw leader rec show ?thesis
        by (auto simp: sets panic_def split: if_splits)
    qed
  qed
qed


section \<open>The engine as a transition system\<close>

text \<open>
  One step is one call, with whatever it returned. An assignment carries a \<open>BTreeSet\<close>, so it
  is finite, and a \<open>u64\<close> epoch.
\<close>

inductive repl_step :: "partition_replication \<Rightarrow> partition_replication \<Rightarrow> bool" where
  step_assign: "finite (pa_replicas a) \<Longrightarrow> pa_leader_epoch a \<le> u64_max \<Longrightarrow>
     repl_step s (snd (repl_assign s a))"
| step_append: "repl_step s (snd (repl_append s node epoch e d))"
| step_catch_up: "repl_step s (snd (repl_catch_up s stream part node))"
| step_transfer: "repl_step s (snd (repl_transfer_leadership s stream part node))"
| step_elect: "repl_step s (snd (repl_elect_safe_leader s stream part))"
| step_available: "repl_step s (repl_set_available s nodes)"

definition repl_init :: "partition_replication \<Rightarrow> bool" where
  "repl_init s \<longleftrightarrow> (\<exists>nodes. s = repl_new nodes)"

definition repl_evolves :: "partition_replication \<Rightarrow> partition_replication \<Rightarrow> bool" where
  "repl_evolves s t \<longleftrightarrow>
     repl_inv t
     \<and> (\<forall>key st. map_of (pr_partitions s) key = Some st \<longrightarrow>
          (\<exists>st'. map_of (pr_partitions t) key = Some st' \<and> part_evolves st st'))"

lemma repl_evolves_refl: "repl_inv s \<Longrightarrow> repl_evolves s s"
  by (auto simp: repl_evolves_def repl_inv_def intro: part_evolves_refl)

lemma repl_evolves_put:
  assumes "repl_inv s" and "map_of (pr_partitions s) key = Some st" and "part_evolves st st'"
  shows "repl_evolves s (s\<lparr>pr_partitions := bt_insert key st' (pr_partitions s)\<rparr>)"
  using assms
  by (auto simp: repl_evolves_def repl_inv_def part_evolves_def take_is_prefix)

lemma repl_inv_key:
  "repl_inv s \<Longrightarrow> map_of (pr_partitions s) key = Some st \<Longrightarrow> part_inv st"
  by (cases key) (simp add: repl_inv_def)

lemma replicas_after_assign:
  assumes "part_inv st" and "finite A"
  shows "map_of (bt_retain (\<lambda>n _. n \<in> A)
           (fold (\<lambda>n. bt_or_insert n empty_replica) (sorted_list_of_set A) (ps_replicas st))) n =
         (if n \<in> A then Some (case map_of (ps_replicas st) n of None \<Rightarrow> empty_replica | Some r \<Rightarrow> r)
          else None)"
    and "bt_wf (fold (\<lambda>n. bt_or_insert n empty_replica) (sorted_list_of_set A) (ps_replicas st))"
proof -
  have gen: "bt_wf m \<Longrightarrow> bt_wf (fold (\<lambda>n. bt_or_insert n v) xs m)
      \<and> map_of (fold (\<lambda>n. bt_or_insert n v) xs m) k =
        (if k \<in> set xs then Some (case map_of m k of None \<Rightarrow> v | Some r \<Rightarrow> r) else map_of m k)"
    for m :: "(u64, replica) btree_map" and v xs k
    by (induction xs arbitrary: m) (auto split: option.splits)
  have wf: "bt_wf (ps_replicas st)" using assms(1) by (simp add: part_inv_def)
  from gen [OF wf] show "bt_wf (fold (\<lambda>n. bt_or_insert n empty_replica) (sorted_list_of_set A) (ps_replicas st))"
    by blast
  then show "map_of (bt_retain (\<lambda>n _. n \<in> A)
           (fold (\<lambda>n. bt_or_insert n empty_replica) (sorted_list_of_set A) (ps_replicas st))) n =
         (if n \<in> A then Some (case map_of (ps_replicas st) n of None \<Rightarrow> empty_replica | Some r \<Rightarrow> r)
          else None)"
    using gen [OF wf, of empty_replica "sorted_list_of_set A" n] assms(2)
    by (auto split: option.splits)
qed

lemma replica_ok_empty [simp]: "replica_ok empty_replica"
  by (simp add: replica_ok_def empty_replica_def)

lemma assign_existing_evolves:
  assumes "part_inv st" and "finite (pa_replicas a)" and "pa_leader a \<in> pa_replicas a"
    and "pa_leader_epoch (ps_assignment st) \<le> pa_leader_epoch a" and "pa_leader_epoch a \<le> u64_max"
    and "pa_stream a = pa_stream (ps_assignment st)" and "pa_partition a = pa_partition (ps_assignment st)"
  shows "part_evolves st (st\<lparr>ps_assignment := a, ps_replicas :=
           bt_retain (\<lambda>n _. n \<in> pa_replicas a)
             (fold (\<lambda>n. bt_or_insert n empty_replica) (sorted_list_of_set (pa_replicas a)) (ps_replicas st))\<rparr>)"
    (is "part_evolves st ?st'")
proof -
  note look = replicas_after_assign [OF assms(1,2)]
  have ok: "replica_ok r" if "map_of (ps_replicas ?st') n = Some r" for n r
    using that assms(1) look(1) [of n] by (auto simp: part_inv_def split: if_splits option.splits)
  have keys: "fst ` set (ps_replicas ?st') = pa_replicas a"
  proof (rule set_eqI)
    fix n
    show "n \<in> fst ` set (ps_replicas ?st') \<longleftrightarrow> n \<in> pa_replicas a"
      using look(1) [of n] by (simp only: key_iff) auto
  qed
  have inv': "part_inv ?st'"
    using assms ok keys look(2) by (auto simp: part_inv_def)
  have "prefix (take k (rep_records r)) (rep_records r')"
    if "map_of (ps_replicas st) n = Some r" and "map_of (ps_replicas ?st') n = Some r'" for n r r' k
    using that look(1) [of n] by (auto simp: take_is_prefix split: if_splits)
  with inv' assms show ?thesis by (simp add: part_evolves_def)
qed

lemma assign_new_inv:
  assumes "finite (pa_replicas a)" and "pa_leader a \<in> pa_replicas a"
    and "0 < pa_leader_epoch a" and "pa_leader_epoch a \<le> u64_max"
  shows "part_inv \<lparr>ps_assignment = a,
           ps_replicas = bt_collect (map (\<lambda>n. (n, empty_replica)) (sorted_list_of_set (pa_replicas a))),
           ps_high_watermark = None\<rparr>"
    (is "part_inv ?st")
proof -
  have look: "map_of (ps_replicas ?st) n = (if n \<in> pa_replicas a then Some empty_replica else None)" for n
    using assms(1) by (simp add: rev_map map_of_map_restrict restrict_map_def)
  have "fst ` set (ps_replicas ?st) = pa_replicas a"
  proof (rule set_eqI)
    fix n
    show "n \<in> fst ` set (ps_replicas ?st) \<longleftrightarrow> n \<in> pa_replicas a"
      using look [of n] by (simp only: key_iff) auto
  qed
  moreover have "replica_ok r" if "map_of (ps_replicas ?st) n = Some r" for n r
    using that look [of n] by (auto split: if_splits)
  ultimately show ?thesis using assms by (auto simp: part_inv_def)
qed

end
