(* ===== verification/Replication_Safety.thy ===== *)
theory Replication_Safety
  imports Partition_Replication
begin

text \<open>
  What the replication engine guarantees over every sequence of its calls: no call panics, the
  records below the high watermark are never rewritten on a replica, an acknowledged append is
  on a quorum, and a deposed leader stays fenced.
\<close>

section \<open>Every operation evolves the state\<close>

lemma assign_evolves:
  assumes "repl_inv s" and "finite (pa_replicas a)" and "pa_leader_epoch a \<le> u64_max"
  shows "repl_evolves s (snd (repl_assign s a)) \<and> fst (repl_assign s a) \<noteq> Err panic"
proof -
  let ?key = "(pa_stream a, pa_partition a)"
  let ?guards = "pa_replicas a \<noteq> {} \<and> pa_leader a \<in> pa_replicas a \<and> 0 < pa_leader_epoch a"
  have wf: "bt_wf (pr_partitions s)" using assms(1) by (simp add: repl_inv_def)
  show ?thesis
  proof (cases "map_of (pr_partitions s) ?key")
    case (Some st)
    with assms(1) have st: "part_inv st" "pa_stream a = pa_stream (ps_assignment st)"
      "pa_partition a = pa_partition (ps_assignment st)"
      by (auto simp: repl_inv_def)
    show ?thesis
    proof (cases "?guards \<and> pa_leader_epoch (ps_assignment st) \<le> pa_leader_epoch a")
      case True
      then have "part_evolves st (st\<lparr>ps_assignment := a, ps_replicas :=
           bt_retain (\<lambda>n _. n \<in> pa_replicas a)
             (fold (\<lambda>n. bt_or_insert n empty_replica) (sorted_list_of_set (pa_replicas a)) (ps_replicas st))\<rparr>)"
        using assign_existing_evolves [OF st(1) assms(2)] assms(3) st by simp
      from repl_evolves_put [OF assms(1) Some this] True Some show ?thesis
        by (simp add: repl_assign_def Let_def)
    next
      case False
      with Some repl_evolves_refl [OF assms(1)] show ?thesis
        by (auto simp: repl_assign_def Let_def panic_def)
    qed
  next
    case None
    show ?thesis
    proof (cases ?guards)
      case True
      then have "part_inv \<lparr>ps_assignment = a,
           ps_replicas = bt_collect (map (\<lambda>n. (n, empty_replica)) (sorted_list_of_set (pa_replicas a))),
           ps_high_watermark = None\<rparr>"
        using assign_new_inv assms(2,3) by simp
      with assms(1) True None wf show ?thesis
        by (auto simp: repl_assign_def Let_def repl_evolves_def repl_inv_def intro: part_evolves_refl)
    next
      case False
      with repl_evolves_refl [OF assms(1)] show ?thesis
        by (auto simp: repl_assign_def panic_def)
    qed
  qed
qed

lemma append_cases:
  assumes "repl_inv s" and "repl_append s node epoch e d = (res, t)"
  obtains (refused) x where "res = Err x" "t = s" "x \<noteq> panic"
  | (run) st st' where "map_of (pr_partitions s) (en_stream e, en_partition e) = Some st"
      "part_inv st" "node = pa_leader (ps_assignment st)" "epoch = pa_leader_epoch (ps_assignment st)"
      "node \<in> pr_available s" "append_partition st (pr_available s) node e d = (res, st')"
      "t = s\<lparr>pr_partitions := bt_insert (en_stream e, en_partition e) st' (pr_partitions s)\<rparr>"
proof (cases "map_of (pr_partitions s) (en_stream e, en_partition e)")
  case None
  with assms(2) have "res = Err ''unknown partition assignment'' \<and> t = s"
    by (simp add: repl_append_def)
  with refused show thesis by (simp add: panic_def)
next
  case (Some st)
  show thesis
  proof (cases "pa_leader (ps_assignment st) = node \<and> pa_leader_epoch (ps_assignment st) = epoch
      \<and> node \<in> pr_available s \<and> en_leader_epoch e = epoch")
    case True
    obtain r st' where "append_partition st (pr_available s) node e d = (r, st')"
      by (cases "append_partition st (pr_available s) node e d")
    with True Some assms(2) run [OF Some repl_inv_key [OF assms(1) Some]] show thesis
      by (simp add: repl_append_def)
  next
    case False
    with Some assms(2) have "\<exists>x. res = Err x \<and> t = s \<and> x \<noteq> panic"
      by (auto simp: repl_append_def panic_def split: if_splits)
    with refused show thesis by blast
  qed
qed

lemma append_evolves:
  assumes "repl_inv s"
  shows "repl_evolves s (snd (repl_append s node epoch e d))
    \<and> fst (repl_append s node epoch e d) \<noteq> Err panic"
proof -
  obtain res t where eq: "repl_append s node epoch e d = (res, t)"
    by (cases "repl_append s node epoch e d")
  from assms eq show ?thesis
  proof (cases rule: append_cases)
    case refused
    with eq repl_evolves_refl [OF assms] show ?thesis by simp
  next
    case (run st st')
    note law = append_partition_law [OF run(6,2,3)]
    then have "repl_evolves s t"
      using run(7) repl_evolves_put [OF assms run(1)] by simp
    with law eq show ?thesis by simp
  qed
qed

lemma catch_up_cases:
  assumes "repl_inv s" and "repl_catch_up s stream part node = (res, t)"
  obtains (refused) x where "res = Err x" "t = s" "x \<noteq> panic"
  | (run) st l r r' where "map_of (pr_partitions s) (stream, part) = Some st" "part_inv st"
      "node \<in> pa_replicas (ps_assignment st)"
      "map_of (ps_replicas st) (pa_leader (ps_assignment st)) = Some l" "replica_ok l"
      "map_of (ps_replicas st) node = Some r" "replica_ok r"
      "reconcile_committed r (rep_records l) (ps_high_watermark st) = (res, r')"
      "t = s\<lparr>pr_partitions := bt_insert (stream, part)
              (st\<lparr>ps_replicas := bt_insert node r' (ps_replicas st)\<rparr>) (pr_partitions s)\<rparr>"
proof (cases "node \<in> pr_available s \<and> (\<exists>st. map_of (pr_partitions s) (stream, part) = Some st
    \<and> node \<in> pa_replicas (ps_assignment st))")
  case False
  with assms(2) have "\<exists>x. res = Err x \<and> t = s \<and> x \<noteq> panic"
    by (auto simp: repl_catch_up_def panic_def split: if_splits option.splits)
  with refused show thesis by blast
next
  case True
  then obtain st where st: "map_of (pr_partitions s) (stream, part) = Some st"
    "node \<in> pa_replicas (ps_assignment st)" by blast
  have inv: "part_inv st" using repl_inv_key [OF assms(1) st(1)] .
  then have "pa_leader (ps_assignment st) \<in> pa_replicas (ps_assignment st)" by (simp add: part_inv_def)
  from part_inv_replica [OF inv this] part_inv_replica [OF inv st(2)] obtain l r
    where l: "map_of (ps_replicas st) (pa_leader (ps_assignment st)) = Some l" "replica_ok l"
      and r: "map_of (ps_replicas st) node = Some r" "replica_ok r" by blast
  obtain res1 r' where rec: "reconcile_committed r (rep_records l) (ps_high_watermark st) = (res1, r')"
    by (cases "reconcile_committed r (rep_records l) (ps_high_watermark st)")
  from assms(2) True st l r rec
  have "res1 = res" and "t = s\<lparr>pr_partitions := bt_insert (stream, part)
              (st\<lparr>ps_replicas := bt_insert node r' (ps_replicas st)\<rparr>) (pr_partitions s)\<rparr>"
    by (simp_all add: repl_catch_up_def records_of_def)
  with run [OF st(1) inv st(2) l r] rec show thesis by simp
qed

lemma catch_up_evolves:
  assumes "repl_inv s"
  shows "repl_evolves s (snd (repl_catch_up s stream part node))
    \<and> fst (repl_catch_up s stream part node) \<noteq> Err panic"
proof -
  obtain res t where eq: "repl_catch_up s stream part node = (res, t)"
    by (cases "repl_catch_up s stream part node")
  from assms eq show ?thesis
  proof (cases rule: catch_up_cases)
    case refused
    with eq repl_evolves_refl [OF assms] show ?thesis by simp
  next
    case (run st l r r')
    note law = reconcile_committed_law [OF run(8)]
    have "replica_ok r'" using law(2) run(5,7) by (simp add: replica_ok_def)
    from part_evolves_put [OF run(2,6) this law(1)]
    have "repl_evolves s t" using repl_evolves_put [OF assms run(1)] run(9) by simp
    with law(4) eq show ?thesis by simp
  qed
qed

lemma promote_evolves:
  assumes "part_inv st" and "candidate \<in> pa_replicas (ps_assignment st)"
  shows "part_evolves st (promote st candidate)"
proof -
  let ?old = "pa_leader_epoch (ps_assignment st)"
  have old: "0 < ?old" "?old \<le> u64_max" using assms(1) by (auto simp: part_inv_def)
  have "?old \<le> sat_add64 ?old 1" and "sat_add64 ?old 1 \<le> u64_max"
    using old by (simp_all add: sat_simps)
  with old assms show ?thesis
    by (auto simp: part_evolves_def part_inv_def promote_def take_is_prefix)
qed

lemma transfer_evolves:
  assumes "repl_inv s"
  shows "repl_evolves s (snd (repl_transfer_leadership s stream part c))
    \<and> fst (repl_transfer_leadership s stream part c) \<noteq> Err panic"
proof (cases "\<exists>st. map_of (pr_partitions s) (stream, part) = Some st \<and> c \<in> pa_replicas (ps_assignment st)")
  case False
  then show ?thesis using repl_evolves_refl [OF assms]
    by (auto simp: repl_transfer_leadership_def panic_def split: option.splits)
next
  case True
  then obtain st where st: "map_of (pr_partitions s) (stream, part) = Some st"
    "c \<in> pa_replicas (ps_assignment st)" by blast
  have inv: "part_inv st" by (rule repl_inv_key [OF assms st(1)])
  obtain safe where "is_safe st c = Ok safe" by (rule is_safe_total [OF inv st(2)])
  then show ?thesis
    using repl_evolves_put [OF assms st(1) promote_evolves [OF inv st(2)]] repl_evolves_refl [OF assms] st
    by (simp add: repl_transfer_leadership_def Let_def panic_def)
qed

lemma elect_cases:
  assumes "repl_inv s" and "repl_elect_safe_leader s stream part = (res, t)"
  obtains (refused) x where "res = Err x" "t = s" "x \<noteq> panic"
  | (run) st c where "map_of (pr_partitions s) (stream, part) = Some st" "part_inv st"
      "c \<in> pa_replicas (ps_assignment st)" "c \<in> pr_available s" "is_safe st c = Ok True"
      "res = Ok (c, pa_leader_epoch (ps_assignment (promote st c)))"
      "t = s\<lparr>pr_partitions := bt_insert (stream, part) (promote st c) (pr_partitions s)\<rparr>"
proof (cases "map_of (pr_partitions s) (stream, part)")
  case None
  with assms(2) have "res = Err ''unknown partition assignment'' \<and> t = s"
    by (simp add: repl_elect_safe_leader_def)
  with refused show thesis by (simp add: panic_def)
next
  case (Some st)
  have inv: "part_inv st" using repl_inv_key [OF assms(1) Some] .
  then have fin: "finite (pa_replicas (ps_assignment st))" by (simp add: part_inv_def)
  let ?ns = "sorted_list_of_set (pa_replicas (ps_assignment st))"
  have ns: "set ?ns \<subseteq> pa_replicas (ps_assignment st)" using fin by simp
  obtain pick where pick: "first_safe st (pr_available s) ?ns = Ok pick"
    using first_safe_total(1) [OF inv ns] by blast
  show thesis
  proof (cases pick)
    case None
    with pick Some assms(2) have "res = Err ''no safe replica available'' \<and> t = s"
      by (simp add: repl_elect_safe_leader_def)
    with refused show thesis by (simp add: panic_def)
  next
    case (Some c)
    then have "c \<in> pa_replicas (ps_assignment st) \<and> c \<in> pr_available s \<and> is_safe st c = Ok True"
      using first_safe_total(2) [OF inv ns] pick fin by auto
    moreover have "res = Ok (c, pa_leader_epoch (ps_assignment (promote st c)))"
      and "t = s\<lparr>pr_partitions := bt_insert (stream, part) (promote st c) (pr_partitions s)\<rparr>"
      using Some pick \<open>map_of (pr_partitions s) (stream, part) = Some st\<close> assms(2)
      by (auto simp: repl_elect_safe_leader_def Let_def)
    ultimately show thesis
      using run [OF \<open>map_of (pr_partitions s) (stream, part) = Some st\<close> inv] by blast
  qed
qed

lemma elect_evolves:
  assumes "repl_inv s"
  shows "repl_evolves s (snd (repl_elect_safe_leader s stream part))
    \<and> fst (repl_elect_safe_leader s stream part) \<noteq> Err panic"
proof -
  obtain res t where eq: "repl_elect_safe_leader s stream part = (res, t)"
    by (cases "repl_elect_safe_leader s stream part")
  from assms eq show ?thesis
  proof (cases rule: elect_cases)
    case refused
    with eq repl_evolves_refl [OF assms] show ?thesis by simp
  next
    case (run st c)
    with repl_evolves_put [OF assms run(1) promote_evolves [OF run(2,3)]] eq show ?thesis by simp
  qed
qed

lemma step_evolves:
  assumes "repl_inv s" and "repl_step s t"
  shows "repl_evolves s t"
  using assms(2)
proof cases
  case (step_available nodes)
  then have "t = s\<lparr>pr_available := set nodes\<rparr>" by (simp add: repl_set_available_def)
  with repl_evolves_refl [OF assms(1)] show ?thesis
    by (simp add: repl_evolves_def repl_inv_def)
qed (use assms(1) assign_evolves append_evolves catch_up_evolves transfer_evolves elect_evolves in auto)

definition repl_epoch :: "partition_key \<Rightarrow> partition_replication \<Rightarrow> nat" where
  "repl_epoch key s =
     (case map_of (pr_partitions s) key of None \<Rightarrow> 0 | Some st \<Rightarrow> pa_leader_epoch (ps_assignment st))"

interpretation repl: monotone_epoch repl_init repl_step repl_inv "repl_epoch key" for key
proof
  fix s t
  show "repl_inv s" if "repl_init s"
    using that by (auto simp: repl_init_def repl_new_def repl_inv_def)
  assume s: "repl_inv s" "repl_step s t"
  then show "repl_inv t" using step_evolves by (simp add: repl_evolves_def)
  show "repl_epoch key s \<le> repl_epoch key t"
  proof (cases "map_of (pr_partitions s) key")
    case None
    then show ?thesis by (simp add: repl_epoch_def)
  next
    case (Some st)
    moreover from this step_evolves [OF s] obtain st'
      where "map_of (pr_partitions t) key = Some st'" and "part_evolves st st'"
      unfolding repl_evolves_def by blast
    ultimately show ?thesis by (simp add: repl_epoch_def part_evolves_def)
  qed
qed


section \<open>A three-node partition\<close>

definition sample_envelope :: "u64 \<Rightarrow> u64 \<Rightarrow> bytes \<Rightarrow> message_envelope" where
  "sample_envelope offset epoch body =
     \<lparr>en_namespace = ''default'', en_stream = ''orders'', en_partition = 0, en_offset = offset,
      en_subject = ''orders/new'', en_key = None, en_headers = [], en_timestamp_ms = 0,
      en_reply_to = None, en_schema_id = None, en_payload = body, en_partitioning_epoch = 1,
      en_leader_epoch = epoch, en_legacy_seq = offset\<rparr>"

definition sample_assignment :: partition_assignment where
  "sample_assignment = \<lparr>pa_stream = ''orders'', pa_partition = 0, pa_replicas = {1, 2, 3},
     pa_leader = 1, pa_leader_epoch = 1\<rparr>"

definition sample_assigned :: partition_replication where
  "sample_assigned = snd (repl_assign (repl_new [1, 2, 3]) sample_assignment)"

definition sample_committed :: partition_replication where
  "sample_committed = snd (repl_append sample_assigned 1 1 (sample_envelope 0 1 [7]) QuorumFsync)"

lemma sample_envelope_sel [simp]:
  "en_stream (sample_envelope k epoch b) = ''orders''" "en_partition (sample_envelope k epoch b) = 0"
  "en_offset (sample_envelope k epoch b) = k" "en_leader_epoch (sample_envelope k epoch b) = epoch"
  by (simp_all add: sample_envelope_def)

lemma sample_assignment_sel [simp]:
  "pa_replicas sample_assignment = {1, 2, 3}" "pa_leader sample_assignment = 1"
  "pa_leader_epoch sample_assignment = 1"
  by (simp_all add: sample_assignment_def)

lemma sorted_123: "sorted_list_of_set {1, 2, 3 :: nat} = [1, 2, 3]"
  by (simp add: sorted_list_of_set_insert_remove)

lemma sample_assigned_eval:
  "sample_assigned = \<lparr>pr_partitions = [((''orders'', 0), \<lparr>ps_assignment = sample_assignment,
     ps_replicas = [(1, empty_replica), (2, empty_replica), (3, empty_replica)],
     ps_high_watermark = None\<rparr>)], pr_available = {1, 2, 3}\<rparr>"
  by (simp add: sample_assigned_def repl_assign_def repl_new_def sample_assignment_def sorted_123
      bt_collect_def del: One_nat_def)

lemma sample_committed_run:
  "repl_append sample_assigned 1 1 (sample_envelope 0 1 [7]) QuorumFsync =
     (Ok \<lparr>cr_offset = 0, cr_high_watermark = 0, cr_leader_epoch = 1, cr_replicated = 3, cr_flushed = 3\<rparr>,
      \<lparr>pr_partitions = [((''orders'', 0), \<lparr>ps_assignment = sample_assignment,
         ps_replicas = map (\<lambda>n. (n, \<lparr>rep_records = [sample_envelope 0 1 [7]], rep_flushed_offset = Some 0\<rparr>)) [1, 2, 3],
         ps_high_watermark = Some 0\<rparr>)], pr_available = {1, 2, 3}\<rparr>)"
  unfolding sample_assigned_eval
  by (simp add: repl_append_def append_partition_def sample_assignment_def sample_envelope_def
      sorted_123 append_or_validate_def reconcile_and_append_def empty_replica_def flush_mark_def
      matching_replicas_def flushed_replicas_def records_of_def get_at_def Let_def del: One_nat_def)

lemma sample_assigned_reachable: "reaches repl_init repl_step sample_assigned"
proof -
  have "reaches repl_init repl_step (repl_new [1, 2, 3])"
    by (rule reaches_init) (auto simp: repl_init_def)
  moreover have "repl_step (repl_new [1, 2, 3]) sample_assigned"
    unfolding sample_assigned_def
    by (rule step_assign) (simp_all add: sample_assignment_def u64_max_def)
  ultimately show ?thesis by (rule reaches_step)
qed


lemmas sample_committed_eval = sample_committed_def [unfolded sample_committed_run snd_conv]

lemma sample_committed_reachable: "reaches repl_init repl_step sample_committed"
  unfolding sample_committed_def
  by (rule reaches_step [OF sample_assigned_reachable]) (rule step_append)

section \<open>Properties\<close>

text \<open>
  C12. An acknowledged append was made by the current leader under the current epoch, sets the
  high watermark to its offset, and leaves the record at that offset on a majority of the
  assigned replicas, all of them available (flushed on a majority, when the durability asks
  for it). No other partition changes.
\<close>

theorem append_commits_on_quorum:
  assumes "reaches repl_init repl_step s" and "repl_append s node epoch e d = (Ok c, t)"
  shows "\<exists>st st'. map_of (pr_partitions s) (en_stream e, en_partition e) = Some st
    \<and> map_of (pr_partitions t) (en_stream e, en_partition e) = Some st'
    \<and> ps_assignment st' = ps_assignment st
    \<and> pa_leader (ps_assignment st) = node \<and> pa_leader_epoch (ps_assignment st) = epoch
    \<and> ps_high_watermark st' = Some (en_offset e)
    \<and> c = \<lparr>cr_offset = en_offset e, cr_high_watermark = en_offset e, cr_leader_epoch = epoch,
           cr_replicated = card (holders st' (pr_available t) e),
           cr_flushed = card (flushers st' (pr_available t) (en_offset e))\<rparr>
    \<and> node \<in> holders st' (pr_available t) e
    \<and> card (pa_replicas (ps_assignment st)) < 2 * card (holders st' (pr_available t) e)
    \<and> (d = QuorumFsync \<longrightarrow>
         card (pa_replicas (ps_assignment st)) < 2 * card (flushers st' (pr_available t) (en_offset e)))
    \<and> (\<forall>key. key \<noteq> (en_stream e, en_partition e) \<longrightarrow>
         map_of (pr_partitions t) key = map_of (pr_partitions s) key)"
proof -
  have inv: "repl_inv s" using assms(1) by (rule repl.reaches_inv)
  then have wf: "bt_wf (pr_partitions s)" by (simp add: repl_inv_def)
  from inv assms(2) show ?thesis
  proof (cases rule: append_cases)
    case refused
    then show ?thesis by simp
  next
    case (run st st')
    note law = append_partition_law [OF run(6,2,3)]
    have "node \<in> holders st' (pr_available s) e"
      using law run(2,3,5) by (auto simp: holders_def part_inv_def)
    with law run wf show ?thesis
      by (intro exI [where x = st] exI [where x = st']) auto
  qed
qed

theorem append_commits_on_quorum_witness:
  "\<exists>st'. map_of (pr_partitions sample_committed) (''orders'', 0) = Some st'
     \<and> 3 < 2 * card (flushers st' {1, 2, 3} 0)"
  using append_commits_on_quorum [OF sample_assigned_reachable sample_committed_run]
  by (simp add: sample_committed_eval sample_assigned_eval del: One_nat_def)

text \<open>
  C13. No operation rewrites committed history: in a reachable state, whatever call comes next,
  the records of each replica up to the high watermark stay the beginning of its log, the
  offsets of a log are its indices, and the leader epoch does not decrease.
\<close>

theorem committed_history_immutable:
  assumes "reaches repl_init repl_step s" and "repl_step s t"
    and "map_of (pr_partitions s) key = Some st"
  shows "\<exists>st'. map_of (pr_partitions t) key = Some st'
    \<and> pa_leader_epoch (ps_assignment st) \<le> pa_leader_epoch (ps_assignment st')
    \<and> (\<forall>n r r'. map_of (ps_replicas st) n = Some r \<and> map_of (ps_replicas st') n = Some r' \<longrightarrow>
         prefix (take (committed_count (ps_high_watermark st)) (rep_records r)) (rep_records r')
         \<and> (\<forall>i < length (rep_records r'). en_offset (rep_records r' ! i) = i))"
proof -
  have "repl_inv s" using assms(1) by (rule repl.reaches_inv)
  from step_evolves [OF this assms(2)] assms(3) obtain st'
    where "map_of (pr_partitions t) key = Some st'" "part_evolves st st'"
    unfolding repl_evolves_def by blast
  then show ?thesis
    by (auto simp: part_evolves_def part_inv_def replica_ok_def)
qed

theorem committed_history_immutable_witness:
  "\<exists>st' r'. map_of (pr_partitions (snd (repl_elect_safe_leader sample_committed ''orders'' 0))) (''orders'', 0) = Some st'
     \<and> map_of (ps_replicas st') 2 = Some r' \<and> prefix [sample_envelope 0 1 [7]] (rep_records r')"
proof -
  let ?t = "snd (repl_elect_safe_leader sample_committed ''orders'' 0)"
  obtain st where st: "map_of (pr_partitions sample_committed) (''orders'', 0) = Some st"
    and r: "map_of (ps_replicas st) 2 = Some \<lparr>rep_records = [sample_envelope 0 1 [7]], rep_flushed_offset = Some 0\<rparr>"
    and hw: "ps_high_watermark st = Some 0"
    by (simp add: sample_committed_eval)
  obtain st' r' where st': "map_of (pr_partitions ?t) (''orders'', 0) = Some st'"
    and r': "map_of (ps_replicas st') 2 = Some r'"
    by (simp add: repl_elect_safe_leader_def sample_committed_eval sorted_123
        sample_assignment_def is_safe_def records_of_def promote_def sat_add64_def u64_max_def
        del: One_nat_def)
  from committed_history_immutable [OF sample_committed_reachable step_elect st, of "''orders''" 0] r hw st' r'
  show ?thesis by (force simp: committed_count_def)
qed

text \<open>
  C14. A leader that was deposed by an election stays fenced: an append under its epoch is
  refused in every later state, and the refused call changes nothing.
\<close>

theorem deposed_leader_fenced:
  assumes "reaches repl_init repl_step s"
    and "repl_elect_safe_leader s stream part = (Ok (leader, new_epoch), t)"
    and "repl_epoch (stream, part) s < u64_max"
    and "epoch \<le> repl_epoch (stream, part) s"
    and "repl_step\<^sup>*\<^sup>* t u"
    and "en_stream e = stream" and "en_partition e = part"
  shows "new_epoch = repl_epoch (stream, part) s + 1 \<and> (\<exists>x. repl_append u node epoch e d = (Err x, u))"
proof -
  have inv: "repl_inv s" using assms(1) by (rule repl.reaches_inv)
  have inv_t: "repl_inv t"
    using elect_evolves [OF inv, of stream part] assms(2) by (simp add: repl_evolves_def)
  from inv assms(2) have new: "new_epoch = repl_epoch (stream, part) s + 1 \<and> repl_epoch (stream, part) t = new_epoch"
  proof (cases rule: elect_cases)
    case refused
    then show ?thesis by simp
  next
    case (run st c)
    moreover have "bt_wf (pr_partitions s)" using inv by (simp add: repl_inv_def)
    ultimately show ?thesis
      using assms(3) by (simp add: repl_epoch_def promote_def sat_add64_exact)
  qed
  then have "epoch < repl_epoch (stream, part) t" using assms(4) by simp
  from repl.stale_stays_stale [OF assms(5) inv_t this]
  have "repl_epoch (stream, part) u \<noteq> epoch" by simp
  with new assms(6,7) show ?thesis
    by (cases "map_of (pr_partitions u) (stream, part)") (auto simp: repl_append_def repl_epoch_def)
qed

theorem deposed_leader_fenced_witness:
  "\<exists>t x. repl_elect_safe_leader sample_committed ''orders'' 0 = (Ok (1, 2), t)
     \<and> repl_append t 1 1 (sample_envelope 1 1 []) Quorum = (Err x, t)"
proof -
  have run: "\<exists>t. repl_elect_safe_leader sample_committed ''orders'' 0 = (Ok (1, 2), t)"
    by (simp add: repl_elect_safe_leader_def sample_committed_eval sorted_123
        sample_assignment_def is_safe_def records_of_def promote_def sat_add64_def u64_max_def
        del: One_nat_def)
  then obtain t where t: "repl_elect_safe_leader sample_committed ''orders'' 0 = (Ok (1, 2), t)" ..
  have "repl_epoch (''orders'', 0) sample_committed = 1"
    by (simp add: repl_epoch_def sample_committed_eval sample_assignment_def)
  then show ?thesis
    using deposed_leader_fenced [OF sample_committed_reachable t, of 1 t "sample_envelope 1 1 []" 1 Quorum] t
    by (simp add: u64_max_def sample_envelope_def)
qed

lemma reconcile_loop_eq:
  "i \<le> length recs \<Longrightarrow> reconcile_loop i lead recs =
     (if take (length lead) (drop i recs) = take (length recs - i) lead
      then (Ok (), recs @ drop (length recs - i) lead)
      else (Err ''replica diverges within committed history'', recs))"
proof (induction lead arbitrary: i recs)
  case (Cons x lead)
  show ?case
  proof (cases "i < length recs")
    case True
    then have "drop i recs = recs ! i # drop (Suc i) recs" "length recs - i = Suc (length recs - Suc i)"
      by (simp_all add: Cons_nth_drop_Suc)
    with True Cons.IH [of "Suc i" recs] show ?thesis by (auto simp: get_at_def)
  next
    case False
    then have "i = length recs" using Cons.prems by simp
    with Cons.IH [of "Suc i" "recs @ [x]"] show ?thesis by (simp add: get_at_def)
  qed
qed simp

lemma take_merged:
  assumes "length ls \<le> n" "take (length ls) rs = take (length rs) ls"
  shows "take n (rs @ drop (length rs) ls) = ls @ drop (length ls) (take n rs)"
proof (cases "length ls \<le> length rs")
  case True
  then have "take (length ls) (take n rs) = ls" using assms by (simp add: min_absorb1)
  then have "take n rs = ls @ drop (length ls) (take n rs)" by (metis append_take_drop_id)
  with True show ?thesis by simp
next
  case False
  then have "take (length rs) ls = rs" using assms(2) by simp
  then have "rs @ drop (length rs) ls = ls" by (metis append_take_drop_id)
  with False assms(1) show ?thesis by simp
qed

lemma reconcile_committed_eq:
  "reconcile_committed r lead hw =
     (let n = committed_count hw; ls = take n lead; rs = rep_records r
      in if take (length ls) rs = take (length rs) ls
         then (Ok (), r\<lparr>rep_records := ls @ drop (length ls) (take n rs)\<rparr>)
         else (Err ''replica diverges within committed history'', r))"
proof -
  let ?n = "committed_count hw" let ?ls = "take ?n lead" let ?rs = "rep_records r"
  have "take ?n (?rs @ drop (length ?rs) ?ls) = ?ls @ drop (length ?ls) (take ?n ?rs)"
    if "take (length ?ls) ?rs = take (length ?rs) ?ls"
    by (rule take_merged [OF _ that]) simp
  then show ?thesis
    using reconcile_loop_eq [of 0 ?rs ?ls] by (simp only: reconcile_committed_def Let_def) simp
qed


lemmas repl_eval = repl_append_def append_partition_def sorted_123 append_or_validate_def
  reconcile_and_append_def empty_replica_def flush_mark_def matching_replicas_def
  flushed_replicas_def records_of_def get_at_def Let_def

definition sample_lagging :: partition_replication where
  "sample_lagging =
     repl_set_available (snd (repl_append (repl_set_available sample_assigned [1, 2]) 1 1 (sample_envelope 0 1 [7]) Quorum)) [1, 2, 3]"

lemma sample_lagging_reachable: "reaches repl_init repl_step sample_lagging"
  unfolding sample_lagging_def
  by (rule reaches_step [OF reaches_step [OF reaches_step [OF sample_assigned_reachable step_available] step_append] step_available])

lemma sample_lagging_eval:
  "map_of (pr_partitions sample_lagging) (''orders'', 0) = Some \<lparr>ps_assignment = sample_assignment,
     ps_replicas = [(1, \<lparr>rep_records = [sample_envelope 0 1 [7]], rep_flushed_offset = None\<rparr>),
       (2, \<lparr>rep_records = [sample_envelope 0 1 [7]], rep_flushed_offset = None\<rparr>), (3, empty_replica)],
     ps_high_watermark = Some 0\<rparr>"
  "pr_available sample_lagging = {1, 2, 3}"
  unfolding sample_lagging_def sample_assigned_eval repl_set_available_def
  by (simp_all add: repl_eval del: One_nat_def)


text \<open>
  C16. No call panics: in every reachable state each operation returns, and the indexing of the replica
  map and of the records, in the safety check and in the count of matching replicas too, and the
  \<open>unwrap\<close>s of the source find what they look for.
\<close>

theorem replication_never_panics:
  assumes "reaches repl_init repl_step s"
  shows "fst (repl_append s node epoch e d) \<noteq> Err panic
    \<and> fst (repl_catch_up s stream part node) \<noteq> Err panic
    \<and> fst (repl_transfer_leadership s stream part node) \<noteq> Err panic
    \<and> fst (repl_elect_safe_leader s stream part) \<noteq> Err panic
    \<and> (\<forall>key st. map_of (pr_partitions s) key = Some st \<longrightarrow>
         pa_leader (ps_assignment st) \<in> pa_replicas (ps_assignment st)
         \<and> set (bt_keys (ps_replicas st)) = pa_replicas (ps_assignment st))"
proof -
  have "repl_inv s" using assms by (rule repl.reaches_inv)
  moreover from this have "pa_leader (ps_assignment st) \<in> pa_replicas (ps_assignment st)
      \<and> set (bt_keys (ps_replicas st)) = pa_replicas (ps_assignment st)"
    if "map_of (pr_partitions s) key = Some st" for key st
    using repl_inv_key [OF _ that] by (simp add: part_inv_def)
  ultimately show ?thesis
    using append_evolves catch_up_evolves transfer_evolves elect_evolves by blast
qed

theorem replication_never_panics_witness:
  "fst (repl_append sample_committed 2 1 (sample_envelope 5 1 []) Quorum) \<noteq> Err panic"
  using replication_never_panics [OF sample_committed_reachable] by blast

section \<open>Weaknesses of the engine\<close>

text \<open>
  An assignment may bring in a leader without records while the high watermark stands. The safety
  check compares with the leader's record at the watermark, and as there is none, the replicas
  that hold the committed record are refused and only those without it can be elected.
\<close>

definition sample_new_leader :: partition_replication where
  "sample_new_leader = snd (repl_assign (repl_set_available sample_committed [1, 2, 3, 4])
     (sample_assignment\<lparr>pa_replicas := {1, 2, 3, 4}, pa_leader := 4, pa_leader_epoch := 2\<rparr>))"

lemma sample_new_leader_reachable: "reaches repl_init repl_step sample_new_leader"
  unfolding sample_new_leader_def
  by (rule reaches_step [OF reaches_step [OF sample_committed_reachable step_available] step_assign])
    (simp_all add: sample_assignment_def u64_max_def)

theorem empty_leader_shuts_out_holders:
  "repl_committed_records sample_new_leader ''orders'' 0 1 = Ok [sample_envelope 0 1 [7]]
   \<and> fst (repl_transfer_leadership sample_new_leader ''orders'' 0 1) = Err ''candidate is missing committed partition data''
   \<and> fst (repl_elect_safe_leader sample_new_leader ''orders'' 0) = Ok (4, 3)"
proof -
  have sorted: "sorted_list_of_set {1, 2, 3, 4 :: nat} = [1, 2, 3, 4]" by (simp add: sorted_list_of_set_insert_remove)
  have run: "sample_new_leader = \<lparr>pr_partitions = [((''orders'', 0),
      \<lparr>ps_assignment = sample_assignment\<lparr>pa_replicas := {1, 2, 3, 4}, pa_leader := 4, pa_leader_epoch := 2\<rparr>,
       ps_replicas = map (\<lambda>n. (n, \<lparr>rep_records = [sample_envelope 0 1 [7]], rep_flushed_offset = Some 0\<rparr>)) [1, 2, 3] @ [(4, empty_replica)],
       ps_high_watermark = Some 0\<rparr>)], pr_available = {1, 2, 3, 4}\<rparr>"
    unfolding sample_new_leader_def sample_committed_eval repl_set_available_def
    by (simp add: repl_assign_def sorted sample_assignment_def bt_or_insert_def bt_retain_def Let_def del: One_nat_def)
  show ?thesis
    unfolding run
    by (simp add: repl_committed_records_def repl_transfer_leadership_def repl_elect_safe_leader_def promote_def is_safe_def
        records_of_def get_at_def committed_count_def empty_replica_def sorted sat_add64_def u64_max_def del: One_nat_def)
qed

text \<open>
  A retried append of an old record is acknowledged, as it should be, and moves the high
  watermark back: \<open>state.high_watermark = Some(envelope.offset)\<close> is unconditional. The records
  above it are no longer committed, though they were acknowledged.
\<close>

definition sample_two_committed :: partition_replication where
  "sample_two_committed = snd (repl_append sample_committed 1 1 (sample_envelope 1 1 [8]) Quorum)"

lemma sample_two_run:
  "repl_append sample_committed 1 1 (sample_envelope 1 1 [8]) Quorum =
     (Ok \<lparr>cr_offset = 1, cr_high_watermark = 1, cr_leader_epoch = 1, cr_replicated = 3, cr_flushed = 0\<rparr>,
      \<lparr>pr_partitions = [((''orders'', 0), \<lparr>ps_assignment = sample_assignment,
         ps_replicas = map (\<lambda>n. (n, \<lparr>rep_records = [sample_envelope 0 1 [7], sample_envelope 1 1 [8]],
            rep_flushed_offset = Some 0\<rparr>)) [1, 2, 3],
         ps_high_watermark = Some 1\<rparr>)], pr_available = {1, 2, 3}\<rparr>)"
  unfolding sample_committed_eval by (simp add: repl_eval del: One_nat_def)

theorem retried_append_lowers_high_watermark:
  "\<exists>c t. repl_high_watermark sample_two_committed ''orders'' 0 = Ok (Some 1)
     \<and> repl_append sample_two_committed 1 1 (sample_envelope 0 1 [7]) Quorum = (Ok c, t)
     \<and> repl_high_watermark t ''orders'' 0 = Ok (Some 0)"
  unfolding sample_two_committed_def sample_two_run
  by (simp add: repl_eval repl_high_watermark_def del: One_nat_def)

text \<open>
  A follower is not asked whether its previous record matches. The old leader 1 keeps an
  unreplicated record at offset 0, node 2 is elected and commits another record there, node 1
  comes back and receives offset 1 on top of its own record; it now passes the safety check, is
  elected, and serves a different record at the committed offset 0.
\<close>

definition diverged_run :: partition_replication where
  "diverged_run =
     (let s1 = repl_set_available sample_assigned [1];
          s2 = snd (repl_append s1 1 1 (sample_envelope 0 1 [66]) Quorum);
          s3 = repl_set_available s2 [2, 3];
          s4 = snd (repl_elect_safe_leader s3 ''orders'' 0);
          s5 = snd (repl_append s4 2 2 (sample_envelope 0 2 [7]) Quorum);
          s6 = repl_set_available s5 [1, 2, 3]
      in snd (repl_append s6 2 2 (sample_envelope 1 2 [8]) Quorum))"

theorem divergent_replica_is_elected:
  "\<exists>t. repl_committed_records diverged_run ''orders'' 0 2 = Ok [sample_envelope 0 2 [7], sample_envelope 1 2 [8]]
     \<and> repl_elect_safe_leader diverged_run ''orders'' 0 = (Ok (1, 3), t)
     \<and> repl_committed_records t ''orders'' 0 1 = Ok [sample_envelope 0 1 [66], sample_envelope 1 2 [8]]"
proof -
  have ne: "sample_envelope 0 1 [66] \<noteq> sample_envelope 0 2 [7]"
    by (simp add: sample_envelope_def)
  have run: "diverged_run =
      \<lparr>pr_partitions = [((''orders'', 0),
         \<lparr>ps_assignment = sample_assignment\<lparr>pa_leader := 2, pa_leader_epoch := 2\<rparr>,
          ps_replicas =
            [(1, \<lparr>rep_records = [sample_envelope 0 1 [66], sample_envelope 1 2 [8]], rep_flushed_offset = None\<rparr>),
             (2, \<lparr>rep_records = [sample_envelope 0 2 [7], sample_envelope 1 2 [8]], rep_flushed_offset = None\<rparr>),
             (3, \<lparr>rep_records = [sample_envelope 0 2 [7], sample_envelope 1 2 [8]], rep_flushed_offset = None\<rparr>)],
          ps_high_watermark = Some 1\<rparr>)], pr_available = {1, 2, 3}\<rparr>"
    unfolding diverged_run_def sample_assigned_eval repl_set_available_def
    by (simp add: repl_eval repl_elect_safe_leader_def promote_def is_safe_def sat_add64_def
        u64_max_def ne del: One_nat_def)
  show ?thesis
    unfolding run
    by (simp add: repl_eval repl_elect_safe_leader_def promote_def is_safe_def sat_add64_def
        repl_committed_records_def committed_count_def u64_max_def del: One_nat_def)
qed

end
