(* ===== verification/Transaction_Coordinator.thy ===== *)
theory Transaction_Coordinator
  imports Message_Envelope
begin

text \<open>
  The bounded transaction coordinator of \<open>crates/server/src/transaction.rs\<close>: begin, buffered
  writes, offsets and view mutations, prepare, commit, abort, recovery of timed-out
  transactions, and the journal with its checkpoints.

  The two files (\<open>path\<close>, the snapshot, and \<open>journal_path\<close>) are an explicit disk that every
  call is given and returns. What the code takes from \<open>serde_json\<close> and \<open>crc32fast\<close> is the
  record \<open>txn_codec\<close>: the bytes of a snapshot, of a journal line and of a delta are never
  inspected by the code, so their types are parameters. \<open>codec_ok\<close> is what it relies on:
  decoding what was encoded gives it back, and a line is not blank. File system calls
  succeed; the crash points between them are treated at the end of the development of this
  component.
\<close>

section \<open>Data\<close>

record transaction_limits =
  tl_max_messages :: nat
  tl_max_bytes :: nat
  tl_max_partitions :: nat
  tl_max_duration_ms :: u64
  tl_max_concurrent :: nat

datatype transaction_status = TxOpen | Prepared | Committed | Aborted string

record transaction_write =
  tw_stream :: string
  tw_partition :: u32
  tw_offset :: u64
  tw_bytes :: bytes

record offset_commit =
  oc_consumer :: string
  oc_stream :: string
  oc_partition :: u32
  oc_offset :: u64

record view_mutation =
  vm_view :: string
  vm_key :: string
  vm_value :: "bytes option"

record transaction_record =
  tr_id :: string
  tr_tenant :: string
  tr_producer :: string
  tr_producer_epoch :: u64
  tr_started_at_ms :: u64
  tr_deadline_ms :: u64
  tr_status :: transaction_status
  tr_writes :: "transaction_write list"
  tr_offsets :: "offset_commit list"
  tr_views :: "view_mutation list"

record committed_batch =
  cb_id :: string
  cb_writes :: "transaction_write list"
  cb_offsets :: "offset_commit list"
  cb_views :: "view_mutation list"

record durable_state =
  ds_transactions :: "(string, transaction_record) btree_map"
  ds_producer_epochs :: "(string, u64) btree_map"

datatype transaction_delta =
    DBegin transaction_record
  | DProducerEpoch string u64
  | DWrite string transaction_write
  | DOffset string offset_commit
  | DView string view_mutation
  | DStatus string transaction_status

record journal_entry =
  je_delta :: transaction_delta
  je_checksum :: u32

record transaction_coordinator =
  tc_durable :: bool
  tc_limits :: transaction_limits
  tc_state :: durable_state
  tc_journal_entries :: nat

text \<open>\<open>tc_durable\<close> is \<open>path.is_some()\<close>; the two paths are both set or both not.\<close>

record ('snapshot, 'line, 'body) txn_codec =
  cod_encode_state :: "durable_state \<Rightarrow> 'snapshot"
  cod_decode_state :: "'snapshot \<Rightarrow> durable_state option"
  cod_encode_delta :: "transaction_delta \<Rightarrow> 'body"
  cod_crc32 :: "'body \<Rightarrow> u32"
  cod_encode_entry :: "journal_entry \<Rightarrow> 'line"
  cod_decode_entry :: "'line \<Rightarrow> journal_entry option"
  cod_blank :: "'line \<Rightarrow> bool"

record ('snapshot, 'line) txn_disk =
  dk_snapshot :: "'snapshot option"
  dk_journal :: "'line list option"

definition codec_ok :: "('s, 'l, 'b) txn_codec \<Rightarrow> bool" where
  "codec_ok cd \<longleftrightarrow>
     (\<forall>x. cod_decode_state cd (cod_encode_state cd x) = Some x)
     \<and> (\<forall>e. cod_decode_entry cd (cod_encode_entry cd e) = Some e \<and> \<not> cod_blank cd (cod_encode_entry cd e))"

definition default_state :: durable_state where
  "default_state = \<lparr>ds_transactions = [], ds_producer_epochs = []\<rparr>"

section \<open>Helpers\<close>

definition validate_limits :: "transaction_limits \<Rightarrow> unit result" where
  "validate_limits l =
     (if tl_max_messages l > 0 \<and> tl_max_bytes l > 0 \<and> tl_max_partitions l > 0
         \<and> tl_max_duration_ms l > 0 \<and> tl_max_concurrent l > 0
      then Ok () else Err ''transaction limits must be positive'')"

definition ensure_live :: "transaction_record \<Rightarrow> u64 \<Rightarrow> unit result" where
  "ensure_live r now = (if now \<le> tr_deadline_ms r then Ok () else Err ''transaction timed out'')"

definition total_bytes :: "transaction_record \<Rightarrow> nat" where
  "total_bytes r =
     sum_list (map (length \<circ> tw_bytes) (tr_writes r))
     + sum_list (map (\<lambda>v. case vm_value v of None \<Rightarrow> 0 | Some b \<Rightarrow> length b) (tr_views r))"

definition partition_count :: "transaction_record \<Rightarrow> (string \<times> u32) option \<Rightarrow> nat" where
  "partition_count r extra =
     card (set (map (\<lambda>w. (tw_stream w, tw_partition w)) (tr_writes r))
           \<union> set (map (\<lambda>c. (oc_stream c, oc_partition c)) (tr_offsets r)) \<union> set_option extra)"

definition committed_batch_of :: "transaction_record \<Rightarrow> committed_batch" where
  "committed_batch_of r =
     \<lparr>cb_id = tr_id r, cb_writes = tr_writes r, cb_offsets = tr_offsets r, cb_views = tr_views r\<rparr>"

definition message_count :: "transaction_record \<Rightarrow> nat" where
  "message_count r = length (tr_writes r) + length (tr_offsets r) + length (tr_views r)"

fun is_active :: "transaction_status \<Rightarrow> bool" where
  "is_active TxOpen = True"
| "is_active Prepared = True"
| "is_active Committed = False"
| "is_active (Aborted _) = False"

fun is_aborted :: "transaction_status \<Rightarrow> bool" where
  "is_aborted (Aborted _) = True"
| "is_aborted _ = False"

section \<open>Journal\<close>

definition update_transaction ::
  "string \<Rightarrow> (transaction_record \<Rightarrow> transaction_record) \<Rightarrow> durable_state \<Rightarrow> durable_state" where
  "update_transaction txid f s = s\<lparr>ds_transactions := bt_update txid f (ds_transactions s)\<rparr>"

definition apply_to ::
  "string \<Rightarrow> (transaction_record \<Rightarrow> transaction_record) \<Rightarrow> durable_state \<Rightarrow> durable_state result" where
  "apply_to txid f s =
     (if bt_contains txid (ds_transactions s) then Ok (update_transaction txid f s)
      else Err ''transaction journal references unknown transaction'')"

fun apply_delta :: "transaction_delta \<Rightarrow> durable_state \<Rightarrow> durable_state result" where
  "apply_delta (DBegin r) s = Ok (s\<lparr>ds_transactions := bt_insert (tr_id r) r (ds_transactions s)\<rparr>)"
| "apply_delta (DProducerEpoch p e) s = Ok (s\<lparr>ds_producer_epochs := bt_insert p e (ds_producer_epochs s)\<rparr>)"
| "apply_delta (DWrite txid w) s = apply_to txid (\<lambda>r. r\<lparr>tr_writes := tr_writes r @ [w]\<rparr>) s"
| "apply_delta (DOffset txid c) s = apply_to txid (\<lambda>r. r\<lparr>tr_offsets := tr_offsets r @ [c]\<rparr>) s"
| "apply_delta (DView txid v) s = apply_to txid (\<lambda>r. r\<lparr>tr_views := tr_views r @ [v]\<rparr>) s"
| "apply_delta (DStatus txid st) s = apply_to txid (\<lambda>r. r\<lparr>tr_status := st\<rparr>) s"

text \<open>\<open>checkpoint\<close>: prune old terminal transactions, write the snapshot, truncate the journal.\<close>

definition prune_terminal :: "transaction_limits \<Rightarrow> durable_state \<Rightarrow> durable_state" where
  "prune_terminal l s =
     (let terminal = map fst (filter (\<lambda>(_, r). \<not> is_active (tr_status r)) (ds_transactions s));
          keep = max (sat_mul64 (tl_max_concurrent l) 16) 64
      in if length terminal > keep
         then s\<lparr>ds_transactions :=
                fold bt_remove (take (length terminal - keep) terminal) (ds_transactions s)\<rparr>
         else s)"

definition checkpoint ::
  "('s, 'l, 'b) txn_codec \<Rightarrow> transaction_coordinator \<Rightarrow> ('s, 'l) txn_disk
   \<Rightarrow> transaction_coordinator \<times> ('s, 'l) txn_disk" where
  "checkpoint cd c dk =
     (if \<not> tc_durable c then (c, dk)
      else
        let s = prune_terminal (tc_limits c) (tc_state c)
        in (c\<lparr>tc_state := s, tc_journal_entries := 0\<rparr>,
            dk\<lparr>dk_snapshot := Some (cod_encode_state cd s), dk_journal := Some []\<rparr>))"

definition journal_line :: "('s, 'l, 'b) txn_codec \<Rightarrow> transaction_delta \<Rightarrow> 'l" where
  "journal_line cd d =
     cod_encode_entry cd \<lparr>je_delta = d, je_checksum = cod_crc32 cd (cod_encode_delta cd d)\<rparr>"

definition append_deltas ::
  "('s, 'l, 'b) txn_codec \<Rightarrow> transaction_delta list \<Rightarrow> transaction_coordinator \<Rightarrow> ('s, 'l) txn_disk
   \<Rightarrow> transaction_coordinator \<times> ('s, 'l) txn_disk" where
  "append_deltas cd ds c dk =
     (if \<not> tc_durable c then (c, dk)
      else if ds = [] then (c, dk)
      else
        let lines = (case dk_journal dk of None \<Rightarrow> [] | Some ls \<Rightarrow> ls);
            dk' = dk\<lparr>dk_journal := Some (lines @ map (journal_line cd) ds)\<rparr>;
            c' = c\<lparr>tc_journal_entries := tc_journal_entries c + length ds\<rparr>
        in if tc_journal_entries c' \<ge> 64 then checkpoint cd c' dk' else (c', dk'))"

fun replay ::
  "('s, 'l, 'b) txn_codec \<Rightarrow> 'l list \<Rightarrow> transaction_coordinator \<Rightarrow> transaction_coordinator result" where
  "replay cd [] c = Ok c"
| "replay cd (line # lines) c =
     (if cod_blank cd line then replay cd lines c
      else case cod_decode_entry cd line of
        None \<Rightarrow> Err ''decoding transaction journal''
      | Some entry \<Rightarrow>
          if cod_crc32 cd (cod_encode_delta cd (je_delta entry)) \<noteq> je_checksum entry
          then Err ''transaction journal checksum mismatch''
          else case apply_delta (je_delta entry) (tc_state c) of
            Err x \<Rightarrow> Err x
          | Ok s \<Rightarrow> replay cd lines (c\<lparr>tc_state := s, tc_journal_entries := tc_journal_entries c + 1\<rparr>))"

section \<open>Operations\<close>

definition tx_new :: "transaction_limits \<Rightarrow> transaction_coordinator result" where
  "tx_new l =
     (case validate_limits l of
        Err x \<Rightarrow> Err x
      | Ok _ \<Rightarrow> Ok \<lparr>tc_durable = False, tc_limits = l, tc_state = default_state, tc_journal_entries = 0\<rparr>)"

definition tx_open ::
  "('s, 'l, 'b) txn_codec \<Rightarrow> ('s, 'l) txn_disk \<Rightarrow> transaction_limits \<Rightarrow> transaction_coordinator result" where
  "tx_open cd dk l =
     (case validate_limits l of
        Err x \<Rightarrow> Err x
      | Ok _ \<Rightarrow>
         (case (case dk_snapshot dk of
                  None \<Rightarrow> Some default_state
                | Some body \<Rightarrow> cod_decode_state cd body) of
            None \<Rightarrow> Err ''decoding transaction state''
          | Some s \<Rightarrow>
             (let c = \<lparr>tc_durable = True, tc_limits = l, tc_state = s, tc_journal_entries = 0\<rparr>
              in case dk_journal dk of
                   None \<Rightarrow> Ok c
                 | Some lines \<Rightarrow> replay cd lines c)))"

definition current_epoch :: "durable_state \<Rightarrow> string \<Rightarrow> u64" where
  "current_epoch s p = (case map_of (ds_producer_epochs s) p of None \<Rightarrow> 0 | Some e \<Rightarrow> e)"

definition fenced_by :: "string \<Rightarrow> transaction_record \<Rightarrow> bool" where
  "fenced_by p r \<longleftrightarrow> tr_producer r = p \<and> is_active (tr_status r)"

text \<open>The part of \<open>begin\<close> that runs when the producer comes with a newer epoch.\<close>

definition fence_producer ::
  "('s, 'l, 'b) txn_codec \<Rightarrow> string \<Rightarrow> u64 \<Rightarrow> transaction_coordinator \<Rightarrow> ('s, 'l) txn_disk
   \<Rightarrow> transaction_coordinator \<times> ('s, 'l) txn_disk" where
  "fence_producer cd p epoch c dk =
     (let s = tc_state c;
          status = Aborted ''producer epoch fenced'';
          deltas = map (\<lambda>r. DStatus (tr_id r) status) (filter (fenced_by p) (bt_values (ds_transactions s)))
                   @ [DProducerEpoch p epoch];
          s' = s\<lparr>ds_transactions :=
                   bt_map_values (\<lambda>r. if fenced_by p r then r\<lparr>tr_status := status\<rparr> else r) (ds_transactions s),
                 ds_producer_epochs := bt_insert p epoch (ds_producer_epochs s)\<rparr>
      in append_deltas cd deltas (c\<lparr>tc_state := s'\<rparr>) dk)"

definition active_count :: "durable_state \<Rightarrow> nat" where
  "active_count s = length (filter (\<lambda>r. is_active (tr_status r)) (bt_values (ds_transactions s)))"

definition tx_begin ::
  "('s, 'l, 'b) txn_codec \<Rightarrow> string \<Rightarrow> string \<Rightarrow> string \<Rightarrow> u64 \<Rightarrow> u64
   \<Rightarrow> transaction_coordinator \<Rightarrow> ('s, 'l) txn_disk \<Rightarrow> unit result \<times> transaction_coordinator \<times> ('s, 'l) txn_disk" where
  "tx_begin cd txid tenant producer epoch now c dk =
     (if \<not> (txid \<noteq> [] \<and> tenant \<noteq> [] \<and> producer \<noteq> []) then (Err ''transaction identity is empty'', c, dk)
      else case map_of (ds_transactions (tc_state c)) txid of
        Some existing \<Rightarrow>
          if tr_producer existing = producer \<and> tr_producer_epoch existing = epoch
          then (Ok (), c, dk)
          else (Err ''transaction ID was reused with a different producer epoch'', c, dk)
      | None \<Rightarrow>
          let current = current_epoch (tc_state c) producer
          in if \<not> epoch \<ge> current then (Err ''producer epoch is fenced'', c, dk)
             else
               let (c1, dk1) = (if epoch > current then fence_producer cd producer epoch c dk else (c, dk))
               in if \<not> active_count (tc_state c1) < tl_max_concurrent (tc_limits c1)
                  then (Err ''concurrent transaction quota exceeded'', c1, dk1)
                  else
                    let r = \<lparr>tr_id = txid, tr_tenant = tenant, tr_producer = producer,
                             tr_producer_epoch = epoch, tr_started_at_ms = now,
                             tr_deadline_ms = sat_add64 now (tl_max_duration_ms (tc_limits c1)),
                             tr_status = TxOpen, tr_writes = [], tr_offsets = [], tr_views = []\<rparr>;
                        s = (tc_state c1)\<lparr>ds_transactions := bt_insert txid r (ds_transactions (tc_state c1))\<rparr>
                    in (Ok (), append_deltas cd [DBegin r] (c1\<lparr>tc_state := s\<rparr>) dk1))"

definition with_open ::
  "('s, 'l, 'b) txn_codec \<Rightarrow> string \<Rightarrow> u64 \<Rightarrow> transaction_delta
   \<Rightarrow> (transaction_record \<Rightarrow> transaction_limits \<Rightarrow> transaction_record result)
   \<Rightarrow> transaction_coordinator \<Rightarrow> ('s, 'l) txn_disk \<Rightarrow> unit result \<times> transaction_coordinator \<times> ('s, 'l) txn_disk" where
  "with_open cd txid now delta operation c dk =
     (case map_of (ds_transactions (tc_state c)) txid of
        None \<Rightarrow> (Err ''unknown transaction'', c, dk)
      | Some r \<Rightarrow>
         (case ensure_live r now of
            Err x \<Rightarrow> (Err x, c, dk)
          | Ok _ \<Rightarrow>
              if tr_status r \<noteq> TxOpen then (Err ''transaction is not open'', c, dk)
              else case operation r (tc_limits c) of
                Err x \<Rightarrow> (Err x, c, dk)
              | Ok r' \<Rightarrow>
                  (Ok (), append_deltas cd [delta]
                     (c\<lparr>tc_state := update_transaction txid (\<lambda>_. r') (tc_state c)\<rparr>) dk)))"

definition append_op :: "transaction_write \<Rightarrow> transaction_record \<Rightarrow> transaction_limits \<Rightarrow> transaction_record result" where
  "append_op w r l =
     (if \<not> message_count r < tl_max_messages l then Err ''transaction message quota exceeded''
      else if \<not> sat_add64 (total_bytes r) (length (tw_bytes w)) \<le> tl_max_bytes l
      then Err ''transaction byte quota exceeded''
      else if \<not> partition_count r (Some (tw_stream w, tw_partition w)) \<le> tl_max_partitions l
      then Err ''transaction partition quota exceeded''
      else Ok (r\<lparr>tr_writes := tr_writes r @ [w]\<rparr>))"

definition offset_op :: "offset_commit \<Rightarrow> transaction_record \<Rightarrow> transaction_limits \<Rightarrow> transaction_record result" where
  "offset_op oc r l =
     (if \<not> message_count r < tl_max_messages l then Err ''transaction message quota exceeded''
      else if \<not> partition_count r (Some (oc_stream oc, oc_partition oc)) \<le> tl_max_partitions l
      then Err ''transaction partition quota exceeded''
      else Ok (r\<lparr>tr_offsets := tr_offsets r @ [oc]\<rparr>))"

definition view_op :: "view_mutation \<Rightarrow> transaction_record \<Rightarrow> transaction_limits \<Rightarrow> transaction_record result" where
  "view_op v r l =
     (if \<not> message_count r < tl_max_messages l then Err ''transaction message quota exceeded''
      else if \<not> sat_add64 (total_bytes r) (case vm_value v of None \<Rightarrow> 0 | Some b \<Rightarrow> length b) \<le> tl_max_bytes l
      then Err ''transaction byte quota exceeded''
      else Ok (r\<lparr>tr_views := tr_views r @ [v]\<rparr>))"

definition tx_append where
  "tx_append cd txid w now c dk = with_open cd txid now (DWrite txid w) (append_op w) c dk"

definition tx_commit_offset where
  "tx_commit_offset cd txid oc now c dk = with_open cd txid now (DOffset txid oc) (offset_op oc) c dk"

definition tx_mutate_view where
  "tx_mutate_view cd txid v now c dk = with_open cd txid now (DView txid v) (view_op v) c dk"

definition set_status ::
  "('s, 'l, 'b) txn_codec \<Rightarrow> string \<Rightarrow> transaction_status \<Rightarrow> transaction_coordinator \<Rightarrow> ('s, 'l) txn_disk
   \<Rightarrow> transaction_coordinator \<times> ('s, 'l) txn_disk" where
  "set_status cd txid st c dk =
     append_deltas cd [DStatus txid st]
       (c\<lparr>tc_state := update_transaction txid (\<lambda>r. r\<lparr>tr_status := st\<rparr>) (tc_state c)\<rparr>) dk"

definition tx_prepare ::
  "('s, 'l, 'b) txn_codec \<Rightarrow> string \<Rightarrow> u64 \<Rightarrow> transaction_coordinator \<Rightarrow> ('s, 'l) txn_disk
   \<Rightarrow> unit result \<times> transaction_coordinator \<times> ('s, 'l) txn_disk" where
  "tx_prepare cd txid now c dk =
     (case map_of (ds_transactions (tc_state c)) txid of
        None \<Rightarrow> (Err ''unknown transaction'', c, dk)
      | Some r \<Rightarrow>
         (case ensure_live r now of
            Err x \<Rightarrow> (Err x, c, dk)
          | Ok _ \<Rightarrow>
              if tr_status r \<noteq> TxOpen then (Err ''transaction is not open'', c, dk)
              else (Ok (), set_status cd txid Prepared c dk)))"

definition tx_commit ::
  "('s, 'l, 'b) txn_codec \<Rightarrow> string \<Rightarrow> u64 \<Rightarrow> transaction_coordinator \<Rightarrow> ('s, 'l) txn_disk
   \<Rightarrow> committed_batch result \<times> transaction_coordinator \<times> ('s, 'l) txn_disk" where
  "tx_commit cd txid now c dk =
     (case map_of (ds_transactions (tc_state c)) txid of
        None \<Rightarrow> (Err ''unknown transaction'', c, dk)
      | Some r \<Rightarrow>
         (case ensure_live r now of
            Err x \<Rightarrow> (Err x, c, dk)
          | Ok _ \<Rightarrow>
              if tr_status r \<noteq> Prepared then (Err ''transaction is not prepared'', c, dk)
              else (Ok (committed_batch_of (r\<lparr>tr_status := Committed\<rparr>)), set_status cd txid Committed c dk)))"

definition tx_abort ::
  "('s, 'l, 'b) txn_codec \<Rightarrow> string \<Rightarrow> string \<Rightarrow> transaction_coordinator \<Rightarrow> ('s, 'l) txn_disk
   \<Rightarrow> unit result \<times> transaction_coordinator \<times> ('s, 'l) txn_disk" where
  "tx_abort cd txid reason c dk =
     (case map_of (ds_transactions (tc_state c)) txid of
        None \<Rightarrow> (Err ''unknown transaction'', c, dk)
      | Some r \<Rightarrow>
          if \<not> is_active (tr_status r) then (Err ''transaction is already terminal'', c, dk)
          else (Ok (), set_status cd txid (Aborted reason) c dk))"

definition timed_out :: "u64 \<Rightarrow> transaction_record \<Rightarrow> bool" where
  "timed_out now r \<longleftrightarrow> is_active (tr_status r) \<and> tr_deadline_ms r \<le> now"

definition tx_recover ::
  "('s, 'l, 'b) txn_codec \<Rightarrow> u64 \<Rightarrow> transaction_coordinator \<Rightarrow> ('s, 'l) txn_disk
   \<Rightarrow> nat result \<times> transaction_coordinator \<times> ('s, 'l) txn_disk" where
  "tx_recover cd now c dk =
     (let s = tc_state c;
          recovered = length (filter (timed_out now) (bt_values (ds_transactions s)));
          s' = s\<lparr>ds_transactions := bt_map_values
                 (\<lambda>r. if timed_out now r
                      then r\<lparr>tr_status := Aborted ''transaction timeout during recovery''\<rparr> else r)
                 (ds_transactions s)\<rparr>;
          deltas = map (\<lambda>r. DStatus (tr_id r) (tr_status r))
                     (filter (\<lambda>r. is_aborted (tr_status r)) (bt_values (ds_transactions s')))
      in (Ok recovered, append_deltas cd deltas (c\<lparr>tc_state := s'\<rparr>) dk))"

definition tx_status :: "string \<Rightarrow> transaction_coordinator \<Rightarrow> transaction_status option" where
  "tx_status txid c = map_option tr_status (map_of (ds_transactions (tc_state c)) txid)"

definition visible_batch :: "string \<Rightarrow> transaction_coordinator \<Rightarrow> committed_batch option" where
  "visible_batch txid c =
     (case map_of (ds_transactions (tc_state c)) txid of
        None \<Rightarrow> None
      | Some r \<Rightarrow> if tr_status r = Committed then Some (committed_batch_of r) else None)"

end
