(* ===== verification/Transaction_Recovery.thy ===== *)
theory Transaction_Recovery
  imports Transaction_Coordinator
begin

text \<open>
  What the transaction coordinator guarantees over every sequence of calls and restarts. Each
  call is shown to be at most two journalled changes (\<open>tx_change\<close>), and the invariant, the
  recovery property and the visibility property are proved once per kind of change.
\<close>

section \<open>Calls\<close>

datatype tx_call =
    CBegin string string string u64 u64
  | CAppend string transaction_write u64
  | CCommitOffset string offset_commit u64
  | CMutateView string view_mutation u64
  | CPrepare string u64
  | CCommit string u64
  | CAbort string string
  | CRecover u64
  | CRestart

datatype tx_reply = Done | Batch committed_batch | Count nat

type_synonym ('s, 'l) tx_world = "transaction_coordinator \<times> ('s, 'l) txn_disk"

fun tx_exec :: "('s, 'l, 'b) txn_codec \<Rightarrow> tx_call \<Rightarrow> ('s, 'l) tx_world \<Rightarrow> tx_reply result \<times> ('s, 'l) tx_world" where
  "tx_exec cd (CBegin txid tenant producer epoch now) (c, dk) =
     apfst (map_sum (\<lambda>x. x) (\<lambda>_. Done)) (tx_begin cd txid tenant producer epoch now c dk)"
| "tx_exec cd (CAppend txid w now) (c, dk) = apfst (map_sum (\<lambda>x. x) (\<lambda>_. Done)) (tx_append cd txid w now c dk)"
| "tx_exec cd (CCommitOffset txid oc now) (c, dk) =
     apfst (map_sum (\<lambda>x. x) (\<lambda>_. Done)) (tx_commit_offset cd txid oc now c dk)"
| "tx_exec cd (CMutateView txid v now) (c, dk) =
     apfst (map_sum (\<lambda>x. x) (\<lambda>_. Done)) (tx_mutate_view cd txid v now c dk)"
| "tx_exec cd (CPrepare txid now) (c, dk) = apfst (map_sum (\<lambda>x. x) (\<lambda>_. Done)) (tx_prepare cd txid now c dk)"
| "tx_exec cd (CCommit txid now) (c, dk) = apfst (map_sum (\<lambda>x. x) Batch) (tx_commit cd txid now c dk)"
| "tx_exec cd (CAbort txid reason) (c, dk) = apfst (map_sum (\<lambda>x. x) (\<lambda>_. Done)) (tx_abort cd txid reason c dk)"
| "tx_exec cd (CRecover now) (c, dk) = apfst (map_sum (\<lambda>x. x) Count) (tx_recover cd now c dk)"
| "tx_exec cd CRestart (c, dk) =
     (if \<not> tc_durable c then (Ok Done, c, dk)
      else case tx_open cd dk (tc_limits c) of
        Err x \<Rightarrow> (Err x, c, dk)
      | Ok c' \<Rightarrow> (Ok Done, c', dk))"

definition empty_disk :: "('s, 'l) txn_disk" where
  "empty_disk = \<lparr>dk_snapshot = None, dk_journal = None\<rparr>"

definition tx_init :: "('s, 'l, 'b) txn_codec \<Rightarrow> ('s, 'l) tx_world \<Rightarrow> bool" where
  "tx_init cd w \<longleftrightarrow>
     snd w = empty_disk \<and> tl_max_bytes (tc_limits (fst w)) < u64_max
     \<and> (tx_new (tc_limits (fst w)) = Ok (fst w) \<or> tx_open cd empty_disk (tc_limits (fst w)) = Ok (fst w))"

definition tx_step :: "('s, 'l, 'b) txn_codec \<Rightarrow> ('s, 'l) tx_world \<Rightarrow> ('s, 'l) tx_world \<Rightarrow> bool" where
  "tx_step cd w w' \<longleftrightarrow> (\<exists>call. w' = snd (tx_exec cd call w))"

section \<open>The invariant\<close>

definition rec_ok :: "transaction_limits \<Rightarrow> transaction_record \<Rightarrow> bool" where
  "rec_ok l r \<longleftrightarrow>
     message_count r \<le> tl_max_messages l \<and> total_bytes r \<le> tl_max_bytes l
     \<and> partition_count r None \<le> tl_max_partitions l"

definition state_inv :: "transaction_limits \<Rightarrow> durable_state \<Rightarrow> bool" where
  "state_inv l s \<longleftrightarrow>
     bt_wf (ds_transactions s) \<and> bt_wf (ds_producer_epochs s)
     \<and> (\<forall>txid r. map_of (ds_transactions s) txid = Some r \<longrightarrow>
          tr_id r = txid \<and> rec_ok l r
          \<and> (is_active (tr_status r) \<longrightarrow> tr_producer_epoch r = current_epoch s (tr_producer r)))
     \<and> active_count s \<le> tl_max_concurrent l"

lemma active_count_card:
  "bt_wf (ds_transactions s) \<Longrightarrow>
     active_count s = card {txid. \<exists>r. map_of (ds_transactions s) txid = Some r \<and> is_active (tr_status r)}"
  unfolding active_count_def
  by (simp add: filter_map comp_def length_filter_bt)

text \<open>Which changes keep the bound on the active transactions: those that activate nothing.\<close>

lemma active_count_mono:
  assumes "bt_wf (ds_transactions s)" and "bt_wf (ds_transactions s')"
    and "\<And>txid r'. map_of (ds_transactions s') txid = Some r' \<Longrightarrow> is_active (tr_status r') \<Longrightarrow>
           \<exists>r. map_of (ds_transactions s) txid = Some r \<and> is_active (tr_status r)"
  shows "active_count s' \<le> active_count s"
proof -
  have "finite {txid. \<exists>r. map_of (ds_transactions s) txid = Some r \<and> is_active (tr_status r)}"
    by (rule finite_subset [OF _ finite_dom_map_of [of "ds_transactions s"]]) auto
  moreover have "{txid. \<exists>r. map_of (ds_transactions s') txid = Some r \<and> is_active (tr_status r)}
      \<subseteq> {txid. \<exists>r. map_of (ds_transactions s) txid = Some r \<and> is_active (tr_status r)}"
    using assms(3) by blast
  ultimately show ?thesis
    using assms(1,2) by (simp add: active_count_card card_mono)
qed

section \<open>Journalled changes\<close>

fun apply_all :: "transaction_delta list \<Rightarrow> durable_state \<Rightarrow> durable_state result" where
  "apply_all [] s = Ok s"
| "apply_all (d # ds) s = (case apply_delta d s of Err x \<Rightarrow> Err x | Ok s' \<Rightarrow> apply_all ds s')"

lemma apply_all_append:
  "apply_all (ds @ es) s = (case apply_all ds s of Err x \<Rightarrow> Err x | Ok s' \<Rightarrow> apply_all es s')"
  by (induction ds arbitrary: s) (auto split: sum.splits)

definition fenced_state :: "string \<Rightarrow> u64 \<Rightarrow> durable_state \<Rightarrow> durable_state" where
  "fenced_state p epoch s =
     s\<lparr>ds_transactions := bt_map_values
         (\<lambda>r. if fenced_by p r then r\<lparr>tr_status := Aborted ''producer epoch fenced''\<rparr> else r) (ds_transactions s),
       ds_producer_epochs := bt_insert p epoch (ds_producer_epochs s)\<rparr>"

definition recovered_state :: "u64 \<Rightarrow> durable_state \<Rightarrow> durable_state" where
  "recovered_state now s =
     s\<lparr>ds_transactions := bt_map_values
         (\<lambda>r. if timed_out now r then r\<lparr>tr_status := Aborted ''transaction timeout during recovery''\<rparr> else r)
         (ds_transactions s)\<rparr>"

inductive tx_change ::
  "transaction_limits \<Rightarrow> string option \<Rightarrow> durable_state \<Rightarrow> transaction_delta list \<Rightarrow> durable_state \<Rightarrow> bool"
  for l where
  change_fence: "current_epoch s p < epoch \<Longrightarrow>
     tx_change l None s
       (map (\<lambda>r. DStatus (tr_id r) (Aborted ''producer epoch fenced''))
          (filter (fenced_by p) (bt_values (ds_transactions s))) @ [DProducerEpoch p epoch])
       (fenced_state p epoch s)"
| change_begin: "map_of (ds_transactions s) (tr_id r) = None \<Longrightarrow> active_count s < tl_max_concurrent l \<Longrightarrow>
     tr_producer_epoch r = current_epoch s (tr_producer r) \<Longrightarrow> tr_status r = TxOpen \<Longrightarrow> rec_ok l r \<Longrightarrow>
     tx_change l None s [DBegin r] (s\<lparr>ds_transactions := bt_insert (tr_id r) r (ds_transactions s)\<rparr>)"
| change_work: "map_of (ds_transactions s) txid = Some r \<Longrightarrow> tr_status r = TxOpen \<Longrightarrow>
     apply_delta d s = Ok (update_transaction txid (\<lambda>_. r') s) \<Longrightarrow> rec_ok l r' \<Longrightarrow>
     tr_id r' = tr_id r \<Longrightarrow> tr_status r' = TxOpen \<Longrightarrow>
     tr_producer r' = tr_producer r \<Longrightarrow> tr_producer_epoch r' = tr_producer_epoch r \<Longrightarrow>
     tx_change l None s [d] (update_transaction txid (\<lambda>_. r') s)"
| change_status: "map_of (ds_transactions s) txid = Some r \<Longrightarrow> is_active (tr_status r) \<Longrightarrow>
     st \<noteq> Committed \<Longrightarrow>
     tx_change l None s [DStatus txid st] (update_transaction txid (\<lambda>r. r\<lparr>tr_status := st\<rparr>) s)"
| change_commit: "map_of (ds_transactions s) txid = Some r \<Longrightarrow> tr_status r = Prepared \<Longrightarrow>
     tx_change l (Some txid) s [DStatus txid Committed]
       (update_transaction txid (\<lambda>r. r\<lparr>tr_status := Committed\<rparr>) s)"
| change_recover: "tx_change l None s
     (map (\<lambda>r. DStatus (tr_id r) (tr_status r))
        (filter (\<lambda>r. is_aborted (tr_status r)) (bt_values (ds_transactions (recovered_state now s)))))
     (recovered_state now s)"

text \<open>A change written to the journal, with the checkpoint when it is due.\<close>

definition tx_write ::
  "('s, 'l, 'b) txn_codec \<Rightarrow> string option \<Rightarrow> ('s, 'l) tx_world \<Rightarrow> ('s, 'l) tx_world \<Rightarrow> bool" where
  "tx_write cd com w w' \<longleftrightarrow>
     (\<exists>ds s'. tx_change (tc_limits (fst w)) com (tc_state (fst w)) ds s'
        \<and> w' = append_deltas cd ds ((fst w)\<lparr>tc_state := s'\<rparr>) (snd w))"

subsection \<open>Replaying the deltas of a change gives the changed state\<close>

lemma durable_state_ext:
  "bt_wf (ds_transactions s) \<Longrightarrow> bt_wf (ds_transactions s') \<Longrightarrow>
   map_of (ds_transactions s) = map_of (ds_transactions s') \<Longrightarrow>
   ds_producer_epochs s = ds_producer_epochs s' \<Longrightarrow> s = (s' :: durable_state)"
  by (cases s, cases s') (auto intro: bt_ext)

text \<open>The loop shared by fencing and recovery: a status delta for each selected record.\<close>

lemma apply_statuses:
  assumes "bt_wf (ds_transactions s)" and "\<forall>r\<in>set rs. bt_contains (tr_id r) (ds_transactions s)"
  shows "\<exists>s'. apply_all (map (\<lambda>r. DStatus (tr_id r) (f r)) rs) s = Ok s'
    \<and> bt_wf (ds_transactions s') \<and> ds_producer_epochs s' = ds_producer_epochs s
    \<and> (\<forall>k. map_of (ds_transactions s') k =
         map_option (\<lambda>r. case find (\<lambda>x. tr_id x = k) (rev rs) of None \<Rightarrow> r | Some x \<Rightarrow> r\<lparr>tr_status := f x\<rparr>)
           (map_of (ds_transactions s) k))"
  using assms
proof (induction rs arbitrary: s)
  case Nil
  then show ?case by (simp add: option.map_ident)
next
  case (Cons x rs)
  let ?s = "update_transaction (tr_id x) (\<lambda>r. r\<lparr>tr_status := f x\<rparr>) s"
  have "bt_wf (ds_transactions ?s)" using Cons.prems(1) by (simp add: update_transaction_def)
  moreover have "\<forall>r\<in>set rs. bt_contains (tr_id r) (ds_transactions ?s)"
    using Cons.prems(2) by (auto simp: update_transaction_def bt_contains_def)
  ultimately obtain s' where s': "apply_all (map (\<lambda>r. DStatus (tr_id r) (f r)) rs) ?s = Ok s'"
    "bt_wf (ds_transactions s')" "ds_producer_epochs s' = ds_producer_epochs ?s"
    "\<forall>k. map_of (ds_transactions s') k =
         map_option (\<lambda>r. case find (\<lambda>x. tr_id x = k) (rev rs) of None \<Rightarrow> r | Some x \<Rightarrow> r\<lparr>tr_status := f x\<rparr>)
           (map_of (ds_transactions ?s) k)"
    using Cons.IH [of ?s] by blast
  have "apply_all (map (\<lambda>r. DStatus (tr_id r) (f r)) (x # rs)) s = Ok s'"
    using s'(1) Cons.prems(2) by (simp add: apply_to_def)
  moreover have "map_of (ds_transactions s') k =
       map_option (\<lambda>r. case find (\<lambda>x. tr_id x = k) (rev (x # rs)) of None \<Rightarrow> r | Some x \<Rightarrow> r\<lparr>tr_status := f x\<rparr>)
         (map_of (ds_transactions s) k)" for k
    using s'(4) by (cases "map_of (ds_transactions s) k")
      (auto simp: update_transaction_def find_append split: option.splits)
  ultimately show ?case using s' by (auto simp: update_transaction_def)
qed


lemma find_selected:
  assumes "bt_wf m" and ids: "\<And>k r. map_of m k = Some r \<Longrightarrow> tr_id r = k"
  shows "find (\<lambda>x. tr_id x = k) (rev (filter P (bt_values m))) =
     (case map_of m k of None \<Rightarrow> None | Some r \<Rightarrow> if P r then Some r else None)"
proof -
  let ?rs = "rev (filter P (bt_values m))"
  have mem: "x \<in> set ?rs \<longleftrightarrow> map_of m (tr_id x) = Some x \<and> P x" for x
    using bt_value_iff [OF assms(1), of x] ids by auto
  show ?thesis
  proof (cases "find (\<lambda>x. tr_id x = k) ?rs")
    case None
    then have "x \<notin> set ?rs" if "tr_id x = k" for x using that by (auto simp: find_None_iff)
    with None mem ids show ?thesis by (auto split: option.splits)
  next
    case (Some x)
    with find_SomeD [OF Some] mem [of x] show ?thesis by simp
  qed
qed

lemma state_inv_ids: "state_inv l s \<Longrightarrow> map_of (ds_transactions s) k = Some r \<Longrightarrow> tr_id r = k"
  by (simp add: state_inv_def)

lemma apply_fence:
  assumes inv: "state_inv l s"
  shows "apply_all (map (\<lambda>r. DStatus (tr_id r) (Aborted ''producer epoch fenced''))
          (filter (fenced_by p) (bt_values (ds_transactions s))) @ [DProducerEpoch p epoch]) s
    = Ok (fenced_state p epoch s)"
proof -
  let ?m = "ds_transactions s"
  let ?st = "Aborted ''producer epoch fenced''"
  let ?rs = "filter (fenced_by p) (bt_values ?m)"
  have wf: "bt_wf ?m" using inv by (simp add: state_inv_def)
  have "\<forall>r\<in>set ?rs. bt_contains (tr_id r) ?m"
    using state_inv_ids [OF inv] bt_value_iff [OF wf] by (auto simp: bt_contains_def)
  from apply_statuses [OF wf this, of "\<lambda>_. ?st"] obtain s1
    where s1: "apply_all (map (\<lambda>r. DStatus (tr_id r) ?st) ?rs) s = Ok s1" "bt_wf (ds_transactions s1)"
      "ds_producer_epochs s1 = ds_producer_epochs s"
      "\<forall>k. map_of (ds_transactions s1) k =
         map_option (\<lambda>r. case find (\<lambda>x. tr_id x = k) (rev ?rs) of None \<Rightarrow> r | Some x \<Rightarrow> r\<lparr>tr_status := ?st\<rparr>)
           (map_of ?m k)"
    by blast
  have "map_of (ds_transactions s1) k = map_of (ds_transactions (fenced_state p epoch s)) k" for k
    using s1(4) find_selected [OF wf state_inv_ids [OF inv], of k "fenced_by p"]
    by (cases "map_of ?m k") (simp_all add: fenced_state_def)
  then have "s1\<lparr>ds_producer_epochs := bt_insert p epoch (ds_producer_epochs s1)\<rparr> = fenced_state p epoch s"
    using s1(2,3) wf by (intro durable_state_ext) (auto simp: fenced_state_def)
  with s1(1) show ?thesis by (simp add: apply_all_append)
qed

lemma apply_recover:
  assumes inv: "state_inv l s"
  shows "apply_all (map (\<lambda>r. DStatus (tr_id r) (tr_status r))
      (filter (\<lambda>r. is_aborted (tr_status r)) (bt_values (ds_transactions (recovered_state now s))))) s
    = Ok (recovered_state now s)"
proof -
  let ?m = "ds_transactions s"
  let ?g = "\<lambda>r. if timed_out now r then r\<lparr>tr_status := Aborted ''transaction timeout during recovery''\<rparr> else r"
  let ?m' = "bt_map_values ?g ?m"
  let ?rs = "filter (\<lambda>r. is_aborted (tr_status r)) (bt_values ?m')"
  have m': "ds_transactions (recovered_state now s) = ?m'" by (simp add: recovered_state_def)
  have wf: "bt_wf ?m" using inv by (simp add: state_inv_def)
  then have wf': "bt_wf ?m'" by simp
  have ids: "tr_id r = k" if "map_of ?m' k = Some r" for k r
    using that state_inv_ids [OF inv] by (auto split: if_splits)
  have "\<forall>r\<in>set ?rs. bt_contains (tr_id r) ?m"
  proof
    fix r assume "r \<in> set ?rs"
    then obtain k where "map_of ?m' k = Some r"
      using bt_value_iff [OF wf', of r] by auto
    with ids [OF this] show "bt_contains (tr_id r) ?m" by (auto simp: bt_contains_def)
  qed
  from apply_statuses [OF wf this, of tr_status] obtain s1
    where s1: "apply_all (map (\<lambda>r. DStatus (tr_id r) (tr_status r)) ?rs) s = Ok s1" "bt_wf (ds_transactions s1)"
      "ds_producer_epochs s1 = ds_producer_epochs s"
      "\<forall>k. map_of (ds_transactions s1) k =
         map_option (\<lambda>r. case find (\<lambda>x. tr_id x = k) (rev ?rs) of None \<Rightarrow> r | Some x \<Rightarrow> r\<lparr>tr_status := tr_status x\<rparr>)
           (map_of ?m k)"
    by blast
  have "map_of (ds_transactions s1) k = map_of ?m' k" for k
    using s1(4) find_selected [OF wf' ids, of k "\<lambda>r. is_aborted (tr_status r)"]
    by (cases "map_of ?m k") (simp_all)
  then have "s1 = recovered_state now s"
    using s1(2,3) wf wf' by (intro durable_state_ext) (auto simp: m' recovered_state_def)
  with s1(1) m' show ?thesis by simp
qed

lemma change_apply:
  assumes "tx_change l com s ds s'" and "state_inv l s"
  shows "apply_all ds s = Ok s'"
  using assms
proof cases
  case (change_fence p epoch)
  with apply_fence [OF assms(2)] show ?thesis by simp
next
  case (change_recover now)
  with apply_recover [OF assms(2)] show ?thesis by simp
qed (simp_all add: apply_to_def bt_contains_def)


subsection \<open>Changes keep the invariant\<close>

lemma current_epoch_fenced:
  "bt_wf (ds_producer_epochs s) \<Longrightarrow>
     current_epoch (fenced_state p epoch s) q = (if q = p then epoch else current_epoch s q)"
  by (simp add: current_epoch_def fenced_state_def)

lemma current_epoch_transactions [simp]:
  "current_epoch (s\<lparr>ds_transactions := m\<rparr>) q = current_epoch s q"
  "current_epoch (update_transaction txid f s) q = current_epoch s q"
  "current_epoch (recovered_state now s) q = current_epoch s q"
  by (simp_all add: current_epoch_def update_transaction_def recovered_state_def)

lemma rec_ok_status [simp]: "rec_ok l (r\<lparr>tr_status := st\<rparr>) = rec_ok l r"
  by (simp add: rec_ok_def message_count_def total_bytes_def partition_count_def)

text \<open>
  The pattern of every change but the first two: the map is updated pointwise, by a function
  that keeps identity and limits and activates nothing.
\<close>

lemma state_inv_pointwise:
  assumes inv: "state_inv l s" and wf: "bt_wf (ds_transactions s')" "bt_wf (ds_producer_epochs s')"
    and pt: "\<And>k r'. map_of (ds_transactions s') k = Some r' \<Longrightarrow>
      \<exists>r. map_of (ds_transactions s) k = Some r \<and> tr_id r' = tr_id r \<and> rec_ok l r'
        \<and> (is_active (tr_status r') \<longrightarrow> is_active (tr_status r) \<and> tr_producer r' = tr_producer r
             \<and> tr_producer_epoch r' = tr_producer_epoch r
             \<and> current_epoch s' (tr_producer r) = current_epoch s (tr_producer r))"
  shows "state_inv l s'"
proof -
  have "active_count s' \<le> active_count s"
    by (rule active_count_mono) (use inv wf pt in \<open>auto simp: state_inv_def\<close>, use pt in blast)
  moreover have "tr_id r' = k \<and> rec_ok l r'
      \<and> (is_active (tr_status r') \<longrightarrow> tr_producer_epoch r' = current_epoch s' (tr_producer r'))"
    if "map_of (ds_transactions s') k = Some r'" for k r'
    using pt [OF that] inv unfolding state_inv_def by fastforce
  ultimately show ?thesis using inv wf unfolding state_inv_def by (meson le_trans)
qed

lemma state_inv_begin:
  assumes inv: "state_inv l s" and new: "map_of (ds_transactions s) (tr_id r) = None"
    and "active_count s < tl_max_concurrent l" and "tr_producer_epoch r = current_epoch s (tr_producer r)"
    and "rec_ok l r"
  shows "state_inv l (s\<lparr>ds_transactions := bt_insert (tr_id r) r (ds_transactions s)\<rparr>)" (is "state_inv l ?s'")
proof -
  let ?A = "\<lambda>s. {txid. \<exists>r. map_of (ds_transactions s) txid = Some r \<and> is_active (tr_status r)}"
  have wf: "bt_wf (ds_transactions s)" "bt_wf (ds_producer_epochs s)" using inv by (simp_all add: state_inv_def)
  have fin: "finite (?A s)"
    by (rule finite_subset [OF _ finite_dom_map_of [of "ds_transactions s"]]) auto
  have "?A ?s' \<subseteq> insert (tr_id r) (?A s)" using wf by (auto split: if_splits)
  then have "card (?A ?s') \<le> card (insert (tr_id r) (?A s))"
    using fin by (simp add: card_mono)
  also have "\<dots> \<le> Suc (card (?A s))" using fin by (simp add: card_insert_if)
  finally have "card (?A ?s') \<le> Suc (card (?A s))" .
  then have count: "active_count ?s' \<le> Suc (active_count s)"
    using wf by (simp add: active_count_card)
  have each: "\<forall>txid x. map_of (ds_transactions ?s') txid = Some x \<longrightarrow>
          tr_id x = txid \<and> rec_ok l x
          \<and> (is_active (tr_status x) \<longrightarrow> tr_producer_epoch x = current_epoch ?s' (tr_producer x))"
  proof (intro allI impI)
    fix k x assume x: "map_of (ds_transactions ?s') k = Some x"
    show "tr_id x = k \<and> rec_ok l x
          \<and> (is_active (tr_status x) \<longrightarrow> tr_producer_epoch x = current_epoch ?s' (tr_producer x))"
    proof (cases "k = tr_id r")
      case True
      with x wf have "x = r" by simp
      with True assms(4,5) show ?thesis by simp
    next
      case False
      with x wf have "map_of (ds_transactions s) k = Some x" by simp
      with inv show ?thesis by (simp add: state_inv_def)
    qed
  qed
  show ?thesis
    unfolding state_inv_def by (intro conjI each) (use count assms(3) wf in simp_all)
qed

lemma change_inv:
  assumes "tx_change l com s ds s'" and inv: "state_inv l s"
  shows "state_inv l s'"
  using assms(1)
proof cases
  case (change_fence p epoch)
  have wf: "bt_wf (ds_producer_epochs s)" "bt_wf (ds_transactions s)" using inv by (simp_all add: state_inv_def)
  have epochs: "current_epoch s' q = (if q = p then epoch else current_epoch s q)" for q
    using change_fence current_epoch_fenced [OF wf(1)] by simp
  show ?thesis
  proof (rule state_inv_pointwise [OF inv])
    show "bt_wf (ds_transactions s')" "bt_wf (ds_producer_epochs s')"
      using change_fence wf by (simp_all add: fenced_state_def)
    fix k r' assume "map_of (ds_transactions s') k = Some r'"
    then obtain r where "map_of (ds_transactions s) k = Some r"
      and "r' = (if fenced_by p r then r\<lparr>tr_status := Aborted ''producer epoch fenced''\<rparr> else r)"
      using change_fence by (auto simp: fenced_state_def)
    moreover from this(1) inv have "rec_ok l r" by (simp add: state_inv_def)
    ultimately show "\<exists>r. map_of (ds_transactions s) k = Some r \<and> tr_id r' = tr_id r \<and> rec_ok l r'
        \<and> (is_active (tr_status r') \<longrightarrow> is_active (tr_status r) \<and> tr_producer r' = tr_producer r
             \<and> tr_producer_epoch r' = tr_producer_epoch r
             \<and> current_epoch s' (tr_producer r) = current_epoch s (tr_producer r))"
      using epochs by (auto simp: fenced_by_def)
  qed
next
  case (change_begin r)
  with state_inv_begin [OF inv] show ?thesis by simp
next
  case (change_work txid r d r')
  show ?thesis
    by (rule state_inv_pointwise [OF inv])
      (use change_work inv in \<open>auto simp: update_transaction_def state_inv_def split: if_splits\<close>)
next
  case (change_status txid r st)
  show ?thesis
    by (rule state_inv_pointwise [OF inv])
      (use change_status inv in \<open>auto simp: update_transaction_def state_inv_def split: if_splits\<close>)
next
  case (change_commit txid r)
  show ?thesis
    by (rule state_inv_pointwise [OF inv])
      (use change_commit inv in \<open>auto simp: update_transaction_def state_inv_def split: if_splits\<close>)
next
  case (change_recover now)
  show ?thesis
    by (rule state_inv_pointwise [OF inv])
      (use change_recover inv in \<open>auto simp: recovered_state_def state_inv_def split: if_splits\<close>)
qed

subsection \<open>Changes and visibility\<close>

text \<open>
  The frame of a change that is not a commit: no record becomes committed, and a terminal
  record stays as it is or is pruned.
\<close>

definition tx_frame :: "durable_state \<Rightarrow> durable_state \<Rightarrow> bool" where
  "tx_frame s s' \<longleftrightarrow>
     (\<forall>k r'. map_of (ds_transactions s') k = Some r' \<and> tr_status r' = Committed \<longrightarrow>
        map_of (ds_transactions s) k = Some r')
     \<and> (\<forall>k r. map_of (ds_transactions s) k = Some r \<and> \<not> is_active (tr_status r) \<longrightarrow>
          map_of (ds_transactions s') k = Some r \<or> map_of (ds_transactions s') k = None)
     \<and> (\<forall>q. current_epoch s q \<le> current_epoch s' q)"

lemma tx_frame_refl [simp]: "tx_frame s s"
  by (simp add: tx_frame_def)

lemma tx_frame_trans:
  assumes "tx_frame s t" and "tx_frame t u"
    and fresh: "\<And>k. map_of (ds_transactions s) k \<noteq> None \<Longrightarrow> map_of (ds_transactions t) k = None \<Longrightarrow>
           map_of (ds_transactions u) k = None"
  shows "tx_frame s u"
proof -
  have "map_of (ds_transactions u) k = Some r \<or> map_of (ds_transactions u) k = None"
    if "map_of (ds_transactions s) k = Some r" "\<not> is_active (tr_status r)" for k r
    using that assms(1,2) fresh [of k] unfolding tx_frame_def by (metis option.distinct(1))
  then show ?thesis
    using assms(1,2) unfolding tx_frame_def by (meson le_trans)
qed

lemma change_frame:
  assumes "tx_change l None s ds s'" and inv: "state_inv l s"
  shows "tx_frame s s'"
proof -
  have wf: "bt_wf (ds_transactions s)" "bt_wf (ds_producer_epochs s)" using inv by (simp_all add: state_inv_def)
  from assms(1) show ?thesis
  proof cases
    case (change_fence p epoch)
    have "tx_frame s (fenced_state p epoch s)" if "current_epoch s p < epoch"
      using that current_epoch_fenced [OF wf(2)]
      by (auto simp: tx_frame_def fenced_by_def fenced_state_def [of p epoch s, THEN arg_cong [where f = ds_transactions]]
          split: if_splits)
    with change_fence show ?thesis by simp
  qed (use wf in \<open>auto simp: tx_frame_def update_transaction_def recovered_state_def timed_out_def
      current_epoch_def split: if_splits\<close>)
qed


subsection \<open>Checkpoints\<close>

lemma prune_terminal_law:
  assumes inv: "state_inv l s"
  shows "state_inv l (prune_terminal l s)" and "tx_frame s (prune_terminal l s)"
    and "\<And>k. map_of (ds_transactions (prune_terminal l s)) k \<in> {None, map_of (ds_transactions s) k}"
    and "current_epoch (prune_terminal l s) = current_epoch s"
proof -
  let ?m = "ds_transactions s"
  let ?terminal = "map fst (filter (\<lambda>(_, r). \<not> is_active (tr_status r)) ?m)"
  have wf: "bt_wf ?m" "bt_wf (ds_producer_epochs s)" using inv by (simp_all add: state_inv_def)
  obtain ks where ks: "ds_transactions (prune_terminal l s) = fold bt_remove ks ?m" "set ks \<subseteq> set ?terminal"
  proof (cases "length ?terminal > max (sat_mul64 (tl_max_concurrent l) 16) 64")
    case True
    then have "ds_transactions (prune_terminal l s) =
        fold bt_remove (take (length ?terminal - max (sat_mul64 (tl_max_concurrent l) 16) 64) ?terminal) ?m"
      by (simp add: prune_terminal_def Let_def)
    moreover have "set (take (length ?terminal - max (sat_mul64 (tl_max_concurrent l) 16) 64) ?terminal) \<subseteq> set ?terminal"
      by (rule set_take_subset)
    ultimately show thesis by (rule that)
  next
    case False
    then have "prune_terminal l s = s" unfolding prune_terminal_def Let_def by (simp only: if_False length_map)
    then have "ds_transactions (prune_terminal l s) = ?m" by simp
    then show thesis using that [of "[]"] by simp
  qed
  have ep: "ds_producer_epochs (prune_terminal l s) = ds_producer_epochs s"
    by (simp add: prune_terminal_def Let_def)
  then show cur: "current_epoch (prune_terminal l s) = current_epoch s"
    by (simp add: current_epoch_def fun_eq_iff)
  have look: "map_of (ds_transactions (prune_terminal l s)) k = (if k \<in> set ks then None else map_of ?m k)" for k
    using bt.get_fold_del [OF wf(1)] ks(1) by simp
  then show "map_of (ds_transactions (prune_terminal l s)) k \<in> {None, map_of ?m k}" for k by simp
  have wf': "bt_wf (ds_transactions (prune_terminal l s))"
    using bt.wf_fold_del [OF wf(1)] ks(1) by simp
  show "state_inv l (prune_terminal l s)"
  proof (rule state_inv_pointwise [OF inv wf'])
    show "bt_wf (ds_producer_epochs (prune_terminal l s))" using ep wf by simp
    fix k r' assume "map_of (ds_transactions (prune_terminal l s)) k = Some r'"
    then have "map_of ?m k = Some r'" using look by (simp split: if_splits)
    moreover from this inv have "rec_ok l r'" by (simp add: state_inv_def)
    ultimately show "\<exists>r. map_of ?m k = Some r \<and> tr_id r' = tr_id r \<and> rec_ok l r'
        \<and> (is_active (tr_status r') \<longrightarrow> is_active (tr_status r) \<and> tr_producer r' = tr_producer r
             \<and> tr_producer_epoch r' = tr_producer_epoch r
             \<and> current_epoch (prune_terminal l s) (tr_producer r) = current_epoch s (tr_producer r))"
      using cur by simp
  qed
  show "tx_frame s (prune_terminal l s)"
    using look cur by (simp add: tx_frame_def split: if_splits)
qed

lemma prune_keeps_active:
  assumes inv: "state_inv l s" and r: "map_of (ds_transactions s) k = Some r" "is_active (tr_status r)"
  shows "map_of (ds_transactions (prune_terminal l s)) k = Some r"
proof -
  let ?m = "ds_transactions s"
  let ?terminal = "map fst (filter (\<lambda>(_, r). \<not> is_active (tr_status r)) ?m)"
  have wf: "bt_wf ?m" using inv by (simp add: state_inv_def)
  have "k \<notin> set ?terminal"
    using r(2) eq_key_imp_eq_value [OF bt_wf_distinct [OF wf] map_of_SomeD [OF r(1)]] by auto
  then have "k \<notin> set (take n ?terminal)" for n by (meson in_set_takeD)
  then have "map_of (fold bt_remove (take n ?terminal) ?m) k = Some r" for n
    using bt.get_fold_del [OF wf] r(1) by simp
  with r(1) show ?thesis unfolding prune_terminal_def Let_def by simp
qed

lemma append_deltas_state:
  "append_deltas cd ds c dk = (c', dk') \<Longrightarrow>
     tc_limits c' = tc_limits c \<and> tc_durable c' = tc_durable c
     \<and> (tc_state c' = tc_state c \<or> tc_state c' = prune_terminal (tc_limits c) (tc_state c))"
  by (auto simp: append_deltas_def checkpoint_def Let_def split: if_splits)

lemma replay_append:
  "replay cd (ls @ ms) c = (case replay cd ls c of Err x \<Rightarrow> Err x | Ok c' \<Rightarrow> replay cd ms c')"
  by (induction cd ls c rule: replay.induct) (auto split: option.splits sum.splits)

lemma replay_lines:
  assumes "codec_ok cd"
  shows "replay cd (map (journal_line cd) ds) c =
     (case apply_all ds (tc_state c) of
        Err x \<Rightarrow> Err x
      | Ok s \<Rightarrow> Ok (c\<lparr>tc_state := s, tc_journal_entries := tc_journal_entries c + length ds\<rparr>))"
proof (induction ds arbitrary: c)
  case Nil
  then show ?case by simp
next
  case (Cons d ds)
  have "cod_decode_entry cd (journal_line cd d) =
      Some \<lparr>je_delta = d, je_checksum = cod_crc32 cd (cod_encode_delta cd d)\<rparr>"
    and "\<not> cod_blank cd (journal_line cd d)"
    using assms by (simp_all add: codec_ok_def journal_line_def)
  with Cons show ?case by (auto split: sum.splits)
qed

text \<open>What a restart finds: the coordinator itself.\<close>

definition recoverable :: "('s, 'l, 'b) txn_codec \<Rightarrow> ('s, 'l) tx_world \<Rightarrow> bool" where
  "recoverable cd w \<longleftrightarrow> (tc_durable (fst w) \<longrightarrow> tx_open cd (snd w) (tc_limits (fst w)) = Ok (fst w))"

lemma checkpoint_recoverable:
  assumes "codec_ok cd" and "validate_limits (tc_limits c) = Ok ()"
  shows "recoverable cd (checkpoint cd c dk) \<or> \<not> tc_durable c"
  using assms
  by (auto simp: recoverable_def checkpoint_def tx_open_def codec_ok_def Let_def)

lemma append_recoverable:
  assumes cd: "codec_ok cd" and rec: "recoverable cd (c, dk)" and app: "apply_all ds (tc_state c) = Ok s'"
  shows "recoverable cd (append_deltas cd ds (c\<lparr>tc_state := s'\<rparr>) dk)"
proof (cases "tc_durable c \<and> ds \<noteq> []")
  case False
  then show ?thesis using rec app by (auto simp: append_deltas_def recoverable_def)
next
  case True
  let ?lines = "(case dk_journal dk of None \<Rightarrow> [] | Some ls \<Rightarrow> ls)"
  let ?dk = "dk\<lparr>dk_journal := Some (?lines @ map (journal_line cd) ds)\<rparr>"
  let ?c = "c\<lparr>tc_state := s', tc_journal_entries := tc_journal_entries c + length ds\<rparr>"
  have opened: "tx_open cd dk (tc_limits c) = Ok c" using rec True by (simp add: recoverable_def)
  then have lim: "validate_limits (tc_limits c) = Ok ()"
    by (cases "validate_limits (tc_limits c)") (simp_all add: tx_open_def)
  from opened obtain c0 where c0: "replay cd ?lines c0 = Ok c"
    and open_eq: "\<And>ls. tx_open cd (dk\<lparr>dk_journal := Some ls\<rparr>) (tc_limits c) = replay cd ls c0"
    using lim by (auto simp: tx_open_def Let_def split: option.splits)
  have "tx_open cd ?dk (tc_limits c) = Ok ?c"
    using c0 open_eq replay_lines [OF cd, of ds c] app by (simp add: replay_append)
  then have plain: "recoverable cd (?c, ?dk)" by (simp add: recoverable_def)
  have "append_deltas cd ds (c\<lparr>tc_state := s'\<rparr>) dk =
      (if tc_journal_entries ?c \<ge> 64 then checkpoint cd ?c ?dk else (?c, ?dk))"
    using True by (simp add: append_deltas_def Let_def)
  with plain checkpoint_recoverable [OF cd, of ?c ?dk] lim True show ?thesis by auto
qed


section \<open>Every call is a sequence of journalled changes\<close>

definition tx_inv :: "('s, 'l, 'b) txn_codec \<Rightarrow> ('s, 'l) tx_world \<Rightarrow> bool" where
  "tx_inv cd w \<longleftrightarrow>
     state_inv (tc_limits (fst w)) (tc_state (fst w)) \<and> recoverable cd w
     \<and> tl_max_bytes (tc_limits (fst w)) < u64_max"

lemma write_law:
  assumes cd: "codec_ok cd" and inv: "tx_inv cd w" and wr: "tx_write cd com w w'"
  shows "tx_inv cd w'" and "tc_limits (fst w') = tc_limits (fst w)"
    and "com = None \<Longrightarrow> tx_frame (tc_state (fst w)) (tc_state (fst w'))"
proof -
  let ?l = "tc_limits (fst w)" and ?s = "tc_state (fst w)"
  from wr obtain ds s' where ch: "tx_change ?l com ?s ds s'"
    and w': "w' = append_deltas cd ds ((fst w)\<lparr>tc_state := s'\<rparr>) (snd w)"
    by (auto simp: tx_write_def)
  have s: "state_inv ?l ?s" using inv by (simp add: tx_inv_def)
  note inv' = change_inv [OF ch s]
  note prune = prune_terminal_law [OF inv']
  have st: "tc_limits (fst w') = ?l" "tc_state (fst w') = s' \<or> tc_state (fst w') = prune_terminal ?l s'"
    using append_deltas_state [of cd ds "(fst w)\<lparr>tc_state := s'\<rparr>" "snd w" "fst w'" "snd w'"] w' by auto
  show "tc_limits (fst w') = ?l" by (rule st(1))
  have "recoverable cd w'"
    unfolding w' by (rule append_recoverable [OF cd _ change_apply [OF ch s]])
      (use inv in \<open>simp add: tx_inv_def\<close>)
  with st inv inv' prune(1) show "tx_inv cd w'" by (auto simp: tx_inv_def)
  show "tx_frame ?s (tc_state (fst w'))" if "com = None"
  proof -
    have f: "tx_frame ?s s'" using change_frame ch s that by simp
    moreover have "tx_frame ?s (prune_terminal ?l s')"
      by (rule tx_frame_trans [OF f prune(2)]) (use prune(3) in fastforce)
    ultimately show ?thesis using st(2) by auto
  qed
qed

lemma update_const:
  "bt_wf (ds_transactions s) \<Longrightarrow> map_of (ds_transactions s) txid = Some r \<Longrightarrow>
     update_transaction txid f s = update_transaction txid (\<lambda>_. f r) s"
  by (rule durable_state_ext) (auto simp: update_transaction_def fun_eq_iff)

lemma with_open_write:
  assumes inv: "tx_inv cd (c, dk)" and run: "with_open cd txid now d op c dk = (res, w')"
    and op: "\<And>r r'. op r (tc_limits c) = Ok r' \<Longrightarrow> rec_ok (tc_limits c) r \<Longrightarrow>
        r' = f r \<and> rec_ok (tc_limits c) r' \<and> tr_id r' = tr_id r \<and> tr_status r' = tr_status r
        \<and> tr_producer r' = tr_producer r \<and> tr_producer_epoch r' = tr_producer_epoch r"
    and d: "apply_delta d (tc_state c) = apply_to txid f (tc_state c)"
  shows "w' = (c, dk) \<or> tx_write cd None (c, dk) w'"
proof (cases "w' = (c, dk)")
  case False
  have s: "state_inv (tc_limits c) (tc_state c)" using inv by (simp add: tx_inv_def)
  then have wf: "bt_wf (ds_transactions (tc_state c))" by (simp add: state_inv_def)
  from False run obtain r r' where r: "map_of (ds_transactions (tc_state c)) txid = Some r"
    "tr_status r = TxOpen" "op r (tc_limits c) = Ok r'"
    and w': "w' = append_deltas cd [d] (c\<lparr>tc_state := update_transaction txid (\<lambda>_. r') (tc_state c)\<rparr>) dk"
    by (auto simp: with_open_def split: option.splits sum.splits if_splits)
  have "rec_ok (tc_limits c) r" using s r(1) by (simp add: state_inv_def)
  note r' = op [OF r(3) this]
  have "apply_delta d (tc_state c) = Ok (update_transaction txid (\<lambda>_. r') (tc_state c))"
    using d r(1) r' update_const [OF wf r(1), of f] by (simp add: apply_to_def bt_contains_def)
  from change_work [OF r(1,2) this, of "tc_limits c"] r' r(2)
  have "tx_change (tc_limits c) None (tc_state c) [d] (update_transaction txid (\<lambda>_. r') (tc_state c))" by auto
  then show ?thesis unfolding tx_write_def using w' by auto
qed simp

lemma partition_count_mono: "partition_count r None \<le> partition_count r x"
  unfolding partition_count_def by (rule card_mono) auto

lemma append_op_law:
  assumes "append_op w r l = Ok r'" and "rec_ok l r" and "tl_max_bytes l < u64_max"
  shows "r' = r\<lparr>tr_writes := tr_writes r @ [w]\<rparr> \<and> rec_ok l r'"
  using assms
  by (auto simp: append_op_def rec_ok_def message_count_def total_bytes_def partition_count_def
      sat_add64_le_iff split: if_splits)

lemma offset_op_law:
  assumes "offset_op oc r l = Ok r'" and "rec_ok l r"
  shows "r' = r\<lparr>tr_offsets := tr_offsets r @ [oc]\<rparr> \<and> rec_ok l r'"
  using assms
  by (auto simp: offset_op_def rec_ok_def message_count_def total_bytes_def partition_count_def
      split: if_splits)

lemma view_op_law:
  assumes "view_op v r l = Ok r'" and "rec_ok l r" and "tl_max_bytes l < u64_max"
  shows "r' = r\<lparr>tr_views := tr_views r @ [v]\<rparr> \<and> rec_ok l r'"
  using assms
  by (auto simp: view_op_def rec_ok_def message_count_def total_bytes_def partition_count_def
      sat_add64_le_iff split: if_splits)

lemma set_status_write:
  "map_of (ds_transactions (tc_state c)) txid = Some r \<Longrightarrow> is_active (tr_status r) \<Longrightarrow> st \<noteq> Committed \<Longrightarrow>
     tx_write cd None (c, dk) (set_status cd txid st c dk)"
  unfolding tx_write_def set_status_def using change_status by fastforce

lemma fence_write:
  "current_epoch (tc_state c) p < epoch \<Longrightarrow> tx_write cd None (c, dk) (fence_producer cd p epoch c dk)"
  unfolding tx_write_def fence_producer_def Let_def
  using change_fence [of "tc_state c" p epoch "tc_limits c"] by (auto simp: fenced_state_def)

lemma recover_write: "tx_write cd None (c, dk) (snd (tx_recover cd now c dk))"
  unfolding tx_write_def tx_recover_def Let_def
  using change_recover [of "tc_limits c" "tc_state c" now] by (auto simp: recovered_state_def)


lemma fence_result:
  assumes cd: "codec_ok cd" and inv: "tx_inv cd (c, dk)" and "current_epoch (tc_state c) p \<le> epoch"
    and w1: "w1 = (if epoch > current_epoch (tc_state c) p then fence_producer cd p epoch c dk else (c, dk))"
  shows "tx_inv cd w1 \<and> tc_limits (fst w1) = tc_limits c \<and> tx_frame (tc_state c) (tc_state (fst w1))
    \<and> current_epoch (tc_state (fst w1)) p = epoch
    \<and> (\<forall>k. map_of (ds_transactions (tc_state c)) k = None \<longrightarrow> map_of (ds_transactions (tc_state (fst w1))) k = None)"
proof (cases "epoch > current_epoch (tc_state c) p")
  case False
  with assms show ?thesis by simp
next
  case True
  have wr: "tx_write cd None (c, dk) w1" using fence_write [OF True] w1 True by simp
  have s: "state_inv (tc_limits c) (tc_state c)" using inv by (simp add: tx_inv_def)
  then have wf: "bt_wf (ds_producer_epochs (tc_state c))" by (simp add: state_inv_def)
  let ?f = "fenced_state p epoch (tc_state c)"
  have "tc_state (fst w1) = ?f \<or> tc_state (fst w1) = prune_terminal (tc_limits c) ?f"
    using append_deltas_state [of cd _ "c\<lparr>tc_state := ?f\<rparr>" dk "fst w1" "snd w1"] w1 True
    by (simp add: fence_producer_def fenced_state_def Let_def)
  moreover have "state_inv (tc_limits c) ?f"
    using change_inv [OF change_fence [OF True] s] .
  note prune = prune_terminal_law(3,4) [OF this]
  moreover have "current_epoch ?f p = epoch" using current_epoch_fenced [OF wf] by simp
  moreover have "map_of (ds_transactions ?f) k = None" if "map_of (ds_transactions (tc_state c)) k = None" for k
    using that by (simp add: fenced_state_def)
  ultimately have "current_epoch (tc_state (fst w1)) p = epoch
    \<and> (\<forall>k. map_of (ds_transactions (tc_state c)) k = None \<longrightarrow> map_of (ds_transactions (tc_state (fst w1))) k = None)"
    by (metis insertE singletonD)
  with write_law [OF cd inv wr] show ?thesis by simp
qed

lemma begin_law:
  assumes cd: "codec_ok cd" and inv: "tx_inv cd (c, dk)"
    and run: "tx_begin cd txid tenant producer epoch now c dk = (res, w')"
  shows "tx_inv cd w' \<and> tc_limits (fst w') = tc_limits c \<and> tx_frame (tc_state c) (tc_state (fst w'))"
proof (cases "w' = (c, dk)")
  case True
  with inv show ?thesis by simp
next
  case False
  let ?w1 = "if epoch > current_epoch (tc_state c) producer then fence_producer cd producer epoch c dk else (c, dk)"
  let ?c1 = "fst ?w1" and ?s1 = "tc_state (fst ?w1)"
  let ?r = "\<lparr>tr_id = txid, tr_tenant = tenant, tr_producer = producer, tr_producer_epoch = epoch,
             tr_started_at_ms = now, tr_deadline_ms = sat_add64 now (tl_max_duration_ms (tc_limits ?c1)),
             tr_status = TxOpen, tr_writes = [], tr_offsets = [], tr_views = []\<rparr>"
  let ?w2 = "append_deltas cd [DBegin ?r]
     (?c1\<lparr>tc_state := ?s1\<lparr>ds_transactions := bt_insert txid ?r (ds_transactions ?s1)\<rparr>\<rparr>) (snd ?w1)"
  from False run have new: "map_of (ds_transactions (tc_state c)) txid = None"
    by (auto simp: tx_begin_def split: option.splits if_splits)
  have ep: "current_epoch (tc_state c) producer \<le> epoch"
    by (rule ccontr) (use False run new in \<open>auto simp: tx_begin_def Let_def split: if_splits\<close>)
  from False run new ep have w': "w' = ?w1 \<or> active_count ?s1 < tl_max_concurrent (tc_limits ?c1) \<and> w' = ?w2"
    by (auto simp: tx_begin_def Let_def split: if_splits prod.splits)
  note fence = fence_result [OF cd inv ep refl]
  show ?thesis
  proof (cases "w' = ?w1")
    case True
    with fence show ?thesis by simp
  next
    case False
    with w' have act: "active_count ?s1 < tl_max_concurrent (tc_limits ?c1)" and w2: "w' = ?w2" by auto
    have "rec_ok (tc_limits ?c1) ?r"
      by (simp add: rec_ok_def message_count_def total_bytes_def partition_count_def)
    with change_begin [of ?s1 ?r "tc_limits ?c1"] act fence new
    have "tx_change (tc_limits ?c1) None ?s1 [DBegin ?r]
        (?s1\<lparr>ds_transactions := bt_insert txid ?r (ds_transactions ?s1)\<rparr>)" by simp
    then have wr: "tx_write cd None ?w1 w'" unfolding tx_write_def w2 by blast
    have inv1: "tx_inv cd ?w1" using fence by blast
    note law = write_law [OF cd inv1 wr]
    have "tx_frame (tc_state c) (tc_state (fst w'))"
    proof (rule tx_frame_trans [where t = ?s1])
      show "tx_frame (tc_state c) ?s1" using fence by blast
      show "tx_frame ?s1 (tc_state (fst w'))" using law(3) by simp
      fix k assume k: "map_of (ds_transactions (tc_state c)) k \<noteq> None" "map_of (ds_transactions ?s1) k = None"
      let ?s2 = "?s1\<lparr>ds_transactions := bt_insert txid ?r (ds_transactions ?s1)\<rparr>"
      have wf1: "bt_wf (ds_transactions ?s1)" using inv1 by (simp add: tx_inv_def state_inv_def)
      from k new have "k \<noteq> txid" by auto
      then have k2: "map_of (ds_transactions ?s2) k = None" using k(2) wf1 by simp
      have "state_inv (tc_limits ?c1) ?s2"
        using change_inv [OF \<open>tx_change _ _ _ _ _\<close>] inv1 by (simp add: tx_inv_def)
      from prune_terminal_law(3) [OF this, of k] k2
      have "map_of (ds_transactions (prune_terminal (tc_limits ?c1) ?s2)) k = None" by auto
      moreover have "tc_state (fst w') = ?s2 \<or> tc_state (fst w') = prune_terminal (tc_limits ?c1) ?s2"
        using append_deltas_state [of cd "[DBegin ?r]" "?c1\<lparr>tc_state := ?s2\<rparr>" "snd ?w1" "fst w'" "snd w'"] w2
        by simp
      ultimately show "map_of (ds_transactions (tc_state (fst w'))) k = None" using k2 by metis
    qed
    with law fence show ?thesis by simp
  qed
qed

end
