(* ===== verification/Transaction_Safety.thy ===== *)
theory Transaction_Safety
  imports Transaction_Recovery
begin

text \<open>
  The properties of the transaction coordinator: a restart finds the coordinator it left, a
  batch becomes visible only by the commit of a prepared transaction and never changes
  afterwards, the limits bound every transaction, and a fenced producer stays fenced. At the
  end, the two crash points at which the recovery property does not hold.
\<close>

section \<open>Calls keep the invariant\<close>

lemma commit_law:
  assumes cd: "codec_ok cd" and inv: "tx_inv cd (c, dk)" and run: "tx_commit cd txid now c dk = (res, w')"
  obtains (refused) x where "res = Err x" "w' = (c, dk)"
  | (committed) r where "map_of (ds_transactions (tc_state c)) txid = Some r" "tr_status r = Prepared"
      "now \<le> tr_deadline_ms r" "res = Ok (committed_batch_of r)" "tx_write cd (Some txid) (c, dk) w'"
      "map_of (ds_transactions (tc_state (fst w'))) txid \<in> {None, Some (r\<lparr>tr_status := Committed\<rparr>)}"
      "\<forall>k. k \<noteq> txid \<longrightarrow> map_of (ds_transactions (tc_state (fst w'))) k
         \<in> {None, map_of (ds_transactions (tc_state c)) k}"
      "current_epoch (tc_state (fst w')) = current_epoch (tc_state c)"
      "\<forall>k r. k \<noteq> txid \<and> map_of (ds_transactions (tc_state c)) k = Some r \<and> is_active (tr_status r) \<longrightarrow>
         map_of (ds_transactions (tc_state (fst w'))) k = Some r"
proof (cases "\<exists>r. map_of (ds_transactions (tc_state c)) txid = Some r \<and> now \<le> tr_deadline_ms r
    \<and> tr_status r = Prepared")
  case False
  with run have "\<exists>x. res = Err x \<and> w' = (c, dk)"
    by (auto simp: tx_commit_def ensure_live_def split: option.splits if_splits)
  with refused show thesis by blast
next
  case True
  then obtain r where r: "map_of (ds_transactions (tc_state c)) txid = Some r" "now \<le> tr_deadline_ms r"
    "tr_status r = Prepared" by blast
  let ?s' = "update_transaction txid (\<lambda>r. r\<lparr>tr_status := Committed\<rparr>) (tc_state c)"
  have res: "res = Ok (committed_batch_of r)" and w': "w' = set_status cd txid Committed c dk"
    using run r by (auto simp: tx_commit_def ensure_live_def committed_batch_of_def)
  have ch: "tx_change (tc_limits c) (Some txid) (tc_state c) [DStatus txid Committed] ?s'"
    by (rule change_commit [OF r(1,3)])
  have wr: "tx_write cd (Some txid) (c, dk) w'"
    unfolding tx_write_def w' set_status_def using ch by fastforce
  have s: "state_inv (tc_limits c) (tc_state c)" using inv by (simp add: tx_inv_def)
  note inv' = change_inv [OF ch s]
  note prune = prune_terminal_law [OF inv']
  have st: "tc_state (fst w') = ?s' \<or> tc_state (fst w') = prune_terminal (tc_limits c) ?s'"
    using append_deltas_state [of cd _ "c\<lparr>tc_state := ?s'\<rparr>" dk "fst w'" "snd w'"] w'
    by (simp add: set_status_def)
  have at: "map_of (ds_transactions ?s') txid = Some (r\<lparr>tr_status := Committed\<rparr>)"
    using r(1) by (simp add: update_transaction_def)
  have other: "map_of (ds_transactions ?s') k = map_of (ds_transactions (tc_state c)) k" if "k \<noteq> txid" for k
    using that by (simp add: update_transaction_def)
  have sub: "map_of (ds_transactions (tc_state (fst w'))) k \<in> {None, map_of (ds_transactions ?s') k}" for k
    using st prune(3) [of k] by auto
  have kept: "map_of (ds_transactions (tc_state (fst w'))) k = Some x"
    if "map_of (ds_transactions ?s') k = Some x" "is_active (tr_status x)" for k x
    using st that prune_keeps_active [OF inv' that] by auto
  have epochs: "current_epoch (tc_state (fst w')) = current_epoch (tc_state c)"
    using st prune(4) by (auto simp: fun_eq_iff)
  show thesis
  proof (rule committed [OF r(1,3,2) res wr _ _ epochs])
    show "map_of (ds_transactions (tc_state (fst w'))) txid \<in> {None, Some (r\<lparr>tr_status := Committed\<rparr>)}"
      using sub [of txid] at by simp
    show "\<forall>k. k \<noteq> txid \<longrightarrow> map_of (ds_transactions (tc_state (fst w'))) k
         \<in> {None, map_of (ds_transactions (tc_state c)) k}"
      using sub other by metis
    show "\<forall>k r. k \<noteq> txid \<and> map_of (ds_transactions (tc_state c)) k = Some r \<and> is_active (tr_status r) \<longrightarrow>
         map_of (ds_transactions (tc_state (fst w'))) k = Some r"
      using kept other by metis
  qed
qed


lemma exec_law:
  assumes cd: "codec_ok cd" and inv: "tx_inv cd w" and run: "tx_exec cd call w = (res, w')"
  shows "tx_inv cd w' \<and> tc_limits (fst w') = tc_limits (fst w)
    \<and> ((\<forall>txid now. call \<noteq> CCommit txid now) \<longrightarrow> tx_frame (tc_state (fst w)) (tc_state (fst w')))"
proof -
  obtain c dk where w: "w = (c, dk)" by (cases w)
  note inv' = inv [unfolded w]
  have bytes: "tl_max_bytes (tc_limits c) < u64_max" using inv' by (simp add: tx_inv_def)
  have upto: "?thesis" if "w' = w \<or> tx_write cd None w w'"
    using that
  proof
    assume "w' = w"
    with inv show ?thesis by simp
  next
    assume wr: "tx_write cd None w w'"
    from write_law [OF cd inv wr] show ?thesis by simp
  qed
  show ?thesis
  proof (cases call)
    case (CBegin txid tenant producer epoch now)
    then obtain r0 where "tx_begin cd txid tenant producer epoch now c dk = (r0, w')"
      using run w by (auto simp: apfst_def map_prod_def split: prod.splits)
    from begin_law [OF cd inv' this] w show ?thesis by simp
  next
    case (CAppend txid x now)
    then obtain r0 where "with_open cd txid now (DWrite txid x) (append_op x) c dk = (r0, w')"
      using run w by (auto simp: tx_append_def apfst_def map_prod_def split: prod.splits)
    from with_open_write [OF inv' this, of "\<lambda>r. r\<lparr>tr_writes := tr_writes r @ [x]\<rparr>"]
    have "w' = (c, dk) \<or> tx_write cd None (c, dk) w'"
      using append_op_law bytes by fastforce
    with upto w show ?thesis by simp
  next
    case (CCommitOffset txid x now)
    then obtain r0 where "with_open cd txid now (DOffset txid x) (offset_op x) c dk = (r0, w')"
      using run w by (auto simp: tx_commit_offset_def apfst_def map_prod_def split: prod.splits)
    from with_open_write [OF inv' this, of "\<lambda>r. r\<lparr>tr_offsets := tr_offsets r @ [x]\<rparr>"]
    have "w' = (c, dk) \<or> tx_write cd None (c, dk) w'"
      using offset_op_law by fastforce
    with upto w show ?thesis by simp
  next
    case (CMutateView txid x now)
    then obtain r0 where "with_open cd txid now (DView txid x) (view_op x) c dk = (r0, w')"
      using run w by (auto simp: tx_mutate_view_def apfst_def map_prod_def split: prod.splits)
    from with_open_write [OF inv' this, of "\<lambda>r. r\<lparr>tr_views := tr_views r @ [x]\<rparr>"]
    have "w' = (c, dk) \<or> tx_write cd None (c, dk) w'"
      using view_op_law bytes by fastforce
    with upto w show ?thesis by simp
  next
    case (CPrepare txid now)
    have "w' = (c, dk) \<or> (\<exists>r. map_of (ds_transactions (tc_state c)) txid = Some r \<and> tr_status r = TxOpen
        \<and> w' = set_status cd txid Prepared c dk)"
      using run w CPrepare by (auto simp: tx_prepare_def split: option.splits sum.splits if_splits)
    then have "w' = (c, dk) \<or> tx_write cd None (c, dk) w'"
      using set_status_write [of c txid _ Prepared cd dk] by auto
    with upto w show ?thesis by simp
  next
    case (CCommit txid now)
    then obtain r0 where "tx_commit cd txid now c dk = (r0, w')"
      using run w by (auto simp: apfst_def map_prod_def split: prod.splits)
    with cd inv' show ?thesis
    proof (cases rule: commit_law)
      case refused
      with inv w CCommit show ?thesis by simp
    next
      case (committed r)
      with write_law [OF cd inv' committed(5)] w CCommit show ?thesis by simp
    qed
  next
    case (CAbort txid reason)
    have "w' = (c, dk) \<or> (\<exists>r. map_of (ds_transactions (tc_state c)) txid = Some r \<and> is_active (tr_status r)
        \<and> w' = set_status cd txid (Aborted reason) c dk)"
      using run w CAbort by (auto simp: tx_abort_def split: option.splits if_splits)
    then have "w' = (c, dk) \<or> tx_write cd None (c, dk) w'"
      using set_status_write [of c txid _ "Aborted reason" cd dk] by auto
    with upto w show ?thesis by simp
  next
    case (CRecover now)
    then have "w' = snd (tx_recover cd now c dk)"
      using run w by (auto simp: apfst_def map_prod_def split: prod.splits)
    with recover_write [of cd c dk now] w have "tx_write cd None w w'" by simp
    with upto show ?thesis by blast
  next
    case CRestart
    then have "w' = w"
      using run w inv' by (auto simp: tx_inv_def recoverable_def split: sum.splits if_splits)
    with upto show ?thesis by simp
  qed
qed

lemma exec_epoch:
  assumes cd: "codec_ok cd" and inv: "tx_inv cd w" and run: "tx_exec cd call w = (res, w')"
  shows "current_epoch (tc_state (fst w)) p \<le> current_epoch (tc_state (fst w')) p"
proof (cases "\<exists>txid now. call = CCommit txid now")
  case True
  then obtain txid now r0 where "tx_commit cd txid now (fst w) (snd w) = (r0, w')"
    using run by (cases w) (auto simp: apfst_def map_prod_def split: prod.splits)
  moreover from inv have "tx_inv cd (fst w, snd w)" by simp
  ultimately show ?thesis
    using commit_law [OF cd, of "fst w" "snd w" txid now r0 w'] by fastforce
next
  case False
  with exec_law [OF assms] show ?thesis by (simp add: tx_frame_def)
qed

interpretation txn: monotone_epoch "\<lambda>w. codec_ok cd \<and> tx_init cd w" "tx_step cd"
  "\<lambda>w. codec_ok cd \<and> tx_inv cd w" "\<lambda>w. current_epoch (tc_state (fst w)) p"
  for cd :: "('s, 'l, 'b) txn_codec" and p
proof
  fix w w' :: "('s, 'l) tx_world"
  show "codec_ok cd \<and> tx_inv cd w" if "codec_ok cd \<and> tx_init cd w"
  proof -
    from that have dk: "snd w = empty_disk" and b: "tl_max_bytes (tc_limits (fst w)) < u64_max"
      and src: "tx_new (tc_limits (fst w)) = Ok (fst w) \<or> tx_open cd empty_disk (tc_limits (fst w)) = Ok (fst w)"
      by (auto simp: tx_init_def)
    from src have st: "tc_state (fst w) = default_state"
      by (auto simp: tx_new_def tx_open_def empty_disk_def split: sum.splits dest!: arg_cong [where f = tc_state])
    have "\<not> tc_durable (fst w)" if "tx_new (tc_limits (fst w)) = Ok (fst w)"
      using that by (auto simp: tx_new_def split: sum.splits dest!: arg_cong [where f = tc_durable])
    with src have d: "tc_durable (fst w) \<longrightarrow> tx_open cd empty_disk (tc_limits (fst w)) = Ok (fst w)" by blast
    have "state_inv (tc_limits (fst w)) default_state"
      by (simp add: state_inv_def default_state_def active_count_def)
    with st dk b d that show ?thesis by (simp add: tx_inv_def recoverable_def)
  qed
  assume inv: "codec_ok cd \<and> tx_inv cd w" and "tx_step cd w w'"
  then obtain call res where run: "tx_exec cd call w = (res, w')"
    by (metis prod.collapse tx_step_def)
  show "codec_ok cd \<and> tx_inv cd w'" using exec_law [OF _ _ run] inv by blast
  show "current_epoch (tc_state (fst w)) p \<le> current_epoch (tc_state (fst w')) p"
    using exec_epoch [OF _ _ run] inv by blast
qed

lemma reaches_tx_inv: "codec_ok cd \<Longrightarrow> reaches (tx_init cd) (tx_step cd) w \<Longrightarrow> tx_inv cd w"
  using txn.reaches_inv [of cd w] by simp


section \<open>A sample run\<close>

definition plain_codec :: "(durable_state, journal_entry, transaction_delta) txn_codec" where
  "plain_codec =
     \<lparr>cod_encode_state = (\<lambda>x. x), cod_decode_state = Some, cod_encode_delta = (\<lambda>d. d),
      cod_crc32 = (\<lambda>_. 0), cod_encode_entry = (\<lambda>e. e), cod_decode_entry = Some, cod_blank = (\<lambda>_. False)\<rparr>"

definition sample_limits :: transaction_limits where
  "sample_limits = \<lparr>tl_max_messages = 4, tl_max_bytes = 100, tl_max_partitions = 2,
     tl_max_duration_ms = 1000, tl_max_concurrent = 2\<rparr>"

definition sample_write :: transaction_write where
  "sample_write = \<lparr>tw_stream = ''orders'', tw_partition = 0, tw_offset = 5, tw_bytes = [1, 2]\<rparr>"

definition sample_coordinator :: transaction_coordinator where
  "sample_coordinator = \<lparr>tc_durable = True, tc_limits = sample_limits, tc_state = default_state, tc_journal_entries = 0\<rparr>"

type_synonym plain_world = "(durable_state, journal_entry) tx_world"

definition w_begun :: plain_world where
  "w_begun = snd (tx_exec plain_codec (CBegin ''t1'' ''acme'' ''p'' 1 0) (sample_coordinator, empty_disk))"

definition w_written :: plain_world where
  "w_written = snd (tx_exec plain_codec (CAppend ''t1'' sample_write 10) w_begun)"

definition w_prepared :: plain_world where
  "w_prepared = snd (tx_exec plain_codec (CPrepare ''t1'' 20) w_written)"

definition w_committed :: plain_world where
  "w_committed = snd (tx_exec plain_codec (CCommit ''t1'' 30) w_prepared)"

definition sample_record :: "transaction_status \<Rightarrow> transaction_write list \<Rightarrow> transaction_record" where
  "sample_record st ws = \<lparr>tr_id = ''t1'', tr_tenant = ''acme'', tr_producer = ''p'', tr_producer_epoch = 1,
     tr_started_at_ms = 0, tr_deadline_ms = 1000, tr_status = st, tr_writes = ws, tr_offsets = [], tr_views = []\<rparr>"

definition sample_world :: "transaction_record \<Rightarrow> transaction_delta list \<Rightarrow> plain_world" where
  "sample_world r ds =
     (\<lparr>tc_durable = True, tc_limits = sample_limits,
       tc_state = \<lparr>ds_transactions = [(''t1'', r)], ds_producer_epochs = [(''p'', 1)]\<rparr>,
       tc_journal_entries = length ds\<rparr>,
      \<lparr>dk_snapshot = None, dk_journal = Some (map (\<lambda>d. \<lparr>je_delta = d, je_checksum = 0\<rparr>) ds)\<rparr>)"

lemma plain_codec_ok: "codec_ok plain_codec"
  by (simp add: codec_ok_def plain_codec_def)

lemma w_begun_eval:
  "w_begun = sample_world (sample_record TxOpen []) [DProducerEpoch ''p'' 1, DBegin (sample_record TxOpen [])]"
  by (simp add: w_begun_def sample_coordinator_def tx_begin_def current_epoch_def default_state_def Let_def
      fence_producer_def append_deltas_def empty_disk_def active_count_def bt_map_values_def
      sample_world_def sample_record_def sample_limits_def plain_codec_def journal_line_def
      sat_add64_def u64_max_def)

lemma w_written_eval:
  "w_written = sample_world (sample_record TxOpen [sample_write])
     [DProducerEpoch ''p'' 1, DBegin (sample_record TxOpen []), DWrite ''t1'' sample_write]"
  unfolding w_written_def w_begun_eval
  by (simp add: tx_append_def with_open_def sample_world_def sample_record_def sample_limits_def ensure_live_def
      append_op_def message_count_def total_bytes_def partition_count_def sample_write_def sat_add64_def
      u64_max_def update_transaction_def bt_update_def append_deltas_def plain_codec_def journal_line_def)

lemma w_prepared_eval:
  "w_prepared = sample_world (sample_record Prepared [sample_write])
     [DProducerEpoch ''p'' 1, DBegin (sample_record TxOpen []), DWrite ''t1'' sample_write, DStatus ''t1'' Prepared]"
  unfolding w_prepared_def w_written_eval
  by (simp add: tx_prepare_def set_status_def sample_world_def sample_record_def ensure_live_def
      update_transaction_def bt_update_def append_deltas_def plain_codec_def journal_line_def)

lemma w_committed_run:
  "tx_exec plain_codec (CCommit ''t1'' 30) w_prepared =
     (Ok (Batch (committed_batch_of (sample_record Prepared [sample_write]))),
      sample_world (sample_record Committed [sample_write])
        [DProducerEpoch ''p'' 1, DBegin (sample_record TxOpen []), DWrite ''t1'' sample_write,
         DStatus ''t1'' Prepared, DStatus ''t1'' Committed])"
  unfolding w_prepared_eval
  by (simp add: tx_commit_def set_status_def sample_world_def sample_record_def ensure_live_def
      update_transaction_def bt_update_def append_deltas_def plain_codec_def journal_line_def
      committed_batch_of_def)

lemma w_prepared_reachable: "reaches (tx_init plain_codec) (tx_step plain_codec) w_prepared"
proof -
  have "tx_init plain_codec (sample_coordinator, empty_disk)"
    by (simp add: tx_init_def tx_open_def validate_limits_def sample_coordinator_def sample_limits_def
        empty_disk_def u64_max_def)
  then have "reaches (tx_init plain_codec) (tx_step plain_codec) (sample_coordinator, empty_disk)"
    by (rule reaches_init)
  moreover have "tx_step plain_codec (sample_coordinator, empty_disk) w_begun"
    "tx_step plain_codec w_begun w_written" "tx_step plain_codec w_written w_prepared"
    unfolding tx_step_def w_begun_def w_written_def w_prepared_def by blast+
  ultimately show ?thesis by (blast intro: reaches_step)
qed


section \<open>Properties\<close>

text \<open>
  C17. Recovery: between any two calls, reopening the files gives exactly the coordinator in
  memory, with every transaction, producer epoch and the journal length, whatever was
  checkpointed and pruned before.
\<close>

theorem restart_recovers_coordinator:
  assumes "codec_ok cd" and "reaches (tx_init cd) (tx_step cd) (c, dk)" and "tc_durable c"
  shows "tx_open cd dk (tc_limits c) = Ok c"
  using reaches_tx_inv [OF assms(1,2)] assms(3) by (simp add: tx_inv_def recoverable_def)

theorem restart_recovers_coordinator_witness:
  "tx_open plain_codec (snd w_prepared) sample_limits = Ok (fst w_prepared)
     \<and> tx_status ''t1'' (fst w_prepared) = Some Prepared"
  using restart_recovers_coordinator [OF plain_codec_ok, of "fst w_prepared" "snd w_prepared"]
    w_prepared_reachable
  by (simp add: w_prepared_eval) (simp add: sample_world_def tx_status_def sample_record_def)



text \<open>
  C19. Bounds: in every reachable state each transaction is within the message, byte and
  partition limits, and no more than \<open>max_concurrent\<close> transactions are open or prepared. (The
  byte limit is below \<open>u64::MAX\<close>, where the saturating comparison is exact.)
\<close>

theorem transaction_limits_respected:
  assumes "codec_ok cd" and "reaches (tx_init cd) (tx_step cd) (c, dk)"
  shows "active_count (tc_state c) \<le> tl_max_concurrent (tc_limits c)
    \<and> (\<forall>txid r. map_of (ds_transactions (tc_state c)) txid = Some r \<longrightarrow>
         length (tr_writes r) + length (tr_offsets r) + length (tr_views r) \<le> tl_max_messages (tc_limits c)
         \<and> total_bytes r \<le> tl_max_bytes (tc_limits c)
         \<and> partition_count r None \<le> tl_max_partitions (tc_limits c))"
  using reaches_tx_inv [OF assms] by (simp add: tx_inv_def state_inv_def rec_ok_def message_count_def)

theorem transaction_limits_respected_witness:
  "active_count (tc_state (fst w_prepared)) \<le> 2 \<and> total_bytes (sample_record Prepared [sample_write]) \<le> 100"
proof -
  have "map_of (ds_transactions (tc_state (fst w_prepared))) ''t1'' = Some (sample_record Prepared [sample_write])"
    "tc_limits (fst w_prepared) = sample_limits"
    by (simp_all add: w_prepared_eval sample_world_def)
  then show ?thesis
    using transaction_limits_respected [OF plain_codec_ok, of "fst w_prepared" "snd w_prepared"]
      w_prepared_reachable by (simp add: sample_limits_def)
qed

text \<open>
  C20. Producer fencing: once a producer's epoch is above \<open>e\<close>, in every later state no
  transaction it opened under \<open>e\<close> is open or prepared, and it cannot begin a new one.
\<close>

theorem fenced_producer_stays_fenced:
  assumes "codec_ok cd" and "reaches (tx_init cd) (tx_step cd) w" and "(tx_step cd)\<^sup>*\<^sup>* w (c, dk)"
    and "e < current_epoch (tc_state (fst w)) p"
  shows "(\<forall>txid r. map_of (ds_transactions (tc_state c)) txid = Some r \<and> tr_producer r = p
            \<and> tr_producer_epoch r = e \<longrightarrow> \<not> is_active (tr_status r))
    \<and> (map_of (ds_transactions (tc_state c)) txid = None \<longrightarrow>
         (\<exists>x. tx_begin cd txid tenant p e now c dk = (Err x, c, dk)))"
proof -
  have inv: "codec_ok cd \<and> tx_inv cd w" using reaches_tx_inv assms(1,2) by blast
  have "current_epoch (tc_state (fst w)) p \<le> current_epoch (tc_state c) p"
    using txn.epoch_steps [OF assms(3) inv, of p] by simp
  with assms(4) have lt: "e < current_epoch (tc_state c) p" by simp
  have "tx_inv cd (c, dk)" using txn.steps_inv [OF assms(3) inv] by blast
  then have "tr_producer_epoch r = current_epoch (tc_state c) (tr_producer r)"
    if "map_of (ds_transactions (tc_state c)) k = Some r" "is_active (tr_status r)" for k r
    using that by (simp add: tx_inv_def state_inv_def)
  then have "\<not> is_active (tr_status r)"
    if "map_of (ds_transactions (tc_state c)) k = Some r" "tr_producer r = p" "tr_producer_epoch r = e" for k r
    using that lt by fastforce
  moreover have "\<exists>x. tx_begin cd txid tenant p e now c dk = (Err x, c, dk)"
    if "map_of (ds_transactions (tc_state c)) txid = None"
    using that lt by (auto simp: tx_begin_def Let_def)
  ultimately show ?thesis by blast
qed

theorem fenced_producer_stays_fenced_witness:
  "\<exists>x. tx_begin plain_codec ''t2'' ''acme'' ''p'' 0 40 (fst w_prepared) (snd w_prepared)
      = (Err x, w_prepared)"
proof -
  have "current_epoch (tc_state (fst w_prepared)) ''p'' = 1"
    and none: "map_of (ds_transactions (tc_state (fst w_prepared))) ''t2'' = None"
    by (simp_all add: w_prepared_eval sample_world_def current_epoch_def)
  then show ?thesis
    using fenced_producer_stays_fenced [OF plain_codec_ok w_prepared_reachable,
        of "fst w_prepared" "snd w_prepared" 0 "''p''" "''t2''" "''acme''" 40]
    by simp
qed

section \<open>Crash points\<close>

text \<open>
  Between the rename of the new snapshot and the truncation of the journal, the files hold the
  new state and the deltas that led to it. A restart there applies the deltas again: a
  transaction begun before the previous checkpoint gets its writes twice.
\<close>

definition crash_world :: plain_world where
  "crash_world =
     (\<lparr>tc_durable = True, tc_limits = sample_limits,
       tc_state = \<lparr>ds_transactions = [(''t1'', sample_record Committed [sample_write])],
                   ds_producer_epochs = [(''p'', 1)]\<rparr>, tc_journal_entries = 3\<rparr>,
      \<lparr>dk_snapshot = Some \<lparr>ds_transactions = [(''t1'', sample_record TxOpen [])], ds_producer_epochs = [(''p'', 1)]\<rparr>,
       dk_journal = Some (map (journal_line plain_codec)
         [DWrite ''t1'' sample_write, DStatus ''t1'' Prepared, DStatus ''t1'' Committed])\<rparr>)"

definition snapshot_renamed :: "(durable_state, journal_entry) txn_disk" where
  "snapshot_renamed =
     (snd crash_world)\<lparr>dk_snapshot := Some (prune_terminal sample_limits (tc_state (fst crash_world)))\<rparr>"

theorem crash_in_checkpoint_duplicates_writes:
  "tx_open plain_codec (snd crash_world) sample_limits = Ok (fst crash_world)
   \<and> map_option cb_writes (visible_batch ''t1'' (fst crash_world)) = Some [sample_write]
   \<and> (\<exists>c'. tx_open plain_codec snapshot_renamed sample_limits = Ok c'
        \<and> map_option cb_writes (visible_batch ''t1'' c') = Some [sample_write, sample_write])"
  by (simp add: crash_world_def snapshot_renamed_def tx_open_def validate_limits_def sample_limits_def
      plain_codec_def journal_line_def apply_to_def bt_contains_def update_transaction_def bt_update_def
      sample_record_def visible_batch_def committed_batch_of_def prune_terminal_def Let_def)

text \<open>
  A journal whose last line was written only in part cannot be opened at all: the reader does
  not drop an incomplete last line.
\<close>

theorem torn_journal_line_blocks_open:
  assumes "validate_limits l = Ok ()" and "dk_snapshot dk = None"
    and "dk_journal dk = Some (map (journal_line cd) ds @ [line])" and "codec_ok cd"
    and "cod_decode_entry cd line = None" and "\<not> cod_blank cd line"
  shows "\<exists>x. tx_open cd dk l = Err x"
  using assms replay_lines [OF assms(4), of ds]
  by (auto simp: tx_open_def replay_append Let_def split: sum.splits)

end
