(* ===== verification/Reassignment.thy ===== *)
theory Reassignment
  imports Partition_Replication
begin

text \<open>
  Restartable partition movement of \<open>crates/server/src/reassignment.rs\<close>: the controller with
  the phases of a move and its snapshot file, the move throttle, and the two planners.

  The throttle's counters are words, because its additions can overflow: \<open>None\<close> is the panic of
  an overflowing \<open>+=\<close>. The controller's file is an argument that each call returns updated.
\<close>

section \<open>Data\<close>

datatype broker_lifecycle = Active | Draining | Decommissioned | Replacement

record broker_capacity =
  bc_node_id :: u64
  bc_region :: string
  bc_zone :: string
  bc_disk_capacity_bytes :: u64
  bc_disk_used_bytes :: u64
  bc_partition_count :: u32
  bc_leader_count :: u32
  bc_throughput_bytes_per_second :: u64
  bc_max_concurrent_moves :: u32
  bc_lifecycle :: broker_lifecycle

type_synonym load_key = "nat \<times> nat \<times> nat \<times> nat \<times> nat"

definition u128_max :: nat where
  "u128_max = 2 ^ 128 - 1"

definition disk_share :: "u64 \<Rightarrow> u64 \<Rightarrow> nat" where
  "disk_share used capacity = (if capacity = 0 then u128_max else used * 1000000 div capacity)"

definition broker_score :: "broker_capacity \<Rightarrow> load_key" where
  "broker_score b =
     (disk_share (bc_disk_used_bytes b) (bc_disk_capacity_bytes b), bc_partition_count b,
      bc_leader_count b, bc_throughput_bytes_per_second b, bc_node_id b)"

definition eligible :: "broker_capacity \<Rightarrow> bool" where
  "eligible b \<longleftrightarrow>
     (bc_lifecycle b = Active \<or> bc_lifecycle b = Replacement)
     \<and> bc_max_concurrent_moves b > 0 \<and> bc_disk_used_bytes b < bc_disk_capacity_bytes b"

record placement_constraints =
  pk_min_distinct_regions :: nat
  pk_min_distinct_zones :: nat
  pk_allowed_regions :: "string set"

record partition_placement =
  pl_stream :: string
  pl_partition :: u32
  pl_replicas :: "u64 set"
  pl_leader :: u64
  pl_constraints :: placement_constraints

record placement_move =
  mv_stream :: string
  mv_partition :: u32
  mv_from :: u64
  mv_to :: u64

datatype reassignment_phase =
    AddReplica | CatchingUp | TransferLeadership | RemoveReplica | Complete | RolledBack string

record reassignment =
  ra_id :: u64
  ra_stream :: string
  ra_partition :: u32
  ra_source :: u64
  ra_destination :: u64
  ra_source_epoch :: u64
  ra_phase :: reassignment_phase
  ra_last_high_watermark :: "u64 option"

record reassignment_progress =
  rg_high_watermark :: "u64 option"
  rg_destination :: replica_progress
  rg_quorum_available :: bool

section \<open>Move throttle\<close>

record move_throttle =
  mt_max_concurrent_moves :: "32 word"
  mt_max_bytes_per_window :: "64 word"
  mt_active_moves :: "32 word"
  mt_bytes_in_window :: "64 word"

definition throttle_new :: "32 word \<Rightarrow> 64 word \<Rightarrow> move_throttle" where
  "throttle_new moves bytes =
     \<lparr>mt_max_concurrent_moves = moves, mt_max_bytes_per_window = bytes, mt_active_moves = 0,
      mt_bytes_in_window = 0\<rparr>"

definition throttle_try_start :: "move_throttle \<Rightarrow> 64 word \<Rightarrow> (bool \<times> move_throttle) option" where
  "throttle_try_start t estimated =
     (if mt_active_moves t \<ge> mt_max_concurrent_moves t
         \<or> word_sat_add (mt_bytes_in_window t) estimated > mt_max_bytes_per_window t
      then Some (False, t)
      else case checked_add (mt_active_moves t) 1 of
        None \<Rightarrow> None
      | Some moves \<Rightarrow>
         (case checked_add (mt_bytes_in_window t) estimated of
            None \<Rightarrow> None
          | Some bytes \<Rightarrow> Some (True, t\<lparr>mt_active_moves := moves, mt_bytes_in_window := bytes\<rparr>)))"

definition throttle_finish :: "move_throttle \<Rightarrow> move_throttle" where
  "throttle_finish t = t\<lparr>mt_active_moves := word_sat_sub (mt_active_moves t) 1\<rparr>"

definition throttle_reset_window :: "move_throttle \<Rightarrow> move_throttle" where
  "throttle_reset_window t = t\<lparr>mt_bytes_in_window := 0\<rparr>"

section \<open>Controller\<close>

record persisted_state =
  pst_next_id :: u64
  pst_reassignments :: "(u64, reassignment) btree_map"

record reassignment_controller =
  rc_durable :: bool
  rc_state :: persisted_state
  rc_brokers :: "(u64, broker_capacity) btree_map"
  rc_active_moves :: u32

definition initial_persisted :: persisted_state where
  "initial_persisted = \<lparr>pst_next_id = 1, pst_reassignments = []\<rparr>"

definition brokers_by_id :: "broker_capacity list \<Rightarrow> (u64, broker_capacity) btree_map" where
  "brokers_by_id bs = bt_collect (map (\<lambda>b. (bc_node_id b, b)) bs)"

fun terminal_phase :: "reassignment_phase \<Rightarrow> bool" where
  "terminal_phase Complete = True"
| "terminal_phase (RolledBack _) = True"
| "terminal_phase _ = False"

definition open_moves :: "persisted_state \<Rightarrow> nat" where
  "open_moves s = length (filter (\<lambda>r. \<not> terminal_phase (ra_phase r)) (bt_values (pst_reassignments s)))"

definition rc_new :: "broker_capacity list \<Rightarrow> reassignment_controller" where
  "rc_new bs = \<lparr>rc_durable = False, rc_state = initial_persisted, rc_brokers = brokers_by_id bs, rc_active_moves = 0\<rparr>"

definition rc_open ::
  "(persisted_state, 'f) snapshot_codec \<Rightarrow> 'f option \<Rightarrow> broker_capacity list \<Rightarrow> reassignment_controller result" where
  "rc_open cd file bs =
     (case load_snapshot cd initial_persisted file of
        None \<Rightarrow> Err ''decoding reassignment state''
      | Some s \<Rightarrow>
          Ok \<lparr>rc_durable = True, rc_state = s, rc_brokers = brokers_by_id bs,
              rc_active_moves = open_moves s mod 2 ^ 32\<rparr>)"

definition rc_plan :: "reassignment_controller \<Rightarrow> u64 \<Rightarrow> reassignment option" where
  "rc_plan c n = map_of (pst_reassignments (rc_state c)) n"

definition rc_persist ::
  "(persisted_state, 'f) snapshot_codec \<Rightarrow> reassignment_controller \<Rightarrow> 'f option
   \<Rightarrow> reassignment_controller \<times> 'f option" where
  "rc_persist cd c file = (c, store_snapshot cd (rc_durable c) (rc_state c) file)"

definition rc_begin ::
  "(persisted_state, 'f) snapshot_codec \<Rightarrow> placement_move \<Rightarrow> u64 \<Rightarrow> reassignment_controller \<Rightarrow> 'f option
   \<Rightarrow> u64 result \<times> reassignment_controller \<times> 'f option" where
  "rc_begin cd mv source_epoch c file =
     (case map_of (rc_brokers c) (mv_from mv) of
        None \<Rightarrow> (Err ''reassignment source broker is unknown'', c, file)
      | Some source \<Rightarrow>
         (case map_of (rc_brokers c) (mv_to mv) of
            None \<Rightarrow> (Err ''reassignment destination broker is unknown'', c, file)
          | Some destination \<Rightarrow>
              if mv_from mv = mv_to mv then (Err ''reassignment source equals destination'', c, file)
              else if bc_lifecycle source = Decommissioned then (Err ''source broker is decommissioned'', c, file)
              else if \<not> eligible destination then (Err ''destination broker is not eligible'', c, file)
              else if \<not> rc_active_moves c < bc_max_concurrent_moves destination
              then (Err ''move concurrency limit reached'', c, file)
              else
                let n = pst_next_id (rc_state c);
                    plan = \<lparr>ra_id = n, ra_stream = mv_stream mv, ra_partition = mv_partition mv,
                            ra_source = mv_from mv, ra_destination = mv_to mv,
                            ra_source_epoch = source_epoch, ra_phase = AddReplica,
                            ra_last_high_watermark = None\<rparr>;
                    s = \<lparr>pst_next_id = sat_add64 n 1,
                         pst_reassignments = bt_insert n plan (pst_reassignments (rc_state c))\<rparr>
                in (Ok n, rc_persist cd (c\<lparr>rc_state := s, rc_active_moves := rc_active_moves c + 1\<rparr>) file)))"

definition put_plan :: "u64 \<Rightarrow> reassignment \<Rightarrow> reassignment_controller \<Rightarrow> reassignment_controller" where
  "put_plan n r c =
     c\<lparr>rc_state := (rc_state c)\<lparr>pst_reassignments := bt_insert n r (pst_reassignments (rc_state c))\<rparr>\<rparr>"

text \<open>
  \<open>advance\<close>: the plan's high watermark is set before the guards, so a refused call leaves it
  set in memory. \<open>Option\<close> is ordered with \<open>None\<close> below every \<open>Some\<close>.
\<close>

definition rc_advance ::
  "(persisted_state, 'f) snapshot_codec \<Rightarrow> u64 \<Rightarrow> reassignment_progress \<Rightarrow> reassignment_controller \<Rightarrow> 'f option
   \<Rightarrow> reassignment_phase result \<times> reassignment_controller \<times> 'f option" where
  "rc_advance cd n progress c file =
     (case map_of (pst_reassignments (rc_state c)) n of
        None \<Rightarrow> (Err ''unknown reassignment'', c, file)
      | Some plan0 \<Rightarrow>
         (let plan = plan0\<lparr>ra_last_high_watermark := rg_high_watermark progress\<rparr>;
              caught_up = rp_match_offset (rg_destination progress) \<ge> rg_high_watermark progress;
              to_phase = (\<lambda>ph c. let c' = put_plan n (plan\<lparr>ra_phase := ph\<rparr>) c in (Ok ph, rc_persist cd c' file));
              refuse = (\<lambda>x. (Err x, put_plan n plan c, file))
          in case ra_phase plan of
               AddReplica \<Rightarrow> to_phase CatchingUp c
             | CatchingUp \<Rightarrow>
                 if \<not> rg_quorum_available progress then refuse ''cannot advance without quorum''
                 else if \<not> caught_up then refuse ''destination is not caught up to the committed high watermark''
                 else to_phase TransferLeadership c
             | TransferLeadership \<Rightarrow>
                 if \<not> rg_quorum_available progress then refuse ''cannot transfer leadership without quorum''
                 else if \<not> caught_up then refuse ''leadership candidate is stale''
                 else to_phase RemoveReplica c
             | RemoveReplica \<Rightarrow> to_phase Complete (c\<lparr>rc_active_moves := rc_active_moves c - 1\<rparr>)
             | Complete \<Rightarrow> to_phase Complete c
             | RolledBack x \<Rightarrow> to_phase (RolledBack x) c))"

definition rc_rollback ::
  "(persisted_state, 'f) snapshot_codec \<Rightarrow> u64 \<Rightarrow> string \<Rightarrow> reassignment_controller \<Rightarrow> 'f option
   \<Rightarrow> unit result \<times> reassignment_controller \<times> 'f option" where
  "rc_rollback cd n reason c file =
     (case map_of (pst_reassignments (rc_state c)) n of
        None \<Rightarrow> (Err ''unknown reassignment'', c, file)
      | Some plan \<Rightarrow>
          if ra_phase plan = AddReplica \<or> ra_phase plan = CatchingUp
          then (Ok (), rc_persist cd
                 ((put_plan n (plan\<lparr>ra_phase := RolledBack reason\<rparr>) c)\<lparr>rc_active_moves := rc_active_moves c - 1\<rparr>) file)
          else (Err ''cannot roll back after leadership transfer'', c, file))"

definition rc_set_broker_lifecycle ::
  "(persisted_state, 'f) snapshot_codec \<Rightarrow> u64 \<Rightarrow> broker_lifecycle \<Rightarrow> reassignment_controller \<Rightarrow> 'f option
   \<Rightarrow> unit result \<times> reassignment_controller \<times> 'f option" where
  "rc_set_broker_lifecycle cd node lifecycle c file =
     (if \<not> bt_contains node (rc_brokers c) then (Err ''unknown broker'', c, file)
      else (Ok (), rc_persist cd
              (c\<lparr>rc_brokers := bt_update node (\<lambda>b. b\<lparr>bc_lifecycle := lifecycle\<rparr>) (rc_brokers c)\<rparr>) file))"

section \<open>Planners\<close>

record load_values =
  lv_disk :: nat
  lv_partitions :: nat
  lv_leaders :: nat
  lv_throughput :: nat

definition load_score :: "broker_capacity \<Rightarrow> load_values \<Rightarrow> load_key" where
  "load_score b v =
     (disk_share (lv_disk v) (bc_disk_capacity_bytes b), min (lv_partitions v) u32_max,
      min (lv_leaders v) u32_max, lv_throughput v, bc_node_id b)"

definition distinct_regions :: "u64 set \<Rightarrow> (u64, broker_capacity) btree_map \<Rightarrow> nat" where
  "distinct_regions replicas by_node =
     card (set (List.map_filter (\<lambda>n. map_option bc_region (map_of by_node n)) (sorted_list_of_set replicas)))"

definition initial_load :: "broker_capacity list \<Rightarrow> (u64, load_values) btree_map" where
  "initial_load bs =
     bt_collect (map (\<lambda>b. (bc_node_id b, \<lparr>lv_disk = bc_disk_used_bytes b, lv_partitions = bc_partition_count b,
       lv_leaders = bc_leader_count b, lv_throughput = bc_throughput_bytes_per_second b\<rparr>)) bs)"

definition score_now :: "(u64, load_values) btree_map \<Rightarrow> broker_capacity \<Rightarrow> load_key" where
  "score_now load b =
     (case map_of load (bc_node_id b) of None \<Rightarrow> broker_score b | Some v \<Rightarrow> load_score b v)"

definition placement_key :: "partition_placement \<Rightarrow> string \<times> u32" where
  "placement_key p = (pl_stream p, pl_partition p)"

text \<open>The body of the loop of \<open>plan_moves\<close>.\<close>

definition plan_move_step ::
  "broker_capacity list \<Rightarrow> partition_placement
   \<Rightarrow> placement_move list \<times> (u64, load_values) btree_map \<Rightarrow> placement_move list \<times> (u64, load_values) btree_map" where
  "plan_move_step bs p acc =
     (let (moves, load) = acc; by_node = brokers_by_id bs in
      case max_by_key (score_now load) (List.map_filter (map_of by_node) (sorted_list_of_set (pl_replicas p))) of
        None \<Rightarrow> acc
      | Some source \<Rightarrow>
         (case min_by_key (score_now load)
                 (filter (\<lambda>b. bc_region b \<noteq> bc_region source
                            \<or> pk_min_distinct_regions (pl_constraints p) \<le> distinct_regions (pl_replicas p) by_node)
                   (filter (\<lambda>b. pk_allowed_regions (pl_constraints p) = {}
                              \<or> bc_region b \<in> pk_allowed_regions (pl_constraints p))
                     (filter (\<lambda>b. eligible b \<and> bc_node_id b \<notin> pl_replicas p) bs))) of
            None \<Rightarrow> acc
          | Some destination \<Rightarrow>
              if score_now load destination < score_now load source
              then
                let mv = \<lparr>mv_stream = pl_stream p, mv_partition = pl_partition p,
                          mv_from = bc_node_id source, mv_to = bc_node_id destination\<rparr>;
                    load1 = bt_update (bc_node_id source)
                      (\<lambda>v. v\<lparr>lv_partitions := lv_partitions v - 1,
                             lv_leaders := lv_leaders v - (if pl_leader p = bc_node_id source then 1 else 0)\<rparr>) load;
                    load2 = bt_update (bc_node_id destination)
                      (\<lambda>v. v\<lparr>lv_partitions := sat_add64 (lv_partitions v) 1,
                             lv_leaders := sat_add64 (lv_leaders v)
                               (if pl_leader p = bc_node_id destination then 1 else 0)\<rparr>) load1
                in (moves @ [mv], load2)
              else acc))"

definition plan_moves :: "partition_placement list \<Rightarrow> broker_capacity list \<Rightarrow> placement_move list" where
  "plan_moves ps bs =
     fst (fold (plan_move_step bs) (sort_key placement_key ps) ([], initial_load bs))"

definition leaders_of :: "(u64, nat) btree_map \<Rightarrow> u64 \<Rightarrow> nat" where
  "leaders_of leaders n = (case map_of leaders n of None \<Rightarrow> 0 | Some k \<Rightarrow> k)"

definition leader_transfer_step ::
  "broker_capacity list \<Rightarrow> partition_placement
   \<Rightarrow> placement_move list \<times> (u64, nat) btree_map \<Rightarrow> placement_move list \<times> (u64, nat) btree_map" where
  "leader_transfer_step bs p acc =
     (let (transfers, leaders) = acc; by_node = brokers_by_id bs in
      case map_of by_node (pl_leader p) of
        None \<Rightarrow> acc
      | Some source \<Rightarrow>
         (case min_by_key (\<lambda>b. (leaders_of leaders (bc_node_id b), bc_throughput_bytes_per_second b, bc_node_id b))
                 (filter eligible
                   (List.map_filter (map_of by_node)
                     (filter (\<lambda>n. n \<noteq> pl_leader p) (sorted_list_of_set (pl_replicas p))))) of
            None \<Rightarrow> acc
          | Some destination \<Rightarrow>
             (let source_load = leaders_of leaders (bc_node_id source);
                  destination_load = leaders_of leaders (bc_node_id destination)
              in if destination_load \<ge> source_load then acc
                 else (transfers @ [\<lparr>mv_stream = pl_stream p, mv_partition = pl_partition p,
                                     mv_from = bc_node_id source, mv_to = bc_node_id destination\<rparr>],
                       bt_insert (bc_node_id destination) (min (destination_load + 1) u32_max)
                         (bt_insert (bc_node_id source) (source_load - 1) leaders)))))"

definition plan_leader_transfers ::
  "partition_placement list \<Rightarrow> broker_capacity list \<Rightarrow> placement_move list" where
  "plan_leader_transfers ps bs =
     fst (fold (leader_transfer_step bs) (sort_key placement_key ps)
           ([], bt_collect (map (\<lambda>b. (bc_node_id b, bc_leader_count b)) bs)))"

end
