(* ===== verification/Reassignment_Safety.thy ===== *)
theory Reassignment_Safety
  imports Reassignment
begin

text \<open>
  Properties of partition movement: the phases a move can take and what each needs, what a
  restart finds, the validity of the plans, and the bounds of the throttle.
\<close>

section \<open>The controller as a transition system\<close>

datatype rc_call =
    RBegin placement_move u64
  | RAdvance u64 reassignment_progress
  | RRollback u64 string
  | RLifecycle u64 broker_lifecycle

type_synonym 'f rc_world = "reassignment_controller \<times> 'f option"

fun rc_exec :: "(persisted_state, 'f) snapshot_codec \<Rightarrow> rc_call \<Rightarrow> 'f rc_world \<Rightarrow> 'f rc_world" where
  "rc_exec cd (RBegin mv epoch) (c, file) = snd (rc_begin cd mv epoch c file)"
| "rc_exec cd (RAdvance n progress) (c, file) = snd (rc_advance cd n progress c file)"
| "rc_exec cd (RRollback n reason) (c, file) = snd (rc_rollback cd n reason c file)"
| "rc_exec cd (RLifecycle n l) (c, file) = snd (rc_set_broker_lifecycle cd n l c file)"

definition rc_init :: "(persisted_state, 'f) snapshot_codec \<Rightarrow> 'f rc_world \<Rightarrow> bool" where
  "rc_init cd w \<longleftrightarrow>
     snd w = None \<and> (\<forall>n b. map_of (rc_brokers (fst w)) n = Some b \<longrightarrow> bc_max_concurrent_moves b \<le> u32_max)
     \<and> (\<exists>bs. fst w = rc_new bs \<or> rc_open cd None bs = Ok (fst w))"

definition rc_step :: "(persisted_state, 'f) snapshot_codec \<Rightarrow> 'f rc_world \<Rightarrow> 'f rc_world \<Rightarrow> bool" where
  "rc_step cd w w' \<longleftrightarrow> (\<exists>call. w' = rc_exec cd call w)"

text \<open>What a plan is apart from the high watermark it last saw.\<close>

definition plan_core :: "reassignment \<Rightarrow> reassignment" where
  "plan_core r = r\<lparr>ra_last_high_watermark := None\<rparr>"

definition file_agrees :: "(persisted_state, 'f) snapshot_codec \<Rightarrow> 'f rc_world \<Rightarrow> bool" where
  "file_agrees cd w \<longleftrightarrow> (rc_durable (fst w) \<longrightarrow>
     (\<exists>s. load_snapshot cd initial_persisted (snd w) = Some s
        \<and> pst_next_id s = pst_next_id (rc_state (fst w))
        \<and> bt_map_values plan_core (pst_reassignments s) =
          bt_map_values plan_core (pst_reassignments (rc_state (fst w)))))"

definition rc_inv :: "(persisted_state, 'f) snapshot_codec \<Rightarrow> 'f rc_world \<Rightarrow> bool" where
  "rc_inv cd w \<longleftrightarrow>
     (let c = fst w; s = rc_state c in
        bt_wf (pst_reassignments s) \<and> rc_active_moves c \<le> u32_max
        \<and> (\<forall>n b. map_of (rc_brokers c) n = Some b \<longrightarrow> bc_max_concurrent_moves b \<le> u32_max)
        \<and> (pst_next_id s < u64_max \<longrightarrow>
             (\<forall>n r. map_of (pst_reassignments s) n = Some r \<longrightarrow> n < pst_next_id s) \<and> rc_active_moves c = open_moves s)
        \<and> file_agrees cd w)"

lemma open_moves_filter:
  "open_moves s = length (filter (\<lambda>e. \<not> terminal_phase (ra_phase (snd e))) (pst_reassignments s))"
  by (simp add: open_moves_def filter_map comp_def)

lemma open_moves_core:
  assumes "bt_map_values plan_core (pst_reassignments s) = bt_map_values plan_core (pst_reassignments t)"
  shows "open_moves s = open_moves t"
proof -
  have "open_moves u = length (filter (\<lambda>e. \<not> terminal_phase (ra_phase (snd e)))
      (bt_map_values plan_core (pst_reassignments u)))" for u
    by (simp add: open_moves_filter bt_map_values_def filter_map comp_def plan_core_def)
  with assms show ?thesis by simp
qed

text \<open>How the count of open moves changes when one plan is replaced or added.\<close>

lemma length_filter_bt_insert:
  "bt_wf m \<Longrightarrow> length (filter P (bt_insert k v m)) + (case map_of m k of None \<Rightarrow> 0 | Some x \<Rightarrow> if P (k, x) then 1 else 0)
     = length (filter P m) + (if P (k, v) then 1 else 0)"
proof (induction m)
  case (Cons e m)
  then have wf: "bt_wf m" and less: "\<forall>x\<in>set m. fst e < fst x" by (auto simp: bt_wf_Cons_iff)
  obtain a b where e: "e = (a, b)" by (cases e)
  have "map_of m k = None" if "k \<le> a"
    using that less e by (force simp: map_of_eq_None_iff)
  with Cons.IH [OF wf] show ?case by (auto simp: e split: option.splits)
qed simp

lemma open_moves_put:
  assumes "bt_wf (pst_reassignments s)" and "map_of (pst_reassignments s) n = Some r0"
  shows "open_moves (s\<lparr>pst_reassignments := bt_insert n r (pst_reassignments s)\<rparr>)
      + (if terminal_phase (ra_phase r0) then 0 else 1)
    = open_moves s + (if terminal_phase (ra_phase r) then 0 else 1)"
  using length_filter_bt_insert [OF assms(1), of "\<lambda>e. \<not> terminal_phase (ra_phase (snd e))" n r] assms(2)
  by (simp add: open_moves_filter split: if_splits)

lemma open_moves_add:
  assumes "bt_wf (pst_reassignments s)" and "map_of (pst_reassignments s) n = None"
    and "\<not> terminal_phase (ra_phase r)"
  shows "open_moves \<lparr>pst_next_id = k, pst_reassignments = bt_insert n r (pst_reassignments s)\<rparr> = Suc (open_moves s)"
  using length_filter_bt_insert [OF assms(1), of "\<lambda>e. \<not> terminal_phase (ra_phase (snd e))" n r] assms(2,3)
  by (simp add: open_moves_filter)

lemma persist_agrees: "snapshot_ok cd \<Longrightarrow> file_agrees cd (rc_persist cd c file)"
  by (auto simp: file_agrees_def rc_persist_def load_store_snapshot)

lemma core_insert:
  assumes "bt_wf m" and "map_of m n = Some r0" and "plan_core r = plan_core r0"
  shows "bt_map_values plan_core (bt_insert n r m) = bt_map_values plan_core m"
  by (rule bt_ext) (use assms in \<open>auto simp: fun_eq_iff\<close>)

text \<open>A call replaces at most one plan by a next one; this is the common part of \<open>advance\<close> and \<open>rollback\<close>.\<close>

lemma put_plan_inv:
  assumes cd: "snapshot_ok cd" and inv: "rc_inv cd (c, file)"
    and r0: "map_of (pst_reassignments (rc_state c)) n = Some r0"
    and act: "pst_next_id (rc_state c) < u64_max \<Longrightarrow>
      k + (if terminal_phase (ra_phase r0) then 0 else 1) = rc_active_moves c + (if terminal_phase (ra_phase r) then 0 else 1)"
    and bound: "k \<le> u32_max"
  shows "rc_inv cd (rc_persist cd ((put_plan n r c)\<lparr>rc_active_moves := k\<rparr>) file)"
proof -
  let ?s = "rc_state c"
  let ?s' = "?s\<lparr>pst_reassignments := bt_insert n r (pst_reassignments ?s)\<rparr>"
  have wf: "bt_wf (pst_reassignments ?s)" using inv by (simp add: rc_inv_def Let_def)
  have pers: "file_agrees cd (rc_persist cd ((put_plan n r c)\<lparr>rc_active_moves := k\<rparr>) file)"
    by (rule persist_agrees [OF cd])
  have count: "k = open_moves ?s'" if "pst_next_id ?s < u64_max"
    using act [OF that] open_moves_put [OF wf r0, of r] inv that
    by (auto simp: rc_inv_def Let_def split: if_splits)
  have fst: "fst (rc_persist cd ((put_plan n r c)\<lparr>rc_active_moves := k\<rparr>) file) =
      c\<lparr>rc_state := ?s', rc_active_moves := k\<rparr>"
    by (simp add: rc_persist_def put_plan_def)
  show ?thesis
    unfolding rc_inv_def Let_def fst
    using inv wf r0 count bound pers by (auto simp: rc_inv_def Let_def split: if_splits)
qed


section \<open>The phases of a move\<close>

text \<open>The specification of \<open>advance\<close>: the edges of the phase diagram, with what each requires.\<close>

definition caught_up :: "reassignment_progress \<Rightarrow> bool" where
  "caught_up pg \<longleftrightarrow>
     rg_quorum_available pg \<and> rg_high_watermark pg \<le> rp_match_offset (rg_destination pg)"

inductive phase_edge :: "reassignment_progress \<Rightarrow> reassignment_phase \<Rightarrow> reassignment_phase \<Rightarrow> bool" for pg where
  edge_add: "phase_edge pg AddReplica CatchingUp"
| edge_transfer: "caught_up pg \<Longrightarrow> phase_edge pg CatchingUp TransferLeadership"
| edge_remove: "caught_up pg \<Longrightarrow> phase_edge pg TransferLeadership RemoveReplica"
| edge_complete: "phase_edge pg RemoveReplica Complete"
| edge_done: "terminal_phase ph \<Longrightarrow> phase_edge pg ph ph"

inductive_cases phase_edgeE: "phase_edge pg ph ph'"

lemma put_plan_moves:
  "put_plan n r (c\<lparr>rc_active_moves := k\<rparr>) = (put_plan n r c)\<lparr>rc_active_moves := k\<rparr>"
  "(put_plan n r c)\<lparr>rc_active_moves := rc_active_moves c\<rparr> = put_plan n r c"
  by (cases c; simp add: put_plan_def)+

lemma advance_cases:
  assumes "rc_advance cd n pg c file = (res, w')"
  obtains (unknown) x where "map_of (pst_reassignments (rc_state c)) n = None" "res = Err x" "w' = (c, file)"
  | (refused) r0 x where "map_of (pst_reassignments (rc_state c)) n = Some r0" "res = Err x"
      "w' = (put_plan n (r0\<lparr>ra_last_high_watermark := rg_high_watermark pg\<rparr>) c, file)"
      "\<not> caught_up pg" "ra_phase r0 = CatchingUp \<or> ra_phase r0 = TransferLeadership"
  | (moved) r0 ph where "map_of (pst_reassignments (rc_state c)) n = Some r0" "res = Ok ph"
      "phase_edge pg (ra_phase r0) ph"
      "w' = rc_persist cd ((put_plan n (r0\<lparr>ra_last_high_watermark := rg_high_watermark pg, ra_phase := ph\<rparr>) c)
         \<lparr>rc_active_moves := rc_active_moves c - (if ra_phase r0 = RemoveReplica then 1 else 0)\<rparr>) file"
proof (cases "map_of (pst_reassignments (rc_state c)) n")
  case None
  with assms have "res = Err ''unknown reassignment'' \<and> w' = (c, file)" by (simp add: rc_advance_def)
  with unknown None show thesis by blast
next
  case (Some r0)
  note eval = assms [unfolded rc_advance_def Let_def, simplified Some option.case]
  show thesis
  proof (cases "(ra_phase r0 = CatchingUp \<or> ra_phase r0 = TransferLeadership) \<and> \<not> caught_up pg")
    case True
    with eval have "\<exists>x. res = Err x \<and> w' = (put_plan n (r0\<lparr>ra_last_high_watermark := rg_high_watermark pg\<rparr>) c, file)"
      by (auto simp: caught_up_def split: if_splits)
    with refused Some True show thesis by blast
  next
    case False
    with eval have "\<exists>ph. res = Ok ph \<and> phase_edge pg (ra_phase r0) ph \<and>
      w' = rc_persist cd ((put_plan n (r0\<lparr>ra_last_high_watermark := rg_high_watermark pg, ra_phase := ph\<rparr>) c)
         \<lparr>rc_active_moves := rc_active_moves c - (if ra_phase r0 = RemoveReplica then 1 else 0)\<rparr>) file"
      by (cases "ra_phase r0")
        (auto simp: caught_up_def put_plan_moves phase_edge.simps)
    with moved Some show thesis by blast
  qed
qed

definition new_plan :: "placement_move \<Rightarrow> u64 \<Rightarrow> u64 \<Rightarrow> reassignment" where
  "new_plan mv epoch n =
     \<lparr>ra_id = n, ra_stream = mv_stream mv, ra_partition = mv_partition mv, ra_source = mv_from mv,
      ra_destination = mv_to mv, ra_source_epoch = epoch, ra_phase = AddReplica, ra_last_high_watermark = None\<rparr>"

definition begun :: "placement_move \<Rightarrow> u64 \<Rightarrow> reassignment_controller \<Rightarrow> reassignment_controller" where
  "begun mv epoch c =
     (let n = pst_next_id (rc_state c) in
      c\<lparr>rc_state := \<lparr>pst_next_id = sat_add64 n 1,
                     pst_reassignments = bt_insert n (new_plan mv epoch n) (pst_reassignments (rc_state c))\<rparr>,
        rc_active_moves := rc_active_moves c + 1\<rparr>)"

lemma begin_cases:
  assumes "rc_begin cd mv epoch c file = (res, w')"
  obtains (refused) x where "res = Err x" "w' = (c, file)"
  | (begun) source d where "map_of (rc_brokers c) (mv_from mv) = Some source"
      "map_of (rc_brokers c) (mv_to mv) = Some d" "mv_from mv \<noteq> mv_to mv" "eligible d"
      "rc_active_moves c < bc_max_concurrent_moves d" "res = Ok (pst_next_id (rc_state c))"
      "w' = rc_persist cd (begun mv epoch c) file"
proof (cases "\<exists>source d. map_of (rc_brokers c) (mv_from mv) = Some source \<and> map_of (rc_brokers c) (mv_to mv) = Some d
    \<and> mv_from mv \<noteq> mv_to mv \<and> bc_lifecycle source \<noteq> Decommissioned \<and> eligible d
    \<and> rc_active_moves c < bc_max_concurrent_moves d")
  case False
  with assms have "\<exists>x. res = Err x \<and> w' = (c, file)"
    by (auto simp: rc_begin_def split: option.splits if_splits)
  with refused show thesis by blast
next
  case True
  then obtain source d where h: "map_of (rc_brokers c) (mv_from mv) = Some source"
      "map_of (rc_brokers c) (mv_to mv) = Some d" "mv_from mv \<noteq> mv_to mv"
      "bc_lifecycle source \<noteq> Decommissioned" "eligible d"
      "rc_active_moves c < bc_max_concurrent_moves d" by blast
  with assms have "res = Ok (pst_next_id (rc_state c)) \<and> w' = rc_persist cd (begun mv epoch c) file"
    by (simp add: rc_begin_def begun_def new_plan_def Let_def)
  with h begun show thesis by blast
qed

lemma open_moves_pos:
  "map_of (pst_reassignments s) n = Some r \<Longrightarrow> \<not> terminal_phase (ra_phase r) \<Longrightarrow> 0 < open_moves s"
  by (auto simp: open_moves_filter dest!: map_of_SomeD intro!: filter_False length_greater_0_conv [THEN iffD2])
    (metis (no_types, lifting) filter_empty_conv snd_conv)

lemma exec_rc_inv:
  assumes cd: "snapshot_ok cd" and inv: "rc_inv cd (c, file)"
  shows "rc_inv cd (rc_exec cd call (c, file))"
proof (cases call)
  case (RBegin mv epoch)
  let ?s = "rc_state c" and ?n = "pst_next_id (rc_state c)" and ?c' = "begun mv epoch c"
  obtain res w' where run: "rc_begin cd mv epoch c file = (res, w')"
    by (cases "rc_begin cd mv epoch c file")
  from run have "rc_inv cd w'"
  proof (cases rule: begin_cases)
    case refused
    with inv show ?thesis by simp
  next
    case (begun source d)
    have wf: "bt_wf (pst_reassignments ?s)" using inv by (simp add: rc_inv_def Let_def)
    have "bc_max_concurrent_moves d \<le> u32_max" using inv begun(2) by (simp add: rc_inv_def Let_def)
    then have bound: "rc_active_moves c + 1 \<le> u32_max" using begun(5) by simp
    have ids: "(\<forall>n r. map_of (pst_reassignments (rc_state ?c')) n = Some r \<longrightarrow> n < sat_add64 ?n 1)
        \<and> rc_active_moves ?c' = open_moves (rc_state ?c')" if "sat_add64 ?n 1 < u64_max"
    proof -
      from that have n: "?n < u64_max" "sat_add64 ?n 1 = ?n + 1" by (auto simp: sat_add64_def)
      then have old: "\<forall>n r. map_of (pst_reassignments ?s) n = Some r \<longrightarrow> n < ?n" "rc_active_moves c = open_moves ?s"
        using inv by (simp_all add: rc_inv_def Let_def)
      then have none: "map_of (pst_reassignments ?s) ?n = None"
        by (metis less_irrefl not_None_eq)
      have "open_moves (rc_state ?c') = Suc (open_moves ?s)"
        using open_moves_add [OF wf none, of "new_plan mv epoch ?n" "sat_add64 ?n 1"]
        by (simp add: begun_def new_plan_def Let_def)
      moreover have "k < ?n + 1" if "map_of (pst_reassignments (rc_state ?c')) k = Some r" for k r
        using that old(1) wf by (auto simp: begun_def Let_def less_Suc_eq split: if_splits)
      ultimately show ?thesis using old(2) n by (simp add: begun_def Let_def)
    qed
    have parts: "fst (rc_persist cd ?c' file) = ?c'" "bt_wf (pst_reassignments (rc_state ?c'))"
      "rc_active_moves ?c' = rc_active_moves c + 1" "rc_brokers ?c' = rc_brokers c"
      "pst_next_id (rc_state ?c') = sat_add64 ?n 1"
      using wf by (simp_all add: rc_persist_def begun_def Let_def)
    moreover have "rc_active_moves ?c' \<le> u32_max" using parts(3) bound by simp
    moreover have "\<forall>n b. map_of (rc_brokers ?c') n = Some b \<longrightarrow> bc_max_concurrent_moves b \<le> u32_max"
      using parts(4) inv by (simp add: rc_inv_def Let_def)
    moreover have "pst_next_id (rc_state ?c') < u64_max \<longrightarrow>
        (\<forall>n r. map_of (pst_reassignments (rc_state ?c')) n = Some r \<longrightarrow> n < pst_next_id (rc_state ?c'))
        \<and> rc_active_moves ?c' = open_moves (rc_state ?c')"
      unfolding parts(5) using ids by blast
    moreover have "file_agrees cd (rc_persist cd ?c' file)" by (rule persist_agrees [OF cd])
    ultimately have "rc_inv cd (rc_persist cd ?c' file)"
      unfolding rc_inv_def Let_def parts(1) by blast
    with begun(7) show ?thesis by simp
  qed
  with RBegin run show ?thesis by simp
next
  case (RAdvance n pg)
  obtain res w' where run: "rc_advance cd n pg c file = (res, w')"
    by (cases "rc_advance cd n pg c file")
  have ub: "rc_active_moves c \<le> u32_max" using inv by (simp add: rc_inv_def Let_def)
  from run have "rc_inv cd w'"
  proof (cases rule: advance_cases)
    case unknown
    with inv show ?thesis by simp
  next
    case (refused r0 x)
    let ?r = "r0\<lparr>ra_last_high_watermark := rg_high_watermark pg\<rparr>"
    let ?m = "pst_reassignments (rc_state c)"
    have wf: "bt_wf ?m" using inv by (simp add: rc_inv_def Let_def)
    have core: "bt_map_values plan_core (bt_insert n ?r ?m) = bt_map_values plan_core ?m"
      by (rule core_insert [OF wf refused(1)]) (simp add: plan_core_def)
    have "open_moves (rc_state (put_plan n ?r c)) = open_moves (rc_state c)"
      by (rule open_moves_core) (simp add: put_plan_def core)
    with inv refused(1,3) wf core show ?thesis
      by (auto simp: rc_inv_def Let_def file_agrees_def put_plan_def split: if_splits)
  next
    case (moved r0 ph)
    show ?thesis unfolding moved(4)
    proof (rule put_plan_inv [OF cd inv moved(1)])
      assume small: "pst_next_id (rc_state c) < u64_max"
      then have act: "rc_active_moves c = open_moves (rc_state c)"
        using inv by (simp add: rc_inv_def Let_def)
      have "0 < rc_active_moves c" if "ra_phase r0 = RemoveReplica"
        using open_moves_pos [OF moved(1)] that act by simp
      with moved(3) show "rc_active_moves c - (if ra_phase r0 = RemoveReplica then 1 else 0) +
          (if terminal_phase (ra_phase r0) then 0 else 1) =
        rc_active_moves c + (if terminal_phase
          (ra_phase (r0\<lparr>ra_last_high_watermark := rg_high_watermark pg, ra_phase := ph\<rparr>)) then 0 else 1)"
        by (auto simp: phase_edge.simps)
    qed (use ub in simp)
  qed
  with RAdvance run show ?thesis by simp
next
  case (RRollback n reason)
  have ub: "rc_active_moves c \<le> u32_max" using inv by (simp add: rc_inv_def Let_def)
  show ?thesis
  proof (cases "\<exists>r0. map_of (pst_reassignments (rc_state c)) n = Some r0
      \<and> (ra_phase r0 = AddReplica \<or> ra_phase r0 = CatchingUp)")
    case False
    then have "snd (rc_rollback cd n reason c file) = (c, file)"
      by (auto simp: rc_rollback_def split: option.splits)
    with RRollback inv show ?thesis by simp
  next
    case True
    then obtain r0 where r0: "map_of (pst_reassignments (rc_state c)) n = Some r0"
      "ra_phase r0 = AddReplica \<or> ra_phase r0 = CatchingUp" by blast
    then have nt: "\<not> terminal_phase (ra_phase r0)" by auto
    have "rc_inv cd (rc_persist cd ((put_plan n (r0\<lparr>ra_phase := RolledBack reason\<rparr>) c)
        \<lparr>rc_active_moves := rc_active_moves c - 1\<rparr>) file)"
    proof (rule put_plan_inv [OF cd inv r0(1)])
      assume "pst_next_id (rc_state c) < u64_max"
      then have "rc_active_moves c = open_moves (rc_state c)"
        using inv by (simp add: rc_inv_def Let_def)
      with open_moves_pos [OF r0(1) nt] nt
      show "rc_active_moves c - 1 + (if terminal_phase (ra_phase r0) then 0 else 1) =
        rc_active_moves c + (if terminal_phase (ra_phase (r0\<lparr>ra_phase := RolledBack reason\<rparr>)) then 0 else 1)"
        by simp
    qed (use ub in simp)
    with RRollback r0 show ?thesis by (simp add: rc_rollback_def)
  qed
next
  case (RLifecycle n l)
  let ?c' = "c\<lparr>rc_brokers := bt_update n (\<lambda>b. b\<lparr>bc_lifecycle := l\<rparr>) (rc_brokers c)\<rparr>"
  have "file_agrees cd (rc_persist cd ?c' file)" by (rule persist_agrees [OF cd])
  with inv have "rc_inv cd (rc_persist cd ?c' file)"
    by (auto simp: rc_inv_def Let_def rc_persist_def split: if_splits)
  with RLifecycle inv show ?thesis by (simp add: rc_set_broker_lifecycle_def)
qed


interpretation rcs: invariant_system "\<lambda>w. snapshot_ok cd \<and> rc_init cd w" "rc_step cd"
  "\<lambda>w. snapshot_ok cd \<and> rc_inv cd w" for cd :: "(persisted_state, 'f) snapshot_codec"
proof
  fix w w' :: "'f rc_world"
  show "snapshot_ok cd \<and> rc_inv cd w" if "snapshot_ok cd \<and> rc_init cd w"
  proof -
    from that have none: "snd w = None" and br: "\<forall>n b. map_of (rc_brokers (fst w)) n = Some b \<longrightarrow>
        bc_max_concurrent_moves b \<le> u32_max" and src: "\<exists>bs. fst w = rc_new bs \<or> rc_open cd None bs = Ok (fst w)"
      by (auto simp: rc_init_def)
    from src have st: "rc_state (fst w) = initial_persisted" "rc_active_moves (fst w) = 0"
      by (auto simp: rc_new_def rc_open_def load_snapshot_def open_moves_def initial_persisted_def
          dest!: arg_cong [where f = "\<lambda>c. (rc_state c, rc_active_moves c)"])
    with none br that show ?thesis
      by (simp add: rc_inv_def Let_def file_agrees_def load_snapshot_def open_moves_def initial_persisted_def)
  qed
  assume "snapshot_ok cd \<and> rc_inv cd w" "rc_step cd w w'"
  then show "snapshot_ok cd \<and> rc_inv cd w'"
    using exec_rc_inv by (cases w) (auto simp: rc_step_def)
qed

lemma reaches_rc_inv: "snapshot_ok cd \<Longrightarrow> reaches (rc_init cd) (rc_step cd) w \<Longrightarrow> rc_inv cd w"
  using rcs.reaches_inv [of cd w] by simp

section \<open>A sample move\<close>

definition plain_snapshot :: "('a, 'a) snapshot_codec" where
  "plain_snapshot = \<lparr>sn_encode = (\<lambda>x. x), sn_decode = Some\<rparr>"

lemma plain_snapshot_ok: "snapshot_ok plain_snapshot"
  by (simp add: snapshot_ok_def plain_snapshot_def)

definition sample_broker :: "u64 \<Rightarrow> string \<Rightarrow> u32 \<Rightarrow> u32 \<Rightarrow> broker_capacity" where
  "sample_broker n region partitions leaders =
     \<lparr>bc_node_id = n, bc_region = region, bc_zone = ''a'', bc_disk_capacity_bytes = 1000, bc_disk_used_bytes = 100,
      bc_partition_count = partitions, bc_leader_count = leaders, bc_throughput_bytes_per_second = 0,
      bc_max_concurrent_moves = 2, bc_lifecycle = Active\<rparr>"

definition sample_move :: placement_move where
  "sample_move = \<lparr>mv_stream = ''orders'', mv_partition = 0, mv_from = 1, mv_to = 2\<rparr>"

definition sample_controller :: reassignment_controller where
  "sample_controller = \<lparr>rc_durable = True, rc_state = initial_persisted,
     rc_brokers = [(1, sample_broker 1 ''east'' 5 0), (2, sample_broker 2 ''west'' 1 0)], rc_active_moves = 0\<rparr>"

definition sample_progress :: reassignment_progress where
  "sample_progress = \<lparr>rg_high_watermark = Some 7,
     rg_destination = \<lparr>rp_match_offset = Some 7, rp_flushed_offset = None\<rparr>, rg_quorum_available = True\<rparr>"

definition rw_begun :: "persisted_state rc_world" where
  "rw_begun = rc_exec plain_snapshot (RBegin sample_move 3) (sample_controller, None)"

definition rw_catching :: "persisted_state rc_world" where
  "rw_catching = rc_exec plain_snapshot (RAdvance 1 sample_progress) rw_begun"

definition moving :: "reassignment_phase \<Rightarrow> u64 option \<Rightarrow> persisted_state" where
  "moving ph hw = \<lparr>pst_next_id = 2, pst_reassignments = [(1, \<lparr>ra_id = 1, ra_stream = ''orders'', ra_partition = 0,
     ra_source = 1, ra_destination = 2, ra_source_epoch = 3, ra_phase = ph, ra_last_high_watermark = hw\<rparr>)]\<rparr>"

lemma rw_begun_eval:
  "rw_begun = (sample_controller\<lparr>rc_state := moving AddReplica None, rc_active_moves := 1\<rparr>, Some (moving AddReplica None))"
  by (simp add: rw_begun_def rc_begin_def sample_controller_def sample_move_def sample_broker_def eligible_def
      initial_persisted_def moving_def rc_persist_def store_snapshot_def plain_snapshot_def sat_add64_def u64_max_def Let_def)

lemma rw_catching_eval:
  "rw_catching = (sample_controller\<lparr>rc_state := moving CatchingUp (Some 7), rc_active_moves := 1\<rparr>,
     Some (moving CatchingUp (Some 7)))"
  unfolding rw_catching_def rw_begun_eval
  by (simp add: rc_advance_def moving_def sample_controller_def sample_progress_def put_plan_def rc_persist_def
      store_snapshot_def plain_snapshot_def)

lemma rw_catching_reachable: "reaches (rc_init plain_snapshot) (rc_step plain_snapshot) rw_catching"
proof -
  have "rc_open plain_snapshot None [sample_broker 1 ''east'' 5 0, sample_broker 2 ''west'' 1 0] = Ok sample_controller"
    by (simp add: rc_open_def load_snapshot_def sample_controller_def brokers_by_id_def bt_collect_def
        open_moves_def initial_persisted_def sample_broker_def)
  then have "rc_init plain_snapshot (sample_controller, None)"
    by (auto simp: rc_init_def sample_controller_def sample_broker_def u32_max_def)
  then have "reaches (rc_init plain_snapshot) (rc_step plain_snapshot) (sample_controller, None)" by (rule reaches_init)
  moreover have "rc_step plain_snapshot (sample_controller, None) rw_begun" "rc_step plain_snapshot rw_begun rw_catching"
    unfolding rc_step_def rw_begun_def rw_catching_def by blast+
  ultimately show ?thesis by (blast intro: reaches_step)
qed

section \<open>Properties\<close>

text \<open>
  C21. A plan only moves along the phase diagram: leadership is transferred and the source
  removed only by an \<open>advance\<close> that saw a quorum and a destination at the committed high
  watermark, a plan is rolled back only before the transfer, and every other call leaves it.
\<close>

theorem reassignment_follows_phases:
  assumes "snapshot_ok cd" and "reaches (rc_init cd) (rc_step cd) (c, file)"
    and "pst_next_id (rc_state c) < u64_max" and "rc_plan c n = Some r"
    and "rc_exec cd call (c, file) = (c', file')"
  shows "\<exists>r'. rc_plan c' n = Some r'
    \<and> (ra_id r', ra_stream r', ra_partition r', ra_source r', ra_destination r', ra_source_epoch r')
      = (ra_id r, ra_stream r, ra_partition r, ra_source r, ra_destination r, ra_source_epoch r)
    \<and> (ra_phase r' = ra_phase r
       \<or> (\<exists>pg. call = RAdvance n pg \<and> phase_edge pg (ra_phase r) (ra_phase r'))
       \<or> (\<exists>reason. call = RRollback n reason \<and> ra_phase r \<in> {AddReplica, CatchingUp}
            \<and> ra_phase r' = RolledBack reason))"
proof -
  have inv: "rc_inv cd (c, file)" by (rule reaches_rc_inv [OF assms(1,2)])
  then have wf: "bt_wf (pst_reassignments (rc_state c))" by (simp add: rc_inv_def Let_def)
  have r: "map_of (pst_reassignments (rc_state c)) n = Some r" using assms(4) by (simp add: rc_plan_def)
  show ?thesis
  proof (cases call)
    case (RBegin mv epoch)
    have "n < pst_next_id (rc_state c)" using inv r assms(3) by (simp add: rc_inv_def Let_def)
    moreover obtain res where "rc_begin cd mv epoch c file = (res, (c', file'))"
      using assms(5) RBegin by (cases "rc_begin cd mv epoch c file") simp
    then have "c' = c \<or> c' = begun mv epoch c"
      by (cases rule: begin_cases) (simp_all add: rc_persist_def)
    ultimately show ?thesis using r wf by (auto simp: rc_plan_def begun_def Let_def)
  next
    case (RAdvance m pg)
    obtain res where "rc_advance cd m pg c file = (res, (c', file'))"
      using assms(5) RAdvance by (cases "rc_advance cd m pg c file") simp
    then show ?thesis
    proof (cases rule: advance_cases)
      case unknown
      with r show ?thesis by (simp add: rc_plan_def)
    next
      case (refused r0 x)
      with r wf show ?thesis by (cases "m = n") (simp_all add: rc_plan_def put_plan_def)
    next
      case (moved r0 ph)
      with r wf RAdvance show ?thesis
        by (cases "m = n") (auto simp: rc_plan_def put_plan_def rc_persist_def)
    qed
  next
    case (RRollback m reason)
    then have "c' = c \<or> (\<exists>r0. map_of (pst_reassignments (rc_state c)) m = Some r0
        \<and> ra_phase r0 \<in> {AddReplica, CatchingUp}
        \<and> c' = (put_plan m (r0\<lparr>ra_phase := RolledBack reason\<rparr>) c)\<lparr>rc_active_moves := rc_active_moves c - 1\<rparr>)"
      using assms(5) by (auto simp: rc_rollback_def rc_persist_def split: option.splits if_splits)
    with r wf RRollback show ?thesis
      by (cases "m = n") (auto simp: rc_plan_def put_plan_def)
  next
    case (RLifecycle m l)
    then have "rc_state c' = rc_state c"
      using assms(5) by (auto simp: rc_set_broker_lifecycle_def rc_persist_def split: if_splits)
    with r show ?thesis by (simp add: rc_plan_def)
  qed
qed

theorem reassignment_follows_phases_witness:
  "\<exists>r'. rc_plan (fst (rc_exec plain_snapshot (RAdvance 1 sample_progress) rw_catching)) 1 = Some r'
     \<and> ra_destination r' = 2"
proof -
  obtain c' file' where run: "rc_exec plain_snapshot (RAdvance 1 sample_progress) rw_catching = (c', file')"
    by (cases "rc_exec plain_snapshot (RAdvance 1 sample_progress) rw_catching")
  obtain r where r: "rc_plan (fst rw_catching) 1 = Some r" "ra_destination r = 2"
    by (simp add: rw_catching_eval rc_plan_def moving_def)
  have "pst_next_id (rc_state (fst rw_catching)) < u64_max"
    by (simp add: rw_catching_eval moving_def u64_max_def)
  then show ?thesis
    using reassignment_follows_phases [OF plain_snapshot_ok, of "fst rw_catching" "snd rw_catching" 1 r]
      rw_catching_reachable r run by fastforce
qed


text \<open>
  C22. Restart: reopening the file gives a controller with the same plans, in the same phases,
  and the same count of active moves, which is the number of plans that are not terminal. Only
  the last high watermark that a plan saw may be older, as a refused \<open>advance\<close> records it in
  memory alone.
\<close>

theorem reassignment_resumes_after_restart:
  assumes "snapshot_ok cd" and "reaches (rc_init cd) (rc_step cd) (c, file)"
    and "rc_durable c" and "pst_next_id (rc_state c) < u64_max"
  shows "\<exists>c'. rc_open cd file bs = Ok c'
    \<and> (\<forall>n. map_option plan_core (rc_plan c' n) = map_option plan_core (rc_plan c n))
    \<and> pst_next_id (rc_state c') = pst_next_id (rc_state c)
    \<and> rc_active_moves c' = rc_active_moves c \<and> rc_active_moves c = open_moves (rc_state c)"
proof -
  have inv: "rc_inv cd (c, file)" by (rule reaches_rc_inv [OF assms(1,2)])
  then have act: "rc_active_moves c = open_moves (rc_state c)" "rc_active_moves c \<le> u32_max"
    using assms(4) by (simp_all add: rc_inv_def Let_def)
  from inv assms(3) obtain s where s: "load_snapshot cd initial_persisted file = Some s"
    "pst_next_id s = pst_next_id (rc_state c)"
    "bt_map_values plan_core (pst_reassignments s) = bt_map_values plan_core (pst_reassignments (rc_state c))"
    by (auto simp: rc_inv_def Let_def file_agrees_def)
  have "open_moves s = rc_active_moves c" using open_moves_core [OF s(3)] act by simp
  then have "open_moves s mod 2 ^ 32 = rc_active_moves c" using act(2) by (simp add: u32_max_def)
  moreover have "map_option plan_core (map_of (pst_reassignments s) n) =
      map_option plan_core (map_of (pst_reassignments (rc_state c)) n)" for n
    using arg_cong [OF s(3), of "\<lambda>m. map_of m n"] by simp
  ultimately show ?thesis
    using s act by (simp add: rc_open_def rc_plan_def)
qed

theorem reassignment_resumes_after_restart_witness:
  "\<exists>c'. rc_open plain_snapshot (snd rw_catching) [] = Ok c' \<and> rc_active_moves c' = 1"
proof -
  have "rc_durable (fst rw_catching)" "pst_next_id (rc_state (fst rw_catching)) < u64_max"
    "rc_active_moves (fst rw_catching) = 1"
    by (simp_all add: rw_catching_eval moving_def u64_max_def sample_controller_def)
  then show ?thesis
    using reassignment_resumes_after_restart [OF plain_snapshot_ok, of "fst rw_catching" "snd rw_catching" "[]"]
      rw_catching_reachable by auto
qed

end
