(* ===== verification/Placement_Planning.thy ===== *)
theory Placement_Planning
  imports Reassignment_Safety
begin

text \<open>
  The planners and the throttle of \<open>crates/server/src/reassignment.rs\<close>: every planned move and
  leader transfer is one the controller accepts, the throttle stays within its limits, and two
  plans that do not do what they are meant to.
\<close>

section \<open>Planned moves\<close>

lemma brokers_by_id_Some:
  "map_of (brokers_by_id bs) n = Some b \<Longrightarrow> b \<in> set bs \<and> bc_node_id b = n"
  by (auto simp: brokers_by_id_def dest!: map_of_SomeD)

lemma map_filter_mem: "y \<in> set (List.map_filter f xs) \<longleftrightarrow> (\<exists>x\<in>set xs. f x = Some y)"
  by (force simp: List.map_filter_def)

definition valid_move ::
  "partition_placement list \<Rightarrow> broker_capacity list \<Rightarrow> placement_move \<Rightarrow> bool" where
  "valid_move ps bs mv \<longleftrightarrow>
     (\<exists>p\<in>set ps. \<exists>source\<in>set bs. \<exists>b\<in>set bs.
        mv_stream mv = pl_stream p \<and> mv_partition mv = pl_partition p
        \<and> mv_from mv \<in> pl_replicas p \<and> mv_to mv \<notin> pl_replicas p
        \<and> bc_node_id source = mv_from mv \<and> bc_node_id b = mv_to mv \<and> eligible b
        \<and> (pk_allowed_regions (pl_constraints p) = {} \<or> bc_region b \<in> pk_allowed_regions (pl_constraints p)))"

lemma plan_move_step_valid:
  assumes "finite (pl_replicas p)" and "p \<in> set ps"
    and "\<forall>mv\<in>set (fst acc). valid_move ps bs mv"
  shows "\<forall>mv\<in>set (fst (plan_move_step bs p acc)). valid_move ps bs mv"
proof -
  obtain moves load where acc: "acc = (moves, load)" by (cases acc)
  let ?sources = "List.map_filter (map_of (brokers_by_id bs)) (sorted_list_of_set (pl_replicas p))"
  let ?dests = "\<lambda>source. filter (\<lambda>b. bc_region b \<noteq> bc_region source
       \<or> pk_min_distinct_regions (pl_constraints p) \<le> distinct_regions (pl_replicas p) (brokers_by_id bs))
     (filter (\<lambda>b. pk_allowed_regions (pl_constraints p) = {} \<or> bc_region b \<in> pk_allowed_regions (pl_constraints p))
       (filter (\<lambda>b. eligible b \<and> bc_node_id b \<notin> pl_replicas p) bs))"
  show ?thesis
  proof (cases "\<exists>source d. max_by_key (score_now load) ?sources = Some source
      \<and> min_by_key (score_now load) (?dests source) = Some d \<and> score_now load d < score_now load source")
    case False
    then have "plan_move_step bs p acc = acc"
      by (auto simp: plan_move_step_def acc Let_def split: option.splits)
    with assms(3) show ?thesis by simp
  next
    case True
    then obtain source d where src: "max_by_key (score_now load) ?sources = Some source"
      and dst: "min_by_key (score_now load) (?dests source) = Some d"
      and lt: "score_now load d < score_now load source" by blast
    from max_by_key_Some [OF src] assms(1) have "bc_node_id source \<in> pl_replicas p" "source \<in> set bs"
      using brokers_by_id_Some by (auto simp: map_filter_mem)
    moreover from min_by_key_Some [OF dst] have "d \<in> set bs" "eligible d" "bc_node_id d \<notin> pl_replicas p"
      "pk_allowed_regions (pl_constraints p) = {} \<or> bc_region d \<in> pk_allowed_regions (pl_constraints p)" by auto
    ultimately have "valid_move ps bs \<lparr>mv_stream = pl_stream p, mv_partition = pl_partition p,
        mv_from = bc_node_id source, mv_to = bc_node_id d\<rparr>"
      using assms(2) by (auto simp: valid_move_def)
    moreover have "fst (plan_move_step bs p acc) = moves @ [\<lparr>mv_stream = pl_stream p,
        mv_partition = pl_partition p, mv_from = bc_node_id source, mv_to = bc_node_id d\<rparr>]"
      using src dst lt by (simp add: plan_move_step_def acc Let_def)
    ultimately show ?thesis using assms(3) acc by simp
  qed
qed

lemma fold_plan_valid:
  assumes "\<forall>p\<in>set qs. finite (pl_replicas p) \<and> p \<in> set ps" and "\<forall>mv\<in>set (fst acc). valid_move ps bs mv"
  shows "\<forall>mv\<in>set (fst (fold (plan_move_step bs) qs acc)). valid_move ps bs mv"
  using assms
proof (induction qs arbitrary: acc)
  case (Cons q qs)
  then show ?case using plan_move_step_valid [of q ps acc bs] by simp
qed simp

text \<open>The transfers: between two replicas of the placement, to an eligible broker.\<close>

definition valid_transfer ::
  "partition_placement list \<Rightarrow> broker_capacity list \<Rightarrow> placement_move \<Rightarrow> bool" where
  "valid_transfer ps bs mv \<longleftrightarrow>
     (\<exists>p\<in>set ps. \<exists>b\<in>set bs.
        mv_stream mv = pl_stream p \<and> mv_partition mv = pl_partition p
        \<and> mv_from mv = pl_leader p \<and> mv_to mv \<in> pl_replicas p \<and> mv_to mv \<noteq> pl_leader p
        \<and> bc_node_id b = mv_to mv \<and> eligible b)"

lemma leader_transfer_step_valid:
  assumes "finite (pl_replicas p)" and "p \<in> set ps"
    and "\<forall>mv\<in>set (fst acc). valid_transfer ps bs mv"
  shows "\<forall>mv\<in>set (fst (leader_transfer_step bs p acc)). valid_transfer ps bs mv"
proof -
  obtain ts leaders where acc: "acc = (ts, leaders)" by (cases acc)
  let ?key = "\<lambda>b. (leaders_of leaders (bc_node_id b), bc_throughput_bytes_per_second b, bc_node_id b)"
  let ?dests = "filter eligible (List.map_filter (map_of (brokers_by_id bs))
      (filter (\<lambda>n. n \<noteq> pl_leader p) (sorted_list_of_set (pl_replicas p))))"
  show ?thesis
  proof (cases "\<exists>source d. map_of (brokers_by_id bs) (pl_leader p) = Some source \<and> min_by_key ?key ?dests = Some d
      \<and> leaders_of leaders (bc_node_id d) < leaders_of leaders (bc_node_id source)")
    case False
    then have "leader_transfer_step bs p acc = acc"
      by (auto simp: leader_transfer_step_def acc Let_def split: option.splits)
    with assms(3) show ?thesis by simp
  next
    case True
    then obtain source d where src: "map_of (brokers_by_id bs) (pl_leader p) = Some source"
      and dst: "min_by_key ?key ?dests = Some d"
      and lt: "leaders_of leaders (bc_node_id d) < leaders_of leaders (bc_node_id source)" by blast
    have "bc_node_id source = pl_leader p" using brokers_by_id_Some [OF src] by simp
    moreover from min_by_key_Some [OF dst] assms(1) have "eligible d" "d \<in> set bs"
      "bc_node_id d \<in> pl_replicas p" "bc_node_id d \<noteq> pl_leader p"
      by (auto simp: map_filter_mem dest!: brokers_by_id_Some)
    ultimately have "valid_transfer ps bs \<lparr>mv_stream = pl_stream p, mv_partition = pl_partition p,
        mv_from = bc_node_id source, mv_to = bc_node_id d\<rparr>"
      using assms(2) by (auto simp: valid_transfer_def)
    moreover have "fst (leader_transfer_step bs p acc) = ts @ [\<lparr>mv_stream = pl_stream p,
        mv_partition = pl_partition p, mv_from = bc_node_id source, mv_to = bc_node_id d\<rparr>]"
      using src dst lt by (simp add: leader_transfer_step_def acc Let_def)
    ultimately show ?thesis using assms(3) acc by simp
  qed
qed

lemma fold_transfer_valid:
  assumes "\<forall>p\<in>set qs. finite (pl_replicas p) \<and> p \<in> set ps" and "\<forall>mv\<in>set (fst acc). valid_transfer ps bs mv"
  shows "\<forall>mv\<in>set (fst (fold (leader_transfer_step bs) qs acc)). valid_transfer ps bs mv"
  using assms
proof (induction qs arbitrary: acc)
  case (Cons q qs)
  then show ?case using leader_transfer_step_valid [of q ps acc bs] by simp
qed simp

section \<open>Sample placements\<close>

definition sample_placement :: "nat \<Rightarrow> u64 set \<Rightarrow> u64 \<Rightarrow> partition_placement" where
  "sample_placement regions replicas leader =
     \<lparr>pl_stream = ''orders'', pl_partition = 0, pl_replicas = replicas, pl_leader = leader,
      pl_constraints = \<lparr>pk_min_distinct_regions = regions, pk_min_distinct_zones = 0, pk_allowed_regions = {}\<rparr>\<rparr>"

definition three_brokers :: "broker_capacity list" where
  "three_brokers = [sample_broker 1 ''east'' 5 1, sample_broker 2 ''west'' 1 0, sample_broker 3 ''west'' 0 0]"

lemmas plan_eval = plan_moves_def plan_move_step_def plan_leader_transfers_def leader_transfer_step_def
  initial_load_def brokers_by_id_def bt_collect_def score_now_def load_score_def disk_share_def
  List.map_filter_def leaders_of_def sample_placement_def sample_broker_def three_brokers_def eligible_def
  sorted_list_of_set_insert_remove bt_update_def Let_def u32_max_def distinct_regions_def

lemma move_plan_eval:
  "plan_moves [sample_placement 2 {1, 2} 1] three_brokers =
     [\<lparr>mv_stream = ''orders'', mv_partition = 0, mv_from = 1, mv_to = 3\<rparr>]"
  by (simp add: plan_eval)


section \<open>The throttle\<close>

definition throttle_ok :: "move_throttle \<Rightarrow> bool" where
  "throttle_ok t \<longleftrightarrow> mt_active_moves t \<le> mt_max_concurrent_moves t
     \<and> mt_bytes_in_window t \<le> mt_max_bytes_per_window t"

inductive throttle_step :: "move_throttle \<Rightarrow> move_throttle \<Rightarrow> bool" where
  step_start: "throttle_try_start t bytes = Some (ok, t') \<Longrightarrow> throttle_step t t'"
| step_finish: "throttle_step t (throttle_finish t)"
| step_reset: "throttle_step t (throttle_reset_window t)"

lemma throttle_start_refused:
  assumes "mt_active_moves t \<ge> mt_max_concurrent_moves t
      \<or> word_sat_add (mt_bytes_in_window t) bytes > mt_max_bytes_per_window t"
  shows "throttle_try_start t bytes = Some (False, t)"
  using assms by (simp add: throttle_try_start_def)

lemma throttle_start_admitted:
  assumes "mt_active_moves t < mt_max_concurrent_moves t"
    and "word_sat_add (mt_bytes_in_window t) bytes \<le> mt_max_bytes_per_window t"
    and "mt_max_bytes_per_window t < - 1"
  shows "\<exists>t'. throttle_try_start t bytes = Some (True, t') \<and> throttle_ok t'
    \<and> unat (mt_active_moves t') = unat (mt_active_moves t) + 1
    \<and> unat (mt_bytes_in_window t') = unat (mt_bytes_in_window t) + unat bytes
    \<and> mt_max_concurrent_moves t' = mt_max_concurrent_moves t
    \<and> mt_max_bytes_per_window t' = mt_max_bytes_per_window t"
proof -
  have lt: "unat (mt_active_moves t) < unat (mt_max_concurrent_moves t)"
    using assms(1) by (simp add: word_less_nat_alt)
  moreover have "unat (mt_max_concurrent_moves t) < 2 ^ 32"
    by (rule order_less_le_trans [OF unsigned_less]) simp
  ultimately obtain a where a: "checked_add (mt_active_moves t) 1 = Some a"
    and ua: "unat a = unat (mt_active_moves t) + 1"
    using checked_add_Some [of "mt_active_moves t" 1] by (auto simp: checked_add_def split: if_splits)
  have "unat (mt_max_bytes_per_window t) < unat (- 1 :: 64 word)"
    using assms(3) by (simp add: word_less_nat_alt)
  then have small: "unat (mt_max_bytes_per_window t) < 2 ^ 64 - 1"
    by (simp add: unsigned_minus_1_eq_mask mask_eq_exp_minus_1)
  have "min (unat (mt_bytes_in_window t) + unat bytes) (2 ^ 64 - 1) \<le> unat (mt_max_bytes_per_window t)"
    using assms(2) by (simp add: word_le_nat_alt unat_word_sat_add)
  with small have sum: "unat (mt_bytes_in_window t) + unat bytes \<le> unat (mt_max_bytes_per_window t)" by linarith
  with small obtain b where b: "checked_add (mt_bytes_in_window t) bytes = Some b"
    and ub: "unat b = unat (mt_bytes_in_window t) + unat bytes"
    using checked_add_Some [of "mt_bytes_in_window t" bytes] by (auto simp: checked_add_def split: if_splits)
  show ?thesis
    using assms(1,2) a b ua ub lt sum
    by (simp add: throttle_try_start_def throttle_ok_def word_le_nat_alt not_le not_less)
qed

interpretation throttle: invariant_system "\<lambda>t. \<exists>m b. b < - 1 \<and> t = throttle_new m b" throttle_step
  "\<lambda>t. throttle_ok t \<and> mt_max_bytes_per_window t < - 1"
proof
  fix s t
  show "throttle_ok s \<and> mt_max_bytes_per_window s < - 1" if "\<exists>m b. b < - 1 \<and> s = throttle_new m b"
    using that by (auto simp: throttle_ok_def throttle_new_def)
  assume inv: "throttle_ok s \<and> mt_max_bytes_per_window s < - 1" and "throttle_step s t"
  from this(2) show "throttle_ok t \<and> mt_max_bytes_per_window t < - 1"
  proof cases
    case (step_start bytes ok)
    show ?thesis
    proof (cases "mt_active_moves s \<ge> mt_max_concurrent_moves s
        \<or> word_sat_add (mt_bytes_in_window s) bytes > mt_max_bytes_per_window s")
      case True
      with throttle_start_refused [OF True] step_start inv show ?thesis by simp
    next
      case False
      with throttle_start_admitted [of s bytes] step_start inv show ?thesis by auto
    qed
  next
    case step_finish
    have "word_sat_sub (mt_active_moves s) 1 \<le> mt_active_moves s"
      by (simp add: word_le_nat_alt unat_word_sat_sub)
    with inv step_finish show ?thesis
      by (auto simp: throttle_ok_def throttle_finish_def intro: order_trans)
  next
    case step_reset
    with inv show ?thesis by (simp add: throttle_ok_def throttle_reset_window_def)
  qed
qed

section \<open>Properties\<close>

lemma begin_valid_move:
  assumes "valid_move ps bs mv" and "\<forall>b\<in>set bs. map_of (rc_brokers c) (bc_node_id b) = Some b"
  shows "\<exists>source destination. map_of (rc_brokers c) (mv_from mv) = Some source \<and> map_of (rc_brokers c) (mv_to mv) = Some destination
    \<and> (if bc_lifecycle source = Decommissioned
       then rc_begin cd mv epoch c file = (Err ''source broker is decommissioned'', c, file)
       else if bc_max_concurrent_moves destination \<le> rc_active_moves c
       then rc_begin cd mv epoch c file = (Err ''move concurrency limit reached'', c, file)
       else \<exists>c' file'. rc_begin cd mv epoch c file = (Ok (pst_next_id (rc_state c)), c', file')
         \<and> rc_active_moves c' = rc_active_moves c + 1
         \<and> pst_reassignments (rc_state c') = bt_insert (pst_next_id (rc_state c))
             \<lparr>ra_id = pst_next_id (rc_state c), ra_stream = mv_stream mv, ra_partition = mv_partition mv,
              ra_source = mv_from mv, ra_destination = mv_to mv, ra_source_epoch = epoch, ra_phase = AddReplica,
              ra_last_high_watermark = None\<rparr> (pst_reassignments (rc_state c)))"
proof -
  from assms obtain source b where b: "map_of (rc_brokers c) (mv_from mv) = Some source" "map_of (rc_brokers c) (mv_to mv) = Some b"
      "eligible b" "mv_from mv \<noteq> mv_to mv"
    unfolding valid_move_def by metis
  then show ?thesis by (auto simp: rc_begin_def rc_persist_def Let_def)
qed



text \<open>The planner does not look at the lifecycle of the source: it plans a move from a broker that was decommissioned.\<close>

theorem decommissioned_source_planned:
  "\<exists>bs mv. plan_moves [sample_placement 0 {1} 1] bs = [mv] \<and> mv_from mv = 1
     \<and> fst (rc_begin plain_snapshot mv 7 (rc_new bs) None) = Err ''source broker is decommissioned''"
proof -
  let ?bs = "[(sample_broker 1 ''east'' 5 1)\<lparr>bc_lifecycle := Decommissioned\<rparr>, sample_broker 2 ''west'' 0 0]"
  let ?mv = "\<lparr>mv_stream = ''orders'', mv_partition = 0, mv_from = 1, mv_to = 2\<rparr>"
  have "plan_moves [sample_placement 0 {1} 1] ?bs = [?mv]" by (simp add: plan_eval)
  moreover have "fst (rc_begin plain_snapshot ?mv 7 (rc_new ?bs) None) = Err ''source broker is decommissioned''"
    by (simp add: rc_begin_def rc_new_def brokers_by_id_def sample_broker_def bt_collect_def)
  ultimately show ?thesis by (intro exI [of _ ?bs] exI [of _ ?mv]) simp
qed

text \<open>
  Throttle: with a window below \<open>u64::MAX\<close>, every reachable throttle is within its two
  limits, and a start never overflows: it is refused without effect exactly when a limit would
  be passed, and otherwise adds one move and the estimated bytes.
\<close>

theorem throttle_stays_in_bounds:
  assumes "reaches (\<lambda>t. \<exists>m b. b < - 1 \<and> t = throttle_new m b) throttle_step t"
  shows "mt_active_moves t \<le> mt_max_concurrent_moves t \<and> mt_bytes_in_window t \<le> mt_max_bytes_per_window t
    \<and> (\<exists>ok t'. throttle_try_start t bytes = Some (ok, t')
        \<and> (ok \<longleftrightarrow> mt_active_moves t < mt_max_concurrent_moves t
              \<and> unat (mt_bytes_in_window t) + unat bytes \<le> unat (mt_max_bytes_per_window t))
        \<and> (\<not> ok \<longrightarrow> t' = t)
        \<and> (ok \<longrightarrow> unat (mt_active_moves t') = unat (mt_active_moves t) + 1
              \<and> unat (mt_bytes_in_window t') = unat (mt_bytes_in_window t) + unat bytes))"
proof -
  have inv: "throttle_ok t" "mt_max_bytes_per_window t < - 1"
    using throttle.reaches_inv [OF assms] by auto
  have "unat (mt_max_bytes_per_window t) < unat (- 1 :: 64 word)"
    using inv(2) by (simp add: word_less_nat_alt)
  then have small: "unat (mt_max_bytes_per_window t) < 2 ^ 64 - 1"
    by (simp add: unsigned_minus_1_eq_mask mask_eq_exp_minus_1)
  have sat: "word_sat_add (mt_bytes_in_window t) bytes \<le> mt_max_bytes_per_window t \<longleftrightarrow>
      unat (mt_bytes_in_window t) + unat bytes \<le> unat (mt_max_bytes_per_window t)"
    using small by (simp add: word_le_nat_alt unat_word_sat_add) linarith
  show ?thesis
  proof (cases "mt_active_moves t < mt_max_concurrent_moves t
      \<and> word_sat_add (mt_bytes_in_window t) bytes \<le> mt_max_bytes_per_window t")
    case True
    with throttle_start_admitted [of t bytes] inv sat show ?thesis by (auto simp: throttle_ok_def)
  next
    case False
    then have "mt_active_moves t \<ge> mt_max_concurrent_moves t
      \<or> word_sat_add (mt_bytes_in_window t) bytes > mt_max_bytes_per_window t" by auto
    from throttle_start_refused [OF this] False inv sat show ?thesis by (auto simp: throttle_ok_def)
  qed
qed

theorem throttle_stays_in_bounds_witness:
  "\<exists>ok t'. throttle_try_start (throttle_new 1 100) 101 = Some (ok, t') \<and> \<not> ok"
proof -
  have "\<exists>m b. b < - 1 \<and> throttle_new 1 100 = throttle_new m b" by (rule exI [of _ 1], rule exI [of _ 100]) simp
  then have "reaches (\<lambda>t. \<exists>m b. b < - 1 \<and> t = throttle_new m b) throttle_step (throttle_new 1 100)"
    by (rule reaches_init)
  from throttle_stays_in_bounds [OF this, of 101] show ?thesis
    by (auto simp: throttle_new_def)
qed

section \<open>Three weaknesses\<close>

text \<open>
  With the window at \<open>u64::MAX\<close> the saturated comparison always passes and the addition after it
  overflows, which panics.
\<close>

theorem throttle_overflows_at_max:
  "throttle_try_start \<lparr>mt_max_concurrent_moves = 2, mt_max_bytes_per_window = - 1, mt_active_moves = 0,
     mt_bytes_in_window = 1\<rparr> (- 1) = None"
  by (simp add: throttle_try_start_def checked_add_def unsigned_minus_1_eq_mask mask_eq_exp_minus_1)

text \<open>
  The region constraint only looks at whether the destination leaves the source's region. A
  placement that must span two regions is moved from \<open>east\<close>, \<open>west\<close> to \<open>west\<close>, \<open>west\<close>.
\<close>

theorem planned_move_breaks_region_constraint:
  "distinct_regions {1, 2} (brokers_by_id three_brokers) = 2
   \<and> plan_moves [sample_placement 2 {1, 2} 1] three_brokers =
       [\<lparr>mv_stream = ''orders'', mv_partition = 0, mv_from = 1, mv_to = 3\<rparr>]
   \<and> distinct_regions {2, 3} (brokers_by_id three_brokers) = 1"
  by (simp add: move_plan_eval) (simp add: plan_eval)

text \<open>
  A transfer is planned as soon as a replica has one leader less. With one partition on two
  brokers it is planned forth, and, once carried out, back.
\<close>

theorem leader_transfers_oscillate:
  "map mv_to (plan_leader_transfers [sample_placement 0 {1, 2} 1] [sample_broker 1 ''east'' 1 1, sample_broker 2 ''west'' 1 0]) = [2]
   \<and> map mv_to (plan_leader_transfers [sample_placement 0 {1, 2} 2] [sample_broker 1 ''east'' 1 0, sample_broker 2 ''west'' 1 1]) = [1]"
  by (simp add: plan_eval)

end
