(* ===== verification/Resource_Budget.thy ===== *)
theory Resource_Budget
  imports Message_Envelope
begin

text \<open>
  The interface that the broker's admission controls share, and the first of them: the work
  scheduler of \<open>crates/server/src/work_scheduler.rs\<close>.

  A budget keeps usage per key and dimension. What a client relies on: a granted reservation
  adds exactly what was asked and stays within the limit, a refused one changes no usage, no
  other key is touched, and releasing what was reserved restores the usage. A reservation whose sums
  fit the counters returns.
\<close>

section \<open>The interface\<close>

locale resource_budget =
  fixes ok :: "'s \<Rightarrow> bool"
    and usage :: "'s \<Rightarrow> 'k \<Rightarrow> 'd \<Rightarrow> nat"
    and limit :: "'s \<Rightarrow> 'k \<Rightarrow> 'd \<Rightarrow> nat"
    and reserve :: "'k \<Rightarrow> 'r \<Rightarrow> 's \<Rightarrow> (bool \<times> 's) option"
    and release :: "'k \<Rightarrow> 'r \<Rightarrow> 's \<Rightarrow> 's"
    and amount :: "'r \<Rightarrow> 'd \<Rightarrow> nat"
    and fits :: "'s \<Rightarrow> 'k \<Rightarrow> 'r \<Rightarrow> bool"
  assumes reserve_total: "ok s \<Longrightarrow> fits s k r \<Longrightarrow> reserve k r s \<noteq> None"
    and reserve_granted: "ok s \<Longrightarrow> reserve k r s = Some (True, s') \<Longrightarrow>
      ok s' \<and> limit s' = limit s \<and> usage s' k d = usage s k d + amount r d \<and> usage s' k d \<le> limit s k d"
    and reserve_frame: "ok s \<Longrightarrow> reserve k r s = Some (b, s') \<Longrightarrow> k' \<noteq> k \<Longrightarrow> usage s' k' = usage s k'"
    and reserve_refused: "ok s \<Longrightarrow> reserve k r s = Some (False, s') \<Longrightarrow>
      ok s' \<and> limit s' = limit s \<and> usage s' k = usage s k"
    and release_law: "ok s \<Longrightarrow> ok (release k r s) \<and> limit (release k r s) = limit s
      \<and> usage (release k r s) k' d = usage s k' d - (if k' = k then amount r d else 0)"
begin

lemma reserve_release: "ok s \<Longrightarrow> reserve k r s = Some (True, s') \<Longrightarrow> usage (release k r s') = usage s"
proof (intro ext)
  fix k' d
  assume s: "ok s" "reserve k r s = Some (True, s')"
  then have "ok s'" using reserve_granted by blast
  then have "usage (release k r s') k' d = usage s' k' d - (if k' = k then amount r d else 0)"
    using release_law by blast
  then show "usage (release k r s') k' d = usage s k' d"
    using reserve_granted [OF s, of d] reserve_frame [OF s, of k'] by (cases "k' = k") simp_all
qed

definition within :: "'s \<Rightarrow> bool" where
  "within s \<longleftrightarrow> (\<forall>k d. usage s k d \<le> limit s k d)"

lemma within_reserve: "ok s \<Longrightarrow> within s \<Longrightarrow> reserve k r s = Some (b, s') \<Longrightarrow> ok s' \<and> within s'"
proof -
  assume s: "ok s" "within s" "reserve k r s = Some (b, s')"
  consider (granted) "reserve k r s = Some (True, s')" | (refused) "reserve k r s = Some (False, s')"
    using s(3) by (cases b) simp_all
  then have law: "ok s' \<and> limit s' = limit s \<and> (\<forall>d. usage s' k d \<le> limit s k d)"
  proof cases
    case granted
    from reserve_granted [OF s(1) granted] show ?thesis by blast
  next
    case refused
    from reserve_refused [OF s(1) refused] s(2) show ?thesis by (simp add: within_def)
  qed
  moreover have "usage s' k' d \<le> limit s k' d" if "k' \<noteq> k" for k' d
    using reserve_frame [OF s(1,3) that] s(2) by (simp add: within_def)
  ultimately show ?thesis by (metis within_def)
qed

text \<open>The usage is what the reservations that are held add up to.\<close>

definition accounted :: "'s \<Rightarrow> ('k \<times> 'r) list \<Rightarrow> bool" where
  "accounted s held \<longleftrightarrow> (\<forall>k d. usage s k d = (\<Sum>(k', r)\<leftarrow>held. if k' = k then amount r d else 0))"

lemma accounted_reserve:
  assumes "ok s" "accounted s held" "reserve k r s = Some (b, s')"
  shows "accounted s' (if b then (k, r) # held else held)"
  unfolding accounted_def
proof (intro allI)
  fix k' d
  show "usage s' k' d = (\<Sum>(k'', r)\<leftarrow>(if b then (k, r) # held else held). if k'' = k' then amount r d else 0)"
    using assms reserve_granted [of s k r s' d] reserve_refused [of s k r s'] reserve_frame [OF assms(1,3), of k']
    by (cases b; cases "k' = k") (simp_all add: accounted_def)
qed

lemma accounted_release:
  assumes "ok s" "accounted s held" "(k, r) \<in> set held"
  shows "accounted (release k r s) (remove1 (k, r) held)"
  unfolding accounted_def
proof (intro allI)
  fix k' d
  have "(\<Sum>(k'', r)\<leftarrow>held. if k'' = k' then amount r d else 0)
      = (if k = k' then amount r d else 0) + (\<Sum>(k'', r)\<leftarrow>remove1 (k, r) held. if k'' = k' then amount r d else 0)"
    using sum_list_map_remove1 [OF assms(3), of "\<lambda>(k'', r). if k'' = k' then amount r d else 0"] by simp
  then show "usage (release k r s) k' d = (\<Sum>(k'', r)\<leftarrow>remove1 (k, r) held. if k'' = k' then amount r d else 0)"
    using assms(2) release_law [OF assms(1), of k r k' d] by (auto simp: accounted_def)
qed

lemma within_release: "ok s \<Longrightarrow> within s \<Longrightarrow> ok (release k r s) \<and> within (release k r s)"
  using release_law by (simp add: within_def) (meson diff_le_self le_trans)

end

section \<open>The work scheduler\<close>

datatype work_class =
    Control | Foreground | Observer | CatchUp | SnapshotWork | ReassignmentWork | RetentionWork | CompactionWork

fun class_index :: "work_class \<Rightarrow> nat" where
  "class_index Control = 0"
| "class_index Foreground = 1"
| "class_index Observer = 2"
| "class_index CatchUp = 3"
| "class_index SnapshotWork = 4"
| "class_index ReassignmentWork = 5"
| "class_index RetentionWork = 6"
| "class_index CompactionWork = 7"

lemma class_index_inj: "class_index a = class_index b \<Longrightarrow> a = b"
  by (cases a; cases b) simp_all

text \<open>The derived \<open>Ord\<close>: the order of declaration.\<close>

instantiation work_class :: linorder
begin

definition less_eq_work_class :: "work_class \<Rightarrow> work_class \<Rightarrow> bool" where
  "less_eq_work_class a b \<longleftrightarrow> class_index a \<le> class_index b"

definition less_work_class :: "work_class \<Rightarrow> work_class \<Rightarrow> bool" where
  "less_work_class a b \<longleftrightarrow> class_index a < class_index b"

instance
  by standard (auto simp: less_eq_work_class_def less_work_class_def class_index_inj)

end

record work_budget =
  wb_max_records :: "64 word"
  wb_max_bytes :: "64 word"
  wb_max_concurrency :: "32 word"

record work_usage =
  wu_records :: "64 word"
  wu_bytes :: "64 word"
  wu_concurrency :: "32 word"
  wu_rejected :: "64 word"

record work_scheduler =
  ws_budgets :: "(work_class, work_budget) btree_map"
  ws_usage :: "(work_class, work_usage) btree_map"

definition default_work_usage :: work_usage where
  "default_work_usage = \<lparr>wu_records = 0, wu_bytes = 0, wu_concurrency = 0, wu_rejected = 0\<rparr>"

definition sched_new :: "(work_class \<times> work_budget) list \<Rightarrow> work_scheduler" where
  "sched_new bs =
     (let budgets = bt_collect bs
      in \<lparr>ws_budgets = budgets, ws_usage = bt_collect (map (\<lambda>k. (k, default_work_usage)) (bt_keys budgets))\<rparr>)"

definition sched_usage :: "work_scheduler \<Rightarrow> work_class \<Rightarrow> work_usage" where
  "sched_usage s k = (case map_of (ws_usage s) k of None \<Rightarrow> default_work_usage | Some u \<Rightarrow> u)"

text \<open>\<open>None\<close> is the panic of an overflowing \<open>+=\<close>.\<close>

definition sched_try_reserve ::
  "work_class \<Rightarrow> 64 word \<times> 64 word \<Rightarrow> work_scheduler \<Rightarrow> (bool \<times> work_scheduler) option" where
  "sched_try_reserve k request s =
     (let (records, bytes) = request in
      case map_of (ws_budgets s) k of
        None \<Rightarrow> Some (False, s)
      | Some b \<Rightarrow>
         (let u = sched_usage s k in
          if word_sat_add (wu_records u) records > wb_max_records b
             \<or> word_sat_add (wu_bytes u) bytes > wb_max_bytes b
             \<or> word_sat_add (wu_concurrency u) 1 > wb_max_concurrency b
          then Some (False, s\<lparr>ws_usage := bt_insert k (u\<lparr>wu_rejected := word_sat_add (wu_rejected u) 1\<rparr>) (ws_usage s)\<rparr>)
          else
            Option.bind (checked_add (wu_records u) records) (\<lambda>r.
            Option.bind (checked_add (wu_bytes u) bytes) (\<lambda>y.
            Option.bind (checked_add (wu_concurrency u) 1) (\<lambda>c.
              Some (True, s\<lparr>ws_usage := bt_insert k
                (u\<lparr>wu_records := r, wu_bytes := y, wu_concurrency := c\<rparr>) (ws_usage s)\<rparr>))))))"

definition sched_release :: "work_class \<Rightarrow> 64 word \<times> 64 word \<Rightarrow> work_scheduler \<Rightarrow> work_scheduler" where
  "sched_release k request s =
     (let (records, bytes) = request; u = sched_usage s k
      in s\<lparr>ws_usage := bt_insert k
           (u\<lparr>wu_records := word_sat_sub (wu_records u) records, wu_bytes := word_sat_sub (wu_bytes u) bytes,
              wu_concurrency := word_sat_sub (wu_concurrency u) 1\<rparr>) (ws_usage s)\<rparr>)"

record work_reservation =
  wr_class :: work_class
  wr_records :: "64 word"
  wr_bytes :: "64 word"

definition reservation_try_acquire ::
  "work_class \<Rightarrow> 64 word \<Rightarrow> 64 word \<Rightarrow> work_scheduler \<Rightarrow> (work_reservation option \<times> work_scheduler) option" where
  "reservation_try_acquire k records bytes s =
     map_option (\<lambda>(ok, s'). (if ok then Some \<lparr>wr_class = k, wr_records = records, wr_bytes = bytes\<rparr> else None, s'))
       (sched_try_reserve k (records, bytes) s)"

text \<open>\<open>Drop\<close> releases through the current runtime; without one, nothing is released.\<close>

definition reservation_drop :: "bool \<Rightarrow> work_reservation \<Rightarrow> work_scheduler \<Rightarrow> work_scheduler" where
  "reservation_drop has_runtime r s =
     (if has_runtime then sched_release (wr_class r) (wr_records r, wr_bytes r) s else s)"

subsection \<open>The scheduler is a budget\<close>

datatype work_dimension = WRecords | WBytes | WConcurrency

fun work_used :: "work_scheduler \<Rightarrow> work_class \<Rightarrow> work_dimension \<Rightarrow> nat" where
  "work_used s k WRecords = unat (wu_records (sched_usage s k))"
| "work_used s k WBytes = unat (wu_bytes (sched_usage s k))"
| "work_used s k WConcurrency = unat (wu_concurrency (sched_usage s k))"

fun work_limit :: "work_scheduler \<Rightarrow> work_class \<Rightarrow> work_dimension \<Rightarrow> nat" where
  "work_limit s k WRecords = (case map_of (ws_budgets s) k of None \<Rightarrow> 0 | Some b \<Rightarrow> unat (wb_max_records b))"
| "work_limit s k WBytes = (case map_of (ws_budgets s) k of None \<Rightarrow> 0 | Some b \<Rightarrow> unat (wb_max_bytes b))"
| "work_limit s k WConcurrency = (case map_of (ws_budgets s) k of None \<Rightarrow> 0 | Some b \<Rightarrow> unat (wb_max_concurrency b))"

fun work_amount :: "64 word \<times> 64 word \<Rightarrow> work_dimension \<Rightarrow> nat" where
  "work_amount (records, bytes) WRecords = unat records"
| "work_amount (records, bytes) WBytes = unat bytes"
| "work_amount (records, bytes) WConcurrency = 1"

definition sched_ok :: "work_scheduler \<Rightarrow> bool" where
  "sched_ok s \<longleftrightarrow> bt_wf (ws_usage s)"

text \<open>The sums stay within the counters.\<close>

definition work_fits :: "work_scheduler \<Rightarrow> work_class \<Rightarrow> 64 word \<times> 64 word \<Rightarrow> bool" where
  "work_fits s k request \<longleftrightarrow>
     work_used s k WRecords + work_amount request WRecords < 2 ^ 64
     \<and> work_used s k WBytes + work_amount request WBytes < 2 ^ 64
     \<and> work_used s k WConcurrency + 1 < 2 ^ 32"

lemma sched_usage_put:
  "bt_wf (ws_usage s) \<Longrightarrow>
     sched_usage (s\<lparr>ws_usage := bt_insert k u (ws_usage s)\<rparr>) k' = (if k' = k then u else sched_usage s k')"
  by (simp add: sched_usage_def)

lemma work_limit_put [simp]: "work_limit (s\<lparr>ws_usage := m\<rparr>) = work_limit s"
proof (intro ext)
  fix k d
  show "work_limit (s\<lparr>ws_usage := m\<rparr>) k d = work_limit s k d" by (cases d) simp_all
qed

lemma work_used_cong: "sched_usage s k = sched_usage t k \<Longrightarrow> work_used s k = work_used t k"
proof
  fix d
  assume "sched_usage s k = sched_usage t k"
  then show "work_used s k d = work_used t k d" by (cases d) simp_all
qed

lemma checked_sat_le:
  assumes "checked_add a b = Some c" "word_sat_add a b \<le> limit"
  shows "unat c = unat a + unat b" "c \<le> limit"
proof -
  show "unat c = unat a + unat b" using assms(1) by (simp add: checked_add_Some)
  show "c \<le> limit" using assms by (auto simp: checked_add_def word_sat_add_def split: if_splits)
qed

lemma sched_reserve_cases:
  obtains (refused) u where "sched_try_reserve k (n, y) s = Some (False, s)
      \<or> sched_try_reserve k (n, y) s = Some (False, s\<lparr>ws_usage := bt_insert k u (ws_usage s)\<rparr>)"
      "wu_records u = wu_records (sched_usage s k)" "wu_bytes u = wu_bytes (sched_usage s k)"
      "wu_concurrency u = wu_concurrency (sched_usage s k)"
  | (granted) b u where "map_of (ws_budgets s) k = Some b"
      "sched_try_reserve k (n, y) s = Some (True, s\<lparr>ws_usage := bt_insert k u (ws_usage s)\<rparr>)"
      "unat (wu_records u) = unat (wu_records (sched_usage s k)) + unat n" "wu_records u \<le> wb_max_records b"
      "unat (wu_bytes u) = unat (wu_bytes (sched_usage s k)) + unat y" "wu_bytes u \<le> wb_max_bytes b"
      "unat (wu_concurrency u) = unat (wu_concurrency (sched_usage s k)) + 1"
      "wu_concurrency u \<le> wb_max_concurrency b"
  | (panic) b where "map_of (ws_budgets s) k = Some b" "sched_try_reserve k (n, y) s = None" "\<not> work_fits s k (n, y)"
      "word_sat_add (wu_records (sched_usage s k)) n \<le> wb_max_records b"
      "word_sat_add (wu_bytes (sched_usage s k)) y \<le> wb_max_bytes b"
      "word_sat_add (wu_concurrency (sched_usage s k)) 1 \<le> wb_max_concurrency b"
proof (cases "map_of (ws_budgets s) k")
  case None
  with refused [of "sched_usage s k"] show thesis by (simp add: sched_try_reserve_def)
next
  case (Some b)
  let ?u = "sched_usage s k"
  show thesis
  proof (cases "word_sat_add (wu_records ?u) n \<le> wb_max_records b \<and> word_sat_add (wu_bytes ?u) y \<le> wb_max_bytes b
      \<and> word_sat_add (wu_concurrency ?u) 1 \<le> wb_max_concurrency b")
    case False
    then have "word_sat_add (wu_records ?u) n > wb_max_records b
             \<or> word_sat_add (wu_bytes ?u) y > wb_max_bytes b
             \<or> word_sat_add (wu_concurrency ?u) 1 > wb_max_concurrency b" by auto
    with Some have "sched_try_reserve k (n, y) s = Some (False, s\<lparr>ws_usage := bt_insert k
        (?u\<lparr>wu_rejected := word_sat_add (wu_rejected ?u) 1\<rparr>) (ws_usage s)\<rparr>)"
      by (simp add: sched_try_reserve_def Let_def)
    with refused [of "?u\<lparr>wu_rejected := word_sat_add (wu_rejected ?u) 1\<rparr>"] show thesis by simp
  next
    case True
    note guards = True
    show thesis
    proof (cases "work_fits s k (n, y)")
      case True
      then obtain n' y' c' where sums: "checked_add (wu_records ?u) n = Some n'" "checked_add (wu_bytes ?u) y = Some y'"
          "checked_add (wu_concurrency ?u) 1 = Some c'"
        by (simp add: work_fits_def checked_add_def)
      let ?u' = "?u\<lparr>wu_records := n', wu_bytes := y', wu_concurrency := c'\<rparr>"
      have "sched_try_reserve k (n, y) s = Some (True, s\<lparr>ws_usage := bt_insert k ?u' (ws_usage s)\<rparr>)"
        using Some guards sums by (simp add: sched_try_reserve_def Let_def not_less)
      moreover have "unat n' = unat (wu_records ?u) + unat n" "n' \<le> wb_max_records b"
        "unat y' = unat (wu_bytes ?u) + unat y" "y' \<le> wb_max_bytes b"
        using guards checked_sat_le [OF sums(1)] checked_sat_le [OF sums(2)] by blast+
      moreover have "unat c' = unat (wu_concurrency ?u) + 1" "c' \<le> wb_max_concurrency b"
        using guards checked_sat_le [OF sums(3)] by auto
      ultimately show thesis using granted [OF Some, of ?u'] by simp
    next
      case False
      then have "checked_add (wu_records ?u) n = None \<or> checked_add (wu_bytes ?u) y = None \<or> checked_add (wu_concurrency ?u) 1 = None"
        by (auto simp: work_fits_def checked_add_def)
      then have "sched_try_reserve k (n, y) s = None"
        using Some guards by (auto simp: sched_try_reserve_def Let_def not_less bind_eq_None_conv)
      with panic [OF Some] guards False show thesis by blast
    qed
  qed
qed

interpretation sched: resource_budget sched_ok work_used work_limit sched_try_reserve sched_release work_amount work_fits
proof
  fix s s' :: work_scheduler and k k' :: work_class and r :: "64 word \<times> 64 word" and d b
  assume ok: "sched_ok s"
  then have wf: "bt_wf (ws_usage s)" by (simp add: sched_ok_def)
  obtain n y where r: "r = (n, y)" by (cases r)
  note put = sched_usage_put [OF wf]
  show "sched_try_reserve k r s \<noteq> None" if "work_fits s k r"
    using that unfolding r by (cases rule: sched_reserve_cases [of k n y s]) auto
  show "sched_ok s' \<and> work_limit s' = work_limit s \<and> work_used s' k d = work_used s k d + work_amount r d
      \<and> work_used s' k d \<le> work_limit s k d" if "sched_try_reserve k r s = Some (True, s')"
  proof (cases rule: sched_reserve_cases [of k n y s])
    case (refused u)
    with that r show ?thesis by auto
  next
    case (panic b)
    with that r show ?thesis by simp
  next
    case (granted b u)
    with that r have s': "s' = s\<lparr>ws_usage := bt_insert k u (ws_usage s)\<rparr>" by simp
    moreover have "sched_ok s'" using ok wf s' by (simp add: sched_ok_def)
    ultimately show ?thesis
      using granted put by (cases d) (simp_all add: r word_le_nat_alt)
  qed
  show "work_used s' k' = work_used s k'" if "sched_try_reserve k r s = Some (b, s')" "k' \<noteq> k"
  proof (cases rule: sched_reserve_cases [of k n y s])
    case (refused u)
    with that r put show ?thesis by (auto intro: work_used_cong)
  next
    case (granted b' u)
    with that r put show ?thesis by (auto intro: work_used_cong)
  next
    case (panic b)
    with that r show ?thesis by simp
  qed
  show "sched_ok s' \<and> work_limit s' = work_limit s \<and> work_used s' k = work_used s k"
    if "sched_try_reserve k r s = Some (False, s')"
  proof (cases rule: sched_reserve_cases [of k n y s])
    case (refused u)
    let ?s1 = "s\<lparr>ws_usage := bt_insert k u (ws_usage s)\<rparr>"
    have "work_used ?s1 k e = work_used s k e" for e
      using refused(2-4) put by (cases e) simp_all
    then have "work_used ?s1 k = work_used s k" by blast
    moreover have "sched_ok ?s1" using ok wf by (simp add: sched_ok_def)
    moreover have "s' = s \<or> s' = ?s1" using refused(1) that r by auto
    ultimately show ?thesis using ok by auto
  next
    case (granted b' u)
    with that r show ?thesis by simp
  next
    case (panic b)
    with that r show ?thesis by simp
  qed
  let ?u = "(sched_usage s k)\<lparr>wu_records := word_sat_sub (wu_records (sched_usage s k)) n,
      wu_bytes := word_sat_sub (wu_bytes (sched_usage s k)) y,
      wu_concurrency := word_sat_sub (wu_concurrency (sched_usage s k)) 1\<rparr>"
  have rel: "sched_release k r s = s\<lparr>ws_usage := bt_insert k ?u (ws_usage s)\<rparr>"
    by (simp add: sched_release_def r Let_def)
  show "sched_ok (sched_release k r s) \<and> work_limit (sched_release k r s) = work_limit s
      \<and> work_used (sched_release k r s) k' d = work_used s k' d - (if k' = k then work_amount r d else 0)"
    unfolding rel using ok wf put by (cases d) (simp_all add: r sched_ok_def unat_word_sat_sub)
qed

subsection \<open>Runs\<close>

text \<open>
  A scheduler over its life, with the reservations that are held. Reservations are dropped inside the
  runtime.
\<close>

inductive sched_run :: "(work_class \<times> work_budget) list \<Rightarrow> work_scheduler \<Rightarrow> work_reservation list \<Rightarrow> bool"
  for budgets where
  run_new: "sched_run budgets (sched_new budgets) []"
| run_acquire: "sched_run budgets s held \<Longrightarrow> reservation_try_acquire k records bytes s = Some (Some r, s') \<Longrightarrow>
    sched_run budgets s' (r # held)"
| run_refuse: "sched_run budgets s held \<Longrightarrow> reservation_try_acquire k records bytes s = Some (None, s') \<Longrightarrow>
    sched_run budgets s' held"
| run_drop: "sched_run budgets s held \<Longrightarrow> r \<in> set held \<Longrightarrow>
    sched_run budgets (reservation_drop True r s) (remove1 r held)"

definition request_of :: "work_reservation \<Rightarrow> work_class \<times> 64 word \<times> 64 word" where
  "request_of r = (wr_class r, wr_records r, wr_bytes r)"

lemma acquire_some:
  assumes "reservation_try_acquire k records bytes s = Some (held, s')"
  shows "sched_try_reserve k (records, bytes) s = Some (held \<noteq> None, s')"
    and "held = None \<or> held = Some \<lparr>wr_class = k, wr_records = records, wr_bytes = bytes\<rparr>"
  using assms by (auto simp: reservation_try_acquire_def split: if_splits)

lemma request_of_remove: "r \<in> set held \<Longrightarrow> map request_of (remove1 r held) = remove1 (request_of r) (map request_of held)"
  by (induction held) (auto simp: request_of_def)

lemma sched_new_ok:
  "sched_ok (sched_new budgets)" "sched.within (sched_new budgets)" "sched.accounted (sched_new budgets) []"
  "ws_budgets (sched_new budgets) = bt_collect budgets"
proof -
  have zero: "sched_usage (sched_new budgets) k = default_work_usage" for k
    by (auto simp: sched_usage_def sched_new_def Let_def dest!: map_of_SomeD split: option.splits) 
  have "work_used (sched_new budgets) k d = 0" for k d
    by (cases d) (simp_all add: zero default_work_usage_def)
  then show "sched.within (sched_new budgets)" "sched.accounted (sched_new budgets) []"
    by (simp_all add: sched.within_def sched.accounted_def)
  show "sched_ok (sched_new budgets)" "ws_budgets (sched_new budgets) = bt_collect budgets"
    by (simp_all add: sched_ok_def sched_new_def Let_def)
qed

lemma sched_budgets_fixed:
  "sched_try_reserve k q s = Some (b, s') \<Longrightarrow> ws_budgets s' = ws_budgets s"
  "ws_budgets (sched_release k q s) = ws_budgets s"
  by (auto simp: sched_try_reserve_def sched_release_def Let_def split_beta split: option.splits if_splits bind_splits)

lemma sched_run_inv:
  "sched_run budgets s held \<Longrightarrow> sched_ok s \<and> sched.within s \<and> sched.accounted s (map request_of held)
     \<and> ws_budgets s = bt_collect budgets"
proof (induction rule: sched_run.induct)
  case run_new
  show ?case using sched_new_ok by simp
next
  case (run_acquire s held k records bytes r s')
  have res: "sched_try_reserve k (records, bytes) s = Some (True, s')" and r: "request_of r = (k, records, bytes)"
    using acquire_some [OF run_acquire.hyps(2)] by (auto simp: request_of_def)
  show ?case
    using sched.within_reserve [OF _ _ res] sched.accounted_reserve [OF _ _ res] sched_budgets_fixed(1) [OF res] run_acquire.IH r
    by simp
next
  case (run_refuse s held k records bytes s')
  have res: "sched_try_reserve k (records, bytes) s = Some (False, s')"
    using acquire_some [OF run_refuse.hyps(2)] by simp
  show ?case
    using sched.within_reserve [OF _ _ res] sched.accounted_reserve [OF _ _ res] sched_budgets_fixed(1) [OF res] run_refuse.IH
    by simp
next
  case (run_drop s held r)
  let ?k = "wr_class r" let ?q = "(wr_records r, wr_bytes r)"
  have held: "(?k, ?q) \<in> set (map request_of held)" using run_drop.hyps(2) by (force simp: request_of_def)
  have "map request_of (remove1 r held) = remove1 (?k, ?q) (map request_of held)"
    using request_of_remove [OF run_drop.hyps(2)] by (simp add: request_of_def [of r])
  then show ?case
    using sched.within_release [of s ?k ?q] sched.accounted_release [OF _ _ held, of s] sched_budgets_fixed(2) [of ?k ?q s] run_drop.IH
    by (simp only: reservation_drop_def if_True)
qed


text \<open>The budgets that the broker gives its scheduler: records and bytes are not limited.\<close>

definition broker_budgets :: "(work_class \<times> work_budget) list" where
  "broker_budgets = map (\<lambda>(k, n). (k, \<lparr>wb_max_records = - 1, wb_max_bytes = - 1, wb_max_concurrency = n\<rparr>))
     [(Control, 64), (Foreground, 256), (Observer, 8), (CatchUp, 4), (SnapshotWork, 2), (ReassignmentWork, 2),
      (CompactionWork, 1), (RetentionWork, 1)]"

lemma broker_foreground:
  "map_of (bt_collect broker_budgets) Foreground = Some \<lparr>wb_max_records = - 1, wb_max_bytes = - 1, wb_max_concurrency = 256\<rparr>"
  by (simp add: broker_budgets_def)


text \<open>
  A budget at the maximum is no limit for the saturating check, and the sum behind it overflows: with
  the broker's budgets two reservations can panic.
\<close>

lemma unlimited_budget_overflows:
  assumes "wu_bytes (sched_usage s Foreground) = 0x8000000000000000" "wu_records (sched_usage s Foreground) = 1"
    "wu_concurrency (sched_usage s Foreground) = 1" "ws_budgets s = bt_collect broker_budgets"
  shows "sched_try_reserve Foreground (1, 0x8000000000000000) s = None"
  using assms broker_foreground by (simp add: sched_try_reserve_def Let_def checked_add_def word_sat_add_def)

end
