(* ===== verification/Tenant_Quota.thy ===== *)
theory Tenant_Quota
  imports Resource_Budget
begin

text \<open>
  Tenant quotas of \<open>crates/server/src/quota.rs\<close>: per-tenant limits and usage in five dimensions,
  connections, reservations with guards, transfers between tenants, and the charge of a
  record. Usage is in 64-bit words; \<open>None\<close> is the panic of an overflowing \<open>+=\<close>. The counters of
  rejections are naturals: they count events. The maps behind the mutexes are one state: a
  call holds the lock of the usage map from its reads to its update, and a rejection is
  counted after that.
\<close>

section \<open>Record sizes\<close>

definition header_bytes :: "message_header list \<Rightarrow> nat" where
  "header_bytes hs = foldl (\<lambda>total h. sat_add64 (sat_add64 total (length (mh_name h))) (length (mh_value h))) 0 hs"

definition opt_len :: "'a list option \<Rightarrow> nat" where
  "opt_len x = (case x of None \<Rightarrow> 0 | Some v \<Rightarrow> length v)"

definition persistent_record_bytes :: "message_envelope \<Rightarrow> u64" where
  "persistent_record_bytes e =
     foldl sat_add64 128
       [length (en_namespace e), length (en_stream e), length (en_subject e), opt_len (en_key e),
        header_bytes (en_headers e), opt_len (en_reply_to e), length (en_payload e)]"

definition persistent_publish_record_bytes :: "publish_record \<Rightarrow> u64" where
  "persistent_publish_record_bytes r =
     foldl sat_add64 128
       [length (pub_namespace r), opt_len (pub_stream r), length (pub_subject r), opt_len (pub_key r),
        header_bytes (pub_headers r), opt_len (pub_reply_to r), length (pub_payload r)]"

lemma record_bytes_agree: "persistent_publish_record_bytes (publish_record_of e) = persistent_record_bytes e"
  by (simp add: persistent_publish_record_bytes_def persistent_record_bytes_def publish_record_of_def opt_len_def)

section \<open>Data\<close>

record tenant_quota_limits =
  ql_max_connections :: "64 word"
  ql_max_memory_bytes :: "64 word"
  ql_max_disk_bytes :: "64 word"
  ql_max_tasks :: "64 word"
  ql_max_background_tasks :: "64 word"

record tenant_quota_usage =
  qu_connections :: "64 word"
  qu_memory_bytes :: "64 word"
  qu_disk_bytes :: "64 word"
  qu_tasks :: "64 word"
  qu_background_tasks :: "64 word"

record tenant_quota_rejections =
  qr_connections :: nat
  qr_memory_bytes :: nat
  qr_disk_bytes :: nat
  qr_tasks :: nat
  qr_background_tasks :: nat

record tenant_quota_status =
  qs_usage :: tenant_quota_usage
  qs_limits :: tenant_quota_limits
  qs_rejections :: tenant_quota_rejections

record tenant_quota_runtime =
  qt_default_limits :: tenant_quota_limits
  qt_limits :: "(string, tenant_quota_limits) btree_map"
  qt_usage :: "(string, tenant_quota_usage) btree_map"
  qt_rejections :: "(string, tenant_quota_rejections) btree_map"

record tenant_quota_reservation =
  qv_tenant :: string
  qv_usage :: tenant_quota_usage
  qv_committed :: bool

definition no_usage :: tenant_quota_usage where
  "no_usage = \<lparr>qu_connections = 0, qu_memory_bytes = 0, qu_disk_bytes = 0, qu_tasks = 0, qu_background_tasks = 0\<rparr>"

definition no_rejections :: tenant_quota_rejections where
  "no_rejections = \<lparr>qr_connections = 0, qr_memory_bytes = 0, qr_disk_bytes = 0, qr_tasks = 0, qr_background_tasks = 0\<rparr>"

section \<open>Operations\<close>

definition quota_new :: "tenant_quota_limits \<Rightarrow> tenant_quota_runtime" where
  "quota_new l = \<lparr>qt_default_limits = l, qt_limits = [], qt_usage = [], qt_rejections = []\<rparr>"

definition set_tenant_limits :: "string \<Rightarrow> tenant_quota_limits \<Rightarrow> tenant_quota_runtime \<Rightarrow> tenant_quota_runtime" where
  "set_tenant_limits t l q = q\<lparr>qt_limits := bt_insert t l (qt_limits q)\<rparr>"

definition limits_for :: "tenant_quota_runtime \<Rightarrow> string \<Rightarrow> tenant_quota_limits" where
  "limits_for q t = (case map_of (qt_limits q) t of None \<Rightarrow> qt_default_limits q | Some l \<Rightarrow> l)"

definition usage_of :: "tenant_quota_runtime \<Rightarrow> string \<Rightarrow> tenant_quota_usage" where
  "usage_of q t = (case map_of (qt_usage q) t of None \<Rightarrow> no_usage | Some u \<Rightarrow> u)"

definition put_usage :: "string \<Rightarrow> tenant_quota_usage \<Rightarrow> tenant_quota_runtime \<Rightarrow> tenant_quota_runtime" where
  "put_usage t u q = q\<lparr>qt_usage := bt_insert t u (qt_usage q)\<rparr>"

definition quota_reject ::
  "string \<Rightarrow> (tenant_quota_rejections \<Rightarrow> tenant_quota_rejections) \<Rightarrow> tenant_quota_runtime \<Rightarrow> tenant_quota_runtime" where
  "quota_reject t dimension q =
     q\<lparr>qt_rejections := bt_insert t
        (dimension (case map_of (qt_rejections q) t of None \<Rightarrow> no_rejections | Some r \<Rightarrow> r)) (qt_rejections q)\<rparr>"

text \<open>\<open>usage.entry(tenant).or_default()\<close> leaves an entry even when the call is refused.\<close>

definition touch_usage :: "string \<Rightarrow> tenant_quota_runtime \<Rightarrow> tenant_quota_runtime" where
  "touch_usage t q = q\<lparr>qt_usage := bt_or_insert t no_usage (qt_usage q)\<rparr>"

definition try_connection :: "string \<Rightarrow> tenant_quota_runtime \<Rightarrow> (bool \<times> tenant_quota_runtime) option" where
  "try_connection t q0 =
     (let q = touch_usage t q0; entry = usage_of q t in
      if qu_connections entry \<ge> ql_max_connections (limits_for q t)
      then Some (False, quota_reject t (\<lambda>r. r\<lparr>qr_connections := qr_connections r + 1\<rparr>) q)
      else map_option (\<lambda>n. (True, put_usage t (entry\<lparr>qu_connections := n\<rparr>) q)) (checked_add (qu_connections entry) 1))"

definition release_connection :: "string \<Rightarrow> tenant_quota_runtime \<Rightarrow> tenant_quota_runtime" where
  "release_connection t q =
     (case map_of (qt_usage q) t of
        None \<Rightarrow> q
      | Some u \<Rightarrow> put_usage t (u\<lparr>qu_connections := word_sat_sub (qu_connections u) 1\<rparr>) q)"

text \<open>The five additions in the order of the code; the first that overflows panics.\<close>

definition add_usage :: "tenant_quota_usage \<Rightarrow> tenant_quota_usage \<Rightarrow> tenant_quota_usage option" where
  "add_usage u r =
     Option.bind (checked_add (qu_connections u) (qu_connections r)) (\<lambda>c.
     Option.bind (checked_add (qu_memory_bytes u) (qu_memory_bytes r)) (\<lambda>m.
     Option.bind (checked_add (qu_disk_bytes u) (qu_disk_bytes r)) (\<lambda>d.
     Option.bind (checked_add (qu_tasks u) (qu_tasks r)) (\<lambda>t.
     Option.bind (checked_add (qu_background_tasks u) (qu_background_tasks r)) (\<lambda>b.
       Some \<lparr>qu_connections = c, qu_memory_bytes = m, qu_disk_bytes = d, qu_tasks = t, qu_background_tasks = b\<rparr>)))))"

definition sub_usage :: "tenant_quota_usage \<Rightarrow> tenant_quota_usage \<Rightarrow> tenant_quota_usage" where
  "sub_usage u r =
     \<lparr>qu_connections = word_sat_sub (qu_connections u) (qu_connections r),
      qu_memory_bytes = word_sat_sub (qu_memory_bytes u) (qu_memory_bytes r),
      qu_disk_bytes = word_sat_sub (qu_disk_bytes u) (qu_disk_bytes r),
      qu_tasks = word_sat_sub (qu_tasks u) (qu_tasks r),
      qu_background_tasks = word_sat_sub (qu_background_tasks u) (qu_background_tasks r)\<rparr>"

definition exceeded_dimension ::
  "tenant_quota_usage \<Rightarrow> tenant_quota_usage \<Rightarrow> tenant_quota_limits
   \<Rightarrow> (tenant_quota_rejections \<Rightarrow> tenant_quota_rejections) option" where
  "exceeded_dimension u r l =
     (if word_sat_add (qu_connections u) (qu_connections r) > ql_max_connections l
      then Some (\<lambda>x. x\<lparr>qr_connections := qr_connections x + 1\<rparr>)
      else if word_sat_add (qu_memory_bytes u) (qu_memory_bytes r) > ql_max_memory_bytes l
      then Some (\<lambda>x. x\<lparr>qr_memory_bytes := qr_memory_bytes x + 1\<rparr>)
      else if word_sat_add (qu_disk_bytes u) (qu_disk_bytes r) > ql_max_disk_bytes l
      then Some (\<lambda>x. x\<lparr>qr_disk_bytes := qr_disk_bytes x + 1\<rparr>)
      else if word_sat_add (qu_tasks u) (qu_tasks r) > ql_max_tasks l
      then Some (\<lambda>x. x\<lparr>qr_tasks := qr_tasks x + 1\<rparr>)
      else if word_sat_add (qu_background_tasks u) (qu_background_tasks r) > ql_max_background_tasks l
      then Some (\<lambda>x. x\<lparr>qr_background_tasks := qr_background_tasks x + 1\<rparr>)
      else None)"

definition quota_try_reserve ::
  "string \<Rightarrow> tenant_quota_usage \<Rightarrow> tenant_quota_runtime \<Rightarrow> (bool \<times> tenant_quota_runtime) option" where
  "quota_try_reserve t request q0 =
     (let q = touch_usage t q0; entry = usage_of q t in
      case exceeded_dimension entry request (limits_for q t) of
        Some dimension \<Rightarrow> Some (False, quota_reject t dimension q)
      | None \<Rightarrow> map_option (\<lambda>u. (True, put_usage t u q)) (add_usage entry request))"

definition quota_release :: "string \<Rightarrow> tenant_quota_usage \<Rightarrow> tenant_quota_runtime \<Rightarrow> tenant_quota_runtime" where
  "quota_release t request q =
     (case map_of (qt_usage q) t of
        None \<Rightarrow> q
      | Some u \<Rightarrow> put_usage t (sub_usage u request) q)"

definition reserve_guard ::
  "string \<Rightarrow> tenant_quota_usage \<Rightarrow> tenant_quota_runtime
   \<Rightarrow> (tenant_quota_reservation option \<times> tenant_quota_runtime) option" where
  "reserve_guard t request q =
     map_option (\<lambda>(fits, q'). (if fits then Some \<lparr>qv_tenant = t, qv_usage = request, qv_committed = False\<rparr> else None, q'))
       (quota_try_reserve t request q)"

definition reservation_commit :: "tenant_quota_reservation \<Rightarrow> tenant_quota_reservation" where
  "reservation_commit r = r\<lparr>qv_committed := True\<rparr>"

definition quota_reservation_drop :: "tenant_quota_reservation \<Rightarrow> tenant_quota_runtime \<Rightarrow> tenant_quota_runtime" where
  "quota_reservation_drop r q = (if \<not> qv_committed r then quota_release (qv_tenant r) (qv_usage r) q else q)"

definition covers :: "tenant_quota_usage \<Rightarrow> tenant_quota_usage \<Rightarrow> bool" where
  "covers u r \<longleftrightarrow>
     qu_connections r \<le> qu_connections u \<and> qu_memory_bytes r \<le> qu_memory_bytes u
     \<and> qu_disk_bytes r \<le> qu_disk_bytes u \<and> qu_tasks r \<le> qu_tasks u
     \<and> qu_background_tasks r \<le> qu_background_tasks u"

definition quota_transfer ::
  "string \<Rightarrow> string \<Rightarrow> tenant_quota_usage \<Rightarrow> tenant_quota_runtime \<Rightarrow> (bool \<times> tenant_quota_runtime) option" where
  "quota_transfer from to request q =
     (if from = to then Some (True, q)
      else if \<not> covers (usage_of q from) request then Some (False, q)
      else if exceeded_dimension (usage_of q to) request (limits_for q to) \<noteq> None
      then Some (False, quota_reject to (\<lambda>r. r\<lparr>qr_connections := qr_connections r + 1\<rparr>) q)
      else
        let q1 = put_usage from (sub_usage (usage_of q from) request) q
        in map_option (\<lambda>u. (True, put_usage to u q1)) (add_usage (usage_of q1 to) request))"

definition transfer_connection ::
  "string \<Rightarrow> string \<Rightarrow> tenant_quota_runtime \<Rightarrow> (bool \<times> tenant_quota_runtime) option" where
  "transfer_connection from to q = quota_transfer from to (no_usage\<lparr>qu_connections := 1\<rparr>) q"

definition replace_disk_usage :: "(string, 64 word) btree_map \<Rightarrow> tenant_quota_runtime \<Rightarrow> tenant_quota_runtime" where
  "replace_disk_usage disk q =
     (let cleared = map (\<lambda>(t, u). (t, u\<lparr>qu_disk_bytes := (case map_of disk t of None \<Rightarrow> 0 | Some d \<Rightarrow> d)\<rparr>)) (qt_usage q);
          filled = fold (\<lambda>(t, d) m. bt_insert t
                      ((case map_of m t of None \<Rightarrow> no_usage | Some u \<Rightarrow> u)\<lparr>qu_disk_bytes := d\<rparr>) m) disk cleared
      in q\<lparr>qt_usage := filled\<rparr>)"

definition status_snapshot :: "tenant_quota_runtime \<Rightarrow> (string, tenant_quota_status) btree_map" where
  "status_snapshot q =
     (let rejected = (\<lambda>t. case map_of (qt_rejections q) t of None \<Rightarrow> no_rejections | Some r \<Rightarrow> r);
          used = map (\<lambda>(t, u). (t, \<lparr>qs_usage = u, qs_limits = limits_for q t, qs_rejections = rejected t\<rparr>)) (qt_usage q)
      in fold (\<lambda>(t, l). bt_or_insert t \<lparr>qs_usage = no_usage, qs_limits = l, qs_rejections = rejected t\<rparr>) (qt_limits q) used)"


section \<open>The quota is a budget\<close>

datatype quota_dimension = QConnections | QMemory | QDisk | QTasks | QBackground

fun dim_usage :: "tenant_quota_usage \<Rightarrow> quota_dimension \<Rightarrow> 64 word" where
  "dim_usage u QConnections = qu_connections u"
| "dim_usage u QMemory = qu_memory_bytes u"
| "dim_usage u QDisk = qu_disk_bytes u"
| "dim_usage u QTasks = qu_tasks u"
| "dim_usage u QBackground = qu_background_tasks u"

fun dim_limit :: "tenant_quota_limits \<Rightarrow> quota_dimension \<Rightarrow> 64 word" where
  "dim_limit l QConnections = ql_max_connections l"
| "dim_limit l QMemory = ql_max_memory_bytes l"
| "dim_limit l QDisk = ql_max_disk_bytes l"
| "dim_limit l QTasks = ql_max_tasks l"
| "dim_limit l QBackground = ql_max_background_tasks l"

definition quota_used :: "tenant_quota_runtime \<Rightarrow> string \<Rightarrow> quota_dimension \<Rightarrow> nat" where
  "quota_used q t d = unat (dim_usage (usage_of q t) d)"

definition quota_limit :: "tenant_quota_runtime \<Rightarrow> string \<Rightarrow> quota_dimension \<Rightarrow> nat" where
  "quota_limit q t d = unat (dim_limit (limits_for q t) d)"

definition quota_amount :: "tenant_quota_usage \<Rightarrow> quota_dimension \<Rightarrow> nat" where
  "quota_amount r d = unat (dim_usage r d)"

definition limits_finite :: "tenant_quota_limits \<Rightarrow> bool" where
  "limits_finite l \<longleftrightarrow> (\<forall>d. dim_limit l d < - 1)"

definition quota_ok :: "tenant_quota_runtime \<Rightarrow> bool" where
  "quota_ok q \<longleftrightarrow> bt_wf (qt_usage q) \<and> (\<forall>t. limits_finite (limits_for q t))"

lemma all_dims: "(\<forall>d. P d) \<longleftrightarrow> P QConnections \<and> P QMemory \<and> P QDisk \<and> P QTasks \<and> P QBackground"
  by (metis quota_dimension.exhaust)

lemma exceeded_dimension_None:
  "exceeded_dimension u r l = None \<longleftrightarrow> (\<forall>d. word_sat_add (dim_usage u d) (dim_usage r d) \<le> dim_limit l d)"
  by (auto simp: exceeded_dimension_def all_dims not_less)

lemma add_usage_law:
  assumes "limits_finite l" and "exceeded_dimension u r l = None"
  shows "\<exists>u'. add_usage u r = Some u' \<and> (\<forall>d. unat (dim_usage u' d) = unat (dim_usage u d) + unat (dim_usage r d)
    \<and> unat (dim_usage u d) + unat (dim_usage r d) \<le> unat (dim_limit l d))"
proof -
  have fits: "checked_add (dim_usage u d) (dim_usage r d) = Some (dim_usage u d + dim_usage r d)
      \<and> unat (dim_usage u d + dim_usage r d) = unat (dim_usage u d) + unat (dim_usage r d)
      \<and> dim_usage u d + dim_usage r d \<le> dim_limit l d" for d
    by (rule sat_guard_add) (use assms in \<open>simp_all add: limits_finite_def exceeded_dimension_None\<close>)
  from fits [of QConnections] fits [of QMemory] fits [of QDisk] fits [of QTasks] fits [of QBackground]
  show ?thesis by (simp add: add_usage_def all_dims word_le_nat_alt)
qed

lemma sub_usage_dim: "unat (dim_usage (sub_usage u r) d) = unat (dim_usage u d) - unat (dim_usage r d)"
  by (cases d) (simp_all add: sub_usage_def unat_word_sat_sub)

lemma usage_of_put: "bt_wf (qt_usage q) \<Longrightarrow> usage_of (put_usage t u q) t' = (if t' = t then u else usage_of q t')"
  by (simp add: usage_of_def put_usage_def)

lemma usage_of_touch [simp]: "bt_wf (qt_usage q) \<Longrightarrow> usage_of (touch_usage t q) = usage_of q"
  by (auto simp: usage_of_def touch_usage_def fun_eq_iff split: option.splits)

lemma usage_of_reject [simp]: "usage_of (quota_reject t f q) = usage_of q"
  by (simp add: usage_of_def quota_reject_def fun_eq_iff)

lemma limits_for_frame [simp]:
  "limits_for (put_usage t u q) = limits_for q" "limits_for (touch_usage t q) = limits_for q"
  "limits_for (quota_reject t f q) = limits_for q"
  by (simp_all add: limits_for_def put_usage_def touch_usage_def quota_reject_def fun_eq_iff split: option.split)

lemma quota_ok_frame [simp]:
  "quota_ok q \<Longrightarrow> quota_ok (put_usage t u q)" "quota_ok q \<Longrightarrow> quota_ok (touch_usage t q)"
  "quota_ok q \<Longrightarrow> quota_ok (quota_reject t f q)"
  by (simp_all add: quota_ok_def) (simp_all add: put_usage_def touch_usage_def quota_reject_def)

lemma release_eq: "usage_of (quota_release t r q) t' = (if t' = t then sub_usage (usage_of q t) r else usage_of q t')"
  if "bt_wf (qt_usage q)"
proof (cases "map_of (qt_usage q) t")
  case None
  have "sub_usage no_usage r = no_usage"
    by (simp add: sub_usage_def no_usage_def word_sat_sub_def)
  with None show ?thesis by (simp add: quota_release_def usage_of_def)
next
  case (Some u)
  with usage_of_put [OF that] show ?thesis by (simp add: quota_release_def usage_of_def)
qed

interpretation quota: resource_budget quota_ok quota_used quota_limit quota_try_reserve quota_release quota_amount "\<lambda>_ _ _. True"
proof
  fix q q' :: tenant_quota_runtime and t t' :: string and r :: tenant_quota_usage and d b
  assume ok: "quota_ok q"
  then have wf: "bt_wf (qt_usage q)" and lim: "limits_finite (limits_for q t)" by (auto simp: quota_ok_def)
  have wf': "bt_wf (qt_usage (touch_usage t q))" using wf by (simp add: touch_usage_def)
  have unfold: "quota_try_reserve t r q =
      (case exceeded_dimension (usage_of q t) r (limits_for q t) of
         Some dimension \<Rightarrow> Some (False, quota_reject t dimension (touch_usage t q))
       | None \<Rightarrow> map_option (\<lambda>u. (True, put_usage t u (touch_usage t q))) (add_usage (usage_of q t) r))"
    using wf by (simp add: quota_try_reserve_def Let_def split: option.split)
  note add = add_usage_law [OF lim]
  show "quota_try_reserve t r q \<noteq> None"
    using add [of "usage_of q t" r] by (auto simp: unfold split: option.splits)
  show "quota_ok q' \<and> quota_limit q' = quota_limit q \<and> quota_used q' t d = quota_used q t d + quota_amount r d
      \<and> quota_used q' t d \<le> quota_limit q t d" if "quota_try_reserve t r q = Some (True, q')"
  proof -
    from that have none: "exceeded_dimension (usage_of q t) r (limits_for q t) = None"
      by (simp add: unfold split: option.splits)
    with add [OF none] that obtain u where u: "q' = put_usage t u (touch_usage t q)"
      "\<forall>d. unat (dim_usage u d) = unat (dim_usage (usage_of q t) d) + unat (dim_usage r d)
        \<and> unat (dim_usage (usage_of q t) d) + unat (dim_usage r d) \<le> unat (dim_limit (limits_for q t) d)"
      by (auto simp: unfold)
    with ok usage_of_put [OF wf'] show ?thesis
      by (simp add: quota_limit_def quota_used_def quota_amount_def fun_eq_iff word_le_nat_alt)
  qed
  show "quota_used q' t' = quota_used q t'" if "quota_try_reserve t r q = Some (b, q')" "t' \<noteq> t"
    using that usage_of_put [OF wf'] wf
    by (auto simp: unfold quota_used_def fun_eq_iff split: option.splits)
  show "quota_ok q' \<and> quota_limit q' = quota_limit q \<and> quota_used q' t = quota_used q t"
    if "quota_try_reserve t r q = Some (False, q')"
    using that ok wf by (auto simp: unfold quota_limit_def quota_used_def fun_eq_iff split: option.splits)
  have "limits_for (quota_release t r q) = limits_for q" and "quota_ok (quota_release t r q)"
    using ok by (auto simp: quota_release_def split: option.splits)
  then show "quota_ok (quota_release t r q) \<and> quota_limit (quota_release t r q) = quota_limit q
      \<and> quota_used (quota_release t r q) t' d = quota_used q t' d - (if t' = t then quota_amount r d else 0)"
    using release_eq [OF wf] by (simp add: quota_limit_def quota_used_def quota_amount_def fun_eq_iff sub_usage_dim)
qed

section \<open>Properties\<close>

text \<open>
  Tenant reservation: with finite limits, a guarded reservation never overflows. Granted,
  it charges exactly the request to that tenant alone, within its limits in every dimension,
  and a guard that is dropped without being committed gives everything back, while a committed
  one keeps the charge. Refused, it changes no usage.
\<close>

theorem tenant_reservation_exact:
  assumes "quota_ok q"
  shows "\<exists>guard q'. reserve_guard t request q = Some (guard, q')
    \<and> (\<forall>t'. t' \<noteq> t \<longrightarrow> quota_used q' t' = quota_used q t')
    \<and> (case guard of
         None \<Rightarrow> quota_used q' t = quota_used q t
       | Some g \<Rightarrow>
           (\<forall>d. quota_used q' t d = quota_used q t d + quota_amount request d \<and> quota_used q' t d \<le> quota_limit q t d)
           \<and> quota_used (quota_reservation_drop g q') = quota_used q
           \<and> quota_reservation_drop (reservation_commit g) q' = q')"
proof -
  obtain b q' where run: "quota_try_reserve t request q = Some (b, q')"
    using quota.reserve_total [OF assms TrueI, of t request] by auto
  have frame: "\<forall>t'. t' \<noteq> t \<longrightarrow> quota_used q' t' = quota_used q t'"
    using quota.reserve_frame [OF assms run] by blast
  show ?thesis
  proof (cases b)
    case True
    with run have r: "quota_try_reserve t request q = Some (True, q')" by simp
    let ?g = "\<lparr>qv_tenant = t, qv_usage = request, qv_committed = False\<rparr>"
    have "reserve_guard t request q = Some (Some ?g, q')" by (simp add: reserve_guard_def r)
    moreover have "quota_used (quota_reservation_drop ?g q') = quota_used q"
      using quota.reserve_release [OF assms r] by (simp add: quota_reservation_drop_def)
    moreover have "quota_reservation_drop (reservation_commit ?g) q' = q'"
      by (simp add: quota_reservation_drop_def reservation_commit_def)
    moreover have "quota_used q' t d = quota_used q t d + quota_amount request d"
      "quota_used q t d + quota_amount request d \<le> quota_limit q t d" for d
      using quota.reserve_granted [OF assms r, of d] by simp_all
    ultimately show ?thesis using frame by simp
  next
    case False
    with run have r: "quota_try_reserve t request q = Some (False, q')" by simp
    with frame quota.reserve_refused [OF assms r] show ?thesis by (simp add: reserve_guard_def)
  qed
qed

definition sample_quota :: tenant_quota_runtime where
  "sample_quota = quota_new \<lparr>ql_max_connections = 2, ql_max_memory_bytes = 1000, ql_max_disk_bytes = 1000,
     ql_max_tasks = 4, ql_max_background_tasks = 1\<rparr>"

lemma sample_quota_ok: "quota_ok sample_quota"
proof -
  have "dim_limit \<lparr>ql_max_connections = 2, ql_max_memory_bytes = 1000, ql_max_disk_bytes = 1000,
     ql_max_tasks = 4, ql_max_background_tasks = 1\<rparr> d < - 1" for d
    by (cases d) (simp_all add: word_less_max)
  then show ?thesis
    by (simp add: quota_ok_def sample_quota_def quota_new_def limits_for_def limits_finite_def)
qed

theorem tenant_reservation_exact_witness:
  "\<exists>guard q'. reserve_guard ''acme'' (no_usage\<lparr>qu_memory_bytes := 400\<rparr>) sample_quota = Some (guard, q')
     \<and> quota_used q' ''other'' = quota_used sample_quota ''other''"
proof -
  obtain guard q' where run: "reserve_guard ''acme'' (no_usage\<lparr>qu_memory_bytes := 400\<rparr>) sample_quota = Some (guard, q')"
    and frame: "\<forall>t'. t' \<noteq> ''acme'' \<longrightarrow> quota_used q' t' = quota_used sample_quota t'"
    using tenant_reservation_exact [OF sample_quota_ok, of "''acme''" "no_usage\<lparr>qu_memory_bytes := 400\<rparr>"] by blast
  then show ?thesis by simp
qed

text \<open>
  Transfer: moving usage between two tenants conserves the total in every dimension and
  keeps the receiver within its limits; a refused transfer changes no usage.
\<close>

theorem quota_transfer_conserves:
  assumes "quota_ok q" and "from \<noteq> to"
  shows "\<exists>moved q'. quota_transfer from to request q = Some (moved, q')
    \<and> (\<forall>t. t \<noteq> from \<and> t \<noteq> to \<longrightarrow> quota_used q' t = quota_used q t)
    \<and> (if moved
       then \<forall>d. quota_used q' from d + quota_amount request d = quota_used q from d
             \<and> quota_used q' to d = quota_used q to d + quota_amount request d
             \<and> quota_used q' to d \<le> quota_limit q to d
       else quota_used q' = quota_used q)"
proof -
  have wf: "bt_wf (qt_usage q)" and lim: "limits_finite (limits_for q to)"
    using assms(1) by (auto simp: quota_ok_def)
  let ?q1 = "put_usage from (sub_usage (usage_of q from) request) q"
  have wf1: "bt_wf (qt_usage ?q1)" using wf by (simp add: put_usage_def)
  have to1: "usage_of ?q1 to = usage_of q to" using usage_of_put [OF wf] assms(2) by simp
  show ?thesis
  proof (cases "covers (usage_of q from) request \<and> exceeded_dimension (usage_of q to) request (limits_for q to) = None")
    case False
    then have "\<exists>q'. quota_transfer from to request q = Some (False, q') \<and> usage_of q' = usage_of q"
      using assms(2) by (cases "covers (usage_of q from) request") (simp_all add: quota_transfer_def)
    then show ?thesis by (auto simp: quota_used_def fun_eq_iff)
  next
    case True
    then obtain u where u: "add_usage (usage_of q to) request = Some u"
      "\<forall>d. unat (dim_usage u d) = unat (dim_usage (usage_of q to) d) + unat (dim_usage request d)
        \<and> unat (dim_usage (usage_of q to) d) + unat (dim_usage request d) \<le> unat (dim_limit (limits_for q to) d)"
      using add_usage_law [OF lim] by blast
    let ?q2 = "put_usage to u ?q1"
    have run: "quota_transfer from to request q = Some (True, ?q2)"
      using True assms(2) u(1) to1 by (simp add: quota_transfer_def Let_def)
    have enough: "unat (dim_usage request d) \<le> unat (dim_usage (usage_of q from) d)" for d
      using True by (cases d) (simp_all add: covers_def word_le_nat_alt)
    show ?thesis
      using run u(2) enough assms(2) usage_of_put [OF wf] usage_of_put [OF wf1]
      by (intro exI [of _ True]) (simp add: quota_used_def quota_amount_def quota_limit_def fun_eq_iff sub_usage_dim word_le_nat_alt)
  qed
qed

theorem quota_transfer_conserves_witness:
  "\<exists>moved q'. quota_transfer ''a'' ''b'' (no_usage\<lparr>qu_tasks := 1\<rparr>) sample_quota = Some (moved, q')
     \<and> quota_used q' ''c'' = quota_used sample_quota ''c''"
  using quota_transfer_conserves [OF sample_quota_ok, of "''a''" "''b''" "no_usage\<lparr>qu_tasks := 1\<rparr>"] by fastforce

text \<open>
  A transfer that is refused for memory is counted as a refused connection: the counters of
  the status report name the wrong dimension.
\<close>

theorem transfer_rejection_counted_as_connection:
  "\<exists>q'. quota_transfer ''a'' ''b'' (no_usage\<lparr>qu_memory_bytes := 9\<rparr>)
      (put_usage ''b'' (no_usage\<lparr>qu_memory_bytes := 995\<rparr>) (put_usage ''a'' (no_usage\<lparr>qu_memory_bytes := 9\<rparr>) sample_quota))
      = Some (False, q')
    \<and> map_of (qt_rejections q') ''b'' = Some (no_rejections\<lparr>qr_connections := 1\<rparr>)"
  by (simp add: quota_transfer_def covers_def usage_of_def put_usage_def sample_quota_def quota_new_def no_usage_def
      less_char_def exceeded_dimension_def limits_for_def quota_reject_def no_rejections_def
      word_sat_add_def)

end
