(* ===== verification/Partition_Lifecycle.thy ===== *)
theory Partition_Lifecycle
  imports Message_Envelope
begin

text \<open>
  What surrounds one partition in the broker: its online expansion
  (\<open>partition_expansion.rs\<close>), the bounded cache of activated partition resources
  (\<open>partition_cache.rs\<close>), the ingress batcher (\<open>partition_batch.rs\<close>) and the choice of the
  state shard that owns a key (\<open>state_shards.rs\<close>), all in \<open>crates/server/src\<close>.

  The expansion is a transition system with a fencing epoch; the cache refines a list in order
  of use that drops its first entry when it grows beyond the capacity; the batcher cuts the
  sequence of what is pushed.
\<close>

section \<open>Partition expansion\<close>

record expansion_plan =
  xp_from_partitions :: u32
  xp_to_partitions :: u32
  xp_epoch :: u64
  xp_prepared_partitions :: u32

datatype epoch_decision = Current | RefreshRequired u64

record partition_expansion =
  px_current_partitions :: u32
  px_current_epoch :: u64
  px_pending :: "expansion_plan option"

definition expansion_new :: "u32 \<Rightarrow> u64 \<Rightarrow> partition_expansion option" where
  "expansion_new partitions epoch =
     (if partitions > 0
      then Some \<lparr>px_current_partitions = partitions, px_current_epoch = epoch, px_pending = None\<rparr>
      else None)"

definition expansion_begin ::
  "partition_expansion \<Rightarrow> u32 \<Rightarrow> expansion_plan option \<times> partition_expansion" where
  "expansion_begin x partitions =
     (case px_pending x of
        Some plan \<Rightarrow> if xp_to_partitions plan = partitions then (Some plan, x) else (None, x)
      | None \<Rightarrow>
         if partitions \<le> px_current_partitions x then (None, x)
         else
           let plan = \<lparr>xp_from_partitions = px_current_partitions x, xp_to_partitions = partitions,
                       xp_epoch = sat_add64 (px_current_epoch x) 1, xp_prepared_partitions = 0\<rparr>
           in (Some plan, x\<lparr>px_pending := Some plan\<rparr>))"

definition mark_prepared :: "partition_expansion \<Rightarrow> u32 \<Rightarrow> bool \<times> partition_expansion" where
  "mark_prepared x count =
     (case px_pending x of
        None \<Rightarrow> (False, x)
      | Some plan \<Rightarrow>
         if count > xp_to_partitions plan then (False, x)
         else (True, x\<lparr>px_pending := Some (plan\<lparr>xp_prepared_partitions :=
                 max (xp_prepared_partitions plan) count\<rparr>)\<rparr>))"

definition expansion_activate :: "partition_expansion \<Rightarrow> bool \<times> partition_expansion" where
  "expansion_activate x =
     (case px_pending x of
        None \<Rightarrow> (False, x)
      | Some plan \<Rightarrow>
         if xp_prepared_partitions plan \<noteq> xp_to_partitions plan then (False, x)
         else (True, x\<lparr>px_pending := None, px_current_partitions := xp_to_partitions plan,
                 px_current_epoch := xp_epoch plan\<rparr>))"

definition expansion_decide :: "partition_expansion \<Rightarrow> u64 \<Rightarrow> epoch_decision" where
  "expansion_decide x epoch =
     (if epoch = px_current_epoch x then Current else RefreshRequired (px_current_epoch x))"

definition expansion_current :: "partition_expansion \<Rightarrow> u32 \<times> u64" where
  "expansion_current x = (px_current_partitions x, px_current_epoch x)"

section \<open>The resource cache\<close>

text \<open>The keys are any ordered type: the \<open>HashMap\<close> is an ordered map here.\<close>

record ('k, 'v) partition_resource_cache =
  pc_capacity :: nat
  pc_values :: "('k, 'v) btree_map"
  pc_lru :: "'k list"
  pc_evictions :: u64

definition cache_new :: "nat \<Rightarrow> ('k, 'v) partition_resource_cache option" where
  "cache_new capacity =
     (if capacity > 0
      then Some \<lparr>pc_capacity = capacity, pc_values = [], pc_lru = [], pc_evictions = 0\<rparr>
      else None)"

definition cache_touch :: "'k \<Rightarrow> ('k, 'v) partition_resource_cache \<Rightarrow> ('k, 'v) partition_resource_cache" where
  "cache_touch key c = c\<lparr>pc_lru := filter (\<lambda>entry. entry \<noteq> key) (pc_lru c) @ [key]\<rparr>"

definition cache_get ::
  "('k, 'v) partition_resource_cache \<Rightarrow> 'k \<Rightarrow> 'v option \<times> ('k, 'v) partition_resource_cache" where
  "cache_get c key =
     (let c = (if bt_contains key (pc_values c) then cache_touch key c else c)
      in (map_of (pc_values c) key, c))"

text \<open>The eviction loop of \<open>insert\<close>; \<open>None\<close> would be a loop that never ends.\<close>

partial_function (option) evict_loop ::
  "'k::linorder \<Rightarrow> ('k, 'v) partition_resource_cache \<Rightarrow> ('k, 'v) partition_resource_cache option" where
  "evict_loop key c =
     (if length (pc_values c) > pc_capacity c then
        (case pc_lru c of
           [] \<Rightarrow> Some c
         | oldest # rest \<Rightarrow>
            if oldest \<noteq> key
            then evict_loop key (c\<lparr>pc_lru := rest, pc_values := bt_remove oldest (pc_values c),
                   pc_evictions := sat_add64 (pc_evictions c) 1\<rparr>)
            else evict_loop key (c\<lparr>pc_lru := rest @ [oldest]\<rparr>))
      else Some c)"

definition cache_insert ::
  "('k::linorder, 'v) partition_resource_cache \<Rightarrow> 'k \<Rightarrow> 'v \<Rightarrow>
     ('v option \<times> ('k, 'v) partition_resource_cache) option" where
  "cache_insert c key value =
     (let previous = map_of (pc_values c) key;
          c = cache_touch key (c\<lparr>pc_values := bt_insert key value (pc_values c)\<rparr>)
      in map_option (Pair previous) (evict_loop key c))"

definition cache_remove ::
  "('k, 'v) partition_resource_cache \<Rightarrow> 'k \<Rightarrow> 'v option \<times> ('k, 'v) partition_resource_cache" where
  "cache_remove c key =
     (map_of (pc_values c) key,
      c\<lparr>pc_lru := filter (\<lambda>entry. entry \<noteq> key) (pc_lru c), pc_values := bt_remove key (pc_values c)\<rparr>)"

definition cache_len :: "('k, 'v) partition_resource_cache \<Rightarrow> nat" where
  "cache_len c = length (pc_values c)"

definition cache_clear :: "('k, 'v) partition_resource_cache \<Rightarrow> ('k, 'v) partition_resource_cache" where
  "cache_clear c = c\<lparr>pc_values := [], pc_lru := []\<rparr>"

section \<open>The ingress batcher\<close>

text \<open>Durations and instants are nanoseconds; \<open>usize\<close> is 64 bits wide.\<close>

record batch_limits =
  bl_max_records :: nat
  bl_max_bytes :: nat
  bl_max_delay :: nat

definition limits_validate :: "batch_limits \<Rightarrow> bool" where
  "limits_validate l \<longleftrightarrow> bl_max_records l > 0 \<and> bl_max_bytes l > 0 \<and> \<not> bl_max_delay l = 0"

record 't partition_batch =
  pb_items :: "'t list"
  pb_bytes :: nat

record 't partition_batcher =
  bb_limits :: batch_limits
  bb_items :: "'t list"
  bb_bytes :: nat
  bb_opened_at :: "nat option"

definition batcher_new :: "batch_limits \<Rightarrow> 't partition_batcher option" where
  "batcher_new l =
     (if limits_validate l
      then Some \<lparr>bb_limits = l, bb_items = [], bb_bytes = 0, bb_opened_at = None\<rparr>
      else None)"

definition batch_take :: "'t partition_batcher \<Rightarrow> 't partition_batch \<times> 't partition_batcher" where
  "batch_take b =
     (\<lparr>pb_items = bb_items b, pb_bytes = bb_bytes b\<rparr>,
      b\<lparr>bb_opened_at := None, bb_items := [], bb_bytes := 0\<rparr>)"

definition batch_push ::
  "nat \<Rightarrow> 't partition_batcher \<Rightarrow> 't \<Rightarrow> nat \<Rightarrow> 't partition_batch option \<times> 't partition_batcher" where
  "batch_push now b item bytes =
     (let b = (if bb_items b = [] then b\<lparr>bb_opened_at := Some now\<rparr> else b);
          b = b\<lparr>bb_bytes := sat_add64 (bb_bytes b) bytes\<rparr>;
          b = b\<lparr>bb_items := bb_items b @ [item]\<rparr>
      in if length (bb_items b) \<ge> bl_max_records (bb_limits b) \<or> bb_bytes b \<ge> bl_max_bytes (bb_limits b)
         then (let (batch, b) = batch_take b in (Some batch, b))
         else (None, b))"

definition flush_due :: "nat \<Rightarrow> 't partition_batcher \<Rightarrow> bool" where
  "flush_due now b =
     (case bb_opened_at b of None \<Rightarrow> False | Some opened \<Rightarrow> now - opened \<ge> bl_max_delay (bb_limits b))"

definition batch_flush :: "'t partition_batcher \<Rightarrow> 't partition_batch option \<times> 't partition_batcher" where
  "batch_flush b =
     (if bb_items b \<noteq> [] then (let (batch, b) = batch_take b in (Some batch, b)) else (None, b))"

section \<open>State shards\<close>

datatype state_shard_key =
    PartitionShard string "32 word" | ConsumerShard string | ProducerShard string | TenantShard string

definition hash_bytes :: "64 word \<Rightarrow> bytes \<Rightarrow> 64 word" where
  "hash_bytes hash bs = foldl (\<lambda>h b. (h XOR ucast b) * 0x100000001b3) hash bs"

definition be_bytes32 :: "32 word \<Rightarrow> bytes" where
  "be_bytes32 w = map (\<lambda>i. ucast (drop_bit i w)) [24, 16, 8, 0]"

definition shard_hash :: "state_shard_key \<Rightarrow> 64 word" where
  "shard_hash key =
     (let hash = 0xcbf29ce484222325 in
      case key of
        PartitionShard stream p \<Rightarrow> hash_bytes (hash_bytes hash (bytes_of_string stream)) (be_bytes32 p)
      | ConsumerShard v \<Rightarrow> hash_bytes (hash_bytes hash (bytes_of_string ''consumer:'')) (bytes_of_string v)
      | ProducerShard v \<Rightarrow> hash_bytes (hash_bytes hash (bytes_of_string ''producer:'')) (bytes_of_string v)
      | TenantShard v \<Rightarrow> hash_bytes (hash_bytes hash (bytes_of_string ''tenant:'')) (bytes_of_string v))"

text \<open>\<open>None\<close> is the failed assertion.\<close>

definition shard_for :: "state_shard_key \<Rightarrow> nat \<Rightarrow> nat option" where
  "shard_for key shard_count =
     (if \<not> shard_count > 0 then None else Some (unat (shard_hash key) mod shard_count))"

section \<open>Expansion: invariant and fencing\<close>

inductive expansion_step :: "partition_expansion \<Rightarrow> partition_expansion \<Rightarrow> bool" where
  xstep_begin: "expansion_step x (snd (expansion_begin x n))"
| xstep_prepared: "expansion_step x (snd (mark_prepared x n))"
| xstep_activate: "expansion_step x (snd (expansion_activate x))"

definition expansion_init :: "partition_expansion \<Rightarrow> bool" where
  "expansion_init x \<longleftrightarrow> (\<exists>p e. e \<le> u64_max \<and> expansion_new p e = Some x)"

definition plan_inv :: "partition_expansion \<Rightarrow> expansion_plan \<Rightarrow> bool" where
  "plan_inv x plan \<longleftrightarrow>
     xp_from_partitions plan = px_current_partitions x
     \<and> px_current_partitions x < xp_to_partitions plan
     \<and> xp_prepared_partitions plan \<le> xp_to_partitions plan
     \<and> xp_epoch plan = sat_add64 (px_current_epoch x) 1"

definition expansion_inv :: "partition_expansion \<Rightarrow> bool" where
  "expansion_inv x \<longleftrightarrow> 0 < px_current_partitions x \<and> px_current_epoch x \<le> u64_max
     \<and> (\<forall>plan. px_pending x = Some plan \<longrightarrow> plan_inv x plan)"

text \<open>What an expansion may do to the published pair of partition count and epoch.\<close>

definition expansion_grows :: "partition_expansion \<Rightarrow> partition_expansion \<Rightarrow> bool" where
  "expansion_grows x y \<longleftrightarrow>
     px_current_partitions x \<le> px_current_partitions y
     \<and> px_current_epoch x \<le> px_current_epoch y
     \<and> (px_current_epoch x < u64_max \<longrightarrow>
          (px_current_epoch y = px_current_epoch x \<longleftrightarrow> px_current_partitions y = px_current_partitions x))"

lemmas expansion_defs = expansion_begin_def mark_prepared_def expansion_activate_def

lemma activate_iff_prepared:
  "fst (expansion_activate x) \<longleftrightarrow>
     (\<exists>plan. px_pending x = Some plan \<and> xp_prepared_partitions plan = xp_to_partitions plan)"
  by (auto simp: expansion_activate_def split: option.split)

lemma expansion_begin_law:
  "expansion_inv x \<Longrightarrow> expansion_inv (snd (expansion_begin x n)) \<and> expansion_grows x (snd (expansion_begin x n))"
  by (cases "px_pending x")
    (simp_all add: expansion_begin_def expansion_inv_def expansion_grows_def plan_inv_def Let_def)

lemma mark_prepared_law:
  "expansion_inv x \<Longrightarrow> expansion_inv (snd (mark_prepared x n)) \<and> expansion_grows x (snd (mark_prepared x n))"
  by (cases "px_pending x")
    (simp_all add: mark_prepared_def expansion_inv_def expansion_grows_def plan_inv_def)

lemma expansion_activate_law:
  assumes "expansion_inv x"
  shows "expansion_inv (snd (expansion_activate x)) \<and> expansion_grows x (snd (expansion_activate x))"
proof (cases "px_pending x")
  case None
  with assms show ?thesis by (simp add: expansion_activate_def expansion_grows_def)
next
  case (Some plan)
  with assms have "plan_inv x plan" "px_current_epoch x \<le> u64_max" by (simp_all add: expansion_inv_def)
  then have "px_current_epoch x \<le> xp_epoch plan" "xp_epoch plan \<le> u64_max"
    "px_current_epoch x < u64_max \<Longrightarrow> px_current_epoch x < xp_epoch plan"
    by (auto simp: plan_inv_def sat_add64_def)
  with assms Some \<open>plan_inv x plan\<close> show ?thesis
    by (auto simp: expansion_activate_def expansion_inv_def expansion_grows_def plan_inv_def)
qed

lemma expansion_step_law:
  "expansion_inv x \<Longrightarrow> expansion_step x y \<Longrightarrow> expansion_inv y \<and> expansion_grows x y"
  by (auto elim!: expansion_step.cases
      simp: expansion_begin_law mark_prepared_law expansion_activate_law)

interpretation expn: monotone_epoch expansion_init expansion_step expansion_inv px_current_epoch
proof unfold_locales
  show "expansion_inv x" if "expansion_init x" for x
    using that by (auto simp: expansion_init_def expansion_new_def expansion_inv_def split: if_splits)
qed (use expansion_step_law in \<open>auto simp: expansion_grows_def\<close>)

lemma expansion_steps_grow:
  assumes "expansion_step\<^sup>*\<^sup>* x y" and "expansion_inv x"
  shows "expansion_grows x y"
  using assms
proof (induction rule: rtranclp_induct)
  case base
  then show ?case by (simp add: expansion_grows_def)
next
  case (step y z)
  then have "expansion_grows x y" by simp
  moreover have "expansion_grows y z"
    using expansion_step_law [OF expn.steps_inv [OF step(1,4)] step(2)] by simp
  ultimately show ?case by (auto simp: expansion_grows_def)
qed

definition sample_expansion :: partition_expansion where
  "sample_expansion = \<lparr>px_current_partitions = 2, px_current_epoch = 7, px_pending = None\<rparr>"

text \<open>
  C28. The routing epoch identifies the partition count: once a client has learned the pair
  of partition count and epoch, then after any sequence of begun, prepared and activated
  expansions its epoch is answered with \<open>Current\<close> exactly if that pair is still the one in force,
  and the partition count has not decreased. (At the last 64-bit epoch the saturating increment
  cannot tell two counts apart, which the hypothesis excludes.)
\<close>

theorem expansion_epoch_identifies_partitions:
  assumes "reaches expansion_init expansion_step x" and "expansion_step\<^sup>*\<^sup>* x y"
    and "expansion_current x = (partitions, epoch)" and "epoch < u64_max"
  shows "(expansion_decide y epoch = Current \<longleftrightarrow> expansion_current y = (partitions, epoch))
    \<and> partitions \<le> px_current_partitions y"
  using expansion_steps_grow [OF assms(2) expn.reaches_inv [OF assms(1)]] assms(3,4)
  by (auto simp: expansion_grows_def expansion_decide_def expansion_current_def)

theorem expansion_epoch_identifies_partitions_witness:
  "\<exists>y. fst (expansion_activate (snd (mark_prepared (snd (expansion_begin sample_expansion 6)) 6)))
     \<and> y = snd (expansion_activate (snd (mark_prepared (snd (expansion_begin sample_expansion 6)) 6)))
     \<and> expansion_current y = (6, 8) \<and> expansion_decide y 7 = RefreshRequired 8 \<and> 2 \<le> px_current_partitions y"
proof -
  let ?a = "snd (expansion_begin sample_expansion 6)"
  let ?b = "snd (mark_prepared ?a 6)"
  let ?y = "snd (expansion_activate ?b)"
  have "expansion_new 2 7 = Some sample_expansion" and "(7::nat) \<le> u64_max"
    by (simp_all add: expansion_new_def sample_expansion_def u64_max_def)
  then have init: "reaches expansion_init expansion_step sample_expansion"
    by (intro reaches_init) (auto simp: expansion_init_def)
  have "expansion_step\<^sup>*\<^sup>* sample_expansion ?y"
    by (meson xstep_begin xstep_prepared xstep_activate rtranclp.rtrancl_refl rtranclp.rtrancl_into_rtrancl)
  moreover have cur: "expansion_current sample_expansion = (2, 7)"
    by (simp add: expansion_current_def sample_expansion_def)
  moreover have fin: "fst (expansion_activate ?b)" "expansion_current ?y = (6, 8)"
    by (simp_all add: expansion_defs sample_expansion_def expansion_current_def sat_add64_def u64_max_def
        Let_def)
  ultimately have "expansion_decide ?y 7 \<noteq> Current" "2 \<le> px_current_partitions ?y"
    using expansion_epoch_identifies_partitions [OF init _ cur] by (simp_all add: u64_max_def)
  with fin show ?thesis
    by (auto simp: expansion_decide_def expansion_current_def split: if_splits)
qed

section \<open>The cache as a list in order of use\<close>

definition cache_recency :: "('k, 'v) partition_resource_cache \<Rightarrow> ('k \<times> 'v) list" where
  "cache_recency c = map (\<lambda>k. (k, the (map_of (pc_values c) k))) (pc_lru c)"

definition recency_use :: "'k \<Rightarrow> ('k \<times> 'v) list \<Rightarrow> ('k \<times> 'v) list" where
  "recency_use key xs = filter (\<lambda>e. fst e \<noteq> key) xs @ filter (\<lambda>e. fst e = key) xs"

definition recency_put :: "nat \<Rightarrow> 'k \<Rightarrow> 'v \<Rightarrow> ('k \<times> 'v) list \<Rightarrow> ('k \<times> 'v) list" where
  "recency_put capacity key v xs =
     (let ys = filter (\<lambda>e. fst e \<noteq> key) xs @ [(key, v)] in drop (length ys - capacity) ys)"

text \<open>The map and the use list hold the same keys; the bound is kept apart, for the loop.\<close>

definition cache_linked :: "('k::linorder, 'v) partition_resource_cache \<Rightarrow> bool" where
  "cache_linked c \<longleftrightarrow> 0 < pc_capacity c \<and> bt_wf (pc_values c)
     \<and> distinct (pc_lru c) \<and> set (pc_lru c) = dom (map_of (pc_values c))"

definition cache_inv :: "('k::linorder, 'v) partition_resource_cache \<Rightarrow> bool" where
  "cache_inv c \<longleftrightarrow> cache_linked c \<and> length (pc_values c) \<le> pc_capacity c"

definition cache_init :: "('k, 'v) partition_resource_cache \<Rightarrow> bool" where
  "cache_init c \<longleftrightarrow> (\<exists>n. cache_new n = Some c)"

inductive cache_step ::
  "('k::linorder, 'v) partition_resource_cache \<Rightarrow> ('k, 'v) partition_resource_cache \<Rightarrow> bool" where
  cstep_get: "cache_step c (snd (cache_get c k))"
| cstep_insert: "cache_insert c k v = Some (p, c') \<Longrightarrow> cache_step c c'"
| cstep_remove: "cache_step c (snd (cache_remove c k))"
| cstep_clear: "cache_step c (cache_clear c)"

lemma length_recency [simp]: "length (cache_recency c) = length (pc_lru c)"
  by (simp add: cache_recency_def)

lemma linked_length: "cache_linked c \<Longrightarrow> length (pc_values c) = length (pc_lru c)"
  unfolding cache_linked_def
  using distinct_card [of "pc_lru c"] distinct_card [OF bt_wf_distinct, of "pc_values c"]
  by (simp add: dom_map_of_conv_image_fst)

lemma linked_touch:
  "cache_linked c \<Longrightarrow> key \<in> dom (map_of (pc_values c)) \<Longrightarrow> cache_linked (cache_touch key c)"
  by (auto simp: cache_linked_def cache_touch_def)

lemma linked_recency: "cache_linked c \<Longrightarrow> map_of (cache_recency c) = map_of (pc_values c)"
proof (rule ext)
  fix k
  assume "cache_linked c"
  then have "set (pc_lru c) = dom (map_of (pc_values c))" by (simp add: cache_linked_def)
  moreover have "map_of (map (\<lambda>k. (k, the (m k))) ks) k = (if k \<in> set ks then Some (the (m k)) else None)"
    for m :: "'a \<Rightarrow> 'b option" and ks
    by (induction ks) auto
  ultimately show "map_of (cache_recency c) k = map_of (pc_values c) k"
    unfolding cache_recency_def by (auto simp: dom_def)
qed

lemma recency_filter:
  "filter (\<lambda>e. P (fst e)) (cache_recency c) = map (\<lambda>k. (k, the (map_of (pc_values c) k))) (filter P (pc_lru c))"
  by (simp add: cache_recency_def filter_map comp_def)

lemma filter_only: "x \<in> set xs \<Longrightarrow> distinct xs \<Longrightarrow> filter (\<lambda>y. y = x) xs = [x]"
  by (induction xs) (auto simp: filter_empty_conv)

lemma cache_get_law:
  assumes "cache_inv c"
  shows "cache_inv (snd (cache_get c key))
    \<and> fst (cache_get c key) = map_of (cache_recency c) key
    \<and> cache_recency (snd (cache_get c key)) = recency_use key (cache_recency c)"
proof (cases "key \<in> set (pc_lru c)")
  case True
  from assms have l: "cache_linked c" by (simp add: cache_inv_def)
  with True have d: "key \<in> dom (map_of (pc_values c))" "distinct (pc_lru c)" by (auto simp: cache_linked_def)
  have "filter (\<lambda>k. k = key) (pc_lru c) = [key]"
    using True d(2) by (rule filter_only)
  then show ?thesis
    using assms linked_touch [OF l d(1)] linked_recency [OF l] d(1)
      recency_filter [of "\<lambda>k. k \<noteq> key" c] recency_filter [of "\<lambda>k. k = key" c]
    by (auto simp: cache_get_def bt_contains_def recency_use_def cache_inv_def cache_touch_def cache_recency_def)
next
  case False
  then have none: "map_of (pc_values c) key = None"
    using assms by (auto simp: cache_inv_def cache_linked_def dom_def)
  moreover have "filter (\<lambda>e. fst e \<noteq> key) (cache_recency c) = cache_recency c"
    "filter (\<lambda>e. fst e = key) (cache_recency c) = []"
    using False by (auto simp: cache_recency_def filter_id_conv filter_empty_conv)
  ultimately show ?thesis
    using assms linked_recency [of c]
    by (simp add: cache_get_def bt_contains_def recency_use_def cache_inv_def)
qed

text \<open>The loop: nothing to do within the bound, one eviction one above it.\<close>

lemma evict_loop_within: "length (pc_values c) \<le> pc_capacity c \<Longrightarrow> evict_loop key c = Some c"
  by (subst evict_loop.simps) simp

definition cache_evicted :: "('k, 'v) partition_resource_cache \<Rightarrow> ('k, 'v) partition_resource_cache" where
  "cache_evicted c = c\<lparr>pc_lru := tl (pc_lru c), pc_values := bt_remove (hd (pc_lru c)) (pc_values c),
     pc_evictions := sat_add64 (pc_evictions c) 1\<rparr>"

lemma linked_evicted:
  assumes "cache_linked c" and "pc_lru c \<noteq> []"
  shows "cache_linked (cache_evicted c) \<and> cache_recency (cache_evicted c) = tl (cache_recency c)"
proof -
  obtain k ks where ks: "pc_lru c = k # ks" using assms(2) by (cases "pc_lru c") auto
  with assms(1) have "k \<notin> set ks" "bt_wf (pc_values c)" "set ks = dom (map_of (pc_values c)) - {k}"
    by (auto simp: cache_linked_def)
  with assms(1) ks show ?thesis
    by (auto simp: cache_linked_def cache_evicted_def cache_recency_def dom_def)
qed

lemma evict_loop_one:
  assumes c: "cache_linked c" "length (pc_values c) = Suc (pc_capacity c)"
    and "hd (pc_lru c) \<noteq> key"
  shows "evict_loop key c = Some (cache_evicted c)"
proof -
  have ne: "pc_lru c \<noteq> []" using linked_length [OF c(1)] c(2) by auto
  then have "length (pc_values (cache_evicted c)) = pc_capacity c"
    using linked_evicted [OF c(1) ne] linked_length [of "cache_evicted c"] linked_length [OF c(1)] c(2)
    by (simp add: cache_evicted_def)
  then have "evict_loop key (cache_evicted c) = Some (cache_evicted c)"
    by (intro evict_loop_within) (simp add: cache_evicted_def)
  moreover obtain k ks where "pc_lru c = k # ks" using ne by (cases "pc_lru c") auto
  ultimately show ?thesis
    using c(2) assms(3) by (subst evict_loop.simps) (simp add: cache_evicted_def)
qed

definition cache_put :: "'k::linorder \<Rightarrow> 'v \<Rightarrow> ('k, 'v) partition_resource_cache \<Rightarrow> ('k, 'v) partition_resource_cache" where
  "cache_put key v c = cache_touch key (c\<lparr>pc_values := bt_insert key v (pc_values c)\<rparr>)"

lemma linked_put:
  assumes "cache_linked c"
  shows "cache_linked (cache_put key v c)
    \<and> cache_recency (cache_put key v c) = filter (\<lambda>e. fst e \<noteq> key) (cache_recency c) @ [(key, v)]"
  using assms
  by (auto simp: cache_linked_def cache_put_def cache_touch_def cache_recency_def filter_map comp_def)

lemma cache_insert_law:
  assumes inv: "cache_inv c"
  shows "\<exists>c'. cache_insert c key v = Some (map_of (cache_recency c) key, c') \<and> cache_inv c'
    \<and> pc_capacity c' = pc_capacity c \<and> cache_recency c' = recency_put (pc_capacity c) key v (cache_recency c)"
proof -
  let ?d = "cache_put key v c"
  have linked: "cache_linked c" and pos: "0 < pc_capacity c" and bound: "length (pc_values c) \<le> pc_capacity c"
    using inv by (simp_all add: cache_inv_def cache_linked_def)
  have d1: "cache_linked ?d"
    and d2: "cache_recency ?d = filter (\<lambda>e. fst e \<noteq> key) (cache_recency c) @ [(key, v)]"
    using linked_put [OF linked, of key v] by auto
  have cap: "pc_capacity ?d = pc_capacity c" by (simp add: cache_put_def cache_touch_def)
  have len: "length (pc_values ?d) = length (cache_recency ?d)"
    using linked_length [OF d1] by simp
  have ins: "cache_insert c key v = map_option (Pair (map_of (cache_recency c) key)) (evict_loop key ?d)"
    by (simp add: cache_insert_def cache_put_def linked_recency [OF linked])
  have put: "recency_put (pc_capacity c) key v (cache_recency c)
      = drop (length (cache_recency ?d) - pc_capacity c) (cache_recency ?d)"
    unfolding recency_put_def Let_def d2 ..
  show ?thesis
  proof (cases "length (pc_values ?d) \<le> pc_capacity c")
    case True
    then have "evict_loop key ?d = Some ?d" by (intro evict_loop_within) (simp add: cap)
    with True ins put d1 cap len show ?thesis by (auto simp: cache_inv_def)
  next
    case False
    have "length (cache_recency ?d) \<le> Suc (length (cache_recency c))"
      unfolding d2 by (simp add: le_SucI [OF length_filter_le] del: length_recency)
    then have one: "length (pc_values ?d) = Suc (pc_capacity c)"
      using False len bound linked_length [OF linked] by simp
    have ne: "pc_lru ?d \<noteq> []" and hd: "hd (pc_lru ?d) \<noteq> key"
    proof -
      have "length (pc_lru ?d) = Suc (pc_capacity c)" using one linked_length [OF d1] by simp
      then obtain k ls where "filter (\<lambda>entry. entry \<noteq> key) (pc_lru c) = k # ls"
        using pos by (auto simp: cache_put_def cache_touch_def length_Suc_conv gr0_conv_Suc)
      moreover from this have "k \<noteq> key" by (auto simp: filter_eq_Cons_iff)
      ultimately show "pc_lru ?d \<noteq> []" "hd (pc_lru ?d) \<noteq> key"
        by (simp_all add: cache_put_def cache_touch_def)
    qed
    have "evict_loop key ?d = Some (cache_evicted ?d)"
      using d1 one hd cap by (intro evict_loop_one) auto
    moreover have ev: "cache_linked (cache_evicted ?d)" "cache_recency (cache_evicted ?d) = tl (cache_recency ?d)"
      using linked_evicted [OF d1 ne] by auto
    moreover have "length (pc_values (cache_evicted ?d)) = pc_capacity c"
      using linked_length [OF ev(1)] linked_length [OF d1] one by (simp add: cache_evicted_def)
    moreover have "pc_capacity (cache_evicted ?d) = pc_capacity c" using cap by (simp add: cache_evicted_def)
    moreover have "drop (length (cache_recency ?d) - pc_capacity c) (cache_recency ?d) = tl (cache_recency ?d)"
      using one len by (simp add: drop_Suc)
    ultimately show ?thesis using ins put by (simp add: cache_inv_def)
  qed
qed

lemma cache_remove_law:
  assumes "cache_inv c"
  shows "cache_inv (snd (cache_remove c key))
    \<and> cache_recency (snd (cache_remove c key)) = filter (\<lambda>e. fst e \<noteq> key) (cache_recency c)"
proof -
  have "length (bt_remove key (pc_values c)) \<le> length (pc_values c)" by (simp add: bt_remove_def)
  then show ?thesis
    using assms
    by (auto simp: cache_remove_def cache_inv_def cache_linked_def cache_recency_def filter_map comp_def dom_def)
qed

lemma cache_clear_law: "cache_inv c \<Longrightarrow> cache_inv (cache_clear c)"
  by (simp add: cache_clear_def cache_inv_def cache_linked_def bt_wf_def)

interpretation cache: invariant_system cache_init cache_step cache_inv
proof unfold_locales
  show "cache_inv c" if "cache_init c" for c :: "('k::linorder, 'v) partition_resource_cache"
    using that by (auto simp: cache_init_def cache_new_def cache_inv_def cache_linked_def bt_wf_def split: if_splits)
  show "cache_inv d" if "cache_inv c" "cache_step c d" for c d :: "('k::linorder, 'v) partition_resource_cache"
    using that(2)
  proof cases
    case (cstep_insert k v p)
    with cache_insert_law [OF that(1), of k v] show ?thesis by auto
  qed (use that(1) in \<open>simp_all add: cache_get_law cache_remove_law cache_clear_law\<close>)
qed

definition sample_cache :: "(nat, nat) partition_resource_cache" where
  "sample_cache = \<lparr>pc_capacity = 2, pc_values = [(1, 10), (2, 20)], pc_lru = [2, 1], pc_evictions = 0\<rparr>"

lemma sample_cache_reached: "reaches cache_init cache_step sample_cache"
proof -
  let ?c0 = "\<lparr>pc_capacity = 2, pc_values = [], pc_lru = [], pc_evictions = 0\<rparr> :: (nat, nat) partition_resource_cache"
  let ?c1 = "?c0\<lparr>pc_values := [(1, 10)], pc_lru := [1]\<rparr>"
  let ?c2 = "?c0\<lparr>pc_values := [(1, 10), (2, 20)], pc_lru := [1, 2]\<rparr>"
  have "cache_new 2 = Some ?c0" by (simp add: cache_new_def)
  then have "reaches cache_init cache_step ?c0"
    unfolding cache_init_def by (blast intro: reaches_init)
  moreover have "cache_insert ?c0 1 10 = Some (None, ?c1)" "cache_insert ?c1 2 20 = Some (None, ?c2)"
    by (simp_all add: cache_insert_def cache_touch_def evict_loop_within)
  then have "cache_step ?c0 ?c1" "cache_step ?c1 ?c2" by (auto intro: cstep_insert)
  moreover have "cache_step ?c2 (snd (cache_get ?c2 1))" by (rule cstep_get)
  then have "cache_step ?c2 sample_cache"
    by (simp add: cache_get_def bt_contains_def cache_touch_def sample_cache_def)
  ultimately show ?thesis by (blast intro: reaches_step)
qed

text \<open>
  The resource cache is a least-recently-used cache: in every reachable state it holds at
  most its capacity, its contents in order of use are a list, a lookup returns the stored
  value and moves the entry to the end, and an insertion always returns (its eviction loop
  ends), with the previous value, having put the entry at the end and dropped the entries
  least recently used beyond the capacity.
\<close>

theorem cache_is_lru:
  assumes "reaches cache_init cache_step c"
  shows "(\<exists>c'. cache_insert c key v = Some (map_of (cache_recency c) key, c')
         \<and> cache_recency c' = recency_put (pc_capacity c) key v (cache_recency c))
    \<and> fst (cache_get c key) = map_of (cache_recency c) key
    \<and> cache_recency (snd (cache_get c key)) = recency_use key (cache_recency c)
    \<and> length (cache_recency c) = cache_len c \<and> cache_len c \<le> pc_capacity c"
proof -
  have inv: "cache_inv c" using assms by (rule cache.reaches_inv)
  then have "length (cache_recency c) = cache_len c" "cache_len c \<le> pc_capacity c"
    using linked_length [of c] by (simp_all add: cache_inv_def cache_len_def)
  with cache_insert_law [OF inv, of key v] cache_get_law [OF inv, of key] show ?thesis by blast
qed

theorem cache_is_lru_witness:
  "\<exists>c'. cache_insert sample_cache 3 30 = Some (None, c') \<and> cache_recency c' = [(1, 10), (3, 30)]"
  using cache_is_lru [OF sample_cache_reached, of 3 30]
  by (simp add: recency_put_def cache_recency_def sample_cache_def)

section \<open>The batcher cuts the sequence of what is pushed\<close>

text \<open>
  Calls of the batcher, with items that carry the size they are pushed with; the emitted
  batches and the batcher after the calls.
\<close>

datatype 't batch_call = PushCall nat 't nat | FlushCall

fun batch_call_result ::
  "('t \<times> nat) partition_batcher \<Rightarrow> 't batch_call \<Rightarrow>
     ('t \<times> nat) partition_batch option \<times> ('t \<times> nat) partition_batcher" where
  "batch_call_result b (PushCall now item bytes) = batch_push now b (item, bytes) bytes"
| "batch_call_result b FlushCall = batch_flush b"

fun batch_run ::
  "('t \<times> nat) partition_batcher \<Rightarrow> 't batch_call list \<Rightarrow>
     ('t \<times> nat) partition_batch list \<times> ('t \<times> nat) partition_batcher" where
  "batch_run b [] = ([], b)"
| "batch_run b (call # calls) =
     (let (out, b') = batch_call_result b call; (batches, b'') = batch_run b' calls
      in (case out of None \<Rightarrow> batches | Some batch \<Rightarrow> batch # batches, b''))"

fun pushed_items :: "'t batch_call list \<Rightarrow> ('t \<times> nat) list" where
  "pushed_items [] = []"
| "pushed_items (PushCall now item bytes # calls) = (item, bytes) # pushed_items calls"
| "pushed_items (FlushCall # calls) = pushed_items calls"

definition batched_bytes :: "('t \<times> nat) list \<Rightarrow> nat" where
  "batched_bytes xs = min (sum_list (map snd xs)) u64_max"

definition batcher_inv :: "batch_limits \<Rightarrow> ('t \<times> nat) partition_batcher \<Rightarrow> bool" where
  "batcher_inv l b \<longleftrightarrow> bb_limits b = l \<and> limits_validate l \<and> bb_bytes b = batched_bytes (bb_items b)
     \<and> length (bb_items b) < bl_max_records l \<and> bb_bytes b < bl_max_bytes l
     \<and> (bb_opened_at b = None \<longleftrightarrow> bb_items b = [])"

definition batch_ok :: "batch_limits \<Rightarrow> ('t \<times> nat) partition_batch \<Rightarrow> bool" where
  "batch_ok l batch \<longleftrightarrow> pb_items batch \<noteq> [] \<and> length (pb_items batch) \<le> bl_max_records l
     \<and> batched_bytes (butlast (pb_items batch)) < bl_max_bytes l
     \<and> pb_bytes batch = batched_bytes (pb_items batch)"

lemma batched_bytes_snoc: "batched_bytes (xs @ [(x, n)]) = sat_add64 (batched_bytes xs) n"
  by (simp add: batched_bytes_def sat_add64_def)

lemma batched_bytes_base [simp]:
  "batched_bytes [] = 0" "batched_bytes [(x, n)] = sat_add64 0 n"
  by (simp_all add: batched_bytes_def sat_add64_def)

lemma batch_call_law:
  assumes "batcher_inv l b" and "batch_call_result b call = (out, b')"
  shows "batcher_inv l b'
    \<and> (case out of None \<Rightarrow> [] | Some batch \<Rightarrow> pb_items batch) @ bb_items b' = bb_items b @ pushed_items [call]
    \<and> (\<forall>batch. out = Some batch \<longrightarrow> batch_ok l batch)"
proof (cases call)
  case (PushCall now item bytes)
  with assms show ?thesis
    by (auto simp: batch_push_def batch_take_def Let_def batcher_inv_def batch_ok_def batched_bytes_snoc
        limits_validate_def split: if_splits)
next
  case FlushCall
  with assms have len: "batched_bytes (butlast (bb_items b)) \<le> batched_bytes (bb_items b)"
    by (cases "bb_items b" rule: rev_cases) (auto simp: batched_bytes_def)
  with FlushCall assms show ?thesis
    by (auto simp: batch_flush_def batch_take_def batcher_inv_def batch_ok_def limits_validate_def
        split: if_splits)
qed

lemma batch_run_law:
  "batcher_inv l b \<Longrightarrow> batch_run b calls = (batches, b') \<Longrightarrow>
     batcher_inv l b'
     \<and> concat (map pb_items batches) @ bb_items b' = bb_items b @ pushed_items calls
     \<and> list_all (batch_ok l) batches"
proof (induction calls arbitrary: b batches)
  case Nil
  then show ?case by simp
next
  case (Cons call calls)
  obtain out b1 where call: "batch_call_result b call = (out, b1)" by (cases "batch_call_result b call")
  obtain bs where run: "batch_run b1 calls = (bs, b')"
    and batches: "batches = (case out of None \<Rightarrow> bs | Some batch \<Rightarrow> batch # bs)"
    using Cons.prems(2) call by (auto simp: Let_def split: prod.splits)
  have "pushed_items (call # calls) = pushed_items [call] @ pushed_items calls" by (cases call) simp_all
  moreover have one: "batcher_inv l b1"
    "(case out of None \<Rightarrow> [] | Some batch \<Rightarrow> pb_items batch) @ bb_items b1 = bb_items b @ pushed_items [call]"
    "\<forall>batch. out = Some batch \<longrightarrow> batch_ok l batch"
    using batch_call_law [OF Cons.prems(1) call] by blast+
  moreover note rest = Cons.IH [OF one(1) run]
  have "concat (map pb_items batches) @ bb_items b'
      = (case out of None \<Rightarrow> [] | Some batch \<Rightarrow> pb_items batch) @ bb_items b1 @ pushed_items calls"
    using rest batches by (simp split: option.split)
  ultimately have "concat (map pb_items batches) @ bb_items b' = bb_items b @ pushed_items (call # calls)"
    by (metis append_assoc)
  with rest one(3) batches show ?case by (simp split: option.split)
qed

lemma batcher_new_inv: "batcher_new l = Some b \<Longrightarrow> batcher_inv l b \<and> bb_items b = []"
  by (auto simp: batcher_new_def batcher_inv_def limits_validate_def batched_bytes_def split: if_splits)

text \<open>
  The batcher loses, duplicates and reorders nothing: after any calls the batches it
  returned, in order, followed by what it still holds, are the items pushed. Every batch is
  non-empty, has at most the configured number of records, reports its saturated size and was
  still below the byte limit before its last record; what is held back stays below both
  limits, and a due flush always has something to return.
\<close>

theorem batcher_partitions_input:
  assumes "batcher_new l = Some b0" and "batch_run b0 calls = (batches, b)"
  shows "concat (map pb_items batches) @ bb_items b = pushed_items calls
    \<and> list_all (batch_ok l) batches
    \<and> length (bb_items b) < bl_max_records l \<and> bb_bytes b < bl_max_bytes l
    \<and> (flush_due now b \<longrightarrow> (\<exists>batch b'. batch_flush b = (Some batch, b') \<and> pb_items batch = bb_items b \<and> bb_items b' = []))"
proof -
  note new = batcher_new_inv [OF assms(1)]
  from batch_run_law [OF conjunct1 [OF new] assms(2)] new
  have inv: "batcher_inv l b" and out: "concat (map pb_items batches) @ bb_items b = pushed_items calls"
    "list_all (batch_ok l) batches"
    by simp_all
  have "\<exists>batch b'. batch_flush b = (Some batch, b') \<and> pb_items batch = bb_items b \<and> bb_items b' = []"
    if "flush_due now b"
    using that inv by (auto simp: flush_due_def batcher_inv_def batch_flush_def batch_take_def split: option.splits)
  with inv out show ?thesis by (simp add: batcher_inv_def)
qed

theorem batcher_partitions_input_witness:
  "\<exists>b0 b. batcher_new \<lparr>bl_max_records = 2, bl_max_bytes = 100, bl_max_delay = 5\<rparr> = Some b0
     \<and> batch_run b0 [PushCall 0 CHR ''a'' 10, PushCall 1 CHR ''b'' 10, PushCall 2 CHR ''c'' 10] =
         ([\<lparr>pb_items = [(CHR ''a'', 10), (CHR ''b'', 10)], pb_bytes = 20\<rparr>], b)
     \<and> [(CHR ''a'', 10), (CHR ''b'', 10)] @ bb_items b = [(CHR ''a'', 10), (CHR ''b'', 10), (CHR ''c'', 10)]"
proof -
  let ?l = "\<lparr>bl_max_records = 2, bl_max_bytes = 100, bl_max_delay = 5\<rparr>"
  let ?b0 = "\<lparr>bb_limits = ?l, bb_items = [], bb_bytes = 0, bb_opened_at = None\<rparr>"
  let ?calls = "[PushCall 0 CHR ''a'' 10, PushCall 1 CHR ''b'' 10, PushCall 2 CHR ''c'' 10]"
  let ?out = "[\<lparr>pb_items = [(CHR ''a'', 10), (CHR ''b'', 10)], pb_bytes = 20\<rparr>]"
  have new: "batcher_new ?l = Some ?b0"
    by (simp add: batcher_new_def limits_validate_def)
  obtain b where run: "batch_run ?b0 ?calls = (?out, b)"
    by (simp add: batch_push_def batch_take_def sat_add64_def u64_max_def)
  from batcher_partitions_input [OF new run] new run show ?thesis by auto
qed

section \<open>Shards\<close>

text \<open>A shard is the log's stable hash of one byte string, reduced to the shard count.\<close>

fun shard_bytes :: "state_shard_key \<Rightarrow> bytes" where
  "shard_bytes (PartitionShard stream p) = bytes_of_string stream @ be_bytes32 p"
| "shard_bytes (ConsumerShard v) = bytes_of_string (''consumer:'' @ v)"
| "shard_bytes (ProducerShard v) = bytes_of_string (''producer:'' @ v)"
| "shard_bytes (TenantShard v) = bytes_of_string (''tenant:'' @ v)"

lemma shard_for_stable:
  "0 < n \<Longrightarrow> shard_for key n = Some (unat (stable_hash (shard_bytes key)) mod n)
     \<and> unat (stable_hash (shard_bytes key)) mod n < n"
  by (cases key)
    (simp_all add: shard_for_def shard_hash_def stable_hash_def hash_bytes_def bytes_of_string_def)

end
