(* ===== verification/Log_Codec.thy ===== *)
theory Log_Codec
  imports Message_Envelope
begin

text \<open>
  The on-disk batches of a partition log, from \<open>crates/server/src/partition_log/codec.rs\<close>: the
  binary envelope, its length and checksum prefix, and the reader.

  Parameters of the model are what the code takes from outside: the CRC-32 of \<open>crc32fast\<close>, the
  legacy JSON envelopes of \<open>serde_json\<close>, and a key ring given by what it does to a body
  (authenticated encryption of \<open>aws_lc_rs\<close>, stored as JSON). Everything else, the layout, the
  bounds and the order of the checks, is the code's. A \<open>Read\<close> is the list of its remaining
  bytes; a regular file delivers what is asked for up to its end.
\<close>

section \<open>Byte encodings of the standard library\<close>

definition to_le_bytes :: "nat \<Rightarrow> nat \<Rightarrow> bytes" where
  "to_le_bytes k n = map (\<lambda>i. word_of_nat (n div 256 ^ i)) [0..<k]"

fun from_le_bytes :: "bytes \<Rightarrow> nat" where
  "from_le_bytes [] = 0"
| "from_le_bytes (b # bs) = unat b + 256 * from_le_bytes bs"

definition utf8_tail :: "8 word \<Rightarrow> bool" where
  "utf8_tail b \<longleftrightarrow> 0x80 \<le> b \<and> b \<le> 0xBF"

text \<open>The well-formed byte sequences of \<open>String::from_utf8\<close>.\<close>

fun utf8_valid :: "bytes \<Rightarrow> bool" where
  "utf8_valid [] = True"
| "utf8_valid (a # bs) =
     (if a < 0x80 then utf8_valid bs
      else if 0xC2 \<le> a \<and> a \<le> 0xDF then
        (case bs of b # cs \<Rightarrow> utf8_tail b \<and> utf8_valid cs | _ \<Rightarrow> False)
      else if 0xE0 \<le> a \<and> a \<le> 0xEF then
        (case bs of
           b # c # cs \<Rightarrow> utf8_tail b \<and> (a = 0xE0 \<longrightarrow> 0xA0 \<le> b) \<and> (a = 0xED \<longrightarrow> b \<le> 0x9F)
             \<and> utf8_tail c \<and> utf8_valid cs
         | _ \<Rightarrow> False)
      else if 0xF0 \<le> a \<and> a \<le> 0xF4 then
        (case bs of
           b # c # d # cs \<Rightarrow> utf8_tail b \<and> (a = 0xF0 \<longrightarrow> 0x90 \<le> b) \<and> (a = 0xF4 \<longrightarrow> b \<le> 0x8F)
             \<and> utf8_tail c \<and> utf8_tail d \<and> utf8_valid cs
         | _ \<Rightarrow> False)
      else False)"

definition string_of_bytes :: "bytes \<Rightarrow> string" where
  "string_of_bytes bs = map (\<lambda>b. char_of (unat b)) bs"

definition from_utf8 :: "bytes \<Rightarrow> string option" where
  "from_utf8 bs = (if utf8_valid bs then Some (string_of_bytes bs) else None)"

section \<open>Results\<close>

datatype io_error = UnexpectedEof string | InvalidData string

definition and_then :: "'e + 'a \<Rightarrow> ('a \<Rightarrow> 'e + 'b) \<Rightarrow> 'e + 'b" where
  "and_then r f = (case r of Err e \<Rightarrow> Err e | Ok x \<Rightarrow> f x)"

definition map_ok :: "('a \<Rightarrow> 'b) \<Rightarrow> 'e + 'a \<Rightarrow> 'e + 'b" where
  "map_ok f r = and_then r (\<lambda>x. Ok (f x))"

section \<open>Writing an envelope\<close>

definition put_bytes :: "bytes \<Rightarrow> bytes \<Rightarrow> bytes result" where
  "put_bytes bs out =
     (if \<not> length bs \<le> u32_max then Err ''partition-log field is too large''
      else Ok (out @ to_le_bytes 4 (length bs) @ bs))"

definition put_string :: "string \<Rightarrow> bytes \<Rightarrow> bytes result" where
  "put_string s out = put_bytes (bytes_of_string s) out"

fun put_optional_bytes :: "bytes option \<Rightarrow> bytes \<Rightarrow> bytes result" where
  "put_optional_bytes (Some v) out = put_bytes v (out @ [1])"
| "put_optional_bytes None out = Ok (out @ [0])"

fun put_optional_string :: "string option \<Rightarrow> bytes \<Rightarrow> bytes result" where
  "put_optional_string (Some v) out = put_string v (out @ [1])"
| "put_optional_string None out = Ok (out @ [0])"

definition put_header :: "message_header \<Rightarrow> bytes \<Rightarrow> bytes result" where
  "put_header h out = and_then (put_string (mh_name h) out) (put_string (mh_value h))"

fun put_each :: "('a \<Rightarrow> bytes \<Rightarrow> bytes result) \<Rightarrow> 'a list \<Rightarrow> bytes \<Rightarrow> bytes result" where
  "put_each put [] out = Ok out"
| "put_each put (x # xs) out = and_then (put x out) (put_each put xs)"

definition put_headers :: "message_header list \<Rightarrow> bytes \<Rightarrow> bytes result" where
  "put_headers hs out =
     (if \<not> length hs \<le> u32_max then Err ''too many headers''
      else put_each put_header hs (out @ to_le_bytes 4 (length hs)))"

definition put_schema_id :: "u64 option \<Rightarrow> bytes \<Rightarrow> bytes result" where
  "put_schema_id s out =
     (case s of Some i \<Rightarrow> Ok (out @ [1] @ to_le_bytes 8 i) | None \<Rightarrow> Ok (out @ [0]))"

definition put_u32 :: "u32 \<Rightarrow> bytes \<Rightarrow> bytes result" where
  "put_u32 n out = Ok (out @ to_le_bytes 4 n)"

definition put_u64 :: "u64 \<Rightarrow> bytes \<Rightarrow> bytes result" where
  "put_u64 n out = Ok (out @ to_le_bytes 8 n)"

definition BINARY_BODY_MAGIC :: bytes where
  "BINARY_BODY_MAGIC = bytes_of_string (''MORROW-PLOG-BIN1'' @ [CHR 0x0A])"

definition ENCRYPTED_BODY_MAGIC :: bytes where
  "ENCRYPTED_BODY_MAGIC = bytes_of_string (''MORROW-PLOG-ENC1'' @ [CHR 0x0A])"

definition encode_binary_envelope :: "message_envelope \<Rightarrow> bytes result" where
  "encode_binary_envelope e =
     and_then (put_string (en_namespace e) BINARY_BODY_MAGIC) (\<lambda>out.
     and_then (put_string (en_stream e) out) (\<lambda>out.
     and_then (put_u32 (en_partition e) out) (\<lambda>out.
     and_then (put_u64 (en_offset e) out) (\<lambda>out.
     and_then (put_string (en_subject e) out) (\<lambda>out.
     and_then (put_optional_bytes (en_key e) out) (\<lambda>out.
     and_then (put_headers (en_headers e) out) (\<lambda>out.
     and_then (put_u64 (en_timestamp_ms e) out) (\<lambda>out.
     and_then (put_optional_string (en_reply_to e) out) (\<lambda>out.
     and_then (put_schema_id (en_schema_id e) out) (\<lambda>out.
     and_then (put_bytes (en_payload e) out) (\<lambda>out.
     and_then (put_u64 (en_partitioning_epoch e) out) (\<lambda>out.
     and_then (put_u64 (en_leader_epoch e) out) (\<lambda>out.
       put_u64 (en_legacy_seq e) out)))))))))))))"

section \<open>Reading an envelope\<close>

record binary_reader =
  br_bytes :: bytes
  br_offset :: nat

type_synonym 'a reading = "binary_reader \<Rightarrow> io_error + ('a \<times> binary_reader)"

definition reads :: "'a reading \<Rightarrow> ('a \<Rightarrow> 'b reading) \<Rightarrow> 'b reading" where
  "reads p f r = and_then (p r) (\<lambda>(x, r'). f x r')"

definition reads_as :: "'a \<Rightarrow> 'a reading" where
  "reads_as x r = Ok (x, r)"

definition invalid :: "string \<Rightarrow> io_error" where
  "invalid message = InvalidData message"

definition reader_take :: "nat \<Rightarrow> bytes reading" where
  "reader_take len r =
     (let stop = br_offset r + len in
      if stop > u64_max then Err (invalid ''field length overflow'')
      else if stop > length (br_bytes r) then Err (invalid ''truncated binary envelope'')
      else Ok (take len (drop (br_offset r) (br_bytes r)), r\<lparr>br_offset := stop\<rparr>))"

definition reader_u8 :: "8 word reading" where
  "reader_u8 = reads (reader_take 1) (\<lambda>bs. reads_as (hd bs))"

definition reader_u32 :: "u32 reading" where
  "reader_u32 = reads (reader_take 4) (\<lambda>bs. reads_as (from_le_bytes bs))"

definition reader_u64 :: "u64 reading" where
  "reader_u64 = reads (reader_take 8) (\<lambda>bs. reads_as (from_le_bytes bs))"

definition reader_bytes :: "bytes reading" where
  "reader_bytes = reads reader_u32 reader_take"

definition reader_string :: "string reading" where
  "reader_string = reads reader_bytes (\<lambda>bs r.
     case from_utf8 bs of
       None \<Rightarrow> Err (invalid ''binary envelope string is not UTF-8'')
     | Some s \<Rightarrow> Ok (s, r))"

definition reader_optional :: "'a reading \<Rightarrow> 'a option reading" where
  "reader_optional p = reads reader_u8 (\<lambda>flag.
     if flag = 1 then reads p (\<lambda>x. reads_as (Some x)) else reads_as None)"

definition reader_optional_bytes :: "bytes option reading" where
  "reader_optional_bytes = reader_optional reader_bytes"

definition reader_optional_string :: "string option reading" where
  "reader_optional_string = reader_optional reader_string"

definition reader_stream_id :: "string reading" where
  "reader_stream_id = reads reader_string (\<lambda>s r.
     case stream_id_new s of Err e \<Rightarrow> Err (invalid e) | Ok v \<Rightarrow> Ok (v, r))"

definition reader_header :: "message_header reading" where
  "reader_header = reads reader_string (\<lambda>n. reads reader_string (\<lambda>v.
     reads_as \<lparr>mh_name = n, mh_value = v\<rparr>))"

fun reader_times :: "'a reading \<Rightarrow> nat \<Rightarrow> 'a list reading" where
  "reader_times p 0 = reads_as []"
| "reader_times p (Suc n) = reads p (\<lambda>x. reads (reader_times p n) (\<lambda>xs. reads_as (x # xs)))"

definition reader_end :: "unit reading" where
  "reader_end r =
     (if br_offset r \<noteq> length (br_bytes r) then Err (invalid ''trailing bytes in binary envelope'')
      else Ok ((), r))"

definition read_envelope :: "message_envelope reading" where
  "read_envelope =
     reads reader_string (\<lambda>namespace.
     reads reader_stream_id (\<lambda>stream.
     reads reader_u32 (\<lambda>p.
     reads reader_u64 (\<lambda>offset.
     reads reader_string (\<lambda>subject.
     reads reader_optional_bytes (\<lambda>key.
     reads (reads reader_u32 (reader_times reader_header)) (\<lambda>headers.
     reads reader_u64 (\<lambda>timestamp_ms.
     reads reader_optional_string (\<lambda>reply_to.
     reads (reader_optional reader_u64) (\<lambda>schema_id.
     reads reader_bytes (\<lambda>payload.
     reads reader_u64 (\<lambda>partitioning_epoch.
     reads reader_u64 (\<lambda>leader_epoch.
     reads reader_u64 (\<lambda>legacy_seq.
     reads_as \<lparr>en_namespace = namespace, en_stream = stream, en_partition = p, en_offset = offset,
       en_subject = subject, en_key = key, en_headers = headers, en_timestamp_ms = timestamp_ms,
       en_reply_to = reply_to, en_schema_id = schema_id, en_payload = payload,
       en_partitioning_epoch = partitioning_epoch, en_leader_epoch = leader_epoch,
       en_legacy_seq = legacy_seq\<rparr>))))))))))))))"

definition decode_binary_envelope :: "bytes \<Rightarrow> io_error + message_envelope" where
  "decode_binary_envelope body =
     map_ok fst (reads read_envelope (\<lambda>e. reads reader_end (\<lambda>_. reads_as e))
       \<lparr>br_bytes = drop (length BINARY_BODY_MAGIC) body, br_offset = 0\<rparr>)"

section \<open>Batches\<close>

text \<open>
  What the code takes from libraries: \<open>crc32fast::hash\<close>, \<open>serde_json::from_slice\<close> of an old
  envelope, and the key ring's two directions on a body.
\<close>

record key_ring =
  kr_seal :: "bytes \<Rightarrow> bytes result"
  kr_open :: "bytes \<Rightarrow> bytes result"

record log_codec =
  lc_crc :: "bytes \<Rightarrow> 32 word"
  lc_json :: "bytes \<Rightarrow> message_envelope result"

definition MAX_BATCH_BYTES :: nat where
  "MAX_BATCH_BYTES = 64 * 1024 * 1024"

definition BATCH_PREFIX_LEN :: nat where
  "BATCH_PREFIX_LEN = 8"

definition frame_batch :: "log_codec \<Rightarrow> bytes \<Rightarrow> bytes result" where
  "frame_batch lc body =
     (if \<not> length body \<le> u32_max then Err ''partition-log envelope is too large''
      else Ok (to_le_bytes 4 (length body) @ to_le_bytes 4 (unat (lc_crc lc body)) @ body))"

definition encode_batch_with_len :: "log_codec \<Rightarrow> message_envelope \<Rightarrow> (bytes \<times> u64) result" where
  "encode_batch_with_len lc e =
     and_then (encode_binary_envelope e) (\<lambda>body.
     map_ok (\<lambda>batch. (batch, length batch)) (frame_batch lc body))"

definition encode_batch :: "log_codec \<Rightarrow> message_envelope \<Rightarrow> bytes result" where
  "encode_batch lc e = map_ok fst (encode_batch_with_len lc e)"

definition encode_encrypted_batch_with_len ::
  "log_codec \<Rightarrow> message_envelope \<Rightarrow> key_ring \<Rightarrow> (bytes \<times> u64) result" where
  "encode_encrypted_batch_with_len lc e encryption =
     and_then (encode_binary_envelope e) (\<lambda>body.
     and_then (kr_seal encryption body) (\<lambda>encrypted.
     map_ok (\<lambda>batch. (batch, length batch)) (frame_batch lc (ENCRYPTED_BODY_MAGIC @ encrypted))))"

definition envelope_checksum :: "log_codec \<Rightarrow> message_envelope \<Rightarrow> (32 word) result" where
  "envelope_checksum lc e = map_ok (lc_crc lc) (encode_binary_envelope e)"

text \<open>\<open>read_exact\<close>: short input is consumed and reported.\<close>

definition read_exact :: "nat \<Rightarrow> bytes \<Rightarrow> (io_error + bytes) \<times> bytes" where
  "read_exact n input =
     (if n \<le> length input then (Ok (take n input), drop n input)
      else (Err (UnexpectedEof ''failed to fill whole buffer''), []))"

text \<open>What a checked body means.\<close>

definition open_body :: "key_ring option \<Rightarrow> bytes \<Rightarrow> io_error + bytes" where
  "open_body encryption body =
     (if prefix ENCRYPTED_BODY_MAGIC body then
        (case encryption of
           None \<Rightarrow> Err (InvalidData ''encrypted partition log requires key'')
         | Some ring \<Rightarrow>
            (case kr_open ring (drop (length ENCRYPTED_BODY_MAGIC) body) of
               Err e \<Rightarrow> Err (InvalidData e)
             | Ok plain \<Rightarrow> Ok plain))
      else Ok body)"

definition decode_body :: "log_codec \<Rightarrow> bytes \<Rightarrow> io_error + message_envelope" where
  "decode_body lc body =
     (if prefix BINARY_BODY_MAGIC body then decode_binary_envelope body
      else (case lc_json lc body of
              Err e \<Rightarrow> Err (InvalidData (''invalid partition-log envelope: '' @ e))
            | Ok x \<Rightarrow> Ok x))"

definition read_batch_with_key ::
  "log_codec \<Rightarrow> key_ring option \<Rightarrow> bytes \<Rightarrow> (io_error + (message_envelope \<times> u64) option) \<times> bytes" where
  "read_batch_with_key lc encryption input =
     (let prefix_len = min 4 (length input); file = drop prefix_len input in
      if prefix_len = 0 then (Ok None, file)
      else if prefix_len \<noteq> 4 then (Err (UnexpectedEof ''torn batch length''), file)
      else
        let body_len = from_le_bytes (take 4 input) in
        if body_len > MAX_BATCH_BYTES then
          (Err (InvalidData ''partition-log batch length exceeds limit''), file)
        else
          case read_exact 4 file of
            (Err e, file) \<Rightarrow> (Err e, file)
          | (Ok expected_crc, file) \<Rightarrow>
             (case read_exact body_len file of
                (Err e, file) \<Rightarrow> (Err e, file)
              | (Ok body, file) \<Rightarrow>
                 if unat (lc_crc lc body) \<noteq> from_le_bytes expected_crc then
                   (Err (InvalidData ''partition-log batch checksum mismatch''), file)
                 else
                   (map_ok (\<lambda>e. Some (e, BATCH_PREFIX_LEN + body_len))
                      (and_then (open_body encryption body) (decode_body lc)), file)))"

definition read_batch ::
  "log_codec \<Rightarrow> bytes \<Rightarrow> (io_error + (message_envelope \<times> u64) option) \<times> bytes" where
  "read_batch lc input = read_batch_with_key lc None input"

definition SEGMENT_HEADER :: bytes where
  "SEGMENT_HEADER = bytes_of_string (''BROKERLOG'' @ [CHR 0x01, CHR 0x0A])"

definition SEGMENT_HEADER_LEN :: nat where
  "SEGMENT_HEADER_LEN = length SEGMENT_HEADER"

section \<open>Field codecs\<close>

lemma and_then_Ok [simp]: "and_then (Ok x) f = f x"
  by (simp add: and_then_def)

lemma and_then_Err [simp]: "and_then (Err e) f = Err e"
  by (simp add: and_then_def)

lemma map_ok_simps [simp]: "map_ok f (Ok x) = Ok (f x)" "map_ok f (Err e) = Err e"
  by (simp_all add: map_ok_def)

lemma and_then_eq_Ok: "and_then x f = Ok y \<longleftrightarrow> (\<exists>z. x = Ok z \<and> f z = Ok y)"
  by (cases x) auto

lemma to_le_bytes_Suc: "to_le_bytes (Suc k) n = word_of_nat n # to_le_bytes k (n div 256)"
  by (simp add: to_le_bytes_def upt_conv_Cons map_Suc_upt [symmetric] div_mult2_eq comp_def
      del: upt_Suc)

lemma length_to_le_bytes [simp]: "length (to_le_bytes k n) = k"
  by (simp add: to_le_bytes_def)

lemma from_to_le_bytes: "n < 256 ^ k \<Longrightarrow> from_le_bytes (to_le_bytes k n) = n"
proof (induction k arbitrary: n)
  case 0
  then show ?case by (simp add: to_le_bytes_def)
next
  case (Suc k)
  then have "n div 256 < 256 ^ k" by (simp add: less_mult_imp_div_less mult.commute)
  with Suc.IH have "from_le_bytes (to_le_bytes k (n div 256)) = n div 256" by blast
  moreover have "unat (word_of_nat n :: 8 word) = n mod 256"
    by (simp add: unsigned_of_nat take_bit_eq_mod)
  ultimately show ?case by (simp add: to_le_bytes_Suc)
qed

lemma u_max_less: "n \<le> u32_max \<Longrightarrow> n < 256 ^ 4" "n \<le> u64_max \<Longrightarrow> n < 256 ^ 8"
  by (simp_all add: u32_max_def u64_max_def)

lemma unat_of_char8: "unat (of_char c :: 8 word) = of_char c"
  by (cases c) (simp add: of_char_def unsigned_of_nat)

lemma string_of_bytes_of_string: "string_of_bytes (bytes_of_string s) = s"
  by (simp add: string_of_bytes_def bytes_of_string_def comp_def unat_of_char8)

text \<open>Appending \<open>bs\<close> is all a write does; a read at the front of \<open>bs\<close>, anywhere in a buffer, returns
  the value and moves behind \<open>bs\<close>.\<close>

definition writes :: "(bytes \<Rightarrow> bytes result) \<Rightarrow> bytes \<Rightarrow> bool" where
  "writes w bs \<longleftrightarrow> (\<forall>out. w out = Ok (out @ bs))"

definition decodes :: "'a reading \<Rightarrow> bytes \<Rightarrow> 'a \<Rightarrow> bool" where
  "decodes p bs x \<longleftrightarrow> (\<forall>pre post. length (pre @ bs @ post) \<le> u64_max \<longrightarrow>
     p \<lparr>br_bytes = pre @ bs @ post, br_offset = length pre\<rparr>
       = Ok (x, \<lparr>br_bytes = pre @ bs @ post, br_offset = length pre + length bs\<rparr>))"

lemma writes_seq: "writes w bs \<Longrightarrow> writes v cs \<Longrightarrow> writes (\<lambda>out. and_then (w out) v) (bs @ cs)"
  by (simp add: writes_def)

lemma decodes_seq:
  assumes "decodes p bs x" and "decodes (f x) cs y"
  shows "decodes (reads p f) (bs @ cs) y"
  unfolding decodes_def reads_def
proof (intro allI impI)
  fix pre post
  assume len: "length (pre @ (bs @ cs) @ post) \<le> u64_max"
  have "p \<lparr>br_bytes = pre @ bs @ cs @ post, br_offset = length pre\<rparr>
      = Ok (x, \<lparr>br_bytes = pre @ bs @ cs @ post, br_offset = length pre + length bs\<rparr>)"
    using assms(1) len unfolding decodes_def by (metis append_assoc)
  moreover have "f x \<lparr>br_bytes = (pre @ bs) @ cs @ post, br_offset = length (pre @ bs)\<rparr>
      = Ok (y, \<lparr>br_bytes = (pre @ bs) @ cs @ post, br_offset = length (pre @ bs) + length cs\<rparr>)"
    using assms(2) len unfolding decodes_def by (metis append_assoc)
  ultimately show "and_then (p \<lparr>br_bytes = pre @ (bs @ cs) @ post, br_offset = length pre\<rparr>) (\<lambda>(x, r'). f x r')
      = Ok (y, \<lparr>br_bytes = pre @ (bs @ cs) @ post, br_offset = length pre + length (bs @ cs)\<rparr>)"
    by (simp add: add.assoc)
qed

lemma decodes_as: "decodes (reads_as x) [] x"
  by (simp add: decodes_def reads_as_def)

lemma decodes_then_as: "decodes p bs x \<Longrightarrow> decodes (reads p (\<lambda>y. reads_as (f y))) bs (f x)"
  using decodes_seq [OF _ decodes_as] by fastforce

lemma decodes_take: "decodes (reader_take (length bs)) bs bs"
  by (simp add: decodes_def reader_take_def Let_def)

lemma decodes_check:
  "decodes p bs x \<Longrightarrow> (\<And>r. c x r = Ok (y, r)) \<Longrightarrow> decodes (reads p c) bs y"
  by (simp add: decodes_def reads_def)

lemma decodes_u8: "decodes reader_u8 [b] b"
  using decodes_then_as [OF decodes_take, of "[b]" hd] by (simp add: reader_u8_def)

text \<open>The contract of a field of the format: a writer and the reader that inverts it.\<close>

locale field_codec =
  fixes put :: "'a \<Rightarrow> bytes \<Rightarrow> bytes result"
    and get :: "'a reading"
    and fits :: "'a \<Rightarrow> bool"
  assumes field_law: "fits x \<Longrightarrow> \<exists>bs. writes (put x) bs \<and> decodes get bs x"
begin

lemma put_each_law:
  "list_all fits xs \<Longrightarrow> \<exists>bs. writes (put_each put xs) bs \<and> decodes (reader_times get (length xs)) bs xs"
proof (induction xs)
  case Nil
  show ?case by (rule exI [of _ "[]"]) (simp add: writes_def decodes_as)
next
  case (Cons x xs)
  then obtain bs cs where "writes (put x) bs" "decodes get bs x"
    and "writes (put_each put xs) cs" "decodes (reader_times get (length xs)) cs xs"
    using field_law [of x] by auto
  then have "writes (\<lambda>out. and_then (put x out) (put_each put xs)) (bs @ cs)"
    "decodes (reads get (\<lambda>x. reads (reader_times get (length xs)) (\<lambda>xs. reads_as (x # xs)))) (bs @ cs) (x # xs)"
    by (auto intro: writes_seq decodes_seq decodes_then_as)
  moreover have "put_each put (x # xs) = (\<lambda>out. and_then (put x out) (put_each put xs))" by (rule ext) simp
  ultimately show ?case by auto
qed

lemma optional_law:
  assumes "\<And>v out. opt (Some v) out = put v (out @ [1])" and "\<And>out. opt None out = Ok (out @ [0])"
    and "\<And>v. x = Some v \<Longrightarrow> fits v"
  shows "\<exists>bs. writes (opt x) bs \<and> decodes (reader_optional get) bs x"
proof (cases x)
  case None
  with assms(2) have "writes (opt x) [0]" by (simp add: writes_def)
  moreover have "decodes (reader_optional get) ([0] @ []) None"
    unfolding reader_optional_def by (rule decodes_seq [OF decodes_u8]) (simp add: decodes_as)
  ultimately show ?thesis using None by auto
next
  case (Some v)
  with assms(3) obtain bs where bs: "writes (put v) bs" "decodes get bs v" using field_law by blast
  with assms(1) Some have "writes (opt x) ([1] @ bs)" by (simp add: writes_def)
  moreover have "decodes (reader_optional get) ([1] @ bs) (Some v)"
    unfolding reader_optional_def by (rule decodes_seq [OF decodes_u8]) (simp add: decodes_then_as bs(2))
  ultimately show ?thesis using Some by blast
qed

end

interpretation u32_field: field_codec put_u32 reader_u32 "\<lambda>n. n \<le> u32_max"
proof unfold_locales
  show "\<exists>bs. writes (put_u32 n) bs \<and> decodes reader_u32 bs n" if "n \<le> u32_max" for n
  proof (intro exI conjI)
    show "writes (put_u32 n) (to_le_bytes 4 n)" by (simp add: writes_def put_u32_def)
    show "decodes reader_u32 (to_le_bytes 4 n) n"
      using decodes_then_as [OF decodes_take, of "to_le_bytes 4 n" from_le_bytes]
        from_to_le_bytes [OF u_max_less(1) [OF that]]
      by (simp add: reader_u32_def)
  qed
qed

interpretation u64_field: field_codec put_u64 reader_u64 "\<lambda>n. n \<le> u64_max"
proof unfold_locales
  show "\<exists>bs. writes (put_u64 n) bs \<and> decodes reader_u64 bs n" if "n \<le> u64_max" for n
  proof (intro exI conjI)
    show "writes (put_u64 n) (to_le_bytes 8 n)" by (simp add: writes_def put_u64_def)
    show "decodes reader_u64 (to_le_bytes 8 n) n"
      using decodes_then_as [OF decodes_take, of "to_le_bytes 8 n" from_le_bytes]
        from_to_le_bytes [OF u_max_less(2) [OF that]]
      by (simp add: reader_u64_def)
  qed
qed

lemma decodes_count:
  assumes "n \<le> u32_max" and "decodes (f n) cs y"
  shows "decodes (reads reader_u32 f) (to_le_bytes 4 n @ cs) y"
proof -
  obtain bs where "writes (put_u32 n) bs" "decodes reader_u32 bs n" using u32_field.field_law [OF assms(1)] by blast
  then have "decodes reader_u32 (to_le_bytes 4 n) n" by (simp add: writes_def put_u32_def)
  then show ?thesis using assms(2) by (rule decodes_seq)
qed

interpretation bytes_field: field_codec put_bytes reader_bytes "\<lambda>bs. length bs \<le> u32_max"
proof unfold_locales
  show "\<exists>cs. writes (put_bytes bs) cs \<and> decodes reader_bytes cs bs" if "length bs \<le> u32_max" for bs
    using decodes_count [of "length bs" reader_take, OF that decodes_take] that
    by (auto simp: writes_def put_bytes_def reader_bytes_def)
qed

definition string_fits :: "string \<Rightarrow> bool" where
  "string_fits s \<longleftrightarrow> length s \<le> u32_max \<and> utf8_valid (bytes_of_string s)"

interpretation string_field: field_codec put_string reader_string string_fits
proof unfold_locales
  show "\<exists>cs. writes (put_string s) cs \<and> decodes reader_string cs s" if fits: "string_fits s" for s
  proof -
    have fits2: "length (bytes_of_string s) \<le> u32_max" "from_utf8 (bytes_of_string s) = Some s"
      using fits by (simp_all add: string_fits_def bytes_of_string_def from_utf8_def
          string_of_bytes_of_string [unfolded bytes_of_string_def])
    obtain cs where cs: "writes (put_bytes (bytes_of_string s)) cs" "decodes reader_bytes cs (bytes_of_string s)"
      using bytes_field.field_law [OF fits2(1)] by blast
    have "decodes reader_string cs s"
      unfolding reader_string_def by (rule decodes_check [OF cs(2)]) (simp add: fits2(2))
    with cs(1) show ?thesis by (auto simp: put_string_def writes_def)
  qed
qed

interpretation stream_field: field_codec put_string reader_stream_id "\<lambda>s. string_fits s \<and> stream_id_new s = Ok s"
proof unfold_locales
  show "\<exists>cs. writes (put_string s) cs \<and> decodes reader_stream_id cs s" if fits: "string_fits s \<and> stream_id_new s = Ok s" for s
  proof -
    obtain cs where cs: "writes (put_string s) cs" "decodes reader_string cs s"
      using string_field.field_law fits by blast
    moreover have "decodes reader_stream_id cs s"
      unfolding reader_stream_id_def by (rule decodes_check [OF cs(2)]) (simp add: fits)
    ultimately show ?thesis by blast
  qed
qed

definition header_fits :: "message_header \<Rightarrow> bool" where
  "header_fits h \<longleftrightarrow> string_fits (mh_name h) \<and> string_fits (mh_value h)"

interpretation header_field: field_codec put_header reader_header header_fits
proof unfold_locales
  show "\<exists>cs. writes (put_header h) cs \<and> decodes reader_header cs h" if fits: "header_fits h" for h
  proof -
    obtain as bs where as: "writes (put_string (mh_name h)) as" "decodes reader_string as (mh_name h)"
      and bs: "writes (put_string (mh_value h)) bs" "decodes reader_string bs (mh_value h)"
      using fits string_field.field_law unfolding header_fits_def by meson
    have "writes (put_header h) (as @ bs)"
      using writes_seq [OF as(1) bs(1)] by (simp add: writes_def put_header_def)
    moreover have "decodes reader_header (as @ bs) h"
      using decodes_seq [OF as(2) decodes_then_as [OF bs(2)], of "\<lambda>n v. \<lparr>mh_name = n, mh_value = v\<rparr>"]
      by (cases h) (simp add: reader_header_def)
    ultimately show ?thesis by blast
  qed
qed

interpretation headers_field: field_codec put_headers "reads reader_u32 (reader_times reader_header)"
  "\<lambda>hs. length hs \<le> u32_max \<and> list_all header_fits hs"
proof unfold_locales
  show "\<exists>cs. writes (put_headers hs) cs \<and> decodes (reads reader_u32 (reader_times reader_header)) cs hs"
    if fits: "length hs \<le> u32_max \<and> list_all header_fits hs" for hs
  proof -
    obtain bs where bs: "writes (put_each put_header hs) bs" "decodes (reader_times reader_header (length hs)) bs hs"
      using header_field.put_each_law fits by blast
    then have "writes (put_headers hs) (to_le_bytes 4 (length hs) @ bs)"
      using fits by (simp add: writes_def put_headers_def)
    then show ?thesis using decodes_count [of "length hs" "reader_times reader_header", OF _ bs(2)] fits by blast
  qed
qed

interpretation key_field: field_codec put_optional_bytes reader_optional_bytes
  "\<lambda>k. \<forall>v. k = Some v \<longrightarrow> length v \<le> u32_max"
  unfolding reader_optional_bytes_def by unfold_locales (rule bytes_field.optional_law; simp)

interpretation reply_field: field_codec put_optional_string reader_optional_string
  "\<lambda>k. \<forall>v. k = Some v \<longrightarrow> string_fits v"
  unfolding reader_optional_string_def by unfold_locales (rule string_field.optional_law; simp)

interpretation schema_field: field_codec put_schema_id "reader_optional reader_u64"
  "\<lambda>k. \<forall>v. k = Some v \<longrightarrow> v \<le> u64_max"
  by unfold_locales (rule u64_field.optional_law; simp add: put_schema_id_def put_u64_def)

section \<open>Envelopes and batches\<close>

text \<open>
  The envelopes the format can carry: what the types of the code guarantee (widths, UTF-8, a
  stream name built by its constructor, an encoding whose length is a \<open>usize\<close>) and lengths below
  the 32-bit prefix.
\<close>

definition envelope_fits :: "message_envelope \<Rightarrow> bool" where
  "envelope_fits e \<longleftrightarrow>
     string_fits (en_namespace e) \<and> string_fits (en_stream e) \<and> stream_id_new (en_stream e) = Ok (en_stream e)
     \<and> en_partition e \<le> u32_max \<and> en_offset e \<le> u64_max \<and> string_fits (en_subject e)
     \<and> (\<forall>k. en_key e = Some k \<longrightarrow> length k \<le> u32_max)
     \<and> length (en_headers e) \<le> u32_max \<and> list_all header_fits (en_headers e)
     \<and> en_timestamp_ms e \<le> u64_max \<and> (\<forall>r. en_reply_to e = Some r \<longrightarrow> string_fits r)
     \<and> (\<forall>i. en_schema_id e = Some i \<longrightarrow> i \<le> u64_max) \<and> length (en_payload e) \<le> u32_max
     \<and> en_partitioning_epoch e \<le> u64_max \<and> en_leader_epoch e \<le> u64_max \<and> en_legacy_seq e \<le> u64_max
     \<and> (\<forall>body. encode_binary_envelope e = Ok body \<longrightarrow> length body \<le> u64_max)"

lemma envelope_law:
  assumes "envelope_fits e"
  shows "\<exists>bs. encode_binary_envelope e = Ok (BINARY_BODY_MAGIC @ bs) \<and> decodes read_envelope bs e"
proof -
  note fits = assms [unfolded envelope_fits_def]
  obtain b1 b2 b3 b4 b5 b6 b7 b8 b9 b10 b11 b12 b13 b14
    where w: "writes (put_string (en_namespace e)) b1" "writes (put_string (en_stream e)) b2"
      "writes (put_u32 (en_partition e)) b3" "writes (put_u64 (en_offset e)) b4"
      "writes (put_string (en_subject e)) b5" "writes (put_optional_bytes (en_key e)) b6"
      "writes (put_headers (en_headers e)) b7" "writes (put_u64 (en_timestamp_ms e)) b8"
      "writes (put_optional_string (en_reply_to e)) b9" "writes (put_schema_id (en_schema_id e)) b10"
      "writes (put_bytes (en_payload e)) b11" "writes (put_u64 (en_partitioning_epoch e)) b12"
      "writes (put_u64 (en_leader_epoch e)) b13" "writes (put_u64 (en_legacy_seq e)) b14"
    and d: "decodes reader_string b1 (en_namespace e)" "decodes reader_stream_id b2 (en_stream e)"
      "decodes reader_u32 b3 (en_partition e)" "decodes reader_u64 b4 (en_offset e)"
      "decodes reader_string b5 (en_subject e)" "decodes reader_optional_bytes b6 (en_key e)"
      "decodes (reads reader_u32 (reader_times reader_header)) b7 (en_headers e)"
      "decodes reader_u64 b8 (en_timestamp_ms e)" "decodes reader_optional_string b9 (en_reply_to e)"
      "decodes (reader_optional reader_u64) b10 (en_schema_id e)" "decodes reader_bytes b11 (en_payload e)"
      "decodes reader_u64 b12 (en_partitioning_epoch e)" "decodes reader_u64 b13 (en_leader_epoch e)"
      "decodes reader_u64 b14 (en_legacy_seq e)"
    using string_field.field_law [of "en_namespace e"] stream_field.field_law [of "en_stream e"]
      u32_field.field_law [of "en_partition e"] u64_field.field_law [of "en_offset e"]
      string_field.field_law [of "en_subject e"] key_field.field_law [of "en_key e"]
      headers_field.field_law [of "en_headers e"] u64_field.field_law [of "en_timestamp_ms e"]
      reply_field.field_law [of "en_reply_to e"] schema_field.field_law [of "en_schema_id e"]
      bytes_field.field_law [of "en_payload e"] u64_field.field_law [of "en_partitioning_epoch e"]
      u64_field.field_law [of "en_leader_epoch e"] u64_field.field_law [of "en_legacy_seq e"] fits
    by auto
  let ?bs = "b1 @ b2 @ b3 @ b4 @ b5 @ b6 @ b7 @ b8 @ b9 @ b10 @ b11 @ b12 @ b13 @ b14"
  have "encode_binary_envelope e = Ok (BINARY_BODY_MAGIC @ ?bs)"
    using w by (simp add: encode_binary_envelope_def writes_def)
  moreover have "decodes read_envelope ?bs e"
    unfolding read_envelope_def
    by (rule decodes_seq [OF d(1)], rule decodes_seq [OF d(2)], rule decodes_seq [OF d(3)],
        rule decodes_seq [OF d(4)], rule decodes_seq [OF d(5)], rule decodes_seq [OF d(6)],
        rule decodes_seq [OF d(7)], rule decodes_seq [OF d(8)], rule decodes_seq [OF d(9)],
        rule decodes_seq [OF d(10)], rule decodes_seq [OF d(11)], rule decodes_seq [OF d(12)],
        rule decodes_seq [OF d(13)],
        rule decodes_check [OF d(14)]) (simp add: reads_as_def)
  ultimately show ?thesis by blast
qed

lemma decode_encode_envelope:
  assumes "envelope_fits e" and "encode_binary_envelope e = Ok body"
  shows "prefix BINARY_BODY_MAGIC body \<and> decode_binary_envelope body = Ok e"
proof -
  obtain bs where bs: "body = BINARY_BODY_MAGIC @ bs" "decodes read_envelope bs e"
    using envelope_law [OF assms(1)] assms(2) by auto
  have len: "length body \<le> u64_max" using assms by (simp add: envelope_fits_def)
  have "read_envelope \<lparr>br_bytes = bs, br_offset = 0\<rparr> = Ok (e, \<lparr>br_bytes = bs, br_offset = length bs\<rparr>)"
    using bs(2) [unfolded decodes_def, rule_format, of "[]" "[]"] bs(1) len by simp
  then show ?thesis
    by (simp add: decode_binary_envelope_def bs(1) reads_def reads_as_def reader_end_def)
qed

text \<open>The key ring gives back what it sealed.\<close>

definition key_ring_ok :: "key_ring \<Rightarrow> bool" where
  "key_ring_ok ring \<longleftrightarrow> (\<forall>body sealed. kr_seal ring body = Ok sealed \<longrightarrow> kr_open ring sealed = Ok body)"

lemma magics_differ: "prefix ENCRYPTED_BODY_MAGIC (BINARY_BODY_MAGIC @ bs) = False"
  by (simp add: ENCRYPTED_BODY_MAGIC_def BINARY_BODY_MAGIC_def bytes_of_string_def of_char_def)

lemma frame_length: "frame_batch lc body = Ok batch \<Longrightarrow> length batch = BATCH_PREFIX_LEN + length body"
  by (auto simp: frame_batch_def BATCH_PREFIX_LEN_def split: if_splits)

text \<open>Reading a framed body returns what the body means and stops behind it.\<close>

lemma read_frame:
  assumes "frame_batch lc body = Ok batch" and "length body \<le> MAX_BATCH_BYTES"
  shows "read_batch_with_key lc ring (batch @ rest) =
    (map_ok (\<lambda>e. Some (e, length batch)) (and_then (open_body ring body) (decode_body lc)), rest)"
proof -
  have len: "length body \<le> u32_max"
    and batch: "batch = to_le_bytes 4 (length body) @ to_le_bytes 4 (unat (lc_crc lc body)) @ body"
    using assms(1) by (auto simp: frame_batch_def split: if_splits)
  have crc: "unat (lc_crc lc body) < 256 ^ 4"
    using unsigned_less [of "lc_crc lc body"] by simp
  show ?thesis
    using from_to_le_bytes [OF u_max_less(1) [OF len]] from_to_le_bytes [OF crc] assms(2)
    by (simp add: batch read_batch_with_key_def read_exact_def Let_def BATCH_PREFIX_LEN_def)
qed

end
