(* ===== verification/Log_Segment.thy ===== *)
theory Log_Segment
  imports Log_Codec
begin

text \<open>
  Segments of a partition log: scanning a segment, looking an offset up in one, and the replay
  that repairs the active segment after a crash, from
  \<open>crates/server/src/partition_log/log.rs\<close> and \<open>crates/server/src/partition_log.rs\<close>. A segment
  file is its bytes. The loops end because every batch that is read shortens the input.

  The theorems: a batch is read back as it was written, encrypted or not, and after a crash
  that cuts the active segment anywhere behind its header, replay recovers exactly the complete
  records and leaves a segment that holds just them.
\<close>

section \<open>Reading a segment\<close>

definition validate_segment_header :: "string \<Rightarrow> bytes \<Rightarrow> bytes result" where
  "validate_segment_header path input =
     (case read_exact (length SEGMENT_HEADER) input of
        (Err _, _) \<Rightarrow> Err (''reading partition-log header '' @ path)
      | (Ok header, rest) \<Rightarrow>
         if header \<noteq> SEGMENT_HEADER then Err (''unsupported partition-log format in '' @ path)
         else Ok rest)"

lemma read_batch_shrinks:
  "read_batch_with_key lc ring input = (Ok (Some x), rest) \<Longrightarrow> length rest < length input"
  by (auto simp: read_batch_with_key_def read_exact_def Let_def split: if_splits)

function read_records :: "log_codec \<Rightarrow> key_ring option \<Rightarrow> bytes \<Rightarrow> io_error + message_envelope list" where
  "read_records lc ring input =
     (case read_batch_with_key lc ring input of
        (Err e, _) \<Rightarrow> Err e
      | (Ok None, _) \<Rightarrow> Ok []
      | (Ok (Some (e, _)), rest) \<Rightarrow> map_ok (Cons e) (read_records lc ring rest))"
  by pat_completeness auto
termination
  by (relation "measure (\<lambda>(lc, ring, input). length input)") (auto dest: read_batch_shrinks [OF sym])

definition read_segment_records ::
  "log_codec \<Rightarrow> key_ring option \<Rightarrow> string \<Rightarrow> bytes \<Rightarrow> message_envelope list result" where
  "read_segment_records lc ring path contents =
     and_then (validate_segment_header path contents) (\<lambda>rest.
       case read_records lc ring rest of
         Err (UnexpectedEof m) \<Rightarrow> Err m
       | Err (InvalidData m) \<Rightarrow> Err m
       | Ok es \<Rightarrow> Ok es)"

function find_offset :: "log_codec \<Rightarrow> key_ring option \<Rightarrow> u64 \<Rightarrow> bytes \<Rightarrow> io_error + message_envelope option" where
  "find_offset lc ring target input =
     (case read_batch_with_key lc ring input of
        (Err e, _) \<Rightarrow> Err e
      | (Ok None, _) \<Rightarrow> Ok None
      | (Ok (Some (e, _)), rest) \<Rightarrow>
         if en_offset e = target then Ok (Some e)
         else if en_offset e > target then Ok None
         else find_offset lc ring target rest)"
  by pat_completeness auto
termination
  by (relation "measure (\<lambda>(lc, ring, target, input). length input)") (auto dest: read_batch_shrinks [OF sym])

definition read_segment_offset :: "log_codec \<Rightarrow> bytes \<Rightarrow> u64 \<Rightarrow> io_error + message_envelope option" where
  "read_segment_offset lc contents target =
     (case read_exact (length SEGMENT_HEADER) contents of
        (Err e, _) \<Rightarrow> Err e
      | (Ok header, rest) \<Rightarrow>
         if header \<noteq> SEGMENT_HEADER then Err (InvalidData ''remote partition segment header is invalid'')
         else find_offset lc None target rest)"

section \<open>Replay\<close>

record retention_record =
  rr_offset :: u64
  rr_timestamp_ms :: u64
  rr_bytes :: u64

record replay_state =
  rp_envelopes :: "message_envelope list"
  rp_retention_records :: "retention_record list"
  rp_retained_bytes :: u64

definition replay_push :: "message_envelope \<Rightarrow> u64 \<Rightarrow> replay_state \<Rightarrow> replay_state" where
  "replay_push e n st =
     \<lparr>rp_envelopes = rp_envelopes st @ [into_resident_metadata e],
      rp_retention_records = rp_retention_records st
        @ [\<lparr>rr_offset = en_offset e, rr_timestamp_ms = en_timestamp_ms e, rr_bytes = n\<rparr>],
      rp_retained_bytes = sat_add64 (rp_retained_bytes st) n\<rparr>"

text \<open>
  The loop of \<open>replay_segment\<close>: the remaining input, the boundary behind the last whole batch and
  the collected state. The result is the number of truncations, the state and the file.
\<close>

function replay_loop ::
  "log_codec \<Rightarrow> key_ring option \<Rightarrow> string \<Rightarrow> bool \<Rightarrow> string \<Rightarrow> u32 \<Rightarrow> bytes \<Rightarrow> bytes \<Rightarrow> u64 \<Rightarrow> replay_state \<Rightarrow>
     u64 result \<times> replay_state \<times> bytes" where
  "replay_loop lc ring path active stream p contents input boundary st =
     (case read_batch_with_key lc ring input of
        (Ok (Some (e, n)), rest) \<Rightarrow>
          if \<not> (en_stream e = stream \<and> en_partition e = p)
          then (Err ''partition-log envelope stored under the wrong stream or partition'', st, contents)
          else replay_loop lc ring path active stream p contents rest (boundary + n) (replay_push e n st)
      | (Ok None, _) \<Rightarrow> (Ok 0, st, contents)
      | (Err e, rest) \<Rightarrow>
          if active \<and> (case e of UnexpectedEof _ \<Rightarrow> True | InvalidData _ \<Rightarrow> rest = [])
          then (Ok 1, st, take boundary contents)
          else (Err (''corrupt partition-log segment '' @ path), st, contents))"
  by pat_completeness auto
termination
  by (relation "measure (\<lambda>(lc, ring, path, active, stream, p, contents, input, boundary, st). length input)")
    (auto dest: read_batch_shrinks [OF sym])

definition replay_segment ::
  "log_codec \<Rightarrow> key_ring option \<Rightarrow> string \<Rightarrow> bool \<Rightarrow> string \<Rightarrow> u32 \<Rightarrow> bytes \<Rightarrow> replay_state \<Rightarrow>
     u64 result \<times> replay_state \<times> bytes" where
  "replay_segment lc ring path active stream p contents st =
     (case validate_segment_header path contents of
        Err e \<Rightarrow> (Err e, st, contents)
      | Ok rest \<Rightarrow> replay_loop lc ring path active stream p contents rest SEGMENT_HEADER_LEN st)"

section \<open>Batches as the log writes them\<close>

definition encode_for_log ::
  "log_codec \<Rightarrow> key_ring option \<Rightarrow> message_envelope \<Rightarrow> (bytes \<times> u64) result" where
  "encode_for_log lc ring e =
     (case ring of
        Some encryption \<Rightarrow> encode_encrypted_batch_with_len lc e encryption
      | None \<Rightarrow> encode_batch_with_len lc e)"

declare read_records.simps [simp del] find_offset.simps [simp del] replay_loop.simps [simp del]

definition ring_ok :: "key_ring option \<Rightarrow> bool" where
  "ring_ok ring \<longleftrightarrow> (\<forall>k. ring = Some k \<longrightarrow> key_ring_ok k)"

lemma batch_read_back:
  assumes "envelope_fits e" and "ring_ok ring" and "encode_for_log lc ring e = Ok (batch, n)"
    and "n \<le> BATCH_PREFIX_LEN + MAX_BATCH_BYTES"
  shows "n = length batch \<and> read_batch_with_key lc ring (batch @ rest) = (Ok (Some (e, n)), rest)"
proof -
  obtain body where body: "encode_binary_envelope e = Ok body"
    using envelope_law [OF assms(1)] by blast
  then have plain: "prefix BINARY_BODY_MAGIC body" "decode_binary_envelope body = Ok e"
    using decode_encode_envelope [OF assms(1)] by blast+
  obtain stored where frame: "frame_batch lc stored = Ok batch" and n: "n = length batch"
    and opened: "open_body ring stored = Ok body"
  proof (cases ring)
    case None
    with assms(3) body have "frame_batch lc body = Ok batch" "n = length batch"
      by (auto simp: encode_for_log_def encode_batch_with_len_def map_ok_def and_then_def split: sum.splits)
    moreover have "open_body ring body = Ok body"
      using plain(1) magics_differ by (auto simp: open_body_def prefix_def)
    ultimately show ?thesis by (rule that)
  next
    case (Some k)
    with assms(3) body obtain sealed where "kr_seal k body = Ok sealed"
      and "frame_batch lc (ENCRYPTED_BODY_MAGIC @ sealed) = Ok batch" "n = length batch"
      by (auto simp: encode_for_log_def encode_encrypted_batch_with_len_def map_ok_def and_then_def split: sum.splits)
    moreover from this(1) Some assms(2) have "open_body ring (ENCRYPTED_BODY_MAGIC @ sealed) = Ok body"
      by (simp add: open_body_def ring_ok_def key_ring_ok_def)
    ultimately show ?thesis by (intro that)
  qed
  have "length stored \<le> MAX_BATCH_BYTES" using frame_length [OF frame] assms(4) n by simp
  with read_frame [OF frame this] opened plain n show ?thesis by (simp add: decode_body_def)
qed

text \<open>
  A batch reads back as it was written: whatever follows it in the file, reading at its
  front returns the envelope and its length and stops right behind it, with or without
  encryption, for every envelope of the format whose batch is within the reader's limit.
\<close>

theorem batch_roundtrip:
  assumes "envelope_fits e" and "ring_ok ring" and "encode_for_log lc ring e = Ok (batch, n)"
    and "n \<le> BATCH_PREFIX_LEN + MAX_BATCH_BYTES"
  shows "read_batch_with_key lc ring (batch @ rest) = (Ok (Some (e, n)), rest)"
  using batch_read_back [OF assms] by blast

section \<open>Replay of a cut segment\<close>

text \<open>An envelope of this partition and the batch the log wrote for it.\<close>

definition stored_as ::
  "log_codec \<Rightarrow> key_ring option \<Rightarrow> string \<Rightarrow> u32 \<Rightarrow> message_envelope \<Rightarrow> bytes \<Rightarrow> bool" where
  "stored_as lc ring stream p e batch \<longleftrightarrow> envelope_fits e \<and> en_stream e = stream \<and> en_partition e = p
     \<and> encode_for_log lc ring e = Ok (batch, length batch) \<and> length batch \<le> BATCH_PREFIX_LEN + MAX_BATCH_BYTES"

definition replay_all :: "message_envelope list \<Rightarrow> bytes list \<Rightarrow> replay_state \<Rightarrow> replay_state" where
  "replay_all es bs st = fold (\<lambda>(e, b). replay_push e (length b)) (zip es bs) st"

lemma replay_all_envelopes:
  "length es = length bs \<Longrightarrow>
     rp_envelopes (replay_all es bs st) = rp_envelopes st @ map into_resident_metadata es"
  by (induction es bs arbitrary: st rule: list_induct2) (simp_all add: replay_all_def replay_push_def)

lemma replay_whole:
  assumes "list_all2 (stored_as lc ring stream p) es bs" and "ring_ok ring"
  shows "replay_loop lc ring path active stream p contents (concat bs @ torn) boundary st
    = replay_loop lc ring path active stream p contents torn (boundary + length (concat bs)) (replay_all es bs st)"
  using assms(1)
proof (induction es bs arbitrary: boundary st rule: list_all2_induct)
  case Nil
  show ?case by (simp add: replay_all_def)
next
  case (Cons e es b bs)
  then have "read_batch_with_key lc ring (b @ concat bs @ torn) = (Ok (Some (e, length b)), concat bs @ torn)"
    using batch_read_back [OF _ assms(2), of e lc b "length b"] by (simp add: stored_as_def)
  moreover have "en_stream e = stream" "en_partition e = p" using Cons by (simp_all add: stored_as_def)
  ultimately have "replay_loop lc ring path active stream p contents (concat (b # bs) @ torn) boundary st
      = replay_loop lc ring path active stream p contents (concat bs @ torn) (boundary + length b) (replay_push e (length b) st)"
    by (subst replay_loop.simps) simp
  then show ?case using Cons.IH by (simp add: replay_all_def add.assoc)
qed

lemma replay_end:
  "replay_loop lc ring path active stream p contents [] boundary st = (Ok 0, st, contents)"
  by (subst replay_loop.simps) (simp add: read_batch_with_key_def)

lemma stored_frame:
  assumes "stored_as lc ring stream p e batch"
  shows "\<exists>body. frame_batch lc body = Ok batch \<and> length body \<le> MAX_BATCH_BYTES"
proof -
  have "encode_for_log lc ring e = Ok (batch, length batch)" and len: "length batch \<le> BATCH_PREFIX_LEN + MAX_BATCH_BYTES"
    using assms by (simp_all add: stored_as_def)
  then obtain body where "frame_batch lc body = Ok batch"
    by (auto simp: encode_for_log_def encode_batch_with_len_def encode_encrypted_batch_with_len_def map_ok_def
        and_then_def split: sum.splits option.splits)
  with len frame_length [OF this] show ?thesis by auto
qed

text \<open>A batch cut short is reported as the end of the file.\<close>

lemma read_torn:
  assumes "frame_batch lc body = Ok batch" and "length body \<le> MAX_BATCH_BYTES" and "0 < m" and "m < length batch"
  shows "\<exists>msg. read_batch_with_key lc ring (take m batch) = (Err (UnexpectedEof msg), [])"
proof -
  have len: "length body \<le> u32_max"
    and batch: "batch = to_le_bytes 4 (length body) @ to_le_bytes 4 (unat (lc_crc lc body)) @ body"
    using assms(1) by (auto simp: frame_batch_def split: if_splits)
  have body_len: "from_le_bytes (to_le_bytes 4 (length body)) = length body"
    by (rule from_to_le_bytes [OF u_max_less(1) [OF len]])
  have size: "length batch = 8 + length body" by (simp add: batch)
  show ?thesis
  proof (cases "m < 4")
    case True
    with assms(3,4) show ?thesis by (simp add: read_batch_with_key_def Let_def min_def)
  next
    case False
    then have "take 4 (take m batch) = to_le_bytes 4 (length body)"
      by (simp add: batch)
    with False assms(2,4) body_len size show ?thesis
      by (auto simp: read_batch_with_key_def read_exact_def Let_def min_def)
  qed
qed

text \<open>Where a cut falls in a sequence of batches.\<close>

lemma take_concat:
  "\<exists>k \<le> length bs. length (concat (take k bs)) \<le> n
     \<and> (if k < length bs
        then take n (concat bs) = concat (take k bs) @ take (n - length (concat (take k bs))) (bs ! k)
          \<and> n - length (concat (take k bs)) < length (bs ! k)
        else take n (concat bs) = concat (take k bs))"
proof (induction bs arbitrary: n)
  case Nil
  show ?case by simp
next
  case (Cons b bs)
  show ?case
  proof (cases "n < length b")
    case True
    then show ?thesis by (intro exI [of _ 0]) simp
  next
    case False
    from Cons.IH [of "n - length b"] obtain k where k: "k \<le> length bs"
      "length (concat (take k bs)) \<le> n - length b"
      "if k < length bs
        then take (n - length b) (concat bs) = concat (take k bs) @ take (n - length b - length (concat (take k bs))) (bs ! k)
          \<and> n - length b - length (concat (take k bs)) < length (bs ! k)
        else take (n - length b) (concat bs) = concat (take k bs)"
      by blast
    with False show ?thesis
      by (intro exI [of _ "Suc k"]) (auto split: if_splits)
  qed
qed

definition empty_replay :: replay_state where
  "empty_replay = \<lparr>rp_envelopes = [], rp_retention_records = [], rp_retained_bytes = 0\<rparr>"

lemma validate_header: "validate_segment_header path (SEGMENT_HEADER @ rest) = Ok rest"
  by (simp add: validate_segment_header_def read_exact_def)

lemma replay_segment_whole:
  assumes "list_all2 (stored_as lc ring stream p) es bs" and "ring_ok ring"
  shows "replay_segment lc ring path active stream p (SEGMENT_HEADER @ concat bs) st
    = (Ok 0, replay_all es bs st, SEGMENT_HEADER @ concat bs)"
  using replay_whole [OF assms, of path active _ "[]"]
  by (simp add: replay_segment_def validate_header replay_end)

lemma replay_segment_torn:
  assumes "list_all2 (stored_as lc ring stream p) es bs" and "ring_ok ring"
    and "stored_as lc ring stream p e b" and "m < length b"
  shows "\<exists>t. replay_segment lc ring path True stream p (SEGMENT_HEADER @ concat bs @ take m b) st
    = (Ok t, replay_all es bs st, SEGMENT_HEADER @ concat bs)"
proof (cases "m = 0")
  case True
  then show ?thesis using replay_segment_whole [OF assms(1,2)] by simp
next
  case False
  obtain body where "frame_batch lc body = Ok b" "length body \<le> MAX_BATCH_BYTES"
    using stored_frame [OF assms(3)] by blast
  then obtain msg where "read_batch_with_key lc ring (take m b) = (Err (UnexpectedEof msg), [])"
    using read_torn False assms(4) by blast
  then show ?thesis
    using replay_whole [OF assms(1,2), of path True _ "take m b"]
    by (simp add: replay_segment_def validate_header replay_loop.simps [of _ _ _ _ _ _ _ "take m b"]
        SEGMENT_HEADER_LEN_def)
qed

text \<open>
  C32. Crash recovery of a segment: cut the active segment file at any byte behind its header.
  Replay then succeeds with exactly the records whose batches are complete in what is left, in
  order and with their payloads dropped from memory; it truncates the file to those batches,
  and replaying the repaired file gives the same records without a further truncation.
\<close>

theorem torn_segment_recovers:
  assumes "list_all2 (stored_as lc ring stream p) es bs" and "ring_ok ring" and "SEGMENT_HEADER_LEN \<le> n"
  shows "\<exists>k \<le> length es. \<exists>t st.
      replay_segment lc ring path True stream p (take n (SEGMENT_HEADER @ concat bs)) empty_replay
        = (Ok t, st, SEGMENT_HEADER @ concat (take k bs))
      \<and> rp_envelopes st = map into_resident_metadata (take k es)
      \<and> length (SEGMENT_HEADER @ concat (take k bs)) \<le> n
      \<and> (k < length es \<longrightarrow> n < length (SEGMENT_HEADER @ concat (take (Suc k) bs)))
      \<and> replay_segment lc ring path True stream p (SEGMENT_HEADER @ concat (take k bs)) empty_replay
        = (Ok 0, st, SEGMENT_HEADER @ concat (take k bs))"
proof -
  let ?n = "n - length SEGMENT_HEADER"
  have hdr: "take n (SEGMENT_HEADER @ concat bs) = SEGMENT_HEADER @ take ?n (concat bs)"
    using assms(3) by (simp add: SEGMENT_HEADER_LEN_def)
  have len: "length es = length bs" using assms(1) by (rule list_all2_lengthD)
  obtain k where k: "k \<le> length bs" "length (concat (take k bs)) \<le> ?n"
    and cut: "if k < length bs
        then take ?n (concat bs) = concat (take k bs) @ take (?n - length (concat (take k bs))) (bs ! k)
          \<and> ?n - length (concat (take k bs)) < length (bs ! k)
        else take ?n (concat bs) = concat (take k bs)"
    using take_concat [of bs ?n] by blast
  have whole: "list_all2 (stored_as lc ring stream p) (take k es) (take k bs)"
    using assms(1) by (rule list_all2_takeI)
  let ?st = "replay_all (take k es) (take k bs) empty_replay"
  note again = replay_segment_whole [OF whole assms(2), of path True empty_replay]
  have "\<exists>t. replay_segment lc ring path True stream p (SEGMENT_HEADER @ take ?n (concat bs)) empty_replay
      = (Ok t, ?st, SEGMENT_HEADER @ concat (take k bs))"
  proof (cases "k < length bs")
    case True
    with cut assms(1) have "stored_as lc ring stream p (es ! k) (bs ! k)" by (simp add: list_all2_nthD2)
    then show ?thesis using cut True replay_segment_torn [OF whole assms(2)] by simp
  next
    case False
    then show ?thesis using cut again by simp
  qed
  moreover have "rp_envelopes ?st = map into_resident_metadata (take k es)"
    using replay_all_envelopes [of "take k es" "take k bs" empty_replay] len by (simp add: empty_replay_def)
  moreover have "k < length es \<longrightarrow> n < length (SEGMENT_HEADER @ concat (take (Suc k) bs))"
    using cut k len by (auto simp: take_Suc_conv_app_nth)
  moreover have "length (SEGMENT_HEADER @ concat (take k bs)) \<le> n"
    using k assms(3) by (simp add: SEGMENT_HEADER_LEN_def)
  ultimately show ?thesis using k(1) len again hdr by auto
qed

section \<open>Where the format and its reader disagree\<close>

text \<open>The encoder accepts bodies up to the 32-bit length, the reader refuses more than 64 MiB.\<close>

lemma oversized_batch_is_unreadable:
  assumes "frame_batch lc body = Ok batch" and "MAX_BATCH_BYTES < length body"
  shows "fst (read_batch_with_key lc ring (batch @ rest))
    = Err (InvalidData ''partition-log batch length exceeds limit'')"
proof -
  have "length body \<le> u32_max" and batch: "take 4 (batch @ rest) = to_le_bytes 4 (length body)" "4 \<le> length batch"
    using assms(1) by (auto simp: frame_batch_def split: if_splits)
  then show ?thesis
    using from_to_le_bytes [OF u_max_less(1), of "length body"] assms(2)
    by (simp add: read_batch_with_key_def Let_def min_def del: take_append)
qed

text \<open>A crash between creating a segment and writing its header leaves a file replay refuses.\<close>

lemma torn_header_blocks_open:
  assumes "n < SEGMENT_HEADER_LEN"
  shows "fst (replay_segment lc ring path active stream p (take n SEGMENT_HEADER) st)
    = Err (''reading partition-log header '' @ path)"
  using assms by (simp add: replay_segment_def validate_segment_header_def read_exact_def SEGMENT_HEADER_LEN_def)

section \<open>A concrete segment\<close>

definition sample_codec :: log_codec where
  "sample_codec = \<lparr>lc_crc = (\<lambda>bs. word_of_nat (length bs)), lc_json = (\<lambda>_. Err ''not an envelope'')\<rparr>"

definition sample_ring :: key_ring where
  "sample_ring = \<lparr>kr_seal = (\<lambda>bs. Ok (rev bs)), kr_open = (\<lambda>bs. Ok (rev bs))\<rparr>"

definition sample_message :: message_envelope where
  "sample_message = \<lparr>en_namespace = ''d'', en_stream = ''o'', en_partition = 0, en_offset = 0, en_subject = ''o/a'',
     en_key = Some [1], en_headers = [\<lparr>mh_name = ''h'', mh_value = ''v''\<rparr>], en_timestamp_ms = 5, en_reply_to = None,
     en_schema_id = Some 9, en_payload = [7, 8], en_partitioning_epoch = 0, en_leader_epoch = 1, en_legacy_seq = 3\<rparr>"

lemma sample_strings:
  "string_fits ''d''" "string_fits ''o''" "string_fits ''o/a''" "string_fits ''h''" "string_fits ''v''"
  "stream_id_new ''o'' = Ok ''o''"
  by (simp_all add: string_fits_def u32_max_def bytes_of_string_def of_char_def stream_id_new_def
      has_whitespace.simps whitespace_encodings_def)

lemma sample_body:
  "\<exists>body. encode_binary_envelope sample_message = Ok body \<and> length body = 114"
  by (simp add: encode_binary_envelope_def sample_message_def put_string_def put_bytes_def bytes_of_string_def
      put_u32_def put_u64_def put_headers_def put_header_def put_schema_id_def u32_max_def BINARY_BODY_MAGIC_def)

lemma sample_message_fits: "envelope_fits sample_message"
  using sample_body sample_strings
  by (auto simp: envelope_fits_def header_fits_def u32_max_def u64_max_def sample_message_def)

lemma sample_ring_ok: "ring_ok (Some sample_ring)"
  by (simp add: ring_ok_def key_ring_ok_def sample_ring_def)

lemma sample_batch:
  "\<exists>batch. encode_for_log sample_codec (Some sample_ring) sample_message = Ok (batch, length batch) \<and> length batch = 139"
proof -
  obtain body where body: "encode_binary_envelope sample_message = Ok body" "length body = 114"
    using sample_body by blast
  have magic: "length ENCRYPTED_BODY_MAGIC = 17" by (simp add: ENCRYPTED_BODY_MAGIC_def bytes_of_string_def)
  have "frame_batch sample_codec (ENCRYPTED_BODY_MAGIC @ rev body) = Ok
      (to_le_bytes 4 131 @ to_le_bytes 4 (unat (lc_crc sample_codec (ENCRYPTED_BODY_MAGIC @ rev body)))
        @ ENCRYPTED_BODY_MAGIC @ rev body)"
    using body(2) magic by (simp add: frame_batch_def u32_max_def)
  with body magic show ?thesis
    by (simp add: encode_for_log_def encode_encrypted_batch_with_len_def sample_ring_def)
qed

theorem batch_roundtrip_witness:
  "\<exists>batch. encode_for_log sample_codec (Some sample_ring) sample_message = Ok (batch, length batch)
     \<and> read_batch_with_key sample_codec (Some sample_ring) (batch @ [1, 2])
       = (Ok (Some (sample_message, length batch)), [1, 2])"
proof -
  obtain batch where b: "encode_for_log sample_codec (Some sample_ring) sample_message = Ok (batch, length batch)"
    "length batch = 139"
    using sample_batch by blast
  then have "length batch \<le> BATCH_PREFIX_LEN + MAX_BATCH_BYTES"
    by (simp add: BATCH_PREFIX_LEN_def MAX_BATCH_BYTES_def)
  with batch_roundtrip [OF sample_message_fits sample_ring_ok b(1)] b(1) show ?thesis by blast
qed

theorem torn_segment_recovers_witness:
  "\<exists>batch t st. encode_for_log sample_codec (Some sample_ring) sample_message = Ok (batch, length batch)
     \<and> replay_segment sample_codec (Some sample_ring) ''log'' True ''o'' 0
         (take 200 (SEGMENT_HEADER @ batch @ batch)) empty_replay = (Ok t, st, SEGMENT_HEADER @ batch)
     \<and> rp_envelopes st = [into_resident_metadata sample_message]"
proof -
  obtain b where b: "encode_for_log sample_codec (Some sample_ring) sample_message = Ok (b, length b)"
    "length b = 139"
    using sample_batch by blast
  then have "stored_as sample_codec (Some sample_ring) ''o'' 0 sample_message b"
    using sample_message_fits
    by (simp add: stored_as_def BATCH_PREFIX_LEN_def MAX_BATCH_BYTES_def) (simp add: sample_message_def)
  then have stored: "list_all2 (stored_as sample_codec (Some sample_ring) ''o'' 0)
      [sample_message, sample_message] [b, b]"
    by simp
  have hdr: "length SEGMENT_HEADER = 11" by (simp add: SEGMENT_HEADER_def bytes_of_string_def)
  then have "SEGMENT_HEADER_LEN \<le> 200" by (simp add: SEGMENT_HEADER_LEN_def)
  from torn_segment_recovers [OF stored sample_ring_ok this, of "''log''"] obtain k t st where k: "k \<le> 2"
    and run: "replay_segment sample_codec (Some sample_ring) ''log'' True ''o'' 0
         (take 200 (SEGMENT_HEADER @ b @ b)) empty_replay = (Ok t, st, SEGMENT_HEADER @ concat (take k [b, b]))"
    and env: "rp_envelopes st = map into_resident_metadata (take k [sample_message, sample_message])"
    and le: "length (SEGMENT_HEADER @ concat (take k [b, b])) \<le> 200"
    and gt: "k < 2 \<longrightarrow> 200 < length (SEGMENT_HEADER @ concat (take (Suc k) [b, b]))"
    by (auto simp: numeral_2_eq_2 simp del: take_append)
  have "k = 1"
  proof -
    have "k \<noteq> 0" using gt hdr b(2) by (cases "k = 0") simp_all
    moreover have "k \<noteq> 2" using le hdr b(2) by (cases "k = 2") simp_all
    ultimately show ?thesis using k by simp
  qed
  with run env b(1) show ?thesis by auto
qed

end
