(* ===== verification/Subject_Index.thy ===== *)
theory Subject_Index
  imports Log_Segment
begin

text \<open>
  Which offsets of a partition log match a filter, from
  \<open>crates/server/src/partition_log/subject_index.rs\<close>, \<open>log.rs\<close> and \<open>set.rs\<close> beside it. A sealed
  segment answers from an index in memory, from the index file next to it, or by reading the
  segment; the active segment from its list of subjects.

  The JSON encoding of an index file is a parameter. \<open>binary_search\<close> on the dictionary is a search
  for the key, which is its contract on the sorted list the code builds.

  The theorem: all the ways give the same answer, the matching offsets in ascending order.
\<close>

record subject_index_query =
  sq_offsets :: "u64 list"
  sq_used_index :: bool

record subject_index_file =
  sf_version :: u32
  sf_source_checksum :: "64 word"
  sf_dictionary :: "string list"
  sf_postings :: "u64 list list"
  sf_index_checksum :: "64 word"

record subject_segment =
  sg_path :: string
  sg_records :: "(string \<times> u64) list"
  sg_source_checksum :: "64 word"
  sg_index :: "subject_index_file option"

text \<open>The files of a sealed segment: its batches and, when present, its subject index.\<close>

record segment_files =
  fl_segment :: bytes
  fl_sidx :: "bytes option"

definition SUBJECT_INDEX_VERSION :: u32 where
  "SUBJECT_INDEX_VERSION = 1"

definition index_hash_bytes :: "64 word \<Rightarrow> bytes \<Rightarrow> 64 word" where
  "index_hash_bytes hash bs = foldl (\<lambda>h b. (h XOR ucast b) * 0x100000001b3) hash bs"

definition records_checksum :: "(string \<times> u64) list \<Rightarrow> 64 word" where
  "records_checksum records =
     foldl (\<lambda>hash (subject, offset).
       index_hash_bytes (index_hash_bytes hash (bytes_of_string subject)) (to_le_bytes 8 offset))
       0xcbf29ce484222325 records"

definition index_checksum :: "subject_index_file \<Rightarrow> 64 word" where
  "index_checksum idx =
     (let hash = index_hash_bytes 0xcbf29ce484222325 (to_le_bytes 4 (sf_version idx));
          hash = index_hash_bytes hash (to_le_bytes 8 (unat (sf_source_checksum idx)))
      in foldl (\<lambda>hash (subject, postings).
           foldl (\<lambda>hash offset. index_hash_bytes hash (to_le_bytes 8 offset))
             (index_hash_bytes hash (bytes_of_string subject)) postings)
           hash (zip (sf_dictionary idx) (sf_postings idx)))"

definition add_posting :: "string \<times> u64 \<Rightarrow> (string, u64 list) btree_map \<Rightarrow> (string, u64 list) btree_map" where
  "add_posting record postings =
     (let (subject, offset) = record
      in bt_insert subject ((case map_of postings subject of None \<Rightarrow> [] | Some os \<Rightarrow> os) @ [offset]) postings)"

definition build_index :: "(string \<times> u64) list \<Rightarrow> 64 word \<Rightarrow> subject_index_file" where
  "build_index records source_checksum =
     (let postings = fold add_posting records []
      in \<lparr>sf_version = SUBJECT_INDEX_VERSION, sf_source_checksum = source_checksum,
          sf_dictionary = bt_keys postings, sf_postings = bt_values postings, sf_index_checksum = 0\<rparr>)"

definition segment_new :: "string \<Rightarrow> (string \<times> u64) list \<Rightarrow> subject_segment" where
  "segment_new path records =
     \<lparr>sg_path = path, sg_records = records, sg_source_checksum = records_checksum records, sg_index = None\<rparr>"

definition release_records :: "subject_segment \<Rightarrow> subject_segment" where
  "release_records seg = seg\<lparr>sg_records := []\<rparr>"

definition segment_rebuild ::
  "(subject_index_file, bytes) snapshot_codec \<Rightarrow> nat \<Rightarrow> subject_segment \<Rightarrow> segment_files
     \<Rightarrow> nat \<times> subject_segment \<times> segment_files" where
  "segment_rebuild cd cache_budget seg files =
     (let idx = build_index (sg_records seg) (sg_source_checksum seg);
          idx = idx\<lparr>sf_index_checksum := index_checksum idx\<rparr>;
          body = sn_encode cd idx;
          files = files\<lparr>fl_sidx := Some body\<rparr>;
          (cached_bytes, seg) =
            (if length body \<le> cache_budget then (length body, seg\<lparr>sg_index := Some idx\<rparr>)
             else (0, seg\<lparr>sg_index := None\<rparr>))
      in (cached_bytes, release_records seg, files))"

definition scan_offsets :: "(string \<times> u64) list \<Rightarrow> string \<Rightarrow> u64 list" where
  "scan_offsets records filter_subject =
     map snd (filter (\<lambda>(subject, _). matches filter_subject subject) records)"

definition active_matching_offsets :: "(string \<times> u64) list \<Rightarrow> string \<Rightarrow> subject_index_query" where
  "active_matching_offsets records filter_subject =
     \<lparr>sq_offsets = scan_offsets records filter_subject, sq_used_index = False\<rparr>"

definition scan_segment ::
  "log_codec \<Rightarrow> key_ring option \<Rightarrow> string \<Rightarrow> bytes \<Rightarrow> string \<Rightarrow> subject_index_query result" where
  "scan_segment lc ring path contents filter_subject =
     map_ok (\<lambda>es. \<lparr>sq_offsets = map en_offset (filter (\<lambda>e. matches filter_subject (en_subject e)) es),
                   sq_used_index = False\<rparr>)
       (read_segment_records lc ring path contents)"

definition indexed_offsets :: "subject_index_file \<Rightarrow> string \<Rightarrow> subject_index_query option" where
  "indexed_offsets idx filter_subject =
     (if CHR ''*'' \<notin> set filter_subject \<and> CHR ''>'' \<notin> set filter_subject
      then Some \<lparr>sq_offsets =
             (case map_of (zip (sf_dictionary idx) (sf_postings idx)) filter_subject of None \<Rightarrow> [] | Some os \<Rightarrow> os),
             sq_used_index = True\<rparr>
      else
        let matching_postings = map snd (filter (\<lambda>(subject, _). matches filter_subject subject)
              (zip (sf_dictionary idx) (sf_postings idx)))
        in Some \<lparr>sq_offsets = sorted_list_of_set (set (concat matching_postings)), sq_used_index = True\<rparr>)"

definition load_index ::
  "(subject_index_file, bytes) snapshot_codec \<Rightarrow> bytes option \<Rightarrow> 64 word \<Rightarrow> subject_index_file option" where
  "load_index cd file source_checksum =
     (case file of
        None \<Rightarrow> None
      | Some body \<Rightarrow>
         (case sn_decode cd body of
            None \<Rightarrow> None
          | Some idx \<Rightarrow>
             if sf_version idx \<noteq> SUBJECT_INDEX_VERSION \<or> sf_source_checksum idx \<noteq> source_checksum
                \<or> sf_index_checksum idx \<noteq> index_checksum idx
                \<or> length (sf_dictionary idx) \<noteq> length (sf_postings idx)
             then None else Some idx))"

definition segment_matching_offsets ::
  "log_codec \<Rightarrow> key_ring option \<Rightarrow> (subject_index_file, bytes) snapshot_codec \<Rightarrow> subject_segment \<Rightarrow> segment_files
     \<Rightarrow> string \<Rightarrow> subject_index_query result" where
  "segment_matching_offsets lc ring cd seg files filter_subject =
     (case Option.bind (sg_index seg) (\<lambda>idx. indexed_offsets idx filter_subject) of
        Some query \<Rightarrow> Ok query
      | None \<Rightarrow>
         (case Option.bind (load_index cd (fl_sidx files) (sg_source_checksum seg))
                 (\<lambda>idx. indexed_offsets idx filter_subject) of
            Some query \<Rightarrow> Ok query
          | None \<Rightarrow> scan_segment lc ring (sg_path seg) (fl_segment files) filter_subject))"

section \<open>A partition log's query\<close>

record indexed_log =
  il_sealed :: "(subject_segment \<times> segment_files) list"
  il_active_subjects :: "(string \<times> u64) list"

fun query_segments ::
  "log_codec \<Rightarrow> key_ring option \<Rightarrow> (subject_index_file, bytes) snapshot_codec
     \<Rightarrow> (subject_segment \<times> segment_files) list \<Rightarrow> string \<Rightarrow> u64 list \<times> bool \<Rightarrow> (u64 list \<times> bool) result" where
  "query_segments lc ring cd [] filter_subject acc = Ok acc"
| "query_segments lc ring cd ((seg, files) # rest) filter_subject (offsets, used_index) =
     and_then (segment_matching_offsets lc ring cd seg files filter_subject) (\<lambda>query.
       query_segments lc ring cd rest filter_subject
         (offsets @ sq_offsets query, used_index \<or> sq_used_index query))"

definition log_matching_offsets ::
  "log_codec \<Rightarrow> key_ring option \<Rightarrow> (subject_index_file, bytes) snapshot_codec \<Rightarrow> indexed_log \<Rightarrow> string
     \<Rightarrow> subject_index_query result" where
  "log_matching_offsets lc ring cd log filter_subject =
     and_then (query_segments lc ring cd (il_sealed log) filter_subject ([], False)) (\<lambda>(offsets, used_index).
       let offsets = offsets @ sq_offsets (active_matching_offsets (il_active_subjects log) filter_subject)
       in Ok \<lparr>sq_offsets = sorted_list_of_set (set offsets), sq_used_index = used_index\<rparr>)"

type_synonym partition_log_set = "(string \<times> u32, indexed_log) btree_map"

definition set_matching_offsets ::
  "log_codec \<Rightarrow> key_ring option \<Rightarrow> (subject_index_file, bytes) snapshot_codec \<Rightarrow> partition_log_set
     \<Rightarrow> string \<Rightarrow> u32 \<Rightarrow> string \<Rightarrow> subject_index_query result" where
  "set_matching_offsets lc ring cd logs stream p filter_subject =
     (case map_of logs (stream, p) of
        None \<Rightarrow> Err ''unknown stream partition''
      | Some log \<Rightarrow> log_matching_offsets lc ring cd log filter_subject)"

section \<open>The index answers like a scan\<close>

definition postings_of :: "(string \<times> u64) list \<Rightarrow> string \<Rightarrow> u64 list" where
  "postings_of records subject = map snd (filter (\<lambda>r. fst r = subject) records)"

lemma add_posting_wf: "bt_wf m \<Longrightarrow> bt_wf (add_posting r m)"
  by (cases r) (simp add: add_posting_def)

lemma build_postings:
  "bt_wf (fold add_posting records [])
   \<and> map_of (fold add_posting records []) subject
     = (if postings_of records subject = [] then None else Some (postings_of records subject))"
proof (induction records rule: rev_induct)
  case Nil
  show ?case by (simp add: postings_of_def bt_wf_def)
next
  case (snoc r records)
  then show ?case
    by (cases r) (auto simp: add_posting_def postings_of_def split: option.splits if_splits)
qed

lemma join_char_token: "t \<in> set ts \<Longrightarrow> set t \<subseteq> set (join_char c ts)"
  by (induction c ts rule: join_char.induct) auto

lemma matches_exact:
  assumes "CHR ''*'' \<notin> set f"
  shows "matches f s \<longleftrightarrow> f = s"
proof -
  have plain: "t \<noteq> ''*'' \<and> t \<noteq> ''**''" if "t \<in> set (split_char c f)" for t c
  proof -
    have "set t \<subseteq> set (join_char c (split_char c f))"
      using that by (rule join_char_token)
    with assms show ?thesis by auto
  qed
  have "matches_tokens ps ss \<longleftrightarrow> ps = ss" if "\<forall>t\<in>set ps. t \<noteq> ''*'' \<and> t \<noteq> ''**''" for ps ss
    using that by (induction ps ss rule: matches_tokens.induct) (auto split: list.splits)
  with plain show ?thesis by (simp add: matches_def split_char_eq_iff)
qed

text \<open>The index that is built for a list of records, with its checksum.\<close>

definition index_of :: "(string \<times> u64) list \<Rightarrow> subject_index_file" where
  "index_of records =
     (let idx = build_index records (records_checksum records) in idx\<lparr>sf_index_checksum := index_checksum idx\<rparr>)"

lemma index_of_zip: "zip (sf_dictionary (index_of records)) (sf_postings (index_of records)) = fold add_posting records []"
  by (simp add: index_of_def build_index_def Let_def zip_map_fst_snd)

lemma index_of_fields:
  "sf_version (index_of records) = SUBJECT_INDEX_VERSION"
  "sf_source_checksum (index_of records) = records_checksum records"
  "length (sf_dictionary (index_of records)) = length (sf_postings (index_of records))"
  by (simp_all add: index_of_def build_index_def Let_def)

lemma index_of_checksum: "sf_index_checksum (index_of records) = index_checksum (index_of records)"
  by (simp add: index_of_def Let_def index_checksum_def)

lemma load_index_written:
  "snapshot_ok cd \<Longrightarrow>
     load_index cd (Some (sn_encode cd (index_of records))) (records_checksum records) = Some (index_of records)"
  by (simp add: load_index_def snapshot_ok_def index_of_fields index_of_checksum)

lemma in_scan_offsets: "x \<in> set (scan_offsets records f) \<longleftrightarrow> (\<exists>s. (s, x) \<in> set records \<and> matches f s)"
  by (force simp: scan_offsets_def)

lemma in_postings_of: "x \<in> set (postings_of records s) \<longleftrightarrow> (s, x) \<in> set records"
  by (force simp: postings_of_def)

lemma indexed_is_scan:
  "\<exists>q. indexed_offsets (index_of records) f = Some q \<and> set (sq_offsets q) = set (scan_offsets records f)"
proof -
  let ?m = "fold add_posting records []"
  have wf: "bt_wf ?m" and get: "map_of ?m s = (if postings_of records s = [] then None else Some (postings_of records s))" for s
    using build_postings by blast+
  show ?thesis
  proof (cases "CHR ''*'' \<notin> set f \<and> CHR ''>'' \<notin> set f")
    case True
    have "set (case map_of ?m f of None \<Rightarrow> [] | Some os \<Rightarrow> os) = set (postings_of records f)"
      by (simp add: get)
    moreover have "set (postings_of records f) = set (scan_offsets records f)"
      by (rule set_eqI) (simp only: in_postings_of in_scan_offsets matches_exact [OF conjunct1 [OF True]] simp_thms
          ex_simps conj_commute)
    ultimately have "set (case map_of ?m f of None \<Rightarrow> [] | Some os \<Rightarrow> os) = set (scan_offsets records f)"
      by (rule trans)
    with True show ?thesis by (simp add: indexed_offsets_def index_of_zip)
  next
    case False
    have entry: "(s, os) \<in> set ?m \<longleftrightarrow> postings_of records s \<noteq> [] \<and> os = postings_of records s" for s os
      using get [of s] map_of_eq_Some_iff [OF bt_wf_distinct [OF wf], of s os] by (auto split: if_splits)
    have "x \<in> set (concat (map snd (filter (\<lambda>(s, _). matches f s) ?m))) \<longleftrightarrow> x \<in> set (scan_offsets records f)" for x
    proof -
      have "x \<in> set (concat (map snd (filter (\<lambda>(s, _). matches f s) ?m)))
          \<longleftrightarrow> (\<exists>s os. (s, os) \<in> set ?m \<and> matches f s \<and> x \<in> set os)"
        by force
      also have "\<dots> \<longleftrightarrow> (\<exists>s. matches f s \<and> x \<in> set (postings_of records s))"
        unfolding entry by (metis empty_iff empty_set)
      finally show ?thesis by (auto simp: in_postings_of in_scan_offsets)
    qed
    then have "set (concat (map snd (filter (\<lambda>(s, _). matches f s) ?m))) = set (scan_offsets records f)"
      by blast
    with False show ?thesis by (auto simp: indexed_offsets_def index_of_zip Let_def)
  qed
qed

text \<open>
  A sealed segment that holds the envelopes \<open>es\<close>: its file has their batches, the index in memory
  is absent or theirs, and the index file is missing, refused, or theirs.
\<close>

definition subject_records :: "message_envelope list \<Rightarrow> (string \<times> u64) list" where
  "subject_records es = map (\<lambda>e. (en_subject e, en_offset e)) es"

definition segment_holds ::
  "log_codec \<Rightarrow> key_ring option \<Rightarrow> (subject_index_file, bytes) snapshot_codec \<Rightarrow> string \<Rightarrow> u32
     \<Rightarrow> subject_segment \<times> segment_files \<Rightarrow> message_envelope list \<Rightarrow> bool" where
  "segment_holds lc ring cd stream p sf es \<longleftrightarrow>
     (let (seg, files) = sf; idx = index_of (subject_records es) in
      sg_source_checksum seg = records_checksum (subject_records es)
      \<and> (sg_index seg = None \<or> sg_index seg = Some idx)
      \<and> (load_index cd (fl_sidx files) (sg_source_checksum seg) = None
         \<or> load_index cd (fl_sidx files) (sg_source_checksum seg) = Some idx)
      \<and> (\<exists>bs. fl_segment files = SEGMENT_HEADER @ concat bs \<and> list_all2 (stored_as lc ring stream p) es bs))"

lemma read_records_whole:
  "list_all2 (stored_as lc ring stream p) es bs \<Longrightarrow> ring_ok ring \<Longrightarrow> read_records lc ring (concat bs) = Ok es"
proof (induction es bs rule: list_all2_induct)
  case Nil
  show ?case by (subst read_records.simps) (simp add: read_batch_with_key_def)
next
  case (Cons e es b bs)
  then have "read_batch_with_key lc ring (b @ concat bs) = (Ok (Some (e, length b)), concat bs)"
    using batch_read_back [of e ring lc b "length b"] by (simp add: stored_as_def)
  with Cons show ?case by (subst read_records.simps) simp
qed

lemma segment_query:
  assumes "segment_holds lc ring cd stream p (seg, files) es" and "ring_ok ring"
  shows "\<exists>q. segment_matching_offsets lc ring cd seg files f = Ok q
    \<and> set (sq_offsets q) = set (scan_offsets (subject_records es) f)"
proof -
  obtain q where q: "indexed_offsets (index_of (subject_records es)) f = Some q"
    "set (sq_offsets q) = set (scan_offsets (subject_records es) f)"
    using indexed_is_scan by blast
  obtain bs where "fl_segment files = SEGMENT_HEADER @ concat bs" "list_all2 (stored_as lc ring stream p) es bs"
    using assms(1) by (auto simp: segment_holds_def Let_def)
  then have "scan_segment lc ring (sg_path seg) (fl_segment files) f
      = Ok \<lparr>sq_offsets = map en_offset (filter (\<lambda>e. matches f (en_subject e)) es), sq_used_index = False\<rparr>"
    using read_records_whole [OF _ assms(2)] by (simp add: scan_segment_def read_segment_records_def validate_header)
  moreover have "set (map en_offset (filter (\<lambda>e. matches f (en_subject e)) es)) = set (scan_offsets (subject_records es) f)"
    by (force simp: in_scan_offsets subject_records_def)
  ultimately show ?thesis
    using assms(1) q by (auto simp: segment_holds_def Let_def segment_matching_offsets_def)
qed

text \<open>What \<open>new\<close> and \<open>rebuild\<close> leave behind holds the envelopes, whatever the cache budget.\<close>

lemma rebuild_holds:
  assumes "snapshot_ok cd" and "fl_segment files = SEGMENT_HEADER @ concat bs"
    and "list_all2 (stored_as lc ring stream p) es bs"
    and "segment_rebuild cd budget (segment_new path (subject_records es)) files = (n, seg, files')"
  shows "segment_holds lc ring cd stream p (seg, files') es \<and> n \<le> budget"
  using assms load_index_written [OF assms(1), of "subject_records es"]
  by (auto simp: segment_holds_def segment_rebuild_def segment_new_def release_records_def index_of_def Let_def
      split: if_splits)

lemma query_segments_law:
  assumes "list_all2 (segment_holds lc ring cd stream p) sfs ess" and "ring_ok ring"
  shows "\<exists>os u. query_segments lc ring cd sfs f (acc, used) = Ok (acc @ os, u)
    \<and> set os = set (scan_offsets (subject_records (concat ess)) f)"
  using assms(1)
proof (induction sfs ess arbitrary: acc used rule: list_all2_induct)
  case Nil
  show ?case by (simp add: subject_records_def scan_offsets_def)
next
  case (Cons sf sfs es ess)
  obtain seg files where sf: "sf = (seg, files)" by (cases sf)
  obtain q where q: "segment_matching_offsets lc ring cd seg files f = Ok q"
    "set (sq_offsets q) = set (scan_offsets (subject_records es) f)"
    using segment_query assms(2) Cons(1) sf by blast
  moreover obtain os u where "query_segments lc ring cd sfs f (acc @ sq_offsets q, used \<or> sq_used_index q)
      = Ok ((acc @ sq_offsets q) @ os, u)" "set os = set (scan_offsets (subject_records (concat ess)) f)"
    using Cons.IH by blast
  ultimately show ?case
    by (intro exI [of _ "sq_offsets q @ os"] exI [of _ u])
      (simp add: sf subject_records_def scan_offsets_def)
qed

text \<open>
  Looking offsets up by subject is a scan of the log: whichever sealed segments answer from a
  cached index, an index file or their batches, and with the active segment's subjects, the
  query succeeds with exactly the offsets of the stored envelopes whose subject matches the
  filter, in ascending order and once each. The segments are those \<open>new\<close> and \<open>rebuild\<close> produce,
  under any cache budget, with index files that may since have been lost or damaged.
\<close>

theorem indexed_query_is_scan:
  assumes "list_all2 (segment_holds lc ring cd stream p) (il_sealed log) ess" and "ring_ok ring"
    and "il_active_subjects log = subject_records active"
    and "map_of logs (stream, p) = Some log"
  shows "\<exists>q. set_matching_offsets lc ring cd logs stream p f = Ok q
    \<and> sq_offsets q = sorted_list_of_set {en_offset e |e. e \<in> set (concat ess @ active) \<and> matches f (en_subject e)}"
proof -
  obtain os u where run: "query_segments lc ring cd (il_sealed log) f ([], False) = Ok (os, u)"
    and os: "set os = set (scan_offsets (subject_records (concat ess)) f)"
    using query_segments_law [OF assms(1,2), of f "[]" False] by auto
  have "set (os @ scan_offsets (subject_records active) f)
      = set (scan_offsets (subject_records (concat ess @ active)) f)"
    by (simp add: os subject_records_def scan_offsets_def image_Un)
  also have "\<dots> = {en_offset e |e. e \<in> set (concat ess @ active) \<and> matches f (en_subject e)}"
    by (force simp: in_scan_offsets subject_records_def)
  finally show ?thesis
    using run assms(3,4) by (simp add: set_matching_offsets_def log_matching_offsets_def active_matching_offsets_def)
qed

text \<open>A log with one sealed segment, whose index file is lost and whose cache was too small.\<close>

definition plain_index_codec :: "(subject_index_file, bytes) snapshot_codec" where
  "plain_index_codec = \<lparr>sn_encode = (\<lambda>_. [1]), sn_decode = (\<lambda>_. None)\<rparr>"

definition sample_log :: "bytes \<Rightarrow> indexed_log" where
  "sample_log batch = \<lparr>il_sealed =
     [(release_records (segment_new ''log'' (subject_records [sample_message])),
       \<lparr>fl_segment = SEGMENT_HEADER @ batch, fl_sidx = None\<rparr>)],
     il_active_subjects = [(''o/a'', 1), (''o/b'', 2)]\<rparr>"

theorem indexed_query_is_scan_witness:
  "\<exists>batch q. set_matching_offsets sample_codec (Some sample_ring) plain_index_codec [((''o'', 0), sample_log batch)] ''o'' 0 ''o/a'' = Ok q
     \<and> sq_offsets q = [0, 1]"
proof -
  obtain b where b: "encode_for_log sample_codec (Some sample_ring) sample_message = Ok (b, length b)"
    "length b = 139"
    using sample_batch by blast
  then have "stored_as sample_codec (Some sample_ring) ''o'' 0 sample_message b"
    using sample_message_fits
    by (simp add: stored_as_def BATCH_PREFIX_LEN_def MAX_BATCH_BYTES_def) (simp add: sample_message_def)
  then have "list_all2 (stored_as sample_codec (Some sample_ring) ''o'' 0) [sample_message] [b]" by simp
  then have "\<exists>bs. SEGMENT_HEADER @ b = SEGMENT_HEADER @ concat bs
      \<and> list_all2 (stored_as sample_codec (Some sample_ring) ''o'' 0) [sample_message] bs"
    by (intro exI [of _ "[b]"]) simp
  then have holds: "list_all2 (segment_holds sample_codec (Some sample_ring) plain_index_codec ''o'' 0)
      (il_sealed (sample_log b)) [[sample_message]]"
    by (simp add: sample_log_def segment_holds_def release_records_def segment_new_def load_index_def Let_def)
  let ?active = "[sample_message\<lparr>en_offset := 1\<rparr>, sample_message\<lparr>en_offset := 2, en_subject := ''o/b''\<rparr>]"
  have active: "il_active_subjects (sample_log b) = subject_records ?active"
    by (simp add: sample_log_def subject_records_def sample_message_def)
  have "matches ''o/a'' ''o/a''" "\<not> matches ''o/a'' ''o/b''"
    by (simp_all add: matches_exact)
  then have "set (map en_offset (filter (\<lambda>e. matches ''o/a'' (en_subject e)) (concat [[sample_message]] @ ?active))) = {0, 1}"
    by (simp add: sample_message_def)
  then have "{en_offset e |e. e \<in> set (concat [[sample_message]] @ ?active) \<and> matches ''o/a'' (en_subject e)} = {0, 1}"
    unfolding set_map set_filter by (simp add: setcompr_eq_image del: set_append)
  then show ?thesis
    using indexed_query_is_scan [OF holds sample_ring_ok active, of "[((''o'', 0), sample_log b)]" "''o/a''"]
    by (auto simp: sorted_list_of_set_insert_remove)
qed

end
