(* ===== verification/Consumer_Cursor.thy ===== *)
theory Consumer_Cursor
  imports Subject_Index
begin

text \<open>
  Per-partition delivery cursors of a durable consumer, from
  \<open>crates/server/src/consumer_cursor.rs\<close>.

  A cursor has a committed offset and the offsets acknowledged above it; the frontier of a
  partition is the queue of its offsets that match the consumer's filter, read once from the
  log's subject index and then maintained. \<open>BTreeSet\<close> is a strictly increasing list here, since the
  loops are bounded by its size; \<open>HashMap\<close> values are visited in the order of their keys, and the
  results that are used (minima, membership) do not depend on it.
\<close>

datatype start_position = Earliest | Latest | CommittedStart | OffsetStart u64 | TimestampStart u64

record partition_cursor =
  cu_stream :: string
  cu_partition :: u32
  cu_committed_offset :: u64
  cu_delivered_offset :: "u64 option"
  cu_acknowledged_offsets :: "u64 list"
  cu_retention_gaps :: u64

record consumer_cursor_set =
  cs_partitions :: "(string, partition_cursor) btree_map"
  cs_ack_window :: nat
  cs_frontiers :: "(string, u64 list) btree_map"

type_synonym message_map = "(u64, publish_record) btree_map"

definition default_cursor_set :: consumer_cursor_set where
  "default_cursor_set = \<lparr>cs_partitions = [], cs_ack_window = 1024, cs_frontiers = []\<rparr>"

section \<open>Keys and positions\<close>

definition cursor_key :: "string \<Rightarrow> u32 \<Rightarrow> string" where
  "cursor_key stream p = stream @ '':'' @ decimal p"

definition unwrap_or :: "'a \<Rightarrow> 'a option \<Rightarrow> 'a" where
  "unwrap_or d x = (case x of None \<Rightarrow> d | Some v \<Rightarrow> v)"

definition record_position :: "publish_record \<Rightarrow> string \<times> u32 \<times> u64" where
  "record_position r =
     (unwrap_or [] (pub_stream r), unwrap_or 0 (pub_partition r), unwrap_or 0 (pub_offset r))"

definition cursor_for_key :: "publish_record \<Rightarrow> string option" where
  "cursor_for_key r =
     Option.bind (pub_stream r) (\<lambda>s. Option.bind (pub_partition r) (\<lambda>p. Some (cursor_key s p)))"

definition cursor_for :: "consumer_cursor_set \<Rightarrow> publish_record \<Rightarrow> partition_cursor option" where
  "cursor_for cs r = Option.bind (cursor_for_key r) (map_of (cs_partitions cs))"

text \<open>\<open>Iterator::min\<close> and \<open>max\<close> of offsets.\<close>

definition min_offset :: "u64 list \<Rightarrow> u64 option" where
  "min_offset xs = min_by_key (\<lambda>x. x) xs"

definition max_offset :: "u64 list \<Rightarrow> u64 option" where
  "max_offset xs = max_by_key (\<lambda>x. x) xs"

definition in_partition :: "string \<Rightarrow> u32 \<Rightarrow> publish_record \<Rightarrow> bool" where
  "in_partition stream p r \<longleftrightarrow> pub_stream r = Some stream \<and> pub_partition r = Some p"

definition offsets_of :: "publish_record list \<Rightarrow> u64 list" where
  "offsets_of rs = List.map_filter pub_offset rs"

section \<open>Construction\<close>

definition starting_offset :: "start_position \<Rightarrow> string \<Rightarrow> u32 \<Rightarrow> publish_record list \<Rightarrow> u64" where
  "starting_offset start stream p messages =
     (let records = filter (in_partition stream p) messages;
          high_watermark = (case max_offset (offsets_of records) of None \<Rightarrow> 0 | Some m \<Rightarrow> sat_add64 m 1)
      in case start of
           Earliest \<Rightarrow> 0
         | CommittedStart \<Rightarrow> 0
         | Latest \<Rightarrow> high_watermark
         | OffsetStart offset \<Rightarrow> offset
         | TimestampStart timestamp \<Rightarrow>
             unwrap_or high_watermark
               (min_offset (offsets_of (filter (\<lambda>r. pub_timestamp_ms r \<ge> timestamp) records))))"

definition new_cursor :: "start_position \<Rightarrow> message_map \<Rightarrow> string \<Rightarrow> u32 \<Rightarrow> partition_cursor" where
  "new_cursor start messages stream p =
     \<lparr>cu_stream = stream, cu_partition = p,
      cu_committed_offset = starting_offset start stream p (bt_values messages),
      cu_delivered_offset = None, cu_acknowledged_offsets = [], cu_retention_gaps = 0\<rparr>"

definition cursors_new ::
  "string \<Rightarrow> start_position \<Rightarrow> nat \<Rightarrow> stream_catalog \<Rightarrow> message_map \<Rightarrow> consumer_cursor_set" where
  "cursors_new filter_subject start ack_window catalog messages =
     \<lparr>cs_partitions = bt_collect (concat (map (\<lambda>d. map (\<lambda>p.
          (cursor_key (sd_name d) p, new_cursor start messages (sd_name d) p)) [0..<sd_partitions d])
          (streams_for_filter catalog filter_subject))),
      cs_ack_window = ack_window, cs_frontiers = []\<rparr>"

section \<open>Advancing a cursor\<close>

definition next_matching_offset :: "partition_cursor \<Rightarrow> string \<Rightarrow> message_map \<Rightarrow> u64 option" where
  "next_matching_offset cursor filter_subject messages =
     min_offset (filter (\<lambda>offset. offset \<ge> cu_committed_offset cursor)
       (offsets_of (filter (\<lambda>r. in_partition (cu_stream cursor) (cu_partition cursor) r
          \<and> matches filter_subject (pub_subject r)) (bt_values messages))))"

definition next_frontier_offset :: "partition_cursor \<Rightarrow> u64 list \<Rightarrow> u64 option" where
  "next_frontier_offset cursor frontier = find (\<lambda>offset. offset \<ge> cu_committed_offset cursor) frontier"

text \<open>
  Both loops of the code: while the next offset is acknowledged, take it out of the set and
  commit behind it. They differ in where the next offset comes from.
\<close>

function advance_loop :: "(partition_cursor \<Rightarrow> u64 option) \<Rightarrow> partition_cursor \<Rightarrow> partition_cursor" where
  "advance_loop next_offset cursor =
     (case next_offset cursor of
        None \<Rightarrow> cursor
      | Some n \<Rightarrow>
         if n \<notin> set (cu_acknowledged_offsets cursor) then cursor
         else advance_loop next_offset
           (cursor\<lparr>cu_acknowledged_offsets := filter (\<lambda>x. x \<noteq> n) (cu_acknowledged_offsets cursor),
                   cu_committed_offset := sat_add64 n 1\<rparr>))"
  by pat_completeness auto
termination
  by (relation "measure (\<lambda>(f, cursor). length (cu_acknowledged_offsets cursor))")
    (auto intro: length_filter_less)

declare advance_loop.simps [simp del]

definition advance_committed :: "partition_cursor \<Rightarrow> string \<Rightarrow> message_map \<Rightarrow> partition_cursor" where
  "advance_committed cursor filter_subject messages =
     advance_loop (\<lambda>c. next_matching_offset c filter_subject messages) cursor"

definition advance_committed_from_frontier :: "partition_cursor \<Rightarrow> u64 list \<Rightarrow> partition_cursor" where
  "advance_committed_from_frontier cursor frontier = advance_loop (\<lambda>c. next_frontier_offset c frontier) cursor"

section \<open>Operations\<close>

definition put_cursor :: "string \<Rightarrow> partition_cursor \<Rightarrow> consumer_cursor_set \<Rightarrow> consumer_cursor_set" where
  "put_cursor key cursor cs = cs\<lparr>cs_partitions := bt_insert key cursor (cs_partitions cs)\<rparr>"

definition mark_delivered :: "consumer_cursor_set \<Rightarrow> publish_record \<Rightarrow> consumer_cursor_set" where
  "mark_delivered cs r =
     (case pub_offset r of
        None \<Rightarrow> cs
      | Some offset \<Rightarrow>
         (case (cursor_for_key r, cursor_for cs r) of
            (Some key, Some cursor) \<Rightarrow>
              put_cursor key (cursor\<lparr>cu_delivered_offset :=
                Some (max (unwrap_or 0 (cu_delivered_offset cursor)) offset)\<rparr>) cs
          | _ \<Rightarrow> cs))"

text \<open>
  The frontier is taken out of the map for the time of the call and put back on every path, so
  the map is the same afterwards; it is left in place here.
\<close>

definition acknowledge ::
  "consumer_cursor_set \<Rightarrow> publish_record \<Rightarrow> string \<Rightarrow> message_map \<Rightarrow> unit result \<times> consumer_cursor_set" where
  "acknowledge cs r filter_subject messages =
     (case pub_offset r of
        None \<Rightarrow> (Err ''message has no partition offset'', cs)
      | Some offset \<Rightarrow>
         (let frontier = map_of (cs_frontiers cs)
                (cursor_key (unwrap_or [] (pub_stream r)) (unwrap_or 0 (pub_partition r))) in
          case (cursor_for_key r, cursor_for cs r) of
            (Some key, Some cursor) \<Rightarrow>
              if offset < cu_committed_offset cursor then (Ok (), cs)
              else
                let closes_gap = (case frontier of
                      None \<Rightarrow> next_matching_offset cursor filter_subject messages = Some offset
                    | Some fr \<Rightarrow> next_frontier_offset cursor fr = Some offset);
                    allowed = (offset \<in> set (cu_acknowledged_offsets cursor)
                      \<or> length (cu_acknowledged_offsets cursor) < cs_ack_window cs \<or> closes_gap)
                in if \<not> allowed then (Err ''consumer acknowledgement window exceeded'', cs)
                   else
                     let cursor = cursor\<lparr>cu_acknowledged_offsets :=
                           insort_insert offset (cu_acknowledged_offsets cursor)\<rparr>;
                         cursor = (case frontier of
                             Some fr \<Rightarrow> advance_committed_from_frontier cursor fr
                           | None \<Rightarrow> advance_committed cursor filter_subject messages)
                     in (Ok (), put_cursor key cursor cs)
          | _ \<Rightarrow> (Err ''consumer has no partition cursor'', cs)))"

definition committed_offset :: "consumer_cursor_set \<Rightarrow> string \<Rightarrow> u32 \<Rightarrow> u64 option" where
  "committed_offset cs stream p = map_option cu_committed_offset (map_of (cs_partitions cs) (cursor_key stream p))"

definition raise_floor :: "u64 \<Rightarrow> partition_cursor \<Rightarrow> partition_cursor" where
  "raise_floor earliest cursor =
     (if cu_committed_offset cursor < earliest
      then cursor\<lparr>cu_committed_offset := earliest,
             cu_retention_gaps := sat_add64 (cu_retention_gaps cursor) 1,
             cu_acknowledged_offsets := filter (\<lambda>x. x \<ge> earliest) (cu_acknowledged_offsets cursor)\<rparr>
      else cursor)"

definition apply_retention_floor ::
  "consumer_cursor_set \<Rightarrow> string \<Rightarrow> u32 \<Rightarrow> u64 \<Rightarrow> bool \<times> consumer_cursor_set" where
  "apply_retention_floor cs stream p earliest =
     (let key = cursor_key stream p in
      case map_of (cs_partitions cs) key of
        None \<Rightarrow> (False, cs)
      | Some cursor \<Rightarrow>
         (cu_committed_offset cursor < earliest,
          (put_cursor key (raise_floor earliest cursor) cs)\<lparr>cs_frontiers :=
             bt_update key (filter (\<lambda>x. x \<ge> earliest)) (cs_frontiers cs)\<rparr>))"

text \<open>
  \<open>push_back\<close> behind the last offset, otherwise an insertion at the partition point unless
  \<open>binary_search\<close> finds the offset, which on the sorted queue is membership.
\<close>

definition frontier_insert :: "u64 \<Rightarrow> u64 list \<Rightarrow> u64 list" where
  "frontier_insert offset frontier =
     (if frontier = [] \<or> last frontier < offset then frontier @ [offset]
      else if offset \<notin> set frontier
      then takeWhile (\<lambda>x. x < offset) frontier @ [offset] @ dropWhile (\<lambda>x. x < offset) frontier
      else frontier)"

definition observe_published_record ::
  "consumer_cursor_set \<Rightarrow> string \<Rightarrow> publish_record \<Rightarrow> consumer_cursor_set" where
  "observe_published_record cs filter_subject r =
     (case (pub_stream r, pub_partition r, pub_offset r) of
        (Some stream, Some p, Some offset) \<Rightarrow>
          if \<not> matches filter_subject (pub_subject r) then cs
          else cs\<lparr>cs_frontiers := bt_update (cursor_key stream p) (frontier_insert offset) (cs_frontiers cs)\<rparr>
      | _ \<Rightarrow> cs)"

definition remove_record :: "consumer_cursor_set \<Rightarrow> string \<Rightarrow> u32 \<Rightarrow> u64 \<Rightarrow> consumer_cursor_set" where
  "remove_record cs stream p offset =
     cs\<lparr>cs_frontiers := bt_update (cursor_key stream p) (filter (\<lambda>x. x \<noteq> offset)) (cs_frontiers cs)\<rparr>"

text \<open>The query of the partition logs for a stream and a partition, as the set's method returns it.\<close>

type_synonym log_query = "string \<Rightarrow> u32 \<Rightarrow> string \<Rightarrow> subject_index_query result"

definition queried_offsets :: "log_query \<Rightarrow> string \<Rightarrow> partition_cursor \<Rightarrow> u64 list" where
  "queried_offsets logs filter_subject cursor =
     (case logs (cu_stream cursor) (cu_partition cursor) filter_subject of Err _ \<Rightarrow> [] | Ok q \<Rightarrow> sq_offsets q)"

definition key_of :: "partition_cursor \<Rightarrow> string" where
  "key_of cursor = cursor_key (cu_stream cursor) (cu_partition cursor)"

definition ensure_frontiers :: "consumer_cursor_set \<Rightarrow> string \<Rightarrow> log_query \<Rightarrow> consumer_cursor_set" where
  "ensure_frontiers cs filter_subject logs =
     (let missing = filter (\<lambda>cursor. \<not> bt_contains (key_of cursor) (cs_frontiers cs)) (bt_values (cs_partitions cs))
      in cs\<lparr>cs_frontiers := fold (\<lambda>cursor. bt_insert (key_of cursor) (queried_offsets logs filter_subject cursor))
             missing (cs_frontiers cs)\<rparr>)"

definition observe_retention :: "consumer_cursor_set \<Rightarrow> message_map \<Rightarrow> consumer_cursor_set" where
  "observe_retention cs messages =
     cs\<lparr>cs_partitions := bt_map_values (\<lambda>cursor.
          case min_offset (offsets_of (filter (in_partition (cu_stream cursor) (cu_partition cursor)) (bt_values messages))) of
            None \<Rightarrow> cursor
          | Some earliest \<Rightarrow> raise_floor earliest cursor) (cs_partitions cs)\<rparr>"

definition next_candidate ::
  "consumer_cursor_set \<Rightarrow> string \<Rightarrow> message_map \<Rightarrow> u64 set \<Rightarrow> u64 option \<times> consumer_cursor_set" where
  "next_candidate cs0 filter_subject messages leased =
     (let cs = observe_retention cs0 messages;
          candidates = filter (\<lambda>(seq, r). seq \<notin> leased \<and> matches filter_subject (pub_subject r)
            \<and> (case (cursor_for cs r, pub_offset r) of
                 (Some cursor, Some offset) \<Rightarrow>
                   offset \<ge> cu_committed_offset cursor \<and> offset \<notin> set (cu_acknowledged_offsets cursor)
               | _ \<Rightarrow> False)) messages
      in (map_option fst (min_by_key (\<lambda>(_, r). record_position r) candidates), cs))"

text \<open>The front of a frontier that is committed or no longer indexed is dropped, then the first
  offset that is neither acknowledged nor leased is the partition's candidate.\<close>

definition frontier_prune ::
  "partition_cursor \<Rightarrow> (string \<times> u32 \<times> u64, u64) btree_map \<Rightarrow> u64 list \<Rightarrow> u64 list" where
  "frontier_prune cursor sequences frontier =
     dropWhile (\<lambda>offset. offset < cu_committed_offset cursor
       \<or> \<not> bt_contains (cu_stream cursor, cu_partition cursor, offset) sequences) frontier"

definition frontier_candidate ::
  "partition_cursor \<Rightarrow> (string \<times> u32 \<times> u64, u64) btree_map \<Rightarrow> (u64 \<Rightarrow> bool) \<Rightarrow> u64 list \<Rightarrow> u64 option" where
  "frontier_candidate cursor sequences is_leased frontier =
     find_map (\<lambda>offset.
       if offset \<in> set (cu_acknowledged_offsets cursor) then None
       else case map_of sequences (cu_stream cursor, cu_partition cursor, offset) of
              None \<Rightarrow> None
            | Some seq \<Rightarrow> if \<not> is_leased seq then Some seq else None) frontier"

fun scan_frontiers ::
  "partition_cursor list \<Rightarrow> (string \<times> u32 \<times> u64, u64) btree_map \<Rightarrow> (u64 \<Rightarrow> bool) \<Rightarrow> (string, u64 list) btree_map
     \<Rightarrow> u64 list \<times> (string, u64 list) btree_map" where
  "scan_frontiers [] sequences is_leased frontiers = ([], frontiers)"
| "scan_frontiers (cursor # cursors) sequences is_leased frontiers =
     (case map_of frontiers (key_of cursor) of
        None \<Rightarrow> scan_frontiers cursors sequences is_leased frontiers
      | Some fr \<Rightarrow>
         (let fr = frontier_prune cursor sequences fr;
              (found, frontiers) = scan_frontiers cursors sequences is_leased (bt_insert (key_of cursor) fr frontiers)
          in (case frontier_candidate cursor sequences is_leased fr of None \<Rightarrow> found | Some seq \<Rightarrow> seq # found,
              frontiers)))"

definition next_indexed_candidate ::
  "consumer_cursor_set \<Rightarrow> string \<Rightarrow> message_map \<Rightarrow> (string \<times> u32 \<times> u64, u64) btree_map \<Rightarrow> log_query
     \<Rightarrow> (u64 \<Rightarrow> bool) \<Rightarrow> u64 option \<times> consumer_cursor_set" where
  "next_indexed_candidate cs0 filter_subject messages sequences logs is_leased =
     (let cs = ensure_frontiers cs0 filter_subject logs;
          (found, frontiers) = scan_frontiers (bt_values (cs_partitions cs)) sequences is_leased (cs_frontiers cs);
          positioned = List.map_filter (\<lambda>seq. map_option (\<lambda>r. (seq, record_position r)) (map_of messages seq)) found
      in (map_option fst (min_by_key snd positioned), cs\<lparr>cs_frontiers := frontiers\<rparr>))"

section \<open>Keys are unambiguous\<close>

lemma cursor_key_inj: "cursor_key s p = cursor_key s' p' \<longleftrightarrow> s = s' \<and> p = p'"
  using colon_key_inj [of s "decimal p" s' "decimal p'"] decimal_no_colon decimal_value_decimal
  unfolding cursor_key_def by (metis append_Cons append_Nil)

section \<open>The advance loop\<close>

text \<open>What a source of next offsets promises: the least pending offset from the committed one on.\<close>

definition next_of :: "string \<Rightarrow> u32 \<Rightarrow> u64 set \<Rightarrow> (partition_cursor \<Rightarrow> u64 option) \<Rightarrow> bool" where
  "next_of s p pending f \<longleftrightarrow> (\<forall>c. cu_stream c = s \<and> cu_partition c = p \<longrightarrow> (case f c of
       None \<Rightarrow> (\<forall>x\<in>pending. x < cu_committed_offset c)
     | Some n \<Rightarrow> n \<in> pending \<and> cu_committed_offset c \<le> n
         \<and> (\<forall>x\<in>pending. cu_committed_offset c \<le> x \<longrightarrow> n \<le> x)))"

lemma next_ofD:
  "next_of (cu_stream c) (cu_partition c) pending f \<Longrightarrow> f c = Some n \<Longrightarrow>
     n \<in> pending \<and> cu_committed_offset c \<le> n \<and> (\<forall>x\<in>pending. cu_committed_offset c \<le> x \<longrightarrow> n \<le> x)"
  unfolding next_of_def by (drule spec [of _ c]) simp

text \<open>
  The loop commits only behind acknowledged offsets, skips no pending one, keeps every
  acknowledgement above the committed offset, and stops at the first pending offset that is not
  acknowledged.
\<close>

definition advanced :: "u64 set \<Rightarrow> partition_cursor \<Rightarrow> partition_cursor \<Rightarrow> bool" where
  "advanced pending c d \<longleftrightarrow>
     cu_committed_offset c \<le> cu_committed_offset d
     \<and> cu_stream d = cu_stream c \<and> cu_partition d = cu_partition c
     \<and> (cu_committed_offset c \<le> u64_max \<longrightarrow> cu_committed_offset d \<le> u64_max)
     \<and> length (cu_acknowledged_offsets d) \<le> length (cu_acknowledged_offsets c)
     \<and> (sorted_wrt (<) (cu_acknowledged_offsets c) \<longrightarrow> sorted_wrt (<) (cu_acknowledged_offsets d))
     \<and> set (cu_acknowledged_offsets d) \<subseteq> set (cu_acknowledged_offsets c)
     \<and> (\<forall>x\<in>set (cu_acknowledged_offsets c). x \<in> set (cu_acknowledged_offsets d) \<or> x < cu_committed_offset d \<or> x = u64_max)
     \<and> (\<forall>x\<in>pending. cu_committed_offset c \<le> x \<and> x < cu_committed_offset d \<longrightarrow> x \<in> set (cu_acknowledged_offsets c))"

lemma advanced_trans:
  assumes cd: "advanced P c d" and de: "advanced P d e"
  shows "advanced P c e"
  unfolding advanced_def
proof (intro conjI ballI impI)
  fix x
  assume x: "x \<in> P" "cu_committed_offset c \<le> x \<and> x < cu_committed_offset e"
  show "x \<in> set (cu_acknowledged_offsets c)"
  proof (cases "x < cu_committed_offset d")
    case True
    with x cd show ?thesis by (simp add: advanced_def)
  next
    case False
    with x de have "x \<in> set (cu_acknowledged_offsets d)" by (simp add: advanced_def)
    with cd show ?thesis by (auto simp: advanced_def)
  qed
next
  fix x
  assume "x \<in> set (cu_acknowledged_offsets c)"
  then have "x \<in> set (cu_acknowledged_offsets d) \<or> x < cu_committed_offset d \<or> x = u64_max"
    using cd by (simp add: advanced_def)
  moreover have "cu_committed_offset d \<le> cu_committed_offset e" using de by (simp add: advanced_def)
  ultimately show "x \<in> set (cu_acknowledged_offsets e) \<or> x < cu_committed_offset e \<or> x = u64_max"
    using de unfolding advanced_def by fastforce
qed (use cd de in \<open>auto simp: advanced_def\<close>)

lemma advance_loop_law:
  assumes "next_of (cu_stream c) (cu_partition c) pending f" and "\<forall>x\<in>set (cu_acknowledged_offsets c). x \<le> u64_max"
  shows "advanced pending c (advance_loop f c)
    \<and> (\<forall>n. f (advance_loop f c) = Some n \<longrightarrow> n \<notin> set (cu_acknowledged_offsets (advance_loop f c)))"
  using assms
proof (induction f c rule: advance_loop.induct)
  case (1 f c)
  show ?case
  proof (cases "\<exists>n. f c = Some n \<and> n \<in> set (cu_acknowledged_offsets c)")
    case False
    then have "advance_loop f c = c" by (subst advance_loop.simps) (auto split: option.split)
    with False show ?thesis by (auto simp: advanced_def)
  next
    case True
    then obtain n where n: "f c = Some n" "n \<in> set (cu_acknowledged_offsets c)" by blast
    let ?d = "c\<lparr>cu_acknowledged_offsets := filter (\<lambda>x. x \<noteq> n) (cu_acknowledged_offsets c),
                cu_committed_offset := sat_add64 n 1\<rparr>"
    have step: "advance_loop f c = advance_loop f ?d" by (subst advance_loop.simps) (simp add: n)
    have le: "n \<le> u64_max" using n(2) 1(3) by blast
    note least = next_ofD [OF 1(2) n(1)]
    have IH: "advanced pending ?d (advance_loop f ?d)
      \<and> (\<forall>n. f (advance_loop f ?d) = Some n \<longrightarrow> n \<notin> set (cu_acknowledged_offsets (advance_loop f ?d)))"
      using 1(1) [OF n(1)] n(2) 1(2,3) by simp
    have passed: "\<forall>x\<in>pending. cu_committed_offset c \<le> x \<and> x < sat_add64 n 1 \<longrightarrow> x = n"
      using least by (auto simp: sat_add64_def)
    have bounds: "cu_committed_offset c \<le> sat_add64 n 1" "n < sat_add64 n 1 \<or> n = u64_max"
      using least le by (auto simp: sat_add64_def)
    have "advanced pending c ?d"
      unfolding advanced_def
    proof (intro conjI ballI impI)
      fix x
      assume "x \<in> pending" "cu_committed_offset c \<le> x \<and> x < cu_committed_offset ?d"
      with passed n(2) show "x \<in> set (cu_acknowledged_offsets c)" by auto
    qed (use bounds in \<open>auto simp: sorted_wrt_filter sat_simps\<close>)
    then have "advanced pending c (advance_loop f ?d)"
      using IH advanced_trans by blast
    with IH step show ?thesis by simp
  qed
qed

lemma advance_loop_length: "length (cu_acknowledged_offsets (advance_loop f c)) \<le> length (cu_acknowledged_offsets c)"
proof (induction f c rule: advance_loop.induct)
  case (1 f c)
  show ?case
  proof (cases "\<exists>n. f c = Some n \<and> n \<in> set (cu_acknowledged_offsets c)")
    case False
    then show ?thesis by (subst advance_loop.simps) (auto split: option.split)
  next
    case True
    then obtain n where n: "f c = Some n" "n \<in> set (cu_acknowledged_offsets c)" by blast
    then have "length (cu_acknowledged_offsets (advance_loop f c))
        \<le> length (filter (\<lambda>x. x \<noteq> n) (cu_acknowledged_offsets c))"
      using 1 [of n] by (subst advance_loop.simps) simp
    then show ?thesis using length_filter_le le_trans by blast
  qed
qed

lemma advance_loop_first:
  assumes "f c = Some n" and "n \<in> set (cu_acknowledged_offsets c)"
  shows "length (cu_acknowledged_offsets (advance_loop f c)) \<le> length (filter (\<lambda>x. x \<noteq> n) (cu_acknowledged_offsets c))"
  using advance_loop_length [of f "c\<lparr>cu_acknowledged_offsets := filter (\<lambda>x. x \<noteq> n) (cu_acknowledged_offsets c),
      cu_committed_offset := sat_add64 n 1\<rparr>"] assms
  by (subst advance_loop.simps) simp

lemma find_least:
  "sorted_wrt (<) xs \<Longrightarrow> (case find (\<lambda>x. m \<le> x) xs of
     None \<Rightarrow> (\<forall>x\<in>set xs. x < m)
   | Some n \<Rightarrow> n \<in> set xs \<and> m \<le> n \<and> (\<forall>x\<in>set xs. m \<le> x \<longrightarrow> n \<le> x))"
  for xs :: "nat list"
  by (induction xs) (auto split: option.splits)

lemma next_of_frontier: "sorted_wrt (<) fr \<Longrightarrow> next_of s p (set fr) (\<lambda>c. next_frontier_offset c fr)"
  using find_least by (simp add: next_of_def next_frontier_offset_def)

lemma in_offsets_of: "x \<in> set (offsets_of rs) \<longleftrightarrow> (\<exists>r\<in>set rs. pub_offset r = Some x)"
  by (force simp: offsets_of_def List.map_filter_def)

lemma min_offset_least:
  "case min_offset xs of None \<Rightarrow> xs = [] | Some n \<Rightarrow> n \<in> set xs \<and> (\<forall>x\<in>set xs. n \<le> x)"
  using min_by_key_Some [of "\<lambda>x. x" xs] by (auto simp: min_offset_def split: option.split)

definition matching_in_messages :: "string \<Rightarrow> message_map \<Rightarrow> string \<Rightarrow> u32 \<Rightarrow> u64 set" where
  "matching_in_messages f messages s p =
     {x. \<exists>r\<in>set (bt_values messages). in_partition s p r \<and> matches f (pub_subject r) \<and> pub_offset r = Some x}"

lemma next_of_messages:
  "next_of s p (matching_in_messages f messages s p) (\<lambda>c. next_matching_offset c f messages)"
proof -
  have "case next_matching_offset c f messages of
       None \<Rightarrow> (\<forall>x\<in>matching_in_messages f messages s p. x < cu_committed_offset c)
     | Some n \<Rightarrow> n \<in> matching_in_messages f messages s p \<and> cu_committed_offset c \<le> n
         \<and> (\<forall>x\<in>matching_in_messages f messages s p. cu_committed_offset c \<le> x \<longrightarrow> n \<le> x)"
    if "cu_stream c = s" "cu_partition c = p" for c
  proof -
    let ?xs = "filter (\<lambda>offset. offset \<ge> cu_committed_offset c)
       (offsets_of (filter (\<lambda>r. in_partition s p r \<and> matches f (pub_subject r)) (bt_values messages)))"
    have "set ?xs = {x \<in> matching_in_messages f messages s p. cu_committed_offset c \<le> x}"
      by (auto simp: matching_in_messages_def in_offsets_of)
    then have xs: "x \<in> set ?xs \<longleftrightarrow> x \<in> matching_in_messages f messages s p \<and> cu_committed_offset c \<le> x" for x
      by blast
    have "next_matching_offset c f messages = min_offset ?xs" by (simp add: next_matching_offset_def that)
    moreover note min_offset_least [of ?xs]
    ultimately show ?thesis
    proof (cases "min_offset ?xs")
      case None
      with min_offset_least [of ?xs] have "set ?xs = {}" by simp
      with xs have "\<forall>x\<in>matching_in_messages f messages s p. x < cu_committed_offset c"
        by (metis empty_iff not_le)
      with None \<open>next_matching_offset c f messages = min_offset ?xs\<close> show ?thesis by simp
    next
      case (Some n)
      with min_offset_least [of ?xs] have "n \<in> set ?xs" "\<forall>x\<in>set ?xs. n \<le> x" by simp_all
      with Some xs \<open>next_matching_offset c f messages = min_offset ?xs\<close> show ?thesis by auto
    qed
  qed
  then show ?thesis by (simp add: next_of_def)
qed

text \<open>The offsets a consumer still has to see in a partition, as an acknowledgement reads them.\<close>

definition pending_offsets :: "consumer_cursor_set \<Rightarrow> string \<Rightarrow> message_map \<Rightarrow> string \<Rightarrow> u32 \<Rightarrow> u64 set" where
  "pending_offsets cs f messages s p =
     (case map_of (cs_frontiers cs) (cursor_key s p) of
        Some fr \<Rightarrow> set fr
      | None \<Rightarrow> matching_in_messages f messages s p)"

section \<open>Invariant\<close>

definition cursor_ok :: "nat \<Rightarrow> partition_cursor \<Rightarrow> bool" where
  "cursor_ok window c \<longleftrightarrow> sorted_wrt (<) (cu_acknowledged_offsets c)
     \<and> length (cu_acknowledged_offsets c) \<le> window
     \<and> (\<forall>x\<in>set (cu_acknowledged_offsets c). x \<le> u64_max) \<and> cu_committed_offset c \<le> u64_max"

definition cursors_inv :: "consumer_cursor_set \<Rightarrow> bool" where
  "cursors_inv cs \<longleftrightarrow> bt_wf (cs_partitions cs) \<and> bt_wf (cs_frontiers cs)
     \<and> (\<forall>k c. map_of (cs_partitions cs) k = Some c \<longrightarrow> k = key_of c \<and> cursor_ok (cs_ack_window cs) c)
     \<and> (\<forall>k fr. map_of (cs_frontiers cs) k = Some fr \<longrightarrow> sorted_wrt (<) fr)"

lemma cursor_for_iff:
  "cursor_for cs r = Some c \<longleftrightarrow>
     (\<exists>s p. pub_stream r = Some s \<and> pub_partition r = Some p \<and> map_of (cs_partitions cs) (cursor_key s p) = Some c)"
  by (cases "pub_stream r"; cases "pub_partition r") (simp_all add: cursor_for_def cursor_for_key_def)

lemma cursor_identity:
  assumes "cursors_inv cs" and "map_of (cs_partitions cs) (cursor_key s p) = Some c"
  shows "cu_stream c = s \<and> cu_partition c = p"
proof -
  have "cursor_key s p = key_of c" using assms by (simp add: cursors_inv_def)
  then show ?thesis by (simp add: key_of_def cursor_key_inj)
qed

text \<open>The shape of an acknowledgement that is carried out.\<close>

lemma acknowledge_Ok:
  assumes inv: "cursors_inv cs" and run: "acknowledge cs r f messages = (Ok (), cs')"
    and c: "cursor_for cs r = Some c" and off: "pub_offset r = Some x"
    and le: "cu_committed_offset c \<le> x" and u64: "x \<le> u64_max"
  defines "acked \<equiv> c\<lparr>cu_acknowledged_offsets := insort_insert x (cu_acknowledged_offsets c)\<rparr>"
  shows "\<exists>d. cs' = put_cursor (key_of c) d cs
    \<and> advanced (pending_offsets cs f messages (cu_stream c) (cu_partition c)) acked d
    \<and> length (cu_acknowledged_offsets d) \<le> cs_ack_window cs"
proof -
  obtain s p where sp: "pub_stream r = Some s" "pub_partition r = Some p"
    "map_of (cs_partitions cs) (cursor_key s p) = Some c"
    using c by (auto simp: cursor_for_iff)
  have ident: "cu_stream c = s" "cu_partition c = p" using cursor_identity [OF inv sp(3)] by auto
  have key: "cursor_for_key r = Some (key_of c)" by (simp add: cursor_for_key_def sp key_of_def ident)
  have ok: "cursor_ok (cs_ack_window cs) c" using inv sp(3) by (simp add: cursors_inv_def)
  let ?P = "pending_offsets cs f messages s p"
  define g where "g = (case map_of (cs_frontiers cs) (cursor_key s p) of
      Some fr \<Rightarrow> (\<lambda>c. next_frontier_offset c fr) | None \<Rightarrow> (\<lambda>c. next_matching_offset c f messages))"
  have next_g: "next_of s p ?P g"
    using inv next_of_frontier next_of_messages
    by (auto simp: g_def pending_offsets_def cursors_inv_def split: option.split)
  have same: "g (c\<lparr>cu_acknowledged_offsets := as\<rparr>) = g c" for as
    by (simp add: g_def next_frontier_offset_def next_matching_offset_def split: option.split)
  have allowed: "x \<in> set (cu_acknowledged_offsets c) \<or> length (cu_acknowledged_offsets c) < cs_ack_window cs \<or> g c = Some x"
    and cs': "cs' = put_cursor (key_of c) (advance_loop g acked) cs"
    using run off c key le
    by (auto simp: acknowledge_def Let_def sp unwrap_or_def g_def acked_def advance_committed_def
        advance_committed_from_frontier_def split: option.splits if_splits)
  have "\<forall>y\<in>set (cu_acknowledged_offsets acked). y \<le> u64_max"
    using ok u64 by (auto simp: cursor_ok_def acked_def set_insort_insert)
  then have adv: "advanced ?P acked (advance_loop g acked)"
    and stop: "\<forall>n. g (advance_loop g acked) = Some n \<longrightarrow> n \<notin> set (cu_acknowledged_offsets (advance_loop g acked))"
    using advance_loop_law [of acked ?P g] next_g ident by (auto simp: acked_def)
  have "length (cu_acknowledged_offsets (advance_loop g acked)) \<le> cs_ack_window cs"
  proof (cases "x \<in> set (cu_acknowledged_offsets c) \<or> length (cu_acknowledged_offsets c) < cs_ack_window cs")
    case True
    then have "length (cu_acknowledged_offsets acked) \<le> cs_ack_window cs"
      using ok by (auto simp: acked_def cursor_ok_def insort_insert_key_def)
    then show ?thesis using adv by (simp add: advanced_def)
  next
    case False
    then have "g acked = Some x" using allowed same by (auto simp: acked_def)
    moreover have "x \<in> set (cu_acknowledged_offsets acked)" by (simp add: acked_def set_insort_insert)
    moreover have "filter (\<lambda>y. y \<noteq> x) (cu_acknowledged_offsets acked) = cu_acknowledged_offsets c"
      using False by (auto simp: acked_def insort_insert_key_def filter_insort_triv filter_id_conv)
    ultimately have "length (cu_acknowledged_offsets (advance_loop g acked)) \<le> length (cu_acknowledged_offsets c)"
      using advance_loop_first by fastforce
    then show ?thesis using ok by (simp add: cursor_ok_def)
  qed
  with cs' adv ident show ?thesis by auto
qed

definition messages_u64 :: "message_map \<Rightarrow> bool" where
  "messages_u64 messages \<longleftrightarrow> (\<forall>r\<in>set (bt_values messages). \<forall>x. pub_offset r = Some x \<longrightarrow> x \<le> u64_max)"

text \<open>One update of a single cursor keeps the invariant if the new cursor is in order.\<close>

lemma put_cursor_inv:
  assumes "cursors_inv cs" and "cursor_ok (cs_ack_window cs) d"
  shows "cursors_inv (put_cursor (key_of d) d cs)"
  using assms by (auto simp: cursors_inv_def put_cursor_def)

lemma raise_floor_ok:
  "cursor_ok w c \<Longrightarrow> e \<le> u64_max \<Longrightarrow> cursor_ok w (raise_floor e c) \<and> key_of (raise_floor e c) = key_of c"
  by (auto simp: raise_floor_def cursor_ok_def key_of_def sorted_wrt_filter intro: le_trans [OF length_filter_le])

lemma sorted_frontier_insert:
  assumes "sorted_wrt (<) fr"
  shows "sorted_wrt (<) (frontier_insert x fr) \<and> set (frontier_insert x fr) = insert x (set fr)"
proof (cases "fr = [] \<or> last fr < x")
  case True
  have "y \<le> last fr" if "y \<in> set fr" for y
    using assms that by (induction fr) (auto simp: less_imp_le split: if_splits)
  with True assms show ?thesis by (auto simp: frontier_insert_def sorted_wrt_append intro: le_less_trans)
next
  case False
  show ?thesis
  proof (cases "x \<in> set fr")
    case True
    with False assms show ?thesis by (auto simp: frontier_insert_def)
  next
    case fresh: False
    let ?l = "takeWhile (\<lambda>y. y < x) fr" and ?r = "dropWhile (\<lambda>y. y < x) fr"
    have whole: "?l @ ?r = fr" by simp
    have r: "sorted_wrt (<) ?l \<and> sorted_wrt (<) ?r \<and> (\<forall>y\<in>set ?l. \<forall>z\<in>set ?r. y < z)"
      using assms whole by (metis sorted_wrt_append)
    have above: "x < z" if "z \<in> set ?r" for z
    proof -
      have "?r \<noteq> []" using that by (metis empty_iff empty_set)
      then have "\<not> hd ?r < x" by (rule hd_dropWhile)
      then have "x \<le> hd ?r" by simp
      moreover have "hd ?r \<le> z" using that r by (cases ?r) auto
      moreover have "x \<noteq> z" using that fresh by (metis set_dropWhileD)
      ultimately show ?thesis by simp
    qed
    have "set fr = set ?l \<union> set ?r" by (metis whole set_append)
    moreover have "sorted_wrt (<) (?l @ [x] @ ?r)"
      using r above by (auto simp: sorted_wrt_append dest: set_takeWhileD intro: less_trans)
    ultimately show ?thesis using False fresh by (simp add: frontier_insert_def)
  qed
qed

lemma acknowledge_inv:
  assumes inv: "cursors_inv cs" and u64: "\<And>x. pub_offset r = Some x \<Longrightarrow> x \<le> u64_max"
  shows "cursors_inv (snd (acknowledge cs r f messages))"
proof (cases "\<exists>c x. cursor_for cs r = Some c \<and> pub_offset r = Some x \<and> cu_committed_offset c \<le> x
      \<and> fst (acknowledge cs r f messages) = Ok ()")
  case False
  then have "snd (acknowledge cs r f messages) = cs"
    by (auto simp: acknowledge_def Let_def split: option.splits if_splits)
  with inv show ?thesis by simp
next
  case True
  then obtain c x where c: "cursor_for cs r = Some c" and x: "pub_offset r = Some x" "cu_committed_offset c \<le> x"
    and run: "acknowledge cs r f messages = (Ok (), snd (acknowledge cs r f messages))"
    by (metis prod.collapse)
  have ok: "cursor_ok (cs_ack_window cs) c" using inv c by (auto simp: cursors_inv_def cursor_for_iff)
  from acknowledge_Ok [OF inv run c x u64 [OF x(1)]] obtain d
    where d: "snd (acknowledge cs r f messages) = put_cursor (key_of c) d cs"
      "length (cu_acknowledged_offsets d) \<le> cs_ack_window cs"
      and adv: "advanced (pending_offsets cs f messages (cu_stream c) (cu_partition c))
        (c\<lparr>cu_acknowledged_offsets := insort_insert x (cu_acknowledged_offsets c)\<rparr>) d"
    by auto
  have "sorted_wrt (<) (insort_insert x (cu_acknowledged_offsets c))"
    using ok by (simp add: cursor_ok_def strict_sorted_iff sorted_insort_insert distinct_insort_insert)
  then have "cursor_ok (cs_ack_window cs) d" "key_of d = key_of c"
    using adv d(2) ok u64 [OF x(1)] by (auto simp: advanced_def cursor_ok_def key_of_def set_insort_insert)
  with put_cursor_inv [OF inv] d(1) show ?thesis by metis
qed

section \<open>Every operation keeps the invariant\<close>

lemma frontiers_update_inv:
  assumes "cursors_inv cs" and "\<And>fr. sorted_wrt (<) fr \<Longrightarrow> sorted_wrt (<) (g fr)"
  shows "cursors_inv (cs\<lparr>cs_frontiers := bt_update k g (cs_frontiers cs)\<rparr>)"
  using assms by (auto simp: cursors_inv_def split: if_splits)

lemma mark_delivered_inv:
  assumes "cursors_inv cs"
  shows "cursors_inv (mark_delivered cs r)"
proof (cases "pub_offset r = None \<or> cursor_for cs r = None")
  case True
  then have "mark_delivered cs r = cs" by (auto simp: mark_delivered_def split: option.splits)
  with assms show ?thesis by simp
next
  case False
  then obtain s p c x where sp: "pub_stream r = Some s" "pub_partition r = Some p" "pub_offset r = Some x"
    "map_of (cs_partitions cs) (cursor_key s p) = Some c"
    by (auto simp: cursor_for_iff)
  let ?d = "c\<lparr>cu_delivered_offset := Some (max (unwrap_or 0 (cu_delivered_offset c)) x)\<rparr>"
  have "key_of ?d = cursor_key s p" using cursor_identity [OF assms sp(4)] by (simp add: key_of_def)
  moreover have "cursor_ok (cs_ack_window cs) ?d" using assms sp(4) by (simp add: cursors_inv_def cursor_ok_def)
  ultimately have "cursors_inv (put_cursor (cursor_key s p) ?d cs)" using put_cursor_inv [OF assms] by metis
  then show ?thesis by (simp add: mark_delivered_def sp cursor_for_def cursor_for_key_def)
qed

lemma apply_retention_floor_inv:
  assumes "cursors_inv cs" and "e \<le> u64_max"
  shows "cursors_inv (snd (apply_retention_floor cs s p e))"
proof (cases "map_of (cs_partitions cs) (cursor_key s p)")
  case None
  with assms show ?thesis by (simp add: apply_retention_floor_def Let_def)
next
  case (Some c)
  have "cursor_ok (cs_ack_window cs) (raise_floor e c)" "key_of (raise_floor e c) = cursor_key s p"
    using assms Some raise_floor_ok [of _ c e] by (auto simp: cursors_inv_def)
  then have "cursors_inv (put_cursor (cursor_key s p) (raise_floor e c) cs)"
    using put_cursor_inv [OF assms(1)] by metis
  then show ?thesis
    using frontiers_update_inv [of "put_cursor (cursor_key s p) (raise_floor e c) cs" "filter (\<lambda>x. x \<ge> e)"]
    by (simp add: apply_retention_floor_def Let_def Some sorted_wrt_filter put_cursor_def)
qed

lemma observe_published_inv: "cursors_inv cs \<Longrightarrow> cursors_inv (observe_published_record cs f r)"
  using frontiers_update_inv sorted_frontier_insert
  by (auto simp: observe_published_record_def split: option.split)

lemma remove_record_inv: "cursors_inv cs \<Longrightarrow> cursors_inv (remove_record cs s p x)"
  unfolding remove_record_def by (rule frontiers_update_inv) (simp_all add: sorted_wrt_filter)

definition retained_cursor :: "message_map \<Rightarrow> partition_cursor \<Rightarrow> partition_cursor" where
  "retained_cursor messages c =
     (case min_offset (offsets_of (filter (in_partition (cu_stream c) (cu_partition c)) (bt_values messages))) of
        None \<Rightarrow> c
      | Some earliest \<Rightarrow> raise_floor earliest c)"

lemma observe_retention_alt:
  "observe_retention cs messages = cs\<lparr>cs_partitions := bt_map_values (retained_cursor messages) (cs_partitions cs)\<rparr>"
  by (simp add: observe_retention_def retained_cursor_def [abs_def])

lemma retained_cursor_ok:
  assumes "cursor_ok w c" and "messages_u64 messages"
  shows "cursor_ok w (retained_cursor messages c) \<and> key_of (retained_cursor messages c) = key_of c"
proof (cases "min_offset (offsets_of (filter (in_partition (cu_stream c) (cu_partition c)) (bt_values messages)))")
  case None
  with assms show ?thesis by (simp add: retained_cursor_def)
next
  case (Some e)
  then have "e \<in> set (offsets_of (filter (in_partition (cu_stream c) (cu_partition c)) (bt_values messages)))"
    using min_offset_least [of "offsets_of (filter (in_partition (cu_stream c) (cu_partition c)) (bt_values messages))"]
    by simp
  then have "e \<le> u64_max" using assms(2) by (auto simp: in_offsets_of messages_u64_def)
  with assms(1) Some raise_floor_ok show ?thesis by (simp add: retained_cursor_def)
qed

lemma observe_retention_inv:
  assumes "cursors_inv cs" and "messages_u64 messages"
  shows "cursors_inv (observe_retention cs messages)"
proof -
  have "k = key_of (retained_cursor messages c) \<and> cursor_ok (cs_ack_window cs) (retained_cursor messages c)"
    if "map_of (cs_partitions cs) k = Some c" for k c
  proof -
    have "k = key_of c" "cursor_ok (cs_ack_window cs) c" using assms(1) that by (simp_all add: cursors_inv_def)
    with retained_cursor_ok [OF _ assms(2)] show ?thesis by metis
  qed
  with assms(1) show ?thesis by (auto simp: cursors_inv_def observe_retention_alt)
qed

text \<open>The log's answers are strictly increasing, so the frontiers read from it are.\<close>

lemma query_sorted:
  "set_matching_offsets lc ring cd logs s p f = Ok q \<Longrightarrow> sorted_wrt (<) (sq_offsets q)"
  by (auto simp: set_matching_offsets_def log_matching_offsets_def and_then_def Let_def strict_sorted_iff
      split: option.splits sum.splits prod.splits)

definition sorted_query :: "log_query \<Rightarrow> bool" where
  "sorted_query logs \<longleftrightarrow> (\<forall>s p f q. logs s p f = Ok q \<longrightarrow> sorted_wrt (<) (sq_offsets q))"

lemma queried_sorted: "sorted_query logs \<Longrightarrow> sorted_wrt (<) (queried_offsets logs f c)"
  by (auto simp: queried_offsets_def sorted_query_def split: sum.split)

definition sorted_frontiers :: "(string, u64 list) btree_map \<Rightarrow> bool" where
  "sorted_frontiers m \<longleftrightarrow> bt_wf m \<and> (\<forall>k fr. map_of m k = Some fr \<longrightarrow> sorted_wrt (<) fr)"

lemma sorted_frontiers_insert:
  "sorted_frontiers m \<Longrightarrow> sorted_wrt (<) fr \<Longrightarrow> sorted_frontiers (bt_insert k fr m)"
  by (simp add: sorted_frontiers_def)

lemma set_frontiers_inv:
  "cursors_inv cs \<Longrightarrow> sorted_frontiers m \<Longrightarrow> cursors_inv (cs\<lparr>cs_frontiers := m\<rparr>)"
  by (simp add: cursors_inv_def sorted_frontiers_def)

lemma cursors_inv_frontiers: "cursors_inv cs \<Longrightarrow> sorted_frontiers (cs_frontiers cs)"
  by (simp add: cursors_inv_def sorted_frontiers_def)

lemma ensure_frontiers_inv:
  assumes "cursors_inv cs" and "sorted_query logs"
  shows "cursors_inv (ensure_frontiers cs f logs)"
proof -
  have "sorted_frontiers m \<Longrightarrow> sorted_frontiers (fold (\<lambda>c. bt_insert (key_of c) (queried_offsets logs f c)) xs m)" for xs m
    by (induction xs arbitrary: m) (simp_all add: sorted_frontiers_insert queried_sorted [OF assms(2)])
  with assms(1) show ?thesis
    by (simp add: ensure_frontiers_def Let_def set_frontiers_inv cursors_inv_frontiers)
qed

lemma sorted_dropWhile: "sorted_wrt R xs \<Longrightarrow> sorted_wrt R (dropWhile P xs)"
  by (metis sorted_wrt_append takeWhile_dropWhile_id)

lemma scan_frontiers_inv:
  "sorted_frontiers m \<Longrightarrow> sorted_frontiers (snd (scan_frontiers cursors sequences leased m))"
proof (induction cursors sequences leased m rule: scan_frontiers.induct)
  case (1 sequences leased m)
  then show ?case by simp
next
  case (2 c cursors sequences leased m)
  show ?case
  proof (cases "map_of m (key_of c)")
    case None
    with 2 show ?thesis by simp
  next
    case (Some fr)
    with 2(3) have "sorted_wrt (<) (frontier_prune c sequences fr)"
      by (simp add: frontier_prune_def sorted_frontiers_def sorted_dropWhile)
    with 2(3) have "sorted_frontiers (bt_insert (key_of c) (frontier_prune c sequences fr) m)"
      by (rule sorted_frontiers_insert)
    from 2(2) [OF Some refl this] Some show ?thesis by (auto simp: Let_def split: prod.split)
  qed
qed

lemma next_indexed_inv:
  assumes "cursors_inv cs" and "sorted_query logs"
  shows "cursors_inv (snd (next_indexed_candidate cs f messages sequences logs leased))"
proof -
  let ?cs = "ensure_frontiers cs f logs"
  have inv: "cursors_inv ?cs" using assms by (rule ensure_frontiers_inv)
  then have "sorted_frontiers (snd (scan_frontiers (bt_values (cs_partitions ?cs)) sequences leased (cs_frontiers ?cs)))"
    by (intro scan_frontiers_inv cursors_inv_frontiers)
  then have "cursors_inv (?cs\<lparr>cs_frontiers := snd (scan_frontiers (bt_values (cs_partitions ?cs)) sequences leased (cs_frontiers ?cs))\<rparr>)"
    by (rule set_frontiers_inv [OF inv])
  then show ?thesis by (auto simp: next_indexed_candidate_def Let_def split: prod.split)
qed

section \<open>The cursors as a transition system\<close>

definition start_u64 :: "start_position \<Rightarrow> bool" where
  "start_u64 start \<longleftrightarrow> (\<forall>x. start = OffsetStart x \<longrightarrow> x \<le> u64_max)"

definition cursors_init :: "consumer_cursor_set \<Rightarrow> bool" where
  "cursors_init cs \<longleftrightarrow> (\<exists>f start w cat ms. start_u64 start \<and> messages_u64 ms \<and> cs = cursors_new f start w cat ms)"

inductive cursors_step :: "consumer_cursor_set \<Rightarrow> consumer_cursor_set \<Rightarrow> bool" where
  kstep_deliver: "cursors_step cs (mark_delivered cs r)"
| kstep_acknowledge: "(\<And>x. pub_offset r = Some x \<Longrightarrow> x \<le> u64_max) \<Longrightarrow> cursors_step cs (snd (acknowledge cs r f ms))"
| kstep_floor: "e \<le> u64_max \<Longrightarrow> cursors_step cs (snd (apply_retention_floor cs s p e))"
| kstep_publish: "cursors_step cs (observe_published_record cs f r)"
| kstep_remove: "cursors_step cs (remove_record cs s p x)"
| kstep_candidate: "messages_u64 ms \<Longrightarrow> cursors_step cs (snd (next_candidate cs f ms leased))"
| kstep_indexed: "cursors_step cs
    (snd (next_indexed_candidate cs f ms sequences (set_matching_offsets lc ring cd logs) is_leased))"

lemma starting_offset_u64:
  assumes "start_u64 start" and "\<forall>r\<in>set rs. \<forall>x. pub_offset r = Some x \<longrightarrow> x \<le> u64_max"
  shows "starting_offset start s p rs \<le> u64_max"
proof -
  have least: "n \<le> u64_max" if "min_offset (offsets_of (filter P rs')) = Some n" "set rs' \<subseteq> set rs" for P rs' n
    using min_offset_least [of "offsets_of (filter P rs')"] that assms(2) by (auto simp: in_offsets_of)
  have high: "(case m of None \<Rightarrow> 0 | Some m \<Rightarrow> sat_add64 m 1) \<le> u64_max" for m
    by (simp add: sat_simps split: option.split)
  show ?thesis
    using assms(1) high least
    by (auto simp: starting_offset_def Let_def start_u64_def unwrap_or_def sat_simps
        split: start_position.split option.split)
qed

lemma cursors_new_inv:
  assumes "start_u64 start" and "messages_u64 ms"
  shows "cursors_inv (cursors_new f start w cat ms)"
proof -
  have ok: "cursor_ok w (new_cursor start ms s p) \<and> key_of (new_cursor start ms s p) = cursor_key s p" for s p
    using starting_offset_u64 [OF assms(1)] assms(2)
    by (simp add: new_cursor_def cursor_ok_def key_of_def messages_u64_def)
  have "k = key_of c \<and> cursor_ok w c" if "map_of (cs_partitions (cursors_new f start w cat ms)) k = Some c" for k c
    using that ok by (auto simp: cursors_new_def dest!: map_of_SomeD)
  then show ?thesis by (simp add: cursors_inv_def cursors_new_def bt_wf_def [of "[]"])
qed

lemma next_candidate_inv: "cursors_inv cs \<Longrightarrow> messages_u64 ms \<Longrightarrow> cursors_inv (snd (next_candidate cs f ms leased))"
  by (simp add: next_candidate_def Let_def observe_retention_inv)

lemma log_sorted_query: "sorted_query (set_matching_offsets lc ring cd logs)"
  using query_sorted by (auto simp: sorted_query_def)

interpretation cursors: invariant_system cursors_init cursors_step cursors_inv
proof unfold_locales
  show "cursors_inv cs" if "cursors_init cs" for cs
    using that cursors_new_inv by (auto simp: cursors_init_def)
  show "cursors_inv cs'" if "cursors_inv cs" "cursors_step cs cs'" for cs cs'
    using that(2)
    by cases (simp_all add: that(1) mark_delivered_inv acknowledge_inv apply_retention_floor_inv
        observe_published_inv remove_record_inv next_candidate_inv next_indexed_inv log_sorted_query)
qed

text \<open>
  C34. An acknowledgement is safe: in every reachable state, when a record at or above its
  partition's committed offset is acknowledged, the committed offset does not move back, it
  moves past no pending offset that was not acknowledged, the record stays acknowledged or is
  committed, no more than the window of acknowledgements is kept, and no other partition's
  cursor changes.
\<close>

theorem acknowledge_skips_nothing:
  assumes "reaches cursors_init cursors_step cs" and "acknowledge cs r f ms = (Ok (), cs')"
    and "pub_stream r = Some s" and "pub_partition r = Some p" and "pub_offset r = Some x"
    and "map_of (cs_partitions cs) (cursor_key s p) = Some c"
    and "cu_committed_offset c \<le> x" and "x < u64_max"
  shows "\<exists>d. map_of (cs_partitions cs') (cursor_key s p) = Some d
    \<and> cu_committed_offset c \<le> cu_committed_offset d
    \<and> (\<forall>y \<in> pending_offsets cs f ms s p. cu_committed_offset c \<le> y \<and> y < cu_committed_offset d
         \<longrightarrow> y = x \<or> y \<in> set (cu_acknowledged_offsets c))
    \<and> (x < cu_committed_offset d \<or> x \<in> set (cu_acknowledged_offsets d))
    \<and> length (cu_acknowledged_offsets d) \<le> cs_ack_window cs
    \<and> (\<forall>k. k \<noteq> cursor_key s p \<longrightarrow> map_of (cs_partitions cs') k = map_of (cs_partitions cs) k)"
proof -
  have inv: "cursors_inv cs" using assms(1) by (rule cursors.reaches_inv)
  have c: "cursor_for cs r = Some c" using assms by (simp add: cursor_for_iff)
  have ident: "cu_stream c = s" "cu_partition c = p" using cursor_identity [OF inv assms(6)] by auto
  from acknowledge_Ok [OF inv assms(2) c assms(5,7)] assms(8) ident obtain d
    where cs': "cs' = put_cursor (cursor_key s p) d cs"
      and adv: "advanced (pending_offsets cs f ms s p)
        (c\<lparr>cu_acknowledged_offsets := insort_insert x (cu_acknowledged_offsets c)\<rparr>) d"
      and len: "length (cu_acknowledged_offsets d) \<le> cs_ack_window cs"
    by (auto simp: key_of_def)
  have wf: "bt_wf (cs_partitions cs)" using inv by (simp add: cursors_inv_def)
  have "x \<in> set (insort_insert x (cu_acknowledged_offsets c))" by (simp add: set_insort_insert)
  then have stays: "x < cu_committed_offset d \<or> x \<in> set (cu_acknowledged_offsets d)"
    using adv assms(8) unfolding advanced_def by force
  have passed: "\<forall>y \<in> pending_offsets cs f ms s p. cu_committed_offset c \<le> y \<and> y < cu_committed_offset d
         \<longrightarrow> y = x \<or> y \<in> set (cu_acknowledged_offsets c)"
    and mono: "cu_committed_offset c \<le> cu_committed_offset d"
    using adv by (auto simp: advanced_def set_insort_insert)
  show ?thesis
    using mono passed stays len wf by (intro exI [of _ d]) (simp add: cs' put_cursor_def)
qed

definition sample_cursors :: consumer_cursor_set where
  "sample_cursors = cursors_new ''orders/*'' Earliest 2 \<lparr>sc_streams = [sample_stream], sc_bindings = empty_trie\<rparr> []"

definition sample_publish :: "u64 \<Rightarrow> publish_record" where
  "sample_publish x =
     \<lparr>pub_seq = x, pub_namespace = ''default'', pub_stream = Some ''orders'', pub_partition = Some 0, pub_offset = Some x,
      pub_subject = ''orders/eu'', pub_key = None, pub_headers = [], pub_timestamp_ms = 0, pub_reply_to = None,
      pub_payload = [], pub_partitioning_epoch = 1, pub_leader_epoch = 1\<rparr>"

lemma sample_cursors_reached: "reaches cursors_init cursors_step sample_cursors"
proof -
  have "start_u64 Earliest" "messages_u64 []" by (simp_all add: start_u64_def messages_u64_def)
  then show ?thesis
    unfolding sample_cursors_def cursors_init_def by (blast intro: reaches_init)
qed

lemma sample_cursor:
  "map_of (cs_partitions sample_cursors) (cursor_key ''orders'' 0) = Some (new_cursor Earliest [] ''orders'' 0)"
proof -
  have "streams_for_filter \<lparr>sc_streams = [sample_stream], sc_bindings = empty_trie\<rparr> ''orders/*'' = [sample_stream]"
    by code_simp
  then show ?thesis
    by (simp add: sample_cursors_def cursors_new_def sample_stream_def cursor_key_inj upt_rec)
qed

theorem acknowledge_skips_nothing_witness:
  "\<exists>cs' d. acknowledge sample_cursors (sample_publish 0) ''orders/*'' [] = (Ok (), cs')
     \<and> map_of (cs_partitions cs') (cursor_key ''orders'' 0) = Some d
     \<and> (0 < cu_committed_offset d \<or> 0 \<in> set (cu_acknowledged_offsets d)) \<and> length (cu_acknowledged_offsets d) \<le> 2"
proof -
  have r: "pub_stream (sample_publish 0) = Some ''orders''" "pub_partition (sample_publish 0) = Some 0"
    "pub_offset (sample_publish 0) = Some 0"
    by (simp_all add: sample_publish_def)
  have c: "cu_committed_offset (new_cursor Earliest [] ''orders'' 0) \<le> 0"
    by (simp add: new_cursor_def starting_offset_def Let_def)
  have "cs_ack_window sample_cursors = 2" "cs_frontiers sample_cursors = []"
    by (simp_all add: sample_cursors_def cursors_new_def)
  moreover obtain cs' where run: "acknowledge sample_cursors (sample_publish 0) ''orders/*'' [] = (Ok (), cs')"
    using r sample_cursor calculation
    by (simp add: acknowledge_def cursor_for_def cursor_for_key_def new_cursor_def starting_offset_def Let_def)
  ultimately show ?thesis
    using acknowledge_skips_nothing [OF sample_cursors_reached run r sample_cursor c] by (auto simp: u64_max_def)
qed

section \<open>Acknowledgements of removed records\<close>

text \<open>
  Compaction removes a record from the frontier but not from the acknowledged offsets: such an
  offset is never passed by the advance loop and keeps its place in the acknowledgement window,
  however far the committed offset moves.
\<close>

lemma compacted_acknowledgement_stays:
  assumes "x \<in> set (cu_acknowledged_offsets c)" and "x \<notin> set fr"
  shows "x \<in> set (cu_acknowledged_offsets (advance_committed_from_frontier c fr))"
proof -
  have "x \<in> set (cu_acknowledged_offsets c) \<Longrightarrow>
      x \<in> set (cu_acknowledged_offsets (advance_loop (\<lambda>c. next_frontier_offset c fr) c))"
  proof (induction "\<lambda>c. next_frontier_offset c fr" c rule: advance_loop.induct)
    case (1 c)
    show ?case
    proof (cases "\<exists>n. next_frontier_offset c fr = Some n \<and> n \<in> set (cu_acknowledged_offsets c)")
      case False
      with 1(2) show ?thesis by (subst advance_loop.simps) (auto split: option.split)
    next
      case True
      then obtain n where n: "next_frontier_offset c fr = Some n" "n \<in> set (cu_acknowledged_offsets c)" by blast
      then have "n \<noteq> x" using assms(2) find_SomeD by (fastforce simp: next_frontier_offset_def)
      with 1(1) [OF n(1)] n 1(2) show ?thesis by (subst advance_loop.simps) simp
    qed
  qed
  with assms(1) show ?thesis by (simp add: advance_committed_from_frontier_def)
qed

end
