(* ===== verification/Cursor_Search.thy ===== *)
theory Cursor_Search
  imports Consumer_Cursor
begin

text \<open>
  The consumer's two searches for the next message, from \<open>crates/server/src/consumer_cursor.rs\<close>:
  \<open>next_candidate\<close> looks at all messages, \<open>next_indexed_candidate\<close> at the front of each partition's
  frontier. The theorem is their equivalence, under what the broker keeps true between its
  messages, its sequence index and the frontiers.
\<close>

section \<open>The indexed search finds what a scan of all messages finds\<close>

lemma min_by_key_unique:
  assumes "set ys \<subseteq> set xs" and "\<forall>x\<in>set xs. \<exists>y\<in>set ys. f y \<le> f x" and "inj_on f (set xs)"
  shows "min_by_key f xs = min_by_key f ys"
proof (cases "min_by_key f xs")
  case None
  with assms(1) show ?thesis by simp
next
  case (Some x)
  then have x: "x \<in> set xs" "\<forall>z\<in>set xs. f x \<le> f z" using min_by_key_Some [OF Some] by auto
  with assms(2) have "ys \<noteq> []" by auto
  then obtain y where y: "min_by_key f ys = Some y" by (metis min_by_key_None not_None_eq)
  then have "y \<in> set ys" "\<forall>z\<in>set ys. f y \<le> f z" using min_by_key_Some [OF y] by auto
  with x assms(1,2) have "f x = f y" by (meson order_antisym order_trans subset_iff)
  with assms(1,3) x(1) \<open>y \<in> set ys\<close> have "x = y" by (auto dest: inj_onD)
  with Some y show ?thesis by simp
qed

lemma min_by_key_map: "min_by_key f (map g xs) = map_option g (min_by_key (\<lambda>x. f (g x)) xs)"
  by (induction xs) (auto split: option.splits)

lemma find_map_least:
  fixes xs :: "nat list"
  assumes "sorted_wrt (<) xs" and "x \<in> set xs" and "g x \<noteq> None"
  shows "\<exists>y\<in>set xs. find_map g xs = g y \<and> g y \<noteq> None \<and> y \<le> x"
  using assms
proof (induction xs)
  case (Cons z xs)
  then show ?case by (cases "g z") (auto simp: less_imp_le)
qed simp

lemma in_dropWhile: "x \<in> set xs \<Longrightarrow> \<not> P x \<Longrightarrow> x \<in> set (dropWhile P xs)"
  by (induction xs) auto

lemma dropWhile_ge:
  fixes m :: nat
  assumes "sorted_wrt (<) xs" and "\<And>x. x < m \<Longrightarrow> P x" and "z \<in> set (dropWhile P xs)"
  shows "m \<le> z"
  using assms
proof (induction xs)
  case (Cons a xs)
  show ?case
  proof (cases "P a")
    case True
    with Cons show ?thesis by simp
  next
    case False
    with Cons.prems(2) have "m \<le> a" by (meson not_le)
    with Cons.prems False show ?thesis by auto
  qed
qed simp

lemma frontier_prune_ge:
  assumes "sorted_wrt (<) fr" and "z \<in> set (frontier_prune c sequences fr)"
  shows "z \<in> set fr \<and> cu_committed_offset c \<le> z"
proof -
  let ?P = "\<lambda>x. x < cu_committed_offset c \<or> \<not> bt_contains (cu_stream c, cu_partition c, x) sequences"
  have z: "z \<in> set (dropWhile ?P fr)" using assms(2) by (simp add: frontier_prune_def)
  have "cu_committed_offset c \<le> z" by (rule dropWhile_ge [OF assms(1) _ z]) simp
  with z set_dropWhileD show ?thesis by metis
qed

text \<open>The scan visits each partition's own frontier.\<close>

definition partition_candidate ::
  "(string, u64 list) btree_map \<Rightarrow> (string \<times> u32 \<times> u64, u64) btree_map \<Rightarrow> (u64 \<Rightarrow> bool) \<Rightarrow> partition_cursor \<Rightarrow> u64 option" where
  "partition_candidate m sequences leased c =
     Option.bind (map_of m (key_of c)) (\<lambda>fr. frontier_candidate c sequences leased (frontier_prune c sequences fr))"

lemma scan_frontiers_found:
  "bt_wf m \<Longrightarrow> distinct (map key_of cursors) \<Longrightarrow>
     seq \<in> set (fst (scan_frontiers cursors sequences leased m))
     \<longleftrightarrow> (\<exists>c\<in>set cursors. partition_candidate m sequences leased c = Some seq)"
proof (induction cursors arbitrary: m)
  case Nil
  then show ?case by simp
next
  case (Cons c cursors)
  show ?case
  proof (cases "map_of m (key_of c)")
    case None
    with Cons show ?thesis by (simp add: partition_candidate_def)
  next
    case (Some fr)
    let ?m = "bt_insert (key_of c) (frontier_prune c sequences fr) m"
    have "partition_candidate ?m sequences leased d = partition_candidate m sequences leased d"
      if "d \<in> set cursors" for d
    proof -
      have "key_of d \<noteq> key_of c" using that Cons.prems(2) by (metis distinct.simps(2) imageI list.map(2) set_map)
      with Cons.prems(1) show ?thesis by (simp add: partition_candidate_def)
    qed
    with Cons.IH [of ?m] Cons.prems have
      "seq \<in> set (fst (scan_frontiers cursors sequences leased ?m))
        \<longleftrightarrow> (\<exists>d\<in>set cursors. partition_candidate m sequences leased d = Some seq)"
      by simp
    with Some show ?thesis
      by (auto simp: Let_def partition_candidate_def split: prod.split option.split)
  qed
qed

text \<open>
  What the broker keeps between its structures: the sequence index has exactly the positions of
  the messages, and each frontier, above the committed offset and restricted to indexed
  offsets, has the matching messages of its partition.
\<close>

definition sequences_agree :: "message_map \<Rightarrow> (string \<times> u32 \<times> u64, u64) btree_map \<Rightarrow> bool" where
  "sequences_agree ms sequences \<longleftrightarrow> bt_wf ms
     \<and> (\<forall>s p x seq. map_of sequences (s, p, x) = Some seq \<longleftrightarrow>
          (\<exists>r. map_of ms seq = Some r \<and> in_partition s p r \<and> pub_offset r = Some x))"

definition frontier_agrees ::
  "string \<Rightarrow> message_map \<Rightarrow> (string \<times> u32 \<times> u64, u64) btree_map \<Rightarrow> partition_cursor \<Rightarrow> u64 list \<Rightarrow> bool" where
  "frontier_agrees f ms sequences c fr \<longleftrightarrow>
     {x \<in> set fr. cu_committed_offset c \<le> x \<and> bt_contains (cu_stream c, cu_partition c, x) sequences}
     = {x \<in> matching_in_messages f ms (cu_stream c) (cu_partition c). cu_committed_offset c \<le> x}"

definition frontiers_agree ::
  "string \<Rightarrow> message_map \<Rightarrow> (string \<times> u32 \<times> u64, u64) btree_map \<Rightarrow> consumer_cursor_set \<Rightarrow> bool" where
  "frontiers_agree f ms sequences cs \<longleftrightarrow>
     (\<forall>k c. map_of (cs_partitions cs) k = Some c \<longrightarrow>
        (\<exists>fr. map_of (cs_frontiers cs) k = Some fr \<and> frontier_agrees f ms sequences c fr))"

lemma frontier_agreesD:
  assumes "frontier_agrees f ms sequences c fr" and "cu_committed_offset c \<le> x"
    and "map_of sequences (cu_stream c, cu_partition c, x) = Some seq"
  shows "x \<in> set fr \<longleftrightarrow> x \<in> matching_in_messages f ms (cu_stream c) (cu_partition c)"
proof -
  have "x \<in> {x \<in> set fr. cu_committed_offset c \<le> x \<and> bt_contains (cu_stream c, cu_partition c, x) sequences}
      \<longleftrightarrow> x \<in> {x \<in> matching_in_messages f ms (cu_stream c) (cu_partition c). cu_committed_offset c \<le> x}"
    using assms(1) by (simp only: frontier_agrees_def)
  with assms(2,3) show ?thesis by (simp add: bt_contains_def)
qed

text \<open>A message the consumer may be given.\<close>

definition deliverable ::
  "string \<Rightarrow> message_map \<Rightarrow> u64 set \<Rightarrow> partition_cursor \<Rightarrow> u64 \<Rightarrow> u64 \<Rightarrow> publish_record \<Rightarrow> bool" where
  "deliverable f ms leased c x seq r \<longleftrightarrow> map_of ms seq = Some r \<and> seq \<notin> leased \<and> matches f (pub_subject r)
     \<and> in_partition (cu_stream c) (cu_partition c) r \<and> pub_offset r = Some x
     \<and> cu_committed_offset c \<le> x \<and> x \<notin> set (cu_acknowledged_offsets c)"

lemma message_at:
  assumes "sequences_agree ms sequences" and "map_of sequences (s, p, x) = Some seq"
    and "x \<in> matching_in_messages f ms s p"
  shows "\<exists>r. map_of ms seq = Some r \<and> in_partition s p r \<and> pub_offset r = Some x \<and> matches f (pub_subject r)"
proof -
  obtain r where r: "r \<in> set (bt_values ms)" "in_partition s p r" "matches f (pub_subject r)" "pub_offset r = Some x"
    using assms(3) by (auto simp: matching_in_messages_def)
  then obtain seq' where "map_of ms seq' = Some r"
    using assms(1) bt_value_iff [of ms r] by (auto simp: sequences_agree_def)
  then have "map_of sequences (s, p, x) = Some seq'" using assms(1) r by (auto simp: sequences_agree_def)
  with assms(2) \<open>map_of ms seq' = Some r\<close> r show ?thesis by auto
qed

text \<open>A partition's candidate is its deliverable message with the least offset.\<close>

lemma partition_candidate_sound:
  assumes seqs: "sequences_agree ms sequences" and fr: "map_of m (key_of c) = Some fr" "sorted_wrt (<) fr"
    and agree: "frontier_agrees f ms sequences c fr"
    and found: "partition_candidate m sequences (\<lambda>seq. seq \<in> leased) c = Some seq"
  shows "\<exists>x r. deliverable f ms leased c x seq r"
proof -
  from found fr(1) obtain x where x: "x \<in> set (frontier_prune c sequences fr)" "x \<notin> set (cu_acknowledged_offsets c)"
    "map_of sequences (cu_stream c, cu_partition c, x) = Some seq" "seq \<notin> leased"
    by (auto simp: partition_candidate_def frontier_candidate_def dest!: find_map_Some split: if_splits option.splits)
  have le: "x \<in> set fr" "cu_committed_offset c \<le> x" using frontier_prune_ge [OF fr(2) x(1)] by auto
  then have "x \<in> matching_in_messages f ms (cu_stream c) (cu_partition c)"
    using frontier_agreesD [OF agree _ x(3)] by blast
  from message_at [OF seqs x(3) this] x le show ?thesis by (auto simp: deliverable_def)
qed

lemma partition_candidate_least:
  assumes seqs: "sequences_agree ms sequences" and fr: "map_of m (key_of c) = Some fr" "sorted_wrt (<) fr"
    and agree: "frontier_agrees f ms sequences c fr" and d: "deliverable f ms leased c x seq r"
  shows "\<exists>y seq' r'. partition_candidate m sequences (\<lambda>seq. seq \<in> leased) c = Some seq'
    \<and> deliverable f ms leased c y seq' r' \<and> y \<le> x"
proof -
  let ?g = "\<lambda>offset. if offset \<in> set (cu_acknowledged_offsets c) then None
       else case map_of sequences (cu_stream c, cu_partition c, offset) of
              None \<Rightarrow> None | Some seq \<Rightarrow> if \<not> seq \<in> leased then Some seq else None"
  let ?p = "frontier_prune c sequences fr"
  have s: "map_of sequences (cu_stream c, cu_partition c, x) = Some seq"
    using seqs d by (auto simp: sequences_agree_def deliverable_def)
  have rs: "r \<in> set (bt_values ms)"
    using d seqs bt_value_iff [of ms r] by (auto simp: deliverable_def sequences_agree_def)
  then have "x \<in> matching_in_messages f ms (cu_stream c) (cu_partition c)"
    using d by (auto simp: matching_in_messages_def deliverable_def)
  then have "x \<in> set fr" using frontier_agreesD [OF agree _ s] d by (simp add: deliverable_def)
  then have "x \<in> set ?p"
    using d s by (auto simp: frontier_prune_def bt_contains_def deliverable_def intro!: in_dropWhile)
  moreover have "?g x \<noteq> None" using d s by (simp add: deliverable_def)
  moreover have "sorted_wrt (<) ?p" using fr(2) by (simp add: frontier_prune_def sorted_dropWhile)
  ultimately obtain y where y: "y \<in> set ?p" "find_map ?g ?p = ?g y" "?g y \<noteq> None" "y \<le> x"
    using find_map_least [of ?p x ?g] by blast
  then obtain seq' where seq': "?g y = Some seq'" by blast
  then have cand: "partition_candidate m sequences (\<lambda>seq. seq \<in> leased) c = Some seq'"
    using y(2) fr(1) by (simp add: partition_candidate_def frontier_candidate_def)
  have le: "y \<in> set fr" "cu_committed_offset c \<le> y" using frontier_prune_ge [OF fr(2) y(1)] by auto
  have sy: "map_of sequences (cu_stream c, cu_partition c, y) = Some seq'" "seq' \<notin> leased" "y \<notin> set (cu_acknowledged_offsets c)"
    using seq' by (auto split: if_splits option.splits)
  then have "y \<in> matching_in_messages f ms (cu_stream c) (cu_partition c)"
    using frontier_agreesD [OF agree le(2)] le(1) by blast
  from message_at [OF seqs sy(1) this] sy le obtain r' where "deliverable f ms leased c y seq' r'"
    by (auto simp: deliverable_def)
  with cand y(4) show ?thesis by blast
qed

text \<open>The reference search: retention floors do not hide a message that is present.\<close>

lemma retained_same:
  assumes "r \<in> set (bt_values ms)" and "in_partition (cu_stream c) (cu_partition c) r" and "pub_offset r = Some x"
  shows "cu_committed_offset (retained_cursor ms c) \<le> x \<and> x \<notin> set (cu_acknowledged_offsets (retained_cursor ms c))
    \<longleftrightarrow> cu_committed_offset c \<le> x \<and> x \<notin> set (cu_acknowledged_offsets c)"
proof -
  let ?os = "offsets_of (filter (in_partition (cu_stream c) (cu_partition c)) (bt_values ms))"
  have x: "x \<in> set ?os" using assms by (auto simp: in_offsets_of)
  then obtain e where e: "min_offset ?os = Some e" "e \<le> x"
    using min_offset_least [of ?os] by (cases "min_offset ?os") auto
  then show ?thesis by (auto simp: retained_cursor_def raise_floor_def)
qed

lemma observed_cursor:
  "map_of (cs_partitions (observe_retention cs ms)) k = map_option (retained_cursor ms) (map_of (cs_partitions cs) k)"
  by (simp add: observe_retention_alt)

definition scan_candidates :: "consumer_cursor_set \<Rightarrow> string \<Rightarrow> message_map \<Rightarrow> u64 set \<Rightarrow> (u64 \<times> publish_record) list" where
  "scan_candidates cs f ms leased = filter (\<lambda>(seq, r). seq \<notin> leased \<and> matches f (pub_subject r)
      \<and> (case (cursor_for (observe_retention cs ms) r, pub_offset r) of
           (Some cursor, Some offset) \<Rightarrow>
             offset \<ge> cu_committed_offset cursor \<and> offset \<notin> set (cu_acknowledged_offsets cursor)
         | _ \<Rightarrow> False)) ms"

lemma scan_candidates_iff:
  assumes inv: "cursors_inv cs" and wf: "bt_wf ms"
  shows "(seq, r) \<in> set (scan_candidates cs f ms leased)
    \<longleftrightarrow> (\<exists>k c x. map_of (cs_partitions cs) k = Some c \<and> deliverable f ms leased c x seq r)"
proof -
  have mem: "(seq, r) \<in> set ms \<longleftrightarrow> map_of ms seq = Some r"
    using map_of_eq_Some_iff [OF bt_wf_distinct [OF wf], of seq r] by blast
  have val: "r \<in> set (bt_values ms)" if "map_of ms seq = Some r"
    using that mem by force
  show ?thesis
  proof
    assume "(seq, r) \<in> set (scan_candidates cs f ms leased)"
    then obtain d x where d: "cursor_for (observe_retention cs ms) r = Some d" "pub_offset r = Some x"
      "cu_committed_offset d \<le> x" "x \<notin> set (cu_acknowledged_offsets d)"
      and rest: "map_of ms seq = Some r" "seq \<notin> leased" "matches f (pub_subject r)"
      by (auto simp: scan_candidates_def mem split: option.splits)
    then obtain s p c where c: "pub_stream r = Some s" "pub_partition r = Some p"
      "map_of (cs_partitions cs) (cursor_key s p) = Some c" "d = retained_cursor ms c"
      by (auto simp: cursor_for_iff observed_cursor)
    have part: "in_partition (cu_stream c) (cu_partition c) r"
      using cursor_identity [OF inv c(3)] c by (simp add: in_partition_def)
    have "cu_committed_offset c \<le> x \<and> x \<notin> set (cu_acknowledged_offsets c)"
      using retained_same [OF val part d(2)] rest(1) d(3,4) c(4) by simp
    with rest d(2) part c(3) show "\<exists>k c x. map_of (cs_partitions cs) k = Some c \<and> deliverable f ms leased c x seq r"
      by (auto simp: deliverable_def)
  next
    assume "\<exists>k c x. map_of (cs_partitions cs) k = Some c \<and> deliverable f ms leased c x seq r"
    then obtain k c x where c: "map_of (cs_partitions cs) k = Some c" and d: "deliverable f ms leased c x seq r" by blast
    have "k = key_of c" using inv c by (simp add: cursors_inv_def)
    with c d have "cursor_for (observe_retention cs ms) r = Some (retained_cursor ms c)"
      by (auto simp: cursor_for_iff observed_cursor deliverable_def in_partition_def key_of_def)
    moreover have "cu_committed_offset (retained_cursor ms c) \<le> x \<and> x \<notin> set (cu_acknowledged_offsets (retained_cursor ms c))"
      using retained_same [of r ms c x] val d by (simp add: deliverable_def)
    ultimately show "(seq, r) \<in> set (scan_candidates cs f ms leased)"
      using d mem by (simp add: scan_candidates_def deliverable_def)
  qed
qed

lemma next_candidate_scan:
  "fst (next_candidate cs f ms leased)
     = map_option fst (min_by_key snd (map (\<lambda>(seq, r). (seq, record_position r)) (scan_candidates cs f ms leased)))"
proof -
  have "(\<lambda>x. snd (case x of (seq, r) \<Rightarrow> (seq, record_position r))) = (\<lambda>(_, r). record_position r)"
    by (auto simp: fun_eq_iff)
  then show ?thesis
    by (simp add: next_candidate_def scan_candidates_def Let_def min_by_key_map option.map_comp comp_def case_prod_unfold)
qed

lemma deliverable_position:
  "deliverable f ms leased c x seq r \<Longrightarrow> record_position r = (cu_stream c, cu_partition c, x)"
  by (simp add: deliverable_def record_position_def in_partition_def unwrap_or_def)

lemma deliverable_sequence:
  "sequences_agree ms sequences \<Longrightarrow> deliverable f ms leased c x seq r \<Longrightarrow>
     map_of sequences (cu_stream c, cu_partition c, x) = Some seq"
  by (auto simp: sequences_agree_def deliverable_def)

text \<open>The positions the indexed search compares.\<close>

definition indexed_positions ::
  "consumer_cursor_set \<Rightarrow> message_map \<Rightarrow> (string \<times> u32 \<times> u64, u64) btree_map \<Rightarrow> u64 set \<Rightarrow> (u64 \<times> string \<times> u32 \<times> u64) list" where
  "indexed_positions cs ms sequences leased =
     List.map_filter (\<lambda>seq. map_option (\<lambda>r. (seq, record_position r)) (map_of ms seq))
       (fst (scan_frontiers (bt_values (cs_partitions cs)) sequences (\<lambda>seq. seq \<in> leased) (cs_frontiers cs)))"

lemma next_indexed_scan:
  "fst (next_indexed_candidate cs f ms sequences logs (\<lambda>seq. seq \<in> leased))
     = map_option fst (min_by_key snd (indexed_positions (ensure_frontiers cs f logs) ms sequences leased))"
  by (simp add: next_indexed_candidate_def indexed_positions_def Let_def split: prod.split)

lemma in_indexed_positions:
  assumes inv: "cursors_inv cs"
  shows "e \<in> set (indexed_positions cs ms sequences leased)
    \<longleftrightarrow> (\<exists>k c r. map_of (cs_partitions cs) k = Some c \<and> map_of ms (fst e) = Some r \<and> snd e = record_position r
          \<and> partition_candidate (cs_frontiers cs) sequences (\<lambda>seq. seq \<in> leased) c = Some (fst e))"
proof -
  have wf: "bt_wf (cs_partitions cs)" "bt_wf (cs_frontiers cs)" using inv by (simp_all add: cursors_inv_def)
  have "key_of c = k" if "(k, c) \<in> set (cs_partitions cs)" for k c
    using inv that map_of_eq_Some_iff [OF bt_wf_distinct [OF wf(1)], of k c] by (auto simp: cursors_inv_def)
  then have "map key_of (bt_values (cs_partitions cs)) = bt_keys (cs_partitions cs)" by auto
  then have d: "distinct (map key_of (bt_values (cs_partitions cs)))" using bt_wf_distinct [OF wf(1)] by metis
  have c: "c \<in> set (bt_values (cs_partitions cs)) \<longleftrightarrow> (\<exists>k. map_of (cs_partitions cs) k = Some c)" for c
    using bt_value_iff [OF wf(1), of c] by simp
  have "e \<in> set (indexed_positions cs ms sequences leased)
      \<longleftrightarrow> (\<exists>r. map_of ms (fst e) = Some r \<and> snd e = record_position r
        \<and> fst e \<in> set (fst (scan_frontiers (bt_values (cs_partitions cs)) sequences (\<lambda>seq. seq \<in> leased) (cs_frontiers cs))))"
    by (cases e) (force simp: indexed_positions_def List.map_filter_def)
  then show ?thesis unfolding scan_frontiers_found [OF wf(2) d] using c by blast
qed

definition scan_positions ::
  "consumer_cursor_set \<Rightarrow> string \<Rightarrow> message_map \<Rightarrow> u64 set \<Rightarrow> (u64 \<times> string \<times> u32 \<times> u64) list" where
  "scan_positions cs f ms leased = map (\<lambda>(seq, r). (seq, record_position r)) (scan_candidates cs f ms leased)"

lemma in_scan_positions:
  assumes "cursors_inv cs" and "bt_wf ms"
  shows "e \<in> set (scan_positions cs f ms leased) \<longleftrightarrow> (\<exists>k c x r. map_of (cs_partitions cs) k = Some c
    \<and> deliverable f ms leased c x (fst e) r \<and> snd e = record_position r)"
  using scan_candidates_iff [OF assms, of "fst e" _ f leased] by (cases e) (force simp: scan_positions_def)

lemma agreeing_frontier:
  assumes "cursors_inv cs" and "frontiers_agree f ms sequences cs" and "map_of (cs_partitions cs) k = Some c"
  shows "\<exists>fr. map_of (cs_frontiers cs) (key_of c) = Some fr \<and> sorted_wrt (<) fr \<and> frontier_agrees f ms sequences c fr"
  using assms by (fastforce simp: frontiers_agree_def cursors_inv_def)

lemma indexed_positions_sound:
  assumes inv: "cursors_inv cs" and seqs: "sequences_agree ms sequences" and agree: "frontiers_agree f ms sequences cs"
  shows "set (indexed_positions cs ms sequences leased) \<subseteq> set (scan_positions cs f ms leased)"
proof
  fix e
  have wf: "bt_wf ms" using seqs by (simp add: sequences_agree_def)
  assume "e \<in> set (indexed_positions cs ms sequences leased)"
  then obtain k c r where e: "map_of (cs_partitions cs) k = Some c" "map_of ms (fst e) = Some r"
    "snd e = record_position r" "partition_candidate (cs_frontiers cs) sequences (\<lambda>seq. seq \<in> leased) c = Some (fst e)"
    unfolding in_indexed_positions [OF inv] by blast
  from agreeing_frontier [OF inv agree e(1)] obtain q where "map_of (cs_frontiers cs) (key_of c) = Some q"
    "sorted_wrt (<) q" "frontier_agrees f ms sequences c q" by blast
  from partition_candidate_sound [OF seqs this e(4)] e show "e \<in> set (scan_positions cs f ms leased)"
    unfolding in_scan_positions [OF inv wf] by (auto simp: deliverable_def)
qed

lemma indexed_positions_cover:
  assumes inv: "cursors_inv cs" and seqs: "sequences_agree ms sequences" and agree: "frontiers_agree f ms sequences cs"
    and "e \<in> set (scan_positions cs f ms leased)"
  shows "\<exists>e'\<in>set (indexed_positions cs ms sequences leased). snd e' \<le> snd e"
proof -
  have wf: "bt_wf ms" using seqs by (simp add: sequences_agree_def)
  obtain k c x r where e: "map_of (cs_partitions cs) k = Some c" "deliverable f ms leased c x (fst e) r"
    "snd e = record_position r"
    using assms(4) unfolding in_scan_positions [OF inv wf] by blast
  from agreeing_frontier [OF inv agree e(1)] obtain q where "map_of (cs_frontiers cs) (key_of c) = Some q"
    "sorted_wrt (<) q" "frontier_agrees f ms sequences c q" by blast
  from partition_candidate_least [OF seqs this e(2)] obtain y seq' r'
    where y: "partition_candidate (cs_frontiers cs) sequences (\<lambda>seq. seq \<in> leased) c = Some seq'"
      "deliverable f ms leased c y seq' r'" "y \<le> x" by blast
  have "(seq', record_position r') \<in> set (indexed_positions cs ms sequences leased)"
    unfolding in_indexed_positions [OF inv] using e(1) y(1,2) by (auto simp: deliverable_def)
  moreover have "record_position r' \<le> record_position r"
    using deliverable_position [OF e(2)] deliverable_position [OF y(2)] y(3) by simp
  ultimately show ?thesis using e(3) by (metis snd_conv)
qed

lemma scan_positions_inj:
  assumes inv: "cursors_inv cs" and seqs: "sequences_agree ms sequences"
  shows "inj_on snd (set (scan_positions cs f ms leased))"
proof (rule inj_onI)
  have wf: "bt_wf ms" using seqs by (simp add: sequences_agree_def)
  fix e e'
  assume es: "e \<in> set (scan_positions cs f ms leased)" "e' \<in> set (scan_positions cs f ms leased)" "snd e = snd e'"
  from es(1) obtain c x r where e: "deliverable f ms leased c x (fst e) r" "snd e = record_position r"
    unfolding in_scan_positions [OF inv wf] by blast
  from es(2) obtain c' x' r' where e': "deliverable f ms leased c' x' (fst e') r'" "snd e' = record_position r'"
    unfolding in_scan_positions [OF inv wf] by blast
  have "(cu_stream c, cu_partition c, x) = (cu_stream c', cu_partition c', x')"
    using deliverable_position [OF e(1)] deliverable_position [OF e'(1)] e(2) e'(2) es(3) by simp
  then have "fst e = fst e'"
    using deliverable_sequence [OF seqs e(1)] deliverable_sequence [OF seqs e'(1)] by simp
  with es(3) show "e = e'" by (simp add: prod_eq_iff)
qed

lemma ensure_frontiers_partitions: "cs_partitions (ensure_frontiers cs f logs) = cs_partitions cs"
  by (simp add: ensure_frontiers_def Let_def)

lemma scan_positions_ensure: "scan_positions (ensure_frontiers cs f logs) g ms leased = scan_positions cs g ms leased"
proof -
  have "cursor_for (observe_retention (ensure_frontiers cs f logs) ms) = cursor_for (observe_retention cs ms)"
    by (rule ext) (simp add: cursor_for_def observed_cursor [abs_def] ensure_frontiers_partitions)
  then show ?thesis by (simp add: scan_positions_def scan_candidates_def)
qed


lemma find_unique:
  assumes "x \<in> set xs" and "P x" and "\<And>y. y \<in> set xs \<Longrightarrow> P y \<Longrightarrow> y = x"
  shows "find P xs = Some x"
proof (cases "find P xs")
  case None
  with assms(1,2) show ?thesis by (auto simp: find_None_iff)
next
  case (Some y)
  with assms(3) [of y] find_SomeD [OF Some] show ?thesis by simp
qed

text \<open>A frontier that was missing is what the log returned.\<close>

lemma ensure_frontiers_lookup:
  assumes inv: "cursors_inv cs" and c: "map_of (cs_partitions cs) k = Some c" and "map_of (cs_frontiers cs) k = None"
  shows "map_of (cs_frontiers (ensure_frontiers cs f logs)) k = Some (queried_offsets logs f c)"
proof -
  let ?missing = "filter (\<lambda>cursor. \<not> bt_contains (key_of cursor) (cs_frontiers cs)) (bt_values (cs_partitions cs))"
  have k: "k = key_of c" using inv c by (simp add: cursors_inv_def)
  have wf: "bt_wf (cs_partitions cs)" "bt_wf (cs_frontiers cs)" using inv by (simp_all add: cursors_inv_def)
  have mem: "c \<in> set ?missing" using c assms(3) k bt_value_iff [OF wf(1), of c] by (auto simp: bt_contains_def)
  have same: "d = c" if "d \<in> set ?missing" "key_of d = k" for d
  proof -
    from that(1) bt_value_iff [OF wf(1), of d] obtain k' where "map_of (cs_partitions cs) k' = Some d" by auto
    moreover from this inv have "k' = key_of d" by (simp add: cursors_inv_def)
    ultimately show ?thesis using that(2) c by simp
  qed
  have "find (\<lambda>d. key_of d = k) (rev ?missing) = Some c"
  proof (rule find_unique)
    show "c \<in> set (rev ?missing)" using mem by (simp only: set_rev)
    show "key_of c = k" using k by (rule sym)
    show "d = c" if "d \<in> set (rev ?missing)" "key_of d = k" for d
      using same [of d] that by (simp only: set_rev)
  qed
  then show ?thesis by (simp add: ensure_frontiers_def Let_def bt.get_fold_put [OF wf(2)])
qed

definition sample_logs :: partition_log_set where
  "sample_logs = [((''orders'', 0), \<lparr>il_sealed = [], il_active_subjects = [(''orders/eu'', 0)]\<rparr>)]"

lemma sample_match: "matches ''orders/*'' ''orders/eu''"
  by code_simp

lemma sample_query:
  "queried_offsets (set_matching_offsets sample_codec None plain_index_codec sample_logs) ''orders/*''
     (new_cursor Earliest [] ''orders'' p) = (if p = 0 then [0] else [])"
  by (simp add: queried_offsets_def new_cursor_def set_matching_offsets_def sample_logs_def log_matching_offsets_def
      active_matching_offsets_def scan_offsets_def sample_match)

lemma sample_cursor_only:
  "map_of (cs_partitions sample_cursors) k = Some c \<Longrightarrow> \<exists>p. k = cursor_key ''orders'' p \<and> c = new_cursor Earliest [] ''orders'' p"
proof -
  have "streams_for_filter \<lparr>sc_streams = [sample_stream], sc_bindings = empty_trie\<rparr> ''orders/*'' = [sample_stream]"
    by code_simp
  then show "map_of (cs_partitions sample_cursors) k = Some c \<Longrightarrow>
      \<exists>p. k = cursor_key ''orders'' p \<and> c = new_cursor Earliest [] ''orders'' p"
    by (auto simp: sample_cursors_def cursors_new_def sample_stream_def dest!: map_of_SomeD)
qed


end
