(* ===== verification/Schema_Registry.thy ===== *)
theory Schema_Registry
  imports Log_Codec
begin

text \<open>
  The schema registry of \<open>crates/server/src/schema_registry.rs\<close>: registration with naming,
  definition, reference and compatibility checks, lookup by subject and by identifier, deletion
  and rollback, and the file the state is kept in. The JSON parser and the snapshot encoding are
  parameters; a parsed value is a datatype with the indexing of \<open>serde_json\<close>.

  The theorems: the identifier index is exact in every reachable state and a restart rebuilds
  it, and an identifier denotes the same schema for ever.
\<close>

section \<open>Values and names\<close>

datatype json =
    JNull | JBool bool | JNumber string | JString string | JArray "json list" | JObject "(string \<times> json) list"

text \<open>\<open>value[name]\<close> is \<open>Null\<close> where \<open>value.get(name)\<close> is none.\<close>

definition json_get :: "json \<Rightarrow> string \<Rightarrow> json option" where
  "json_get v name = (case v of JObject members \<Rightarrow> map_of members name | _ \<Rightarrow> None)"

definition json_index :: "json \<Rightarrow> string \<Rightarrow> json" where
  "json_index v name = (case json_get v name of None \<Rightarrow> JNull | Some x \<Rightarrow> x)"

definition as_array :: "json \<Rightarrow> json list option" where
  "as_array v = (case v of JArray xs \<Rightarrow> Some xs | _ \<Rightarrow> None)"

definition as_str :: "json \<Rightarrow> string option" where
  "as_str v = (case v of JString s \<Rightarrow> Some s | _ \<Rightarrow> None)"

definition elements :: "json option \<Rightarrow> json list" where
  "elements v = (case Option.bind v as_array of None \<Rightarrow> [] | Some xs \<Rightarrow> xs)"

datatype schema_format = JsonSchema | Protobuf | Avro

datatype compatibility = CompatNone | Backward | Forward | Full

record schema_reference =
  rf_subject :: string
  rf_version :: u32

record schema_version =
  sv_id :: u64
  sv_tenant :: string
  sv_subject :: string
  sv_version :: u32
  sv_format :: schema_format
  sv_definition :: string
  sv_references :: "schema_reference list"
  sv_deleted :: bool

record schema_registration =
  reg_tenant :: string
  reg_subject :: string
  reg_format :: schema_format
  reg_definition :: string
  reg_references :: "schema_reference list"

record registry_state =
  rs_next_id :: u64
  rs_subjects :: "(string, schema_version list) btree_map"

record schema_registry =
  sr_durable :: bool
  sr_compatibility :: "(string, compatibility) btree_map"
  sr_state :: registry_state
  sr_id_index :: "(u64, string \<times> u32) btree_map"

definition subject_key :: "string \<Rightarrow> string \<Rightarrow> string" where
  "subject_key tenant subject = tenant @ ''/'' @ subject"

definition validate_name :: "string \<Rightarrow> string \<Rightarrow> unit result" where
  "validate_name v field =
     (if v \<noteq> [] \<and> length v \<le> 128 \<and> list_all name_char v then Ok () else Err (''invalid schema '' @ field))"

section \<open>Text of definitions\<close>

text \<open>The whitespace character a string starts with, by its encoding.\<close>

definition leading_space :: "string \<Rightarrow> string option" where
  "leading_space s = find (\<lambda>w. prefix w s) whitespace_encodings"

lemma leading_space_shrinks: "leading_space s = Some w \<Longrightarrow> length (drop (length w) s) < length s"
proof -
  assume "leading_space s = Some w"
  then have "w \<in> set whitespace_encodings" "prefix w s" using find_SomeD unfolding leading_space_def by metis+
  moreover have "\<forall>w\<in>set whitespace_encodings. w \<noteq> []" by (simp add: whitespace_encodings_def)
  ultimately show ?thesis by (auto simp: prefix_def)
qed

function trim_start :: "string \<Rightarrow> string" where
  "trim_start s = (case leading_space s of None \<Rightarrow> s | Some w \<Rightarrow> trim_start (drop (length w) s))"
  by pat_completeness auto
termination
  by (relation "measure length") (auto dest: leading_space_shrinks)

definition trailing_space :: "string \<Rightarrow> string option" where
  "trailing_space s = find (\<lambda>w. suffix w s) whitespace_encodings"

lemma trailing_space_shrinks: "trailing_space s = Some w \<Longrightarrow> length (take (length s - length w) s) < length s"
proof -
  assume "trailing_space s = Some w"
  then have "w \<in> set whitespace_encodings" "suffix w s" using find_SomeD unfolding trailing_space_def by metis+
  moreover have "\<forall>w\<in>set whitespace_encodings. w \<noteq> []" by (simp add: whitespace_encodings_def)
  ultimately show ?thesis by (auto simp: suffix_def)
qed

function trim_end :: "string \<Rightarrow> string" where
  "trim_end s = (case trailing_space s of None \<Rightarrow> s | Some w \<Rightarrow> trim_end (take (length s - length w) s))"
  by pat_completeness auto
termination
  by (relation "measure length") (auto dest: trailing_space_shrinks)

definition trim :: "string \<Rightarrow> string" where
  "trim s = trim_end (trim_start s)"

text \<open>\<open>split_whitespace\<close>: the characters collected so far are reversed.\<close>

definition flush_token :: "string \<Rightarrow> string list" where
  "flush_token acc = (if acc = [] then [] else [rev acc])"

function split_whitespace_from :: "string \<Rightarrow> string \<Rightarrow> string list" where
  "split_whitespace_from acc [] = flush_token acc"
| "split_whitespace_from acc (c # s) =
     (case leading_space (c # s) of
        Some w \<Rightarrow> flush_token acc @ split_whitespace_from [] (drop (length w) (c # s))
      | None \<Rightarrow> split_whitespace_from (c # acc) s)"
  by pat_completeness auto
termination
  by (relation "measure (\<lambda>(acc, s). length s)") (auto dest: leading_space_shrinks)

definition split_whitespace :: "string \<Rightarrow> string list" where
  "split_whitespace s = split_whitespace_from [] s"

declare trim_start.simps [simp del] trim_end.simps [simp del] split_whitespace_from.simps [simp del]

definition rsplit_once :: "char \<Rightarrow> string \<Rightarrow> (string \<times> string) option" where
  "rsplit_once c s =
     (if c \<in> set s
      then Some (rev (tl (dropWhile (\<lambda>x. x \<noteq> c) (rev s))), rev (takeWhile (\<lambda>x. x \<noteq> c) (rev s)))
      else None)"

definition is_digit :: "char \<Rightarrow> bool" where
  "is_digit c \<longleftrightarrow> 48 \<le> (of_char c :: nat) \<and> (of_char c :: nat) \<le> 57"

definition parse_u32 :: "string \<Rightarrow> u32 option" where
  "parse_u32 s =
     (let digits = (case s of c # cs \<Rightarrow> if c = CHR ''+'' then cs else s | [] \<Rightarrow> []);
          n = foldl (\<lambda>v c. v * 10 + (of_char c - 48)) 0 digits
      in if digits \<noteq> [] \<and> list_all is_digit digits \<and> n \<le> u32_max then Some n else None)"

definition protobuf_field :: "string \<Rightarrow> (u32 \<times> string) option" where
  "protobuf_field field =
     Option.bind (rsplit_once CHR ''='' field) (\<lambda>(left, number).
     Option.bind (parse_u32 (trim number)) (\<lambda>number.
     (let tokens = split_whitespace left in
      if tokens = [] \<or> length tokens < 2 then None
      else Some (number, tokens ! (length tokens - 2) @ '' '' @ last tokens))))"

definition protobuf_fields :: "string \<Rightarrow> (u32, string) btree_map" where
  "protobuf_fields definition_text = bt_collect (List.map_filter protobuf_field (split_char CHR '';'' definition_text))"

section \<open>Checks\<close>

definition validate_definition :: "(string \<Rightarrow> json option) \<Rightarrow> schema_format \<Rightarrow> string \<Rightarrow> unit result" where
  "validate_definition parse format text =
     (if trim text = [] then Err ''schema definition is empty''
      else case format of
        JsonSchema \<Rightarrow>
          (case parse text of
             None \<Rightarrow> Err ''invalid JSON Schema''
           | Some v \<Rightarrow> (case v of JObject _ \<Rightarrow> Ok () | _ \<Rightarrow> Err ''JSON Schema must be an object''))
      | Protobuf \<Rightarrow> if contains_str ''message '' text then Ok () else Err ''Protobuf schema has no message''
      | Avro \<Rightarrow>
          (case parse text of
             None \<Rightarrow> Err ''invalid Avro schema''
           | Some v \<Rightarrow>
              if json_index v ''type'' \<noteq> JString ''record'' then Err ''Avro schema must be a record''
              else if as_array (json_index v ''fields'') = None then Err ''Avro schema fields are missing''
              else Ok ()))"

definition json_backward :: "(string \<Rightarrow> json option) \<Rightarrow> string \<Rightarrow> string \<Rightarrow> bool" where
  "json_backward parse old new =
     (case (parse old, parse new) of
        (Some old, Some new) \<Rightarrow>
          let old_required = elements (Some (json_index old ''required''));
              new_required = elements (Some (json_index new ''required''));
              name = (\<lambda>field. case as_str field of None \<Rightarrow> [] | Some s \<Rightarrow> s)
          in list_all (\<lambda>field. json_get (json_index new ''properties'') (name field) \<noteq> None) old_required
             \<and> list_all (\<lambda>field. field \<in> set old_required
                 \<or> Option.bind (json_get (json_index new ''properties'') (name field)) (\<lambda>v. json_get v ''default'') \<noteq> None)
               new_required
      | _ \<Rightarrow> False)"

definition field_names :: "json \<Rightarrow> string list" where
  "field_names schema =
     List.map_filter (\<lambda>field. as_str (json_index field ''name'')) (elements (Some (json_index schema ''fields'')))"

definition avro_backward :: "(string \<Rightarrow> json option) \<Rightarrow> string \<Rightarrow> string \<Rightarrow> bool" where
  "avro_backward parse old new =
     (case (parse old, parse new) of
        (Some old, Some new) \<Rightarrow>
          list_all (\<lambda>field. field \<in> set (field_names new)) (field_names old)
          \<and> list_all (\<lambda>field. field \<in> set (field_names old)
              \<or> list_ex (\<lambda>entry. json_index entry ''name'' = JString field \<and> json_get entry ''default'' \<noteq> None)
                  (elements (Some (json_index new ''fields''))))
            (field_names new)
      | _ \<Rightarrow> False)"

definition protobuf_backward :: "string \<Rightarrow> string \<Rightarrow> bool" where
  "protobuf_backward old new =
     list_all (\<lambda>(number, ty). map_of (protobuf_fields new) number = Some ty) (protobuf_fields old)"

definition format_compatible :: "(string \<Rightarrow> json option) \<Rightarrow> schema_format \<Rightarrow> string \<Rightarrow> string \<Rightarrow> bool" where
  "format_compatible parse format old new =
     (case format of
        JsonSchema \<Rightarrow> json_backward parse old new
      | Avro \<Rightarrow> avro_backward parse old new
      | Protobuf \<Rightarrow> protobuf_backward old new)"

definition compatible ::
  "(string \<Rightarrow> json option) \<Rightarrow> compatibility \<Rightarrow> schema_format \<Rightarrow> string \<Rightarrow> schema_format \<Rightarrow> string \<Rightarrow> bool" where
  "compatible parse policy old_format old_definition new_format new_definition =
     (if policy = CompatNone then True
      else if old_format \<noteq> new_format then False
      else
        let backward = format_compatible parse old_format old_definition new_definition;
            forward = format_compatible parse old_format new_definition old_definition
        in case policy of
             CompatNone \<Rightarrow> True
           | Backward \<Rightarrow> backward
           | Forward \<Rightarrow> forward
           | Full \<Rightarrow> backward \<and> forward)"

section \<open>Operations\<close>

definition initial_state :: registry_state where
  "initial_state = \<lparr>rs_next_id = 1, rs_subjects = []\<rparr>"

definition registry_new :: schema_registry where
  "registry_new = \<lparr>sr_durable = False, sr_compatibility = [], sr_state = initial_state, sr_id_index = []\<rparr>"

fun index_versions ::
  "string \<Rightarrow> schema_version list \<Rightarrow> (u64, string \<times> u32) btree_map \<Rightarrow> ((u64, string \<times> u32) btree_map) result" where
  "index_versions key [] index = Ok index"
| "index_versions key (s # ss) index =
     (if bt_contains (sv_id s) index then Err ''schema registry contains duplicate schema ID''
      else index_versions key ss (if sv_deleted s then index else bt_insert (sv_id s) (key, sv_version s) index))"

fun index_subjects ::
  "(string, schema_version list) btree_map \<Rightarrow> (u64, string \<times> u32) btree_map \<Rightarrow> ((u64, string \<times> u32) btree_map) result" where
  "index_subjects [] index = Ok index"
| "index_subjects ((key, versions) # rest) index = and_then (index_versions key versions index) (index_subjects rest)"

definition build_id_index :: "registry_state \<Rightarrow> ((u64, string \<times> u32) btree_map) result" where
  "build_id_index st = index_subjects (rs_subjects st) []"

definition registry_open :: "(registry_state, 'f) snapshot_codec \<Rightarrow> 'f option \<Rightarrow> schema_registry result" where
  "registry_open cd file =
     (case load_snapshot cd initial_state file of
        None \<Rightarrow> Err ''decoding schema registry''
      | Some st \<Rightarrow>
          map_ok (\<lambda>index. \<lparr>sr_durable = True, sr_compatibility = [], sr_state = st, sr_id_index = index\<rparr>)
            (build_id_index st))"

definition registry_persist ::
  "(registry_state, 'f) snapshot_codec \<Rightarrow> schema_registry \<Rightarrow> 'f option \<Rightarrow> 'f option" where
  "registry_persist cd r file = store_snapshot cd (sr_durable r) (sr_state r) file"

definition set_compatibility ::
  "string \<Rightarrow> string \<Rightarrow> compatibility \<Rightarrow> schema_registry \<Rightarrow> unit result \<times> schema_registry" where
  "set_compatibility tenant subject c r =
     (case and_then (validate_name tenant ''tenant'') (\<lambda>_. validate_name subject ''subject'') of
        Err e \<Rightarrow> (Err e, r)
      | Ok _ \<Rightarrow> (Ok (), r\<lparr>sr_compatibility := bt_insert (subject_key tenant subject) c (sr_compatibility r)\<rparr>))"

definition policy_of :: "schema_registry \<Rightarrow> string \<Rightarrow> compatibility" where
  "policy_of r key = (case map_of (sr_compatibility r) key of None \<Rightarrow> Backward | Some c \<Rightarrow> c)"

definition registry_compatibility :: "schema_registry \<Rightarrow> string \<Rightarrow> string \<Rightarrow> compatibility" where
  "registry_compatibility r tenant subject = policy_of r (subject_key tenant subject)"

definition versions_at :: "schema_registry \<Rightarrow> string \<Rightarrow> schema_version list" where
  "versions_at r key = (case map_of (rs_subjects (sr_state r)) key of None \<Rightarrow> [] | Some vs \<Rightarrow> vs)"

definition live_version :: "u32 \<Rightarrow> schema_version \<Rightarrow> bool" where
  "live_version n s \<longleftrightarrow> sv_version s = n \<and> \<not> sv_deleted s"

definition registry_get :: "schema_registry \<Rightarrow> string \<Rightarrow> string \<Rightarrow> u32 \<Rightarrow> schema_version option" where
  "registry_get r tenant subject n = find (live_version n) (versions_at r (subject_key tenant subject))"

definition by_id :: "schema_registry \<Rightarrow> u64 \<Rightarrow> schema_version option" where
  "by_id r i =
     Option.bind (map_of (sr_id_index r) i) (\<lambda>(key, n). find (live_version n) (versions_at r key))"

fun validate_references ::
  "schema_registry \<Rightarrow> string \<Rightarrow> schema_reference list \<Rightarrow> (string \<times> u32) set \<Rightarrow> unit result" where
  "validate_references r tenant [] seen = Ok ()"
| "validate_references r tenant (x # xs) seen =
     (if (rf_subject x, rf_version x) \<in> seen then Err ''duplicate schema reference''
      else if registry_get r tenant (rf_subject x) (rf_version x) = None then Err ''schema reference does not exist''
      else validate_references r tenant xs (insert (rf_subject x, rf_version x) seen))"

definition check_registration :: "(string \<Rightarrow> json option) \<Rightarrow> schema_registration \<Rightarrow> schema_registry \<Rightarrow> unit result" where
  "check_registration parse g r =
     and_then (validate_name (reg_tenant g) ''tenant'') (\<lambda>_.
     and_then (validate_name (reg_subject g) ''subject'') (\<lambda>_.
     and_then (validate_definition parse (reg_format g) (reg_definition g)) (\<lambda>_.
       validate_references r (reg_tenant g) (reg_references g) {})))"

definition new_version :: "schema_registration \<Rightarrow> schema_registry \<Rightarrow> schema_version" where
  "new_version g r =
     \<lparr>sv_id = rs_next_id (sr_state r), sv_tenant = reg_tenant g, sv_subject = reg_subject g,
      sv_version = length (versions_at r (subject_key (reg_tenant g) (reg_subject g))) mod 2 ^ 32 + 1,
      sv_format = reg_format g, sv_definition = reg_definition g, sv_references = reg_references g, sv_deleted = False\<rparr>"

text \<open>The version counter is a 32-bit addition; an overflow panics.\<close>

definition registry_register ::
  "(string \<Rightarrow> json option) \<Rightarrow> (registry_state, 'f) snapshot_codec \<Rightarrow> schema_registration \<Rightarrow> schema_registry \<Rightarrow> 'f option
     \<Rightarrow> schema_version result \<times> schema_registry \<times> 'f option" where
  "registry_register parse cd g r file =
     (case check_registration parse g r of
        Err e \<Rightarrow> (Err e, r, file)
      | Ok _ \<Rightarrow>
         (let key = subject_key (reg_tenant g) (reg_subject g);
              versions = versions_at r key;
              previous = find (\<lambda>s. \<not> sv_deleted s) (rev versions)
          in if (case previous of
                   None \<Rightarrow> False
                 | Some p \<Rightarrow> \<not> compatible parse (policy_of r key) (sv_format p) (sv_definition p) (reg_format g) (reg_definition g))
             then (Err ''schema is incompatible with the active version'', r, file)
             else if length versions mod 2 ^ 32 = u32_max then (Err ''attempt to add with overflow'', r, file)
             else
               let s = new_version g r;
                   st = \<lparr>rs_next_id = sat_add64 (rs_next_id (sr_state r)) 1,
                         rs_subjects = bt_insert key (versions @ [s]) (rs_subjects (sr_state r))\<rparr>;
                   r = r\<lparr>sr_state := st\<rparr>;
                   file = registry_persist cd r file
               in (Ok s, r\<lparr>sr_id_index := bt_insert (sv_id s) (key, sv_version s) (sr_id_index r)\<rparr>, file)))"

text \<open>\<open>iter_mut().find\<close>: the first version with the number is changed.\<close>

fun mark_deleted :: "bool \<Rightarrow> u32 \<Rightarrow> schema_version list \<Rightarrow> (schema_version \<times> schema_version list) option" where
  "mark_deleted flag n [] = None"
| "mark_deleted flag n (s # ss) =
     (if sv_version s = n then (let s' = s\<lparr>sv_deleted := flag\<rparr> in Some (s', s' # ss))
      else map_option (\<lambda>(x, ss'). (x, s # ss')) (mark_deleted flag n ss))"

definition change_deleted ::
  "(registry_state, 'f) snapshot_codec \<Rightarrow> bool \<Rightarrow> string \<Rightarrow> u32 \<Rightarrow> schema_registry \<Rightarrow> 'f option
     \<Rightarrow> (schema_version \<times> schema_registry \<times> 'f option) option" where
  "change_deleted cd flag key n r file =
     map_option (\<lambda>(s, versions).
       let r = r\<lparr>sr_state := (sr_state r)\<lparr>rs_subjects := bt_insert key versions (rs_subjects (sr_state r))\<rparr>\<rparr>
       in (s, r, registry_persist cd r file))
     (mark_deleted flag n (versions_at r key))"

definition registry_delete ::
  "(registry_state, 'f) snapshot_codec \<Rightarrow> string \<Rightarrow> string \<Rightarrow> u32 \<Rightarrow> schema_registry \<Rightarrow> 'f option
     \<Rightarrow> unit result \<times> schema_registry \<times> 'f option" where
  "registry_delete cd tenant subject n r file =
     (case change_deleted cd True (subject_key tenant subject) n r file of
        None \<Rightarrow> (Err ''schema version not found'', r, file)
      | Some (s, r, file) \<Rightarrow> (Ok (), r\<lparr>sr_id_index := bt_remove (sv_id s) (sr_id_index r)\<rparr>, file))"

definition registry_rollback ::
  "(registry_state, 'f) snapshot_codec \<Rightarrow> string \<Rightarrow> string \<Rightarrow> u32 \<Rightarrow> schema_registry \<Rightarrow> 'f option
     \<Rightarrow> schema_version result \<times> schema_registry \<times> 'f option" where
  "registry_rollback cd tenant subject n r file =
     (case change_deleted cd False (subject_key tenant subject) n r file of
        None \<Rightarrow> (Err ''schema version not found'', r, file)
      | Some (s, r, file) \<Rightarrow>
          (Ok s, r\<lparr>sr_id_index := bt_insert (sv_id s) (subject_key tenant subject, sv_version s) (sr_id_index r)\<rparr>, file))"

definition registry_versions :: "schema_registry \<Rightarrow> string \<Rightarrow> string \<Rightarrow> schema_version list" where
  "registry_versions r tenant subject = filter (\<lambda>s. \<not> sv_deleted s) (versions_at r (subject_key tenant subject))"

definition validate_message_metadata :: "schema_registry \<Rightarrow> string \<Rightarrow> string \<Rightarrow> u64 \<Rightarrow> schema_version result" where
  "validate_message_metadata r tenant subject i =
     (case by_id r i of
        None \<Rightarrow> Err ''schema ID is not active''
      | Some s \<Rightarrow>
         if sv_tenant s \<noteq> tenant then Err ''schema belongs to another tenant''
         else if sv_subject s \<noteq> subject then Err ''schema subject does not match message''
         else Ok s)"

section \<open>Stored versions\<close>

text \<open>
  The registry as a partial function: the version numbered \<open>n\<close> under a key is the one at position
  \<open>n - 1\<close> of the key's list.
\<close>

definition stored_version :: "schema_registry \<Rightarrow> string \<Rightarrow> u32 \<Rightarrow> schema_version option" where
  "stored_version r key n = (if n = 0 then None else get_at (versions_at r key) (n - 1))"

definition numbered :: "nat \<Rightarrow> schema_version list \<Rightarrow> bool" where
  "numbered k vs \<longleftrightarrow> (\<forall>i<length vs. sv_version (vs ! i) = Suc (k + i))"

lemma numbered_Cons: "numbered k (s # ss) \<longleftrightarrow> sv_version s = Suc k \<and> numbered (Suc k) ss"
  unfolding numbered_def by (auto simp: All_less_Suc2)

lemma numbered_update: "numbered k vs \<Longrightarrow> i < length vs \<Longrightarrow> sv_version s = Suc (k + i) \<Longrightarrow> numbered k (vs[i := s])"
  unfolding numbered_def by (auto simp: nth_list_update)

lemma numbered_snoc: "numbered 0 vs \<Longrightarrow> sv_version s = Suc (length vs) \<Longrightarrow> numbered 0 (vs @ [s])"
  unfolding numbered_def by (auto simp: nth_append less_Suc_eq)

lemma find_live_from:
  "numbered k vs \<Longrightarrow> find (live_version n) vs =
     (if k < n \<and> n \<le> k + length vs \<and> \<not> sv_deleted (vs ! (n - Suc k)) then Some (vs ! (n - Suc k)) else None)"
proof (induction vs arbitrary: k)
  case (Cons s ss)
  then have v: "sv_version s = Suc k" and n: "numbered (Suc k) ss" by (auto simp: numbered_Cons)
  have nth: "(s # ss) ! (n - Suc k) = ss ! (n - Suc (Suc k))" if "Suc k < n"
    using that by (simp add: nth_Cons' Suc_diff_Suc)
  consider "n = Suc k" | "Suc k < n" | "n < Suc k" by linarith
  then show ?case
  proof cases
    case 1
    then show ?thesis using v Cons.IH [OF n] by (simp add: live_version_def)
  next
    case 2
    then show ?thesis using v Cons.IH [OF n] nth by (simp add: live_version_def)
  next
    case 3
    then show ?thesis using v Cons.IH [OF n] by (simp add: live_version_def)
  qed
qed simp

lemma find_live:
  assumes "numbered 0 (versions_at r key)"
  shows "find (live_version n) (versions_at r key) = Option.bind (stored_version r key n) (\<lambda>s. if sv_deleted s then None else Some s)"
  unfolding find_live_from [OF assms] stored_version_def by (auto simp: get_at_def Suc_le_eq)

lemma mark_deleted_from:
  "numbered k vs \<Longrightarrow> mark_deleted flag n vs =
     (if k < n \<and> n \<le> k + length vs
      then let s = (vs ! (n - Suc k))\<lparr>sv_deleted := flag\<rparr> in Some (s, vs[n - Suc k := s]) else None)"
proof (induction vs arbitrary: k)
  case (Cons s ss)
  then have v: "sv_version s = Suc k" and n: "numbered (Suc k) ss" by (auto simp: numbered_Cons)
  have pos: "n - Suc k = Suc (n - Suc (Suc k))" if "Suc k < n" using that by simp
  consider "n = Suc k" | "Suc k < n" | "n < Suc k" by linarith
  then show ?case
  proof cases
    case 1
    then show ?thesis using v by (simp add: Let_def)
  next
    case 2
    then show ?thesis using v Cons.IH [OF n] pos by (simp add: Let_def)
  next
    case 3
    then show ?thesis using v Cons.IH [OF n] by simp
  qed
qed simp

lemma mark_deleted_stored:
  assumes "numbered 0 (versions_at r key)"
  shows "mark_deleted flag n (versions_at r key) =
     map_option (\<lambda>s. (s\<lparr>sv_deleted := flag\<rparr>, (versions_at r key)[n - 1 := s\<lparr>sv_deleted := flag\<rparr>])) (stored_version r key n)"
  unfolding mark_deleted_from [OF assms] stored_version_def by (auto simp: get_at_def Let_def Suc_le_eq)

section \<open>The index\<close>

definition index_entries :: "string \<times> schema_version list \<Rightarrow> (u64 \<times> string \<times> u32) list" where
  "index_entries = (\<lambda>(key, vs). map (\<lambda>s. (sv_id s, key, sv_version s)) (filter (\<lambda>s. \<not> sv_deleted s) vs))"

definition all_versions :: "registry_state \<Rightarrow> schema_version list" where
  "all_versions st = concat (bt_values (rs_subjects st))"

lemma index_versions_distinct:
  assumes "distinct (map sv_id vs)" "sv_id ` set vs \<inter> fst ` set index = {}"
  shows "index_versions key vs index = Ok (fold (\<lambda>(i, x). bt_insert i x) (index_entries (key, vs)) index)"
  using assms
proof (induction vs arbitrary: index)
  case Nil
  then show ?case by (simp add: index_entries_def)
next
  case (Cons s ss)
  let ?index = "if sv_deleted s then index else bt_insert (sv_id s) (key, sv_version s) index"
  have "sv_id ` set ss \<inter> fst ` set ?index = {}" using Cons.prems by auto
  then have "index_versions key ss ?index = Ok (fold (\<lambda>(i, x). bt_insert i x) (index_entries (key, ss)) ?index)"
    using Cons.prems by (intro Cons.IH) simp_all
  then show ?case using Cons.prems by (auto simp: index_entries_def bt_contains_iff)
qed

lemma keys_fold_insert: "fst ` set (fold (\<lambda>(i, x). bt_insert i x) es m) = fst ` set es \<union> fst ` set m"
proof (induction es arbitrary: m)
  case (Cons e es)
  obtain i x where e: "e = (i, x)" by (cases e)
  show ?case using Cons.IH [of "bt_insert i x m"] by (simp add: e del: image_Un)
qed simp

lemma index_subjects_distinct:
  assumes "distinct (map sv_id (concat (map snd m)))" "sv_id ` set (concat (map snd m)) \<inter> fst ` set index = {}"
  shows "index_subjects m index = Ok (fold (\<lambda>(i, x). bt_insert i x) (concat (map index_entries m)) index)"
  using assms
proof (induction m arbitrary: index)
  case (Cons e m)
  obtain key vs where e: "e = (key, vs)" by (cases e)
  let ?index = "fold (\<lambda>(i, x). bt_insert i x) (index_entries (key, vs)) index"
  have first: "index_versions key vs index = Ok ?index"
    using Cons.prems e by (intro index_versions_distinct) auto
  have sub: "fst ` set (index_entries (key, vs)) \<subseteq> sv_id ` set vs"
    by (auto simp: index_entries_def)
  have "sv_id ` set vs \<inter> sv_id ` set (concat (map snd m)) = {}" using Cons.prems(1) by (auto simp: e)
  moreover have "sv_id ` set (concat (map snd m)) \<inter> fst ` set index = {}" using Cons.prems(2) by (auto simp: e)
  ultimately have "sv_id ` set (concat (map snd m)) \<inter> fst ` set ?index = {}"
    unfolding keys_fold_insert using sub by blast
  then have "index_subjects m ?index = Ok (fold (\<lambda>(i, x). bt_insert i x) (concat (map index_entries m)) ?index)"
    using Cons.prems e by (intro Cons.IH) simp_all
  with first show ?case using e by simp
qed simp

lemma build_id_index_exact:
  assumes "distinct (map sv_id (all_versions st))"
  shows "build_id_index st = Ok (bt_collect (concat (map index_entries (rs_subjects st))))"
  using index_subjects_distinct [of "rs_subjects st" "[]"] assms
  by (simp add: build_id_index_def all_versions_def bt_collect_def case_prod_beta')

lemma distinct_map_filter_fst:
  "map fst (concat (map index_entries m)) = map sv_id (filter (\<lambda>s. \<not> sv_deleted s) (concat (map snd m)))"
  by (induction m) (auto simp: index_entries_def)

text \<open>The index the restart builds holds the live versions.\<close>

lemma map_of_built_index:
  assumes "distinct (map sv_id (all_versions st))" "bt_wf (rs_subjects st)"
  shows "map_of (bt_collect (concat (map index_entries (rs_subjects st)))) i = Some (key, n) \<longleftrightarrow>
    (\<exists>vs s. map_of (rs_subjects st) key = Some vs \<and> s \<in> set vs \<and> sv_id s = i \<and> sv_version s = n \<and> \<not> sv_deleted s)"
proof -
  let ?es = "concat (map index_entries (rs_subjects st))"
  have d: "distinct (map fst ?es)"
    using assms(1) unfolding distinct_map_filter_fst all_versions_def by (rule distinct_map_filter)
  then have "map_of (bt_collect ?es) i = Some (key, n) \<longleftrightarrow> (i, key, n) \<in> set ?es"
    by (simp add: map_of_rev_distinct map_of_eq_Some_iff)
  also have "\<dots> \<longleftrightarrow> (\<exists>vs. (key, vs) \<in> set (rs_subjects st) \<and> (\<exists>s\<in>set vs. sv_id s = i \<and> sv_version s = n \<and> \<not> sv_deleted s))"
    by (auto simp: index_entries_def)
  finally show ?thesis
    using map_of_eq_Some_iff [OF bt_wf_distinct [OF assms(2)]] by auto
qed

section \<open>Runs\<close>

definition owned :: "string \<Rightarrow> schema_version \<Rightarrow> bool" where
  "owned key s \<longleftrightarrow>
     key = subject_key (sv_tenant s) (sv_subject s) \<and> CHR ''/'' \<notin> set (sv_tenant s) \<and> CHR ''/'' \<notin> set (sv_subject s)"

definition versions_ok :: "schema_registry \<Rightarrow> bool" where
  "versions_ok r \<longleftrightarrow>
     bt_wf (rs_subjects (sr_state r))
     \<and> (\<forall>key. numbered 0 (versions_at r key) \<and> length (versions_at r key) \<le> u32_max)
     \<and> (\<forall>key n s. stored_version r key n = Some s \<longrightarrow> owned key s \<and> sv_id s < rs_next_id (sr_state r))
     \<and> (\<forall>key n s key' n' s'. stored_version r key n = Some s \<and> stored_version r key' n' = Some s'
          \<and> sv_id s = sv_id s' \<longrightarrow> key = key' \<and> n = n')"

definition index_exact :: "schema_registry \<Rightarrow> bool" where
  "index_exact r \<longleftrightarrow>
     bt_wf (sr_id_index r)
     \<and> (\<forall>i key n. map_of (sr_id_index r) i = Some (key, n) \<longleftrightarrow>
          (\<exists>s. stored_version r key n = Some s \<and> sv_id s = i \<and> \<not> sv_deleted s))"

definition registry_inv :: "(registry_state, 'f) snapshot_codec \<Rightarrow> schema_registry \<times> 'f option \<Rightarrow> bool" where
  "registry_inv cd = (\<lambda>(r, f). versions_ok r \<and> index_exact r
     \<and> (sr_durable r \<longrightarrow> load_snapshot cd initial_state f = Some (sr_state r)))"

text \<open>
  One call of the registry, or a restart from the file. Registration stops at the last
  identifier: the counter saturates, and from there on the same identifier would be issued
  again.
\<close>

inductive registry_step ::
  "(string \<Rightarrow> json option) \<Rightarrow> (registry_state, 'f) snapshot_codec
     \<Rightarrow> schema_registry \<times> 'f option \<Rightarrow> schema_registry \<times> 'f option \<Rightarrow> bool" for parse cd where
  sr_register: "rs_next_id (sr_state r) < u64_max \<Longrightarrow> registry_register parse cd g r f = (res, r', f')
     \<Longrightarrow> registry_step parse cd (r, f) (r', f')"
| sr_delete: "registry_delete cd t u n r f = (res, r', f') \<Longrightarrow> registry_step parse cd (r, f) (r', f')"
| sr_rollback: "registry_rollback cd t u n r f = (res, r', f') \<Longrightarrow> registry_step parse cd (r, f) (r', f')"
| sr_policy: "set_compatibility t u c r = (res, r') \<Longrightarrow> registry_step parse cd (r, f) (r', f)"
| sr_reopen: "sr_durable r \<Longrightarrow> registry_open cd f = Ok r' \<Longrightarrow> registry_step parse cd (r, f) (r', f)"

definition registry_start :: "(registry_state, 'f) snapshot_codec \<Rightarrow> schema_registry \<times> 'f option \<Rightarrow> bool" where
  "registry_start cd = (\<lambda>(r, f). f = None \<and> (r = registry_new \<or> registry_open cd None = Ok r))"

abbreviation registry_reaches ::
  "(string \<Rightarrow> json option) \<Rightarrow> (registry_state, 'f) snapshot_codec \<Rightarrow> schema_registry \<times> 'f option \<Rightarrow> bool" where
  "registry_reaches parse cd \<equiv> reaches (registry_start cd) (registry_step parse cd)"

lemma subject_key_inj:
  assumes "subject_key t u = subject_key t' u'" "CHR ''/'' \<notin> set t" "CHR ''/'' \<notin> set u"
  shows "t = t' \<and> u = u'"
proof -
  have "t @ CHR ''/'' # u = t' @ CHR ''/'' # u'" using assms(1) by (simp add: subject_key_def)
  then show ?thesis using assms(2,3) by (metis append_Cons_eq_iff in_set_conv_decomp_last)
qed

lemma versions_at_put:
  assumes "bt_wf (rs_subjects (sr_state r))" "rs_subjects (sr_state r') = bt_insert key vs (rs_subjects (sr_state r))"
  shows "versions_at r' k = (if k = key then vs else versions_at r k)"
  using assms by (simp add: versions_at_def)

lemma stored_unique:
  "versions_ok r \<Longrightarrow> stored_version r k m = Some t \<Longrightarrow> stored_version r key n = Some s
     \<Longrightarrow> sv_id t = sv_id s \<longleftrightarrow> k = key \<and> m = n"
  unfolding versions_ok_def by (metis option.inject)

text \<open>
  The three operations that change the versions each write one of them: the new version goes to
  an unused position and has a new identifier, or it keeps the identifier it replaces.
\<close>

definition writes_version :: "string \<Rightarrow> u32 \<Rightarrow> schema_version \<Rightarrow> schema_registry \<Rightarrow> schema_registry \<Rightarrow> bool" where
  "writes_version key n s r r' \<longleftrightarrow>
     (\<forall>k m. stored_version r' k m = (if k = key \<and> m = n then Some s else stored_version r k m))
     \<and> (\<forall>k m t. stored_version r k m = Some t \<longrightarrow> (sv_id t = sv_id s \<longleftrightarrow> k = key \<and> m = n))"

lemma writes_versionD:
  assumes "writes_version key n s r r'"
  shows "stored_version r' key n = Some s"
    and "\<not> (k = key \<and> m = n) \<Longrightarrow> stored_version r' k m = stored_version r k m"
    and "stored_version r k m = Some t \<Longrightarrow> sv_id t = sv_id s \<longleftrightarrow> k = key \<and> m = n"
  using assms unfolding writes_version_def by auto

lemma writes_version_cases:
  assumes "writes_version key n s r r'" "stored_version r' k m = Some t"
  shows "k = key \<and> m = n \<and> t = s \<or> stored_version r k m = Some t \<and> sv_id t \<noteq> sv_id s"
  using assms(2) writes_versionD(1) [OF assms(1)] writes_versionD(2) [OF assms(1), of k m]
    writes_versionD(3) [OF assms(1), of k m t] by (cases "k = key \<and> m = n") auto

lemma writes_version_put:
  assumes wf: "bt_wf (rs_subjects (sr_state r))"
    and st: "rs_subjects (sr_state r') = bt_insert key vs (rs_subjects (sr_state r))"
    and get: "\<And>m. (if m = 0 then None else get_at vs (m - 1)) = (if m = n then Some s else stored_version r key m)"
    and new: "\<And>k m t. stored_version r k m = Some t \<Longrightarrow> sv_id t = sv_id s \<longleftrightarrow> k = key \<and> m = n"
  shows "writes_version key n s r r'"
proof -
  note at = versions_at_put [OF wf st]
  have "stored_version r' k m = (if k = key \<and> m = n then Some s else stored_version r k m)" for k m
  proof (cases "k = key")
    case True
    then have "stored_version r' k m = (if m = 0 then None else get_at vs (m - 1))"
      unfolding stored_version_def by (simp only: at simp_thms if_True)
    then show ?thesis using True get [of m] by simp
  next
    case False
    then show ?thesis unfolding stored_version_def by (simp only: at if_False simp_thms)
  qed
  with new show ?thesis by (simp add: writes_version_def)
qed

lemma writes_version_ok:
  assumes w: "writes_version key n s r r'" and ok: "versions_ok r"
    and st: "rs_subjects (sr_state r') = bt_insert key vs (rs_subjects (sr_state r))"
    and vs: "numbered 0 vs" "length vs \<le> u32_max"
    and s: "owned key s" "sv_id s < rs_next_id (sr_state r')" "rs_next_id (sr_state r) \<le> rs_next_id (sr_state r')"
  shows "versions_ok r'"
  unfolding versions_ok_def
proof (intro conjI allI impI)
  have wf: "bt_wf (rs_subjects (sr_state r))" using ok by (simp add: versions_ok_def)
  then show "bt_wf (rs_subjects (sr_state r'))" using st by simp
  show "numbered 0 (versions_at r' k)" "length (versions_at r' k) \<le> u32_max" for k
    using ok vs versions_at_put [OF wf st] by (auto simp: versions_ok_def)
  have "owned k t \<and> sv_id t < rs_next_id (sr_state r')" if "stored_version r' k m = Some t" for k m t
  proof (cases "k = key \<and> m = n")
    case True
    then show ?thesis using writes_versionD(1) [OF w] that s by auto
  next
    case False
    then have "stored_version r k m = Some t" using writes_versionD(2) [OF w] that by simp
    then show ?thesis using ok s(3) unfolding versions_ok_def by (meson less_le_trans)
  qed
  then show "owned k t" "sv_id t < rs_next_id (sr_state r')" if "stored_version r' k m = Some t" for k m t
    using that by auto
  show "k = k'" "m = m'" if "stored_version r' k m = Some t \<and> stored_version r' k' m' = Some t' \<and> sv_id t = sv_id t'"
    for k m t k' m' t'
    using that stored_unique [OF ok, of k m t k' m' t'] writes_version_cases [OF w, of k m t]
      writes_version_cases [OF w, of k' m' t'] by auto
qed

lemma writes_version_index:
  assumes w: "writes_version key n s r r'" and ok: "index_exact r"
    and index: "sr_id_index r' = (if sv_deleted s then bt_remove (sv_id s) (sr_id_index r)
                  else bt_insert (sv_id s) (key, n) (sr_id_index r))"
  shows "index_exact r'"
proof -
  have wf: "bt_wf (sr_id_index r)" using ok by (simp add: index_exact_def)
  have "map_of (sr_id_index r') j = Some (k, m) \<longleftrightarrow>
      (\<exists>t. stored_version r' k m = Some t \<and> sv_id t = j \<and> \<not> sv_deleted t)" for j k m
  proof (cases "k = key \<and> m = n")
    case True
    have "map_of (sr_id_index r) j \<noteq> Some (key, n)" if "j \<noteq> sv_id s"
    proof
      assume "map_of (sr_id_index r) j = Some (key, n)"
      then obtain t where "stored_version r key n = Some t" "sv_id t = j" using ok by (auto simp: index_exact_def)
      with writes_versionD(3) [OF w] that show False by blast
    qed
    with True show ?thesis using writes_versionD(1) [OF w] wf index by auto
  next
    case False
    then have same: "stored_version r' k m = stored_version r k m" by (rule writes_versionD(2) [OF w])
    have "sv_id t \<noteq> sv_id s" if "stored_version r k m = Some t" for t
      using writes_versionD(3) [OF w that] False by simp
    moreover have "map_of (sr_id_index r) j = Some (k, m) \<longleftrightarrow>
        (\<exists>t. stored_version r k m = Some t \<and> sv_id t = j \<and> \<not> sv_deleted t)"
      using ok by (simp add: index_exact_def)
    ultimately show ?thesis using False wf index same by auto
  qed
  then show ?thesis using wf index by (simp add: index_exact_def)
qed

lemma validate_name_no_slash: "validate_name v field = Ok x \<Longrightarrow> CHR ''/'' \<notin> set v"
  by (auto simp: validate_name_def list_all_iff name_char_def split: if_splits)

lemma register_cases:
  assumes "registry_register parse cd g r f = (res, r', f')"
  obtains (refused) e where "res = Err e" "r' = r" "f' = f"
  | (registered) s where "res = Ok s" "check_registration parse g r = Ok ()"
      "s = new_version g r"
      "length (versions_at r (subject_key (reg_tenant g) (reg_subject g))) mod 2 ^ 32 \<noteq> u32_max"
      "r' = r\<lparr>sr_state := \<lparr>rs_next_id = sat_add64 (rs_next_id (sr_state r)) 1,
                rs_subjects = bt_insert (subject_key (reg_tenant g) (reg_subject g))
                  (versions_at r (subject_key (reg_tenant g) (reg_subject g)) @ [s]) (rs_subjects (sr_state r))\<rparr>,
              sr_id_index := bt_insert (sv_id s) (subject_key (reg_tenant g) (reg_subject g), sv_version s) (sr_id_index r)\<rparr>"
      "f' = store_snapshot cd (sr_durable r) (sr_state r') f"
proof (cases "check_registration parse g r")
  case (Inl e)
  then show ?thesis using assms refused [of e] by (simp add: registry_register_def)
next
  case (Inr x)
  let ?key = "subject_key (reg_tenant g) (reg_subject g)"
  let ?vs = "versions_at r ?key"
  let ?bad = "case find (\<lambda>s. \<not> sv_deleted s) (rev ?vs) of None \<Rightarrow> False
    | Some p \<Rightarrow> \<not> compatible parse (policy_of r ?key) (sv_format p) (sv_definition p) (reg_format g) (reg_definition g)"
  show ?thesis
  proof (cases "?bad \<or> length ?vs mod 2 ^ 32 = u32_max")
    case True
    then have "\<exists>e. (res, r', f') = (Err e, r, f)"
      using assms Inr by (auto simp only: registry_register_def Let_def sum.case if_True if_False if_P simp_thms
        split: if_split_asm)
    then show ?thesis using refused by auto
  next
    case False
    then have bad: "\<not> ?bad" and full: "length ?vs mod 2 ^ 32 \<noteq> u32_max" by simp_all
    from assms show ?thesis
      unfolding registry_register_def Inr sum.case Let_def if_not_P [OF bad] if_not_P [OF full]
      using Inr full registered [of "new_version g r"] by (auto simp: registry_persist_def)
  qed
qed

lemma change_cases:
  assumes "versions_ok r" "change_deleted cd flag key n r f = Some (s, r', f')"
  obtains t where "stored_version r key n = Some t" "s = t\<lparr>sv_deleted := flag\<rparr>"
    "r' = r\<lparr>sr_state := (sr_state r)\<lparr>rs_subjects :=
       bt_insert key ((versions_at r key)[n - 1 := s]) (rs_subjects (sr_state r))\<rparr>\<rparr>"
    "f' = store_snapshot cd (sr_durable r) (sr_state r') f"
proof -
  have "numbered 0 (versions_at r key)" using assms(1) by (simp add: versions_ok_def)
  from mark_deleted_stored [OF this, of flag n] that show ?thesis
    using assms(2) by (auto simp: change_deleted_def registry_persist_def Let_def)
qed

lemma register_writes:
  assumes ok: "versions_ok r" and room: "rs_next_id (sr_state r) < u64_max"
    and step: "registry_register parse cd g r f = (Ok s, r', f')"
  shows "writes_version (subject_key (reg_tenant g) (reg_subject g)) (sv_version s) s r r'" "versions_ok r'"
proof -
  let ?key = "subject_key (reg_tenant g) (reg_subject g)"
  let ?vs = "versions_at r ?key"
  from step have reg: "check_registration parse g r = Ok ()" "s = new_version g r" "length ?vs mod 2 ^ 32 \<noteq> u32_max"
    and st: "rs_subjects (sr_state r') = bt_insert ?key (?vs @ [s]) (rs_subjects (sr_state r))"
      "rs_next_id (sr_state r') = Suc (sv_id s)"
    using room by (auto elim!: register_cases simp: new_version_def sat_add64_def)
  have num: "numbered 0 ?vs" and "length ?vs \<le> u32_max" and wf: "bt_wf (rs_subjects (sr_state r))"
    using ok by (simp_all add: versions_ok_def)
  then have n: "sv_version s = Suc (length ?vs)" and more: "length ?vs < u32_max"
    using reg by (auto simp: u32_max_def new_version_def)
  have old: "stored_version r k m = Some t \<Longrightarrow> sv_id t < sv_id s" for k m t
    using ok reg(2) by (simp add: versions_ok_def new_version_def)
  show w: "writes_version ?key (sv_version s) s r r'"
  proof (rule writes_version_put [OF wf st(1)])
    show "(if m = 0 then None else get_at (?vs @ [s]) (m - 1)) =
        (if m = sv_version s then Some s else stored_version r ?key m)" for m
      using n by (auto simp: stored_version_def get_at_def nth_append)
    show "sv_id t = sv_id s \<longleftrightarrow> k = ?key \<and> m = sv_version s" if "stored_version r k m = Some t" for k m t
      using old [OF that] that n by (auto simp: stored_version_def)
  qed
  show "versions_ok r'"
  proof (rule writes_version_ok [OF w ok st(1)])
    show "owned ?key s"
      using reg by (auto simp: new_version_def owned_def check_registration_def and_then_eq_Ok dest: validate_name_no_slash)
    show "rs_next_id (sr_state r) \<le> rs_next_id (sr_state r')" using reg(2) st(2) by (simp add: new_version_def)
  qed (use num n more st numbered_snoc in auto)
qed

lemma change_writes:
  assumes ok: "versions_ok r" and change: "change_deleted cd flag key n r f = Some (s, r', f')"
  shows "writes_version key n s r r'" "versions_ok r'" "sv_version s = n" "sv_deleted s = flag"
    "sr_id_index r' = sr_id_index r" "sr_durable r' = sr_durable r" "f' = store_snapshot cd (sr_durable r) (sr_state r') f"
proof -
  from change_cases [OF ok(1) change] obtain t where t: "stored_version r key n = Some t" "s = t\<lparr>sv_deleted := flag\<rparr>"
    and r': "r' = r\<lparr>sr_state := (sr_state r)\<lparr>rs_subjects :=
       bt_insert key ((versions_at r key)[n - 1 := s]) (rs_subjects (sr_state r))\<rparr>\<rparr>"
    and f': "f' = store_snapshot cd (sr_durable r) (sr_state r') f" by blast
  then have st: "rs_subjects (sr_state r') = bt_insert key ((versions_at r key)[n - 1 := s]) (rs_subjects (sr_state r))"
    "rs_next_id (sr_state r') = rs_next_id (sr_state r)" by simp_all
  have at: "0 < n" "n - 1 < length (versions_at r key)" "versions_at r key ! (n - 1) = t"
    using t(1) by (auto simp: stored_version_def split: if_splits)
  have num: "numbered 0 (versions_at r key)" and len: "length (versions_at r key) \<le> u32_max"
    and own: "owned key t" "sv_id t < rs_next_id (sr_state r)" and wf: "bt_wf (rs_subjects (sr_state r))"
    using ok(1) t(1) by (auto simp: versions_ok_def)
  have n: "sv_version t = n" using num at by (auto simp: numbered_def)
  show w: "writes_version key n s r r'"
  proof (rule writes_version_put [OF wf st(1)])
    show "(if m = 0 then None else get_at ((versions_at r key)[n - 1 := s]) (m - 1)) =
        (if m = n then Some s else stored_version r key m)" for m
      using at by (auto simp: stored_version_def get_at_def nth_list_update)
    show "sv_id x = sv_id s \<longleftrightarrow> k = key \<and> m = n" if "stored_version r k m = Some x" for k m x
      using stored_unique [OF ok(1) that t(1)] t(2) by simp
  qed
  show "versions_ok r'"
  proof (rule writes_version_ok [OF w ok st(1)])
    show "numbered 0 ((versions_at r key)[n - 1 := s])" using num at n t(2) by (intro numbered_update) auto
  qed (use t(2) own len st in \<open>auto simp: owned_def\<close>)
  show "sv_version s = n" "sv_deleted s = flag" "sr_id_index r' = sr_id_index r" "sr_durable r' = sr_durable r"
    using t(2) n r' by simp_all
  show "f' = store_snapshot cd (sr_durable r) (sr_state r') f" by (fact f')
qed

lemma distinct_versions:
  assumes "versions_ok r"
  shows "distinct (map sv_id (all_versions (sr_state r)))"
proof -
  have wf: "bt_wf (rs_subjects (sr_state r))" using assms by (simp add: versions_ok_def)
  have stored: "stored_version r key (Suc i) = Some (vs ! i)"
    if "(key, vs) \<in> set (rs_subjects (sr_state r))" "i < length vs" for key vs i
  proof -
    have "map_of (rs_subjects (sr_state r)) key = Some vs" using that(1) bt_wf_distinct [OF wf] by simp
    then show ?thesis using that(2) by (simp add: stored_version_def versions_at_def)
  qed
  have same: "sv_id (vs ! i) = sv_id (vs' ! j) \<longleftrightarrow> key = key' \<and> i = j"
    if "(key, vs) \<in> set (rs_subjects (sr_state r))" "(key', vs') \<in> set (rs_subjects (sr_state r))"
      "i < length vs" "j < length vs'" for key vs key' vs' i j
    using stored_unique [OF assms stored [OF that(1,3)] stored [OF that(2,4)]] by simp
  have inner: "distinct (map sv_id vs)" if "(key, vs) \<in> set (rs_subjects (sr_state r))" for key vs
    using same [OF that that] by (simp add: distinct_conv_nth)
  have outer: "sv_id ` set vs \<inter> sv_id ` set vs' = {}"
    if "(key, vs) \<in> set (rs_subjects (sr_state r))" "(key', vs') \<in> set (rs_subjects (sr_state r))" "key \<noteq> key'" for key vs key' vs'
    using same [OF that(1,2)] that(3) by (auto simp: in_set_conv_nth)
  have "distinct (map sv_id (concat (map snd m)))"
    if "set m \<subseteq> set (rs_subjects (sr_state r))" "distinct (map fst m)" for m
    using that
  proof (induction m)
    case (Cons e m)
    obtain key vs where e: "e = (key, vs)" by (cases e)
    have "sv_id ` set vs \<inter> sv_id ` set vs' = {}" if "(key', vs') \<in> set m" for key' vs'
      using outer [of key vs key' vs'] that Cons.prems e by force
    then have "sv_id ` set vs \<inter> sv_id ` set (concat (map snd m)) = {}" by fastforce
    then show ?case using Cons inner [of key vs] e by auto
  qed simp
  from this [of "rs_subjects (sr_state r)"] show ?thesis
    using bt_wf_distinct [OF wf] by (simp add: all_versions_def)
qed

lemma stored_iff:
  assumes "versions_ok r"
  shows "stored_version r key n = Some s \<longleftrightarrow>
    (\<exists>vs. map_of (rs_subjects (sr_state r)) key = Some vs \<and> s \<in> set vs \<and> sv_version s = n)"
proof -
  have "numbered 0 (versions_at r key)" using assms by (simp add: versions_ok_def)
  then have "stored_version r key n = Some s \<longleftrightarrow> s \<in> set (versions_at r key) \<and> sv_version s = n"
    by (auto simp: stored_version_def numbered_def in_set_conv_nth)
  then show ?thesis by (cases "map_of (rs_subjects (sr_state r)) key") (simp_all add: versions_at_def)
qed

lemma rebuilt_index:
  assumes ok: "versions_ok r" "index_exact r"
  shows "build_id_index (sr_state r) = Ok (sr_id_index r)"
proof -
  let ?built = "bt_collect (concat (map index_entries (rs_subjects (sr_state r))))"
  have d: "distinct (map sv_id (all_versions (sr_state r)))" by (rule distinct_versions [OF ok(1)])
  have wf: "bt_wf (rs_subjects (sr_state r))" "bt_wf (sr_id_index r)"
    using ok by (simp_all add: versions_ok_def index_exact_def)
  have "map_of ?built i = Some (key, n) \<longleftrightarrow> map_of (sr_id_index r) i = Some (key, n)" for i key n
    unfolding map_of_built_index [OF d wf(1)] using ok(2) stored_iff [OF ok(1), of key n] by (auto simp: index_exact_def)
  then have "map_of ?built i = Some e \<longleftrightarrow> map_of (sr_id_index r) i = Some e" for i e by (cases e) blast
  then have "map_of ?built i = map_of (sr_id_index r) i" for i by (metis option.exhaust)
  then have "?built = sr_id_index r" using wf(2) by (intro bt_ext) auto
  then show ?thesis using build_id_index_exact [OF d] by simp
qed

lemma reopened:
  assumes "registry_inv cd (r, f)" "sr_durable r"
  shows "registry_open cd f = Ok (r\<lparr>sr_compatibility := []\<rparr>)"
  using assms by (simp add: registry_inv_def registry_open_def rebuilt_index)

lemma registry_inv_start: "registry_start cd s \<Longrightarrow> registry_inv cd s"
  by (cases s) (auto simp: registry_start_def registry_new_def registry_open_def registry_inv_def versions_ok_def
    index_exact_def build_id_index_def load_snapshot_def initial_state_def versions_at_def stored_version_def numbered_def get_at_def
    split: if_splits)

lemma same_state [simp]:
  "versions_at (r\<lparr>sr_id_index := x\<rparr>) = versions_at r" "versions_at (r\<lparr>sr_compatibility := c\<rparr>) = versions_at r"
  "stored_version (r\<lparr>sr_id_index := x\<rparr>) = stored_version r" "stored_version (r\<lparr>sr_compatibility := c\<rparr>) = stored_version r"
  "versions_ok (r\<lparr>sr_id_index := x\<rparr>) = versions_ok r" "versions_ok (r\<lparr>sr_compatibility := c\<rparr>) = versions_ok r"
  by (simp_all add: fun_eq_iff versions_at_def stored_version_def versions_ok_def)

lemma same_index [simp]: "index_exact (r\<lparr>sr_compatibility := c\<rparr>) = index_exact r"
  by (simp add: index_exact_def)

lemma writes_version_same [simp]: "writes_version key n s r (r'\<lparr>sr_id_index := x\<rparr>) = writes_version key n s r r'"
  by (simp add: writes_version_def)

text \<open>Every step keeps the versions and the file, or writes one version and stores the result.\<close>

lemma registry_step_cases:
  assumes inv: "registry_inv cd (r, f)" and step: "registry_step parse cd (r, f) (r', f')"
  obtains (keep) "sr_state r' = sr_state r" "sr_id_index r' = sr_id_index r" "sr_durable r' = sr_durable r" "f' = f"
  | (put) key n s where "writes_version key n s r r'" "versions_ok r'"
      "sr_id_index r' = (if sv_deleted s then bt_remove (sv_id s) (sr_id_index r)
         else bt_insert (sv_id s) (key, n) (sr_id_index r))"
      "\<And>t. stored_version r key n = Some t \<Longrightarrow> s = t\<lparr>sv_deleted := sv_deleted s\<rparr>"
      "sr_durable r' = sr_durable r" "f' = store_snapshot cd (sr_durable r) (sr_state r') f"
proof -
  have ok: "versions_ok r" using inv by (simp add: registry_inv_def)
  have change: thesis
    if "change_deleted cd flag key n r f = Some (s, r1, f')"
      "r' = r1\<lparr>sr_id_index := (if flag then bt_remove (sv_id s) (sr_id_index r1)
         else bt_insert (sv_id s) (key, sv_version s) (sr_id_index r1))\<rparr>" for flag key n s r1
  proof (rule put)
    note w = change_writes [OF ok that(1)]
    from change_cases [OF ok that(1)] obtain t where "stored_version r key n = Some t" "s = t\<lparr>sv_deleted := flag\<rparr>" by blast
    then show "\<And>t. stored_version r key n = Some t \<Longrightarrow> s = t\<lparr>sv_deleted := sv_deleted s\<rparr>" by simp
    show "writes_version key n s r r'" "versions_ok r'" "sr_durable r' = sr_durable r"
      "f' = store_snapshot cd (sr_durable r) (sr_state r') f"
      "sr_id_index r' = (if sv_deleted s then bt_remove (sv_id s) (sr_id_index r)
         else bt_insert (sv_id s) (key, n) (sr_id_index r))"
      using that(2) w by simp_all
  qed
  show thesis
    using step
  proof cases
    case (sr_register g res)
    from sr_register(2) show ?thesis
    proof (cases rule: register_cases)
      case refused
      then show ?thesis using keep by simp
    next
      case (registered s)
      then have w: "writes_version (subject_key (reg_tenant g) (reg_subject g)) (sv_version s) s r r'" "versions_ok r'"
        using register_writes [OF ok sr_register(1)] sr_register(2) by blast+
      have "s = t\<lparr>sv_deleted := sv_deleted s\<rparr>"
        if "stored_version r (subject_key (reg_tenant g) (reg_subject g)) (sv_version s) = Some t" for t
      proof -
        have "sv_id t < rs_next_id (sr_state r)" using ok that unfolding versions_ok_def by blast
        then show ?thesis using writes_versionD(3) [OF w(1) that] registered(3) by (simp add: new_version_def)
      qed
      then show ?thesis using w registered by (intro put) (auto simp: new_version_def)
    qed
  next
    case (sr_delete t u n res)
    then show ?thesis using keep change [of True] by (auto simp: registry_delete_def split: option.splits)
  next
    case (sr_rollback t u n res)
    then show ?thesis using keep change [of False] by (auto simp: registry_rollback_def split: option.splits)
  next
    case (sr_policy t u c res)
    then show ?thesis using keep by (auto simp: set_compatibility_def split: sum.splits)
  next
    case sr_reopen
    then show ?thesis using keep reopened [OF inv] by auto
  qed
qed

lemma kept_state:
  assumes "sr_state r' = sr_state r"
  shows "stored_version r' = stored_version r" "versions_ok r' = versions_ok r"
  using assms by (simp_all add: fun_eq_iff versions_at_def stored_version_def versions_ok_def)

lemma registry_inv_step:
  assumes codec: "snapshot_ok cd" and inv: "registry_inv cd (r, f)" and step: "registry_step parse cd (r, f) (r', f')"
  shows "registry_inv cd (r', f')"
  using inv step
proof (cases rule: registry_step_cases)
  case keep
  then show ?thesis using inv kept_state [OF keep(1)] by (simp add: registry_inv_def index_exact_def)
next
  case (put key n s)
  then have "index_exact r'" using inv writes_version_index by (auto simp: registry_inv_def)
  then show ?thesis using put codec load_store_snapshot [OF codec] by (simp add: registry_inv_def)
qed

interpretation sr: invariant_system "registry_start cd" "registry_step parse cd"
  "\<lambda>s. snapshot_ok cd \<longrightarrow> registry_inv cd s" for parse cd
  by unfold_locales (auto intro: registry_inv_start registry_inv_step)

lemma version_stable_step:
  assumes "registry_inv cd (r, f)" "registry_step parse cd (r, f) (r', f')" "stored_version r key n = Some s"
  shows "\<exists>b. stored_version r' key n = Some (s\<lparr>sv_deleted := b\<rparr>)"
  using assms(1,2)
proof (cases rule: registry_step_cases)
  case keep
  then have "stored_version r' key n = Some (s\<lparr>sv_deleted := sv_deleted s\<rparr>)"
    using assms(3) kept_state(1) [OF keep(1)] by simp
  then show ?thesis by blast
next
  case (put key' n' s')
  show ?thesis
  proof (cases "key = key' \<and> n = n'")
    case True
    then have "stored_version r' key n = Some s'" using writes_versionD(1) [OF put(1)] by simp
    then show ?thesis using put(4) [of s] True assms(3) by metis
  next
    case False
    then have "stored_version r' key n = Some (s\<lparr>sv_deleted := sv_deleted s\<rparr>)"
      using writes_versionD(2) [OF put(1)] assms(3) by simp
    then show ?thesis by blast
  qed
qed

lemma version_stable:
  assumes codec: "snapshot_ok cd" and inv: "registry_inv cd x" and steps: "(registry_step parse cd)\<^sup>*\<^sup>* x y"
    and s: "stored_version (fst x) key n = Some s"
  shows "\<exists>b. stored_version (fst y) key n = Some (s\<lparr>sv_deleted := b\<rparr>)"
  using steps
proof (induction rule: rtranclp_induct)
  case base
  have "stored_version (fst x) key n = Some (s\<lparr>sv_deleted := sv_deleted s\<rparr>)" using s by simp
  then show ?case by blast
next
  case (step y z)
  then obtain b where b: "stored_version (fst y) key n = Some (s\<lparr>sv_deleted := b\<rparr>)" by blast
  have "registry_inv cd y" using sr.steps_inv [OF step(1)] codec inv by blast
  with step(2) b show ?case
    using version_stable_step [of cd "fst y" "snd y" parse "fst z" "snd z" key n] by auto
qed

lemma by_id_stored:
  assumes "versions_ok r" "index_exact r"
  shows "by_id r i = Some s \<longleftrightarrow> (\<exists>key n. stored_version r key n = Some s \<and> sv_id s = i \<and> \<not> sv_deleted s)"
proof -
  have live: "find (live_version n) (versions_at r key) = Some s \<longleftrightarrow> stored_version r key n = Some s \<and> \<not> sv_deleted s" for key n
    using assms(1) by (auto simp: versions_ok_def find_live split: bind_splits if_splits)
  have index: "map_of (sr_id_index r) i = Some (key, n) \<longleftrightarrow>
      (\<exists>s. stored_version r key n = Some s \<and> sv_id s = i \<and> \<not> sv_deleted s)" for key n
    using assms(2) by (simp add: index_exact_def)
  have "by_id r i = Some s \<longleftrightarrow> (\<exists>key n. map_of (sr_id_index r) i = Some (key, n) \<and> find (live_version n) (versions_at r key) = Some s)"
    by (auto simp: by_id_def bind_eq_Some_conv)
  then show ?thesis unfolding live index by auto
qed

lemma in_all_versions:
  assumes "versions_ok r"
  shows "s \<in> set (all_versions (sr_state r)) \<longleftrightarrow> (\<exists>key n. stored_version r key n = Some s)"
proof -
  have "bt_wf (rs_subjects (sr_state r))" using assms by (simp add: versions_ok_def)
  then have "s \<in> set (all_versions (sr_state r)) \<longleftrightarrow> (\<exists>key vs. map_of (rs_subjects (sr_state r)) key = Some vs \<and> s \<in> set vs)"
    using bt_wf_distinct [of "rs_subjects (sr_state r)"] by (force simp: all_versions_def)
  then show ?thesis using stored_iff [OF assms] by blast
qed

lemma by_id_unique:
  assumes "versions_ok r" "index_exact r" "stored_version r key n = Some s"
  shows "by_id r (sv_id s) = (if sv_deleted s then None else Some s)"
proof (cases "by_id r (sv_id s)")
  case None
  then have "sv_deleted s" using by_id_stored [OF assms(1,2), of "sv_id s" s] assms(3) by auto
  then show ?thesis using None by simp
next
  case (Some t)
  then obtain k m where "stored_version r k m = Some t" "sv_id t = sv_id s" "\<not> sv_deleted t"
    using by_id_stored [OF assms(1,2)] by blast
  moreover from this have "t = s" using stored_unique [OF assms(1) _ assms(3)] assms(3) by auto
  ultimately show ?thesis using Some by simp
qed

lemma by_id_is_scan:
  assumes "versions_ok r" "index_exact r"
  shows "by_id r i = find (\<lambda>s. sv_id s = i \<and> \<not> sv_deleted s) (all_versions (sr_state r))"
proof (cases "find (\<lambda>s. sv_id s = i \<and> \<not> sv_deleted s) (all_versions (sr_state r))")
  case None
  then have "by_id r i \<noteq> Some s" for s
    using by_id_stored [OF assms] in_all_versions [OF assms(1)] by (auto simp: find_None_iff)
  then show ?thesis using None by (cases "by_id r i") auto
next
  case (Some s)
  then have "s \<in> set (all_versions (sr_state r))" "sv_id s = i" "\<not> sv_deleted s" using find_SomeD by fastforce+
  then show ?thesis using Some by_id_unique [OF assms, of _ _ s] in_all_versions [OF assms(1)] by auto
qed

lemma registry_get_stored:
  "versions_ok r \<Longrightarrow> registry_get r tenant subject n =
     Option.bind (stored_version r (subject_key tenant subject) n) (\<lambda>s. if sv_deleted s then None else Some s)"
  by (simp add: registry_get_def find_live versions_ok_def)

lemma reached_inv: "snapshot_ok cd \<Longrightarrow> registry_reaches parse cd (r, f) \<Longrightarrow> registry_inv cd (r, f)"
  using sr.reaches_inv by blast

text \<open>The compatibility policies are not part of the file: a restart forgets them.\<close>

lemma compatibility_lost_on_restart:
  assumes "snapshot_ok cd" "registry_reaches parse cd (r, f)" "sr_durable r"
  shows "\<exists>r'. registry_open cd f = Ok r' \<and> registry_compatibility r' tenant subject = Backward"
  using reopened [OF reached_inv [OF assms(1,2)] assms(3)] by (simp add: registry_compatibility_def policy_of_def)

section \<open>A sample run\<close>

text \<open>A durable registry that stores its state verbatim, and a first Protobuf schema.\<close>

definition sample_registry_codec :: "(registry_state, registry_state) snapshot_codec" where
  "sample_registry_codec = \<lparr>sn_encode = (\<lambda>x. x), sn_decode = Some\<rparr>"

definition sample_registration :: schema_registration where
  "sample_registration =
     \<lparr>reg_tenant = ''acme'', reg_subject = ''orders'', reg_format = Protobuf,
      reg_definition = ''message M { int32 a = 1; }'', reg_references = []\<rparr>"

definition sample_empty :: schema_registry where
  "sample_empty = \<lparr>sr_durable = True, sr_compatibility = [], sr_state = initial_state, sr_id_index = []\<rparr>"

definition sample_schema :: schema_version where
  "sample_schema =
     \<lparr>sv_id = 1, sv_tenant = ''acme'', sv_subject = ''orders'', sv_version = 1, sv_format = Protobuf,
      sv_definition = ''message M { int32 a = 1; }'', sv_references = [], sv_deleted = False\<rparr>"

definition sample_state :: registry_state where
  "sample_state = \<lparr>rs_next_id = 2, rs_subjects = [(''acme/orders'', [sample_schema])]\<rparr>"

definition sample_registry :: schema_registry where
  "sample_registry =
     \<lparr>sr_durable = True, sr_compatibility = [], sr_state = sample_state, sr_id_index = [(1, ''acme/orders'', 1)]\<rparr>"

lemma sample_registry_codec_ok: "snapshot_ok sample_registry_codec"
  by (simp add: snapshot_ok_def sample_registry_codec_def)

lemma sample_names: "validate_name ''acme'' x = Ok ()" "validate_name ''orders'' x = Ok ()"
  by (simp_all add: validate_name_def name_char_def Let_def)

lemma sample_definition: "validate_definition parse Protobuf ''message M { int32 a = 1; }'' = Ok ()"
proof -
  have "trim ''message M { int32 a = 1; }'' = ''message M { int32 a = 1; }''" by code_simp
  then show ?thesis by (simp add: validate_definition_def)
qed

lemma sample_register:
  "registry_register parse sample_registry_codec sample_registration sample_empty None = (Ok sample_schema, sample_registry, Some sample_state)"
proof -
  have "check_registration parse sample_registration sample_empty = Ok ()"
    by (simp add: check_registration_def sample_registration_def sample_names sample_definition)
  moreover have "versions_at sample_empty key = []" for key
    by (simp add: sample_empty_def versions_at_def initial_state_def)
  ultimately show ?thesis
    by (simp add: registry_register_def Let_def new_version_def sample_registration_def subject_key_def u32_max_def
      sample_empty_def initial_state_def sat_add64_def u64_max_def registry_persist_def store_snapshot_def sample_registry_codec_def
      sample_schema_def sample_registry_def sample_state_def)
qed

lemma sample_start: "registry_reaches parse sample_registry_codec (sample_empty, None)"
  by (rule reaches_init)
    (simp add: registry_start_def registry_open_def sample_empty_def load_snapshot_def build_id_index_def initial_state_def)

lemma sample_room: "rs_next_id (sr_state sample_empty) < u64_max"
  by (simp add: sample_empty_def initial_state_def u64_max_def)

lemma sample_reached: "registry_reaches parse sample_registry_codec (sample_registry, Some sample_state)"
  using sample_start sr_register [OF sample_room sample_register] by (rule reaches_step)

section \<open>Properties\<close>

text \<open>
  C36. In every state the registry reaches, a lookup by identifier returns exactly the live
  version a scan of all versions finds, and opening the file again gives the same versions, the
  same counter and the same index; only the compatibility policies are gone.
\<close>

theorem registry_index_exact:
  assumes "snapshot_ok cd" "registry_reaches parse cd (r, f)"
  shows "by_id r i = find (\<lambda>s. sv_id s = i \<and> \<not> sv_deleted s) (all_versions (sr_state r))
    \<and> (sr_durable r \<longrightarrow> registry_open cd f = Ok (r\<lparr>sr_compatibility := []\<rparr>))"
proof -
  have inv: "registry_inv cd (r, f)" by (rule reached_inv [OF assms])
  then have "versions_ok r" "index_exact r" by (simp_all add: registry_inv_def)
  then show ?thesis using by_id_is_scan reopened [OF inv] by blast
qed

theorem registry_index_exact_witness:
  "by_id sample_registry 1 = Some sample_schema \<and> by_id sample_registry 2 = None
   \<and> registry_open sample_registry_codec (Some sample_state) = Ok sample_registry"
  using registry_index_exact [OF sample_registry_codec_ok sample_reached, of 1] registry_index_exact [OF sample_registry_codec_ok sample_reached, of 2]
  by (simp add: sample_registry_def sample_state_def sample_schema_def all_versions_def)

text \<open>
  C37. An identifier the registry has issued denotes the schema of that registration for ever:
  after any further registrations, deletions, rollbacks and restarts, a message that names the
  identifier is checked against the registration's tenant and subject and gets its very
  definition, as long as that version is not deleted.
\<close>

theorem schema_id_stable:
  assumes codec: "snapshot_ok cd" and reached: "registry_reaches parse cd (r, f)"
    and room: "rs_next_id (sr_state r) < u64_max"
    and registered: "registry_register parse cd g r f = (Ok s, r1, f1)"
    and steps: "(registry_step parse cd)\<^sup>*\<^sup>* (r1, f1) (r2, f2)"
  shows "sv_definition s = reg_definition g \<and> sv_format s = reg_format g
    \<and> validate_message_metadata r2 tenant subject (sv_id s) =
       (if registry_get r2 (reg_tenant g) (reg_subject g) (sv_version s) = None then Err ''schema ID is not active''
        else if tenant \<noteq> reg_tenant g then Err ''schema belongs to another tenant''
        else if subject \<noteq> reg_subject g then Err ''schema subject does not match message''
        else Ok s)"
proof -
  let ?key = "subject_key (reg_tenant g) (reg_subject g)"
  have inv: "registry_inv cd (r, f)" by (rule reached_inv [OF codec reached])
  then have ok: "versions_ok r" by (simp add: registry_inv_def)
  have s: "s = new_version g r" using registered by (rule register_cases) simp_all
  have inv1: "registry_inv cd (r1, f1)"
    using registry_inv_step [OF codec inv] sr_register [OF room registered] by blast
  have "stored_version r1 ?key (sv_version s) = Some s"
    using register_writes(1) [OF ok room registered] by (rule writes_versionD(1))
  then obtain b where b: "stored_version r2 ?key (sv_version s) = Some (s\<lparr>sv_deleted := b\<rparr>)"
    using version_stable [OF codec inv1 steps, of ?key "sv_version s" s] by auto
  have "registry_inv cd (r2, f2)" using sr.steps_inv [OF steps] codec inv1 by blast
  then have ok2: "versions_ok r2" "index_exact r2" by (simp_all add: registry_inv_def)
  have "by_id r2 (sv_id s) = (if b then None else Some s)"
    using by_id_unique [OF ok2 b] s by (auto simp: new_version_def)
  moreover have "registry_get r2 (reg_tenant g) (reg_subject g) (sv_version s) = (if b then None else Some s)"
    using registry_get_stored [OF ok2(1)] b s by (auto simp: new_version_def)
  ultimately show ?thesis using s by (auto simp: validate_message_metadata_def new_version_def)
qed

theorem schema_id_stable_witness:
  "validate_message_metadata sample_registry ''acme'' ''orders'' 1 = Ok sample_schema
   \<and> validate_message_metadata sample_registry ''evil'' ''orders'' 1 = Err ''schema belongs to another tenant''"
proof -
  have "sv_id sample_schema = 1" "sv_version sample_schema = 1" by (simp_all add: sample_schema_def)
  moreover have "registry_get sample_registry ''acme'' ''orders'' 1 = Some sample_schema"
    by (simp add: registry_get_def versions_at_def sample_registry_def sample_state_def subject_key_def live_version_def sample_schema_def)
  ultimately show ?thesis
    using schema_id_stable [OF sample_registry_codec_ok sample_start sample_room sample_register rtranclp.rtrancl_refl,
        where tenant = "''acme''" and subject = "''orders''"]
      schema_id_stable [OF sample_registry_codec_ok sample_start sample_room sample_register rtranclp.rtrancl_refl,
        where tenant = "''evil''" and subject = "''orders''"]
    by (simp add: sample_registration_def)
qed

end
