(* ===== verification/Cross_Region.thy ===== *)
theory Cross_Region
  imports Message_Envelope
begin

text \<open>
  Cross-region segment replication, from \<open>crates/server/src/cross_region.rs\<close>: a region keeps a
  role, a fencing token and one checkpoint per partition in a snapshot file, accepts segment
  chunks, and changes roles. The digest of the SHA-256 library and the snapshot encoding are
  parameters.

  The theorems: the chunks accepted for a partition are verified and contiguous and the
  checkpoint is their end, over role changes and restarts; a token from before a role change is
  refused for ever.
\<close>

section \<open>Data\<close>

datatype region_role = Primary | Standby | Fenced

datatype read_locality = PrimaryOnly | PreferLocal | LocalOnly

record replication_topology =
  rt_primary_region :: string
  rt_standby_regions :: "string list"
  rt_read_locality :: read_locality

record replication_policy =
  rp_max_lag_offsets :: u64
  rp_max_bandwidth_bytes_per_second :: u64
  rp_max_in_flight_chunks :: u32

record segment_chunk =
  ch_stream :: string
  ch_partition :: u32
  ch_segment_id :: u64
  ch_first_offset :: u64
  ch_last_offset :: u64
  ch_bytes :: bytes
  ch_checksum :: string

record replication_checkpoint =
  ck_segment_id :: "u64 option"
  ck_last_offset :: "u64 option"
  ck_checksum :: "string option"

record replication_status =
  rs_role :: region_role
  rs_fencing_token :: u64
  rs_lag_offsets :: u64
  rs_within_lag_policy :: bool

record region_state =
  rg_role :: region_role
  rg_fencing_token :: u64
  rg_checkpoints :: "(string, replication_checkpoint) btree_map"

record cross_region_replicator =
  cr_durable :: bool
  cr_policy :: replication_policy
  cr_state :: region_state
  cr_bytes_in_window :: u64
  cr_in_flight :: u32

type_synonym digest = "bytes \<Rightarrow> bytes"

definition hex_digit :: "nat \<Rightarrow> char" where
  "hex_digit n = (if n < 10 then char_of (48 + n) else char_of (87 + n))"

definition sha256 :: "digest \<Rightarrow> bytes \<Rightarrow> string" where
  "sha256 digest bs = concat (map (\<lambda>b. [hex_digit (unat b div 16), hex_digit (unat b mod 16)]) (digest bs))"

definition segment_chunk_new :: "digest \<Rightarrow> string \<Rightarrow> u32 \<Rightarrow> u64 \<Rightarrow> u64 \<Rightarrow> u64 \<Rightarrow> bytes \<Rightarrow> segment_chunk" where
  "segment_chunk_new digest stream part segment_id first_offset last_offset bs =
     \<lparr>ch_stream = stream, ch_partition = part, ch_segment_id = segment_id, ch_first_offset = first_offset,
      ch_last_offset = last_offset, ch_bytes = bs, ch_checksum = sha256 digest bs\<rparr>"

definition default_checkpoint :: replication_checkpoint where
  "default_checkpoint = \<lparr>ck_segment_id = None, ck_last_offset = None, ck_checksum = None\<rparr>"

definition checkpoint_key :: "string \<Rightarrow> u32 \<Rightarrow> string" where
  "checkpoint_key stream part = stream @ '':'' @ decimal10 part"

section \<open>Operations\<close>

definition replicator_new :: "replication_policy \<Rightarrow> region_role \<Rightarrow> cross_region_replicator" where
  "replicator_new policy role =
     \<lparr>cr_durable = False, cr_policy = policy,
      cr_state = \<lparr>rg_role = role, rg_fencing_token = 1, rg_checkpoints = []\<rparr>, cr_bytes_in_window = 0, cr_in_flight = 0\<rparr>"

definition initial_region :: region_state where
  "initial_region = \<lparr>rg_role = Standby, rg_fencing_token = 1, rg_checkpoints = []\<rparr>"

definition replicator_open ::
  "(region_state, 'f) snapshot_codec \<Rightarrow> 'f option \<Rightarrow> replication_policy \<Rightarrow> cross_region_replicator result" where
  "replicator_open cd file policy =
     (case load_snapshot cd initial_region file of
        None \<Rightarrow> Err ''decoding replication checkpoint''
      | Some st \<Rightarrow>
          Ok \<lparr>cr_durable = True, cr_policy = policy, cr_state = st, cr_bytes_in_window = 0, cr_in_flight = 0\<rparr>)"

definition replicator_persist ::
  "(region_state, 'f) snapshot_codec \<Rightarrow> cross_region_replicator \<Rightarrow> 'f option \<Rightarrow> 'f option" where
  "replicator_persist cd r file = store_snapshot cd (cr_durable r) (cr_state r) file"

definition region_checkpoint :: "cross_region_replicator \<Rightarrow> string \<Rightarrow> u32 \<Rightarrow> replication_checkpoint" where
  "region_checkpoint r stream part =
     (case map_of (rg_checkpoints (cr_state r)) (checkpoint_key stream part) of None \<Rightarrow> default_checkpoint | Some c \<Rightarrow> c)"

definition replication_lag :: "cross_region_replicator \<Rightarrow> string \<Rightarrow> u32 \<Rightarrow> u64 \<Rightarrow> u64" where
  "replication_lag r stream part primary_high_watermark =
     primary_high_watermark
       - (case ck_last_offset (region_checkpoint r stream part) of None \<Rightarrow> 0 | Some offset \<Rightarrow> sat_add64 offset 1)"

definition region_status :: "cross_region_replicator \<Rightarrow> string \<Rightarrow> u32 \<Rightarrow> u64 \<Rightarrow> replication_status" where
  "region_status r stream part primary_high_watermark =
     (let lag = replication_lag r stream part primary_high_watermark
      in \<lparr>rs_role = rg_role (cr_state r), rs_fencing_token = rg_fencing_token (cr_state r), rs_lag_offsets = lag,
          rs_within_lag_policy = (lag \<le> rp_max_lag_offsets (cr_policy r))\<rparr>)"

definition check_chunk :: "digest \<Rightarrow> segment_chunk \<Rightarrow> u64 \<Rightarrow> cross_region_replicator \<Rightarrow> string option" where
  "check_chunk digest c token r =
     (if rg_role (cr_state r) = Fenced then Some ''region is fenced''
      else if token \<noteq> rg_fencing_token (cr_state r) then Some ''stale replication fencing token''
      else if sha256 digest (ch_bytes c) \<noteq> ch_checksum c then Some ''replication chunk checksum mismatch''
      else if \<not> ch_first_offset c \<le> ch_last_offset c then Some ''invalid replication offset range''
      else if \<not> cr_in_flight r < rp_max_in_flight_chunks (cr_policy r) then Some ''replication in-flight limit reached''
      else if \<not> sat_add64 (cr_bytes_in_window r) (length (ch_bytes c)) \<le> rp_max_bandwidth_bytes_per_second (cr_policy r)
      then Some ''replication bandwidth limit reached''
      else None)"

definition checkpoint_of :: "segment_chunk \<Rightarrow> replication_checkpoint" where
  "checkpoint_of c =
     \<lparr>ck_segment_id = Some (ch_segment_id c), ck_last_offset = Some (ch_last_offset c), ck_checksum = Some (ch_checksum c)\<rparr>"

text \<open>\<open>current\<close> is an entry of the map; a fresh entry is only left behind when the chunk is accepted.\<close>

definition ship ::
  "digest \<Rightarrow> (region_state, 'f) snapshot_codec \<Rightarrow> segment_chunk \<Rightarrow> u64 \<Rightarrow> cross_region_replicator \<Rightarrow> 'f option
     \<Rightarrow> bool result \<times> cross_region_replicator \<times> 'f option" where
  "ship digest cd c token r file =
     (case check_chunk digest c token r of
        Some e \<Rightarrow> (Err e, r, file)
      | None \<Rightarrow>
         (let key = checkpoint_key (ch_stream c) (ch_partition c);
              current = region_checkpoint r (ch_stream c) (ch_partition c)
          in if (case ck_last_offset current of None \<Rightarrow> False | Some offset \<Rightarrow> ch_last_offset c < offset)
             then (Ok False, r, file)
             else if ck_last_offset current = Some (ch_last_offset c)
             then (if ck_checksum current = Some (ch_checksum c) then (Ok False, r, file)
                   else (Err ''conflicting replicated position'', r, file))
             else if \<not> (case ck_last_offset current of None \<Rightarrow> True | Some offset \<Rightarrow> ch_first_offset c = sat_add64 offset 1)
             then (Err ''replication chunk creates an offset gap'', r, file)
             else if cr_bytes_in_window r + length (ch_bytes c) > u64_max
             then (Err ''attempt to add with overflow'', r, file)
             else
               let st = (cr_state r)\<lparr>rg_checkpoints := bt_insert key (checkpoint_of c) (rg_checkpoints (cr_state r))\<rparr>;
                   r = r\<lparr>cr_state := st, cr_bytes_in_window := cr_bytes_in_window r + length (ch_bytes c),
                         cr_in_flight := cr_in_flight r + 1 - 1\<rparr>
               in (Ok True, r, replicator_persist cd r file)))"

definition reset_bandwidth_window :: "cross_region_replicator \<Rightarrow> cross_region_replicator" where
  "reset_bandwidth_window r = r\<lparr>cr_bytes_in_window := 0\<rparr>"

definition change_role ::
  "(region_state, 'f) snapshot_codec \<Rightarrow> region_role \<Rightarrow> cross_region_replicator \<Rightarrow> 'f option
     \<Rightarrow> cross_region_replicator \<times> 'f option" where
  "change_role cd role r file =
     (let r = r\<lparr>cr_state := (cr_state r)\<lparr>rg_fencing_token := sat_add64 (rg_fencing_token (cr_state r)) 1, rg_role := role\<rparr>\<rparr>
      in (r, replicator_persist cd r file))"

definition region_promote ::
  "(region_state, 'f) snapshot_codec \<Rightarrow> u64 \<Rightarrow> cross_region_replicator \<Rightarrow> 'f option
     \<Rightarrow> u64 result \<times> cross_region_replicator \<times> 'f option" where
  "region_promote cd expected r file =
     (if expected \<noteq> rg_fencing_token (cr_state r) then (Err ''stale promotion token'', r, file)
      else let (r, file) = change_role cd Primary r file in (Ok (rg_fencing_token (cr_state r)), r, file))"

definition failover ::
  "(region_state, 'f) snapshot_codec \<Rightarrow> string \<Rightarrow> u32 \<Rightarrow> u64 \<Rightarrow> u64 \<Rightarrow> cross_region_replicator \<Rightarrow> 'f option
     \<Rightarrow> u64 result \<times> cross_region_replicator \<times> 'f option" where
  "failover cd stream part primary_high_watermark expected r file =
     (if \<not> replication_lag r stream part primary_high_watermark \<le> rp_max_lag_offsets (cr_policy r)
      then (Err ''replication lag exceeds failover recovery-point policy'', r, file)
      else region_promote cd expected r file)"

definition fence ::
  "(region_state, 'f) snapshot_codec \<Rightarrow> cross_region_replicator \<Rightarrow> 'f option
     \<Rightarrow> u64 result \<times> cross_region_replicator \<times> 'f option" where
  "fence cd r file = (let (r, file) = change_role cd Fenced r file in (Ok (rg_fencing_token (cr_state r)), r, file))"

definition demote ::
  "(region_state, 'f) snapshot_codec \<Rightarrow> cross_region_replicator \<Rightarrow> 'f option
     \<Rightarrow> unit result \<times> cross_region_replicator \<times> 'f option" where
  "demote cd r file = (let (r, file) = change_role cd Standby r file in (Ok (), r, file))"

section \<open>Runs\<close>

datatype region_op =
    ShipOp segment_chunk u64
  | ResetOp
  | PromoteOp u64
  | FailoverOp string u32 u64 u64
  | FenceOp
  | DemoteOp
  | ReopenOp replication_policy

text \<open>One call, with the chunk it accepted and the token the chunk came under. A file that cannot be decoded leaves no replicator to call.\<close>

definition region_step ::
  "digest \<Rightarrow> (region_state, 'f) snapshot_codec \<Rightarrow> region_op \<Rightarrow> cross_region_replicator \<times> 'f option
     \<Rightarrow> (u64 \<times> segment_chunk) list \<times> cross_region_replicator \<times> 'f option" where
  "region_step digest cd op w = (case w of (r, f) \<Rightarrow>
     (case op of
        ShipOp c token \<Rightarrow> (let (res, w') = ship digest cd c token r f in (if res = Ok True then [(token, c)] else [], w'))
      | ResetOp \<Rightarrow> ([], reset_bandwidth_window r, f)
      | PromoteOp t \<Rightarrow> ([], snd (region_promote cd t r f))
      | FailoverOp stream part h t \<Rightarrow> ([], snd (failover cd stream part h t r f))
      | FenceOp \<Rightarrow> ([], snd (fence cd r f))
      | DemoteOp \<Rightarrow> ([], snd (demote cd r f))
      | ReopenOp policy \<Rightarrow>
          ([], if cr_durable r then (case replicator_open cd f policy of Ok r' \<Rightarrow> (r', f) | Err _ \<Rightarrow> (r, f)) else (r, f))))"

fun region_run ::
  "digest \<Rightarrow> (region_state, 'f) snapshot_codec \<Rightarrow> region_op list \<Rightarrow> cross_region_replicator \<times> 'f option
     \<Rightarrow> (u64 \<times> segment_chunk) list \<times> cross_region_replicator \<times> 'f option" where
  "region_run digest cd [] w = ([], w)"
| "region_run digest cd (op # ops) w =
     (let (cs, w') = region_step digest cd op w; (ds, w'') = region_run digest cd ops w' in (cs @ ds, w''))"

definition region_start :: "(region_state, 'f) snapshot_codec \<Rightarrow> cross_region_replicator \<times> 'f option \<Rightarrow> bool" where
  "region_start cd w \<longleftrightarrow>
     snd w = None \<and> ((\<exists>policy role. fst w = replicator_new policy role) \<or> (\<exists>policy. replicator_open cd None policy = Ok (fst w)))"

definition on_disk :: "(region_state, 'f) snapshot_codec \<Rightarrow> cross_region_replicator \<times> 'f option \<Rightarrow> bool" where
  "on_disk cd = (\<lambda>(r, f). bt_wf (rg_checkpoints (cr_state r)) \<and> cr_in_flight r = 0
     \<and> rg_fencing_token (cr_state r) \<le> u64_max \<and> (cr_durable r \<longrightarrow> load_snapshot cd initial_region f = Some (cr_state r)))"

definition chunk_bounded :: "region_op \<Rightarrow> bool" where
  "chunk_bounded op = (case op of ShipOp c _ \<Rightarrow> ch_last_offset c \<le> u64_max | _ \<Rightarrow> True)"

text \<open>What one step does to the state: nothing, a new token and role, or one accepted chunk.\<close>

lemma ship_cases:
  assumes "ship digest cd c token r f = (res, r', f')"
  obtains (kept) "res \<noteq> Ok True" "r' = r" "f' = f"
  | (accepted) "res = Ok True" "check_chunk digest c token r = None"
      "\<And>offset. ck_last_offset (region_checkpoint r (ch_stream c) (ch_partition c)) = Some offset
         \<Longrightarrow> ch_first_offset c = sat_add64 offset 1 \<and> offset < ch_last_offset c"
      "cr_state r' = (cr_state r)\<lparr>rg_checkpoints :=
         bt_insert (checkpoint_key (ch_stream c) (ch_partition c)) (checkpoint_of c) (rg_checkpoints (cr_state r))\<rparr>"
      "cr_durable r' = cr_durable r" "cr_in_flight r' = cr_in_flight r" "cr_policy r' = cr_policy r"
      "f' = store_snapshot cd (cr_durable r) (cr_state r') f"
proof (cases "check_chunk digest c token r")
  case (Some e)
  then show ?thesis using assms kept by (auto simp: ship_def)
next
  case None
  let ?last = "ck_last_offset (region_checkpoint r (ch_stream c) (ch_partition c))"
  show ?thesis
  proof (cases "res = Ok True")
    case True
    have "(case ?last of None \<Rightarrow> False | Some offset \<Rightarrow> ch_last_offset c < offset) = False"
      "?last \<noteq> Some (ch_last_offset c)"
      "(case ?last of None \<Rightarrow> True | Some offset \<Rightarrow> ch_first_offset c = sat_add64 offset 1)"
      using assms None True by (auto simp: ship_def Let_def split: if_splits)
    then have "ch_first_offset c = sat_add64 offset 1 \<and> offset < ch_last_offset c" if "?last = Some offset" for offset
      using that by simp
    then show ?thesis
      using assms None True accepted by (auto simp: ship_def Let_def replicator_persist_def split: if_splits)
  next
    case False
    then have "r' = r \<and> f' = f" using assms None by (auto simp: ship_def Let_def split: if_splits)
    then show ?thesis using kept False by blast
  qed
qed

definition for_partition :: "string \<Rightarrow> u32 \<Rightarrow> segment_chunk \<Rightarrow> bool" where
  "for_partition stream part c \<longleftrightarrow> ch_stream c = stream \<and> ch_partition c = part"

definition contiguous :: "segment_chunk list \<Rightarrow> bool" where
  "contiguous cs = successively (\<lambda>c d. ch_first_offset d = ch_last_offset c + 1) cs"

definition verified :: "digest \<Rightarrow> segment_chunk \<Rightarrow> bool" where
  "verified digest c \<longleftrightarrow> sha256 digest (ch_bytes c) = ch_checksum c \<and> ch_first_offset c \<le> ch_last_offset c"

definition end_of :: "segment_chunk list \<Rightarrow> replication_checkpoint" where
  "end_of cs = (if cs = [] then default_checkpoint else checkpoint_of (last cs))"

definition history_ok :: "digest \<Rightarrow> region_state \<Rightarrow> segment_chunk list \<Rightarrow> bool" where
  "history_ok digest st cs \<longleftrightarrow>
     list_all (verified digest) cs
     \<and> (\<forall>stream part. contiguous (filter (for_partition stream part) cs)
          \<and> (case map_of (rg_checkpoints st) (checkpoint_key stream part) of None \<Rightarrow> default_checkpoint | Some c \<Rightarrow> c)
             = end_of (filter (for_partition stream part) cs))"

text \<open>The accepted chunks with their tokens: the tokens never decrease, and the region's own is not behind.\<close>

definition tokens_ok :: "region_state \<Rightarrow> (u64 \<times> segment_chunk) list \<Rightarrow> bool" where
  "tokens_ok st hs \<longleftrightarrow> sorted (map fst hs) \<and> (\<forall>t\<in>set (map fst hs). t \<le> rg_fencing_token st)"

lemma contiguous_snoc:
  "contiguous (cs @ [c]) \<longleftrightarrow> contiguous cs \<and> (cs \<noteq> [] \<longrightarrow> ch_first_offset c = ch_last_offset (last cs) + 1)"
  by (auto simp: contiguous_def successively_append_iff)

lemma checkpoint_key_inj: "checkpoint_key s p = checkpoint_key s' p' \<longleftrightarrow> s = s' \<and> p = p'"
  unfolding checkpoint_key_def by (rule decimal10_key_inj)

lemma history_accept:
  assumes wf: "bt_wf (rg_checkpoints st)" and ok: "history_ok digest st cs" and c: "verified digest c" "ch_last_offset c \<le> u64_max"
    and next_offset: "\<And>offset. ck_last_offset (case map_of (rg_checkpoints st) (checkpoint_key (ch_stream c) (ch_partition c)) of
         None \<Rightarrow> default_checkpoint | Some c \<Rightarrow> c) = Some offset \<Longrightarrow> ch_first_offset c = sat_add64 offset 1 \<and> offset < ch_last_offset c"
  shows "history_ok digest (st\<lparr>rg_checkpoints :=
     bt_insert (checkpoint_key (ch_stream c) (ch_partition c)) (checkpoint_of c) (rg_checkpoints st)\<rparr>) (cs @ [c])"
  unfolding history_ok_def
proof (intro conjI allI)
  show "list_all (verified digest) (cs @ [c])" using ok c(1) by (simp add: history_ok_def)
next
  fix stream part
  let ?hs = "filter (for_partition stream part) cs"
  have old: "contiguous ?hs" "(case map_of (rg_checkpoints st) (checkpoint_key stream part) of
      None \<Rightarrow> default_checkpoint | Some c \<Rightarrow> c) = end_of ?hs"
    using ok by (simp_all add: history_ok_def)
  show "contiguous (filter (for_partition stream part) (cs @ [c]))"
  proof (cases "for_partition stream part c \<and> ?hs \<noteq> []")
    case True
    then have "ck_last_offset (end_of ?hs) = Some (ch_last_offset (last ?hs))" by (simp add: end_of_def checkpoint_of_def)
    then have "ch_first_offset c = sat_add64 (ch_last_offset (last ?hs)) 1 \<and> ch_last_offset (last ?hs) < ch_last_offset c"
      using True next_offset old(2) by (simp add: for_partition_def)
    then show ?thesis using True old(1) c(2) by (simp add: contiguous_snoc sat_add64_def)
  next
    case False
    then show ?thesis using old(1) by (auto simp: contiguous_snoc contiguous_def)
  qed
  show "(case map_of (rg_checkpoints (st\<lparr>rg_checkpoints :=
        bt_insert (checkpoint_key (ch_stream c) (ch_partition c)) (checkpoint_of c) (rg_checkpoints st)\<rparr>))
        (checkpoint_key stream part) of None \<Rightarrow> default_checkpoint | Some c \<Rightarrow> c)
      = end_of (filter (for_partition stream part) (cs @ [c]))"
    using wf old(2) by (auto simp: checkpoint_key_inj for_partition_def end_of_def)
qed

lemma change_role_keeps:
  assumes "snapshot_ok cd" "on_disk cd (r, f)"
  shows "on_disk cd (change_role cd role r f)"
    "rg_checkpoints (cr_state (fst (change_role cd role r f))) = rg_checkpoints (cr_state r)"
    "rg_fencing_token (cr_state (fst (change_role cd role r f))) = sat_add64 (rg_fencing_token (cr_state r)) 1"
    "cr_policy (fst (change_role cd role r f)) = cr_policy r"
  using assms load_store_snapshot [OF assms(1)]
  by (auto simp: change_role_def Let_def on_disk_def replicator_persist_def sat_add64_le)

lemma change_role_split: "(let (r, f) = change_role cd role r f in (g r, r, f)) = (g (fst (change_role cd role r f)), change_role cd role r f)"
  by (cases "change_role cd role r f") simp

lemmas role_defs = region_promote_def fence_def demote_def failover_def change_role_split

lemma region_step_cases:
  assumes cd: "snapshot_ok cd" and disk: "on_disk cd (r, f)"
    and step: "region_step digest cd op (r, f) = (cs, r', f')"
  obtains (same) "cs = []" "rg_checkpoints (cr_state r') = rg_checkpoints (cr_state r)"
      "rg_fencing_token (cr_state r) \<le> rg_fencing_token (cr_state r')" "on_disk cd (r', f')"
  | (accepted) c token where "op = ShipOp c token" "cs = [(token, c)]" "check_chunk digest c token r = None"
      "\<And>offset. ck_last_offset (region_checkpoint r (ch_stream c) (ch_partition c)) = Some offset
         \<Longrightarrow> ch_first_offset c = sat_add64 offset 1 \<and> offset < ch_last_offset c"
      "cr_state r' = (cr_state r)\<lparr>rg_checkpoints :=
         bt_insert (checkpoint_key (ch_stream c) (ch_partition c)) (checkpoint_of c) (rg_checkpoints (cr_state r))\<rparr>"
      "on_disk cd (r', f')"
proof -
  have token: "rg_fencing_token (cr_state r) \<le> u64_max" using disk by (simp add: on_disk_def)
  have role: thesis if "cs = []" "(r', f') = (r, f) \<or> (\<exists>role. change_role cd role r f = (r', f'))"
    using that(2)
  proof
    assume "(r', f') = (r, f)"
    then show thesis using same that(1) disk by simp
  next
    assume "\<exists>role. change_role cd role r f = (r', f')"
    then obtain role where "change_role cd role r f = (r', f')" by blast
    then show thesis
      using same that(1) change_role_keeps [OF cd disk, of role] sat_add64_ge [OF token, of 1] by simp
  qed
  show thesis
  proof (cases op)
    case (ShipOp c token)
    obtain res r1 f1 where ship: "ship digest cd c token r f = (res, r1, f1)" by (metis prod_cases3)
    then have w: "r1 = r'" "f1 = f'" "cs = (if res = Ok True then [(token, c)] else [])"
      using step ShipOp by (auto simp: region_step_def)
    from ship show ?thesis
    proof (cases rule: ship_cases)
      case kept
      then show ?thesis using role w by auto
    next
      case accepted
      moreover have "on_disk cd (r', f')"
        using accepted(4-8) w disk load_store_snapshot [OF cd] by (auto simp: on_disk_def)
      ultimately show ?thesis using that(2) [OF ShipOp] w by simp
    qed
  next
    case (ReopenOp policy)
    then have "cs = []" "r' = r \<or> cr_durable r \<and> replicator_open cd f policy = Ok r'" "f' = f"
      using step by (auto simp: region_step_def split: if_splits sum.splits)
    moreover have "cr_state r' = cr_state r" "on_disk cd (r', f)" if "cr_durable r" "replicator_open cd f policy = Ok r'"
      using that disk by (auto simp: on_disk_def replicator_open_def)
    ultimately show ?thesis using same disk by auto
  next
    case ResetOp
    then show ?thesis using step same disk by (auto simp: region_step_def reset_bandwidth_window_def on_disk_def)
  qed (use step role in \<open>auto simp: region_step_def role_defs split: if_splits\<close>)
qed

lemma region_step_history:
  assumes cd: "snapshot_ok cd" and disk: "on_disk cd (r, f)"
    and hist: "history_ok digest (cr_state r) (map snd hs)" "tokens_ok (cr_state r) hs"
    and bound: "chunk_bounded op" and step: "region_step digest cd op (r, f) = (cs, r', f')"
  shows "on_disk cd (r', f') \<and> history_ok digest (cr_state r') (map snd (hs @ cs)) \<and> tokens_ok (cr_state r') (hs @ cs)"
  using cd disk step
proof (cases rule: region_step_cases)
  case same
  then show ?thesis using hist by (force simp: history_ok_def tokens_ok_def)
next
  case (accepted c token)
  have "bt_wf (rg_checkpoints (cr_state r))" using disk by (simp add: on_disk_def)
  moreover have "verified digest c" using accepted(3) by (auto simp: check_chunk_def verified_def split: if_splits)
  moreover have "ch_last_offset c \<le> u64_max" using bound accepted(1) by (simp add: chunk_bounded_def)
  ultimately have "history_ok digest (cr_state r') (map snd (hs @ cs))"
    using accepted history_accept [of "cr_state r" digest "map snd hs" c] hist(1) by (simp add: region_checkpoint_def)
  moreover have "token = rg_fencing_token (cr_state r)" using accepted(3) by (auto simp: check_chunk_def split: if_splits)
  then have "tokens_ok (cr_state r') (hs @ cs)" using hist(2) accepted(2,5) by (auto simp: tokens_ok_def sorted_append)
  ultimately show ?thesis using accepted(6) by blast
qed

lemma region_run_history:
  assumes cd: "snapshot_ok cd"
  shows "on_disk cd w \<Longrightarrow> history_ok digest (cr_state (fst w)) (map snd hs) \<Longrightarrow> tokens_ok (cr_state (fst w)) hs
    \<Longrightarrow> list_all chunk_bounded ops \<Longrightarrow> region_run digest cd ops w = (cs, w')
    \<Longrightarrow> on_disk cd w' \<and> history_ok digest (cr_state (fst w')) (map snd (hs @ cs)) \<and> tokens_ok (cr_state (fst w')) (hs @ cs)"
proof (induction ops arbitrary: w hs cs)
  case (Cons op ops)
  obtain r f where w: "w = (r, f)" by (cases w)
  obtain ds r1 f1 where step: "region_step digest cd op w = (ds, r1, f1)" by (metis prod_cases3)
  obtain es w2 where run: "region_run digest cd ops (r1, f1) = (es, w2)" by (cases "region_run digest cd ops (r1, f1)")
  have "cs = ds @ es" "w' = w2" using Cons.prems(5) step run by simp_all
  moreover have "on_disk cd (r1, f1)" "history_ok digest (cr_state r1) (map snd (hs @ ds))" "tokens_ok (cr_state r1) (hs @ ds)"
    using region_step_history [OF cd, of r f digest hs op ds r1 f1] Cons.prems step w by simp_all
  ultimately show ?case using Cons.IH [of "(r1, f1)" "hs @ ds" es] Cons.prems(4) run by simp
qed simp

lemma region_start_ok: "region_start cd w \<Longrightarrow> on_disk cd w \<and> history_ok digest (cr_state (fst w)) [] \<and> tokens_ok (cr_state (fst w)) []"
  by (cases w) (auto simp: region_start_def on_disk_def history_ok_def tokens_ok_def replicator_new_def replicator_open_def load_snapshot_def
    initial_region_def u64_max_def contiguous_def end_of_def)

abbreviation region_next ::
  "digest \<Rightarrow> (region_state, 'f) snapshot_codec \<Rightarrow> cross_region_replicator \<times> 'f option \<Rightarrow> cross_region_replicator \<times> 'f option \<Rightarrow> bool" where
  "region_next digest cd w w' \<equiv> \<exists>op. snd (region_step digest cd op w) = w'"

lemma region_next_ok:
  assumes "snapshot_ok cd" "on_disk cd w" "region_next digest cd w w'"
  shows "on_disk cd w' \<and> rg_fencing_token (cr_state (fst w)) \<le> rg_fencing_token (cr_state (fst w'))"
proof -
  obtain r f r' f' where w: "w = (r, f)" "w' = (r', f')" by (cases w; cases w') auto
  then obtain op cs where "region_step digest cd op (r, f) = (cs, r', f')" using assms(3) by (metis prod.collapse)
  with assms(1,2)[unfolded w(1)] show ?thesis
    unfolding w by (cases rule: region_step_cases) auto
qed

interpretation region: monotone_epoch "\<lambda>w. snapshot_ok cd \<and> region_start cd w" "region_next digest cd"
  "\<lambda>w. snapshot_ok cd \<and> on_disk cd w" "\<lambda>w. rg_fencing_token (cr_state (fst w))" for digest cd
proof unfold_locales
  show "snapshot_ok cd \<and> region_start cd w \<Longrightarrow> snapshot_ok cd \<and> on_disk cd w" for w
    using region_start_ok by blast
  show "snapshot_ok cd \<and> on_disk cd w \<Longrightarrow> region_next digest cd w w' \<Longrightarrow> snapshot_ok cd \<and> on_disk cd w'"
    "snapshot_ok cd \<and> on_disk cd w \<Longrightarrow> region_next digest cd w w'
      \<Longrightarrow> rg_fencing_token (cr_state (fst w)) \<le> rg_fencing_token (cr_state (fst w'))" for w w'
    using region_next_ok by blast+
qed

lemma stale_ship_refused:
  "token \<noteq> rg_fencing_token (cr_state r) \<Longrightarrow> \<exists>e. ship digest cd c token r f = (Err e, r, f)"
  by (simp add: ship_def check_chunk_def)

lemma stale_promotion_refused:
  "token \<noteq> rg_fencing_token (cr_state r) \<Longrightarrow> region_promote cd token r f = (Err ''stale promotion token'', r, f)"
  "token \<noteq> rg_fencing_token (cr_state r) \<Longrightarrow> \<exists>e. failover cd stream part h token r f = (Err e, r, f)"
  by (simp_all add: region_promote_def failover_def)

lemma ship_accepts:
  assumes "on_disk cd (r, f)" "check_chunk digest c token r = None" "cr_bytes_in_window r + length (ch_bytes c) \<le> u64_max"
    and "ck_last_offset (region_checkpoint r (ch_stream c) (ch_partition c)) = None
      \<or> ck_last_offset (region_checkpoint r (ch_stream c) (ch_partition c)) = Some offset
        \<and> ch_first_offset c = offset + 1 \<and> offset < u64_max"
  shows "fst (ship digest cd c token r f) = Ok True"
proof -
  have "ch_first_offset c \<le> ch_last_offset c" using assms(2) by (auto simp: check_chunk_def split: if_splits)
  then show ?thesis using assms by (auto simp: ship_def Let_def sat_add64_def)
qed

text \<open>
  Between calls no chunk is in flight: \<open>ship\<close> takes its slot and gives it back before it returns, so
  a positive limit on chunks in flight refuses nothing.
\<close>

lemma in_flight_limit_never_reached:
  assumes "snapshot_ok cd" "reaches (\<lambda>w. snapshot_ok cd \<and> region_start cd w) (region_next digest cd) (r, f)"
    "0 < rp_max_in_flight_chunks (cr_policy r)"
  shows "fst (ship digest cd c token r f) \<noteq> Err ''replication in-flight limit reached''"
proof -
  have "cr_in_flight r = 0" using region.reaches_inv [OF assms(2)] by (simp add: on_disk_def)
  then show ?thesis using assms(3) by (auto simp: ship_def check_chunk_def Let_def)
qed

section \<open>A sample run\<close>

definition sample_chunk :: segment_chunk where
  "sample_chunk = segment_chunk_new (\<lambda>bs. bs) ''orders'' 0 1 0 4 [0xAB, 0x01]"

definition sample_next :: segment_chunk where
  "sample_next = segment_chunk_new (\<lambda>bs. bs) ''orders'' 0 2 5 9 [0x02]"

definition sample_policy :: replication_policy where
  "sample_policy = \<lparr>rp_max_lag_offsets = 10, rp_max_bandwidth_bytes_per_second = 100, rp_max_in_flight_chunks = 1\<rparr>"

definition sample_ops :: "region_op list" where
  "sample_ops = [ShipOp sample_chunk 1, ReopenOp sample_policy, PromoteOp 1, ShipOp sample_next 1, ShipOp sample_next 2]"

definition region_codec :: "(region_state, region_state) snapshot_codec" where
  "region_codec = \<lparr>sn_encode = (\<lambda>x. x), sn_decode = Some\<rparr>"

definition sample_region :: cross_region_replicator where
  "sample_region =
     \<lparr>cr_durable = True, cr_policy = sample_policy, cr_state = initial_region, cr_bytes_in_window = 0, cr_in_flight = 0\<rparr>"

lemma region_codec_ok: "snapshot_ok region_codec"
  by (simp add: snapshot_ok_def region_codec_def)

lemma sample_region_start: "region_start region_codec (sample_region, None)"
  by (auto simp: region_start_def replicator_open_def load_snapshot_def sample_region_def)

lemmas sample_defs =
  sample_ops_def sample_chunk_def sample_next_def segment_chunk_new_def sample_policy_def sample_region_def region_codec_def
  region_step_def ship_def check_chunk_def checkpoint_of_def region_checkpoint_def default_checkpoint_def checkpoint_key_def
  replicator_persist_def store_snapshot_def load_snapshot_def replicator_open_def role_defs change_role_def initial_region_def
  sat_add64_def u64_max_def Let_def

lemma sample_run:
  "\<exists>r f. region_run (\<lambda>bs. bs) region_codec sample_ops (sample_region, None) = ([(1, sample_chunk), (2, sample_next)], r, f)
     \<and> cr_durable r \<and> rg_fencing_token (cr_state r) = 2"
  by (simp add: sample_defs)

section \<open>Properties\<close>

text \<open>
  C38. Over any sequence of shipments, role changes, window resets and restarts, the chunks that a
  region accepts carry the digest of their bytes, the fencing tokens they come under never
  decrease and the region's own token is not behind them; the chunks of a partition follow each
  other without a gap or an overlap, the checkpoint is the end of the last one, and the file of
  a durable replicator holds its state.
\<close>

theorem accepted_chunks_contiguous:
  assumes "snapshot_ok cd" "region_start cd w" "list_all chunk_bounded ops" "region_run digest cd ops w = (hs, r, f)"
  shows "list_all (verified digest) (map snd hs)
    \<and> sorted (map fst hs) \<and> (\<forall>t\<in>set (map fst hs). t \<le> rg_fencing_token (cr_state r))
    \<and> contiguous (filter (for_partition stream part) (map snd hs))
    \<and> region_checkpoint r stream part = end_of (filter (for_partition stream part) (map snd hs))
    \<and> (cr_durable r \<longrightarrow> load_snapshot cd initial_region f = Some (cr_state r))"
  using region_run_history [OF assms(1), of w digest "[]" ops hs "(r, f)"] region_start_ok [OF assms(2), of digest] assms(3,4)
  by (simp add: history_ok_def tokens_ok_def region_checkpoint_def on_disk_def)

theorem accepted_chunks_contiguous_witness:
  "\<exists>r f. region_run (\<lambda>bs. bs) region_codec sample_ops (sample_region, None) = ([(1, sample_chunk), (2, sample_next)], r, f)
     \<and> 2 \<le> rg_fencing_token (cr_state r)
     \<and> region_checkpoint r ''orders'' 0 = checkpoint_of sample_next \<and> f = Some (cr_state r)"
proof -
  obtain r f where run: "region_run (\<lambda>bs. bs) region_codec sample_ops (sample_region, None) = ([(1, sample_chunk), (2, sample_next)], r, f)"
    and durable: "cr_durable r" using sample_run by blast
  have "list_all chunk_bounded sample_ops" by (simp add: chunk_bounded_def sample_defs)
  from accepted_chunks_contiguous [OF region_codec_ok sample_region_start this run, of "''orders''" 0] durable
  have "region_checkpoint r ''orders'' 0 = end_of (filter (for_partition ''orders'' 0) [sample_chunk, sample_next])"
    "2 \<le> rg_fencing_token (cr_state r)"
    "load_snapshot region_codec initial_region f = Some (cr_state r)" by auto
  moreover have "f \<noteq> None" using run by (auto simp: sample_defs)
  ultimately show ?thesis
    using run by (auto simp: for_partition_def end_of_def sample_chunk_def sample_next_def segment_chunk_new_def
      load_snapshot_def region_codec_def)
qed

text \<open>
  C39. Once a region has been promoted, fenced or demoted, its token has grown and never goes back
  behind that value, and a shipment, a promotion or a failover under the token it had before is
  refused without effect in every later state, also after restarts and further role changes.
\<close>

theorem old_token_refused:
  assumes codec: "snapshot_ok cd"
    and reached: "reaches (\<lambda>w. snapshot_ok cd \<and> region_start cd w) (region_next digest cd) (r, f)"
    and room: "rg_fencing_token (cr_state r) < u64_max"
    and changed: "region_promote cd t r f = (Ok t', r1, f1) \<or> fence cd r f = (Ok t', r1, f1) \<or> demote cd r f = (Ok (), r1, f1)"
    and steps: "(region_next digest cd)\<^sup>*\<^sup>* (r1, f1) (r2, f2)"
    and old: "token \<le> rg_fencing_token (cr_state r)"
  shows "rg_fencing_token (cr_state r1) = rg_fencing_token (cr_state r) + 1
    \<and> rg_fencing_token (cr_state r1) \<le> rg_fencing_token (cr_state r2)
    \<and> (\<exists>e. ship digest cd c token r2 f2 = (Err e, r2, f2))
    \<and> region_promote cd token r2 f2 = (Err ''stale promotion token'', r2, f2)
    \<and> (\<exists>e. failover cd stream part h token r2 f2 = (Err e, r2, f2))"
proof -
  have inv: "snapshot_ok cd \<and> on_disk cd (r, f)" by (rule region.reaches_inv [OF reached])
  from changed obtain role where role: "change_role cd role r f = (r1, f1)"
    by (auto simp: role_defs split: if_splits)
  have inv1: "snapshot_ok cd \<and> on_disk cd (r1, f1)" and grown: "rg_fencing_token (cr_state r1) = rg_fencing_token (cr_state r) + 1"
    using change_role_keeps [of cd r f role] inv role room by (simp_all add: sat_add64_def)
  have later: "rg_fencing_token (cr_state r1) \<le> rg_fencing_token (cr_state r2)"
    using region.epoch_steps [OF steps inv1] by simp
  then have ne: "token \<noteq> rg_fencing_token (cr_state r2)" using grown old by simp
  show ?thesis using grown later stale_ship_refused [OF ne] stale_promotion_refused [OF ne] by blast
qed

theorem old_token_refused_witness:
  "\<exists>r f e. region_promote region_codec 1 sample_region None = (Ok 2, r, f)
     \<and> ship (\<lambda>bs. bs) region_codec sample_chunk 1 r f = (Err e, r, f)
     \<and> region_promote region_codec 1 r f = (Err ''stale promotion token'', r, f)"
proof -
  obtain r f where promoted: "region_promote region_codec 1 sample_region None = (Ok 2, r, f)"
    by (auto simp: sample_defs)
  have "reaches (\<lambda>w. snapshot_ok region_codec \<and> region_start region_codec w) (region_next (\<lambda>bs. bs) region_codec) (sample_region, None)"
    using region_codec_ok sample_region_start by (intro reaches_init) blast
  moreover have "rg_fencing_token (cr_state sample_region) < u64_max" "1 \<le> rg_fencing_token (cr_state sample_region)"
    by (simp_all add: sample_region_def initial_region_def u64_max_def)
  ultimately show ?thesis
    using old_token_refused [OF region_codec_ok _ _ disjI1 [OF promoted] rtranclp.rtrancl_refl] promoted by blast
qed

end
