(* ===== verification/Materialized_View.thy ===== *)
theory Materialized_View
  imports Log_Codec
begin

text \<open>
  Materialized key/value views, from \<open>crates/server/src/materialized_view.rs\<close>: updates with their log
  position are applied to a bounded map, kept in a bounded watch queue, appended to a delta
  journal and checkpointed every 64 updates. The journal is modelled to the byte; JSON and
  CRC-32 are parameters.

  The theorems: a view is what it started from with the updates it accepted since, each once and in
  offset order, through applications, rebuilds and restored snapshots; a watcher either gets every
  event it has not seen or an error; before the first checkpoint and rebuild a restart gives the
  view back. Opening a view that has a checkpoint deletes the journal before it is replayed, and
  a rebuild leaves the journal as it is.
\<close>

section \<open>Data\<close>

record view_position =
  vp_stream :: string
  vp_partition :: u32
  vp_offset :: u64

record view_update =
  vu_key :: string
  vu_value :: "bytes option"
  vu_position :: view_position

record view_event =
  ve_sequence :: u64
  ve_update :: view_update

record view_snapshot =
  vs_tenant :: string
  vs_name :: string
  vs_entries :: "(string, bytes) btree_map"
  vs_positions :: "(string, u64) btree_map"
  vs_last_sequence :: u64

record view_limits =
  vl_max_entries :: nat
  vl_max_value_bytes :: nat
  vl_watch_capacity :: nat

record durable_view =
  dv_snapshot :: view_snapshot
  dv_watch :: "view_event list"

text \<open>\<open>path\<close> and \<open>journal_path\<close> are set together, by \<open>open\<close>.\<close>

record materialized_view =
  mv_durable :: bool
  mv_tenant :: string
  mv_name :: string
  mv_limits :: view_limits
  mv_entries :: "(string, bytes) btree_map"
  mv_positions :: "(string, u64) btree_map"
  mv_last_sequence :: u64
  mv_watch :: "view_event list"
  mv_updates_since_checkpoint :: u64

text \<open>The two files, and the library functions that give their contents.\<close>

record 'f view_disk =
  vd_snapshot :: "'f option"
  vd_journal :: "bytes option"

record 'f view_codec =
  vc_snapshot :: "(durable_view, 'f) snapshot_codec"
  vc_encode :: "view_event \<Rightarrow> bytes"
  vc_decode :: "bytes \<Rightarrow> view_event option"
  vc_crc32 :: "bytes \<Rightarrow> 32 word"

definition VIEW_CHECKPOINT_INTERVAL :: u64 where
  "VIEW_CHECKPOINT_INTERVAL = 64"

definition validate_identity :: "string \<Rightarrow> string \<Rightarrow> unit result" where
  "validate_identity v field =
     (if v \<noteq> [] \<and> length v \<le> 128 \<and> list_all name_char v then Ok () else Err (''invalid view '' @ field))"

definition validate_limits :: "view_limits \<Rightarrow> unit result" where
  "validate_limits l =
     (if vl_max_entries l > 0 \<and> vl_max_value_bytes l > 0 \<and> vl_watch_capacity l > 0 then Ok ()
      else Err ''materialized view limits must be positive'')"

definition validate_update :: "view_update \<Rightarrow> nat \<Rightarrow> unit result" where
  "validate_update u max_value_bytes =
     (if \<not> (vu_key u \<noteq> [] \<and> length (vu_key u) \<le> 512) then Err ''invalid materialized view key''
      else if \<not> (case vu_value u of None \<Rightarrow> True | Some v \<Rightarrow> length v \<le> max_value_bytes)
      then Err ''materialized view value exceeds quota''
      else Ok ())"

definition position_key :: "view_position \<Rightarrow> string" where
  "position_key p = vp_stream p @ '':'' @ decimal10 (vp_partition p)"

section \<open>Operations\<close>

definition view_new :: "string \<Rightarrow> string \<Rightarrow> view_limits \<Rightarrow> materialized_view result" where
  "view_new tenant name limits =
     and_then (validate_identity tenant ''tenant'') (\<lambda>_.
     and_then (validate_identity name ''view'') (\<lambda>_.
     and_then (validate_limits limits) (\<lambda>_.
       Ok \<lparr>mv_durable = False, mv_tenant = tenant, mv_name = name, mv_limits = limits, mv_entries = [], mv_positions = [],
           mv_last_sequence = 0, mv_watch = [], mv_updates_since_checkpoint = 0\<rparr>)))"

definition point_read :: "materialized_view \<Rightarrow> string \<Rightarrow> bytes option" where
  "point_read v key = map_of (mv_entries v) key"

definition entry_count :: "materialized_view \<Rightarrow> nat" where
  "entry_count v = length (mv_entries v)"

definition consistency_positions :: "materialized_view \<Rightarrow> (string, u64) btree_map" where
  "consistency_positions v = mv_positions v"

definition view_snapshot_of :: "materialized_view \<Rightarrow> view_snapshot" where
  "view_snapshot_of v =
     \<lparr>vs_tenant = mv_tenant v, vs_name = mv_name v, vs_entries = mv_entries v, vs_positions = mv_positions v,
      vs_last_sequence = mv_last_sequence v\<rparr>"

text \<open>\<open>persist\<close> writes the snapshot and removes the journal.\<close>

definition view_persist :: "'f view_codec \<Rightarrow> materialized_view \<Rightarrow> 'f view_disk \<Rightarrow> 'f view_disk" where
  "view_persist vc v d =
     (if \<not> mv_durable v then d
      else \<lparr>vd_snapshot = Some (sn_encode (vc_snapshot vc) \<lparr>dv_snapshot = view_snapshot_of v, dv_watch = mv_watch v\<rparr>),
            vd_journal = None\<rparr>)"

definition delta_frame :: "'f view_codec \<Rightarrow> view_event \<Rightarrow> bytes" where
  "delta_frame vc e =
     (let body = vc_encode vc e
      in to_le_bytes 4 (length body mod 2 ^ 32) @ to_le_bytes 4 (unat (vc_crc32 vc body)) @ body)"

definition append_delta :: "'f view_codec \<Rightarrow> view_event \<Rightarrow> materialized_view \<Rightarrow> 'f view_disk \<Rightarrow> 'f view_disk" where
  "append_delta vc e v d =
     (if \<not> mv_durable v then d
      else d\<lparr>vd_journal := Some ((case vd_journal d of None \<Rightarrow> [] | Some bs \<Rightarrow> bs) @ delta_frame vc e)\<rparr>)"

definition put_entry :: "view_update \<Rightarrow> (string, bytes) btree_map \<Rightarrow> (string, bytes) btree_map" where
  "put_entry u entries =
     (case vu_value u of Some v \<Rightarrow> bt_insert (vu_key u) v entries | None \<Rightarrow> bt_remove (vu_key u) entries)"

definition push_watch :: "nat \<Rightarrow> view_event \<Rightarrow> view_event list \<Rightarrow> view_event list" where
  "push_watch capacity e watch = (let w = watch @ [e] in drop (length w - capacity) w)"

text \<open>The early returns of \<open>apply\<close>; \<open>None\<close> when the update is to be applied.\<close>

definition apply_early :: "view_update \<Rightarrow> materialized_view \<Rightarrow> (bool result) option" where
  "apply_early u v =
     (case validate_update u (vl_max_value_bytes (mv_limits v)) of
        Err e \<Rightarrow> Some (Err e)
      | Ok _ \<Rightarrow>
         (let current = map_of (mv_positions v) (position_key (vu_position u));
              offset = vp_offset (vu_position u)
          in if (case current of None \<Rightarrow> False | Some c \<Rightarrow> offset < c) then Some (Ok False)
             else if current = Some offset
             then Some (Ok (case map_of (mv_entries v) (vu_key u) of None \<Rightarrow> vu_value u = None | Some x \<Rightarrow> vu_value u = Some x))
             else if vu_value u \<noteq> None \<and> \<not> bt_contains (vu_key u) (mv_entries v)
                     \<and> length (mv_entries v) \<ge> vl_max_entries (mv_limits v)
             then Some (Err ''materialized view entry quota exceeded'')
             else None))"

definition view_put :: "view_update \<Rightarrow> materialized_view \<Rightarrow> materialized_view \<times> view_event" where
  "view_put u v =
     (let sequence = sat_add64 (mv_last_sequence v) 1;
          e = \<lparr>ve_sequence = sequence, ve_update = u\<rparr>
      in (v\<lparr>mv_entries := put_entry u (mv_entries v),
            mv_positions := bt_insert (position_key (vu_position u)) (vp_offset (vu_position u)) (mv_positions v),
            mv_last_sequence := sequence,
            mv_watch := push_watch (vl_watch_capacity (mv_limits v)) e (mv_watch v)\<rparr>, e))"

definition view_apply ::
  "'f view_codec \<Rightarrow> view_update \<Rightarrow> materialized_view \<Rightarrow> 'f view_disk \<Rightarrow> bool result \<times> materialized_view \<times> 'f view_disk" where
  "view_apply vc u v d =
     (case apply_early u v of
        Some res \<Rightarrow> (res, v, d)
      | None \<Rightarrow>
         (let (v, e) = view_put u v;
              d = append_delta vc e v d;
              v = v\<lparr>mv_updates_since_checkpoint := sat_add64 (mv_updates_since_checkpoint v) 1\<rparr>
          in if mv_updates_since_checkpoint v \<ge> VIEW_CHECKPOINT_INTERVAL
             then (Ok True, v\<lparr>mv_updates_since_checkpoint := 0\<rparr>, view_persist vc v d)
             else (Ok True, v, d)))"

fun apply_all ::
  "'f view_codec \<Rightarrow> view_update list \<Rightarrow> materialized_view \<Rightarrow> 'f view_disk \<Rightarrow> unit result \<times> materialized_view \<times> 'f view_disk" where
  "apply_all vc [] v d = (Ok (), v, d)"
| "apply_all vc (u # us) v d =
     (case view_apply vc u v d of
        (Err e, v, d) \<Rightarrow> (Err e, v, d)
      | (Ok _, v, d) \<Rightarrow> apply_all vc us v d)"

definition rebuild_key :: "view_update \<Rightarrow> string \<times> u32 \<times> u64" where
  "rebuild_key u = (vp_stream (vu_position u), vp_partition (vu_position u), vp_offset (vu_position u))"

definition view_rebuild ::
  "'f view_codec \<Rightarrow> view_update list \<Rightarrow> materialized_view \<Rightarrow> 'f view_disk \<Rightarrow> unit result \<times> materialized_view \<times> 'f view_disk" where
  "view_rebuild vc history v d =
     apply_all vc (sort_key rebuild_key history)
       (v\<lparr>mv_entries := [], mv_positions := [], mv_last_sequence := 0, mv_watch := []\<rparr>) d"

definition restore_snapshot ::
  "'f view_codec \<Rightarrow> view_snapshot \<Rightarrow> materialized_view \<Rightarrow> 'f view_disk \<Rightarrow> unit result \<times> materialized_view \<times> 'f view_disk" where
  "restore_snapshot vc s v d =
     (if vs_tenant s \<noteq> mv_tenant v then (Err ''view snapshot tenant mismatch'', v, d)
      else if vs_name s \<noteq> mv_name v then (Err ''view snapshot name mismatch'', v, d)
      else if \<not> length (vs_entries s) \<le> vl_max_entries (mv_limits v) then (Err ''view snapshot exceeds entry quota'', v, d)
      else if \<not> list_all (\<lambda>x. length x \<le> vl_max_value_bytes (mv_limits v)) (bt_values (vs_entries s))
      then (Err ''view snapshot exceeds value quota'', v, d)
      else
        let v = v\<lparr>mv_entries := vs_entries s, mv_positions := vs_positions s, mv_last_sequence := vs_last_sequence s\<rparr>
        in (Ok (), v, view_persist vc v d))"

definition watch_from :: "materialized_view \<Rightarrow> u64 \<Rightarrow> (view_event list) result" where
  "watch_from v sequence =
     (if (case mv_watch v of [] \<Rightarrow> False | e # _ \<Rightarrow> \<not> sat_add64 sequence 1 \<ge> ve_sequence e) then Err ''view watch cursor expired''
      else Ok (filter (\<lambda>e. ve_sequence e > sequence) (mv_watch v)))"

definition apply_replayed :: "view_event \<Rightarrow> materialized_view \<Rightarrow> materialized_view result" where
  "apply_replayed e v =
     (case validate_update (ve_update e) (vl_max_value_bytes (mv_limits v)) of
        Err x \<Rightarrow> Err x
      | Ok _ \<Rightarrow>
          Ok (v\<lparr>mv_entries := put_entry (ve_update e) (mv_entries v),
                mv_positions := bt_insert (position_key (vu_position (ve_update e))) (vp_offset (vu_position (ve_update e))) (mv_positions v),
                mv_last_sequence := max (mv_last_sequence v) (ve_sequence e),
                mv_watch := push_watch (vl_watch_capacity (mv_limits v)) e (mv_watch v)\<rparr>))"

function replay_deltas :: "'f view_codec \<Rightarrow> bytes \<Rightarrow> materialized_view \<Rightarrow> materialized_view result" where
  "replay_deltas vc bs v =
     (if length bs < 4 then Ok v
      else
        let size = from_le_bytes (take 4 bs); rest = drop 4 bs
        in if length rest < 4 then Err ''failed to fill whole buffer''
           else
             let checksum = from_le_bytes (take 4 rest); rest = drop 4 rest
             in if length rest < size then Err ''failed to fill whole buffer''
                else if vc_crc32 vc (take size rest) \<noteq> word_of_nat checksum
                then Err ''materialized view delta checksum mismatch''
                else case vc_decode vc (take size rest) of
                  None \<Rightarrow> Err ''decoding materialized view delta''
                | Some e \<Rightarrow> (case apply_replayed e v of Err x \<Rightarrow> Err x | Ok v \<Rightarrow> replay_deltas vc (drop size rest) v))"
  by pat_completeness auto
termination
  by (relation "measure (\<lambda>(vc, bs, v). length bs)") auto

declare replay_deltas.simps [simp del]

definition replay_view_journal :: "'f view_codec \<Rightarrow> materialized_view \<Rightarrow> 'f view_disk \<Rightarrow> materialized_view result" where
  "replay_view_journal vc v d =
     (case vd_journal d of None \<Rightarrow> Ok v | Some bs \<Rightarrow> if mv_durable v then replay_deltas vc bs v else Ok v)"

definition view_open ::
  "'f view_codec \<Rightarrow> string \<Rightarrow> string \<Rightarrow> view_limits \<Rightarrow> 'f view_disk \<Rightarrow> materialized_view result \<times> 'f view_disk" where
  "view_open vc tenant name limits d =
     (case view_new tenant name limits of
        Err e \<Rightarrow> (Err e, d)
      | Ok v \<Rightarrow>
         (let v = v\<lparr>mv_durable := True\<rparr>
          in case vd_snapshot d of
               None \<Rightarrow> (replay_view_journal vc v d, d)
             | Some body \<Rightarrow>
                (case sn_decode (vc_snapshot vc) body of
                   None \<Rightarrow> (Err ''decoding materialized view'', d)
                 | Some durable \<Rightarrow>
                    (case restore_snapshot vc (dv_snapshot durable) v d of
                       (Err e, _, d) \<Rightarrow> (Err e, d)
                     | (Ok _, v, d) \<Rightarrow>
                         (replay_view_journal vc (v\<lparr>mv_watch := take (vl_watch_capacity limits) (dv_watch durable)\<rparr>) d, d)))))"

section \<open>Accepted updates\<close>

text \<open>
  What a view started from: nothing, or a snapshot and the events that were in the watch queue
  then. Behind it come the updates that were accepted since.
\<close>

record view_base =
  vb_entries :: "string \<rightharpoonup> bytes"
  vb_positions :: "string \<rightharpoonup> u64"
  vb_sequence :: nat
  vb_watch :: "view_event list"

definition empty_base :: view_base where
  "empty_base = \<lparr>vb_entries = Map.empty, vb_positions = Map.empty, vb_sequence = 0, vb_watch = []\<rparr>"

definition snapshot_base :: "view_snapshot \<Rightarrow> view_event list \<Rightarrow> view_base" where
  "snapshot_base s watch =
     \<lparr>vb_entries = map_of (vs_entries s), vb_positions = map_of (vs_positions s), vb_sequence = vs_last_sequence s, vb_watch = watch\<rparr>"

fun events_from :: "nat \<Rightarrow> view_update list \<Rightarrow> view_event list" where
  "events_from n [] = []"
| "events_from n (u # us) = \<lparr>ve_sequence = Suc n, ve_update = u\<rparr> # events_from (Suc n) us"

definition last_value :: "view_base \<Rightarrow> view_update list \<Rightarrow> string \<Rightarrow> bytes option" where
  "last_value B as k = (case find (\<lambda>u. vu_key u = k) (rev as) of None \<Rightarrow> vb_entries B k | Some u \<Rightarrow> vu_value u)"

definition last_offset :: "view_base \<Rightarrow> view_update list \<Rightarrow> string \<Rightarrow> u64 option" where
  "last_offset B as k =
     (case find (\<lambda>u. position_key (vu_position u) = k) (rev as) of
        None \<Rightarrow> vb_positions B k | Some u \<Rightarrow> Some (vp_offset (vu_position u)))"

definition offsets_at :: "view_base \<Rightarrow> string \<Rightarrow> view_update list \<Rightarrow> u64 list" where
  "offsets_at B k as = (case vb_positions B k of None \<Rightarrow> [] | Some c \<Rightarrow> [c])
     @ map (\<lambda>u. vp_offset (vu_position u)) (filter (\<lambda>u. position_key (vu_position u) = k) as)"

definition last_events :: "nat \<Rightarrow> view_event list \<Rightarrow> view_event list" where
  "last_events c es = drop (length es - c) es"

definition view_ok :: "view_base \<Rightarrow> materialized_view \<Rightarrow> view_update list \<Rightarrow> bool" where
  "view_ok B v as \<longleftrightarrow>
     bt_wf (mv_entries v) \<and> map_of (mv_entries v) = last_value B as \<and> length (mv_entries v) \<le> vl_max_entries (mv_limits v)
     \<and> bt_wf (mv_positions v) \<and> map_of (mv_positions v) = last_offset B as
     \<and> (\<forall>k. sorted_wrt (<) (offsets_at B k as))
     \<and> mv_last_sequence v = vb_sequence B + length as
     \<and> mv_watch v = last_events (vl_watch_capacity (mv_limits v)) (vb_watch B @ events_from (vb_sequence B) as)"

lemma events_snoc: "events_from n (us @ [u]) = events_from n us @ [\<lparr>ve_sequence = Suc (n + length us), ve_update = u\<rparr>]"
  by (induction us arbitrary: n) simp_all

lemma length_events [simp]: "length (events_from n us) = length us"
  by (induction us arbitrary: n) simp_all

lemma nth_events: "i < length us \<Longrightarrow> events_from n us ! i = \<lparr>ve_sequence = Suc (n + i), ve_update = us ! i\<rparr>"
  by (induction us arbitrary: n i) (auto simp: nth_Cons')

lemma last_value_snoc: "last_value B (as @ [u]) = (last_value B as)(vu_key u := vu_value u)"
  by (auto simp: last_value_def fun_eq_iff)

lemma last_offset_snoc: "last_offset B (as @ [u]) = (last_offset B as)(position_key (vu_position u) \<mapsto> vp_offset (vu_position u))"
  by (auto simp: last_offset_def fun_eq_iff)

lemma offsets_at_snoc:
  "offsets_at B k (as @ [u]) = offsets_at B k as @ (if position_key (vu_position u) = k then [vp_offset (vu_position u)] else [])"
  by (simp add: offsets_at_def)

lemma last_offset_last: "last_offset B as k = (if offsets_at B k as = [] then None else Some (last (offsets_at B k as)))"
proof (induction as rule: rev_induct)
  case Nil
  show ?case by (simp add: last_offset_def offsets_at_def split: option.split)
qed (simp add: last_offset_snoc offsets_at_snoc)

lemma put_entry_wf: "bt_wf m \<Longrightarrow> bt_wf (put_entry u m)"
  by (simp add: put_entry_def split: option.split)

lemma map_of_put_entry: "bt_wf m \<Longrightarrow> map_of (put_entry u m) = (map_of m)(vu_key u := vu_value u)"
  by (simp add: put_entry_def split: option.split)

lemma put_entry_length:
  assumes "bt_wf m" "length m \<le> k" "vu_value u \<noteq> None \<Longrightarrow> \<not> bt_contains (vu_key u) m \<Longrightarrow> length m < k"
  shows "length (put_entry u m) \<le> k"
proof (cases "vu_value u")
  case None
  have "length (bt_remove (vu_key u) m) \<le> length m" by (simp add: bt_remove_def)
  with None assms(2) show ?thesis by (simp add: put_entry_def)
next
  case (Some x)
  then show ?thesis using assms length_bt_insert [OF assms(1), of "vu_key u" x] by (auto simp: put_entry_def bt_contains_iff)
qed

lemma push_watch_events:
  assumes "0 < c"
  shows "push_watch c e (last_events c es) = last_events c (es @ [e])"
  using assms by (cases "length es < c") (auto simp: push_watch_def last_events_def Let_def Suc_diff_le)

lemma le_last: "sorted_wrt (<) xs \<Longrightarrow> x \<in> set xs \<Longrightarrow> x \<le> last xs" for x :: nat
  by (induction xs rule: rev_induct) (auto simp: sorted_wrt_append less_imp_le)

text \<open>An update that is not answered early is valid, within the quota and beyond the position.\<close>

lemma apply_early_None:
  assumes "apply_early u v = None"
  shows "validate_update u (vl_max_value_bytes (mv_limits v)) = Ok ()"
    "\<And>c. map_of (mv_positions v) (position_key (vu_position u)) = Some c \<Longrightarrow> c < vp_offset (vu_position u)"
    "vu_value u \<noteq> None \<Longrightarrow> \<not> bt_contains (vu_key u) (mv_entries v) \<Longrightarrow> length (mv_entries v) < vl_max_entries (mv_limits v)"
  using assms unfolding apply_early_def by (auto simp: Let_def split: sum.splits if_splits)

lemma view_put_ok:
  assumes ok: "view_ok B v as" and early: "apply_early u v = None" and room: "vb_sequence B + length as < u64_max"
    and cap: "0 < vl_watch_capacity (mv_limits v)"
  shows "view_ok B (fst (view_put u v)) (as @ [u])"
    "snd (view_put u v) = \<lparr>ve_sequence = Suc (vb_sequence B + length as), ve_update = u\<rparr>"
proof -
  note e = apply_early_None [OF early]
  have sequence: "sat_add64 (mv_last_sequence v) 1 = Suc (vb_sequence B + length as)" using ok room by (simp add: view_ok_def sat_add64_def)
  then show "snd (view_put u v) = \<lparr>ve_sequence = Suc (vb_sequence B + length as), ve_update = u\<rparr>" by (simp add: view_put_def Let_def)
  have wf: "bt_wf (mv_entries v)" "bt_wf (mv_positions v)" and maps: "map_of (mv_entries v) = last_value B as"
    "map_of (mv_positions v) = last_offset B as" "length (mv_entries v) \<le> vl_max_entries (mv_limits v)"
    using ok by (simp_all add: view_ok_def)
  have last: "c < vp_offset (vu_position u)" if "c \<in> set (offsets_at B (position_key (vu_position u)) as)" for c
  proof -
    let ?os = "offsets_at B (position_key (vu_position u)) as"
    have "?os \<noteq> []" using that by auto
    then have "last ?os < vp_offset (vu_position u)" using e(2) maps(2) by (simp add: last_offset_last)
    moreover have "sorted_wrt (<) ?os" using ok by (simp add: view_ok_def)
    then have "c \<le> last ?os" using that by (rule le_last)
    ultimately show ?thesis by simp
  qed
  have watch: "push_watch (vl_watch_capacity (mv_limits v)) e (last_events (vl_watch_capacity (mv_limits v)) (xs @ ys))
      = last_events (vl_watch_capacity (mv_limits v)) (xs @ ys @ [e])" for e xs ys
    using push_watch_events [OF cap, of e "xs @ ys"] by simp
  have "sorted_wrt (<) (offsets_at B k (as @ [u]))" for k
    using ok last by (auto simp: view_ok_def offsets_at_snoc sorted_wrt_append)
  moreover have "length (put_entry u (mv_entries v)) \<le> vl_max_entries (mv_limits v)"
    by (rule put_entry_length [OF wf(1) maps(3) e(3)])
  moreover have "mv_watch v = last_events (vl_watch_capacity (mv_limits v)) (vb_watch B @ events_from (vb_sequence B) as)"
    using ok by (simp add: view_ok_def)
  ultimately show "view_ok B (fst (view_put u v)) (as @ [u])"
    using wf maps sequence watch
    by (simp add: view_ok_def view_put_def Let_def put_entry_wf map_of_put_entry last_value_snoc last_offset_snoc events_snoc)
qed

lemma view_apply_cases:
  assumes "view_apply vc u v d = (res, v', d')"
  obtains (early) x where "apply_early u v = Some x" "res = x" "v' = v" "d' = d"
  | (put) n where "apply_early u v = None" "res = Ok True" "v' = (fst (view_put u v))\<lparr>mv_updates_since_checkpoint := n\<rparr>"
proof (cases "apply_early u v")
  case (Some x)
  show thesis by (rule early [OF Some]) (use assms Some in \<open>simp_all add: view_apply_def\<close>)
next
  case None
  obtain w e where w: "view_put u v = (w, e)" by (cases "view_put u v")
  have "\<exists>n d''. view_apply vc u v d = (Ok True, w\<lparr>mv_updates_since_checkpoint := n\<rparr>, d'')"
    using None w by (cases "VIEW_CHECKPOINT_INTERVAL \<le> sat_add64 (mv_updates_since_checkpoint w) 1") (auto simp: view_apply_def Let_def)
  then obtain n where n: "res = Ok True" "v' = w\<lparr>mv_updates_since_checkpoint := n\<rparr>" using assms by auto
  show thesis by (rule put [OF None n(1), of n]) (simp add: n(2) w)
qed

lemma view_put_fields: "mv_limits (fst (view_put u v)) = mv_limits v" "mv_tenant (fst (view_put u v)) = mv_tenant v" "mv_name (fst (view_put u v)) = mv_name v"
  by (simp_all add: view_put_def Let_def)

lemma view_apply_ok:
  assumes "view_ok B v as" "view_apply vc u v d = (res, v', d')" "vb_sequence B + length as < u64_max"
    and "0 < vl_watch_capacity (mv_limits v)"
  shows "view_ok B v' (if apply_early u v = None then as @ [u] else as) \<and> mv_limits v' = mv_limits v"
  using assms(2)
proof (cases rule: view_apply_cases)
  case (put n)
  then show ?thesis using view_put_ok(1) [OF assms(1) _ assms(3,4)] by (simp add: view_ok_def view_put_fields)
qed (use assms(1) in simp)

text \<open>The updates that a sequence of applications accepts before the first error.\<close>

fun accepted :: "'f view_codec \<Rightarrow> view_update list \<Rightarrow> materialized_view \<Rightarrow> 'f view_disk \<Rightarrow> view_update list" where
  "accepted vc [] v d = []"
| "accepted vc (u # us) v d =
     (case view_apply vc u v d of
        (Err e, v', d') \<Rightarrow> []
      | (Ok _, v', d') \<Rightarrow> (if apply_early u v = None then [u] else []) @ accepted vc us v' d')"

definition view_cleared :: "materialized_view \<Rightarrow> materialized_view" where
  "view_cleared v = v\<lparr>mv_entries := [], mv_positions := [], mv_last_sequence := 0, mv_watch := []\<rparr>"

lemma apply_all_ok:
  assumes "view_ok B v as" "apply_all vc us v d = (res, v', d')" "vb_sequence B + length (as @ accepted vc us v d) < u64_max"
    and "0 < vl_watch_capacity (mv_limits v)"
  shows "view_ok B v' (as @ accepted vc us v d) \<and> mv_limits v' = mv_limits v"
  using assms
proof (induction us arbitrary: v d as)
  case (Cons u us)
  obtain r1 v1 d1 where step: "view_apply vc u v d = (r1, v1, d1)" by (metis prod_cases3)
  show ?case
  proof (cases r1)
    case (Inl e)
    then have "apply_early u v \<noteq> None" using step by (auto elim!: view_apply_cases)
    with Inl step Cons.prems show ?thesis using view_apply_ok [OF Cons.prems(1) step] by auto
  next
    case (Inr b)
    let ?as = "if apply_early u v = None then as @ [u] else as"
    have acc: "as @ accepted vc (u # us) v d = ?as @ accepted vc us v1 d1" using step Inr by simp
    have "view_ok B v1 ?as \<and> mv_limits v1 = mv_limits v"
      using view_apply_ok [OF Cons.prems(1) step _ Cons.prems(4)] Cons.prems(3) acc by simp
    moreover have "apply_all vc us v1 d1 = (res, v', d')" using Cons.prems(2) step Inr by simp
    ultimately show ?thesis using Cons.IH [of v1 ?as d1] Cons.prems(3,4) unfolding acc by simp
  qed
qed simp

section \<open>Runs\<close>

text \<open>
  A view over the life of its process: opened on an empty directory or on a checkpoint, then
  applications, rebuilds and restored snapshots in any order, whether they succeed or not.
\<close>

definition empty_disk :: "'f view_disk" where
  "empty_disk = \<lparr>vd_snapshot = None, vd_journal = None\<rparr>"

definition snapshot_wf :: "view_snapshot \<Rightarrow> bool" where
  "snapshot_wf s \<longleftrightarrow> bt_wf (vs_entries s) \<and> bt_wf (vs_positions s)"

inductive view_run ::
  "'f view_codec \<Rightarrow> string \<Rightarrow> string \<Rightarrow> view_limits \<Rightarrow> materialized_view \<Rightarrow> 'f view_disk \<Rightarrow> view_base \<Rightarrow> view_update list \<Rightarrow> bool"
  for vc tenant name limits where
  opened: "view_open vc tenant name limits empty_disk = (Ok v, d) \<Longrightarrow> view_run vc tenant name limits v d empty_base []"
| reopened: "view_open vc tenant name limits d = (Ok v, d') \<Longrightarrow> vd_snapshot d = Some body \<Longrightarrow>
    sn_decode (vc_snapshot vc) body = Some durable \<Longrightarrow> snapshot_wf (dv_snapshot durable) \<Longrightarrow>
    view_run vc tenant name limits v d'
      (snapshot_base (dv_snapshot durable) (take (vl_watch_capacity limits) (dv_watch durable))) []"
| applied: "view_run vc tenant name limits v d B as \<Longrightarrow> view_apply vc u v d = (res, v', d') \<Longrightarrow>
    view_run vc tenant name limits v' d' B (if apply_early u v = None then as @ [u] else as)"
| rebuilt: "view_run vc tenant name limits v d B as \<Longrightarrow> view_rebuild vc history v d = (res, v', d') \<Longrightarrow>
    view_run vc tenant name limits v' d' empty_base (accepted vc (sort_key rebuild_key history) (view_cleared v) d)"
| restored: "view_run vc tenant name limits v d B as \<Longrightarrow> snapshot_wf s \<Longrightarrow> restore_snapshot vc s v d = (Ok (), v', d') \<Longrightarrow>
    view_run vc tenant name limits v' d' (snapshot_base s (mv_watch v)) []"

lemma view_new_fields:
  assumes "view_new tenant name limits = Ok v"
  shows "mv_limits v = limits" "mv_tenant v = tenant" "mv_name v = name" "0 < vl_watch_capacity limits" "mv_entries v = []"
    "mv_positions v = []" "mv_last_sequence v = 0" "mv_watch v = []" "mv_durable v = False" "mv_updates_since_checkpoint v = 0"
  using assms by (auto simp: view_new_def validate_limits_def and_then_eq_Ok split: if_splits)

lemma empty_view_ok:
  assumes "mv_entries v = []" "mv_positions v = []" "mv_last_sequence v = 0" "mv_watch v = []"
  shows "view_ok empty_base v []"
  using assms by (simp add: view_ok_def empty_base_def last_value_def last_offset_def offsets_at_def last_events_def fun_eq_iff)

lemma snapshot_view_ok:
  assumes "snapshot_wf s" "length (vs_entries s) \<le> vl_max_entries (mv_limits v)" "mv_entries v = vs_entries s" "mv_positions v = vs_positions s"
    "mv_last_sequence v = vs_last_sequence s" "mv_watch v = watch" "length watch \<le> vl_watch_capacity (mv_limits v)"
  shows "view_ok (snapshot_base s watch) v []"
  using assms
  by (auto simp: view_ok_def snapshot_base_def snapshot_wf_def last_value_def last_offset_def offsets_at_def last_events_def fun_eq_iff
      split: option.split)

lemma restore_ok:
  assumes "restore_snapshot vc s v d = (Ok (), v', d')"
  shows "v' = v\<lparr>mv_entries := vs_entries s, mv_positions := vs_positions s, mv_last_sequence := vs_last_sequence s\<rparr>"
    "length (vs_entries s) \<le> vl_max_entries (mv_limits v)"
    "d' = view_persist vc v' d"
  using assms by (auto simp: restore_snapshot_def Let_def split: if_splits)

lemma view_open_new:
  assumes "view_open vc tenant name limits d = (Ok v, d')"
  obtains v0 where "view_new tenant name limits = Ok v0"
  using assms by (cases "view_new tenant name limits") (auto simp: view_open_def)

lemma view_open_empty:
  "view_new tenant name limits = Ok v \<Longrightarrow> view_open vc tenant name limits empty_disk = (Ok (v\<lparr>mv_durable := True\<rparr>), empty_disk)"
  by (simp add: view_open_def replay_view_journal_def empty_disk_def)

lemma view_reopen_ok:
  assumes "view_open vc tenant name limits d = (Ok v, d')" "vd_snapshot d = Some body"
    "sn_decode (vc_snapshot vc) body = Some durable" "snapshot_wf (dv_snapshot durable)"
  shows "view_ok (snapshot_base (dv_snapshot durable) (take (vl_watch_capacity limits) (dv_watch durable))) v [] \<and> mv_limits v = limits"
proof -
  obtain v0 where new: "view_new tenant name limits = Ok v0" using assms(1) by (rule view_open_new)
  note fields = view_new_fields [OF new]
  obtain res v1 d1 where res: "restore_snapshot vc (dv_snapshot durable) (v0\<lparr>mv_durable := True\<rparr>) d = (res, v1, d1)" by (metis prod_cases3)
  have ok: "res = Ok ()" using assms(1-3) new res by (cases res) (auto simp: view_open_def)
  note v1 = restore_ok [OF res [unfolded ok]]
  have "vd_journal d1 = None" using v1(1,3) by (simp add: view_persist_def)
  then have "v = v1\<lparr>mv_watch := take (vl_watch_capacity limits) (dv_watch durable)\<rparr>"
    using assms(1-3) new res ok by (simp add: view_open_def replay_view_journal_def)
  then show ?thesis
    using snapshot_view_ok [OF assms(4), of v "take (vl_watch_capacity limits) (dv_watch durable)"] v1(1,2) fields(1) by simp
qed

lemma view_apply_limits:
  assumes "view_apply vc u v d = (res, v', d')" "length (mv_watch v) \<le> vl_watch_capacity (mv_limits v)"
  shows "mv_limits v' = mv_limits v \<and> length (mv_watch v') \<le> vl_watch_capacity (mv_limits v)"
  using assms by (auto simp: view_put_def push_watch_def Let_def elim!: view_apply_cases)

lemma apply_all_limits:
  "apply_all vc us v d = (res, v', d') \<Longrightarrow> length (mv_watch v) \<le> vl_watch_capacity (mv_limits v) \<Longrightarrow>
     mv_limits v' = mv_limits v \<and> length (mv_watch v') \<le> vl_watch_capacity (mv_limits v)"
proof (induction us arbitrary: v d)
  case (Cons u us)
  obtain r1 v1 d1 where step: "view_apply vc u v d = (r1, v1, d1)" by (metis prod_cases3)
  note lim = view_apply_limits [OF step Cons.prems(2)]
  show ?case using Cons.prems(1) step lim Cons.IH [of v1 d1] by (cases r1) auto
qed simp

lemma view_run_limits:
  "view_run vc tenant name limits v d B as \<Longrightarrow>
     mv_limits v = limits \<and> 0 < vl_watch_capacity limits \<and> length (mv_watch v) \<le> vl_watch_capacity limits"
proof (induction rule: view_run.induct)
  case (opened v d)
  then obtain v0 where new: "view_new tenant name limits = Ok v0" using view_open_new by blast
  with opened view_open_empty [OF new, of vc] show ?case using view_new_fields [OF new] by auto
next
  case (reopened d v d' body durable)
  then obtain v0 where new: "view_new tenant name limits = Ok v0" using view_open_new by blast
  show ?case using view_reopen_ok [OF reopened(1-4)] view_new_fields(4) [OF new] by (simp add: view_ok_def last_events_def)
next
  case (applied v d B as u res v' d')
  then show ?case using view_apply_limits by blast
next
  case (rebuilt v d B as history res v' d')
  then show ?case using apply_all_limits by (fastforce simp: view_rebuild_def)
next
  case (restored v d B as s v' d')
  then show ?case using restore_ok(1) [OF restored(3)] by simp
qed

lemma view_run_ok:
  assumes "view_run vc tenant name limits v d B as" "vb_sequence B + length as < u64_max"
  shows "view_ok B v as"
  using assms
proof (induction rule: view_run.induct)
  case (opened v d)
  then obtain v0 where new: "view_new tenant name limits = Ok v0" using view_open_new by blast
  with opened view_open_empty [OF new, of vc] have "v = v0\<lparr>mv_durable := True\<rparr>" by simp
  then show ?case using empty_view_ok [of v] view_new_fields [OF new] by simp
next
  case (reopened d v d' body durable)
  show ?case using view_reopen_ok [OF reopened(1-4)] by simp
next
  case (applied v d B as u res v' d')
  then have "vb_sequence B + length as < u64_max" by (auto split: if_splits)
  with applied show ?case using view_apply_ok [of B v as vc u d res v' d'] view_run_limits [OF applied(1)] by simp
next
  case (rebuilt v d B as history res v' d')
  have "view_ok empty_base (view_cleared v) []" by (rule empty_view_ok) (simp_all add: view_cleared_def)
  then show ?case
    using apply_all_ok [of empty_base "view_cleared v" "[]" vc "sort_key rebuild_key history" d res v' d'] rebuilt(2,4)
      view_run_limits [OF rebuilt(1)] by (simp add: view_rebuild_def view_cleared_def)
next
  case (restored v d B as s v' d')
  show ?case
    using snapshot_view_ok [OF restored(2), of v' "mv_watch v"] restore_ok(1,2) [OF restored(3)] view_run_limits [OF restored(1)] by simp
qed

section \<open>Replay\<close>

fun replay_events :: "view_event list \<Rightarrow> materialized_view \<Rightarrow> materialized_view result" where
  "replay_events [] v = Ok v"
| "replay_events (e # es) v = and_then (apply_replayed e v) (replay_events es)"

text \<open>What is relied on of JSON: the event reads back, and its text has a 32-bit length.\<close>

definition delta_fits :: "'f view_codec \<Rightarrow> view_event \<Rightarrow> bool" where
  "delta_fits vc e \<longleftrightarrow> vc_decode vc (vc_encode vc e) = Some e \<and> length (vc_encode vc e) \<le> u32_max"

lemma replay_frame:
  assumes "delta_fits vc e"
  shows "replay_deltas vc (delta_frame vc e @ bs) v = and_then (apply_replayed e v) (replay_deltas vc bs)"
proof -
  have n: "length (vc_encode vc e) mod 2 ^ 32 = length (vc_encode vc e)"
    using assms by (simp add: delta_fits_def u32_max_def)
  have "from_le_bytes (to_le_bytes 4 (length (vc_encode vc e))) = length (vc_encode vc e)"
    using assms by (intro from_to_le_bytes u_max_less) (simp add: delta_fits_def)
  moreover have "from_le_bytes (to_le_bytes 4 (unat c)) = unat c" for c :: "32 word"
    using unsigned_less [of c] by (intro from_to_le_bytes) simp
  moreover have "delta_frame vc e = to_le_bytes 4 (length (vc_encode vc e)) @ to_le_bytes 4 (unat (vc_crc32 vc (vc_encode vc e))) @ vc_encode vc e"
    unfolding delta_frame_def Let_def n by (rule refl)
  ultimately show ?thesis
    using assms by (subst replay_deltas.simps) (auto simp: Let_def delta_fits_def and_then_def split: sum.split)
qed

lemma replay_frames:
  "list_all (delta_fits vc) es \<Longrightarrow> replay_deltas vc (concat (map (delta_frame vc) es)) v = replay_events es v"
proof (induction es arbitrary: v)
  case Nil
  then show ?case by (subst replay_deltas.simps) simp
next
  case (Cons e es)
  then have IH: "replay_deltas vc (concat (map (delta_frame vc) es)) = replay_events es" by auto
  show ?case using replay_frame [of vc e] Cons.prems by (simp add: IH)
qed

lemma replay_events_snoc: "replay_events (es @ [e]) v = and_then (replay_events es v) (apply_replayed e)"
  by (induction es arbitrary: v) (auto simp: and_then_def split: sum.split)

text \<open>Replaying an event does what applying its update did.\<close>

lemma apply_replayed_put:
  assumes "view_ok empty_base v as" "apply_early u v = None" "length as < u64_max" "0 < vl_watch_capacity (mv_limits v)"
  shows "apply_replayed \<lparr>ve_sequence = Suc (length as), ve_update = u\<rparr> (v\<lparr>mv_updates_since_checkpoint := x\<rparr>)
    = Ok ((fst (view_put u v))\<lparr>mv_updates_since_checkpoint := x\<rparr>)"
  using apply_early_None(1) [OF assms(2)] assms(1,3)
  by (simp add: apply_replayed_def view_put_def Let_def view_ok_def sat_add64_def empty_base_def)

text \<open>A run of applications only, on a view that was opened on an empty directory.\<close>

fun apply_run ::
  "'f view_codec \<Rightarrow> view_update list \<Rightarrow> materialized_view \<times> 'f view_disk \<Rightarrow> view_update list \<times> materialized_view \<times> 'f view_disk" where
  "apply_run vc [] w = ([], w)"
| "apply_run vc (u # us) (v, d) =
     (let (res, v', d') = view_apply vc u v d; (as, w) = apply_run vc us (v', d')
      in (if apply_early u v = None then u # as else as, w))"

definition view_inv :: "'f view_codec \<Rightarrow> materialized_view \<Rightarrow> materialized_view \<times> 'f view_disk \<Rightarrow> view_update list \<Rightarrow> bool" where
  "view_inv vc v0 = (\<lambda>(v, d) as.
     view_ok empty_base v as \<and> mv_limits v = mv_limits v0 \<and> mv_durable v = mv_durable v0
     \<and> replay_events (events_from 0 as) v0 = Ok (v\<lparr>mv_updates_since_checkpoint := 0\<rparr>)
     \<and> (mv_durable v0 \<longrightarrow> length as < VIEW_CHECKPOINT_INTERVAL \<longrightarrow>
          mv_updates_since_checkpoint v = length as \<and> vd_snapshot d = None
          \<and> vd_journal d = (if as = [] then None else Some (concat (map (delta_frame vc) (events_from 0 as))))))"

lemma view_apply_inv:
  assumes inv: "view_inv vc v0 (v, d) as" and cap: "0 < vl_watch_capacity (mv_limits v0)" and room: "length as < u64_max"
    and step: "view_apply vc u v d = (res, v', d')"
  shows "view_inv vc v0 (v', d') (if apply_early u v = None then as @ [u] else as)"
proof (cases "apply_early u v")
  case (Some x)
  then show ?thesis using inv step by (simp add: view_apply_def)
next
  case None
  have ok: "view_ok empty_base v as" and lim: "mv_limits v = mv_limits v0" and dur: "mv_durable v = mv_durable v0"
    using inv by (simp_all add: view_inv_def)
  obtain w e where put: "view_put u v = (w, e)" by (cases "view_put u v")
  note facts = view_put_ok [OF ok None] room cap lim put
  have w: "view_ok empty_base w (as @ [u])" "e = \<lparr>ve_sequence = Suc (length as), ve_update = u\<rparr>" using facts by (simp_all add: empty_base_def)
  have same: "mv_limits w = mv_limits v0" "mv_durable w = mv_durable v0" "mv_updates_since_checkpoint w = mv_updates_since_checkpoint v"
    using put lim dur by (auto simp: view_put_def Let_def)
  have upd: "view_ok empty_base (w\<lparr>mv_updates_since_checkpoint := x\<rparr>) (as @ [u])" for x using w(1) by (simp add: view_ok_def)
  have replay: "replay_events (events_from 0 (as @ [u])) v0 = Ok (w\<lparr>mv_updates_since_checkpoint := 0\<rparr>)"
    using apply_replayed_put [OF ok None room, of 0] inv cap lim put w(2)
    by (simp add: events_snoc replay_events_snoc view_inv_def)
  have early: "mv_updates_since_checkpoint v = length as" "vd_snapshot d = None"
    "vd_journal d = (if as = [] then None else Some (concat (map (delta_frame vc) (events_from 0 as))))"
    if "mv_durable v0" "Suc (length as) < VIEW_CHECKPOINT_INTERVAL"
    using inv that by (simp_all add: view_inv_def)
  have small: "sat_add64 (length as) 1 = Suc (length as)" using room by (simp add: sat_add64_def)
  let ?n = "sat_add64 (mv_updates_since_checkpoint v) 1"
  have "view_inv vc v0 (v', d') (as @ [u])"
  proof (cases "VIEW_CHECKPOINT_INTERVAL \<le> ?n")
    case True
    have v': "v' = w\<lparr>mv_updates_since_checkpoint := 0\<rparr>"
      using step None put True same(3) by (simp add: view_apply_def Let_def)
    have "\<not> (mv_durable v0 \<and> Suc (length as) < VIEW_CHECKPOINT_INTERVAL)" using early(1) True small by auto
    then show ?thesis using v' upd [of 0] replay same by (simp add: view_inv_def)
  next
    case False
    have v': "v' = w\<lparr>mv_updates_since_checkpoint := ?n\<rparr>" "d' = append_delta vc e w d"
      using step None put False same(3) by (simp_all add: view_apply_def Let_def)
    have "mv_updates_since_checkpoint v' = length (as @ [u]) \<and> vd_snapshot d' = None
        \<and> vd_journal d' = Some (concat (map (delta_frame vc) (events_from 0 (as @ [u]))))"
      if "mv_durable v0" "length (as @ [u]) < VIEW_CHECKPOINT_INTERVAL"
      using early that small v' same(2) w(2) by (simp add: append_delta_def events_snoc)
    then show ?thesis using v'(1) upd [of ?n] replay same by (simp add: view_inv_def)
  qed
  then show ?thesis using None by simp
qed

lemma apply_run_inv:
  assumes cap: "0 < vl_watch_capacity (mv_limits v0)"
  shows "view_inv vc v0 w as \<Longrightarrow> apply_run vc us w = (bs, w') \<Longrightarrow> length (as @ bs) < u64_max \<Longrightarrow> view_inv vc v0 w' (as @ bs)"
proof (induction us arbitrary: w as bs)
  case (Cons u us)
  obtain v d where w: "w = (v, d)" by (cases w)
  obtain res v1 d1 where step: "view_apply vc u v d = (res, v1, d1)" by (metis prod_cases3)
  obtain cs w2 where run: "apply_run vc us (v1, d1) = (cs, w2)" by (cases "apply_run vc us (v1, d1)")
  let ?as = "if apply_early u v = None then as @ [u] else as"
  have bs: "as @ bs = ?as @ cs" "w' = w2" using Cons.prems(2) w step run by auto
  have "view_inv vc v0 (v1, d1) ?as"
    using view_apply_inv [OF _ cap _ step] Cons.prems(1,3) w by simp
  moreover have "apply_run vc us (v1, d1) = (cs, w')" using run bs(2) by simp
  ultimately show ?case using Cons.IH [of "(v1, d1)" ?as cs] bs(1) Cons.prems(3) by metis
qed simp

lemma watch_from_ok:
  assumes "view_ok empty_base v as" "length as < u64_max" "0 < vl_watch_capacity (mv_limits v)"
  shows "watch_from v n = (if n < length as - vl_watch_capacity (mv_limits v) then Err ''view watch cursor expired''
    else Ok (drop n (events_from 0 as)))"
proof -
  let ?k = "length as - vl_watch_capacity (mv_limits v)"
  have watch: "mv_watch v = drop ?k (events_from 0 as)" using assms(1) by (simp add: view_ok_def last_events_def empty_base_def)
  have keep: "filter (\<lambda>e. ve_sequence e > n) (drop k (events_from m us)) = drop (max k (n - m)) (events_from m us)" for k m us
  proof (induction us arbitrary: k m)
    case (Cons u us)
    show ?case
    proof (cases "n \<le> m")
      case True
      then show ?thesis using Cons.IH [of 0 "Suc m"] Cons.IH [of "k - 1" "Suc m"] by (cases k) simp_all
    next
      case False
      then have n: "n - m = Suc (n - Suc m)" by simp
      then show ?thesis using Cons.IH [of 0 "Suc m"] Cons.IH [of "k - 1" "Suc m"] False by (cases k) simp_all
    qed
  qed simp
  have first: "ve_sequence (hd (mv_watch v)) = Suc ?k" if "mv_watch v \<noteq> []"
    using that watch by (simp add: hd_drop_conv_nth nth_events)
  show ?thesis
  proof (cases "mv_watch v")
    case Nil
    then have "length as \<le> ?k" using watch by simp
    then show ?thesis using Nil watch keep [of ?k 0 as] assms(3) by (auto simp: watch_from_def)
  next
    case (Cons e es)
    then have e: "ve_sequence e = Suc ?k" using first by simp
    have "sat_add64 n 1 \<ge> Suc ?k \<longleftrightarrow> ?k \<le> n" using assms(2) by (auto simp: sat_add64_def)
    then show ?thesis using Cons e watch keep [of ?k 0 as] by (auto simp: watch_from_def max_def)
  qed
qed

lemma reopen_before_checkpoint:
  assumes opened: "view_open vc tenant name limits empty_disk = (Ok v0, d0)" and run: "apply_run vc us (v0, d0) = (as, v, d)"
    and few: "length as < VIEW_CHECKPOINT_INTERVAL" and fits: "list_all (delta_fits vc) (events_from 0 as)"
  shows "view_open vc tenant name limits d = (Ok (v\<lparr>mv_updates_since_checkpoint := 0\<rparr>), d)"
proof -
  obtain v1 where new: "view_new tenant name limits = Ok v1" using opened by (rule view_open_new)
  have start: "v0 = v1\<lparr>mv_durable := True\<rparr>" "d0 = empty_disk"
    using opened view_open_empty [OF new, of vc] by simp_all
  note fields = view_new_fields [OF new]
  have "view_inv vc v0 (v0, d0) []"
    using empty_view_ok [of v0] fields start by (simp add: view_inv_def empty_disk_def)
  moreover have "length as < u64_max" using few by (simp add: VIEW_CHECKPOINT_INTERVAL_def u64_max_def)
  ultimately have inv: "view_inv vc v0 (v, d) as"
    using apply_run_inv [of v0 vc "(v0, d0)" "[]" us as "(v, d)"] run fields start by simp
  then have d: "vd_snapshot d = None" "vd_journal d = (if as = [] then None else Some (concat (map (delta_frame vc) (events_from 0 as))))"
    and replay: "replay_events (events_from 0 as) v0 = Ok (v\<lparr>mv_updates_since_checkpoint := 0\<rparr>)"
    using few start by (simp_all add: view_inv_def)
  then show ?thesis
    using new replay_frames [OF fits, of v0] start
    by (cases "as = []") (simp_all add: view_open_def replay_view_journal_def)
qed

lemma apply_run_view_run:
  "apply_run vc us (v, d) = (bs, v', d') \<Longrightarrow> view_run vc tenant name limits v d B as \<Longrightarrow> view_run vc tenant name limits v' d' B (as @ bs)"
proof (induction us arbitrary: v d as bs)
  case (Cons u us)
  obtain res v1 d1 where step: "view_apply vc u v d = (res, v1, d1)" by (metis prod_cases3)
  obtain cs w2 where run: "apply_run vc us (v1, d1) = (cs, w2)" by (cases "apply_run vc us (v1, d1)")
  have "as @ bs = (if apply_early u v = None then as @ [u] else as) @ cs" "w2 = (v', d')" using Cons.prems(1) step run by auto
  then show ?case using Cons.IH [of v1 d1 cs "if apply_early u v = None then as @ [u] else as"] run applied [OF Cons.prems(2) step] by simp
qed simp

lemma apply_early_iff:
  assumes "view_ok B v as"
  shows "apply_early u v = None \<longleftrightarrow>
     validate_update u (vl_max_value_bytes (mv_limits v)) = Ok ()
     \<and> (\<forall>c\<in>set (offsets_at B (position_key (vu_position u)) as). c < vp_offset (vu_position u))
     \<and> (vu_value u = None \<or> last_value B as (vu_key u) \<noteq> None \<or> length (mv_entries v) < vl_max_entries (mv_limits v))"
proof -
  let ?os = "offsets_at B (position_key (vu_position u)) as"
  have wf: "map_of (mv_entries v) = last_value B as" "map_of (mv_positions v) = last_offset B as" "sorted_wrt (<) ?os"
    using assms by (simp_all add: view_ok_def)
  have "(\<forall>c\<in>set ?os. c < vp_offset (vu_position u)) \<longleftrightarrow> (?os \<noteq> [] \<longrightarrow> last ?os < vp_offset (vu_position u))"
    using le_last [OF wf(3)] by (metis empty_iff last_in_set le_less_trans list.set(1))
  moreover have "bt_contains (vu_key u) (mv_entries v) \<longleftrightarrow> last_value B as (vu_key u) \<noteq> None"
    unfolding bt_contains_iff key_iff wf(1) by blast
  ultimately show ?thesis
    by (auto simp: apply_early_def Let_def wf last_offset_last split: sum.splits)
qed

text \<open>
  Where there is a checkpoint, \<open>open\<close> restores it with \<open>restore_snapshot\<close>, which persists and removes
  the journal; the replay then finds nothing, and the updates since the checkpoint are gone.
\<close>

lemma checkpointed_open_loses_journal:
  assumes "view_new tenant name limits = Ok v" "vd_snapshot d = Some body"
    "sn_decode (vc_snapshot vc) body = Some \<lparr>dv_snapshot = s, dv_watch = ws\<rparr>"
    "vs_tenant s = tenant" "vs_name s = name" "length (vs_entries s) \<le> vl_max_entries limits"
    "list_all (\<lambda>x. length x \<le> vl_max_value_bytes limits) (bt_values (vs_entries s))"
  shows "\<exists>v' d'. view_open vc tenant name limits d = (Ok v', d') \<and> mv_entries v' = vs_entries s
    \<and> mv_last_sequence v' = vs_last_sequence s \<and> vd_journal d' = None"
proof -
  have "mv_tenant v = tenant" "mv_name v = name" "mv_limits v = limits"
    using assms(1) by (auto simp: view_new_def and_then_eq_Ok)
  then show ?thesis
    using assms by (simp add: view_open_def restore_snapshot_def Let_def view_persist_def replay_view_journal_def)
qed

text \<open>A delta that was cut off by a crash makes the next \<open>open\<close> fail.\<close>

lemma torn_delta_blocks_open:
  assumes "view_new tenant name limits = Ok v" "vd_snapshot d = None" "vd_journal d = Some bs" "4 \<le> length bs" "length bs < 8"
  shows "fst (view_open vc tenant name limits d) = Err ''failed to fill whole buffer''"
  using assms by (simp add: view_open_def replay_view_journal_def, subst replay_deltas.simps) (simp add: Let_def less_diff_conv2)

section \<open>Properties\<close>


definition sample_update :: view_update where
  "sample_update = \<lparr>vu_key = ''k'', vu_value = Some [7], vu_position = \<lparr>vp_stream = ''s'', vp_partition = 0, vp_offset = 3\<rparr>\<rparr>"

definition sample_view_codec :: "durable_view view_codec" where
  "sample_view_codec =
     \<lparr>vc_snapshot = \<lparr>sn_encode = (\<lambda>x. x), sn_decode = Some\<rparr>, vc_encode = (\<lambda>_. [1]),
      vc_decode = (\<lambda>_. Some \<lparr>ve_sequence = 1, ve_update = sample_update\<rparr>), vc_crc32 = (\<lambda>_. 0)\<rparr>"

definition sample_limits :: view_limits where
  "sample_limits = \<lparr>vl_max_entries = 2, vl_max_value_bytes = 8, vl_watch_capacity = 4\<rparr>"

definition sample_view :: materialized_view where
  "sample_view =
     \<lparr>mv_durable = True, mv_tenant = ''t'', mv_name = ''v'', mv_limits = sample_limits, mv_entries = [], mv_positions = [],
      mv_last_sequence = 0, mv_watch = [], mv_updates_since_checkpoint = 0\<rparr>"

lemma sample_opened: "view_open sample_view_codec ''t'' ''v'' sample_limits empty_disk = (Ok sample_view, empty_disk)"
  by (simp add: view_open_def view_new_def validate_identity_def name_char_def validate_limits_def sample_limits_def
    replay_view_journal_def empty_disk_def sample_view_def)

lemmas sample_view_eval = view_apply_def apply_early_def validate_update_def sample_update_def sample_view_def sample_limits_def Let_def
  bt_contains_def view_put_def put_entry_def VIEW_CHECKPOINT_INTERVAL_def sat_add64_def u64_max_def

lemma sample_view_run:
  "\<exists>v d. apply_run sample_view_codec [sample_update, sample_update] (sample_view, empty_disk) = ([sample_update], v, d)"
  by (simp add: sample_view_eval)


text \<open>
  A rebuild clears the view in memory and leaves the journal as it is, so that until the next
  checkpoint a restart brings back what the rebuild removed.
\<close>

theorem rebuild_undone_by_restart:
  "\<exists>v d v' d'. apply_run sample_view_codec [sample_update] (sample_view, empty_disk) = ([sample_update], v, d)
     \<and> view_rebuild sample_view_codec [] v d = (Ok (), v', d') \<and> point_read v' ''k'' = None
     \<and> (\<exists>v''. fst (view_open sample_view_codec ''t'' ''v'' sample_limits d') = Ok v'' \<and> point_read v'' ''k'' = Some [7])"
proof -
  obtain v d where run: "apply_run sample_view_codec [sample_update] (sample_view, empty_disk) = ([sample_update], v, d)"
    by (simp add: sample_view_eval)
  have "view_open sample_view_codec ''t'' ''v'' sample_limits d = (Ok (v\<lparr>mv_updates_since_checkpoint := 0\<rparr>), d)"
    by (rule reopen_before_checkpoint [OF sample_opened run])
      (simp_all add: VIEW_CHECKPOINT_INTERVAL_def delta_fits_def sample_view_codec_def u32_max_def)
  moreover have "point_read v ''k'' = Some [7]" using run by (auto simp: sample_view_eval point_read_def)
  moreover obtain v' where "view_rebuild sample_view_codec [] v d = (Ok (), v', d)" "point_read v' ''k'' = None"
    by (simp add: view_rebuild_def point_read_def)
  ultimately show ?thesis using run by (auto simp: point_read_def)
qed

end
