(* ===== verification/Retry_Policy.thy ===== *)
theory Retry_Policy
  imports Morrow_Prelude
begin

text \<open>
  Retry policies of durable consumers, from \<open>crates/protocol/src/protocol.rs\<close>. The jitter is computed
  in 128-bit signed integers, which are integers here since nothing comes near their bounds. The
  lemmas: the delay is total, never exceeds its bound, stays within the jitter, and grows with
  the attempt when there is no jitter.
\<close>

datatype retry_backoff = FixedBackoff | ExponentialBackoff

datatype retry_terminal_action = DeadLetterAction | DiscardAction | PauseAction | RetainAction

record retry_policy =
  ry_max_attempts :: u32
  ry_backoff :: retry_backoff
  ry_initial_delay_ms :: u64
  ry_max_delay_ms :: u64
  ry_jitter_percent :: nat
  ry_terminal_action :: retry_terminal_action

definition default_retry_policy :: retry_policy where
  "default_retry_policy =
     \<lparr>ry_max_attempts = u32_max, ry_backoff = FixedBackoff, ry_initial_delay_ms = 0, ry_max_delay_ms = 300000,
      ry_jitter_percent = 0, ry_terminal_action = RetainAction\<rparr>"

definition base_delay :: "retry_policy \<Rightarrow> u32 \<Rightarrow> u64" where
  "base_delay p attempt =
     (let exponent = min (attempt - 1) 63;
          multiplier = (case ry_backoff p of FixedBackoff \<Rightarrow> 1 | ExponentialBackoff \<Rightarrow> 2 ^ exponent)
      in min (sat_mul64 (ry_initial_delay_ms p) multiplier) (ry_max_delay_ms p))"

definition clamp :: "int \<Rightarrow> int \<Rightarrow> int \<Rightarrow> int" where
  "clamp x lo hi = (if x < lo then lo else if x > hi then hi else x)"

definition delay_ms :: "retry_policy \<Rightarrow> u32 \<Rightarrow> u64" where
  "delay_ms p attempt =
     (let delay = base_delay p attempt
      in if ry_jitter_percent p = 0 \<or> delay = 0 then delay
         else
           let spread = sat_mul64 delay (ry_jitter_percent p) div 100;
               range = sat_add64 (sat_mul64 spread 2) 1;
               offset = int ((((attempt * 1664525) mod 2 ^ 64 + 1013904223) mod 2 ^ 64) mod range) - int spread;
               jittered = int delay + offset
           in nat (clamp jittered 0 (int (ry_max_delay_ms p))))"

lemma base_delay_le: "base_delay p attempt \<le> ry_max_delay_ms p"
  by (simp add: base_delay_def Let_def)

lemma clamp_le: "nat (clamp x 0 (int m)) \<le> m"
  by (auto simp: clamp_def)

lemma delay_le_max: "delay_ms p attempt \<le> ry_max_delay_ms p"
  using base_delay_le [of p attempt] clamp_le unfolding delay_ms_def Let_def by (cases "ry_jitter_percent p = 0 \<or> base_delay p attempt = 0") auto

lemma jitter_bound:
  assumes "k \<le> s * 2" "s \<le> b" "d \<le> m"
  shows "\<bar>int (nat (clamp (int d + (int k - int s)) 0 (int m))) - int d\<bar> \<le> int b"
proof -
  have "int k \<le> int s * 2" "int s \<le> int b" "int d \<le> int m" using assms by linarith+
  moreover have "int (nat (clamp (int d + (int k - int s)) 0 (int m))) = clamp (int d + (int k - int s)) 0 (int m)"
    by (simp add: clamp_def)
  ultimately show ?thesis unfolding clamp_def by (auto split: if_splits)
qed

lemma base_delay_mono:
  assumes "attempt \<le> attempt'"
  shows "base_delay p attempt \<le> base_delay p attempt'"
proof -
  have "(2 :: nat) ^ min (attempt - 1) 63 \<le> 2 ^ min (attempt' - 1) 63" using assms by (intro power_increasing) auto
  then have "ry_initial_delay_ms p * (case ry_backoff p of FixedBackoff \<Rightarrow> 1 | ExponentialBackoff \<Rightarrow> 2 ^ min (attempt - 1) 63)
      \<le> ry_initial_delay_ms p * (case ry_backoff p of FixedBackoff \<Rightarrow> 1 | ExponentialBackoff \<Rightarrow> 2 ^ min (attempt' - 1) 63)"
    by (intro mult_le_mono2) (simp split: retry_backoff.split)
  then show ?thesis unfolding base_delay_def Let_def sat_mul64_def by (meson min.mono order_refl)
qed

lemma delay_within_jitter:
  assumes "sat_mul64 (base_delay p attempt) (ry_jitter_percent p) div 100 * 2 < u64_max"
  shows "\<bar>int (delay_ms p attempt) - int (base_delay p attempt)\<bar> \<le> int (base_delay p attempt * ry_jitter_percent p div 100)"
proof (cases "ry_jitter_percent p = 0 \<or> base_delay p attempt = 0")
  case True
  then show ?thesis by (auto simp: delay_ms_def Let_def)
next
  case False
  let ?d = "base_delay p attempt"
  let ?s = "sat_mul64 ?d (ry_jitter_percent p) div 100"
  have range: "sat_add64 (sat_mul64 ?s 2) 1 = ?s * 2 + 1" using assms by (simp add: sat_add64_def sat_mul64_def)
  obtain k where k: "((attempt * 1664525) mod 2 ^ 64 + 1013904223) mod 2 ^ 64 mod (?s * 2 + 1) = k" by simp
  then have "k \<le> ?s * 2" using mod_less_divisor [of "?s * 2 + 1"] by (metis add_is_0 less_Suc_eq_le Suc_eq_plus1 neq0_conv one_neq_zero)
  moreover have "delay_ms p attempt = nat (clamp (int ?d + (int k - int ?s)) 0 (int (ry_max_delay_ms p)))"
    using False k range by (simp add: delay_ms_def Let_def)
  moreover have "?s \<le> ?d * ry_jitter_percent p div 100" by (intro div_le_mono) (simp add: sat_mul64_def)
  ultimately show ?thesis using jitter_bound base_delay_le [of p attempt] by metis
qed

end
