(* ===== verification/Wal_Record.thy ===== *)
theory Wal_Record
  imports Consumer_Cursor Consumer_Group Retry_Policy
begin

text \<open>
  The records of the write-ahead log and their bytes, from \<open>crates/server/src/wal.rs\<close>,
  \<open>wal/record_io.rs\<close> and \<open>wal/cursor.rs\<close>. Bodies are modelled to the byte; fields that the code writes as
  JSON go through a codec that is a parameter, as do CRC-32 and the encryption, whose additional
  data is the record kind.

  The theorem: a record of each kind, framed, sealed or in the clear, is read back as it was
  written, from the front of any bytes.
\<close>

section \<open>Records\<close>

record consumer_record =
  cn_consumer_id :: string
  cn_filter_subject :: string
  cn_queue_group :: "string option"
  cn_ack_timeout_ms :: u64
  cn_max_in_flight :: nat
  cn_start_position :: start_position
  cn_retry_policy :: retry_policy

record delivery_attempt_record =
  da_seq :: u64
  da_consumer_id :: string
  da_delivery_id :: u64
  da_deadline_ms :: u64
  da_attempt :: u32
  da_retry_waiting :: bool

record ack_record =
  ak_seq :: u64
  ak_consumer_id :: string
  ak_delivery_id :: u64

record dead_letter_record =
  dl_id :: u64
  dl_source_seq :: u64
  dl_consumer_id :: string
  dl_source_stream :: "string option"
  dl_source_partition :: "u32 option"
  dl_source_offset :: "u64 option"
  dl_reason :: string
  dl_attempt_count :: u32
  dl_first_delivery_ms :: u64
  dl_last_delivery_ms :: u64
  dl_payload :: bytes

record producer_sequence_record =
  sq_producer_id :: string
  sq_epoch :: u64
  sq_sequence :: u64
  sq_fingerprint :: u64
  sq_record :: publish_record

type_synonym group_state_record = "string \<times> group_record"

record partition_append_record =
  ap_seq :: u64
  ap_stream :: string
  ap_partition :: u32
  ap_offset :: u64
  ap_subject :: string

record consumer_cursor_record =
  ccr_consumer_id :: string
  ccr_cursors :: consumer_cursor_set

record consumer_cursor_delta_record =
  ccd_consumer_id :: string
  ccd_cursor :: partition_cursor
  ccd_ack_window :: nat

definition partition_append_of :: "message_envelope \<Rightarrow> partition_append_record" where
  "partition_append_of e =
     \<lparr>ap_seq = en_legacy_seq e, ap_stream = en_stream e, ap_partition = en_partition e, ap_offset = en_offset e,
      ap_subject = en_subject e\<rparr>"

text \<open>A decoded record; \<open>DeadLetterPurgeRecord\<close> and \<open>ConsumerDeleteRecord\<close> have one field each.\<close>

datatype wal_record =
    PublishRec publish_record
  | ConsumerUpsertRec consumer_record
  | DeliveryAttemptRec delivery_attempt_record
  | AckRec ack_record
  | PartitionAppendRec partition_append_record
  | ConsumerCursorRec consumer_cursor_record
  | ConsumerDeleteRec string
  | DeadLetterRec dead_letter_record
  | DeadLetterPurgeRec u64
  | ProducerSequenceRec producer_sequence_record
  | GroupStateRec group_state_record
  | ConsumerCursorDeltaRec consumer_cursor_delta_record

fun record_kind :: "wal_record \<Rightarrow> 8 word" where
  "record_kind (PublishRec _) = 1"
| "record_kind (ConsumerUpsertRec _) = 2"
| "record_kind (DeliveryAttemptRec _) = 3"
| "record_kind (AckRec _) = 4"
| "record_kind (PartitionAppendRec _) = 5"
| "record_kind (ConsumerCursorRec _) = 6"
| "record_kind (ConsumerDeleteRec _) = 7"
| "record_kind (DeadLetterRec _) = 8"
| "record_kind (DeadLetterPurgeRec _) = 9"
| "record_kind (ProducerSequenceRec _) = 10"
| "record_kind (GroupStateRec _) = 11"
| "record_kind (ConsumerCursorDeltaRec _) = 12"

section \<open>Library code\<close>

record 'a json_codec =
  js_encode :: "'a \<Rightarrow> bytes"
  js_decode :: "bytes \<Rightarrow> 'a option"

definition json_reads :: "'a json_codec \<Rightarrow> 'a \<Rightarrow> bool" where
  "json_reads c x \<longleftrightarrow> js_decode c (js_encode c x) = Some x"

record wal_codec =
  wc_crc :: "bytes \<Rightarrow> 32 word"
  wc_start :: "start_position json_codec"
  wc_retry :: "retry_policy json_codec"
  wc_cursors :: "consumer_cursor_set json_codec"
  wc_offsets :: "(u64 list) json_codec"
  wc_dead_letter :: "dead_letter_record json_codec"
  wc_producer :: "producer_sequence_record json_codec"
  wc_group :: "group_state_record json_codec"

type_synonym wal_encryption = "(8 word \<Rightarrow> key_ring) option"

section \<open>Writing\<close>

definition wal_put_u32 :: "u32 \<Rightarrow> bytes \<Rightarrow> bytes result" where
  "wal_put_u32 n out = Ok (out @ to_le_bytes 4 n)"

definition wal_put_u64 :: "u64 \<Rightarrow> bytes \<Rightarrow> bytes result" where
  "wal_put_u64 n out = Ok (out @ to_le_bytes 8 n)"

definition wal_put_bytes :: "bytes \<Rightarrow> bytes \<Rightarrow> bytes result" where
  "wal_put_bytes bs out =
     (if \<not> length bs \<le> u32_max then Err ''field too large''
      else and_then (wal_put_u32 (length bs) out) (\<lambda>out. Ok (out @ bs)))"

definition wal_put_string :: "string \<Rightarrow> bytes \<Rightarrow> bytes result" where
  "wal_put_string s out = wal_put_bytes (bytes_of_string s) out"

definition put_option_string :: "string option \<Rightarrow> bytes \<Rightarrow> bytes result" where
  "put_option_string s out = (case s of Some v \<Rightarrow> wal_put_string v (out @ [1]) | None \<Rightarrow> Ok (out @ [0]))"

definition wal_put_usize :: "string \<Rightarrow> nat \<Rightarrow> bytes \<Rightarrow> bytes result" where
  "wal_put_usize what n out = (if \<not> n \<le> u32_max then Err what else wal_put_u32 n out)"

definition wal_put_flag :: "bool \<Rightarrow> bytes \<Rightarrow> bytes result" where
  "wal_put_flag b out = Ok (out @ [if b then 1 else 0])"

definition put_option_u64 :: "u64 option \<Rightarrow> bytes \<Rightarrow> bytes result" where
  "put_option_u64 n out = (case n of Some v \<Rightarrow> wal_put_u64 v (out @ [1]) | None \<Rightarrow> Ok (out @ [0]))"

definition publish_body :: "publish_record \<Rightarrow> bytes result" where
  "publish_body r =
     and_then (wal_put_u64 (pub_seq r) []) (\<lambda>out.
     and_then (wal_put_string (pub_subject r) out) (\<lambda>out.
     and_then (put_option_string (pub_reply_to r) out) (\<lambda>out.
     and_then (wal_put_bytes (pub_payload r) out) (\<lambda>out.
       put_option_string (pub_stream r) out))))"

definition consumer_upsert_body :: "wal_codec \<Rightarrow> consumer_record \<Rightarrow> bytes result" where
  "consumer_upsert_body wc r =
     and_then (wal_put_string (cn_consumer_id r) []) (\<lambda>out.
     and_then (wal_put_string (cn_filter_subject r) out) (\<lambda>out.
     and_then (put_option_string (cn_queue_group r) out) (\<lambda>out.
     and_then (wal_put_u64 (cn_ack_timeout_ms r) out) (\<lambda>out.
     and_then (wal_put_usize ''max_in_flight too large'' (cn_max_in_flight r) out) (\<lambda>out.
     and_then (wal_put_bytes (js_encode (wc_start wc) (cn_start_position r)) out) (\<lambda>out.
       wal_put_bytes (js_encode (wc_retry wc) (cn_retry_policy r)) out))))))"

definition delivery_attempt_body :: "delivery_attempt_record \<Rightarrow> bytes result" where
  "delivery_attempt_body r =
     and_then (wal_put_u64 (da_seq r) []) (\<lambda>out.
     and_then (wal_put_string (da_consumer_id r) out) (\<lambda>out.
     and_then (wal_put_u64 (da_delivery_id r) out) (\<lambda>out.
     and_then (wal_put_u64 (da_deadline_ms r) out) (\<lambda>out.
     and_then (wal_put_u32 (da_attempt r) out) (\<lambda>out.
       wal_put_flag (da_retry_waiting r) out)))))"

definition ack_body :: "ack_record \<Rightarrow> bytes result" where
  "ack_body r =
     and_then (wal_put_u64 (ak_seq r) []) (\<lambda>out.
     and_then (wal_put_string (ak_consumer_id r) out) (\<lambda>out.
       wal_put_u64 (ak_delivery_id r) out))"

definition dead_letter_purge_body :: "u64 \<Rightarrow> bytes result" where
  "dead_letter_purge_body i = wal_put_u64 i []"

definition partition_append_body :: "partition_append_record \<Rightarrow> bytes result" where
  "partition_append_body r =
     and_then (wal_put_u64 (ap_seq r) []) (\<lambda>out.
     and_then (wal_put_string (ap_stream r) out) (\<lambda>out.
     and_then (wal_put_u32 (ap_partition r) out) (\<lambda>out.
     and_then (wal_put_u64 (ap_offset r) out) (\<lambda>out.
       wal_put_string (ap_subject r) out))))"

definition consumer_cursor_body :: "wal_codec \<Rightarrow> consumer_cursor_record \<Rightarrow> bytes result" where
  "consumer_cursor_body wc r =
     and_then (wal_put_string (ccr_consumer_id r) []) (\<lambda>out.
       wal_put_bytes (js_encode (wc_cursors wc) (ccr_cursors r)) out)"

definition consumer_cursor_delta_body :: "wal_codec \<Rightarrow> consumer_cursor_delta_record \<Rightarrow> bytes result" where
  "consumer_cursor_delta_body wc r =
     and_then (wal_put_string (ccd_consumer_id r) []) (\<lambda>out.
     and_then (wal_put_usize ''ack window too large'' (ccd_ack_window r) out) (\<lambda>out.
     and_then (wal_put_string (cu_stream (ccd_cursor r)) out) (\<lambda>out.
     and_then (wal_put_u32 (cu_partition (ccd_cursor r)) out) (\<lambda>out.
     and_then (wal_put_u64 (cu_committed_offset (ccd_cursor r)) out) (\<lambda>out.
     and_then (put_option_u64 (cu_delivered_offset (ccd_cursor r)) out) (\<lambda>out.
     and_then (wal_put_bytes (js_encode (wc_offsets wc) (cu_acknowledged_offsets (ccd_cursor r))) out) (\<lambda>out.
       wal_put_u64 (cu_retention_gaps (ccd_cursor r)) out)))))))"

definition consumer_delete_body :: "string \<Rightarrow> bytes result" where
  "consumer_delete_body consumer_id = wal_put_string consumer_id []"

fun record_body :: "wal_codec \<Rightarrow> wal_record \<Rightarrow> bytes result" where
  "record_body wc (PublishRec r) = publish_body r"
| "record_body wc (ConsumerUpsertRec r) = consumer_upsert_body wc r"
| "record_body wc (DeliveryAttemptRec r) = delivery_attempt_body r"
| "record_body wc (AckRec r) = ack_body r"
| "record_body wc (PartitionAppendRec r) = partition_append_body r"
| "record_body wc (ConsumerCursorRec r) = consumer_cursor_body wc r"
| "record_body wc (ConsumerDeleteRec i) = consumer_delete_body i"
| "record_body wc (DeadLetterRec r) = Ok (js_encode (wc_dead_letter wc) r)"
| "record_body wc (DeadLetterPurgeRec i) = dead_letter_purge_body i"
| "record_body wc (ProducerSequenceRec r) = Ok (js_encode (wc_producer wc) r)"
| "record_body wc (GroupStateRec r) = Ok (js_encode (wc_group wc) r)"
| "record_body wc (ConsumerCursorDeltaRec r) = consumer_cursor_delta_body wc r"

section \<open>Frames\<close>

definition WAL_ENCRYPTED_BODY_MAGIC :: bytes where
  "WAL_ENCRYPTED_BODY_MAGIC = bytes_of_string (''MORROW-WAL-ENC1'' @ [CHR 0x0A])"

definition record_size :: "bytes \<Rightarrow> u64 result" where
  "record_size body =
     (if \<not> length body + 1 \<le> u32_max then Err ''WAL record too large'' else Ok (4 + (length body + 1) + 4))"

definition encode_record :: "wal_codec \<Rightarrow> 8 word \<Rightarrow> bytes \<Rightarrow> bytes result" where
  "encode_record wc kind body =
     (if \<not> length body + 1 \<le> u32_max then Err ''WAL record too large''
      else Ok (to_le_bytes 4 (length body + 1) @ [kind] @ body @ to_le_bytes 4 (unat (wc_crc wc (kind # body)))))"

definition protect_body :: "8 word \<Rightarrow> bytes \<Rightarrow> wal_encryption \<Rightarrow> bytes result" where
  "protect_body kind body encryption =
     (case encryption of
        None \<Rightarrow> Ok body
      | Some ring \<Rightarrow> map_ok (\<lambda>sealed. WAL_ENCRYPTED_BODY_MAGIC @ sealed) (kr_seal (ring kind) body))"

definition unprotect_body :: "8 word \<Rightarrow> bytes \<Rightarrow> wal_encryption \<Rightarrow> bytes result" where
  "unprotect_body kind body encryption =
     (if \<not> prefix WAL_ENCRYPTED_BODY_MAGIC body then Ok body
      else case encryption of
        None \<Rightarrow> Err ''encrypted WAL requires a key provider''
      | Some ring \<Rightarrow> kr_open (ring kind) (drop (length WAL_ENCRYPTED_BODY_MAGIC) body))"

text \<open>\<open>write_record_to\<close> appends the same bytes as \<open>encode_record\<close>.\<close>

definition write_record_to :: "wal_codec \<Rightarrow> 8 word \<Rightarrow> bytes \<Rightarrow> bytes \<Rightarrow> bytes result" where
  "write_record_to wc kind body file = map_ok (\<lambda>frame. file @ frame) (encode_record wc kind body)"

definition write_protected_record_to ::
  "wal_codec \<Rightarrow> wal_encryption \<Rightarrow> 8 word \<Rightarrow> bytes \<Rightarrow> bytes \<Rightarrow> (bytes \<times> u64) result" where
  "write_protected_record_to wc encryption kind body file =
     and_then (protect_body kind body encryption) (\<lambda>protected.
     and_then (write_record_to wc kind protected file) (\<lambda>file.
       map_ok (\<lambda>size. (file, size)) (record_size protected)))"

definition read_record :: "wal_codec \<Rightarrow> bytes \<Rightarrow> (io_error + (8 word \<times> bytes \<times> u64) option) \<times> bytes" where
  "read_record wc input =
     (case read_exact 4 input of
        (Err (UnexpectedEof _), rest) \<Rightarrow> (Ok None, rest)
      | (Err e, rest) \<Rightarrow> (Err e, rest)
      | (Ok len_bytes, rest) \<Rightarrow>
         (let len = from_le_bytes len_bytes
          in if len = 0 then (Err (InvalidData ''zero-length WAL record''), rest)
             else case read_exact len rest of
               (Err e, rest) \<Rightarrow> (Err e, rest)
             | (Ok rec, rest) \<Rightarrow>
                (case read_exact 4 rest of
                   (Err e, rest) \<Rightarrow> (Err e, rest)
                 | (Ok crc_bytes, rest) \<Rightarrow>
                    if from_le_bytes crc_bytes \<noteq> unat (wc_crc wc rec) then (Err (InvalidData ''WAL checksum mismatch''), rest)
                    else (Ok (Some (hd rec, tl rec, 4 + len + 4)), rest))))"

section \<open>Decoding\<close>

text \<open>\<open>Cursor\<close>: what is left of the body behind \<open>pos\<close>.\<close>

type_synonym 'a cursor_read = "bytes \<Rightarrow> ('a \<times> bytes) result"

definition cursor_then :: "'a cursor_read \<Rightarrow> ('a \<Rightarrow> 'b cursor_read) \<Rightarrow> 'b cursor_read" where
  "cursor_then p f bs = and_then (p bs) (\<lambda>(x, rest). f x rest)"

definition cursor_value :: "'a \<Rightarrow> 'a cursor_read" where
  "cursor_value x bs = Ok (x, bs)"

definition cursor_take :: "nat \<Rightarrow> bytes cursor_read" where
  "cursor_take len bs = (if len > length bs then Err ''truncated WAL record'' else Ok (take len bs, drop len bs))"

definition cursor_u32 :: "u32 cursor_read" where
  "cursor_u32 = cursor_then (cursor_take 4) (\<lambda>bs. cursor_value (from_le_bytes bs))"

definition cursor_u64 :: "u64 cursor_read" where
  "cursor_u64 = cursor_then (cursor_take 8) (\<lambda>bs. cursor_value (from_le_bytes bs))"

definition cursor_bytes :: "bytes cursor_read" where
  "cursor_bytes = cursor_then cursor_u32 cursor_take"

definition cursor_string :: "string cursor_read" where
  "cursor_string = cursor_then cursor_bytes (\<lambda>bs rest.
     case from_utf8 bs of None \<Rightarrow> Err ''WAL string is not UTF-8'' | Some s \<Rightarrow> Ok (s, rest))"

definition cursor_option_string :: "string option cursor_read" where
  "cursor_option_string = cursor_then (cursor_take 1) (\<lambda>bs.
     if hd bs = 0 then cursor_value None
     else if hd bs = 1 then cursor_then cursor_string (\<lambda>s. cursor_value (Some s))
     else (\<lambda>rest. Err ''invalid optional string marker''))"

definition cursor_flag :: "bool cursor_read" where
  "cursor_flag = cursor_then (cursor_take 1) (\<lambda>bs. cursor_value (hd bs \<noteq> 0))"

definition cursor_option_u64 :: "u64 option cursor_read" where
  "cursor_option_u64 = cursor_then cursor_flag (\<lambda>present.
     if present then cursor_then cursor_u64 (\<lambda>n. cursor_value (Some n)) else cursor_value None)"

definition cursor_json :: "'a json_codec \<Rightarrow> string \<Rightarrow> 'a cursor_read" where
  "cursor_json c what = cursor_then cursor_bytes (\<lambda>bs rest.
     case js_decode c bs of None \<Rightarrow> Err what | Some x \<Rightarrow> Ok (x, rest))"

text \<open>A field that old records do not have: \<open>is_finished\<close> selects its default.\<close>

definition cursor_or :: "'a \<Rightarrow> 'a cursor_read \<Rightarrow> 'a cursor_read" where
  "cursor_or x p bs = (if bs = [] then Ok (x, bs) else p bs)"

definition cursor_finish :: "'a cursor_read \<Rightarrow> bytes \<Rightarrow> 'a result" where
  "cursor_finish p body =
     and_then (p body) (\<lambda>(x, rest). if rest = [] then Ok x else Err ''trailing bytes in WAL record'')"

definition DEFAULT_NAMESPACE :: string where
  "DEFAULT_NAMESPACE = ''default''"

definition legacy_publish :: "u64 \<Rightarrow> string \<Rightarrow> string option \<Rightarrow> bytes \<Rightarrow> string option \<Rightarrow> publish_record" where
  "legacy_publish seq subject reply_to payload stream =
     \<lparr>pub_seq = seq, pub_namespace = DEFAULT_NAMESPACE, pub_stream = stream, pub_partition = None, pub_offset = None,
      pub_subject = subject, pub_key = None, pub_headers = [], pub_timestamp_ms = 0, pub_reply_to = reply_to,
      pub_payload = payload, pub_partitioning_epoch = 0, pub_leader_epoch = 0\<rparr>"

definition decode_publish :: "bytes \<Rightarrow> publish_record result" where
  "decode_publish = cursor_finish (
     cursor_then cursor_u64 (\<lambda>seq.
     cursor_then cursor_string (\<lambda>subject.
     cursor_then cursor_option_string (\<lambda>reply_to.
     cursor_then cursor_bytes (\<lambda>payload.
     cursor_then (cursor_or None cursor_option_string) (\<lambda>stream.
       cursor_value (legacy_publish seq subject reply_to payload stream)))))))"

definition decode_partition_append :: "bytes \<Rightarrow> partition_append_record result" where
  "decode_partition_append = cursor_finish (
     cursor_then cursor_u64 (\<lambda>seq.
     cursor_then cursor_string (\<lambda>stream.
     cursor_then cursor_u32 (\<lambda>p.
     cursor_then cursor_u64 (\<lambda>offset.
     cursor_then cursor_string (\<lambda>subject.
       cursor_value \<lparr>ap_seq = seq, ap_stream = stream, ap_partition = p, ap_offset = offset, ap_subject = subject\<rparr>))))))"

definition decode_consumer_cursor :: "wal_codec \<Rightarrow> bytes \<Rightarrow> consumer_cursor_record result" where
  "decode_consumer_cursor wc = cursor_finish (
     cursor_then cursor_string (\<lambda>i.
     cursor_then (cursor_json (wc_cursors wc) ''decoding consumer cursors'') (\<lambda>cursors.
       cursor_value \<lparr>ccr_consumer_id = i, ccr_cursors = cursors\<rparr>)))"

definition decode_consumer_cursor_delta :: "wal_codec \<Rightarrow> bytes \<Rightarrow> consumer_cursor_delta_record result" where
  "decode_consumer_cursor_delta wc = cursor_finish (
     cursor_then cursor_string (\<lambda>i.
     cursor_then cursor_u32 (\<lambda>ack_window.
     cursor_then cursor_string (\<lambda>stream.
     cursor_then cursor_u32 (\<lambda>p.
     cursor_then cursor_u64 (\<lambda>committed.
     cursor_then cursor_option_u64 (\<lambda>delivered.
     cursor_then (cursor_json (wc_offsets wc) ''decoding acknowledged offsets'') (\<lambda>acknowledged.
     cursor_then cursor_u64 (\<lambda>gaps.
       cursor_value \<lparr>ccd_consumer_id = i,
         ccd_cursor = \<lparr>cu_stream = stream, cu_partition = p, cu_committed_offset = committed, cu_delivered_offset = delivered,
           cu_acknowledged_offsets = acknowledged, cu_retention_gaps = gaps\<rparr>,
         ccd_ack_window = ack_window\<rparr>)))))))))"

definition decode_consumer_delete :: "bytes \<Rightarrow> string result" where
  "decode_consumer_delete = cursor_finish cursor_string"

definition decode_consumer_upsert :: "wal_codec \<Rightarrow> bytes \<Rightarrow> consumer_record result" where
  "decode_consumer_upsert wc = cursor_finish (
     cursor_then cursor_string (\<lambda>i.
     cursor_then cursor_string (\<lambda>filter_subject.
     cursor_then cursor_option_string (\<lambda>queue_group.
     cursor_then cursor_u64 (\<lambda>ack_timeout_ms.
     cursor_then cursor_u32 (\<lambda>max_in_flight.
     cursor_then (cursor_or Latest (cursor_json (wc_start wc) ''decoding consumer start position'')) (\<lambda>start.
     cursor_then (cursor_or default_retry_policy (cursor_json (wc_retry wc) ''decoding consumer retry policy'')) (\<lambda>retry.
       cursor_value \<lparr>cn_consumer_id = i, cn_filter_subject = filter_subject, cn_queue_group = queue_group,
         cn_ack_timeout_ms = ack_timeout_ms, cn_max_in_flight = max_in_flight, cn_start_position = start,
         cn_retry_policy = retry\<rparr>))))))))"

definition decode_delivery_attempt :: "bytes \<Rightarrow> delivery_attempt_record result" where
  "decode_delivery_attempt = cursor_finish (
     cursor_then cursor_u64 (\<lambda>seq.
     cursor_then cursor_string (\<lambda>i.
     cursor_then cursor_u64 (\<lambda>delivery_id.
     cursor_then cursor_u64 (\<lambda>deadline_ms.
     cursor_then cursor_u32 (\<lambda>attempt.
     cursor_then (cursor_or False cursor_flag) (\<lambda>retry_waiting.
       cursor_value \<lparr>da_seq = seq, da_consumer_id = i, da_delivery_id = delivery_id, da_deadline_ms = deadline_ms,
         da_attempt = attempt, da_retry_waiting = retry_waiting\<rparr>)))))))"

definition decode_ack :: "bytes \<Rightarrow> ack_record result" where
  "decode_ack = cursor_finish (
     cursor_then cursor_u64 (\<lambda>seq.
     cursor_then cursor_string (\<lambda>i.
     cursor_then cursor_u64 (\<lambda>delivery_id.
       cursor_value \<lparr>ak_seq = seq, ak_consumer_id = i, ak_delivery_id = delivery_id\<rparr>))))"

definition decode_dead_letter_purge :: "bytes \<Rightarrow> u64 result" where
  "decode_dead_letter_purge = cursor_finish cursor_u64"

definition decode_json :: "'a json_codec \<Rightarrow> string \<Rightarrow> bytes \<Rightarrow> 'a result" where
  "decode_json c what body = (case js_decode c body of None \<Rightarrow> Err what | Some x \<Rightarrow> Ok x)"

text \<open>The dispatch at the head of \<open>apply_record\<close>.\<close>

definition decode_record :: "wal_codec \<Rightarrow> 8 word \<Rightarrow> bytes \<Rightarrow> wal_record result" where
  "decode_record wc kind body =
     (if kind = 1 then map_ok PublishRec (decode_publish body)
      else if kind = 2 then map_ok ConsumerUpsertRec (decode_consumer_upsert wc body)
      else if kind = 3 then map_ok DeliveryAttemptRec (decode_delivery_attempt body)
      else if kind = 4 then map_ok AckRec (decode_ack body)
      else if kind = 5 then map_ok PartitionAppendRec (decode_partition_append body)
      else if kind = 6 then map_ok ConsumerCursorRec (decode_consumer_cursor wc body)
      else if kind = 12 then map_ok ConsumerCursorDeltaRec (decode_consumer_cursor_delta wc body)
      else if kind = 7 then map_ok ConsumerDeleteRec (decode_consumer_delete body)
      else if kind = 8 then map_ok DeadLetterRec (decode_json (wc_dead_letter wc) ''decoding dead-letter record'' body)
      else if kind = 9 then map_ok DeadLetterPurgeRec (decode_dead_letter_purge body)
      else if kind = 10 then map_ok ProducerSequenceRec (decode_json (wc_producer wc) ''decoding producer sequence record'' body)
      else if kind = 11 then map_ok GroupStateRec (decode_json (wc_group wc) ''decoding consumer-group state'' body)
      else Err ''unknown WAL record kind'')"

section \<open>Fields read back\<close>

definition reads_back :: "'a cursor_read \<Rightarrow> bytes \<Rightarrow> 'a \<Rightarrow> bool" where
  "reads_back p bs x \<longleftrightarrow> (\<forall>post. p (bs @ post) = Ok (x, post))"

locale wal_field =
  fixes put :: "'a \<Rightarrow> bytes \<Rightarrow> bytes result"
    and get :: "'a cursor_read"
    and fits :: "'a \<Rightarrow> bool"
  assumes field_law: "fits x \<Longrightarrow> \<exists>bs. writes (put x) bs \<and> bs \<noteq> [] \<and> reads_back get bs x"
begin

lemma optional_field:
  assumes "fits x"
  shows "\<exists>bs. writes (put x) bs \<and> bs \<noteq> [] \<and> reads_back (cursor_or d get) bs x"
  using field_law [OF assms] by (auto simp: reads_back_def cursor_or_def)

end

lemma reads_back_then: "reads_back p bs x \<Longrightarrow> reads_back (f x) cs y \<Longrightarrow> reads_back (cursor_then p f) (bs @ cs) y"
  by (simp add: reads_back_def cursor_then_def)

lemma reads_back_value: "reads_back p bs x \<Longrightarrow> reads_back (cursor_then p (\<lambda>x. cursor_value (f x))) bs (f x)"
  by (simp add: reads_back_def cursor_then_def cursor_value_def)

lemma reads_back_check: "reads_back p bs x \<Longrightarrow> (\<And>rest. c x rest = Ok (y, rest)) \<Longrightarrow> reads_back (cursor_then p c) bs y"
  by (simp add: reads_back_def cursor_then_def)

lemma reads_back_take: "reads_back (cursor_take (length bs)) bs bs"
  by (simp add: reads_back_def cursor_take_def)

lemma reads_back_finish: "reads_back p bs x \<Longrightarrow> cursor_finish p bs = Ok x"
  unfolding reads_back_def cursor_finish_def by (drule spec [of _ "[]"]) simp

interpretation wal_u32: wal_field wal_put_u32 cursor_u32 "\<lambda>n. n \<le> u32_max"
proof unfold_locales
  show "\<exists>bs. writes (wal_put_u32 n) bs \<and> bs \<noteq> [] \<and> reads_back cursor_u32 bs n" if "n \<le> u32_max" for n
  proof (intro exI conjI)
    show "writes (wal_put_u32 n) (to_le_bytes 4 n)" by (simp add: writes_def wal_put_u32_def)
    show "to_le_bytes 4 n \<noteq> []" by (metis length_to_le_bytes list.size(3) zero_neq_numeral)
    show "reads_back cursor_u32 (to_le_bytes 4 n) n"
      using reads_back_value [OF reads_back_take, of "to_le_bytes 4 n" from_le_bytes]
        from_to_le_bytes [OF u_max_less(1) [OF that]] by (simp add: cursor_u32_def)
  qed
qed

interpretation wal_u64: wal_field wal_put_u64 cursor_u64 "\<lambda>n. n \<le> u64_max"
proof unfold_locales
  show "\<exists>bs. writes (wal_put_u64 n) bs \<and> bs \<noteq> [] \<and> reads_back cursor_u64 bs n" if "n \<le> u64_max" for n
  proof (intro exI conjI)
    show "writes (wal_put_u64 n) (to_le_bytes 8 n)" by (simp add: writes_def wal_put_u64_def)
    show "to_le_bytes 8 n \<noteq> []" by (metis length_to_le_bytes list.size(3) zero_neq_numeral)
    show "reads_back cursor_u64 (to_le_bytes 8 n) n"
      using reads_back_value [OF reads_back_take, of "to_le_bytes 8 n" from_le_bytes]
        from_to_le_bytes [OF u_max_less(2) [OF that]] by (simp add: cursor_u64_def)
  qed
qed

interpretation wal_bytes: wal_field wal_put_bytes cursor_bytes "\<lambda>bs. length bs \<le> u32_max"
proof unfold_locales
  show "\<exists>cs. writes (wal_put_bytes bs) cs \<and> cs \<noteq> [] \<and> reads_back cursor_bytes cs bs" if fits: "length bs \<le> u32_max" for bs
  proof -
    obtain ns where ns: "writes (wal_put_u32 (length bs)) ns" "ns \<noteq> []" "reads_back cursor_u32 ns (length bs)"
      using wal_u32.field_law [OF fits] by blast
    have "writes (wal_put_bytes bs) (ns @ bs)" using ns(1) fits by (simp add: writes_def wal_put_bytes_def)
    moreover have "reads_back cursor_bytes (ns @ bs) bs"
      unfolding cursor_bytes_def by (rule reads_back_then [OF ns(3)]) (rule reads_back_take)
    ultimately show ?thesis using ns(2) by blast
  qed
qed

interpretation wal_string: wal_field wal_put_string cursor_string string_fits
proof unfold_locales
  show "\<exists>cs. writes (wal_put_string s) cs \<and> cs \<noteq> [] \<and> reads_back cursor_string cs s" if fits: "string_fits s" for s
  proof -
    have len: "length (bytes_of_string s) \<le> u32_max" and utf8: "from_utf8 (bytes_of_string s) = Some s"
      using fits by (simp_all add: string_fits_def bytes_of_string_def from_utf8_def
          string_of_bytes_of_string [unfolded bytes_of_string_def])
    obtain cs where cs: "writes (wal_put_bytes (bytes_of_string s)) cs" "cs \<noteq> []" "reads_back cursor_bytes cs (bytes_of_string s)"
      using wal_bytes.field_law [OF len] by blast
    have "reads_back cursor_string cs s"
      unfolding cursor_string_def by (rule reads_back_check [OF cs(3)]) (simp add: utf8)
    with cs(1,2) show ?thesis by (auto simp: wal_put_string_def writes_def)
  qed
qed

interpretation wal_option_string: wal_field put_option_string cursor_option_string "\<lambda>k. \<forall>v. k = Some v \<longrightarrow> string_fits v"
proof unfold_locales
  show "\<exists>cs. writes (put_option_string k) cs \<and> cs \<noteq> [] \<and> reads_back cursor_option_string cs k"
    if fits: "\<forall>v. k = Some v \<longrightarrow> string_fits v" for k
  proof (cases k)
    case None
    then show ?thesis
      by (intro exI [of _ "[0]"]) (simp add: writes_def put_option_string_def reads_back_def cursor_option_string_def cursor_then_def
        cursor_take_def cursor_value_def)
  next
    case (Some v)
    then obtain cs where cs: "writes (wal_put_string v) cs" "reads_back cursor_string cs v"
      using wal_string.field_law fits by blast
    then show ?thesis
      using Some by (intro exI [of _ "1 # cs"]) (simp add: writes_def put_option_string_def reads_back_def cursor_option_string_def
        cursor_then_def cursor_take_def cursor_value_def)
  qed
qed

interpretation wal_usize: wal_field "wal_put_usize what" cursor_u32 "\<lambda>n. n \<le> u32_max" for what
  by unfold_locales (use wal_u32.field_law in \<open>simp add: writes_def wal_put_usize_def\<close>)

interpretation wal_flag: wal_field wal_put_flag cursor_flag "\<lambda>b. True"
proof unfold_locales
  show "\<exists>bs. writes (wal_put_flag b) bs \<and> bs \<noteq> [] \<and> reads_back cursor_flag bs b" for b
    by (intro exI [of _ "[if b then 1 else 0]"]) (simp add: writes_def wal_put_flag_def reads_back_def cursor_flag_def cursor_then_def
      cursor_take_def cursor_value_def)
qed

interpretation wal_option_u64: wal_field put_option_u64 cursor_option_u64 "\<lambda>k. \<forall>v. k = Some v \<longrightarrow> v \<le> u64_max"
proof unfold_locales
  show "\<exists>cs. writes (put_option_u64 k) cs \<and> cs \<noteq> [] \<and> reads_back cursor_option_u64 cs k"
    if fits: "\<forall>v. k = Some v \<longrightarrow> v \<le> u64_max" for k
  proof (cases k)
    case None
    then show ?thesis
      by (intro exI [of _ "[0]"]) (simp add: writes_def put_option_u64_def reads_back_def cursor_option_u64_def cursor_flag_def
        cursor_then_def cursor_take_def cursor_value_def)
  next
    case (Some v)
    then obtain cs where cs: "writes (wal_put_u64 v) cs" "reads_back cursor_u64 cs v"
      using wal_u64.field_law fits by blast
    then show ?thesis
      using Some by (intro exI [of _ "1 # cs"]) (simp add: writes_def put_option_u64_def reads_back_def cursor_option_u64_def
        cursor_flag_def cursor_then_def cursor_take_def cursor_value_def)
  qed
qed

definition json_fits :: "'a json_codec \<Rightarrow> 'a \<Rightarrow> bool" where
  "json_fits c x \<longleftrightarrow> json_reads c x \<and> length (js_encode c x) \<le> u32_max"

interpretation wal_json: wal_field "\<lambda>x. wal_put_bytes (js_encode c x)" "cursor_json c what" "json_fits c" for c what
proof unfold_locales
  show "\<exists>bs. writes (wal_put_bytes (js_encode c x)) bs \<and> bs \<noteq> [] \<and> reads_back (cursor_json c what) bs x" if fits: "json_fits c x" for x
  proof -
    obtain bs where bs: "writes (wal_put_bytes (js_encode c x)) bs" "bs \<noteq> []" "reads_back cursor_bytes bs (js_encode c x)"
      using wal_bytes.field_law fits unfolding json_fits_def by blast
    have "reads_back (cursor_json c what) bs x"
      unfolding cursor_json_def by (rule reads_back_check [OF bs(3)]) (use fits in \<open>simp add: json_fits_def json_reads_def\<close>)
    with bs show ?thesis by blast
  qed
qed

section \<open>Records read back\<close>

text \<open>
  The records the format carries: values of their types (widths, UTF-8), fields below the 32-bit
  length prefix, and JSON that reads back. A legacy publish record keeps only the fields that
  existed then.
\<close>

fun wal_record_fits :: "wal_codec \<Rightarrow> wal_record \<Rightarrow> bool" where
  "wal_record_fits wc (PublishRec r) \<longleftrightarrow>
     r = legacy_publish (pub_seq r) (pub_subject r) (pub_reply_to r) (pub_payload r) (pub_stream r)
     \<and> pub_seq r \<le> u64_max \<and> string_fits (pub_subject r) \<and> (\<forall>v. pub_reply_to r = Some v \<longrightarrow> string_fits v)
     \<and> length (pub_payload r) \<le> u32_max \<and> (\<forall>v. pub_stream r = Some v \<longrightarrow> string_fits v)"
| "wal_record_fits wc (ConsumerUpsertRec r) \<longleftrightarrow>
     string_fits (cn_consumer_id r) \<and> string_fits (cn_filter_subject r) \<and> (\<forall>v. cn_queue_group r = Some v \<longrightarrow> string_fits v)
     \<and> cn_ack_timeout_ms r \<le> u64_max \<and> cn_max_in_flight r \<le> u32_max
     \<and> json_fits (wc_start wc) (cn_start_position r) \<and> json_fits (wc_retry wc) (cn_retry_policy r)"
| "wal_record_fits wc (DeliveryAttemptRec r) \<longleftrightarrow>
     da_seq r \<le> u64_max \<and> string_fits (da_consumer_id r) \<and> da_delivery_id r \<le> u64_max \<and> da_deadline_ms r \<le> u64_max
     \<and> da_attempt r \<le> u32_max"
| "wal_record_fits wc (AckRec r) \<longleftrightarrow> ak_seq r \<le> u64_max \<and> string_fits (ak_consumer_id r) \<and> ak_delivery_id r \<le> u64_max"
| "wal_record_fits wc (PartitionAppendRec r) \<longleftrightarrow>
     ap_seq r \<le> u64_max \<and> string_fits (ap_stream r) \<and> ap_partition r \<le> u32_max \<and> ap_offset r \<le> u64_max \<and> string_fits (ap_subject r)"
| "wal_record_fits wc (ConsumerCursorRec r) \<longleftrightarrow> string_fits (ccr_consumer_id r) \<and> json_fits (wc_cursors wc) (ccr_cursors r)"
| "wal_record_fits wc (ConsumerDeleteRec i) \<longleftrightarrow> string_fits i"
| "wal_record_fits wc (DeadLetterRec r) \<longleftrightarrow> json_reads (wc_dead_letter wc) r"
| "wal_record_fits wc (DeadLetterPurgeRec i) \<longleftrightarrow> i \<le> u64_max"
| "wal_record_fits wc (ProducerSequenceRec r) \<longleftrightarrow> json_reads (wc_producer wc) r"
| "wal_record_fits wc (GroupStateRec r) \<longleftrightarrow> json_reads (wc_group wc) r"
| "wal_record_fits wc (ConsumerCursorDeltaRec r) \<longleftrightarrow>
     string_fits (ccd_consumer_id r) \<and> ccd_ack_window r \<le> u32_max \<and> string_fits (cu_stream (ccd_cursor r))
     \<and> cu_partition (ccd_cursor r) \<le> u32_max \<and> cu_committed_offset (ccd_cursor r) \<le> u64_max
     \<and> (\<forall>v. cu_delivered_offset (ccd_cursor r) = Some v \<longrightarrow> v \<le> u64_max)
     \<and> json_fits (wc_offsets wc) (cu_acknowledged_offsets (ccd_cursor r)) \<and> cu_retention_gaps (ccd_cursor r) \<le> u64_max"

text \<open>\<open>puts_back w p x\<close>: the writer appends bytes from which the reader gets \<open>x\<close>; both compose.\<close>

definition puts_back :: "(bytes \<Rightarrow> bytes result) \<Rightarrow> 'a cursor_read \<Rightarrow> 'a \<Rightarrow> bool" where
  "puts_back w p x \<longleftrightarrow> (\<exists>bs. writes w bs \<and> reads_back p bs x)"

lemma puts_back_then:
  assumes "puts_back w p x" "puts_back v (f x) y"
  shows "puts_back (\<lambda>out. and_then (w out) v) (cursor_then p f) y"
proof -
  obtain bs cs where "writes w bs" "reads_back p bs x" "writes v cs" "reads_back (f x) cs y"
    using assms by (auto simp: puts_back_def)
  then show ?thesis unfolding puts_back_def by (blast intro: writes_seq reads_back_then)
qed

lemma puts_back_value: "puts_back w p x \<Longrightarrow> y = f x \<Longrightarrow> puts_back w (cursor_then p (\<lambda>x. cursor_value (f x))) y"
  unfolding puts_back_def by (blast intro: reads_back_value)

lemma puts_back_finish: "puts_back w p x \<Longrightarrow> w [] = Ok body \<Longrightarrow> cursor_finish p body = Ok x"
  unfolding puts_back_def writes_def by (auto intro: reads_back_finish)

lemma fits_puts_back:
  "n \<le> u32_max \<Longrightarrow> puts_back (wal_put_u32 n) cursor_u32 n"
  "n \<le> u64_max \<Longrightarrow> puts_back (wal_put_u64 n) cursor_u64 n"
  "length bs \<le> u32_max \<Longrightarrow> puts_back (wal_put_bytes bs) cursor_bytes bs"
  "string_fits s \<Longrightarrow> puts_back (wal_put_string s) cursor_string s"
  "(\<forall>v. k = Some v \<longrightarrow> string_fits v) \<Longrightarrow> puts_back (put_option_string k) cursor_option_string k"
  "(\<forall>v. k = Some v \<longrightarrow> string_fits v) \<Longrightarrow> puts_back (put_option_string k) (cursor_or d cursor_option_string) k"
  "n \<le> u32_max \<Longrightarrow> puts_back (wal_put_usize what n) cursor_u32 n"
  "puts_back (wal_put_flag b) (cursor_or b0 cursor_flag) b"
  "(\<forall>v. m = Some v \<longrightarrow> v \<le> u64_max) \<Longrightarrow> puts_back (put_option_u64 m) cursor_option_u64 m"
  "json_fits c x \<Longrightarrow> puts_back (wal_put_bytes (js_encode c x)) (cursor_json c what) x"
  "json_fits c x \<Longrightarrow> puts_back (wal_put_bytes (js_encode c x)) (cursor_or y (cursor_json c what)) x"
  unfolding puts_back_def
  subgoal using wal_u32.field_law by blast
  subgoal using wal_u64.field_law by blast
  subgoal using wal_bytes.field_law by blast
  subgoal using wal_string.field_law by blast
  subgoal using wal_option_string.field_law by blast
  subgoal using wal_option_string.optional_field by blast
  subgoal using wal_usize.field_law by blast
  subgoal using wal_flag.optional_field by blast
  subgoal using wal_option_u64.field_law by blast
  subgoal by (drule wal_json.field_law [of c x what]) auto
  subgoal by (drule wal_json.optional_field [of c x y what]) auto
  done

lemmas body_defs = publish_body_def consumer_upsert_body_def delivery_attempt_body_def ack_body_def dead_letter_purge_body_def
  partition_append_body_def consumer_cursor_body_def consumer_cursor_delta_body_def consumer_delete_body_def

lemmas decode_defs = decode_publish_def decode_consumer_upsert_def decode_delivery_attempt_def decode_ack_def
  decode_dead_letter_purge_def decode_partition_append_def decode_consumer_cursor_def decode_consumer_cursor_delta_def
  decode_consumer_delete_def

lemma puts_back_body:
  assumes "puts_back w p x" "puts_back v (f x) y"
  shows "\<exists>body. and_then (w []) v = Ok body \<and> cursor_finish (cursor_then p f) body = Ok y"
proof -
  have "puts_back (\<lambda>out. and_then (w out) v) (cursor_then p f) y" using assms by (rule puts_back_then)
  then show ?thesis by (auto simp: puts_back_def writes_def intro: reads_back_finish)
qed

lemma publish_back:
  assumes "wal_record_fits wc (PublishRec r)"
  shows "\<exists>body. publish_body r = Ok body \<and> decode_publish body = Ok r"
  unfolding body_defs decode_defs
  by (rule puts_back_body [where w = "wal_put_u64 (pub_seq r)"])
    (use assms in \<open>auto intro!: puts_back_then puts_back_value fits_puts_back\<close>)

lemma consumer_upsert_back:
  assumes "wal_record_fits wc (ConsumerUpsertRec r)"
  shows "\<exists>body. consumer_upsert_body wc r = Ok body \<and> decode_consumer_upsert wc body = Ok r"
  unfolding body_defs decode_defs
  by (rule puts_back_body [where w = "wal_put_string (cn_consumer_id r)"])
    (use assms in \<open>auto intro!: puts_back_then puts_back_value fits_puts_back\<close>)

lemma delivery_attempt_back:
  assumes "wal_record_fits wc (DeliveryAttemptRec r)"
  shows "\<exists>body. delivery_attempt_body r = Ok body \<and> decode_delivery_attempt body = Ok r"
  unfolding body_defs decode_defs
  by (rule puts_back_body [where w = "wal_put_u64 (da_seq r)"])
    (use assms in \<open>auto intro!: puts_back_then puts_back_value fits_puts_back\<close>)

lemma ack_back:
  assumes "wal_record_fits wc (AckRec r)"
  shows "\<exists>body. ack_body r = Ok body \<and> decode_ack body = Ok r"
  unfolding body_defs decode_defs
  by (rule puts_back_body [where w = "wal_put_u64 (ak_seq r)"])
    (use assms in \<open>auto intro!: puts_back_then puts_back_value fits_puts_back\<close>)

lemma partition_append_back:
  assumes "wal_record_fits wc (PartitionAppendRec r)"
  shows "\<exists>body. partition_append_body r = Ok body \<and> decode_partition_append body = Ok r"
  unfolding body_defs decode_defs
  by (rule puts_back_body [where w = "wal_put_u64 (ap_seq r)"])
    (use assms in \<open>auto intro!: puts_back_then puts_back_value fits_puts_back\<close>)

lemma consumer_cursor_back:
  assumes "wal_record_fits wc (ConsumerCursorRec r)"
  shows "\<exists>body. consumer_cursor_body wc r = Ok body \<and> decode_consumer_cursor wc body = Ok r"
  unfolding body_defs decode_defs
  by (rule puts_back_body [where w = "wal_put_string (ccr_consumer_id r)"])
    (use assms in \<open>auto intro!: puts_back_then puts_back_value fits_puts_back\<close>)

lemma consumer_cursor_delta_back:
  assumes "wal_record_fits wc (ConsumerCursorDeltaRec r)"
  shows "\<exists>body. consumer_cursor_delta_body wc r = Ok body \<and> decode_consumer_cursor_delta wc body = Ok r"
  unfolding body_defs decode_defs
  by (rule puts_back_body [where w = "wal_put_string (ccd_consumer_id r)"])
    (use assms in \<open>auto intro!: puts_back_then puts_back_value fits_puts_back\<close>)

lemma single_field_back:
  "string_fits i \<Longrightarrow> \<exists>body. consumer_delete_body i = Ok body \<and> decode_consumer_delete body = Ok i"
  "n \<le> u64_max \<Longrightarrow> \<exists>body. dead_letter_purge_body n = Ok body \<and> decode_dead_letter_purge body = Ok n"
  unfolding body_defs decode_defs
  using fits_puts_back(4) [of i] fits_puts_back(2) [of n] by (auto simp: puts_back_def writes_def intro: reads_back_finish)

lemma record_body_back:
  assumes "wal_record_fits wc r"
  shows "\<exists>body. record_body wc r = Ok body \<and> decode_record wc (record_kind r) body = Ok r"
proof (cases r)
  case (PublishRec x)
  then show ?thesis using assms publish_back [of wc x] by (auto simp: decode_record_def)
next
  case (ConsumerUpsertRec x)
  then show ?thesis using assms consumer_upsert_back [of wc x] by (auto simp: decode_record_def)
next
  case (DeliveryAttemptRec x)
  then show ?thesis using assms delivery_attempt_back [of wc x] by (auto simp: decode_record_def)
next
  case (AckRec x)
  then show ?thesis using assms ack_back [of wc x] by (auto simp: decode_record_def)
next
  case (PartitionAppendRec x)
  then show ?thesis using assms partition_append_back [of wc x] by (auto simp: decode_record_def)
next
  case (ConsumerCursorRec x)
  then show ?thesis using assms consumer_cursor_back [of wc x] by (auto simp: decode_record_def)
next
  case (ConsumerCursorDeltaRec x)
  then show ?thesis using assms consumer_cursor_delta_back [of wc x] by (auto simp: decode_record_def)
next
  case (ConsumerDeleteRec i)
  then show ?thesis using assms single_field_back(1) [of i] by (auto simp: decode_record_def)
next
  case (DeadLetterPurgeRec n)
  then show ?thesis using assms single_field_back(2) [of n] by (auto simp: decode_record_def)
qed (use assms in \<open>auto simp: decode_record_def decode_json_def json_reads_def\<close>)

section \<open>Frames read back\<close>

text \<open>The bytes \<open>append_record\<close> writes for a record.\<close>

definition record_frame :: "wal_codec \<Rightarrow> wal_encryption \<Rightarrow> wal_record \<Rightarrow> bytes result" where
  "record_frame wc encryption r =
     and_then (record_body wc r) (\<lambda>body.
     and_then (protect_body (record_kind r) body encryption) (encode_record wc (record_kind r)))"

definition wal_encryption_ok :: "wal_encryption \<Rightarrow> bool" where
  "wal_encryption_ok encryption \<longleftrightarrow> (\<forall>ring kind. encryption = Some ring \<longrightarrow> key_ring_ok (ring kind))"

text \<open>A body in the clear must not look like a sealed one.\<close>

definition clear_body :: "wal_codec \<Rightarrow> wal_encryption \<Rightarrow> wal_record \<Rightarrow> bool" where
  "clear_body wc encryption r \<longleftrightarrow>
     (encryption = None \<longrightarrow> (\<forall>body. record_body wc r = Ok body \<longrightarrow> \<not> prefix WAL_ENCRYPTED_BODY_MAGIC body))"

lemma encode_record_eq:
  assumes "encode_record wc kind body = Ok frame"
  shows "frame = to_le_bytes 4 (length body + 1) @ [kind] @ body @ to_le_bytes 4 (unat (wc_crc wc (kind # body)))"
    "length body + 1 \<le> u32_max" "length frame = length body + 9" "record_size body = Ok (length frame)"
  using assms by (auto simp: encode_record_def record_size_def split: if_splits)

lemma read_frame_back:
  assumes "encode_record wc kind body = Ok frame"
  shows "read_record wc (frame @ rest) = (Ok (Some (kind, body, length frame)), rest)"
proof -
  note frame = encode_record_eq [OF assms]
  have crc: "unat (wc_crc wc (kind # body)) < 256 ^ 4" using unsigned_less [of "wc_crc wc (kind # body)"] by simp
  have len: "from_le_bytes (to_le_bytes 4 (length body + 1)) = length body + 1"
    by (rule from_to_le_bytes [OF u_max_less(1) [OF frame(2)]])
  have front: "read_exact 4 (frame @ rest)
      = (Ok (to_le_bytes 4 (length body + 1)), [kind] @ body @ to_le_bytes 4 (unat (wc_crc wc (kind # body))) @ rest)"
    by (simp add: read_exact_def frame(1))
  have middle: "read_exact (length body + 1) ([kind] @ body @ to_le_bytes 4 (unat (wc_crc wc (kind # body))) @ rest)
      = (Ok (kind # body), to_le_bytes 4 (unat (wc_crc wc (kind # body))) @ rest)"
    by (simp add: read_exact_def)
  have crc_part: "read_exact 4 (to_le_bytes 4 (unat (wc_crc wc (kind # body))) @ rest)
      = (Ok (to_le_bytes 4 (unat (wc_crc wc (kind # body)))), rest)"
    by (simp add: read_exact_def)
  show ?thesis
    unfolding read_record_def front sum.case prod.case len Let_def middle crc_part from_to_le_bytes [OF crc]
    by (simp add: frame(3))
qed

text \<open>A frame that was cut off: nothing at all reads as the end, less than a length too, more as a torn record.\<close>

lemma read_torn_frame:
  assumes "encode_record wc kind body = Ok frame" "strict_prefix torn frame"
  shows "fst (read_record wc torn) = (if length torn < 4 then Ok None else Err (UnexpectedEof ''failed to fill whole buffer''))"
proof -
  note frame = encode_record_eq [OF assms(1)]
  obtain more where more: "frame = torn @ more" "more \<noteq> []" using assms(2) by (auto simp: strict_prefix_def prefix_def)
  show ?thesis
  proof (cases "length torn < 4")
    case True
    then show ?thesis by (simp add: read_record_def read_exact_def)
  next
    case False
    have "take 4 torn = take 4 frame" using more(1) False by simp
    also have "\<dots> = to_le_bytes 4 (length body + 1)" using frame(1) by simp
    finally have len: "from_le_bytes (take 4 torn) = length body + 1"
      using from_to_le_bytes [OF u_max_less(1) [OF frame(2)]] by simp
    have "0 < length more" using more(2) by simp
    then have short: "length torn < length body + 9" using more(1) frame(3) by (simp del: length_greater_0_conv)
    show ?thesis
    proof (cases "length torn - 4 < length body + 1")
      case True
      then show ?thesis using False len by (simp add: read_record_def read_exact_def Let_def)
    next
      case big: False
      then have "length torn - 4 - (length body + 1) < 4" using short by simp
      then show ?thesis using False len big by (simp add: read_record_def read_exact_def Let_def)
    qed
  qed
qed

lemma unprotect_back:
  assumes "wal_encryption_ok encryption" "protect_body kind body encryption = Ok protected"
    and "encryption = None \<Longrightarrow> \<not> prefix WAL_ENCRYPTED_BODY_MAGIC body"
  shows "unprotect_body kind protected encryption = Ok body"
proof (cases encryption)
  case None
  then show ?thesis using assms(2,3) by (simp add: protect_body_def unprotect_body_def)
next
  case (Some ring)
  then obtain sealed where sealed: "kr_seal (ring kind) body = Ok sealed" "protected = WAL_ENCRYPTED_BODY_MAGIC @ sealed"
    using assms(2) by (auto simp: protect_body_def map_ok_def and_then_eq_Ok)
  moreover have "key_ring_ok (ring kind)" using assms(1) Some by (simp add: wal_encryption_ok_def)
  ultimately show ?thesis using Some by (simp add: unprotect_body_def key_ring_ok_def)
qed

lemma record_frame_parts:
  assumes "record_frame wc encryption r = Ok frame"
  obtains body protected where "record_body wc r = Ok body" "protect_body (record_kind r) body encryption = Ok protected"
    "encode_record wc (record_kind r) protected = Ok frame"
  using assms by (auto simp: record_frame_def and_then_eq_Ok)

lemma record_frame_back:
  assumes "wal_record_fits wc r" "wal_encryption_ok encryption" "clear_body wc encryption r" "record_frame wc encryption r = Ok frame"
  shows "\<exists>protected. read_record wc (frame @ rest) = (Ok (Some (record_kind r, protected, length frame)), rest)
    \<and> and_then (unprotect_body (record_kind r) protected encryption) (decode_record wc (record_kind r)) = Ok r"
proof -
  obtain body protected where parts: "record_body wc r = Ok body" "protect_body (record_kind r) body encryption = Ok protected"
    "encode_record wc (record_kind r) protected = Ok frame" using assms(4) by (rule record_frame_parts)
  have "unprotect_body (record_kind r) protected encryption = Ok body"
    using unprotect_back [OF assms(2) parts(2)] assms(3) parts(1) by (simp add: clear_body_def)
  moreover have "decode_record wc (record_kind r) body = Ok r" using record_body_back [OF assms(1)] parts(1) by auto
  ultimately show ?thesis using read_frame_back [OF parts(3)] by auto
qed

end
