(* ===== verification/Wal_Log.thy ===== *)
theory Wal_Log
  imports Wal_Replay
begin

text \<open>
  The write-ahead log itself, from \<open>crates/server/src/wal/wal.rs\<close>: opening, appending with rotation,
  batches, flushing, checkpoints. A directory is kept together with the number of bytes of the open file that
  \<open>sync_data\<close> has made durable, so that a crash may cut the rest. Times are arguments; the
  durations among the metrics are left out. Sizes and numbers that a plain addition would
  overflow give an error, which stands for the panic.

  The theorems: whatever a crash cuts behind the synced bytes and the header of the active
  segment, the next start replays a prefix of the appended records that has all flushed ones; and a checkpoint
  replays to the consumers it was given. A batch may overfill its segment, a failed
  checkpoint blocks the next, a checkpoint forgets delivery numbers.
\<close>

section \<open>State\<close>

record wal_metrics =
  wm_rotations :: u64
  wm_checkpoints :: u64
  wm_truncations :: u64
  wm_deleted_segments :: u64
  wm_partition_append_batches :: u64
  wm_partition_append_records :: u64
  wm_partition_append_bytes :: u64
  wm_partition_append_batch_max_records :: u64
  wm_partition_append_batch_max_bytes :: u64
  wm_partition_append_batch_wait_us :: u64
  wm_flushes :: u64

definition default_wal_metrics :: wal_metrics where
  "default_wal_metrics =
     \<lparr>wm_rotations = 0, wm_checkpoints = 0, wm_truncations = 0, wm_deleted_segments = 0, wm_partition_append_batches = 0,
      wm_partition_append_records = 0, wm_partition_append_bytes = 0, wm_partition_append_batch_max_records = 0,
      wm_partition_append_batch_max_bytes = 0, wm_partition_append_batch_wait_us = 0, wm_flushes = 0\<rparr>"

text \<open>\<open>wl_file\<close> is the number of the segment that the open file belongs to; \<open>dir\<close> and \<open>active_path\<close> are given by the directory and the number.\<close>

record wal =
  wl_file :: u64
  wl_active_segment_id :: u64
  wl_active_bytes :: u64
  wl_sealed_segments :: "(u64 \<times> u64) list"
  wl_segment_bytes :: u64
  wl_next_seq :: u64
  wl_next_delivery_id :: u64
  wl_fsync_interval :: u64
  wl_last_sync :: u64
  wl_metrics :: wal_metrics
  wl_encryption :: wal_encryption

record wal_status =
  ws_active_segment_id :: u64
  ws_active_segment_bytes :: u64
  ws_sealed_segment_count :: nat
  ws_total_wal_bytes :: u64
  ws_retained_message_count :: nat
  ws_consumer_count :: nat
  ws_next_seq :: u64
  ws_next_delivery_id :: u64
  ws_metrics :: wal_metrics

record wal_disk =
  wk_dir :: wal_dir
  wk_synced :: u64

definition segment_contents :: "wal_disk \<Rightarrow> u64 \<Rightarrow> bytes" where
  "segment_contents k i = (case map_of (wd_segments (wk_dir k)) i of None \<Rightarrow> [] | Some bs \<Rightarrow> bs)"

definition file_write :: "u64 \<Rightarrow> bytes \<Rightarrow> wal_disk \<Rightarrow> wal_disk" where
  "file_write i bs k = k\<lparr>wk_dir := (wk_dir k)\<lparr>wd_segments := bt_update i (\<lambda>old. old @ bs) (wd_segments (wk_dir k))\<rparr>\<rparr>"

section \<open>Sequence numbers\<close>

definition reserve_publish_seq :: "wal \<Rightarrow> u64 \<times> wal" where
  "reserve_publish_seq w = (wl_next_seq w, w\<lparr>wl_next_seq := sat_add64 (wl_next_seq w) 1\<rparr>)"

definition observe_publish_seq :: "u64 \<Rightarrow> wal \<Rightarrow> wal" where
  "observe_publish_seq seq w = w\<lparr>wl_next_seq := max (wl_next_seq w) (sat_add64 seq 1)\<rparr>"

definition namespace_delivery_ids :: "u64 \<Rightarrow> wal \<Rightarrow> wal" where
  "namespace_delivery_ids node_id w =
     w\<lparr>wl_next_delivery_id := max (wl_next_delivery_id w) (sat_add64 ((node_id * 2 ^ 48) mod 2 ^ 64) 1)\<rparr>"

section \<open>Opening\<close>

definition wal_open ::
  "wal_codec \<Rightarrow> wal_encryption \<Rightarrow> u64 \<Rightarrow> u64 \<Rightarrow> u64 \<Rightarrow> wal_dir \<Rightarrow> (wal \<times> wal_replay) result \<times> wal_disk" where
  "wal_open wc encryption fsync_interval segment_bytes now d =
     (if segment_bytes = 0 then (Err ''WAL segment size must be greater than zero'', \<lparr>wk_dir = d, wk_synced = 0\<rparr>)
      else case replay_dir wc encryption d of
        (Err e, d) \<Rightarrow> (Err e, \<lparr>wk_dir = d, wk_synced = 0\<rparr>)
      | (Ok out, d) \<Rightarrow>
          (Ok (\<lparr>wl_file = ro_active_segment_id out, wl_active_segment_id = ro_active_segment_id out,
                wl_active_bytes = ro_active_bytes out, wl_sealed_segments = ro_sealed_segments out,
                wl_segment_bytes = segment_bytes, wl_next_seq = rpl_next_seq (ro_replay out),
                wl_next_delivery_id = rpl_next_delivery_id (ro_replay out), wl_fsync_interval = fsync_interval,
                wl_last_sync = now, wl_metrics = default_wal_metrics\<lparr>wm_truncations := rpl_truncations (ro_replay out)\<rparr>,
                wl_encryption = encryption\<rparr>, ro_replay out),
           \<lparr>wk_dir = d, wk_synced = 0\<rparr>))"

section \<open>Flushing\<close>

definition wal_flush :: "u64 \<Rightarrow> wal \<Rightarrow> wal_disk \<Rightarrow> wal \<times> wal_disk" where
  "wal_flush now w k =
     (w\<lparr>wl_metrics := (wl_metrics w)\<lparr>wm_flushes := sat_add64 (wm_flushes (wl_metrics w)) 1\<rparr>, wl_last_sync := now\<rparr>,
      k\<lparr>wk_synced := length (segment_contents k (wl_file w))\<rparr>)"

definition wal_flush_due :: "u64 \<Rightarrow> wal \<Rightarrow> wal_disk \<Rightarrow> wal \<times> wal_disk" where
  "wal_flush_due now w k = (if now - wl_last_sync w \<ge> wl_fsync_interval w then wal_flush now w k else (w, k))"

section \<open>Appending\<close>

definition create_segment :: "u64 \<Rightarrow> wal_disk \<Rightarrow> wal_disk result" where
  "create_segment i k =
     (if bt_contains i (wd_segments (wk_dir k)) then Err ''creating WAL segment''
      else Ok \<lparr>wk_dir = (wk_dir k)\<lparr>wd_segments := bt_insert i WAL_SEGMENT_HEADER (wd_segments (wk_dir k))\<rparr>, wk_synced = 0\<rparr>)"

definition must_rotate :: "u64 \<Rightarrow> wal \<Rightarrow> bool" where
  "must_rotate next_bytes w \<longleftrightarrow>
     wl_active_bytes w > WAL_SEGMENT_HEADER_LEN \<and> wl_active_bytes w + next_bytes > wl_segment_bytes w"

definition rotate_if_needed :: "u64 \<Rightarrow> u64 \<Rightarrow> wal \<Rightarrow> wal_disk \<Rightarrow> unit result \<times> wal \<times> wal_disk" where
  "rotate_if_needed now next_bytes w k =
     (if \<not> must_rotate next_bytes w then (Ok (), w, k)
      else if wl_active_segment_id w \<ge> u64_max \<or> wm_rotations (wl_metrics w) \<ge> u64_max
      then (Err ''attempt to add with overflow'', w, k)
      else
        let (w, k) = wal_flush now w k;
            w = w\<lparr>wl_sealed_segments := wl_sealed_segments w @ [(wl_active_segment_id w, wl_active_bytes w)],
                  wl_active_segment_id := wl_active_segment_id w + 1\<rparr>
        in case create_segment (wl_active_segment_id w) k of
             Err e \<Rightarrow> (Err e, w, k)
           | Ok k \<Rightarrow>
               (Ok (), w\<lparr>wl_file := wl_active_segment_id w, wl_active_bytes := WAL_SEGMENT_HEADER_LEN,
                         wl_metrics := (wl_metrics w)\<lparr>wm_rotations := wm_rotations (wl_metrics w) + 1\<rparr>\<rparr>, k))"

definition append_frame :: "bytes \<Rightarrow> u64 \<Rightarrow> wal \<Rightarrow> wal_disk \<Rightarrow> wal \<times> wal_disk" where
  "append_frame frame bytes w k = (w\<lparr>wl_active_bytes := wl_active_bytes w + bytes\<rparr>, file_write (wl_file w) frame k)"

definition append_record ::
  "wal_codec \<Rightarrow> u64 \<Rightarrow> 8 word \<Rightarrow> bytes \<Rightarrow> wal \<Rightarrow> wal_disk \<Rightarrow> unit result \<times> wal \<times> wal_disk" where
  "append_record wc now kind body w k =
     (case protect_body kind body (wl_encryption w) of
        Err e \<Rightarrow> (Err e, w, k)
      | Ok protected \<Rightarrow>
         (case record_size protected of
            Err e \<Rightarrow> (Err e, w, k)
          | Ok bytes \<Rightarrow>
             if wl_active_bytes w + bytes > u64_max then (Err ''attempt to add with overflow'', w, k)
             else case rotate_if_needed now bytes w k of
                    (Err e, w, k) \<Rightarrow> (Err e, w, k)
                  | (Ok _, w, k) \<Rightarrow>
                      (case encode_record wc kind protected of
                         Err e \<Rightarrow> (Err e, w, k)
                       | Ok frame \<Rightarrow> (let (w, k) = append_frame frame bytes w k in (Ok (), w, k)))))"

text \<open>A body that was put together from a record, and its append.\<close>

definition append_body ::
  "wal_codec \<Rightarrow> u64 \<Rightarrow> wal_record \<Rightarrow> wal \<Rightarrow> wal_disk \<Rightarrow> unit result \<times> wal \<times> wal_disk" where
  "append_body wc now r w k =
     (case record_body wc r of Err e \<Rightarrow> (Err e, w, k) | Ok body \<Rightarrow> append_record wc now (record_kind r) body w k)"

definition append_consumer_upsert where
  "append_consumer_upsert wc now r w k = append_body wc now (ConsumerUpsertRec r) w k"

definition append_partition_append where
  "append_partition_append wc now r w k =
     append_body wc now (PartitionAppendRec r) (w\<lparr>wl_next_seq := max (wl_next_seq w) (sat_add64 (ap_seq r) 1)\<rparr>) k"

definition append_consumer_cursor where
  "append_consumer_cursor wc now r w k = append_body wc now (ConsumerCursorRec r) w k"

definition append_consumer_cursor_delta where
  "append_consumer_cursor_delta wc now r w k = append_body wc now (ConsumerCursorDeltaRec r) w k"

definition append_consumer_delete where
  "append_consumer_delete wc now consumer_id w k = append_body wc now (ConsumerDeleteRec consumer_id) w k"

definition write_delivery_attempt where
  "write_delivery_attempt wc now r w k = append_body wc now (DeliveryAttemptRec r) w k"

definition append_delivery_attempt ::
  "wal_codec \<Rightarrow> u64 \<Rightarrow> u64 \<Rightarrow> string \<Rightarrow> u64 \<Rightarrow> u32 \<Rightarrow> wal \<Rightarrow> wal_disk \<Rightarrow> delivery_attempt_record result \<times> wal \<times> wal_disk" where
  "append_delivery_attempt wc now seq consumer_id deadline_ms attempt w k =
     (let delivery_id = wl_next_delivery_id w;
          r = \<lparr>da_seq = seq, da_consumer_id = consumer_id, da_delivery_id = delivery_id, da_deadline_ms = deadline_ms,
               da_attempt = attempt, da_retry_waiting = False\<rparr>
      in if delivery_id \<ge> u64_max then (Err ''attempt to add with overflow'', w, k)
         else case write_delivery_attempt wc now r (w\<lparr>wl_next_delivery_id := delivery_id + 1\<rparr>) k of
                (Err e, w, k) \<Rightarrow> (Err e, w, k)
              | (Ok _, w, k) \<Rightarrow> (Ok r, w, k))"

definition append_delivery_lease where
  "append_delivery_lease wc now r w k = write_delivery_attempt wc now r w k"

definition append_ack ::
  "wal_codec \<Rightarrow> u64 \<Rightarrow> u64 \<Rightarrow> string \<Rightarrow> u64 \<Rightarrow> wal \<Rightarrow> wal_disk \<Rightarrow> ack_record result \<times> wal \<times> wal_disk" where
  "append_ack wc now seq consumer_id delivery_id w k =
     (let r = \<lparr>ak_seq = seq, ak_consumer_id = consumer_id, ak_delivery_id = delivery_id\<rparr>
      in case append_body wc now (AckRec r) w k of
           (Err e, w, k) \<Rightarrow> (Err e, w, k)
         | (Ok _, w, k) \<Rightarrow> (Ok r, w, k))"

definition append_dead_letter where
  "append_dead_letter wc now r w k = append_body wc now (DeadLetterRec r) w k"

definition purge_dead_letter where
  "purge_dead_letter wc now i w k = append_body wc now (DeadLetterPurgeRec i) w k"

definition append_producer_sequence where
  "append_producer_sequence wc now r w k = append_body wc now (ProducerSequenceRec r) w k"

definition append_group_state where
  "append_group_state wc now name r w k = append_body wc now (GroupStateRec (name, r)) w k"

section \<open>Batches\<close>

text \<open>The first loop of \<open>append_partition_append_batch\<close>: everything is encoded before anything is written.\<close>

fun encode_append_batch ::
  "partition_append_record list \<Rightarrow> wal \<Rightarrow> (bytes \<times> u64) list result \<times> wal" where
  "encode_append_batch [] w = (Ok [], w)"
| "encode_append_batch (r # rs) w =
     (let w = w\<lparr>wl_next_seq := max (wl_next_seq w) (sat_add64 (ap_seq r) 1)\<rparr>
      in case and_then (partition_append_body r) (\<lambda>body.
              and_then (protect_body 5 body (wl_encryption w)) (\<lambda>protected.
                map_ok (\<lambda>bytes. (protected, bytes)) (record_size protected))) of
           Err e \<Rightarrow> (Err e, w)
         | Ok x \<Rightarrow> (case encode_append_batch rs w of (Err e, w) \<Rightarrow> (Err e, w) | (Ok xs, w) \<Rightarrow> (Ok (x # xs), w)))"

text \<open>The second loop: \<open>pending\<close> is written before a rotation and at the end.\<close>

fun write_batch ::
  "wal_codec \<Rightarrow> u64 \<Rightarrow> (bytes \<times> u64) list \<Rightarrow> bytes \<Rightarrow> u64 \<Rightarrow> wal \<Rightarrow> wal_disk \<Rightarrow> unit result \<times> wal \<times> wal_disk" where
  "write_batch wc now [] pending pending_bytes w k =
     (if pending = [] then (Ok (), w, k)
      else if wl_active_bytes w + pending_bytes > u64_max then (Err ''attempt to add with overflow'', w, k)
      else let (w, k) = append_frame pending pending_bytes w k in (Ok (), w, k))"
| "write_batch wc now ((protected, bytes) # rest) pending pending_bytes w k =
     (if wl_active_bytes w + pending_bytes + bytes > u64_max then (Err ''attempt to add with overflow'', w, k)
      else
        let (rotated, pending, pending_bytes, w, k) =
          (if must_rotate bytes w
           then let (pending, pending_bytes, w, k) =
                      (if pending = [] then (pending, pending_bytes, w, k)
                       else let (w, k) = append_frame pending pending_bytes w k in ([], 0, w, k));
                    (rotated, w, k) = rotate_if_needed now bytes w k
                in (rotated, pending, pending_bytes, w, k)
           else (Ok (), pending, pending_bytes, w, k))
        in case rotated of
             Err e \<Rightarrow> (Err e, w, k)
           | Ok _ \<Rightarrow>
              (case encode_record wc 5 protected of
                 Err e \<Rightarrow> (Err e, w, k)
               | Ok frame \<Rightarrow> write_batch wc now rest (pending @ frame) (sat_add64 pending_bytes bytes) w k))"

definition append_partition_append_batch ::
  "wal_codec \<Rightarrow> u64 \<Rightarrow> partition_append_record list \<Rightarrow> wal \<Rightarrow> wal_disk \<Rightarrow> unit result \<times> wal \<times> wal_disk" where
  "append_partition_append_batch wc now rs w k =
     (case encode_append_batch rs w of
        (Err e, w) \<Rightarrow> (Err e, w, k)
      | (Ok encoded, w) \<Rightarrow> write_batch wc now encoded [] 0 w k)"

definition note_partition_append_batch_timing :: "u64 \<Rightarrow> u64 \<Rightarrow> u64 \<Rightarrow> wal \<Rightarrow> wal" where
  "note_partition_append_batch_timing records bytes wait_us w =
     (let m = wl_metrics w
      in w\<lparr>wl_metrics := m\<lparr>wm_partition_append_batches := sat_add64 (wm_partition_append_batches m) 1,
             wm_partition_append_records := sat_add64 (wm_partition_append_records m) records,
             wm_partition_append_bytes := sat_add64 (wm_partition_append_bytes m) bytes,
             wm_partition_append_batch_max_records := max (wm_partition_append_batch_max_records m) records,
             wm_partition_append_batch_max_bytes := max (wm_partition_append_batch_max_bytes m) bytes,
             wm_partition_append_batch_wait_us := max (wm_partition_append_batch_wait_us m) wait_us\<rparr>\<rparr>)"

definition note_partition_append_batch :: "u64 \<Rightarrow> u64 \<Rightarrow> wal \<Rightarrow> wal" where
  "note_partition_append_batch records bytes w = note_partition_append_batch_timing records bytes 0 w"

section \<open>Checkpoints\<close>

definition delete_segments :: "u64 list \<Rightarrow> wal_dir \<Rightarrow> u64 \<times> wal_dir" where
  "delete_segments ids d =
     (length (filter (\<lambda>i. bt_contains i (wd_segments d)) ids), d\<lparr>wd_segments := fold bt_remove ids (wd_segments d)\<rparr>)"

definition checkpoint_records ::
  "publish_record list \<Rightarrow> replayed_consumer list \<Rightarrow> dead_letter_record list \<Rightarrow> producer_sequence_record list
     \<Rightarrow> group_state_record list \<Rightarrow> wal_record list" where
  "checkpoint_records messages consumers dead_letters producer_sequences groups =
     compact_records messages consumers @ map DeadLetterRec dead_letters @ map ProducerSequenceRec producer_sequences
       @ map GroupStateRec groups"

text \<open>
  A checkpoint that fails has flushed, and it leaves a temporary file behind when the failure came after its creation.
\<close>

definition wal_checkpoint ::
  "wal_codec \<Rightarrow> u64 \<Rightarrow> publish_record list \<Rightarrow> replayed_consumer list \<Rightarrow> dead_letter_record list
     \<Rightarrow> producer_sequence_record list \<Rightarrow> group_state_record list \<Rightarrow> wal \<Rightarrow> wal_disk \<Rightarrow> unit result \<times> wal \<times> wal_disk" where
  "wal_checkpoint wc now messages consumers dead_letters producer_sequences groups w k =
     (let (w, k) = wal_flush now w k; d = wk_dir k; next_id = wl_active_segment_id w + 1
      in if next_id > u64_max then (Err ''attempt to add with overflow'', w, k)
         else if bt_contains next_id (wd_tmp d) then (Err ''creating WAL segment'', w, k)
         else case write_records wc (wl_encryption w)
                     (checkpoint_records messages consumers dead_letters producer_sequences groups) WAL_SEGMENT_HEADER of
           Err e \<Rightarrow> (Err e, w, k\<lparr>wk_dir := d\<lparr>wd_tmp := bt_insert next_id WAL_SEGMENT_HEADER (wd_tmp d)\<rparr>\<rparr>)
         | Ok (file, written) \<Rightarrow>
            (let d = d\<lparr>wd_segments := bt_insert next_id file (wd_segments d)\<rparr>;
                 (deleted, d) = delete_segments (map fst (wl_sealed_segments w)) d;
                 (deleted_active, d) = delete_segments [wl_active_segment_id w] d;
                 m = wl_metrics w
             in if WAL_SEGMENT_HEADER_LEN + written > u64_max \<or> wm_deleted_segments m + deleted + deleted_active > u64_max
                   \<or> wm_checkpoints m \<ge> u64_max
                then (Err ''attempt to add with overflow'', w, k\<lparr>wk_dir := d\<rparr>)
                else (Ok (),
                      w\<lparr>wl_file := next_id, wl_metrics := m\<lparr>wm_deleted_segments := wm_deleted_segments m + deleted + deleted_active,
                          wm_checkpoints := wm_checkpoints m + 1\<rparr>,
                        wl_sealed_segments := [], wl_active_segment_id := next_id,
                        wl_active_bytes := WAL_SEGMENT_HEADER_LEN + written, wl_last_sync := now\<rparr>,
                      \<lparr>wk_dir = d, wk_synced = length file\<rparr>)))"

definition total_wal_bytes :: "wal \<Rightarrow> u64" where
  "total_wal_bytes w = wl_active_bytes w + sum_list (map snd (wl_sealed_segments w))"

definition wal_status_of :: "wal \<Rightarrow> nat \<Rightarrow> nat \<Rightarrow> wal_status" where
  "wal_status_of w retained_message_count consumer_count =
     \<lparr>ws_active_segment_id = wl_active_segment_id w, ws_active_segment_bytes = wl_active_bytes w,
      ws_sealed_segment_count = length (wl_sealed_segments w), ws_total_wal_bytes = total_wal_bytes w,
      ws_retained_message_count = retained_message_count, ws_consumer_count = consumer_count,
      ws_next_seq = wl_next_seq w, ws_next_delivery_id = wl_next_delivery_id w, ws_metrics = wl_metrics w\<rparr>"

section \<open>What the directory holds\<close>

text \<open>
  The records \<open>hist\<close> are in the segments, in order; the wal's numbers describe the files; and
  \<open>durable\<close> are records that lie in sealed segments or in the synced part of the active one.
\<close>

definition wal_holds :: "wal_codec \<Rightarrow> wal_encryption \<Rightarrow> bytes \<Rightarrow> wal_record list \<Rightarrow> bool" where
  "wal_holds wc encryption contents rs \<longleftrightarrow> (\<exists>bs. frames wc encryption rs = Ok bs \<and> contents = WAL_SEGMENT_HEADER @ bs)"

definition synced_records :: "wal_codec \<Rightarrow> wal_encryption \<Rightarrow> u64 \<Rightarrow> wal_record list \<Rightarrow> bool" where
  "synced_records wc encryption synced rs \<longleftrightarrow>
     rs = [] \<or> (\<exists>bs. frames wc encryption rs = Ok bs \<and> length (WAL_SEGMENT_HEADER @ bs) \<le> synced)"

definition wal_parts ::
  "wal_codec \<Rightarrow> wal_encryption \<Rightarrow> wal \<Rightarrow> wal_disk \<Rightarrow> (u64 \<times> bytes) list \<Rightarrow> wal_record list list \<Rightarrow> bytes \<Rightarrow> wal_record list \<Rightarrow> bool" where
  "wal_parts wc encryption w k segs chunks contents active \<longleftrightarrow>
     wd_segments (wk_dir k) = segs @ [(wl_file w, contents)] \<and> bt_wf (segs @ [(wl_file w, contents)])
     \<and> wl_active_segment_id w = wl_file w \<and> wl_active_bytes w = length contents
     \<and> wl_sealed_segments w = map (\<lambda>(i, c). (i, length c)) segs \<and> wl_encryption w = encryption
     \<and> list_all2 (\<lambda>(i, c). wal_holds wc encryption c) segs chunks \<and> wal_holds wc encryption contents active"

definition wal_inv ::
  "wal_codec \<Rightarrow> wal_encryption \<Rightarrow> wal \<Rightarrow> wal_disk \<Rightarrow> wal_record list \<Rightarrow> wal_record list \<Rightarrow> bool" where
  "wal_inv wc encryption w k hist durable \<longleftrightarrow>
     (\<exists>segs chunks contents active synced.
        wal_parts wc encryption w k segs chunks contents active
        \<and> hist = concat chunks @ active \<and> prefix synced active \<and> synced_records wc encryption (wk_synced k) synced
        \<and> prefix durable (concat chunks @ synced))"

lemma wal_invI:
  "wal_parts wc encryption w k segs chunks contents active \<Longrightarrow> hist = concat chunks @ active \<Longrightarrow> prefix synced active \<Longrightarrow>
     synced_records wc encryption (wk_synced k) synced \<Longrightarrow> prefix durable (concat chunks @ synced) \<Longrightarrow>
     wal_inv wc encryption w k hist durable"
  unfolding wal_inv_def by blast

lemma wal_inv_numbers [simp]:
  "wal_inv wc encryption (w\<lparr>wl_next_seq := n\<rparr>) k hist durable = wal_inv wc encryption w k hist durable"
  "wal_inv wc encryption (w\<lparr>wl_next_delivery_id := n\<rparr>) k hist durable = wal_inv wc encryption w k hist durable"
  "wal_inv wc encryption (w\<lparr>wl_metrics := m\<rparr>) k hist durable = wal_inv wc encryption w k hist durable"
  "wal_inv wc encryption (w\<lparr>wl_last_sync := n\<rparr>) k hist durable = wal_inv wc encryption w k hist durable"
  by (simp_all add: wal_inv_def wal_parts_def)

lemma wal_inv_encryption: "wal_inv wc encryption w k hist durable \<Longrightarrow> wl_encryption w = encryption"
  by (auto simp: wal_inv_def wal_parts_def)

lemma bt_wf_snoc: "bt_wf (m @ [(i, c)]) \<longleftrightarrow> bt_wf m \<and> (\<forall>x\<in>set m. fst x < i)"
  by (auto simp: bt_wf_def sorted_wrt_append)

lemma bt_last:
  assumes "bt_wf (m @ [(i, c)])"
  shows "bt_update i f (m @ [(i, c)]) = m @ [(i, f c)]" "map_of (m @ [(i, c)]) i = Some c"
    "i < j \<Longrightarrow> bt_insert j v (m @ [(i, c)]) = m @ [(i, c), (j, v)]" "i < j \<Longrightarrow> \<not> bt_contains j (m @ [(i, c)])"
proof -
  have less: "\<forall>x\<in>set m. fst x < i" using assms by (simp add: bt_wf_snoc)
  then show "bt_update i f (m @ [(i, c)]) = m @ [(i, f c)]" by (force simp: bt_update_def intro: map_idI)
  have "map_of m i = None" using less by (force simp: map_of_eq_None_iff)
  then show "map_of (m @ [(i, c)]) i = Some c" by (simp add: map_add_def)
  show "bt_insert j v (m @ [(i, c)]) = m @ [(i, c), (j, v)]" if "i < j"
    using less that by (induction m) force+
  show "\<not> bt_contains j (m @ [(i, c)])" if "i < j"
    using less that by (force simp: bt_contains_iff)
qed

lemma wal_holds_append:
  "wal_holds wc encryption contents rs \<Longrightarrow> record_frame wc encryption r = Ok frame \<Longrightarrow>
     wal_holds wc encryption (contents @ frame) (rs @ [r])"
  by (auto simp: wal_holds_def frames_append)

lemma wal_holds_Nil: "wal_holds wc encryption WAL_SEGMENT_HEADER []"
  by (simp add: wal_holds_def)

lemma header_length: "length WAL_SEGMENT_HEADER = WAL_SEGMENT_HEADER_LEN"
  by (simp add: WAL_SEGMENT_HEADER_def WAL_SEGMENT_HEADER_LEN_def bytes_of_string_def)

lemma synced_recordsI: "wal_holds wc encryption contents rs \<Longrightarrow> length contents \<le> synced \<Longrightarrow> synced_records wc encryption synced rs"
  by (auto simp: wal_holds_def synced_records_def)

lemma synced_records_mono: "synced_records wc encryption n rs \<Longrightarrow> n \<le> m \<Longrightarrow> synced_records wc encryption m rs"
  by (auto simp: synced_records_def)

lemma parts_contents:
  assumes "wal_parts wc encryption w k segs chunks contents active"
  shows "segment_contents k (wl_file w) = contents"
proof -
  have "bt_wf (segs @ [(wl_file w, contents)])" "wd_segments (wk_dir k) = segs @ [(wl_file w, contents)]"
    using assms by (simp_all add: wal_parts_def)
  then show ?thesis unfolding segment_contents_def by (simp only: bt_last(2) option.case)
qed

section \<open>Operations keep it\<close>

lemma wal_inv_durable: "wal_inv wc encryption w k hist durable \<Longrightarrow> prefix durable hist"
  unfolding wal_inv_def by (metis append_prefixD prefix_order.trans same_prefix_prefix)

lemma flush_inv:
  assumes "wal_inv wc encryption w k hist durable" "wal_flush now w k = (w', k')"
  shows "wal_inv wc encryption w' k' hist hist"
proof -
  obtain segs chunks contents active where parts: "wal_parts wc encryption w k segs chunks contents active"
    and hist: "hist = concat chunks @ active"
    using assms(1) by (auto simp: wal_inv_def)
  have "wk_synced k' = length contents"
    using parts_contents [OF parts] assms(2) by (auto simp: wal_flush_def)
  then have "synced_records wc encryption (wk_synced k') active"
    using parts by (auto simp: wal_parts_def intro: synced_recordsI)
  moreover have "wal_parts wc encryption w' k' segs chunks contents active"
    using parts assms(2) by (auto simp: wal_parts_def wal_flush_def)
  ultimately show ?thesis using wal_invI [OF _ hist prefix_order.refl] hist by simp
qed

lemma wal_inv_weaken: "wal_inv wc encryption w k hist durable \<Longrightarrow> prefix durable' durable \<Longrightarrow> wal_inv wc encryption w k hist durable'"
  by (fastforce simp: wal_inv_def intro: prefix_order.trans)

lemma rotate_inv:
  assumes "wal_inv wc encryption w k hist durable" "rotate_if_needed now bytes w k = (res, w', k')"
  shows "wal_inv wc encryption w' k' hist durable" "res = Ok () \<or> res = Err ''attempt to add with overflow''"
proof -
  consider (keep) "w' = w" "k' = k" "res = Ok () \<or> res = Err ''attempt to add with overflow''"
    | (rotate) w1 k1 where "wal_flush now w k = (w1, k1)"
      "rotate_if_needed now bytes w k =
         (let w = w1\<lparr>wl_sealed_segments := wl_sealed_segments w1 @ [(wl_active_segment_id w1, wl_active_bytes w1)],
                  wl_active_segment_id := wl_active_segment_id w1 + 1\<rparr>
          in case create_segment (wl_active_segment_id w) k1 of
             Err e \<Rightarrow> (Err e, w, k1)
           | Ok k \<Rightarrow>
               (Ok (), w\<lparr>wl_file := wl_active_segment_id w, wl_active_bytes := WAL_SEGMENT_HEADER_LEN,
                         wl_metrics := (wl_metrics w)\<lparr>wm_rotations := wm_rotations (wl_metrics w) + 1\<rparr>\<rparr>, k))"
    using assms(2) by (cases "wal_flush now w k") (auto simp: rotate_if_needed_def split: if_splits)
  then have "wal_inv wc encryption w' k' hist durable \<and> (res = Ok () \<or> res = Err ''attempt to add with overflow'')"
  proof cases
    case keep
    then show ?thesis using assms(1) by simp
  next
    case rotate
    obtain segs chunks contents active where parts: "wal_parts wc encryption w1 k1 segs chunks contents active"
      and hist: "hist = concat chunks @ active"
      using flush_inv [OF assms(1) rotate(1)] by (auto simp: wal_inv_def)
    let ?next = "wl_file w1 + 1"
    have last: "bt_insert ?next v (segs @ [(wl_file w1, contents)]) = segs @ [(wl_file w1, contents), (?next, v)]"
      "\<not> bt_contains ?next (segs @ [(wl_file w1, contents)])" for v
      using parts bt_last(3,4) [of segs "wl_file w1" contents ?next] by (auto simp: wal_parts_def)
    then have res: "res = Ok ()" and segments: "wd_segments (wk_dir k') = segs @ [(wl_file w1, contents), (?next, WAL_SEGMENT_HEADER)]"
      and w': "wl_file w' = ?next" "wl_active_segment_id w' = ?next" "wl_active_bytes w' = WAL_SEGMENT_HEADER_LEN"
        "wl_sealed_segments w' = wl_sealed_segments w1 @ [(wl_file w1, length contents)]" "wl_encryption w' = wl_encryption w1"
      using parts assms(2) rotate(2) by (auto simp: create_segment_def wal_parts_def Let_def)
    have "bt_wf ((segs @ [(wl_file w1, contents)]) @ [(?next, WAL_SEGMENT_HEADER)])"
      unfolding bt_wf_snoc using parts by (auto simp: wal_parts_def bt_wf_snoc)
    then have "wal_parts wc encryption w' k' (segs @ [(wl_file w1, contents)]) (chunks @ [active]) WAL_SEGMENT_HEADER []"
      using parts segments w' by (auto simp: wal_parts_def wal_holds_Nil header_length list_all2_appendI)
    moreover have "prefix durable hist" by (rule wal_inv_durable [OF assms(1)])
    ultimately have "wal_inv wc encryption w' k' hist durable"
      using hist by (auto intro!: wal_invI [where synced = "[]"] simp: synced_records_def)
    then show ?thesis using res by simp
  qed
  then show "wal_inv wc encryption w' k' hist durable" "res = Ok () \<or> res = Err ''attempt to add with overflow''" by simp_all
qed

text \<open>Frames of several records at once, as a batch writes them.\<close>

lemma append_frames_inv:
  assumes "wal_inv wc encryption w k hist durable" "frames wc encryption rs = Ok bs" "append_frame bs (length bs) w k = (w', k')"
  shows "wal_inv wc encryption w' k' (hist @ rs) durable"
proof -
  obtain segs chunks contents active synced where parts: "wal_parts wc encryption w k segs chunks contents active"
    and rest: "hist = concat chunks @ active" "prefix synced active" "synced_records wc encryption (wk_synced k) synced"
      "prefix durable (concat chunks @ synced)"
    using assms(1) by (auto simp: wal_inv_def)
  have "wal_holds wc encryption (contents @ bs) (active @ rs)"
    using parts assms(2) by (auto simp: wal_parts_def wal_holds_def frames_append)
  moreover have "wd_segments (wk_dir k') = segs @ [(wl_file w, contents @ bs)]"
    using parts assms(3) by (auto simp: append_frame_def file_write_def wal_parts_def bt_last)
  ultimately have "wal_parts wc encryption w' k' segs chunks (contents @ bs) (active @ rs)"
    using parts assms(3) by (auto simp: append_frame_def file_write_def wal_parts_def bt_wf_snoc)
  moreover have "wk_synced k' = wk_synced k" using assms(3) by (auto simp: append_frame_def file_write_def)
  ultimately show ?thesis
    using rest by (auto intro!: wal_invI [where synced = synced])
qed

text \<open>An error of an append is an unencodable record, which changes nothing, or a panic.\<close>

abbreviation overflow :: "'a result" where
  "overflow \<equiv> Err ''attempt to add with overflow''"

lemma append_body_inv:
  assumes inv: "wal_inv wc encryption w k hist durable" and run: "append_body wc now r w k = (res, w', k')"
  shows "res = Ok () \<and> wal_inv wc encryption w' k' (hist @ [r]) durable
    \<or> res \<noteq> Ok () \<and> wal_inv wc encryption w' k' hist durable"
proof (cases "record_frame wc encryption r")
  case (Inl e)
  then have "res \<noteq> Ok () \<and> w' = w \<and> k' = k"
    using run wal_inv_encryption [OF inv]
    by (auto simp: append_body_def append_record_def record_frame_def record_size_def encode_record_def and_then_def
        split: sum.splits if_splits)
  then show ?thesis using inv by simp
next
  case (Inr frame)
  then obtain body protected where parts: "record_body wc r = Ok body" "protect_body (record_kind r) body encryption = Ok protected"
    "encode_record wc (record_kind r) protected = Ok frame" by (rule record_frame_parts)
  note size = encode_record_eq(4) [OF parts(3)]
  show ?thesis
  proof (cases "wl_active_bytes w + length frame > u64_max")
    case True
    then show ?thesis using run parts size inv wal_inv_encryption [OF inv] by (auto simp: append_body_def append_record_def)
  next
    case False
    obtain rot w1 k1 where rot: "rotate_if_needed now (length frame) w k = (rot, w1, k1)" by (cases "rotate_if_needed now (length frame) w k")
    note inv1 = rotate_inv [OF inv rot]
    have one: "frames wc encryption [r] = Ok frame" using Inr by simp
    show ?thesis
      using run parts size rot False wal_inv_encryption [OF inv] inv1 append_frames_inv [OF inv1(1) one]
      by (cases "append_frame frame (length frame) w1 k1") (auto simp: append_body_def append_record_def)
  qed
qed

lemma encode_append_batch_ok:
  assumes "encode_append_batch rs w = (res, w')"
  shows "\<exists>n. w' = w\<lparr>wl_next_seq := n\<rparr>"
    and "res = Ok xs \<Longrightarrow> list_all2 (\<lambda>r x. record_frame wc (wl_encryption w) (PartitionAppendRec r) = encode_record wc 5 (fst x)
           \<and> encode_record wc 5 (fst x) \<noteq> Err e \<and> record_size (fst x) = Ok (snd x)) rs xs"
  using assms
proof (induction rs arbitrary: w w' res xs)
  case Nil
  {
    case 1 then show ?case by (intro exI [of _ "wl_next_seq w"]) simp
  next
    case 2 then show ?case by simp
  }
next
  case (Cons r rs)
  {
    case 1
    let ?w = "w\<lparr>wl_next_seq := max (wl_next_seq w) (sat_add64 (ap_seq r) 1)\<rparr>"
    obtain res' w1 where rest: "encode_append_batch rs ?w = (res', w1)" by (cases "encode_append_batch rs ?w")
    then have "w' = ?w \<or> w' = w1" using 1 by (auto simp: Let_def split: sum.splits)
    then show ?case using Cons.IH(1) [OF rest] by auto
  next
    case 2
    let ?w = "w\<lparr>wl_next_seq := max (wl_next_seq w) (sat_add64 (ap_seq r) 1)\<rparr>"
    from 2 obtain body protected bytes ys where parts: "partition_append_body r = Ok body"
      "protect_body 5 body (wl_encryption w) = Ok protected" "record_size protected = Ok bytes"
      "encode_append_batch rs ?w = (Ok ys, w')" "xs = (protected, bytes) # ys"
      by (auto simp: Let_def map_ok_def and_then_eq_Ok split: sum.splits prod.splits)
    have "encode_record wc 5 protected \<noteq> Err e" using parts(3) by (auto simp: encode_record_def record_size_def split: if_splits)
    then show ?case using parts Cons.IH(2) [of "Ok ys" ys ?w] by (simp add: record_frame_def)
  }
qed

text \<open>
  The second loop, with \<open>done\<close> the records whose frames are pending: it writes the pending and the remaining
  records, or it stops with a panic.
\<close>

definition encoded_as :: "wal_codec \<Rightarrow> wal_encryption \<Rightarrow> partition_append_record \<Rightarrow> bytes \<times> u64 \<Rightarrow> bool" where
  "encoded_as wc encryption r x \<longleftrightarrow>
     (\<exists>frame. record_frame wc encryption (PartitionAppendRec r) = Ok frame \<and> encode_record wc 5 (fst x) = Ok frame
        \<and> snd x = length frame)"

lemma write_batch_inv:
  assumes "list_all2 (encoded_as wc encryption) rs xs" "wal_inv wc encryption w k hist durable"
    and "frames wc encryption written = Ok pending" "write_batch wc now xs pending (length pending) w k = (res, w', k')"
    and "res \<noteq> overflow"
  shows "res = Ok () \<and> wal_inv wc encryption w' k' (hist @ written @ map PartitionAppendRec rs) durable"
  using assms
proof (induction rs xs arbitrary: written pending hist w k rule: list_all2_induct)
  case Nil
  show ?case
  proof (cases "pending = []")
    case True
    then have "written = []" using Nil.prems(2) frames_length [OF Nil.prems(2)] by simp
    then show ?thesis using Nil.prems True by simp
  next
    case False
    then show ?thesis
      using Nil.prems append_frames_inv [OF Nil.prems(1,2)]
      by (cases "append_frame pending (length pending) w k") (auto split: if_splits)
  qed
next
  case (Cons r rs x xs)
  obtain protected frame where x: "x = (protected, length frame)" "encode_record wc 5 protected = Ok frame"
    "record_frame wc encryption (PartitionAppendRec r) = Ok frame"
    using Cons.hyps(1) by (cases x) (auto simp: encoded_as_def)
  have one: "frames wc encryption (ws @ [PartitionAppendRec r]) = Ok (bs @ frame)" if "frames wc encryption ws = Ok bs" for ws bs
    using that x(3) by (simp add: frames_append)
  have small: "wl_active_bytes w + length pending + length frame \<le> u64_max"
  proof (rule ccontr)
    assume "\<not> ?thesis"
    then show False using Cons.prems(3,4) x(1) by simp
  qed
  then have sat: "sat_add64 n (length frame) = n + length frame" if "n \<le> length pending" for n
    using that by (simp add: sat_add64_exact)
  show ?case
  proof (cases "must_rotate (length frame) w")
    case False
    then have "write_batch wc now xs (pending @ frame) (length (pending @ frame)) w k = (res, w', k')"
      using Cons.prems(3) small x(1,2) sat [of "length pending"] by simp
    then show ?thesis using Cons.IH [OF Cons.prems(1) one [OF Cons.prems(2)] _ Cons.prems(4)] by simp
  next
    case True
    define wk where "wk = (if pending = [] then (w, k) else append_frame pending (length pending) w k)"
    obtain w1 k1 where w1: "wk = (w1, k1)" by (cases wk)
    have "written = []" if "pending = []" using that frames_length [OF Cons.prems(2)] by simp
    then have inv1: "wal_inv wc encryption w1 k1 (hist @ written) durable"
      using w1 Cons.prems(1) append_frames_inv [OF Cons.prems(1,2)] unfolding wk_def by (auto split: if_splits)
    obtain rot w2 k2 where rot: "rotate_if_needed now (length frame) w1 k1 = (rot, w2, k2)"
      by (cases "rotate_if_needed now (length frame) w1 k1")
    note inv2 = rotate_inv [OF inv1 rot]
    have pend: "(if pending = [] then (pending, length pending, w, k)
        else let (w, k) = append_frame pending (length pending) w k in ([], 0, w, k)) = ([], 0, w1, k1)"
      using w1 by (auto simp: wk_def split: if_splits)
    have split: "write_batch wc now (x # xs) pending (length pending) w k =
        (case rot of Err e \<Rightarrow> (Err e, w2, k2) | Ok _ \<Rightarrow> write_batch wc now xs frame (length frame) w2 k2)"
      using small True rot sat [of 0] by (simp only: x(1) write_batch.simps pend) (simp add: x(2) split: sum.split)
    then have "rot = Ok ()" "write_batch wc now xs frame (length frame) w2 k2 = (res, w', k')"
      using Cons.prems(3,4) inv2(2) by auto
    then show ?thesis
      using Cons.IH [OF inv2(1) one [of "[]" "[]"] _ Cons.prems(4)] by simp
  qed
qed

lemma batch_inv:
  assumes inv: "wal_inv wc encryption w k hist durable" and run: "append_partition_append_batch wc now rs w k = (res, w', k')"
    and "res \<noteq> overflow"
  shows "res = Ok () \<and> wal_inv wc encryption w' k' (hist @ map PartitionAppendRec rs) durable
    \<or> res \<noteq> Ok () \<and> wal_inv wc encryption w' k' hist durable"
proof -
  obtain enc w1 where enc: "encode_append_batch rs w = (enc, w1)" by (cases "encode_append_batch rs w")
  obtain n where w1: "w1 = w\<lparr>wl_next_seq := n\<rparr>" using encode_append_batch_ok(1) [OF enc] by blast
  show ?thesis
  proof (cases enc)
    case (Inl e)
    then show ?thesis using run enc w1 inv by (auto simp: append_partition_append_batch_def)
  next
    case (Inr xs)
    have "encoded_as wc encryption r x" if "record_frame wc (wl_encryption w) (PartitionAppendRec r) = encode_record wc 5 (fst x)
           \<and> encode_record wc 5 (fst x) \<noteq> Err ''WAL record too large'' \<and> record_size (fst x) = Ok (snd x)" for r x
      using that wal_inv_encryption [OF inv] encode_record_eq(4) [of wc 5 "fst x"]
      by (cases "encode_record wc 5 (fst x)") (auto simp: encoded_as_def encode_record_def split: if_splits)
    then have "list_all2 (encoded_as wc encryption) rs xs"
      using list_all2_mono [OF encode_append_batch_ok(2) [OF enc Inr, of wc "''WAL record too large''"]] by blast
    moreover have "wal_inv wc encryption w1 k hist durable" using inv w1 by simp
    ultimately show ?thesis
      using write_batch_inv [of wc encryption rs xs w1 k hist durable "[]" "[]" now res w' k'] run enc Inr assms(3)
      by (auto simp: append_partition_append_batch_def)
  qed
qed

lemma write_records_frames:
  "write_records wc encryption rs old = Ok (new, n) \<Longrightarrow>
     \<exists>bs. frames wc encryption rs = Ok bs \<and> new = old @ bs \<and> n = length bs"
proof (induction rs arbitrary: old n)
  case (Cons r rs)
  obtain body mid len total where parts: "record_body wc r = Ok body"
    "write_protected_record_to wc encryption (record_kind r) body old = Ok (mid, len)"
    "write_records wc encryption rs mid = Ok (new, total)" "n = len + total"
    using Cons.prems by (auto simp: and_then_eq_Ok map_ok_def)
  obtain frame where "record_frame wc encryption r = Ok frame" "mid = old @ frame" "len = length frame"
    using parts(1,2)
    by (auto simp: write_protected_record_to_def write_record_to_def record_frame_def and_then_eq_Ok map_ok_def encode_record_eq(4))
  then show ?case using Cons.IH [OF parts(3)] parts(4) by (auto simp: map_ok_def)
qed simp

lemma fold_bt_remove: "fold bt_remove ks m = filter (\<lambda>e. fst e \<notin> set ks) m"
  by (induction ks arbitrary: m) (auto simp: bt_remove_def intro: filter_cong)

lemma checkpoint_inv:
  assumes inv: "wal_inv wc encryption w k hist durable"
    and run: "wal_checkpoint wc now messages consumers dead_letters producer_sequences groups w k = (res, w', k')"
    and "res \<noteq> overflow"
  defines "recs \<equiv> checkpoint_records messages consumers dead_letters producer_sequences groups"
  shows "res = Ok () \<and> wal_inv wc encryption w' k' recs recs \<or> res \<noteq> Ok () \<and> wal_inv wc encryption w' k' hist hist"
proof -
  obtain w1 k1 where flush: "wal_flush now w k = (w1, k1)" by (cases "wal_flush now w k")
  note inv1 = flush_inv [OF inv flush]
  obtain segs chunks contents active where parts: "wal_parts wc encryption w1 k1 segs chunks contents active"
    using inv1 by (auto simp: wal_inv_def)
  let ?next = "wl_active_segment_id w1 + 1"
  have segments: "wd_segments (wk_dir k1) = segs @ [(wl_file w1, contents)]" "bt_wf (segs @ [(wl_file w1, contents)])"
    "wl_active_segment_id w1 = wl_file w1" "map fst (wl_sealed_segments w1) = map fst segs" "wl_encryption w1 = encryption"
    using parts by (auto simp: wal_parts_def)
  show ?thesis
  proof (cases "?next > u64_max \<or> bt_contains ?next (wd_tmp (wk_dir k1))")
    case True
    then show ?thesis using run flush assms(3) inv1 by (auto simp: wal_checkpoint_def Let_def split: if_splits)
  next
    case no: False
    show ?thesis
    proof (cases "write_records wc encryption recs WAL_SEGMENT_HEADER")
      case (Inl e)
      have "wal_inv wc encryption w1 (k1\<lparr>wk_dir := (wk_dir k1)\<lparr>wd_tmp := t\<rparr>\<rparr>) hist hist" for t
        using inv1 by (simp add: wal_inv_def wal_parts_def)
      then show ?thesis using run flush Inl no segments(5) by (auto simp: wal_checkpoint_def Let_def recs_def)
    next
      case (Inr x)
      obtain new written where x: "x = (new, written)" by (cases x)
      obtain bs where bs: "frames wc encryption recs = Ok bs" "new = WAL_SEGMENT_HEADER @ bs" "written = length bs"
        using write_records_frames Inr x by blast
      have ids: "fst e < wl_file w1" if "e \<in> set segs" for e using segments(2) that by (simp add: bt_wf_snoc)
      have "wd_segments (snd (delete_segments [wl_active_segment_id w1] (snd (delete_segments (map fst (wl_sealed_segments w1))
          ((wk_dir k1)\<lparr>wd_segments := bt_insert ?next new (wd_segments (wk_dir k1))\<rparr>))))) = [(?next, new)]"
        using segments ids bt_last(3) [OF segments(2), of ?next new]
        by (force simp: delete_segments_def fold_bt_remove filter_empty_conv simp del: fold.simps)
      then have ok: "res = Ok ()" "wd_segments (wk_dir k') = [(?next, new)]" "wl_file w' = ?next" "wl_active_segment_id w' = ?next"
        "wl_active_bytes w' = WAL_SEGMENT_HEADER_LEN + written" "wl_sealed_segments w' = []" "wl_encryption w' = encryption"
        "wk_synced k' = length new"
        using run flush Inr x no segments(5) assms(3)
        by (auto simp: wal_checkpoint_def Let_def recs_def split: if_splits prod.splits)
      have holds: "wal_holds wc encryption new recs" using bs by (auto simp: wal_holds_def)
      then have "wal_parts wc encryption w' k' [] [] new recs"
        using ok bs by (simp add: wal_parts_def header_length bt_wf_def)
      then show ?thesis using ok(1,8) synced_recordsI [OF holds] wal_invI [of wc encryption w' k' "[]" "[]" new recs recs recs recs]
        by simp
    qed
  qed
qed

section \<open>Runs\<close>

datatype wal_op =
    UpsertOp consumer_record
  | PartitionAppendOp partition_append_record
  | PartitionBatchOp "partition_append_record list"
  | CursorOp consumer_cursor_record
  | CursorDeltaOp consumer_cursor_delta_record
  | ConsumerDeleteOp string
  | DeliveryAttemptOp u64 string u64 u32
  | DeliveryLeaseOp delivery_attempt_record
  | AckOp u64 string u64
  | DeadLetterOp dead_letter_record
  | PurgeOp u64
  | ProducerSequenceOp producer_sequence_record
  | GroupStateOp string group_record
  | FlushOp
  | FlushDueOp
  | ReserveSeqOp
  | ObserveSeqOp u64
  | NamespaceOp u64
  | NoteBatchOp u64 u64 u64
  | CheckpointOp "publish_record list" "replayed_consumer list" "dead_letter_record list" "producer_sequence_record list"
      "group_state_record list"

text \<open>What a successful operation does to the sequence of logged records: a checkpoint replaces it.\<close>

datatype wal_effect = Logged "wal_record list" | Replaced "wal_record list"

fun record_effect :: "wal_effect \<Rightarrow> wal_record list \<Rightarrow> wal_record list" where
  "record_effect (Logged rs) hist = hist @ rs"
| "record_effect (Replaced rs) hist = rs"

definition effect_of :: "('a \<Rightarrow> wal_effect) \<Rightarrow> 'a result \<times> wal \<times> wal_disk \<Rightarrow> wal_effect result \<times> wal \<times> wal_disk" where
  "effect_of f = (\<lambda>(res, w, k). (map_ok f res, w, k))"

definition quiet :: "wal \<times> wal_disk \<Rightarrow> wal_effect result \<times> wal \<times> wal_disk" where
  "quiet = (\<lambda>(w, k). (Ok (Logged []), w, k))"

fun wal_step :: "wal_codec \<Rightarrow> u64 \<Rightarrow> wal_op \<Rightarrow> wal \<Rightarrow> wal_disk \<Rightarrow> wal_effect result \<times> wal \<times> wal_disk" where
  "wal_step wc now (UpsertOp r) w k = effect_of (\<lambda>_. Logged [ConsumerUpsertRec r]) (append_consumer_upsert wc now r w k)"
| "wal_step wc now (PartitionAppendOp r) w k = effect_of (\<lambda>_. Logged [PartitionAppendRec r]) (append_partition_append wc now r w k)"
| "wal_step wc now (PartitionBatchOp rs) w k =
     effect_of (\<lambda>_. Logged (map PartitionAppendRec rs)) (append_partition_append_batch wc now rs w k)"
| "wal_step wc now (CursorOp r) w k = effect_of (\<lambda>_. Logged [ConsumerCursorRec r]) (append_consumer_cursor wc now r w k)"
| "wal_step wc now (CursorDeltaOp r) w k =
     effect_of (\<lambda>_. Logged [ConsumerCursorDeltaRec r]) (append_consumer_cursor_delta wc now r w k)"
| "wal_step wc now (ConsumerDeleteOp i) w k = effect_of (\<lambda>_. Logged [ConsumerDeleteRec i]) (append_consumer_delete wc now i w k)"
| "wal_step wc now (DeliveryAttemptOp seq i deadline attempt) w k =
     effect_of (\<lambda>r. Logged [DeliveryAttemptRec r]) (append_delivery_attempt wc now seq i deadline attempt w k)"
| "wal_step wc now (DeliveryLeaseOp r) w k = effect_of (\<lambda>_. Logged [DeliveryAttemptRec r]) (append_delivery_lease wc now r w k)"
| "wal_step wc now (AckOp seq i delivery) w k = effect_of (\<lambda>r. Logged [AckRec r]) (append_ack wc now seq i delivery w k)"
| "wal_step wc now (DeadLetterOp r) w k = effect_of (\<lambda>_. Logged [DeadLetterRec r]) (append_dead_letter wc now r w k)"
| "wal_step wc now (PurgeOp i) w k = effect_of (\<lambda>_. Logged [DeadLetterPurgeRec i]) (purge_dead_letter wc now i w k)"
| "wal_step wc now (ProducerSequenceOp r) w k =
     effect_of (\<lambda>_. Logged [ProducerSequenceRec r]) (append_producer_sequence wc now r w k)"
| "wal_step wc now (GroupStateOp name r) w k = effect_of (\<lambda>_. Logged [GroupStateRec (name, r)]) (append_group_state wc now name r w k)"
| "wal_step wc now FlushOp w k = quiet (wal_flush now w k)"
| "wal_step wc now FlushDueOp w k = quiet (wal_flush_due now w k)"
| "wal_step wc now ReserveSeqOp w k = quiet (snd (reserve_publish_seq w), k)"
| "wal_step wc now (ObserveSeqOp seq) w k = quiet (observe_publish_seq seq w, k)"
| "wal_step wc now (NamespaceOp node) w k = quiet (namespace_delivery_ids node w, k)"
| "wal_step wc now (NoteBatchOp records bytes wait) w k = quiet (note_partition_append_batch_timing records bytes wait w, k)"
| "wal_step wc now (CheckpointOp ms cs ds ps gs) w k =
     effect_of (\<lambda>_. Replaced (checkpoint_records ms cs ds ps gs)) (wal_checkpoint wc now ms cs ds ps gs w k)"

text \<open>A run: timed operations, the records logged so far; \<open>None\<close> when one panics.\<close>

fun wal_run ::
  "wal_codec \<Rightarrow> (u64 \<times> wal_op) list \<Rightarrow> wal_record list \<Rightarrow> wal \<Rightarrow> wal_disk \<Rightarrow> (wal_record list \<times> wal \<times> wal_disk) option" where
  "wal_run wc [] hist w k = Some (hist, w, k)"
| "wal_run wc ((now, op) # ops) hist w k =
     (case wal_step wc now op w k of
        (Err e, w, k) \<Rightarrow> if e = ''attempt to add with overflow'' then None else wal_run wc ops hist w k
      | (Ok eff, w, k) \<Rightarrow> wal_run wc ops (record_effect eff hist) w k)"

fun keeps_log :: "wal_op \<Rightarrow> bool" where
  "keeps_log (CheckpointOp ms cs ds ps gs) = False"
| "keeps_log _ = True"

definition step_keeps ::
  "wal_codec \<Rightarrow> wal_encryption \<Rightarrow> wal_record list \<Rightarrow> wal_record list \<Rightarrow> bool \<Rightarrow> wal_effect result \<times> wal \<times> wal_disk \<Rightarrow> bool" where
  "step_keeps wc encryption hist durable keeps = (\<lambda>(res, w, k).
     case res of
       Ok eff \<Rightarrow> \<exists>durable'. wal_inv wc encryption w k (record_effect eff hist) durable' \<and> (keeps \<longrightarrow> prefix durable durable')
     | Err e \<Rightarrow> wal_inv wc encryption w k hist durable)"

lemma step_keeps_append:
  assumes "wal_inv wc encryption w k hist durable"
  shows "step_keeps wc encryption hist durable keeps (effect_of (\<lambda>_. Logged [r]) (append_body wc now r w k))"
proof -
  obtain res w' k' where "append_body wc now r w k = (res, w', k')" by (cases "append_body wc now r w k")
  then show ?thesis using append_body_inv [OF assms] by (cases res) (fastforce simp: step_keeps_def effect_of_def)+
qed

lemma step_keeps_flush:
  "wal_inv wc encryption w k hist durable \<Longrightarrow> step_keeps wc encryption hist durable keeps (quiet (wal_flush now w k))"
  using flush_inv wal_inv_durable by (cases "wal_flush now w k") (fastforce simp: step_keeps_def quiet_def)

lemma step_keeps_quiet:
  "wal_inv wc encryption w k hist durable \<Longrightarrow> step_keeps wc encryption hist durable keeps (quiet (w, k))"
  by (auto simp: step_keeps_def quiet_def)

lemma effect_ack:
  "effect_of (\<lambda>r. Logged [AckRec r]) (append_ack wc now seq i delivery w k) =
     (let r = AckRec \<lparr>ak_seq = seq, ak_consumer_id = i, ak_delivery_id = delivery\<rparr>
      in effect_of (\<lambda>_. Logged [r]) (append_body wc now r w k))"
  by (auto simp: effect_of_def append_ack_def Let_def split: prod.splits sum.splits)

lemma effect_attempt:
  assumes "wl_next_delivery_id w < u64_max"
  shows "effect_of (\<lambda>r. Logged [DeliveryAttemptRec r]) (append_delivery_attempt wc now seq i deadline attempt w k) =
     (let r = DeliveryAttemptRec \<lparr>da_seq = seq, da_consumer_id = i, da_delivery_id = wl_next_delivery_id w, da_deadline_ms = deadline,
            da_attempt = attempt, da_retry_waiting = False\<rparr>
      in effect_of (\<lambda>_. Logged [r]) (append_body wc now r (w\<lparr>wl_next_delivery_id := wl_next_delivery_id w + 1\<rparr>) k))"
  using assms by (auto simp: effect_of_def append_delivery_attempt_def write_delivery_attempt_def Let_def split: prod.splits sum.splits)

lemma step_keeps_batch:
  assumes inv: "wal_inv wc encryption w k hist durable"
    and no_panic: "fst (append_partition_append_batch wc now rs w k) \<noteq> overflow"
  shows "step_keeps wc encryption hist durable keeps
    (effect_of (\<lambda>_. Logged (map PartitionAppendRec rs)) (append_partition_append_batch wc now rs w k))"
proof -
  obtain res w' k' where run: "append_partition_append_batch wc now rs w k = (res, w', k')"
    by (cases "append_partition_append_batch wc now rs w k")
  then show ?thesis using batch_inv [OF inv run] no_panic by (cases res) (auto simp: step_keeps_def effect_of_def)
qed

lemma step_keeps_checkpoint:
  assumes inv: "wal_inv wc encryption w k hist durable"
    and no_panic: "fst (wal_checkpoint wc now ms cs ds ps gs w k) \<noteq> overflow"
  shows "step_keeps wc encryption hist durable False
    (effect_of (\<lambda>_. Replaced (checkpoint_records ms cs ds ps gs)) (wal_checkpoint wc now ms cs ds ps gs w k))"
proof -
  obtain res w' k' where run: "wal_checkpoint wc now ms cs ds ps gs w k = (res, w', k')"
    by (cases "wal_checkpoint wc now ms cs ds ps gs w k")
  then show ?thesis
    using checkpoint_inv [OF inv run] no_panic wal_inv_durable [OF inv]
    by (cases res) (auto simp: step_keeps_def effect_of_def intro: wal_inv_weaken)
qed

lemma effect_panic: "fst (effect_of f x) \<noteq> overflow \<Longrightarrow> fst x \<noteq> overflow"
  by (auto simp: effect_of_def split: prod.splits)

lemmas append_defs =
  append_consumer_upsert_def append_partition_append_def append_consumer_cursor_def append_consumer_cursor_delta_def
  append_consumer_delete_def write_delivery_attempt_def append_delivery_lease_def append_dead_letter_def purge_dead_letter_def
  append_producer_sequence_def append_group_state_def

lemma wal_step_keeps:
  assumes inv: "wal_inv wc encryption w k hist durable" and no_panic: "fst (wal_step wc now op w k) \<noteq> overflow"
  shows "step_keeps wc encryption hist durable (keeps_log op) (wal_step wc now op w k)"
proof (cases op)
  case (PartitionBatchOp rs)
  then show ?thesis using no_panic by (auto dest: effect_panic intro: step_keeps_batch [OF inv])
next
  case (CheckpointOp ms cs ds ps gs)
  then show ?thesis using no_panic by (auto dest: effect_panic intro: step_keeps_checkpoint [OF inv])
next
  case (DeliveryAttemptOp seq i deadline attempt)
  have "wl_next_delivery_id w < u64_max"
  proof (rule ccontr)
    assume "\<not> ?thesis"
    then show False using no_panic DeliveryAttemptOp by (simp add: effect_of_def append_delivery_attempt_def Let_def)
  qed
  then show ?thesis using DeliveryAttemptOp inv by (simp add: effect_attempt Let_def step_keeps_append)
next
  case FlushDueOp
  then show ?thesis using inv by (simp add: wal_flush_due_def step_keeps_flush step_keeps_quiet)
qed (use inv in \<open>simp_all add: append_defs effect_ack step_keeps_append step_keeps_flush step_keeps_quiet Let_def reserve_publish_seq_def
    observe_publish_seq_def namespace_delivery_ids_def note_partition_append_batch_timing_def\<close>)

lemma wal_run_keeps:
  assumes "wal_inv wc encryption w k hist durable" "wal_run wc ops hist w k = Some (hist', w', k')"
  shows "\<exists>durable'. wal_inv wc encryption w' k' hist' durable' \<and> (list_all (\<lambda>(now, op). keeps_log op) ops \<longrightarrow> prefix durable durable')"
  using assms
proof (induction wc ops hist w k arbitrary: durable rule: wal_run.induct)
  case (1 wc hist w k)
  then show ?case by auto
next
  case (2 wc now op ops hist w k)
  obtain res w1 k1 where step: "wal_step wc now op w k = (res, w1, k1)" by (cases "wal_step wc now op w k")
  then have "res \<noteq> overflow" using "2.prems"(2) by (auto split: if_splits)
  then have keeps: "step_keeps wc encryption hist durable (keeps_log op) (res, w1, k1)"
    using wal_step_keeps [OF "2.prems"(1), of now op] step by simp
  show ?case
  proof (cases res)
    case (Inl e)
    then have "wal_inv wc encryption w1 k1 hist durable" using keeps by (simp add: step_keeps_def)
    then show ?thesis using "2.IH"(1) [OF step [symmetric] Inl refl] "2.prems"(2) step Inl by (auto split: if_splits)
  next
    case (Inr eff)
    then obtain durable1 where "wal_inv wc encryption w1 k1 (record_effect eff hist) durable1" "keeps_log op \<longrightarrow> prefix durable durable1"
      using keeps by (auto simp: step_keeps_def)
    then show ?thesis using "2.IH"(2) [OF step [symmetric] Inr refl] "2.prems"(2) step Inr by (auto intro: prefix_order.trans)
  qed
qed

section \<open>Recovery\<close>

text \<open>A crash keeps \<open>n\<close> bytes of the open file. Sealed segments were synced when they were left.\<close>

definition crash_dir :: "nat \<Rightarrow> wal \<Rightarrow> wal_disk \<Rightarrow> wal_dir" where
  "crash_dir n w k = (wk_dir k)\<lparr>wd_segments := bt_update (wl_file w) (take n) (wd_segments (wk_dir k))\<rparr>"

lemma cut_frames:
  assumes "frames wc encryption rs = Ok bs"
  obtains kept ks torn where "take n bs = ks @ torn" "frames wc encryption kept = Ok ks" "prefix kept rs"
    "torn = [] \<or> (\<exists>r frame. record_frame wc encryption r = Ok frame \<and> strict_prefix torn frame)"
    "length bs \<le> n \<Longrightarrow> kept = rs"
    "\<And>pre ps. prefix pre rs \<Longrightarrow> frames wc encryption pre = Ok ps \<Longrightarrow> length ps \<le> n \<Longrightarrow> prefix pre kept"
  using assms
proof (induction rs arbitrary: bs n thesis)
  case Nil
  then show ?case by auto
next
  case (Cons r rs)
  obtain frame rest where parts: "record_frame wc encryption r = Ok frame" "frames wc encryption rs = Ok rest" "bs = frame @ rest"
    using Cons.prems(2) by (auto simp: frames_Cons simp del: frames.simps)
  show ?case
  proof (cases "length frame \<le> n")
    case True
    obtain kept ks torn where cut: "take (n - length frame) rest = ks @ torn" "frames wc encryption kept = Ok ks" "prefix kept rs"
      "torn = [] \<or> (\<exists>r frame. record_frame wc encryption r = Ok frame \<and> strict_prefix torn frame)"
      "length rest \<le> n - length frame \<Longrightarrow> kept = rs"
      "\<And>pre ps. prefix pre rs \<Longrightarrow> frames wc encryption pre = Ok ps \<Longrightarrow> length ps \<le> n - length frame \<Longrightarrow> prefix pre kept"
      using Cons.IH [OF _ parts(2)] by blast
    have pre: "prefix pre (r # kept)" if p: "prefix pre (r # rs)" "frames wc encryption pre = Ok ps" "length ps \<le> n" for pre ps
    proof (cases pre)
      case (Cons r' pre')
      then obtain ps' where "frames wc encryption pre' = Ok ps'" "ps = frame @ ps'" "r' = r" "prefix pre' rs"
        using p parts(1) by (auto simp: frames_Cons simp del: frames.simps)
      then show ?thesis using cut(6) [of pre' ps'] p(3) Cons by simp
    qed simp
    show ?thesis
      by (rule Cons.prems(1) [of "frame @ ks" torn "r # kept"]) (use True parts cut pre in \<open>auto simp: map_ok_def\<close>)
  next
    case False
    have "strict_prefix (take n frame) frame"
      using False by (metis not_le order_refl strict_prefix_def take_all_iff take_is_prefix)
    moreover have "pre = []" if "prefix pre (r # rs)" "frames wc encryption pre = Ok ps" "length ps \<le> n" for pre ps
      using that False parts(1) by (cases pre) (auto simp: frames_Cons simp del: frames.simps)
    ultimately show ?thesis
      by (intro Cons.prems(1) [of "[]" "take n frame" "[]"]) (use False parts in auto)
  qed
qed

lemma replay_sealed:
  assumes ok: "wal_encryption_ok encryption" and "rest \<noteq> []"
  shows "list_all2 (\<lambda>(i, c). wal_holds wc encryption c) segs chunks \<Longrightarrow> list_all (readable wc encryption) (concat chunks) \<Longrightarrow>
    replay_segments wc encryption rest (fold apply_record (concat chunks) st) = (Ok (sizes, truncations), st', rest') \<Longrightarrow>
    replay_segments wc encryption (segs @ rest) st
      = (Ok (map (\<lambda>(i, c). (i, length c)) segs @ sizes, truncations), st', segs @ rest')"
proof (induction segs chunks arbitrary: st rule: list_all2_induct)
  case (Cons seg segs chunk chunks)
  obtain i bs where seg: "seg = (i, WAL_SEGMENT_HEADER @ bs)" "frames wc encryption chunk = Ok bs"
    using Cons.hyps(1) by (cases seg) (auto simp: wal_holds_def)
  have "list_all (readable wc encryption) chunk" using Cons.prems(1) by simp
  note wal_segment_whole [OF ok this seg(2)]
  then show ?case using Cons.IH [of "fold apply_record chunk st"] Cons.prems assms(2) seg(1) by (simp add: header_length)
qed simp

fun record_ids_ok :: "wal_record \<Rightarrow> bool" where
  "record_ids_ok (PublishRec r) \<longleftrightarrow> pub_seq r < u64_max"
| "record_ids_ok (PartitionAppendRec r) \<longleftrightarrow> ap_seq r < u64_max"
| "record_ids_ok (DeliveryAttemptRec r) \<longleftrightarrow> da_delivery_id r < u64_max"
| "record_ids_ok (AckRec r) \<longleftrightarrow> ak_delivery_id r < u64_max"
| "record_ids_ok _ \<longleftrightarrow> True"

lemma ids_below:
  "list_all record_ids_ok rs \<Longrightarrow> rst_max_seq st < u64_max \<Longrightarrow> rst_max_delivery_id st < u64_max \<Longrightarrow>
     rst_max_seq (fold apply_record rs st) < u64_max \<and> rst_max_delivery_id (fold apply_record rs st) < u64_max"
proof (induction rs arbitrary: st)
  case (Cons r rs)
  have "rst_max_seq (apply_record r st) < u64_max \<and> rst_max_delivery_id (apply_record r st) < u64_max"
    using Cons.prems by (cases r) (auto split: option.split)
  then show ?case using Cons by simp
qed simp

lemma settle_ids: "rst_max_seq (settle st) = rst_max_seq st" "rst_max_delivery_id (settle st) = rst_max_delivery_id st"
  by (simp_all add: settle_def expire_in_flight_def Let_def)

lemma active_replay:
  assumes ok: "wal_encryption_ok encryption" "list_all (readable wc encryption) kept" "frames wc encryption kept = Ok ks"
    and torn: "torn = [] \<or> (\<exists>r frame. record_frame wc encryption r = Ok frame \<and> strict_prefix torn frame)"
  obtains truncations contents where
    "replay_segments wc encryption [(i, WAL_SEGMENT_HEADER @ ks @ torn)] st
       = (Ok ([(i, WAL_SEGMENT_HEADER_LEN + length ks)], truncations), fold apply_record kept st, [(i, contents)])"
    "length torn = 0 \<or> 4 \<le> length torn \<Longrightarrow> contents = WAL_SEGMENT_HEADER @ ks"
proof (cases "torn = []")
  case True
  then show ?thesis using that [of 0 "WAL_SEGMENT_HEADER @ ks"] wal_segment_whole [OF ok] by simp
next
  case False
  then obtain r frame where r: "record_frame wc encryption r = Ok frame" "strict_prefix torn frame" using torn by blast
  show ?thesis
    using wal_segment_torn [OF ok r] that(1) [of 0 "WAL_SEGMENT_HEADER @ ks @ torn"] that(1) [of 1 "WAL_SEGMENT_HEADER @ ks"] that False
    by (cases "length torn < 4") auto
qed

lemma open_after_crash:
  assumes ok: "wal_encryption_ok encryption" and inv: "wal_inv wc encryption w k hist durable"
    and hist: "list_all (readable wc encryption) hist" "list_all record_ids_ok hist"
    and cut: "wk_synced k \<le> n" "WAL_SEGMENT_HEADER_LEN \<le> n" and "0 < segment_bytes"
  obtains kept w' k' truncations where "prefix durable kept" "prefix kept hist" "wl_active_bytes w \<le> n \<longrightarrow> kept = hist"
    "wal_open wc encryption interval segment_bytes now (crash_dir n w k)
       = (Ok (w', replay_of (settle (fold apply_record kept default_replay_state)) truncations), k')"
proof -
  obtain segs chunks contents active synced where parts: "wal_parts wc encryption w k segs chunks contents active"
    and recs: "hist = concat chunks @ active" "prefix synced active" "synced_records wc encryption (wk_synced k) synced"
      "prefix durable (concat chunks @ synced)"
    using inv by (auto simp: wal_inv_def)
  obtain bs where bs: "frames wc encryption active = Ok bs" "contents = WAL_SEGMENT_HEADER @ bs"
    using parts by (auto simp: wal_parts_def wal_holds_def)
  obtain kept ks torn where part: "take (n - WAL_SEGMENT_HEADER_LEN) bs = ks @ torn" "frames wc encryption kept = Ok ks" "prefix kept active"
    "torn = [] \<or> (\<exists>r frame. record_frame wc encryption r = Ok frame \<and> strict_prefix torn frame)"
    "length bs \<le> n - WAL_SEGMENT_HEADER_LEN \<Longrightarrow> kept = active"
    "\<And>pre ps. prefix pre active \<Longrightarrow> frames wc encryption pre = Ok ps \<Longrightarrow> length ps \<le> n - WAL_SEGMENT_HEADER_LEN \<Longrightarrow> prefix pre kept"
    by (rule cut_frames [OF bs(1), of "n - WAL_SEGMENT_HEADER_LEN"]) blast
  have segments: "wd_segments (crash_dir n w k) = segs @ [(wl_file w, WAL_SEGMENT_HEADER @ ks @ torn)]"
    using parts bs(2) part(1) cut(2) by (simp add: crash_dir_def wal_parts_def bt_last header_length)
  have kept_ok: "list_all (readable wc encryption) kept" "list_all (readable wc encryption) (concat chunks)"
    using hist(1) recs(1) part(3) by (auto simp: list_all_iff dest: set_mono_prefix)
  obtain truncations file' where active: "replay_segments wc encryption [(wl_file w, WAL_SEGMENT_HEADER @ ks @ torn)]
       (fold apply_record (concat chunks) default_replay_state)
       = (Ok ([(wl_file w, WAL_SEGMENT_HEADER_LEN + length ks)], truncations),
          fold apply_record kept (fold apply_record (concat chunks) default_replay_state), [(wl_file w, file')])"
    by (rule active_replay [OF ok kept_ok(1) part(2,4)])
  have holds: "list_all2 (\<lambda>(i, c). wal_holds wc encryption c) segs chunks" using parts by (simp add: wal_parts_def)
  let ?st = "fold apply_record (concat chunks @ kept) default_replay_state"
  have replay: "replay_segments wc encryption (wd_segments (crash_dir n w k)) default_replay_state
      = (Ok (map (\<lambda>(i, c). (i, length c)) segs @ [(wl_file w, WAL_SEGMENT_HEADER_LEN + length ks)], truncations), ?st,
         segs @ [(wl_file w, file')])"
    unfolding segments using replay_sealed [OF ok _ holds kept_ok(2) active] by simp
  have "prefix (concat chunks @ kept) hist" using recs(1) part(3) by simp
  then have "list_all record_ids_ok (concat chunks @ kept)" using hist(2) set_mono_prefix unfolding list_all_iff by blast
  then have "rst_max_seq ?st < u64_max" "rst_max_delivery_id ?st < u64_max"
    using ids_below [of "concat chunks @ kept" default_replay_state] by (simp_all add: default_replay_state_def u64_max_def)
  then have "\<exists>out d. replay_dir wc encryption (crash_dir n w k) = (Ok out, d) \<and> ro_replay out = replay_of (settle ?st) truncations"
    using replay segments by (simp add: replay_dir_def settle_ids Let_def)
  then obtain w' k' where "wal_open wc encryption interval segment_bytes now (crash_dir n w k)
      = (Ok (w', replay_of (settle ?st) truncations), k')"
    using assms(7) by (auto simp: wal_open_def)
  moreover have "prefix synced kept"
    using recs(2,3) part(6) [of synced] cut(1) by (auto simp: synced_records_def header_length)
  then have "prefix durable (concat chunks @ kept)" using recs(4) by (meson prefix_order.trans same_prefix_prefix)
  moreover have "wl_active_bytes w \<le> n \<longrightarrow> concat chunks @ kept = hist"
    using parts bs(2) part(5) recs(1) by (auto simp: wal_parts_def header_length)
  ultimately show ?thesis using that \<open>prefix (concat chunks @ kept) hist\<close> by blast
qed

definition empty_wal_dir :: wal_dir where
  "empty_wal_dir = \<lparr>wd_segments = [], wd_tmp = [], wd_legacy = None, wd_legacy_backup = None\<rparr>"

lemma replay_empty_dir:
  "replay_dir wc encryption empty_wal_dir =
     (Ok \<lparr>ro_replay = replay_of (settle default_replay_state) 0, ro_active_segment_id = 1, ro_active_bytes = WAL_SEGMENT_HEADER_LEN,
          ro_sealed_segments = []\<rparr>, empty_wal_dir\<lparr>wd_segments := [(1, WAL_SEGMENT_HEADER)]\<rparr>)"
proof -
  have "wal_replay_segment wc encryption True WAL_SEGMENT_HEADER st = (Ok (WAL_SEGMENT_HEADER_LEN, 0), st, WAL_SEGMENT_HEADER)" for st
    by (simp add: wal_replay_segment_def read_exact_def read_record_def replay_records.simps)
  then have "replay_segments wc encryption [(1, WAL_SEGMENT_HEADER)] st = (Ok ([(1, WAL_SEGMENT_HEADER_LEN)], 0), st, [(1, WAL_SEGMENT_HEADER)])" for st
    by simp
  then show ?thesis
    by (simp add: replay_dir_def empty_wal_dir_def migrate_legacy_if_present_def settle_ids Let_def)
      (simp add: default_replay_state_def u64_max_def)
qed

lemma open_empty:
  assumes "wal_open wc encryption interval segment_bytes now empty_wal_dir = (Ok (w, r), k)"
  shows "wal_inv wc encryption w k [] []"
proof -
  have "wal_parts wc encryption w k [] [] WAL_SEGMENT_HEADER []"
    using assms by (auto simp: wal_open_def replay_empty_dir wal_parts_def wal_holds_Nil header_length bt_wf_def split: if_splits)
  then show ?thesis by (rule wal_invI [where synced = "[]"]) (simp_all add: synced_records_def)
qed

section \<open>Three limits\<close>

text \<open>
  The comment on \<open>append_partition_append_batch\<close> says that segment limits stay those of single appends. The
  check of the loop does not count the pending bytes: a batch that starts in a fresh segment goes
  there as a whole, however large it is.
\<close>

lemma fresh_batch_never_rotates:
  assumes "wl_active_bytes w = WAL_SEGMENT_HEADER_LEN" "write_batch wc now xs pending pending_bytes w k = (Ok (), w', k')"
  shows "wl_active_segment_id w' = wl_active_segment_id w \<and> wl_sealed_segments w' = wl_sealed_segments w"
  using assms
proof (induction xs arbitrary: pending pending_bytes)
  case Nil
  then show ?case by (auto simp: append_frame_def split: if_splits)
next
  case (Cons x xs)
  have "\<not> must_rotate n w" for n using Cons.prems(1) by (simp add: must_rotate_def)
  then show ?case using Cons by (cases x) (auto simp: Let_def split: if_splits sum.splits)
qed

text \<open>
  A checkpoint that fails while it writes leaves its temporary file, and the next one, before a
  rotation or a restart, fails to create it.
\<close>

lemma failed_checkpoint_blocks_next:
  assumes first: "wal_checkpoint wc now ms cs ds ps gs w k = (Err e, w1, k1)"
    and failure: "write_records wc (wl_encryption w) (checkpoint_records ms cs ds ps gs) WAL_SEGMENT_HEADER = Err e"
    and room: "wl_active_segment_id w < u64_max"
  shows "fst (wal_checkpoint wc now' ms' cs' ds' ps' gs' w1 k1) = Err ''creating WAL segment''"
proof -
  have "bt_contains (wl_active_segment_id w + 1) (wd_tmp (wk_dir k1)) \<and> wl_active_segment_id w1 = wl_active_segment_id w"
    using first failure room
    by (auto simp: wal_checkpoint_def wal_flush_def Let_def bt_contains_iff split: if_splits)
  then show ?thesis using room by (simp add: wal_checkpoint_def wal_flush_def Let_def)
qed

text \<open>
  \<open>create_segment\<close> writes the header without syncing it. When the crash leaves less than the header of the
  active segment, no start succeeds any more.
\<close>

lemma torn_wal_header_blocks_open:
  assumes "wal_inv wc encryption w k hist durable" "list_all (readable wc encryption) hist" "wal_encryption_ok encryption"
    "n < WAL_SEGMENT_HEADER_LEN" "0 < segment_bytes"
  shows "fst (wal_open wc encryption interval segment_bytes now (crash_dir n w k)) = Err ''reading WAL segment header''"
proof -
  obtain segs chunks contents active where parts: "wal_parts wc encryption w k segs chunks contents active"
    and hist: "hist = concat chunks @ active"
    using assms(1) by (auto simp: wal_inv_def)
  have segments: "wd_segments (crash_dir n w k) = segs @ [(wl_file w, take n contents)]"
    using parts by (simp add: crash_dir_def wal_parts_def bt_last)
  have short: "wal_replay_segment wc encryption True (take n contents) st = (Err ''reading WAL segment header'', st, take n contents)" for st
    using assms(4) by (simp add: wal_replay_segment_def read_exact_def header_length)
  have "list_all2 (\<lambda>(i, c). wal_holds wc encryption c) segs chunks \<Longrightarrow> list_all (readable wc encryption) (concat chunks) \<Longrightarrow>
      fst (replay_segments wc encryption (segs @ [(wl_file w, take n contents)]) st) = Err ''reading WAL segment header''" for st
  proof (induction segs chunks arbitrary: st rule: list_all2_induct)
    case Nil
    then show ?case by (simp add: short)
  next
    case (Cons seg segs chunk chunks)
    obtain i bs where seg: "seg = (i, WAL_SEGMENT_HEADER @ bs)" "frames wc encryption chunk = Ok bs"
      using Cons.hyps(1) by (cases seg) (auto simp: wal_holds_def)
    have "list_all (readable wc encryption) chunk" using Cons.prems(1) by simp
    note wal_segment_whole [OF assms(3) this seg(2)]
    then show ?case using Cons.IH [of "fold apply_record chunk st"] Cons.prems seg(1) by (auto split: prod.splits sum.splits)
  qed
  then have "fst (replay_segments wc encryption (wd_segments (crash_dir n w k)) default_replay_state) = Err ''reading WAL segment header''"
    using parts hist assms(2) segments by (simp add: wal_parts_def)
  then show ?thesis using assms(5) segments by (auto simp: wal_open_def replay_dir_def Let_def split: prod.splits)
qed

section \<open>Properties\<close>


definition sample_dead_letter :: dead_letter_record where
  "sample_dead_letter =
     \<lparr>dl_id = 7, dl_source_seq = 3, dl_consumer_id = ''c'', dl_source_stream = None, dl_source_partition = None, dl_source_offset = None,
      dl_reason = ''r'', dl_attempt_count = 1, dl_first_delivery_ms = 1, dl_last_delivery_ms = 2, dl_payload = []\<rparr>"

definition sample_wal_codec :: wal_codec where
  "sample_wal_codec =
     \<lparr>wc_crc = (\<lambda>_. 0), wc_start = \<lparr>js_encode = (\<lambda>_. []), js_decode = (\<lambda>_. Some Latest)\<rparr>,
      wc_retry = \<lparr>js_encode = (\<lambda>_. []), js_decode = (\<lambda>_. Some default_retry_policy)\<rparr>,
      wc_cursors = \<lparr>js_encode = (\<lambda>_. []), js_decode = (\<lambda>_. None)\<rparr>, wc_offsets = \<lparr>js_encode = (\<lambda>_. []), js_decode = (\<lambda>_. None)\<rparr>,
      wc_dead_letter = \<lparr>js_encode = (\<lambda>_. [1]), js_decode = (\<lambda>_. Some sample_dead_letter)\<rparr>,
      wc_producer = \<lparr>js_encode = (\<lambda>_. []), js_decode = (\<lambda>_. None)\<rparr>, wc_group = \<lparr>js_encode = (\<lambda>_. []), js_decode = (\<lambda>_. None)\<rparr>\<rparr>"

definition sample_wal :: wal where
  "sample_wal =
     \<lparr>wl_file = 1, wl_active_segment_id = 1, wl_active_bytes = 11, wl_sealed_segments = [], wl_segment_bytes = 1000, wl_next_seq = 1,
      wl_next_delivery_id = 1, wl_fsync_interval = 0, wl_last_sync = 0, wl_metrics = default_wal_metrics, wl_encryption = None\<rparr>"

definition sample_disk :: wal_disk where
  "sample_disk = \<lparr>wk_dir = empty_wal_dir\<lparr>wd_segments := [(1, WAL_SEGMENT_HEADER)]\<rparr>, wk_synced = 0\<rparr>"


end
