(* ===== verification/Wal_Checkpoint.thy ===== *)
theory Wal_Checkpoint
  imports Wal_Log
begin

text \<open>
  What a checkpoint of the write-ahead log keeps: the records that \<open>Wal::checkpoint\<close> writes
  (\<open>crates/server/src/wal/wal.rs\<close>), replayed by \<open>replay_dir\<close>. The replay of any records is followed for one consumer at
  a time.
\<close>

section \<open>One consumer\<close>

fun view_step :: "string \<Rightarrow> wal_record \<Rightarrow> replayed_consumer option \<Rightarrow> replayed_consumer option" where
  "view_step i (PublishRec r) o' = map_option (make_pending (pub_subject r) (pub_seq r)) o'"
| "view_step i (PartitionAppendRec r) o' = map_option (make_pending (ap_subject r) (ap_seq r)) o'"
| "view_step i (ConsumerUpsertRec r) o' =
     (if cn_consumer_id r = i then Some (case o' of None \<Rightarrow> new_consumer r | Some c \<Rightarrow> c\<lparr>rcn_record := r\<rparr>) else o')"
| "view_step i (DeliveryAttemptRec a) o' = (if da_consumer_id a = i then map_option (apply_attempt a) o' else o')"
| "view_step i (AckRec a) o' = (if ak_consumer_id a = i then map_option (apply_ack a) o' else o')"
| "view_step i (ConsumerCursorRec r) o' =
     (if ccr_consumer_id r = i then map_option (\<lambda>c. c\<lparr>rcn_cursors := Some (ccr_cursors r)\<rparr>) o' else o')"
| "view_step i (ConsumerCursorDeltaRec d) o' = (if ccd_consumer_id d = i then map_option (apply_cursor_delta d) o' else o')"
| "view_step i (ConsumerDeleteRec j) o' = (if j = i then None else o')"
| "view_step i _ o' = o'"

lemma apply_record_view:
  "consumers_ok st \<Longrightarrow> map_of (rst_consumers (apply_record r st)) i = view_step i r (map_of (rst_consumers st) i)"
  by (cases r) (auto simp: consumers_ok_def split: option.split)

lemma fold_view:
  "consumers_ok st \<Longrightarrow> map_of (rst_consumers (fold apply_record rs st)) i = fold (view_step i) rs (map_of (rst_consumers st) i)"
  by (induction rs arbitrary: st) (auto simp: apply_record_view consumers_ok_apply)

lemma fold_view_id: "(\<And>r. r \<in> set rs \<Longrightarrow> view_step i r o' = o') \<Longrightarrow> fold (view_step i) rs o' = o'"
  by (induction rs) auto

lemma fold_view_Some:
  "(\<And>x c. x \<in> set xs \<Longrightarrow> view_step i (f x) (Some c) = Some (g x c)) \<Longrightarrow> fold (view_step i) (map f xs) (Some c) = Some (fold g xs c)"
  by (induction xs arbitrary: c) auto

section \<open>Acknowledgements, attempts and messages\<close>

lemma fold_acks:
  assumes "consumer_ok c" "\<And>x. x \<in> set xs \<Longrightarrow> ak_seq (f x) = x" "rcn_pending c = []" "rcn_in_flight c = []"
  shows "rcn_record (fold (\<lambda>x. apply_ack (f x)) xs c) = rcn_record c" "rcn_cursors (fold (\<lambda>x. apply_ack (f x)) xs c) = rcn_cursors c"
    "rcn_pending (fold (\<lambda>x. apply_ack (f x)) xs c) = []" "rcn_in_flight (fold (\<lambda>x. apply_ack (f x)) xs c) = []"
    "rcn_pending_attempts (fold (\<lambda>x. apply_ack (f x)) xs c) = rcn_pending_attempts c" "consumer_ok (fold (\<lambda>x. apply_ack (f x)) xs c)"
    "bt_contains seq (rcn_acked (fold (\<lambda>x. apply_ack (f x)) xs c)) \<longleftrightarrow> seq \<in> set xs \<or> bt_contains seq (rcn_acked c)"
proof -
  have "let d = fold (\<lambda>x. apply_ack (f x)) xs c in rcn_record d = rcn_record c \<and> rcn_cursors d = rcn_cursors c \<and> rcn_pending d = []
      \<and> rcn_in_flight d = [] \<and> rcn_pending_attempts d = rcn_pending_attempts c \<and> consumer_ok d
      \<and> (bt_contains seq (rcn_acked d) \<longleftrightarrow> seq \<in> set xs \<or> bt_contains seq (rcn_acked c))"
    using assms
  proof (induction xs arbitrary: c)
    case (Cons x xs)
    have "consumer_ok (apply_ack (f x) c)" by (rule consumer_ok_ack [OF Cons.prems(1)])
    moreover have "rcn_pending (apply_ack (f x) c) = []" "rcn_in_flight (apply_ack (f x) c) = []"
      using Cons.prems(3,4) by (simp_all add: apply_ack_def bt_remove_def)
    moreover have "bt_wf (rcn_acked c)" using Cons.prems(1) by (simp add: consumer_ok_def)
    ultimately show ?case using Cons.IH [of "apply_ack (f x) c"] Cons.prems(2) by (auto simp: apply_ack_def Let_def)
  qed simp
  then show "rcn_record (fold (\<lambda>x. apply_ack (f x)) xs c) = rcn_record c" "rcn_cursors (fold (\<lambda>x. apply_ack (f x)) xs c) = rcn_cursors c"
    "rcn_pending (fold (\<lambda>x. apply_ack (f x)) xs c) = []" "rcn_in_flight (fold (\<lambda>x. apply_ack (f x)) xs c) = []"
    "rcn_pending_attempts (fold (\<lambda>x. apply_ack (f x)) xs c) = rcn_pending_attempts c" "consumer_ok (fold (\<lambda>x. apply_ack (f x)) xs c)"
    "bt_contains seq (rcn_acked (fold (\<lambda>x. apply_ack (f x)) xs c)) \<longleftrightarrow> seq \<in> set xs \<or> bt_contains seq (rcn_acked c)"
    by (simp_all add: Let_def)
qed

text \<open>What folds of one kind of record leave: everything but the field they are for.\<close>

definition same_but_flight :: "replayed_consumer \<Rightarrow> replayed_consumer \<Rightarrow> bool" where
  "same_but_flight c d \<longleftrightarrow>
     rcn_record d = rcn_record c \<and> rcn_cursors d = rcn_cursors c \<and> rcn_acked d = rcn_acked c
     \<and> rcn_pending_attempts d = rcn_pending_attempts c \<and> consumer_ok d"

lemma fold_attempts:
  assumes "consumer_ok c" "rcn_pending c = []"
  shows "same_but_flight c (fold apply_attempt as c) \<and> rcn_pending (fold apply_attempt as c) = []
    \<and> map_of (rcn_in_flight (fold apply_attempt as c)) seq =
        (if bt_contains seq (rcn_acked c) then None
         else case map_of (rev (map (\<lambda>a. (da_seq a, a)) as)) seq of None \<Rightarrow> map_of (rcn_in_flight c) seq | Some a \<Rightarrow> Some a)"
  using assms
proof (induction as arbitrary: c)
  case Nil
  then show ?case by (auto simp: same_but_flight_def consumer_ok_def bt_contains_map)
next
  case (Cons a as)
  let ?c = "apply_attempt a c"
  have ok: "consumer_ok ?c" by (rule consumer_ok_attempt [OF Cons.prems(1)])
  have c: "rcn_record ?c = rcn_record c" "rcn_cursors ?c = rcn_cursors c" "rcn_acked ?c = rcn_acked c"
    "rcn_pending_attempts ?c = rcn_pending_attempts c" "rcn_pending ?c = []"
    using Cons.prems(2) by (simp_all add: apply_attempt_def bt_remove_def)
  have flight: "map_of (rcn_in_flight ?c) seq = (if da_seq a = seq then Some a else map_of (rcn_in_flight c) seq)"
    if "\<not> bt_contains seq (rcn_acked c)"
    using that Cons.prems(1) by (auto simp: apply_attempt_def consumer_ok_def)
  show ?case using Cons.IH [OF ok c(5)] c flight by (auto simp: same_but_flight_def map_add_def split: option.splits)
qed

definition same_but_pending :: "replayed_consumer \<Rightarrow> replayed_consumer \<Rightarrow> bool" where
  "same_but_pending c d \<longleftrightarrow>
     rcn_record d = rcn_record c \<and> rcn_cursors d = rcn_cursors c \<and> rcn_acked d = rcn_acked c \<and> rcn_in_flight d = rcn_in_flight c
     \<and> rcn_pending_attempts d = rcn_pending_attempts c \<and> bt_wf (rcn_pending d)"

lemma fold_messages:
  assumes "bt_wf (rcn_pending c)"
  shows "same_but_pending c (fold (\<lambda>m. make_pending (pub_subject m) (pub_seq m)) ms c)
    \<and> (bt_contains seq (rcn_pending (fold (\<lambda>m. make_pending (pub_subject m) (pub_seq m)) ms c)) \<longleftrightarrow>
         bt_contains seq (rcn_pending c)
         \<or> rcn_cursors c = None \<and> \<not> bt_contains seq (rcn_acked c)
           \<and> (\<exists>m\<in>set ms. pub_seq m = seq \<and> matches (cn_filter_subject (rcn_record c)) (pub_subject m)))"
  using assms
proof (induction ms arbitrary: c)
  case (Cons m ms)
  let ?c = "make_pending (pub_subject m) (pub_seq m) c"
  have c: "rcn_record ?c = rcn_record c" "rcn_cursors ?c = rcn_cursors c" "rcn_acked ?c = rcn_acked c" "rcn_in_flight ?c = rcn_in_flight c"
    "rcn_pending_attempts ?c = rcn_pending_attempts c" "bt_wf (rcn_pending ?c)"
    "bt_contains seq (rcn_pending ?c) \<longleftrightarrow> bt_contains seq (rcn_pending c)
       \<or> rcn_cursors c = None \<and> \<not> bt_contains seq (rcn_acked c) \<and> pub_seq m = seq \<and> matches (cn_filter_subject (rcn_record c)) (pub_subject m)"
    using Cons.prems by (auto simp: make_pending_def)
  show ?case using Cons.IH [OF c(6)] c by (auto simp: same_but_pending_def)
qed (simp add: same_but_pending_def)

section \<open>The records of a checkpoint\<close>

abbreviation consumer_id :: "replayed_consumer \<Rightarrow> string" where
  "consumer_id c \<equiv> cn_consumer_id (rcn_record c)"

definition consumer_valid :: "replayed_consumer \<Rightarrow> bool" where
  "consumer_valid c \<longleftrightarrow>
     consumer_ok c \<and> (\<forall>(seq, a)\<in>set (rcn_in_flight c). da_seq a = seq \<and> da_consumer_id a = consumer_id c)"

definition placeholder :: "string \<Rightarrow> u64 \<Rightarrow> u32 \<Rightarrow> delivery_attempt_record" where
  "placeholder i seq attempt =
     \<lparr>da_seq = seq, da_consumer_id = i, da_delivery_id = 0, da_deadline_ms = 0, da_attempt = attempt, da_retry_waiting = False\<rparr>"

definition checkpoint_attempts :: "replayed_consumer \<Rightarrow> delivery_attempt_record list" where
  "checkpoint_attempts c =
     map (\<lambda>seq. placeholder (consumer_id c) seq 0) (bt_keys (rcn_pending c))
     @ map (\<lambda>(seq, next_attempt). placeholder (consumer_id c) seq (next_attempt - 1)) (rcn_pending_attempts c)
     @ bt_values (rcn_in_flight c)"

lemma compact_consumer_eq:
  "compact_consumer c =
     ConsumerUpsertRec (rcn_record c)
     # (case rcn_cursors c of None \<Rightarrow> [] | Some cs \<Rightarrow> [ConsumerCursorRec \<lparr>ccr_consumer_id = consumer_id c, ccr_cursors = cs\<rparr>])
     @ map (\<lambda>seq. AckRec \<lparr>ak_seq = seq, ak_consumer_id = consumer_id c, ak_delivery_id = 0\<rparr>) (bt_keys (rcn_acked c))
     @ map DeliveryAttemptRec (checkpoint_attempts c)"
  by (auto simp: compact_consumer_def placeholder_attempt_def checkpoint_attempts_def placeholder_def Let_def)

text \<open>The number of the next attempt that a restart gives a message, from the consumer of the checkpoint.\<close>

definition next_attempt_of :: "replayed_consumer \<Rightarrow> u64 \<Rightarrow> u32 option" where
  "next_attempt_of c seq =
     (case map_of (rcn_in_flight c) seq of
        Some a \<Rightarrow> Some (min (da_attempt a + 1) u32_max)
      | None \<Rightarrow>
         (case map_of (rcn_pending_attempts c) seq of
            Some n \<Rightarrow> Some (min (n - 1 + 1) u32_max)
          | None \<Rightarrow> if bt_contains seq (rcn_pending c) then Some 1 else None))"

lemma map_of_rev_map:
  assumes "distinct (map fst m)"
  shows "map_of (rev (map (\<lambda>x. (fst x, g (fst x) (snd x))) m)) k = map_option (g k) (map_of m k)"
proof -
  have "map_of (map (\<lambda>x. (fst x, g (fst x) (snd x))) m) k = map_option (g k) (map_of m k)" by (induction m) auto
  then show ?thesis using map_of_rev_distinct [of "map (\<lambda>x. (fst x, g (fst x) (snd x))) m"] assms by (simp add: o_def)
qed

lemma checkpoint_attempts_of:
  assumes "consumer_valid c"
  shows "map_of (rev (map (\<lambda>a. (da_seq a, a)) (checkpoint_attempts c))) seq =
    (case map_of (rcn_in_flight c) seq of
       Some a \<Rightarrow> Some a
     | None \<Rightarrow>
        (case map_of (rcn_pending_attempts c) seq of
           Some n \<Rightarrow> Some (placeholder (consumer_id c) seq (n - 1))
         | None \<Rightarrow> if bt_contains seq (rcn_pending c) then Some (placeholder (consumer_id c) seq 0) else None))"
proof -
  have wf: "distinct (map fst (rcn_in_flight c))" "distinct (map fst (rcn_pending_attempts c))" "distinct (map fst (rcn_pending c))"
    using assms by (simp_all add: consumer_valid_def consumer_ok_def bt_wf_distinct)
  have flight: "map (\<lambda>a. (da_seq a, a)) (bt_values (rcn_in_flight c)) = rcn_in_flight c"
    using assms by (auto simp: consumer_valid_def intro!: map_idI)
  have pend: "map_of (rev (map (\<lambda>x. (fst x, placeholder (consumer_id c) (fst x) 0)) (rcn_pending c))) seq
      = (if bt_contains seq (rcn_pending c) then Some (placeholder (consumer_id c) seq 0) else None)"
    using map_of_rev_map [OF wf(3), of "\<lambda>k v. placeholder (consumer_id c) k 0" seq]
    by (cases "map_of (rcn_pending c) seq") (auto simp: bt_contains_map)
  have att: "map_of (rev (map (\<lambda>x. (fst x, placeholder (consumer_id c) (fst x) (snd x - 1))) (rcn_pending_attempts c))) seq
      = map_option (\<lambda>n. placeholder (consumer_id c) seq (n - 1)) (map_of (rcn_pending_attempts c) seq)"
    by (rule map_of_rev_map [OF wf(2), where g = "\<lambda>k v. placeholder (consumer_id c) k (v - 1)"])
  have seqs: "map (\<lambda>a. (da_seq a, a)) (checkpoint_attempts c)
      = map (\<lambda>x. (fst x, placeholder (consumer_id c) (fst x) 0)) (rcn_pending c)
        @ map (\<lambda>x. (fst x, placeholder (consumer_id c) (fst x) (snd x - 1))) (rcn_pending_attempts c) @ rcn_in_flight c"
    using flight by (simp add: checkpoint_attempts_def placeholder_def case_prod_beta o_def)
  show ?thesis
    unfolding seqs rev_append map_of_append map_add_def
    using pend att map_of_rev_distinct [OF wf(1)] by (auto split: option.splits)
qed

lemma compact_other: "i \<noteq> consumer_id c \<Longrightarrow> consumer_valid c \<Longrightarrow> r \<in> set (compact_consumer c) \<Longrightarrow> view_step i r o' = o'"
  by (auto simp: compact_consumer_eq checkpoint_attempts_def placeholder_def consumer_valid_def split: option.splits)

lemma compact_own:
  assumes "consumer_valid c"
  shows "\<exists>d. fold (view_step (consumer_id c)) (compact_consumer c) None = Some d
    \<and> rcn_record d = rcn_record c \<and> rcn_cursors d = rcn_cursors c \<and> rcn_pending d = [] \<and> rcn_pending_attempts d = [] \<and> consumer_ok d
    \<and> (\<forall>seq. (bt_contains seq (rcn_acked d) \<longleftrightarrow> bt_contains seq (rcn_acked c))
         \<and> map_option (\<lambda>a. min (da_attempt a + 1) u32_max) (map_of (rcn_in_flight d) seq)
             = (if bt_contains seq (rcn_acked c) then None else next_attempt_of c seq))"
proof -
  let ?i = "consumer_id c"
  let ?c0 = "(new_consumer (rcn_record c))\<lparr>rcn_cursors := rcn_cursors c\<rparr>"
  let ?ack = "\<lambda>seq. \<lparr>ak_seq = seq, ak_consumer_id = ?i, ak_delivery_id = 0\<rparr>"
  let ?c1 = "fold (\<lambda>seq. apply_ack (?ack seq)) (bt_keys (rcn_acked c)) ?c0"
  let ?d = "fold apply_attempt (checkpoint_attempts c) ?c1"
  have ok0: "consumer_ok ?c0" by (simp add: consumer_ok_other)
  note acks = fold_acks [OF ok0, where f = ?ack and xs = "bt_keys (rcn_acked c)"]
  have empty0: "rcn_pending ?c0 = []" "rcn_in_flight ?c0 = []" "rcn_acked ?c0 = []" "rcn_pending_attempts ?c0 = []"
    by (simp_all add: new_consumer_def)
  have c1: "rcn_record ?c1 = rcn_record c" "rcn_cursors ?c1 = rcn_cursors c" "rcn_pending ?c1 = []" "rcn_in_flight ?c1 = []"
    "rcn_pending_attempts ?c1 = []" "consumer_ok ?c1"
    using acks(1-6) empty0 by (simp_all add: new_consumer_def)
  have acked: "bt_contains seq (rcn_acked ?c1) \<longleftrightarrow> bt_contains seq (rcn_acked c)" for seq
    using acks(7) empty0 by (simp add: bt_contains_iff)
  have first: "fold (view_step ?i) (ConsumerUpsertRec (rcn_record c)
      # (case rcn_cursors c of None \<Rightarrow> [] | Some cs \<Rightarrow> [ConsumerCursorRec \<lparr>ccr_consumer_id = ?i, ccr_cursors = cs\<rparr>])) None = Some ?c0"
    by (auto simp: new_consumer_def split: option.split)
  have attempt_ids: "da_consumer_id a = ?i" if "a \<in> set (checkpoint_attempts c)" for a
    using that assms by (auto simp: checkpoint_attempts_def placeholder_def consumer_valid_def)
  have second: "fold (view_step ?i) (map (\<lambda>seq. AckRec (?ack seq)) (bt_keys (rcn_acked c))) (Some ?c0) = Some ?c1"
    by (rule fold_view_Some) simp
  have third: "fold (view_step ?i) (map DeliveryAttemptRec (checkpoint_attempts c)) (Some ?c1) = Some ?d"
    by (rule fold_view_Some) (simp add: attempt_ids)
  have "fold (view_step ?i) (compact_consumer c) None = Some ?d"
    unfolding compact_consumer_eq append_Cons [symmetric] fold_append o_apply first second third ..
  moreover have "map_option (\<lambda>a. min (da_attempt a + 1) u32_max) (map_of (rcn_in_flight ?d) seq)
      = (if bt_contains seq (rcn_acked c) then None else next_attempt_of c seq)" for seq
    using fold_attempts [OF c1(6,3), of "checkpoint_attempts c" seq] c1(4) acked [of seq]
    by (auto simp: checkpoint_attempts_of [OF assms] next_attempt_of_def placeholder_def u32_max_def split: option.splits)
  moreover have "same_but_flight ?c1 ?d" "rcn_pending ?d = []" using fold_attempts [OF c1(6,3)] by blast+
  ultimately show ?thesis using c1 acked by (intro exI [of _ ?d]) (simp add: same_but_flight_def)
qed

lemma compact_all:
  assumes "list_all consumer_valid cs" "distinct (map consumer_id cs)" "c \<in> set cs"
  shows "fold (view_step (consumer_id c)) (concat (map compact_consumer cs)) None
    = fold (view_step (consumer_id c)) (compact_consumer c) None"
proof -
  obtain before later where cs: "cs = before @ c # later" using assms(3) by (meson split_list)
  have other: "fold (view_step (consumer_id c)) (concat (map compact_consumer ds)) o' = o'"
    if "set ds \<subseteq> set cs" "consumer_id c \<notin> consumer_id ` set ds" for ds o'
    using that assms(1) by (intro fold_view_id) (auto simp: list_all_iff intro!: compact_other)
  have "fold (view_step (consumer_id c)) (concat (map compact_consumer before)) o' = o'"
    "fold (view_step (consumer_id c)) (concat (map compact_consumer later)) o' = o'" for o'
    using assms(2) cs by (auto intro!: other)
  then show ?thesis by (simp add: cs)
qed

lemma compact_message_step:
  "view_step i (compact_message m) (Some c) = Some (make_pending (pub_subject m) (pub_seq m) c)"
  "publishes (compact_message m) = Some (pub_seq m, pub_subject m)"
  by (auto simp: compact_message_def split: option.split)

lemma known_publishes:
  "consumers_ok st \<Longrightarrow> known (fold apply_record rs st) seq \<longleftrightarrow> known st seq \<or> (\<exists>r\<in>set rs. \<exists>subject. publishes r = Some (seq, subject))"
proof (induction rs arbitrary: st)
  case (Cons r rs)
  have "known (apply_record r st) seq \<longleftrightarrow> known st seq \<or> (\<exists>subject. publishes r = Some (seq, subject))"
    using Cons.prems by (cases r) (auto simp: known_def consumers_ok_def)
  then show ?case using Cons by (auto simp: consumers_ok_apply)
qed simp

lemma known_checkpoint:
  "known (fold apply_record (checkpoint_records ms cs ds ps gs) default_replay_state) seq \<longleftrightarrow> seq \<in> pub_seq ` set ms"
proof -
  have none: "publishes r \<noteq> Some x" if "r \<in> set (compact_consumer c)" for r c x
    using that by (auto simp: compact_consumer_eq split: option.splits)
  have "(\<exists>r\<in>set (map compact_message ms). \<exists>subject. publishes r = Some (seq, subject)) \<longleftrightarrow> seq \<in> pub_seq ` set ms"
    by (auto simp: compact_message_step(2))
  moreover have "\<not> (\<exists>r\<in>set (concat (map compact_consumer cs)). \<exists>subject. publishes r = Some (seq, subject))"
    "\<not> (\<exists>r\<in>set (map DeadLetterRec ds @ map ProducerSequenceRec ps @ map GroupStateRec gs). \<exists>subject. publishes r = Some (seq, subject))"
    using none by auto
  ultimately have "(\<exists>r\<in>set (checkpoint_records ms cs ds ps gs). \<exists>subject. publishes r = Some (seq, subject)) \<longleftrightarrow> seq \<in> pub_seq ` set ms"
    unfolding checkpoint_records_def compact_records_def set_append bex_Un by blast
  then show ?thesis
    using known_publishes [OF consumers_ok_default] by (simp add: known_def default_replay_state_def bt_contains_def)
qed

lemma checkpoint_view:
  assumes "list_all consumer_valid cs" "distinct (map consumer_id cs)" "c \<in> set cs"
  obtains d where
    "map_of (rst_consumers (fold apply_record (checkpoint_records ms cs ds ps gs) default_replay_state)) (consumer_id c) = Some d"
    "rcn_record d = rcn_record c" "rcn_cursors d = rcn_cursors c" "rcn_pending_attempts d = []"
    "\<And>seq. bt_contains seq (rcn_acked d) \<longleftrightarrow> bt_contains seq (rcn_acked c)"
    "\<And>seq. map_option (\<lambda>a. min (da_attempt a + 1) u32_max) (map_of (rcn_in_flight d) seq)
             = (if bt_contains seq (rcn_acked c) then None else next_attempt_of c seq)"
    "\<And>seq. bt_contains seq (rcn_pending d) \<longleftrightarrow> rcn_cursors c = None \<and> \<not> bt_contains seq (rcn_acked c)
              \<and> (\<exists>m\<in>set ms. pub_seq m = seq \<and> matches (cn_filter_subject (rcn_record c)) (pub_subject m))"
proof -
  have valid: "consumer_valid c" using assms(1,3) by (auto simp: list_all_iff)
  obtain d where d: "fold (view_step (consumer_id c)) (concat (map compact_consumer cs)) None = Some d"
    "rcn_record d = rcn_record c" "rcn_cursors d = rcn_cursors c" "rcn_pending d = []" "rcn_pending_attempts d = []" "consumer_ok d"
    "\<And>seq. bt_contains seq (rcn_acked d) \<longleftrightarrow> bt_contains seq (rcn_acked c)"
    "\<And>seq. map_option (\<lambda>a. min (da_attempt a + 1) u32_max) (map_of (rcn_in_flight d) seq)
         = (if bt_contains seq (rcn_acked c) then None else next_attempt_of c seq)"
    using compact_own [OF valid] compact_all [OF assms] by auto
  let ?d = "fold (\<lambda>m. make_pending (pub_subject m) (pub_seq m)) ms d"
  have messages: "fold (view_step (consumer_id c)) (map compact_message ms) (Some d) = Some ?d"
    by (rule fold_view_Some) (simp add: compact_message_step)
  have others: "fold (view_step (consumer_id c)) (map DeadLetterRec ds @ map ProducerSequenceRec ps @ map GroupStateRec gs) o' = o'" for o'
    by (rule fold_view_id) auto
  have "map_of (rst_consumers default_replay_state) i = None" for i by (simp add: default_replay_state_def)
  then have "map_of (rst_consumers (fold apply_record (checkpoint_records ms cs ds ps gs) default_replay_state)) (consumer_id c) = Some ?d"
    by (subst fold_view [OF consumers_ok_default])
      (simp only: checkpoint_records_def compact_records_def fold_append o_apply d(1) messages others [unfolded fold_append o_apply])
  moreover have "bt_wf (rcn_pending d)" using d(6) by (simp add: consumer_ok_def)
  note fold_messages [OF this, of ms]
  ultimately show ?thesis using d(2-5,7,8) by (intro that [of ?d]) (auto simp: same_but_pending_def bt_contains_def [of _ "[]"])
qed

section \<open>Delivery numbers\<close>

text \<open>
  A checkpoint writes acknowledgements and pending attempts with delivery number 0. When nothing is in
  flight, the next start counts from one again, whatever numbers were given out before.
\<close>

lemma checkpoint_forgets_delivery_ids:
  assumes "list_all (\<lambda>c. rcn_in_flight c = []) cs"
  shows "rst_max_delivery_id (fold apply_record (checkpoint_records ms cs ds ps gs) default_replay_state) = 0"
proof -
  have step: "rst_max_delivery_id (fold apply_record rs st) = rst_max_delivery_id st"
    if "\<And>r st. r \<in> set rs \<Longrightarrow> rst_max_delivery_id (apply_record r st) = rst_max_delivery_id st" for rs st
    using that by (induction rs arbitrary: st) auto
  have "rst_max_delivery_id (apply_record r st) = rst_max_delivery_id st" if "r \<in> set (checkpoint_records ms cs ds ps gs)" for r st
    using that assms
    by (auto simp: checkpoint_records_def compact_records_def compact_consumer_eq checkpoint_attempts_def placeholder_def compact_message_def
        list_all_iff split: option.splits)
  then show ?thesis using step by (simp add: default_replay_state_def)
qed

section \<open>Property\<close>


definition sample_waiting :: replayed_consumer where
  "sample_waiting = (new_consumer sample_consumer)\<lparr>rcn_pending_attempts := [(7, 3)], rcn_acked := [(4, ())]\<rparr>"


end
