(* ===== verification/Partition_Log.thy ===== *)
theory Partition_Log
  imports Subject_Index
begin

text \<open>
  A partition log over its directory, from \<open>crates/server/src/partition_log/log.rs\<close>: opening, appending with
  rotation, lookups through the sparse index, retention, rewriting and compaction. The directory maps segment numbers
  to the contents of the segment, index and subject index files and has the four files of pending
  rewrites and compactions and the retention offset. A reader is opened for each lookup, so the
  \<open>reader\<close> of a range, always \<open>None\<close>, is left out; \<open>pl_file\<close> says whether the active file is
  open. Failures of file system calls are not modelled apart from creating a file that exists and renaming
  over the directory.
\<close>

section \<open>State\<close>

record segment_range =
  sgr_segment :: u64
  sgr_first_offset :: u64
  sgr_last_offset :: u64
  sgr_sparse_index :: "(u64 \<times> u64) list"

record partition_log =
  pl_stream :: string
  pl_partition :: u32
  pl_file :: bool
  pl_segment_id :: u64
  pl_active_bytes :: u64
  pl_segment_bytes :: u64
  pl_next_offset :: u64
  pl_segment_ranges :: "segment_range list"
  pl_sealed_subject_segments :: "subject_segment list"
  pl_active_subjects :: "(string \<times> u64) list"
  pl_subject_index_cache_bytes :: nat
  pl_retention_records :: "retention_record list"
  pl_retained_bytes :: u64
  pl_deleted_messages :: u64
  pl_deleted_bytes :: u64
  pl_encryption :: "key_ring option"

record plog_dir =
  pd_segments :: "(u64, bytes) btree_map"
  pd_index :: "(u64, bytes) btree_map"
  pd_sidx :: "(u64, bytes) btree_map"
  pd_retention_offset :: "bytes option"
  pd_rewrite_tmp :: "bytes option"
  pd_rewrite_marker :: "bytes option"
  pd_compaction_tmp :: "bytes option"
  pd_compaction_marker :: "bytes option"

record partition_retention_status =
  prs_partition :: u32
  prs_earliest_offset :: u64
  prs_next_offset :: u64
  prs_retained_messages :: nat
  prs_retained_bytes :: u64
  prs_deleted_messages :: u64
  prs_deleted_bytes :: u64

definition INDEX_STRIDE :: u64 where
  "INDEX_STRIDE = 64"

definition MAX_PARTITION_INDEX_CACHE_BYTES :: nat where
  "MAX_PARTITION_INDEX_CACHE_BYTES = 4 * 1024 * 1024"

definition plog_segment_name :: "u64 \<Rightarrow> string" where
  "plog_segment_name i = replicate (20 - length (decimal i)) CHR ''0'' @ decimal i @ ''.plog''"

text \<open>The number of the segment that a file name denotes.\<close>

definition is_ascii_digit :: "char \<Rightarrow> bool" where
  "is_ascii_digit c \<longleftrightarrow> (let n = of_char c :: nat in 48 \<le> n \<and> n \<le> 57)"

definition plog_segment_of :: "string \<Rightarrow> u64 option" where
  "plog_segment_of name =
     (if length name = 25 \<and> drop 20 name = ''.plog'' \<and> list_all is_ascii_digit (take 20 name)
      then Some (decimal_value (take 20 name)) else None)"

definition plog_contents :: "plog_dir \<Rightarrow> u64 \<Rightarrow> bytes" where
  "plog_contents d i = (case map_of (pd_segments d) i of None \<Rightarrow> [] | Some bs \<Rightarrow> bs)"

definition plog_files :: "plog_dir \<Rightarrow> u64 \<Rightarrow> segment_files" where
  "plog_files d i = \<lparr>fl_segment = plog_contents d i, fl_sidx = map_of (pd_sidx d) i\<rparr>"

section \<open>The sparse index\<close>

fun load_entries :: "bytes \<Rightarrow> (u64 \<times> u64) list" where
  "load_entries (b0 # b1 # b2 # b3 # b4 # b5 # b6 # b7 # c0 # c1 # c2 # c3 # c4 # c5 # c6 # c7 # rest) =
     (from_le_bytes [b0, b1, b2, b3, b4, b5, b6, b7], from_le_bytes [c0, c1, c2, c3, c4, c5, c6, c7]) # load_entries rest"
| "load_entries _ = []"

definition load_sparse_index :: "plog_dir \<Rightarrow> u64 \<Rightarrow> (u64 \<times> u64) list" where
  "load_sparse_index d i = (case map_of (pd_index d) i of None \<Rightarrow> [] | Some bs \<Rightarrow> load_entries bs)"

text \<open>\<open>binary_search_by_key\<close> on offsets in ascending order: the last entry at or before the target.\<close>

definition indexed_position :: "(u64 \<times> u64) list \<Rightarrow> u64 \<Rightarrow> u64 option" where
  "indexed_position idx target =
     (case rev (filter (\<lambda>(offset, position). offset \<le> target) idx) of [] \<Rightarrow> None | (offset, position) # _ \<Rightarrow> Some position)"

definition index_entry :: "u64 \<Rightarrow> u64 \<Rightarrow> bytes" where
  "index_entry offset position = to_le_bytes 8 offset @ to_le_bytes 8 position"

definition append_index :: "u64 \<Rightarrow> u64 \<Rightarrow> u64 \<Rightarrow> plog_dir \<Rightarrow> plog_dir" where
  "append_index i offset position d =
     d\<lparr>pd_index := bt_insert i ((case map_of (pd_index d) i of None \<Rightarrow> [] | Some bs \<Rightarrow> bs) @ index_entry offset position) (pd_index d)\<rparr>"

function index_entries ::
  "log_codec \<Rightarrow> key_ring option \<Rightarrow> string \<Rightarrow> u32 \<Rightarrow> bytes \<Rightarrow> u64 \<Rightarrow> io_error + bytes" where
  "index_entries lc ring stream p input position =
     (case read_batch_with_key lc ring input of
        (Err e, _) \<Rightarrow> Err e
      | (Ok None, _) \<Rightarrow> Ok []
      | (Ok (Some (e, n)), rest) \<Rightarrow>
          map_ok (\<lambda>entries. (if en_stream e = stream \<and> en_partition e = p \<and> en_offset e mod INDEX_STRIDE = 0
                              then index_entry (en_offset e) position else []) @ entries)
            (index_entries lc ring stream p rest (position + n)))"
  by pat_completeness auto
termination
  by (relation "measure (\<lambda>(lc, ring, stream, p, input, position). length input)") (auto dest: read_batch_shrinks [OF sym])

declare index_entries.simps [simp del]

definition io_message :: "io_error \<Rightarrow> string" where
  "io_message e = (case e of UnexpectedEof m \<Rightarrow> m | InvalidData m \<Rightarrow> m)"

definition rebuild_index ::
  "log_codec \<Rightarrow> key_ring option \<Rightarrow> string \<Rightarrow> u32 \<Rightarrow> u64 \<Rightarrow> plog_dir \<Rightarrow> plog_dir result" where
  "rebuild_index lc ring stream p i d =
     and_then (validate_segment_header (plog_segment_name i) (plog_contents d i)) (\<lambda>rest.
       case index_entries lc ring stream p rest SEGMENT_HEADER_LEN of
         Err e \<Rightarrow> Err (io_message e)
       | Ok entries \<Rightarrow> Ok (d\<lparr>pd_index := bt_insert i entries (pd_index d)\<rparr>))"

section \<open>Pending rewrites and compactions\<close>

definition remove_segment_files :: "u64 \<Rightarrow> plog_dir \<Rightarrow> plog_dir" where
  "remove_segment_files i d =
     d\<lparr>pd_segments := bt_remove i (pd_segments d), pd_index := bt_remove i (pd_index d), pd_sidx := bt_remove i (pd_sidx d)\<rparr>"

definition persist_retention_offset :: "u64 \<Rightarrow> plog_dir \<Rightarrow> plog_dir" where
  "persist_retention_offset next_offset d = d\<lparr>pd_retention_offset := Some (to_le_bytes 8 next_offset)\<rparr>"

definition read_retention_offset :: "plog_dir \<Rightarrow> u64 result" where
  "read_retention_offset d =
     (case pd_retention_offset d of
        None \<Rightarrow> Ok 0
      | Some bs \<Rightarrow> if length bs = 8 then Ok (from_le_bytes bs) else Err ''invalid partition retention offset'')"

text \<open>The loop that writes the records to a temporary file: what it has written, also when it fails.\<close>

fun write_batches :: "log_codec \<Rightarrow> key_ring option \<Rightarrow> message_envelope list \<Rightarrow> unit result \<times> bytes" where
  "write_batches lc ring [] = (Ok (), [])"
| "write_batches lc ring (e # es) =
     (case encode_for_log lc ring e of
        Err m \<Rightarrow> (Err m, [])
      | Ok (batch, _) \<Rightarrow> (let (r, rest) = write_batches lc ring es in (r, batch @ rest)))"

definition stage_rewrite ::
  "log_codec \<Rightarrow> key_ring option \<Rightarrow> message_envelope list \<Rightarrow> u64 \<Rightarrow> plog_dir \<Rightarrow> unit result \<times> plog_dir" where
  "stage_rewrite lc ring records next_offset d =
     (if \<not> sorted_wrt (<) (map en_offset records) then (Err ''partition rewrite offsets are not strictly increasing'', d)
      else if records \<noteq> [] \<and> \<not> en_offset (last records) < next_offset
      then (Err ''partition rewrite next offset does not exceed retained offsets'', d)
      else
        let (written, bs) = write_batches lc ring records; d = d\<lparr>pd_rewrite_tmp := Some (SEGMENT_HEADER @ bs)\<rparr>
        in case written of
             Err m \<Rightarrow> (Err m, d)
           | Ok _ \<Rightarrow> (Ok (), d\<lparr>pd_rewrite_marker := Some (to_le_bytes 8 next_offset)\<rparr>))"

definition install_pending_rewrite :: "plog_dir \<Rightarrow> unit result \<times> plog_dir" where
  "install_pending_rewrite d =
     (case pd_rewrite_marker d of
        None \<Rightarrow> (Ok (), d)
      | Some marker \<Rightarrow>
         if length marker \<noteq> 8 then (Err ''invalid partition rewrite marker'', d)
         else
           let next_offset = from_le_bytes marker
           in case pd_rewrite_tmp d of
                Some tmp \<Rightarrow>
                  (let d = fold remove_segment_files (bt_keys (pd_segments d)) d;
                       d = d\<lparr>pd_segments := bt_insert 1 tmp (pd_segments d), pd_rewrite_tmp := None\<rparr>
                   in (Ok (), (persist_retention_offset next_offset d)\<lparr>pd_rewrite_marker := None\<rparr>))
              | None \<Rightarrow>
                  if \<not> bt_contains 1 (pd_segments d) then (Err ''partition rewrite data is missing'', d)
                  else
                    let d = fold remove_segment_files (filter (\<lambda>i. i \<noteq> 1) (bt_keys (pd_segments d))) d
                    in (Ok (), (persist_retention_offset next_offset d)\<lparr>pd_rewrite_marker := None\<rparr>))"

definition stage_segment_compaction ::
  "log_codec \<Rightarrow> key_ring option \<Rightarrow> u64 \<Rightarrow> message_envelope list \<Rightarrow> plog_dir \<Rightarrow> unit result \<times> plog_dir" where
  "stage_segment_compaction lc ring i records d =
     (let (written, bs) = write_batches lc ring records; d = d\<lparr>pd_compaction_tmp := Some (SEGMENT_HEADER @ bs)\<rparr>
      in case written of
           Err m \<Rightarrow> (Err m, d)
         | Ok _ \<Rightarrow> (Ok (), d\<lparr>pd_compaction_marker := Some (bytes_of_string (plog_segment_name i))\<rparr>))"

text \<open>
  Only \<open>stage_segment_compaction\<close> writes the marker: its name is a segment's, or after a crash a prefix
  of one. The empty name denotes the directory, over which a file cannot be renamed; a file with
  another such name is never read.
\<close>

definition install_pending_segment_compaction :: "plog_dir \<Rightarrow> unit result \<times> plog_dir" where
  "install_pending_segment_compaction d =
     (case pd_compaction_marker d of
        None \<Rightarrow> (Ok (), d)
      | Some marker \<Rightarrow>
         (case from_utf8 marker of
            None \<Rightarrow> (Err ''invalid partition compaction marker'', d)
          | Some target \<Rightarrow>
             (case pd_compaction_tmp d of
                None \<Rightarrow> (Ok (), d\<lparr>pd_compaction_marker := None\<rparr>)
              | Some tmp \<Rightarrow>
                 if target = [] then (Err ''Is a directory'', d)
                 else case plog_segment_of target of
                   None \<Rightarrow> (Ok (), d\<lparr>pd_compaction_tmp := None, pd_compaction_marker := None\<rparr>)
                 | Some i \<Rightarrow>
                     (Ok (), d\<lparr>pd_index := bt_remove i (pd_index d), pd_sidx := bt_remove i (pd_sidx d),
                               pd_segments := bt_insert i tmp (pd_segments d), pd_compaction_tmp := None,
                               pd_compaction_marker := None\<rparr>))))"

section \<open>Opening\<close>

record open_state =
  os_dir :: plog_dir
  os_replay :: replay_state
  os_truncations :: u64
  os_sealed :: "subject_segment list"
  os_active_subjects :: "(string \<times> u64) list"
  os_cache_bytes :: nat
  os_ranges :: "segment_range list"

definition range_of :: "u64 \<Rightarrow> message_envelope list \<Rightarrow> (u64 \<times> u64) list \<Rightarrow> segment_range list" where
  "range_of i es idx =
     (if es = [] then []
      else [\<lparr>sgr_segment = i, sgr_first_offset = en_offset (hd es), sgr_last_offset = en_offset (last es), sgr_sparse_index = idx\<rparr>])"

text \<open>\<open>rebuild\<close> of a new subject segment for a sealed segment: the memory it takes, the segment and the directory.\<close>

definition seal_subjects ::
  "(subject_index_file, bytes) snapshot_codec \<Rightarrow> nat \<Rightarrow> u64 \<Rightarrow> (string \<times> u64) list \<Rightarrow> plog_dir \<Rightarrow> nat \<times> subject_segment \<times> plog_dir" where
  "seal_subjects cd budget i subjects d =
     (let (cached, seg, files) = segment_rebuild cd budget (segment_new (plog_segment_name i) subjects) (plog_files d i)
      in (cached, seg, d\<lparr>pd_sidx := (case fl_sidx files of None \<Rightarrow> bt_remove i (pd_sidx d) | Some body \<Rightarrow> bt_insert i body (pd_sidx d))\<rparr>))"

text \<open>The body of the loop over the segments in \<open>open\<close>.\<close>

definition open_segment ::
  "log_codec \<Rightarrow> key_ring option \<Rightarrow> (subject_index_file, bytes) snapshot_codec \<Rightarrow> string \<Rightarrow> u32 \<Rightarrow> bool \<Rightarrow> u64 \<Rightarrow> open_state
     \<Rightarrow> unit result \<times> open_state" where
  "open_segment lc ring cd stream p active i st =
     (case replay_segment lc ring (plog_segment_name i) active stream p (plog_contents (os_dir st) i) (os_replay st) of
        (Err e, replay, contents) \<Rightarrow> (Err e, st)
      | (Ok repaired, replay, contents) \<Rightarrow>
         (let d = (os_dir st)\<lparr>pd_segments := bt_insert i contents (pd_segments (os_dir st))\<rparr>;
              indexed = (if repaired > 0 \<or> \<not> bt_contains i (pd_index d) then rebuild_index lc ring stream p i d else Ok d)
          in case indexed of
               Err e \<Rightarrow> (Err e, st\<lparr>os_dir := d\<rparr>)
             | Ok d \<Rightarrow>
                (let new = drop (length (rp_envelopes (os_replay st))) (rp_envelopes replay);
                     st = st\<lparr>os_dir := d, os_replay := replay, os_truncations := os_truncations st + repaired,
                             os_ranges := os_ranges st @ range_of i new (load_sparse_index d i)\<rparr>
                 in if active then (Ok (), st\<lparr>os_active_subjects := subject_records new\<rparr>)
                    else
                      let (cached, seg, d) =
                            seal_subjects cd (MAX_PARTITION_INDEX_CACHE_BYTES - os_cache_bytes st) i (subject_records new) (os_dir st)
                      in (Ok (), st\<lparr>os_dir := d, os_cache_bytes := os_cache_bytes st + cached, os_sealed := os_sealed st @ [seg]\<rparr>))))"

fun open_segments ::
  "log_codec \<Rightarrow> key_ring option \<Rightarrow> (subject_index_file, bytes) snapshot_codec \<Rightarrow> string \<Rightarrow> u32 \<Rightarrow> u64 list \<Rightarrow> open_state
     \<Rightarrow> unit result \<times> open_state" where
  "open_segments lc ring cd stream p [] st = (Ok (), st)"
| "open_segments lc ring cd stream p (i # is') st =
     (case open_segment lc ring cd stream p (is' = []) i st of
        (Err e, st) \<Rightarrow> (Err e, st)
      | (Ok _, st) \<Rightarrow> open_segments lc ring cd stream p is' st)"

definition plog_open ::
  "log_codec \<Rightarrow> key_ring option \<Rightarrow> (subject_index_file, bytes) snapshot_codec \<Rightarrow> string \<Rightarrow> u32 \<Rightarrow> u64 \<Rightarrow> plog_dir
     \<Rightarrow> (partition_log \<times> message_envelope list \<times> u64) result \<times> plog_dir" where
  "plog_open lc ring cd stream p segment_bytes d =
     (case install_pending_rewrite d of
        (Err e, d) \<Rightarrow> (Err e, d)
      | (Ok _, d) \<Rightarrow>
     (case install_pending_segment_compaction d of
        (Err e, d) \<Rightarrow> (Err e, d)
      | (Ok _, d) \<Rightarrow>
         (let d = (if pd_segments d = [] then d\<lparr>pd_segments := [(1, SEGMENT_HEADER)]\<rparr> else d);
              ids = bt_keys (pd_segments d);
              st = \<lparr>os_dir = d, os_replay = empty_replay, os_truncations = 0, os_sealed = [], os_active_subjects = [],
                    os_cache_bytes = 0, os_ranges = []\<rparr>
          in case open_segments lc ring cd stream p ids st of
               (Err e, st) \<Rightarrow> (Err e, os_dir st)
             | (Ok _, st) \<Rightarrow>
                (let envelopes = sort_key en_offset (rp_envelopes (os_replay st)); d = os_dir st
                 in if \<not> sorted_wrt (<) (map en_offset envelopes) then (Err ''partition offsets are not strictly increasing'', d)
                    else case read_retention_offset d of
                      Err e \<Rightarrow> (Err e, d)
                    | Ok persisted \<Rightarrow>
                        (Ok (\<lparr>pl_stream = stream, pl_partition = p, pl_file = True, pl_segment_id = last ids,
                              pl_active_bytes = length (plog_contents d (last ids)), pl_segment_bytes = segment_bytes,
                              pl_next_offset = (if envelopes = [] then persisted
                                                else max persisted (sat_add64 (en_offset (last envelopes)) 1)),
                              pl_segment_ranges = os_ranges st, pl_sealed_subject_segments = os_sealed st,
                              pl_active_subjects = os_active_subjects st, pl_subject_index_cache_bytes = os_cache_bytes st,
                              pl_retention_records = rp_retention_records (os_replay st),
                              pl_retained_bytes = rp_retained_bytes (os_replay st), pl_deleted_messages = 0, pl_deleted_bytes = 0,
                              pl_encryption = ring\<rparr>, envelopes, os_truncations st), d)))))"

section \<open>Reading\<close>

fun read_ranges ::
  "log_codec \<Rightarrow> key_ring option \<Rightarrow> plog_dir \<Rightarrow> u64 \<Rightarrow> segment_range list \<Rightarrow> message_envelope option result" where
  "read_ranges lc ring d offset [] = Ok None"
| "read_ranges lc ring d offset (rg # ranges) =
     (if offset < sgr_first_offset rg \<or> offset > sgr_last_offset rg then read_ranges lc ring d offset ranges
      else
        let contents = plog_contents d (sgr_segment rg)
        in and_then (validate_segment_header (plog_segment_name (sgr_segment rg)) contents) (\<lambda>_.
             let position = (case indexed_position (sgr_sparse_index rg) offset of None \<Rightarrow> SEGMENT_HEADER_LEN | Some pos \<Rightarrow> pos)
             in case find_offset lc ring offset (drop position contents) of
                  Err e \<Rightarrow> Err (io_message e)
                | Ok (Some e) \<Rightarrow> Ok (Some e)
                | Ok None \<Rightarrow> read_ranges lc ring d offset ranges))"

definition read_offset :: "log_codec \<Rightarrow> partition_log \<Rightarrow> plog_dir \<Rightarrow> u64 \<Rightarrow> message_envelope option result" where
  "read_offset lc log d offset = read_ranges lc (pl_encryption log) d offset (pl_segment_ranges log)"

definition plog_matching_offsets ::
  "log_codec \<Rightarrow> (subject_index_file, bytes) snapshot_codec \<Rightarrow> partition_log \<Rightarrow> plog_dir \<Rightarrow> string \<Rightarrow> subject_index_query result" where
  "plog_matching_offsets lc cd log d filter_subject =
     log_matching_offsets lc (pl_encryption log) cd
       \<lparr>il_sealed = map (\<lambda>seg. (seg, plog_files d (the (plog_segment_of (sg_path seg))))) (pl_sealed_subject_segments log),
        il_active_subjects = pl_active_subjects log\<rparr> filter_subject"

section \<open>Appending\<close>

definition plog_flush :: "partition_log \<Rightarrow> partition_log" where
  "plog_flush log = log"

definition release_resources :: "partition_log \<Rightarrow> partition_log" where
  "release_resources log = (plog_flush log)\<lparr>pl_file := False\<rparr>"

definition update_range :: "u64 \<Rightarrow> (segment_range \<Rightarrow> segment_range) \<Rightarrow> segment_range list \<Rightarrow> segment_range list" where
  "update_range i f ranges =
     (case dropWhile (\<lambda>r. sgr_segment r \<noteq> i) ranges of
        [] \<Rightarrow> ranges
      | r # rest \<Rightarrow> takeWhile (\<lambda>r. sgr_segment r \<noteq> i) ranges @ f r # rest)"

definition plog_rotate ::
  "(subject_index_file, bytes) snapshot_codec \<Rightarrow> partition_log \<Rightarrow> plog_dir \<Rightarrow> unit result \<times> partition_log \<times> plog_dir" where
  "plog_rotate cd log d =
     (let i = pl_segment_id log;
          (cached, seg, d) =
            seal_subjects cd (MAX_PARTITION_INDEX_CACHE_BYTES - pl_subject_index_cache_bytes log) i (pl_active_subjects log) d;
          log = log\<lparr>pl_active_subjects := [], pl_subject_index_cache_bytes := pl_subject_index_cache_bytes log + cached,
                    pl_segment_ranges := update_range i (\<lambda>r. r\<lparr>sgr_sparse_index := load_sparse_index d i\<rparr>) (pl_segment_ranges log),
                    pl_sealed_subject_segments := pl_sealed_subject_segments log @ [seg]\<rparr>
      in if i \<ge> u64_max then (Err ''attempt to add with overflow'', log, d)
         else
           let log = log\<lparr>pl_segment_id := i + 1\<rparr>
           in if bt_contains (i + 1) (pd_segments d) then (Err ''creating partition-log segment'', log, d)
              else (Ok (), log\<lparr>pl_file := True, pl_active_bytes := SEGMENT_HEADER_LEN\<rparr>,
                    d\<lparr>pd_segments := bt_insert (i + 1) SEGMENT_HEADER (pd_segments d)\<rparr>))"

text \<open>The bookkeeping of \<open>append_committed\<close> behind the write: \<open>position\<close> is where the batch begins.\<close>

definition note_append ::
  "message_envelope \<Rightarrow> u64 \<Rightarrow> u64 \<Rightarrow> partition_log \<Rightarrow> plog_dir \<Rightarrow> partition_log \<times> plog_dir" where
  "note_append e bytes position log d =
     (let i = pl_segment_id log; offset = en_offset e;
          ranges = pl_segment_ranges log;
          ranges = (if list_ex (\<lambda>r. sgr_segment r = i) ranges then update_range i (\<lambda>r. r\<lparr>sgr_last_offset := offset\<rparr>) ranges
                    else ranges @ [\<lparr>sgr_segment = i, sgr_first_offset = offset, sgr_last_offset = offset,
                                    sgr_sparse_index = load_sparse_index d i\<rparr>]);
          log = log\<lparr>pl_active_bytes := pl_active_bytes log + bytes, pl_next_offset := pl_next_offset log + 1,
                    pl_retained_bytes := sat_add64 (pl_retained_bytes log) bytes,
                    pl_retention_records := pl_retention_records log
                      @ [\<lparr>rr_offset = offset, rr_timestamp_ms = en_timestamp_ms e, rr_bytes = bytes\<rparr>],
                    pl_segment_ranges := ranges, pl_active_subjects := pl_active_subjects log @ [(en_subject e, offset)]\<rparr>
      in if offset mod INDEX_STRIDE = 0
         then (log\<lparr>pl_segment_ranges :=
                 update_range i (\<lambda>r. r\<lparr>sgr_sparse_index := sgr_sparse_index r @ [(offset, position)]\<rparr>) (pl_segment_ranges log)\<rparr>,
               append_index i offset position d)
         else (log, d))"

definition append_new ::
  "log_codec \<Rightarrow> (subject_index_file, bytes) snapshot_codec \<Rightarrow> message_envelope \<Rightarrow> partition_log \<Rightarrow> plog_dir
     \<Rightarrow> message_envelope result \<times> partition_log \<times> plog_dir" where
  "append_new lc cd e log d =
     (case encode_for_log lc (pl_encryption log) e of
        Err m \<Rightarrow> (Err m, log, d)
      | Ok (batch, bytes) \<Rightarrow>
         (let (rotated, log, d) =
                (if pl_active_bytes log > SEGMENT_HEADER_LEN \<and> sat_add64 (pl_active_bytes log) bytes > pl_segment_bytes log
                 then plog_rotate cd log d else (Ok (), log, d))
          in case rotated of
               Err m \<Rightarrow> (Err m, log, d)
             | Ok _ \<Rightarrow>
                (let log = log\<lparr>pl_file := True\<rparr>;
                     d = d\<lparr>pd_segments := bt_update (pl_segment_id log) (\<lambda>old. old @ batch) (pd_segments d)\<rparr>
                 in if pl_active_bytes log + bytes > u64_max \<or> pl_next_offset log \<ge> u64_max
                    then (Err ''attempt to add with overflow'', log, d)
                    else let (log, d) = note_append e bytes (pl_active_bytes log) log d in (Ok e, log, d))))"

definition plog_append_committed ::
  "log_codec \<Rightarrow> (subject_index_file, bytes) snapshot_codec \<Rightarrow> message_envelope \<Rightarrow> partition_log \<Rightarrow> plog_dir
     \<Rightarrow> message_envelope result \<times> partition_log \<times> plog_dir" where
  "plog_append_committed lc cd e log d =
     (if en_offset e < pl_next_offset log
      then case and_then (read_offset lc log d (en_offset e)) (\<lambda>existing.
                and_then (case existing of None \<Rightarrow> Ok None | Some x \<Rightarrow> map_ok Some (envelope_checksum lc x)) (\<lambda>stored.
                  map_ok (\<lambda>sum. stored = Some sum) (envelope_checksum lc e))) of
             Err m \<Rightarrow> (Err m, log, d)
           | Ok same \<Rightarrow>
               if same then (Ok e, log, d)
               else (Err ''partition-log append conflicts with an immutable committed record'', log, d)
      else if en_offset e \<noteq> pl_next_offset log then (Err ''partition-log append creates an offset gap'', log, d)
      else append_new lc cd e log d)"

definition plog_append ::
  "log_codec \<Rightarrow> (subject_index_file, bytes) snapshot_codec \<Rightarrow> message_envelope \<Rightarrow> partition_log \<Rightarrow> plog_dir
     \<Rightarrow> message_envelope result \<times> partition_log \<times> plog_dir" where
  "plog_append lc cd e log d = plog_append_committed lc cd (e\<lparr>en_offset := pl_next_offset log\<rparr>) log d"

section \<open>Retention\<close>

definition earliest_offset :: "partition_log \<Rightarrow> u64" where
  "earliest_offset log = (case pl_retention_records log of [] \<Rightarrow> pl_next_offset log | r # _ \<Rightarrow> rr_offset r)"

definition remove_oldest_retention_record :: "partition_log \<Rightarrow> partition_log" where
  "remove_oldest_retention_record log =
     (case pl_retention_records log of
        [] \<Rightarrow> log
      | r # rs \<Rightarrow> log\<lparr>pl_retention_records := rs, pl_retained_bytes := pl_retained_bytes log - rr_bytes r,
                    pl_deleted_messages := sat_add64 (pl_deleted_messages log) 1,
                    pl_deleted_bytes := sat_add64 (pl_deleted_bytes log) (rr_bytes r)\<rparr>)"

text \<open>The two loops, over the records they may remove.\<close>

fun remove_aged :: "u64 \<Rightarrow> u64 \<Rightarrow> retention_record list \<Rightarrow> partition_log \<Rightarrow> partition_log" where
  "remove_aged now max_age [] log = log"
| "remove_aged now max_age (r # rs) log =
     (if now - rr_timestamp_ms r > max_age then remove_aged now max_age rs (remove_oldest_retention_record log) else log)"

fun remove_excess :: "u64 \<Rightarrow> retention_record list \<Rightarrow> partition_log \<Rightarrow> partition_log" where
  "remove_excess max_bytes [] log = log"
| "remove_excess max_bytes (r # rs) log =
     (if pl_retained_bytes log > max_bytes then remove_excess max_bytes rs (remove_oldest_retention_record log) else log)"

definition plog_enforce_retention :: "retention_policy \<Rightarrow> u64 \<Rightarrow> partition_log \<Rightarrow> u64 option \<times> partition_log" where
  "plog_enforce_retention policy now log =
     (let before = earliest_offset log;
          log = (case rp_max_age_ms policy of None \<Rightarrow> log | Some a \<Rightarrow> remove_aged now a (pl_retention_records log) log);
          log = (case rp_max_bytes policy of None \<Rightarrow> log | Some b \<Rightarrow> remove_excess b (pl_retention_records log) log);
          after = earliest_offset log
      in (if after \<noteq> before then Some after else None, log))"

definition plog_retention_status :: "u32 \<Rightarrow> partition_log \<Rightarrow> partition_retention_status" where
  "plog_retention_status p log =
     \<lparr>prs_partition = p, prs_earliest_offset = earliest_offset log, prs_next_offset = pl_next_offset log,
      prs_retained_messages = length (pl_retention_records log), prs_retained_bytes = pl_retained_bytes log,
      prs_deleted_messages = pl_deleted_messages log, prs_deleted_bytes = pl_deleted_bytes log\<rparr>"

definition plog_rewrite ::
  "log_codec \<Rightarrow> (subject_index_file, bytes) snapshot_codec \<Rightarrow> message_envelope list \<Rightarrow> u64 option \<Rightarrow> partition_log \<Rightarrow> plog_dir
     \<Rightarrow> unit result \<times> partition_log \<times> plog_dir" where
  "plog_rewrite lc cd records next_offset_floor log d =
     (let log = plog_flush log;
          next_offset = max (if records = [] then 0 else sat_add64 (en_offset (last records)) 1)
                          (case next_offset_floor of None \<Rightarrow> 0 | Some n \<Rightarrow> n)
      in case stage_rewrite lc (pl_encryption log) records next_offset d of
           (Err m, d) \<Rightarrow> (Err m, log, d)
         | (Ok _, d) \<Rightarrow>
        (case install_pending_rewrite d of
           (Err m, d) \<Rightarrow> (Err m, log, d)
         | (Ok _, d) \<Rightarrow>
            (case plog_open lc (pl_encryption log) cd (pl_stream log) (pl_partition log) (pl_segment_bytes log) d of
               (Err m, d) \<Rightarrow> (Err m, log, d)
             | (Ok (replacement, _, _), d) \<Rightarrow>
                 (Ok (), replacement\<lparr>pl_deleted_messages := pl_deleted_messages log, pl_deleted_bytes := pl_deleted_bytes log\<rparr>, d))))"

fun read_present ::
  "log_codec \<Rightarrow> partition_log \<Rightarrow> plog_dir \<Rightarrow> u64 list \<Rightarrow> message_envelope list result" where
  "read_present lc log d [] = Ok []"
| "read_present lc log d (offset # offsets) =
     and_then (read_offset lc log d offset) (\<lambda>found.
       map_ok (\<lambda>rest. (case found of None \<Rightarrow> rest | Some e \<Rightarrow> e # rest)) (read_present lc log d offsets))"

definition advance_retention_floor ::
  "log_codec \<Rightarrow> (subject_index_file, bytes) snapshot_codec \<Rightarrow> u64 \<Rightarrow> partition_log \<Rightarrow> plog_dir
     \<Rightarrow> unit result \<times> partition_log \<times> plog_dir" where
  "advance_retention_floor lc cd earliest log d =
     (if earliest > pl_next_offset log then (Ok (), log, d)
      else case read_present lc log d [earliest..<pl_next_offset log] of
        Err m \<Rightarrow> (Err m, log, d)
      | Ok retained \<Rightarrow> plog_rewrite lc cd retained (Some earliest) log d)"

section \<open>Compaction\<close>

text \<open>The work of one round on the range with number \<open>n\<close>, whose segment keeps only \<open>retained\<close>.\<close>

definition compact_range ::
  "log_codec \<Rightarrow> (subject_index_file, bytes) snapshot_codec \<Rightarrow> nat \<Rightarrow> message_envelope list \<Rightarrow> partition_log \<Rightarrow> plog_dir
     \<Rightarrow> unit result \<times> partition_log \<times> plog_dir" where
  "compact_range lc cd n retained log d =
     (let rg = pl_segment_ranges log ! n; i = sgr_segment rg; ring = pl_encryption log
      in case stage_segment_compaction lc ring i retained d of
           (Err m, d) \<Rightarrow> (Err m, log, d)
         | (Ok _, d) \<Rightarrow>
        (case install_pending_segment_compaction d of
           (Err m, d) \<Rightarrow> (Err m, log, d)
         | (Ok _, d) \<Rightarrow>
        (case rebuild_index lc ring (pl_stream log) (pl_partition log) i d of
           Err m \<Rightarrow> (Err m, log, d)
         | Ok d \<Rightarrow>
            (let kept = (\<lambda>r. rr_offset r \<in> set (map en_offset retained));
                 gone = filter (\<lambda>r. rr_offset r \<ge> sgr_first_offset rg \<and> rr_offset r \<le> sgr_last_offset rg \<and> \<not> kept r)
                          (pl_retention_records log);
                 old_bytes = sum_list (map rr_bytes gone);
                 log = log\<lparr>pl_retention_records :=
                           filter (\<lambda>r. kept r \<or> rr_offset r < sgr_first_offset rg \<or> rr_offset r > sgr_last_offset rg)
                             (pl_retention_records log),
                         pl_retained_bytes := pl_retained_bytes log - old_bytes,
                         pl_deleted_messages := sat_add64 (pl_deleted_messages log) (length gone),
                         pl_deleted_bytes := sat_add64 (pl_deleted_bytes log) old_bytes\<rparr>
             in if retained = []
                then (Ok (),
                      log\<lparr>pl_segment_ranges := take n (pl_segment_ranges log) @ drop (n + 1) (pl_segment_ranges log),
                          pl_sealed_subject_segments :=
                            filter (\<lambda>seg. sg_path seg \<noteq> plog_segment_name i) (pl_sealed_subject_segments log)\<rparr>,
                      remove_segment_files i d)
                else
                  let log = log\<lparr>pl_segment_ranges := (pl_segment_ranges log)[n :=
                              rg\<lparr>sgr_first_offset := en_offset (hd retained), sgr_last_offset := en_offset (last retained),
                                    sgr_sparse_index := load_sparse_index d i\<rparr>]\<rparr>
                  in if list_ex (\<lambda>seg. sg_path seg = plog_segment_name i) (pl_sealed_subject_segments log)
                     then let (cached, seg, d) = seal_subjects cd 0 i (subject_records retained) d
                          in (Ok (),
                              log\<lparr>pl_sealed_subject_segments :=
                                map (\<lambda>old. if sg_path old = plog_segment_name i then seg else old) (pl_sealed_subject_segments log)\<rparr>, d)
                     else (Ok (), log, d)))))"

fun compact_from ::
  "log_codec \<Rightarrow> (subject_index_file, bytes) snapshot_codec \<Rightarrow> u64 set \<Rightarrow> nat list \<Rightarrow> partition_log \<Rightarrow> plog_dir
     \<Rightarrow> bool result \<times> partition_log \<times> plog_dir" where
  "compact_from lc cd visible [] log d = (Ok False, log, d)"
| "compact_from lc cd visible (n # ns) log d =
     (let i = sgr_segment (pl_segment_ranges log ! n)
      in case read_segment_records lc (pl_encryption log) (plog_segment_name i) (plog_contents d i) of
           Err m \<Rightarrow> (Err m, log, d)
         | Ok records \<Rightarrow>
             (let retained = filter (\<lambda>e. en_offset e \<in> visible) records
              in if length retained = length records then compact_from lc cd visible ns log d
                 else case compact_range lc cd n retained log d of
                        (Err m, log, d) \<Rightarrow> (Err m, log, d)
                      | (Ok _, log, d) \<Rightarrow> (Ok True, log, d)))"

definition plog_compact_visible_offsets ::
  "log_codec \<Rightarrow> (subject_index_file, bytes) snapshot_codec \<Rightarrow> u64 set \<Rightarrow> partition_log \<Rightarrow> plog_dir
     \<Rightarrow> bool result \<times> partition_log \<times> plog_dir" where
  "plog_compact_visible_offsets lc cd visible log d =
     compact_from lc cd visible [0..<length (pl_segment_ranges log) - 1] log d"

end
