(* ===== verification/Partition_Log_Safety.thy ===== *)
theory Partition_Log_Safety
  imports Partition_Log
begin

text \<open>
  What a partition log promises (\<open>crates/server/src/partition_log/log.rs\<close>). A log is described by its
  chunks: for each segment file its number, the envelopes in it and their batches. The invariant
  relates the chunks to the directory, to the ranges with their sparse indexes, to the subject
  segments and to the retention records; every operation keeps it, and through it the log is a
  sequence of envelopes.
\<close>

section \<open>Chunks\<close>

type_synonym chunk = "u64 \<times> message_envelope list \<times> bytes list"

abbreviation chunk_id :: "chunk \<Rightarrow> u64" where
  "chunk_id c \<equiv> fst c"

abbreviation chunk_envelopes :: "chunk \<Rightarrow> message_envelope list" where
  "chunk_envelopes c \<equiv> fst (snd c)"

abbreviation chunk_batches :: "chunk \<Rightarrow> bytes list" where
  "chunk_batches c \<equiv> snd (snd c)"

definition chunk_contents :: "chunk \<Rightarrow> bytes" where
  "chunk_contents c = SEGMENT_HEADER @ concat (chunk_batches c)"

definition records_of :: "chunk list \<Rightarrow> message_envelope list" where
  "records_of cs = concat (map chunk_envelopes cs)"

text \<open>Every index entry is the offset of an envelope and the position of its batch.\<close>

definition index_good :: "chunk \<Rightarrow> (u64 \<times> u64) list \<Rightarrow> bool" where
  "index_good c idx \<longleftrightarrow>
     (\<forall>(offset, position)\<in>set idx. \<exists>j<length (chunk_envelopes c).
        en_offset (chunk_envelopes c ! j) = offset \<and> position = length (SEGMENT_HEADER @ concat (take j (chunk_batches c))))"

definition index_bytes :: "(u64 \<times> u64) list \<Rightarrow> bytes" where
  "index_bytes entries = concat (map (\<lambda>(offset, position). index_entry offset position) entries)"

definition index_file_good :: "chunk \<Rightarrow> bytes option \<Rightarrow> bool" where
  "index_file_good c f \<longleftrightarrow>
     (\<exists>entries. (case f of None \<Rightarrow> [] | Some bs \<Rightarrow> bs) = index_bytes entries
        \<and> list_all (\<lambda>(offset, position). offset \<le> u64_max \<and> position \<le> u64_max) entries \<and> index_good c entries)"

lemma eight_bytes: "length xs = 8 \<Longrightarrow> \<exists>b0 b1 b2 b3 b4 b5 b6 b7. xs = [b0, b1, b2, b3, b4, b5, b6, b7]"
  by (auto simp: eval_nat_numeral length_Suc_conv)

lemma load_entries_entry:
  assumes "offset \<le> u64_max" "position \<le> u64_max"
  shows "load_entries (index_entry offset position @ rest) = (offset, position) # load_entries rest"
proof -
  obtain b0 b1 b2 b3 b4 b5 b6 b7 where b: "to_le_bytes 8 offset = [b0, b1, b2, b3, b4, b5, b6, b7]"
    using eight_bytes [of "to_le_bytes 8 offset"] by auto
  obtain c0 c1 c2 c3 c4 c5 c6 c7 where c: "to_le_bytes 8 position = [c0, c1, c2, c3, c4, c5, c6, c7]"
    using eight_bytes [of "to_le_bytes 8 position"] by auto
  have "from_le_bytes (to_le_bytes 8 offset) = offset" "from_le_bytes (to_le_bytes 8 position) = position"
    using assms by (auto intro!: from_to_le_bytes u_max_less)
  then show ?thesis by (simp add: index_entry_def b c)
qed

lemma load_entries_bytes:
  "list_all (\<lambda>(offset, position). offset \<le> u64_max \<and> position \<le> u64_max) entries \<Longrightarrow> load_entries (index_bytes entries) = entries"
  by (induction entries) (auto simp: index_bytes_def load_entries_entry)

lemma index_file_loaded:
  assumes "index_file_good c (map_of (pd_index d) i)"
  shows "index_good c (load_sparse_index d i)"
proof (cases "map_of (pd_index d) i")
  case None
  then show ?thesis by (simp add: load_sparse_index_def index_good_def)
next
  case (Some bs)
  then show ?thesis using assms load_entries_bytes by (auto simp: index_file_good_def load_sparse_index_def)
qed

section \<open>Looking offsets up\<close>

lemma find_offset_stored:
  assumes "list_all2 (stored_as lc ring stream p) es bs" "ring_ok ring" "sorted_wrt (<) (map en_offset es)"
  shows "find_offset lc ring target (concat bs) = Ok (find (\<lambda>e. en_offset e = target) es)"
  using assms(1,3)
proof (induction es bs rule: list_all2_induct)
  case Nil
  show ?case by (subst find_offset.simps) (simp add: read_batch_with_key_def)
next
  case (Cons e es b bs)
  have read: "read_batch_with_key lc ring (b @ concat bs) = (Ok (Some (e, length b)), concat bs)"
    using batch_read_back [OF _ assms(2), of e lc b "length b"] Cons.hyps(1) by (simp add: stored_as_def)
  have "find (\<lambda>e. en_offset e = target) es = None" if "en_offset e > target"
    using that Cons.prems by (auto simp: find_None_iff)
  then show ?case using Cons read by (subst find_offset.simps) auto
qed

lemma find_drop:
  assumes "sorted_wrt (<) (map en_offset es)" "j < length es" "en_offset (es ! j) \<le> target"
  shows "find (\<lambda>e. en_offset e = target) (drop j es) = find (\<lambda>e. en_offset e = target) es"
proof -
  have "en_offset e \<noteq> target" if e: "e \<in> set (take j es)" for e
  proof -
    obtain k where k: "e = es ! k" "k < j" using e assms(2) by (auto simp: in_set_conv_nth)
    have "map en_offset es ! k < map en_offset es ! j" using assms(1,2) k(2) by (intro sorted_wrt_nth_less) simp_all
    then show ?thesis using k assms(2,3) by simp
  qed
  then have "find (\<lambda>e. en_offset e = target) (take j es) = None" by (auto simp: find_None_iff)
  then show ?thesis using find_append [of _ "take j es" "drop j es"] by simp
qed

lemma indexed_find:
  assumes stored: "list_all2 (stored_as lc ring stream p) (chunk_envelopes c) (chunk_batches c)" and ring: "ring_ok ring"
    and sorted: "sorted_wrt (<) (map en_offset (chunk_envelopes c))" and idx: "index_good c idx"
  shows "find_offset lc ring target
      (drop (case indexed_position idx target of None \<Rightarrow> SEGMENT_HEADER_LEN | Some pos \<Rightarrow> pos) (chunk_contents c))
    = Ok (find (\<lambda>e. en_offset e = target) (chunk_envelopes c))"
proof -
  let ?es = "chunk_envelopes c" and ?bs = "chunk_batches c"
  show ?thesis
  proof (cases "indexed_position idx target")
    case None
    then show ?thesis using find_offset_stored [OF stored ring sorted] by (simp add: chunk_contents_def SEGMENT_HEADER_LEN_def)
  next
    case (Some pos)
    then obtain offset rest where "rev (filter (\<lambda>(offset, position). offset \<le> target) idx) = (offset, pos) # rest"
      by (auto simp: indexed_position_def split: list.splits)
    then have "(offset, pos) \<in> set (rev (filter (\<lambda>(offset, position). offset \<le> target) idx))" by simp
    then have "(offset, pos) \<in> set idx" "offset \<le> target" by auto
    then obtain j where j: "j < length ?es" "en_offset (?es ! j) \<le> target" "pos = length (SEGMENT_HEADER @ concat (take j ?bs))"
      using idx by (auto simp: index_good_def)
    have "concat ?bs = concat (take j ?bs) @ concat (drop j ?bs)" by (metis append_take_drop_id concat_append)
    then have "drop pos (chunk_contents c) = concat (drop j ?bs)" using j(3) by (simp add: chunk_contents_def)
    moreover have "list_all2 (stored_as lc ring stream p) (drop j ?es) (drop j ?bs)" using stored by (rule list_all2_dropI)
    moreover have "sorted_wrt (<) (map en_offset (drop j ?es))" using sorted by (simp add: drop_map [symmetric] sorted_wrt_drop)
    ultimately show ?thesis
      using find_offset_stored [of lc ring stream p "drop j ?es" "drop j ?bs" target] ring Some find_drop [OF sorted j(1,2)] by simp
  qed
qed

section \<open>The invariant\<close>

definition chunk_ok :: "log_codec \<Rightarrow> key_ring option \<Rightarrow> string \<Rightarrow> u32 \<Rightarrow> chunk \<Rightarrow> bool" where
  "chunk_ok lc ring stream p c \<longleftrightarrow>
     chunk_id c \<le> u64_max \<and> length (chunk_contents c) \<le> u64_max
     \<and> list_all2 (stored_as lc ring stream p) (chunk_envelopes c) (chunk_batches c)"

text \<open>The directory holds the chunks, nothing is pending, and no index file outlives its segment.\<close>

definition dir_inv :: "log_codec \<Rightarrow> key_ring option \<Rightarrow> string \<Rightarrow> u32 \<Rightarrow> chunk list \<Rightarrow> plog_dir \<Rightarrow> bool" where
  "dir_inv lc ring stream p cs d \<longleftrightarrow>
     cs \<noteq> [] \<and> sorted_wrt (<) (map chunk_id cs) \<and> (\<forall>c\<in>set cs. chunk_ok lc ring stream p c)
     \<and> sorted_wrt (<) (map en_offset (records_of cs))
     \<and> pd_segments d = map (\<lambda>c. (chunk_id c, chunk_contents c)) cs
     \<and> bt_wf (pd_index d) \<and> bt_wf (pd_sidx d)
     \<and> (\<forall>c\<in>set cs. index_file_good c (map_of (pd_index d) (chunk_id c)))
     \<and> fst ` set (pd_index d) \<subseteq> chunk_id ` set cs
     \<and> pd_rewrite_marker d = None \<and> pd_compaction_marker d = None
     \<and> (\<exists>n. read_retention_offset d = Ok n)"

definition next_offset_of :: "chunk list \<Rightarrow> u64 \<Rightarrow> u64" where
  "next_offset_of cs persisted =
     (if records_of cs = [] then persisted else max persisted (sat_add64 (en_offset (last (records_of cs))) 1))"

definition range_for :: "segment_range \<Rightarrow> chunk \<Rightarrow> bool" where
  "range_for r c \<longleftrightarrow>
     sgr_segment r = chunk_id c \<and> chunk_envelopes c \<noteq> []
     \<and> sgr_first_offset r = en_offset (hd (chunk_envelopes c)) \<and> sgr_last_offset r = en_offset (last (chunk_envelopes c))
     \<and> index_good c (sgr_sparse_index r)"

definition sealed_for ::
  "log_codec \<Rightarrow> key_ring option \<Rightarrow> (subject_index_file, bytes) snapshot_codec \<Rightarrow> string \<Rightarrow> u32 \<Rightarrow> plog_dir
     \<Rightarrow> subject_segment \<Rightarrow> chunk \<Rightarrow> bool" where
  "sealed_for lc ring cd stream p d seg c \<longleftrightarrow>
     sg_path seg = plog_segment_name (chunk_id c)
     \<and> segment_holds lc ring cd stream p (seg, plog_files d (chunk_id c)) (chunk_envelopes c)"

definition non_empty :: "chunk list \<Rightarrow> chunk list" where
  "non_empty cs = filter (\<lambda>c. chunk_envelopes c \<noteq> []) cs"

definition log_inv ::
  "log_codec \<Rightarrow> (subject_index_file, bytes) snapshot_codec \<Rightarrow> chunk list \<Rightarrow> partition_log \<Rightarrow> plog_dir \<Rightarrow> bool" where
  "log_inv lc cd cs log d \<longleftrightarrow>
     pl_segment_id log = chunk_id (last cs) \<and> pl_active_bytes log = length (chunk_contents (last cs))
     \<and> (\<exists>n. read_retention_offset d = Ok n \<and> pl_next_offset log = next_offset_of cs n)
     \<and> list_all2 range_for (pl_segment_ranges log) (non_empty cs)
     \<and> list_all2 (sealed_for lc (pl_encryption log) cd (pl_stream log) (pl_partition log) d)
         (pl_sealed_subject_segments log) (butlast cs)
     \<and> pl_active_subjects log = subject_records (chunk_envelopes (last cs))"

definition plog_inv ::
  "log_codec \<Rightarrow> (subject_index_file, bytes) snapshot_codec \<Rightarrow> chunk list \<Rightarrow> partition_log \<Rightarrow> plog_dir \<Rightarrow> bool" where
  "plog_inv lc cd cs log d \<longleftrightarrow>
     ring_ok (pl_encryption log) \<and> snapshot_ok cd
     \<and> dir_inv lc (pl_encryption log) (pl_stream log) (pl_partition log) cs d \<and> log_inv lc cd cs log d"

lemma records_of_simps [simp]:
  "records_of [] = []" "records_of (c # cs) = chunk_envelopes c @ records_of cs"
  "records_of (cs @ cs') = records_of cs @ records_of cs'"
  by (simp_all add: records_of_def)

lemma records_of_non_empty [simp]: "records_of (non_empty cs) = records_of cs"
  by (induction cs) (simp_all add: non_empty_def)

lemma non_empty_append: "non_empty (cs @ cs') = non_empty cs @ non_empty cs'"
  by (simp add: non_empty_def)

lemma contents_of_chunk:
  assumes "dir_inv lc ring stream p cs d" "c \<in> set cs"
  shows "plog_contents d (chunk_id c) = chunk_contents c"
proof -
  have "sorted_wrt (<) (map chunk_id cs)" "pd_segments d = map (\<lambda>c. (chunk_id c, chunk_contents c)) cs"
    using assms(1) by (simp_all add: dir_inv_def)
  moreover have "distinct (map chunk_id cs)" using calculation(1) by (simp add: strict_sorted_iff)
  ultimately have "map_of (pd_segments d) (chunk_id c) = Some (chunk_contents c)"
    using assms(2) by (intro map_of_is_SomeI) (simp_all add: comp_def)
  then show ?thesis by (simp add: plog_contents_def)
qed

section \<open>Reads\<close>

lemma sorted_offset_bounds:
  assumes "sorted_wrt (<) (map en_offset es)" "e \<in> set es"
  shows "en_offset (hd es) \<le> en_offset e \<and> en_offset e \<le> en_offset (last es)"
  using assms by (induction es) (auto simp: less_imp_le)

lemma read_ranges_find:
  assumes "list_all2 range_for ranges cs" "ring_ok ring"
    and "\<And>c. c \<in> set cs \<Longrightarrow> chunk_ok lc ring stream p c \<and> plog_contents d (chunk_id c) = chunk_contents c"
    and "sorted_wrt (<) (map en_offset (records_of cs))"
  shows "read_ranges lc ring d target ranges = Ok (find (\<lambda>e. en_offset e = target) (records_of cs))"
  using assms(1,3,4)
proof (induction ranges cs rule: list_all2_induct)
  case Nil
  show ?case by simp
next
  case (Cons r ranges c cs)
  let ?es = "chunk_envelopes c"
  have r: "range_for r c" by fact
  have ok: "chunk_ok lc ring stream p c" "plog_contents d (chunk_id c) = chunk_contents c" using Cons.prems(1) [of c] by simp_all
  have sorted: "sorted_wrt (<) (map en_offset ?es)" using Cons.prems(2) by (simp add: sorted_wrt_append)
  have rest: "read_ranges lc ring d target ranges = Ok (find (\<lambda>e. en_offset e = target) (records_of cs))"
    using Cons.prems by (intro Cons.IH) (simp_all add: sorted_wrt_append)
  show ?case
  proof (cases "target < sgr_first_offset r \<or> target > sgr_last_offset r")
    case True
    then have "find (\<lambda>e. en_offset e = target) ?es = None"
      using r sorted_offset_bounds [OF sorted] by (fastforce simp: find_None_iff range_for_def)
    then show ?thesis using True rest by (simp add: find_append)
  next
    case False
    have "find_offset lc ring target
        (drop (case indexed_position (sgr_sparse_index r) target of None \<Rightarrow> SEGMENT_HEADER_LEN | Some pos \<Rightarrow> pos) (chunk_contents c))
      = Ok (find (\<lambda>e. en_offset e = target) ?es)"
      using r ok sorted assms(2) by (intro indexed_find [where stream = stream and p = p]) (simp_all add: range_for_def chunk_ok_def)
    moreover have "validate_segment_header path (chunk_contents c) = Ok (concat (chunk_batches c))" for path
      by (simp add: chunk_contents_def validate_header)
    ultimately show ?thesis
      using False rest ok r by (auto simp: range_for_def find_append split: option.splits)
  qed
qed

lemma read_offset_find:
  assumes "plog_inv lc cd cs log d"
  shows "read_offset lc log d target = Ok (find (\<lambda>e. en_offset e = target) (records_of cs))"
proof -
  let ?ring = "pl_encryption log"
  have dir: "dir_inv lc ?ring (pl_stream log) (pl_partition log) cs d" using assms by (simp add: plog_inv_def)
  have "read_ranges lc ?ring d target (pl_segment_ranges log) = Ok (find (\<lambda>e. en_offset e = target) (records_of (non_empty cs)))"
  proof (rule read_ranges_find)
    show "list_all2 range_for (pl_segment_ranges log) (non_empty cs)" "ring_ok ?ring"
      using assms by (simp_all add: plog_inv_def log_inv_def)
    show "chunk_ok lc ?ring (pl_stream log) (pl_partition log) c \<and> plog_contents d (chunk_id c) = chunk_contents c"
      if c: "c \<in> set (non_empty cs)" for c
      using c dir contents_of_chunk [OF dir, of c] by (simp add: non_empty_def dir_inv_def)
    show "sorted_wrt (<) (map en_offset (records_of (non_empty cs)))" using dir by (simp add: dir_inv_def)
  qed
  then show ?thesis by (simp add: read_offset_def)
qed

section \<open>Subject queries\<close>

lemma decimal_digits: "list_all is_ascii_digit (decimal n)"
proof (induction n rule: decimal.induct)
  case (1 n)
  have digit: "is_ascii_digit (char_of (48 + k))" if "k < 10" for k :: nat
    using that by (simp add: is_ascii_digit_def)
  show ?case
    by (subst decimal.simps) (use 1 digit [of n] digit [of "n mod 10"] in auto)
qed

lemma decimal_length: "n < 10 ^ Suc k \<Longrightarrow> length (decimal n) \<le> Suc k"
proof (induction k arbitrary: n)
  case 0
  then show ?case by (subst decimal.simps) simp
next
  case (Suc k)
  then have "length (decimal (n div 10)) \<le> Suc k" by (intro Suc.IH) (simp add: less_mult_imp_div_less)
  then show ?case by (subst decimal.simps) simp
qed

lemma segment_of_name:
  assumes "i \<le> u64_max"
  shows "plog_segment_of (plog_segment_name i) = Some i"
proof -
  have len: "length (decimal i) \<le> 20"
    using decimal_length [of i 19] assms by (simp add: u64_max_def)
  have zeros: "foldl (\<lambda>v c. v * 10 + (of_char c - 48)) 0 (replicate k CHR ''0'') = (0 :: nat)" for k
    by (induction k) (simp_all add: of_char_def)
  have "take 20 (plog_segment_name i) = replicate (20 - length (decimal i)) CHR ''0'' @ decimal i"
    "drop 20 (plog_segment_name i) = ''.plog''" "length (plog_segment_name i) = 25"
    using len by (simp_all add: plog_segment_name_def)
  moreover have "list_all is_ascii_digit (replicate k CHR ''0'')" for k
    by (induction k) (simp_all add: is_ascii_digit_def of_char_def)
  moreover have "decimal_value (replicate k CHR ''0'' @ decimal i) = i" for k
    using zeros [of k] decimal_value_decimal [of i] by (simp add: decimal_value_def)
  ultimately show ?thesis using decimal_digits [of i] by (simp add: plog_segment_of_def)
qed

lemma matching_offsets_scan:
  assumes "plog_inv lc cd cs log d"
  shows "\<exists>q. plog_matching_offsets lc cd log d f = Ok q
    \<and> sq_offsets q = sorted_list_of_set {en_offset e |e. e \<in> set (records_of cs) \<and> matches f (en_subject e)}"
proof -
  let ?ring = "pl_encryption log" and ?sealed = "pl_sealed_subject_segments log"
  let ?sfs = "map (\<lambda>seg. (seg, plog_files d (the (plog_segment_of (sg_path seg))))) ?sealed"
  have dir: "dir_inv lc ?ring (pl_stream log) (pl_partition log) cs d" and ring: "ring_ok ?ring"
    using assms by (simp_all add: plog_inv_def)
  have ids: "chunk_id c \<le> u64_max" if "c \<in> set (butlast cs)" for c
    using dir in_set_butlastD [OF that] by (auto simp: dir_inv_def chunk_ok_def)
  have "list_all2 (sealed_for lc ?ring cd (pl_stream log) (pl_partition log) d) ?sealed (butlast cs)"
    using assms by (simp add: plog_inv_def log_inv_def)
  then have "list_all2 (segment_holds lc ?ring cd (pl_stream log) (pl_partition log)) ?sfs (map chunk_envelopes (butlast cs))"
    unfolding list_all2_map1 list_all2_map2
    by (rule list.rel_mono_strong) (auto simp: sealed_for_def segment_of_name ids)
  from query_segments_law [OF this ring, of f "[]" False] obtain os u
    where run: "query_segments lc ?ring cd ?sfs f ([], False) = Ok (os, u)"
      and os: "set os = set (scan_offsets (subject_records (records_of (butlast cs))) f)"
    by (auto simp: records_of_def)
  have cs: "butlast cs @ [last cs] = cs" using dir by (simp add: dir_inv_def)
  have "set (os @ scan_offsets (subject_records (chunk_envelopes (last cs))) f)
      = set (scan_offsets (subject_records (records_of (butlast cs @ [last cs]))) f)"
    by (simp add: os subject_records_def scan_offsets_def image_Un)
  also have "\<dots> = {en_offset e |e. e \<in> set (records_of cs) \<and> matches f (en_subject e)}"
    unfolding cs by (force simp: in_scan_offsets subject_records_def)
  finally show ?thesis
    using run assms by (simp add: plog_matching_offsets_def log_matching_offsets_def active_matching_offsets_def plog_inv_def log_inv_def)
qed

end
