(* ===== verification/Partition_Append.thy ===== *)
theory Partition_Append
  imports Partition_Log_Safety
begin

text \<open>
  Appending to a partition log, with rotation and the sparse index
  (\<open>crates/server/src/partition_log/log.rs\<close>): an append keeps the invariant of
  \<open>Partition_Log_Safety\<close> and extends the log by exactly the envelope.
\<close>

section \<open>Ranges and files\<close>

lemma update_range_map:
  "distinct (map sgr_segment ranges) \<Longrightarrow>
     update_range i f ranges = map (\<lambda>r. if sgr_segment r = i then f r else r) ranges"
proof (induction ranges)
  case (Cons r ranges)
  show ?case
  proof (cases "sgr_segment r = i")
    case True
    then have "sgr_segment x \<noteq> i" if "x \<in> set ranges" for x
      using Cons.prems that by (metis distinct.simps(2) image_eqI list.set_map list.simps(9))
    then have "map (\<lambda>r. if sgr_segment r = i then f r else r) ranges = ranges"
      by (intro map_idI) simp
    then show ?thesis using True by (simp add: update_range_def)
  next
    case False
    then have "update_range i f (r # ranges) = r # update_range i f ranges"
      by (cases "dropWhile (\<lambda>r. sgr_segment r \<noteq> i) ranges") (simp_all add: update_range_def del: dropWhile_eq_Nil_conv)
    then show ?thesis using False Cons by simp
  qed
qed (simp add: update_range_def)

lemma range_segments:
  "list_all2 range_for ranges cs \<Longrightarrow> map sgr_segment ranges = map chunk_id cs"
  by (induction ranges cs rule: list_all2_induct) (simp_all add: range_for_def)

lemma dir_ids_distinct: "dir_inv lc ring stream p cs d \<Longrightarrow> distinct (map chunk_id cs)"
  by (simp add: dir_inv_def strict_sorted_iff)

lemma dir_segments_wf: "dir_inv lc ring stream p cs d \<Longrightarrow> bt_wf (pd_segments d)"
  by (simp add: dir_inv_def bt_wf_def comp_def)

lemma non_empty_ids_distinct: "distinct (map chunk_id cs) \<Longrightarrow> distinct (map chunk_id (non_empty cs))"
  by (simp add: non_empty_def distinct_map_filter)

lemma plog_files_cong:
  "pd_segments d' = pd_segments d \<Longrightarrow> map_of (pd_sidx d') i = map_of (pd_sidx d) i \<Longrightarrow> plog_files d' i = plog_files d i"
  by (simp add: plog_files_def plog_contents_def)

lemma seal_subjects_holds:
  assumes "snapshot_ok cd" "plog_contents d (chunk_id c) = chunk_contents c" "bt_wf (pd_sidx d)"
    and "list_all2 (stored_as lc ring stream p) (chunk_envelopes c) (chunk_batches c)"
  shows "\<exists>n seg body. seal_subjects cd budget (chunk_id c) (subject_records (chunk_envelopes c)) d
      = (n, seg, d\<lparr>pd_sidx := bt_insert (chunk_id c) body (pd_sidx d)\<rparr>) \<and> n \<le> budget
    \<and> sealed_for lc ring cd stream p (d\<lparr>pd_sidx := bt_insert (chunk_id c) body (pd_sidx d)\<rparr>) seg c"
proof -
  let ?i = "chunk_id c" and ?es = "chunk_envelopes c"
  let ?new = "segment_new (plog_segment_name ?i) (subject_records ?es)"
  obtain n seg files where run: "segment_rebuild cd budget ?new (plog_files d ?i) = (n, seg, files)"
    by (cases "segment_rebuild cd budget ?new (plog_files d ?i)")
  have "fl_segment (plog_files d ?i) = SEGMENT_HEADER @ concat (chunk_batches c)"
    using assms(2) by (simp add: plog_files_def chunk_contents_def)
  then have holds: "segment_holds lc ring cd stream p (seg, files) ?es" "n \<le> budget"
    using rebuild_holds [OF assms(1) _ assms(4) run] by simp_all
  have path: "sg_path seg = plog_segment_name ?i"
    using run by (auto simp: segment_rebuild_def segment_new_def release_records_def Let_def split: if_splits)
  obtain body where body: "fl_sidx files = Some body" "fl_segment files = plog_contents d ?i"
    using run by (auto simp: segment_rebuild_def plog_files_def Let_def split: if_splits)
  let ?d = "d\<lparr>pd_sidx := bt_insert ?i body (pd_sidx d)\<rparr>"
  have "plog_files ?d ?i = files" using body assms(3) by (cases files) (simp add: plog_files_def plog_contents_def)
  then have "sealed_for lc ring cd stream p ?d seg c" using holds path by (simp add: sealed_for_def)
  then show ?thesis using run holds(2) body(1) by (auto simp: seal_subjects_def)
qed

lemma list_all2_keep:
  "list_all2 P xs ys \<Longrightarrow> (\<And>x y. y \<in> set ys \<Longrightarrow> P x y \<Longrightarrow> Q x y) \<Longrightarrow> list_all2 Q xs ys"
  by (erule list.rel_mono_strong) blast

lemma update_range_rel:
  assumes "list_all2 range_for ranges cs" "distinct (map chunk_id cs)"
    and "\<And>r c. c \<in> set cs \<Longrightarrow> range_for r c \<Longrightarrow> chunk_id c = i \<Longrightarrow> Q (f r) c"
    and "\<And>r c. c \<in> set cs \<Longrightarrow> range_for r c \<Longrightarrow> chunk_id c \<noteq> i \<Longrightarrow> Q r c"
  shows "list_all2 Q (update_range i f ranges) cs"
proof -
  have "distinct (map sgr_segment ranges)" using range_segments [OF assms(1)] assms(2) by simp
  then have "update_range i f ranges = map (\<lambda>r. if sgr_segment r = i then f r else r) ranges" by (rule update_range_map)
  moreover have "list_all2 (\<lambda>r. Q (if sgr_segment r = i then f r else r)) ranges cs"
  proof (rule list_all2_keep [OF assms(1)])
    show "Q (if sgr_segment r = i then f r else r) c" if "c \<in> set cs" "range_for r c" for r c
      using assms(3,4) [OF that] that(2) by (simp add: range_for_def)
  qed
  ultimately show ?thesis by (simp add: list_all2_map1)
qed

section \<open>Rotation\<close>

lemma rotate_keeps:
  assumes inv: "plog_inv lc cd cs log d" and room: "pl_segment_id log < u64_max"
  shows "\<exists>log' d'. plog_rotate cd log d = (Ok (), log', d')
    \<and> plog_inv lc cd (cs @ [(pl_segment_id log + 1, [], [])]) log' d'
    \<and> pl_next_offset log' = pl_next_offset log \<and> pl_segment_bytes log' = pl_segment_bytes log
    \<and> pl_encryption log' = pl_encryption log \<and> pl_stream log' = pl_stream log \<and> pl_partition log' = pl_partition log
    \<and> pl_retention_records log' = pl_retention_records log \<and> pl_retained_bytes log' = pl_retained_bytes log
    \<and> pl_deleted_messages log' = pl_deleted_messages log \<and> pl_deleted_bytes log' = pl_deleted_bytes log"
proof -
  let ?ring = "pl_encryption log" and ?stream = "pl_stream log" and ?p = "pl_partition log" and ?i = "pl_segment_id log"
  define c where "c = last cs"
  have dir: "dir_inv lc ?ring ?stream ?p cs d" and log: "log_inv lc cd cs log d" and cd: "snapshot_ok cd"
    using inv by (simp_all add: plog_inv_def)
  have cs: "cs = butlast cs @ [c]" "c \<in> set cs" "cs \<noteq> []" using dir by (simp_all add: dir_inv_def c_def)
  have i: "chunk_id c = ?i" and subjects: "pl_active_subjects log = subject_records (chunk_envelopes c)"
    using log by (simp_all add: log_inv_def c_def)
  have wf: "bt_wf (pd_index d)" "bt_wf (pd_sidx d)" using dir by (simp_all add: dir_inv_def)
  have stored: "list_all2 (stored_as lc ?ring ?stream ?p) (chunk_envelopes c) (chunk_batches c)"
    using dir cs(2) by (simp add: dir_inv_def chunk_ok_def)
  have below: "chunk_id x < ?i" if x: "x \<in> set (butlast cs)" for x
  proof -
    have "sorted_wrt (<) (map chunk_id (butlast cs @ [c]))" using dir cs(1) by (simp add: dir_inv_def)
    then show ?thesis using x i by (simp add: sorted_wrt_append)
  qed
  have ids: "chunk_id x \<le> ?i" if x: "x \<in> set cs" for x
  proof -
    have "x \<in> set (butlast cs @ [c])" using x cs(1) by simp
    then show ?thesis using below [of x] i by auto
  qed
  obtain n seg body where seal: "seal_subjects cd (MAX_PARTITION_INDEX_CACHE_BYTES - pl_subject_index_cache_bytes log) ?i
        (pl_active_subjects log) d = (n, seg, d\<lparr>pd_sidx := bt_insert ?i body (pd_sidx d)\<rparr>)"
    and sealed: "sealed_for lc ?ring cd ?stream ?p (d\<lparr>pd_sidx := bt_insert ?i body (pd_sidx d)\<rparr>) seg c"
    using seal_subjects_holds [OF cd contents_of_chunk [OF dir cs(2)] wf(2) stored] unfolding subjects i by blast
  let ?d = "d\<lparr>pd_sidx := bt_insert ?i body (pd_sidx d)\<rparr>"
  let ?new = "(?i + 1, [], []) :: chunk"
  have above: "?i + 1 \<notin> chunk_id ` set cs" using ids by fastforce
  then have fresh: "\<not> bt_contains (?i + 1) (pd_segments d)"
    using dir by (auto simp: bt_contains_iff dir_inv_def image_image)
  let ?d' = "?d\<lparr>pd_segments := bt_insert (?i + 1) SEGMENT_HEADER (pd_segments d)\<rparr>"
  let ?log' = "log\<lparr>pl_active_subjects := [], pl_subject_index_cache_bytes := pl_subject_index_cache_bytes log + n,
      pl_segment_ranges := update_range ?i (\<lambda>r. r\<lparr>sgr_sparse_index := load_sparse_index ?d ?i\<rparr>) (pl_segment_ranges log),
      pl_sealed_subject_segments := pl_sealed_subject_segments log @ [seg], pl_segment_id := ?i + 1,
      pl_file := True, pl_active_bytes := SEGMENT_HEADER_LEN\<rparr>"
  have run: "plog_rotate cd log d = (Ok (), ?log', ?d')"
    using seal room fresh by (simp add: plog_rotate_def Let_def)
  have segs: "pd_segments ?d' = map (\<lambda>c. (chunk_id c, chunk_contents c)) (cs @ [?new])"
  proof -
    have "bt_insert (?i + 1) SEGMENT_HEADER (pd_segments d) = pd_segments d @ [(?i + 1, SEGMENT_HEADER)]"
      using dir ids by (intro bt_insert_last) (auto simp: dir_inv_def less_Suc_eq_le)
    then show ?thesis using dir by (simp add: dir_inv_def chunk_contents_def)
  qed
  have files: "plog_files ?d' (chunk_id x) = plog_files ?d (chunk_id x)" if x: "x \<in> set cs" for x
    using ids [OF x] dir_segments_wf [OF dir] by (simp add: plog_files_def plog_contents_def)
  have old_files: "plog_files ?d (chunk_id x) = plog_files d (chunk_id x)" if x: "x \<in> set (butlast cs)" for x
    using below [OF x] dir by (intro plog_files_cong) (simp_all add: dir_inv_def)
  have "list_all2 (sealed_for lc ?ring cd ?stream ?p ?d') (pl_sealed_subject_segments log) (butlast cs)"
  proof (rule list_all2_keep)
    show "list_all2 (sealed_for lc ?ring cd ?stream ?p d) (pl_sealed_subject_segments log) (butlast cs)"
      using log by (simp add: log_inv_def)
    show "sealed_for lc ?ring cd ?stream ?p ?d' x y" if y: "y \<in> set (butlast cs)" and "sealed_for lc ?ring cd ?stream ?p d x y" for x y
      using that files [OF in_set_butlastD [OF y]] old_files [OF y] by (simp add: sealed_for_def)
  qed
  moreover have "sealed_for lc ?ring cd ?stream ?p ?d' seg c" using sealed files [OF cs(2)] by (simp add: sealed_for_def)
  ultimately have "list_all2 (sealed_for lc ?ring cd ?stream ?p ?d') (pl_sealed_subject_segments log @ [seg]) cs"
    by (subst cs(1)) (intro list_all2_appendI, simp_all)
  moreover have "list_all2 range_for
      (update_range ?i (\<lambda>r. r\<lparr>sgr_sparse_index := load_sparse_index ?d ?i\<rparr>) (pl_segment_ranges log)) (non_empty cs)"
  proof -
    have ranges: "list_all2 range_for (pl_segment_ranges log) (non_empty cs)" using log by (simp add: log_inv_def)
    moreover have "index_good x (load_sparse_index ?d (chunk_id x))" if "x \<in> set cs" for x
      using dir that by (intro index_file_loaded) (simp add: dir_inv_def)
    ultimately show ?thesis
      using non_empty_ids_distinct [OF dir_ids_distinct [OF dir]]
      by (elim update_range_rel) (auto simp: range_for_def non_empty_def)
  qed
  moreover have "dir_inv lc ?ring ?stream ?p (cs @ [?new]) ?d'"
  proof -
    have "fst ` set (pd_index d) \<subseteq> chunk_id ` set cs" using dir by (simp add: dir_inv_def)
    then have "?i + 1 \<notin> fst ` set (pd_index d)" using above by blast
    then have "map_of (pd_index d) (?i + 1) = None" by (simp add: map_of_eq_None_iff)
    then have "index_file_good ?new (map_of (pd_index ?d') (?i + 1))"
      by (auto simp: index_file_good_def index_bytes_def index_good_def intro!: exI [of _ "[]"])
    moreover have "sorted_wrt (<) (map chunk_id (cs @ [?new]))"
      using dir ids by (simp add: sorted_wrt_append dir_inv_def less_Suc_eq_le)
    moreover have "chunk_ok lc ?ring ?stream ?p ?new"
      using room by (simp add: chunk_ok_def chunk_contents_def SEGMENT_HEADER_def bytes_of_string_def u64_max_def)
    moreover have "\<exists>n. read_retention_offset ?d' = Ok n" using dir by (simp add: dir_inv_def read_retention_offset_def)
    moreover have "fst ` set (pd_index ?d') \<subseteq> chunk_id ` set (cs @ [?new])" using dir by (simp add: dir_inv_def) blast
    ultimately show ?thesis using dir segs by (simp add: dir_inv_def)
  qed
  moreover have "next_offset_of (cs @ [?new]) = next_offset_of cs" by (rule ext) (simp add: next_offset_of_def)
  moreover have "read_retention_offset ?d' = read_retention_offset d" by (simp add: read_retention_offset_def)
  moreover have "non_empty (cs @ [?new]) = non_empty cs" by (simp add: non_empty_def)
  moreover have "length (chunk_contents ?new) = SEGMENT_HEADER_LEN" by (simp add: chunk_contents_def SEGMENT_HEADER_LEN_def)
  ultimately have "plog_inv lc cd (cs @ [?new]) ?log' ?d'"
    using inv log by (simp add: plog_inv_def log_inv_def subject_records_def)
  then show ?thesis using run by simp
qed

section \<open>Appending\<close>

lemma offsets_below_next:
  assumes "plog_inv lc cd cs log d" "pl_next_offset log < u64_max" "e \<in> set (records_of cs)"
  shows "en_offset e < pl_next_offset log"
proof -
  have "en_offset e \<le> en_offset (last (records_of cs))"
    using assms(1,3) sorted_offset_bounds by (auto simp: plog_inv_def dir_inv_def)
  moreover have "sat_add64 (en_offset (last (records_of cs))) 1 \<le> pl_next_offset log"
    using assms(1,3) by (auto simp: plog_inv_def log_inv_def next_offset_of_def)
  ultimately show ?thesis using assms(2) by (auto simp: sat_add64_def min_def split: if_splits)
qed

lemma index_good_append [simp]: "index_good c (xs @ ys) \<longleftrightarrow> index_good c xs \<and> index_good c ys"
  by (simp only: index_good_def set_append ball_Un)

lemma index_good_snoc:
  assumes "index_good (i, es, bs) idx" "length es = length bs"
  shows "index_good (i, es @ [e], bs @ [b]) idx"
  unfolding index_good_def
proof (intro ballI, clarify)
  fix offset position assume "(offset, position) \<in> set idx"
  then obtain j where "j < length es" "en_offset (es ! j) = offset" "position = length (SEGMENT_HEADER @ concat (take j bs))"
    using assms(1) by (auto simp: index_good_def)
  then show "\<exists>j<length (chunk_envelopes (i, es @ [e], bs @ [b])).
      en_offset (chunk_envelopes (i, es @ [e], bs @ [b]) ! j) = offset
      \<and> position = length (SEGMENT_HEADER @ concat (take j (chunk_batches (i, es @ [e], bs @ [b]))))"
    using assms(2) by (intro exI [of _ j]) (simp add: nth_append)
qed

lemma index_good_new:
  "length es = length bs \<Longrightarrow> index_good (i, es @ [e], bs @ [b]) [(en_offset e, length (chunk_contents (i, es, bs)))]"
  by (auto simp: index_good_def chunk_contents_def nth_append intro!: exI [of _ "length bs"])

lemma index_file_good_snoc:
  assumes "index_file_good (i, es, bs) f" "length es = length bs"
  shows "index_file_good (i, es @ [e], bs @ [b]) f"
  using assms index_good_snoc by (fastforce simp: index_file_good_def)

lemma index_file_good_new:
  assumes "index_file_good (i, es, bs) f" "length es = length bs" "en_offset e \<le> u64_max" "length (chunk_contents (i, es, bs)) \<le> u64_max"
  shows "index_file_good (i, es @ [e], bs @ [b])
    (Some ((case f of None \<Rightarrow> [] | Some bs \<Rightarrow> bs) @ index_entry (en_offset e) (length (chunk_contents (i, es, bs)))))"
proof -
  obtain entries where "(case f of None \<Rightarrow> [] | Some bs \<Rightarrow> bs) = index_bytes entries" "index_good (i, es, bs) entries"
    "list_all (\<lambda>(offset, position). offset \<le> u64_max \<and> position \<le> u64_max) entries"
    using assms(1) by (auto simp: index_file_good_def)
  then show ?thesis
    using assms(2-4) index_good_snoc [of i es bs entries e b] index_good_new [of es bs i e b]
    by (auto simp: index_file_good_def index_bytes_def intro!: exI [of _ "entries @ [(en_offset e, length (chunk_contents (i, es, bs)))]"])
qed

text \<open>The directory after the batch of \<open>e\<close> is written and, if the offset is due, indexed.\<close>

definition appended_dir :: "message_envelope \<Rightarrow> bytes \<Rightarrow> u64 \<Rightarrow> u64 \<Rightarrow> plog_dir \<Rightarrow> plog_dir" where
  "appended_dir e b i position d =
     (let d = d\<lparr>pd_segments := bt_update i (\<lambda>old. old @ b) (pd_segments d)\<rparr>
      in if en_offset e mod INDEX_STRIDE = 0 then append_index i (en_offset e) position d else d)"

lemma appended_dir_inv:
  assumes dir: "dir_inv lc ring stream p (cs @ [(i, es, bs)]) d" and e: "stored_as lc ring stream p e b"
    and above: "\<And>x. x \<in> set (records_of (cs @ [(i, es, bs)])) \<Longrightarrow> en_offset x < en_offset e"
    and room: "length (chunk_contents (i, es @ [e], bs @ [b])) \<le> u64_max"
  shows "dir_inv lc ring stream p (cs @ [(i, es @ [e], bs @ [b])]) (appended_dir e b i (length (chunk_contents (i, es, bs))) d)"
    (is "dir_inv _ _ _ _ (cs @ [?c']) ?d'")
proof -
  let ?c = "(i, es, bs)"
  have len: "length es = length bs" using dir by (auto simp: dir_inv_def chunk_ok_def dest: list_all2_lengthD)
  have ids: "i \<notin> chunk_id ` set cs" using dir_ids_distinct [OF dir] by simp
  have wf: "bt_wf (pd_index d)" using dir by (simp add: dir_inv_def)
  have "pd_segments ?d' = bt_update i (\<lambda>old. old @ b) (pd_segments d)"
    by (simp add: appended_dir_def append_index_def Let_def)
  also have "\<dots> = map (\<lambda>c. (chunk_id c, chunk_contents c)) (cs @ [?c'])"
    using dir ids by (auto simp: dir_inv_def bt_update_def chunk_contents_def image_iff)
  finally have segs: "pd_segments ?d' = map (\<lambda>c. (chunk_id c, chunk_contents c)) (cs @ [?c'])" .
  have fits: "en_offset e \<le> u64_max" using e by (simp add: stored_as_def envelope_fits_def)
  have old: "index_file_good ?c (map_of (pd_index d) i)" using dir by (simp add: dir_inv_def)
  have "length (chunk_contents ?c) \<le> u64_max" using room by (simp add: chunk_contents_def)
  then have index: "index_file_good ?c' (map_of (pd_index ?d') i)"
    using index_file_good_new [OF old len fits] index_file_good_snoc [OF old len] wf
    by (simp add: appended_dir_def append_index_def Let_def)
  have others: "map_of (pd_index ?d') (chunk_id c) = map_of (pd_index d) (chunk_id c)" if "c \<in> set cs" for c
    using that ids wf by (auto simp: appended_dir_def append_index_def Let_def)
  have "fst ` set (pd_index ?d') \<subseteq> insert i (fst ` set (pd_index d))"
    by (simp add: appended_dir_def append_index_def Let_def subset_insertI)
  also have "\<dots> \<subseteq> chunk_id ` set (cs @ [?c'])" using dir by (auto simp: dir_inv_def)
  finally have keys: "fst ` set (pd_index ?d') \<subseteq> chunk_id ` set (cs @ [?c'])" .
  have rest: "pd_sidx ?d' = pd_sidx d" "pd_rewrite_marker ?d' = pd_rewrite_marker d"
    "pd_compaction_marker ?d' = pd_compaction_marker d" "read_retention_offset ?d' = read_retention_offset d" "bt_wf (pd_index ?d')"
    using wf by (simp_all add: appended_dir_def append_index_def Let_def read_retention_offset_def)
  have "chunk_ok lc ring stream p ?c'"
    using dir e room by (auto simp: dir_inv_def chunk_ok_def list_all2_appendI)
  moreover have "sorted_wrt (<) (map en_offset (records_of (cs @ [?c'])))"
    using dir above by (auto simp: dir_inv_def sorted_wrt_append)
  ultimately show ?thesis using dir segs index others keys rest by (simp add: dir_inv_def)
qed

lemma appended_files:
  assumes "bt_wf (pd_segments d)" "j \<noteq> i"
  shows "plog_files (appended_dir e b i position d) j = plog_files d j"
  using assms by (simp add: plog_files_def plog_contents_def appended_dir_def append_index_def Let_def)

lemma extended_ranges:
  assumes ranges: "list_all2 range_for ranges (non_empty (old @ [(i, es, bs)]))"
    and ids: "distinct (map chunk_id (old @ [(i, es, bs)]))" and len: "length es = length bs"
    and idx: "index_good (i, es, bs) idx"
  shows "list_all2 range_for
      (if list_ex (\<lambda>r. sgr_segment r = i) ranges then update_range i (\<lambda>r. r\<lparr>sgr_last_offset := en_offset e\<rparr>) ranges
       else ranges @ [\<lparr>sgr_segment = i, sgr_first_offset = en_offset e, sgr_last_offset = en_offset e, sgr_sparse_index = idx\<rparr>])
      (non_empty (old @ [(i, es @ [e], bs @ [b])]))"
proof -
  let ?c = "(i, es, bs)" and ?c' = "(i, es @ [e], bs @ [b])"
  have fresh: "i \<notin> chunk_id ` set (non_empty old)" using ids by (auto simp: non_empty_def)
  have has: "list_ex (\<lambda>r. sgr_segment r = i) ranges \<longleftrightarrow> i \<in> set (map chunk_id (non_empty (old @ [?c])))"
    by (subst range_segments [OF ranges, symmetric]) (auto simp: list_ex_iff)
  show ?thesis
  proof (cases "es = []")
    case True
    have "range_for \<lparr>sgr_segment = i, sgr_first_offset = en_offset e, sgr_last_offset = en_offset e, sgr_sparse_index = idx\<rparr> ?c'"
      using True index_good_snoc [OF idx len] by (simp add: range_for_def)
    moreover have "\<not> list_ex (\<lambda>r. sgr_segment r = i) ranges" using has True fresh by (simp add: non_empty_def)
    ultimately show ?thesis
      using ranges True by (simp add: non_empty_append) (simp add: non_empty_def list_all2_appendI)
  next
    case False
    then have ne: "non_empty (old @ [?c]) = non_empty old @ [?c]" "non_empty (old @ [?c']) = non_empty old @ [?c']"
      by (simp_all add: non_empty_def)
    let ?g = "\<lambda>c. if chunk_id c = i then ?c' else c"
    have "list_all2 (\<lambda>r c. range_for r (?g c)) (update_range i (\<lambda>r. r\<lparr>sgr_last_offset := en_offset e\<rparr>) ranges) (non_empty (old @ [?c]))"
    proof (rule update_range_rel [OF ranges non_empty_ids_distinct [OF ids]])
      show "range_for (r\<lparr>sgr_last_offset := en_offset e\<rparr>) (?g c)"
        if c: "c \<in> set (non_empty (old @ [?c]))" "range_for r c" "chunk_id c = i" for r c
      proof -
        have "c = ?c" using c(1,3) fresh ne(1) by auto
        then show ?thesis using c(2) False index_good_snoc [OF _ len, of i "sgr_sparse_index r" e b] by (simp add: range_for_def hd_append)
      qed
    qed simp
    then have "list_all2 range_for (update_range i (\<lambda>r. r\<lparr>sgr_last_offset := en_offset e\<rparr>) ranges) (map ?g (non_empty (old @ [?c])))"
      by (simp add: list_all2_map2)
    moreover have "map ?g (non_empty old) = non_empty old" using fresh by (intro map_idI) auto
    ultimately show ?thesis using has ne by simp
  qed
qed

lemma note_append_keeps:
  assumes inv: "plog_inv lc cd cs log d" and e: "stored_as lc (pl_encryption log) (pl_stream log) (pl_partition log) e b"
    and offset: "en_offset e = pl_next_offset log" "pl_next_offset log < u64_max"
    and room: "pl_active_bytes log + length b \<le> u64_max"
  shows "\<exists>log' d' cs'. note_append e (length b) (pl_active_bytes log) (log\<lparr>pl_file := True\<rparr>)
        (d\<lparr>pd_segments := bt_update (pl_segment_id log) (\<lambda>old. old @ b) (pd_segments d)\<rparr>) = (log', d')
    \<and> plog_inv lc cd cs' log' d' \<and> records_of cs' = records_of cs @ [e] \<and> pl_next_offset log' = pl_next_offset log + 1
    \<and> pl_encryption log' = pl_encryption log \<and> pl_stream log' = pl_stream log \<and> pl_partition log' = pl_partition log
    \<and> pl_segment_bytes log' = pl_segment_bytes log"
proof -
  let ?ring = "pl_encryption log" and ?stream = "pl_stream log" and ?p = "pl_partition log"
  have dir: "dir_inv lc ?ring ?stream ?p cs d" and log: "log_inv lc cd cs log d" using inv by (simp_all add: plog_inv_def)
  obtain i es bs where c: "last cs = (i, es, bs)" by (cases "last cs")
  have cs: "cs = butlast cs @ [(i, es, bs)]" using dir c by (metis append_butlast_last_id dir_inv_def)
  define old where "old = butlast cs"
  have cs': "cs = old @ [(i, es, bs)]" using cs by (simp add: old_def)
  have fields: "pl_segment_id log = i" "pl_active_bytes log = length (chunk_contents (i, es, bs))"
    "pl_active_subjects log = subject_records es"
    using log c by (simp_all add: log_inv_def)
  let ?c = "(i, es, bs)" and ?c' = "(i, es @ [e], bs @ [b])"
  let ?d1 = "d\<lparr>pd_segments := bt_update i (\<lambda>old. old @ b) (pd_segments d)\<rparr>"
  let ?d' = "appended_dir e b i (length (chunk_contents ?c)) d"
  have room': "length (chunk_contents ?c') \<le> u64_max" using room fields(2) by (simp add: chunk_contents_def)
  have dir': "dir_inv lc ?ring ?stream ?p (old @ [?c']) ?d'"
    using appended_dir_inv [OF dir [unfolded cs'] e _ room'] offsets_below_next [OF inv offset(2)] offset(1) cs' by simp
  obtain log' where run: "note_append e (length b) (pl_active_bytes log) (log\<lparr>pl_file := True\<rparr>) ?d1 = (log', ?d')"
    by (cases "note_append e (length b) (pl_active_bytes log) (log\<lparr>pl_file := True\<rparr>) ?d1")
      (auto simp: note_append_def appended_dir_def Let_def fields split: if_splits)
  have keep: "pl_next_offset log' = pl_next_offset log + 1" "pl_encryption log' = ?ring" "pl_stream log' = ?stream"
    "pl_partition log' = ?p" "pl_segment_bytes log' = pl_segment_bytes log" "pl_segment_id log' = i"
    "pl_active_bytes log' = length (chunk_contents ?c')" "pl_active_subjects log' = subject_records (es @ [e])"
    "pl_sealed_subject_segments log' = pl_sealed_subject_segments log"
    using run fields by (auto simp: note_append_def Let_def subject_records_def chunk_contents_def split: if_splits)
  have len: "length es = length bs" using dir' by (auto simp: dir_inv_def chunk_ok_def dest: list_all2_lengthD)
  have "list_all2 range_for (pl_segment_ranges log') (non_empty (old @ [?c']))"
  proof -
    let ?ranges = "pl_segment_ranges log"
    define ranges where "ranges = (if list_ex (\<lambda>r. sgr_segment r = i) ?ranges
      then update_range i (\<lambda>r. r\<lparr>sgr_last_offset := en_offset e\<rparr>) ?ranges
      else ?ranges @ [\<lparr>sgr_segment = i, sgr_first_offset = en_offset e, sgr_last_offset = en_offset e,
        sgr_sparse_index = load_sparse_index ?d1 i\<rparr>])"
    have "index_good ?c (load_sparse_index ?d1 i)"
      using dir by (intro index_file_loaded) (simp add: cs' dir_inv_def)
    then have good: "list_all2 range_for ranges (non_empty (old @ [?c']))"
      unfolding ranges_def using log dir_ids_distinct [OF dir] len
      by (intro extended_ranges) (simp_all add: log_inv_def flip: cs')
    have ids: "distinct (map chunk_id (non_empty (old @ [?c'])))"
      by (rule non_empty_ids_distinct [OF dir_ids_distinct [OF dir']])
    have fresh: "c = ?c'" if "c \<in> set (non_empty (old @ [?c']))" "chunk_id c = i" for c
      using that dir_ids_distinct [OF dir'] by (auto simp: non_empty_def)
    have "list_all2 range_for (update_range i (\<lambda>r. r\<lparr>sgr_sparse_index := sgr_sparse_index r @ [(en_offset e, pl_active_bytes log)]\<rparr>) ranges)
        (non_empty (old @ [?c']))"
    proof (rule update_range_rel [OF good ids])
      show "range_for (r\<lparr>sgr_sparse_index := sgr_sparse_index r @ [(en_offset e, pl_active_bytes log)]\<rparr>) c"
        if c: "c \<in> set (non_empty (old @ [?c']))" "range_for r c" "chunk_id c = i" for r c
        using c(2) fresh [OF c(1,3)] index_good_new [OF len, of i e b] fields(2) by (simp add: range_for_def)
    qed
    then show ?thesis
      using run good by (auto simp: note_append_def Let_def fields(1) simp flip: ranges_def split: if_splits)
  qed
  moreover have "list_all2 (sealed_for lc ?ring cd ?stream ?p ?d') (pl_sealed_subject_segments log) old"
  proof (rule list_all2_keep)
    show "list_all2 (sealed_for lc ?ring cd ?stream ?p d) (pl_sealed_subject_segments log) old"
      using log by (simp add: log_inv_def old_def)
    have "chunk_id y \<noteq> i" if "y \<in> set old" for y
      using that dir_ids_distinct [OF dir] by (auto simp: cs' image_iff)
    then show "sealed_for lc ?ring cd ?stream ?p ?d' x y" if "y \<in> set old" "sealed_for lc ?ring cd ?stream ?p d x y" for x y
      using that appended_files [OF dir_segments_wf [OF dir]] by (simp add: sealed_for_def)
  qed
  moreover have "\<exists>n. read_retention_offset ?d' = Ok n \<and> pl_next_offset log' = next_offset_of (old @ [?c']) n"
  proof -
    obtain n where n: "read_retention_offset d = Ok n" "pl_next_offset log = next_offset_of cs n"
      using log by (auto simp: log_inv_def)
    have "n \<le> pl_next_offset log" using n(2) by (simp add: next_offset_of_def)
    moreover have "read_retention_offset ?d' = read_retention_offset d"
      by (simp add: read_retention_offset_def appended_dir_def append_index_def Let_def)
    ultimately show ?thesis
      using n(1) keep(1) offset by (auto simp: next_offset_of_def sat_add64_def)
  qed
  ultimately have "plog_inv lc cd (old @ [?c']) log' ?d'"
    using inv dir' keep by (simp add: plog_inv_def log_inv_def)
  then show ?thesis using run keep fields(1) by (intro exI [of _ log'] exI [of _ ?d'] exI [of _ "old @ [?c']"]) (simp add: cs')
qed

text \<open>When an append of \<open>e\<close> fits: its batch, the segment number and the bytes of the segment stay in range.\<close>

definition append_fits :: "log_codec \<Rightarrow> partition_log \<Rightarrow> message_envelope \<Rightarrow> bool" where
  "append_fits lc log e \<longleftrightarrow>
     (\<exists>b. stored_as lc (pl_encryption log) (pl_stream log) (pl_partition log) e b \<and> pl_active_bytes log + length b \<le> u64_max)
     \<and> pl_segment_id log < u64_max \<and> pl_next_offset log < u64_max"

lemma append_new_keeps:
  assumes inv: "plog_inv lc cd cs log d" and fits: "append_fits lc log e" and offset: "en_offset e = pl_next_offset log"
  shows "\<exists>log' d' cs'. append_new lc cd e log d = (Ok e, log', d') \<and> plog_inv lc cd cs' log' d'
    \<and> records_of cs' = records_of cs @ [e] \<and> pl_next_offset log' = pl_next_offset log + 1
    \<and> pl_encryption log' = pl_encryption log \<and> pl_stream log' = pl_stream log \<and> pl_partition log' = pl_partition log
    \<and> pl_segment_bytes log' = pl_segment_bytes log"
proof -
  obtain b where b: "stored_as lc (pl_encryption log) (pl_stream log) (pl_partition log) e b" "pl_active_bytes log + length b \<le> u64_max"
    and room: "pl_segment_id log < u64_max" "pl_next_offset log < u64_max"
    using fits by (auto simp: append_fits_def)
  have enc: "encode_for_log lc (pl_encryption log) e = Ok (b, length b)" using b(1) by (simp add: stored_as_def)
  let ?full = "pl_active_bytes log > SEGMENT_HEADER_LEN \<and> sat_add64 (pl_active_bytes log) (length b) > pl_segment_bytes log"
  obtain log1 d1 cs1 where rot: "(if ?full then plog_rotate cd log d else (Ok (), log, d)) = (Ok (), log1, d1)"
    and inv1: "plog_inv lc cd cs1 log1 d1" and recs: "records_of cs1 = records_of cs"
    and same: "pl_next_offset log1 = pl_next_offset log" "pl_encryption log1 = pl_encryption log" "pl_stream log1 = pl_stream log"
      "pl_partition log1 = pl_partition log" "pl_segment_bytes log1 = pl_segment_bytes log"
    and bytes: "pl_active_bytes log1 + length b \<le> u64_max"
  proof (cases ?full)
    case True
    obtain log1 d1 where rot: "plog_rotate cd log d = (Ok (), log1, d1)"
      and inv1: "plog_inv lc cd (cs @ [(pl_segment_id log + 1, [], [])]) log1 d1"
      and same: "pl_next_offset log1 = pl_next_offset log" "pl_encryption log1 = pl_encryption log" "pl_stream log1 = pl_stream log"
      "pl_partition log1 = pl_partition log" "pl_segment_bytes log1 = pl_segment_bytes log"
      using rotate_keeps [OF inv room(1)] by blast
    have "pl_active_bytes log1 = SEGMENT_HEADER_LEN"
      using inv1 by (simp add: plog_inv_def log_inv_def chunk_contents_def SEGMENT_HEADER_LEN_def)
    then have "pl_active_bytes log1 + length b \<le> u64_max" using True b(2) by linarith
    with True rot inv1 same show ?thesis by (intro that [of log1 d1 "cs @ [(pl_segment_id log + 1, [], [])]"]) simp_all
  next
    case False
    show ?thesis by (rule that [of log d cs]) (use False inv b in auto)
  qed
  obtain log' d' cs' where noted: "note_append e (length b) (pl_active_bytes log1) (log1\<lparr>pl_file := True\<rparr>)
        (d1\<lparr>pd_segments := bt_update (pl_segment_id log1) (\<lambda>old. old @ b) (pd_segments d1)\<rparr>) = (log', d')"
    and keep: "plog_inv lc cd cs' log' d'" "records_of cs' = records_of cs1 @ [e]" "pl_next_offset log' = pl_next_offset log1 + 1"
    "pl_encryption log' = pl_encryption log1" "pl_stream log' = pl_stream log1" "pl_partition log' = pl_partition log1"
    "pl_segment_bytes log' = pl_segment_bytes log1"
    using note_append_keeps [OF inv1, of e b] b(1) bytes room(2) offset same by auto
  have "append_new lc cd e log d = (Ok e, log', d')"
    using enc rot noted bytes room(2) same(1) by (simp add: append_new_def)
  then show ?thesis using keep recs same by auto
qed

lemma append_committed_keeps:
  assumes "plog_inv lc cd cs log d" "append_fits lc log e" "en_offset e = pl_next_offset log"
  shows "\<exists>log' d' cs'. plog_append_committed lc cd e log d = (Ok e, log', d') \<and> plog_inv lc cd cs' log' d'
    \<and> records_of cs' = records_of cs @ [e] \<and> pl_next_offset log' = pl_next_offset log + 1
    \<and> pl_encryption log' = pl_encryption log \<and> pl_stream log' = pl_stream log \<and> pl_partition log' = pl_partition log
    \<and> pl_segment_bytes log' = pl_segment_bytes log"
  using append_new_keeps [OF assms] assms(3) by (simp add: plog_append_committed_def)

end
