(* ===== verification/Partition_Open.thy ===== *)
theory Partition_Open
  imports Partition_Append
begin

text \<open>
  Opening a partition log (\<open>crates/server/src/partition_log/log.rs\<close>): a directory that holds the
  chunks of a log, with index files present or missing and possibly a torn last batch, opens
  to a log that satisfies the invariant over the same chunks.
\<close>

section \<open>Rebuilding the sparse index\<close>

fun stride_entries :: "message_envelope list \<Rightarrow> bytes list \<Rightarrow> u64 \<Rightarrow> (u64 \<times> u64) list" where
  "stride_entries (e # es) (b # bs) position =
     (if en_offset e mod INDEX_STRIDE = 0 then [(en_offset e, position)] else []) @ stride_entries es bs (position + length b)"
| "stride_entries _ _ position = []"

lemma index_entries_stored:
  assumes "list_all2 (stored_as lc ring stream p) es bs" "ring_ok ring"
  shows "index_entries lc ring stream p (concat bs) position = Ok (index_bytes (stride_entries es bs position))"
  using assms(1)
proof (induction es bs arbitrary: position rule: list_all2_induct)
  case Nil
  show ?case by (subst index_entries.simps) (simp add: read_batch_with_key_def index_bytes_def)
next
  case (Cons e es b bs)
  have "read_batch_with_key lc ring (b @ concat bs) = (Ok (Some (e, length b)), concat bs)"
    using batch_read_back [OF _ assms(2), of e lc b "length b"] Cons.hyps(1) by (simp add: stored_as_def)
  moreover have "en_stream e = stream" "en_partition e = p" using Cons.hyps(1) by (simp_all add: stored_as_def)
  ultimately show ?case
    using Cons.IH by (subst index_entries.simps) (simp add: index_bytes_def)
qed

lemma stride_entries_in:
  assumes "list_all2 (stored_as lc ring stream p) es bs" "(offset, q) \<in> set (stride_entries es bs position)"
  shows "\<exists>j<length es. en_offset (es ! j) = offset \<and> q = position + length (concat (take j bs))"
  using assms
proof (induction es bs arbitrary: position rule: list_all2_induct)
  case (Cons e es b bs)
  show ?case
  proof (cases "(offset, q) \<in> set (stride_entries es bs (position + length b))")
    case True
    then obtain j where "j < length es" "en_offset (es ! j) = offset" "q = position + length b + length (concat (take j bs))"
      using Cons.IH by blast
    then show ?thesis by (intro exI [of _ "Suc j"]) simp
  next
    case False
    then show ?thesis using Cons.prems by (intro exI [of _ 0]) (auto split: if_splits)
  qed
qed simp

lemma rebuilt_index_good:
  assumes "chunk_ok lc ring stream p c"
  shows "index_file_good c (Some (index_bytes (stride_entries (chunk_envelopes c) (chunk_batches c) SEGMENT_HEADER_LEN)))"
proof -
  let ?es = "chunk_envelopes c" and ?bs = "chunk_batches c"
  let ?entries = "stride_entries ?es ?bs SEGMENT_HEADER_LEN"
  have stored: "list_all2 (stored_as lc ring stream p) ?es ?bs" and len: "length (chunk_contents c) \<le> u64_max"
    using assms by (simp_all add: chunk_ok_def)
  have entry: "\<exists>j<length ?es. en_offset (?es ! j) = offset \<and> q = length (SEGMENT_HEADER @ concat (take j ?bs))"
    if "(offset, q) \<in> set ?entries" for offset q
    using stride_entries_in [OF stored that] by (simp add: SEGMENT_HEADER_LEN_def)
  have "offset \<le> u64_max \<and> q \<le> u64_max" if m: "(offset, q) \<in> set ?entries" for offset q
  proof -
    obtain j where j: "j < length ?es" "en_offset (?es ! j) = offset" "q = length (SEGMENT_HEADER @ concat (take j ?bs))"
      using entry [OF m] by blast
    have "concat ?bs = concat (take j ?bs) @ concat (drop j ?bs)" by (metis append_take_drop_id concat_append)
    then have "q \<le> length (chunk_contents c)" using j(3) by (simp add: chunk_contents_def)
    moreover have "envelope_fits (?es ! j)" using list_all2_nthD [OF stored j(1)] by (simp add: stored_as_def)
    ultimately show ?thesis using len j(2) by (auto simp: envelope_fits_def)
  qed
  then show ?thesis
    using entry by (auto simp: index_file_good_def index_good_def list_all_iff intro!: exI [of _ ?entries])
qed

lemma rebuild_index_chunk:
  assumes "chunk_ok lc ring stream p c" "ring_ok ring" "plog_contents d (chunk_id c) = chunk_contents c"
  shows "\<exists>f. rebuild_index lc ring stream p (chunk_id c) d = Ok (d\<lparr>pd_index := bt_insert (chunk_id c) f (pd_index d)\<rparr>)
    \<and> index_file_good c (Some f)"
  using assms rebuilt_index_good [OF assms(1)] index_entries_stored [OF _ assms(2), of lc stream p]
  by (auto simp: rebuild_index_def validate_header chunk_contents_def chunk_ok_def)

section \<open>Opening one segment\<close>

lemma resident_subjects [simp]: "subject_records (map into_resident_metadata es) = subject_records es"
  by (simp add: subject_records_def into_resident_metadata_def)

lemma resident_offsets [simp]: "map en_offset (map into_resident_metadata es) = map en_offset es"
  by (simp add: into_resident_metadata_def)

lemma range_of_resident:
  assumes "index_good c idx"
  shows "list_all2 range_for (range_of (chunk_id c) (map into_resident_metadata (chunk_envelopes c)) idx) (non_empty [c])"
  using assms by (simp add: range_of_def range_for_def non_empty_def hd_map last_map into_resident_metadata_def)

lemma dir_inv_index:
  assumes "dir_inv lc ring stream p cs d" "c \<in> set cs" "index_file_good c (Some f)"
  shows "dir_inv lc ring stream p cs (d\<lparr>pd_index := bt_insert (chunk_id c) f (pd_index d)\<rparr>)"
proof -
  have "index_file_good x (map_of (bt_insert (chunk_id c) f (pd_index d)) (chunk_id x))" if x: "x \<in> set cs" for x
  proof (cases "chunk_id x = chunk_id c")
    case True
    then have "x = c" using x assms(2) dir_ids_distinct [OF assms(1)] by (metis distinct_map inj_onD)
    then show ?thesis using assms(1,3) by (simp add: dir_inv_def)
  next
    case False
    then show ?thesis using assms(1) x by (simp add: dir_inv_def)
  qed
  then show ?thesis using assms(1,2) by (simp add: dir_inv_def read_retention_offset_def)
qed

text \<open>
  The invariant but for the segment files, one of which may end in a torn batch until it is replayed.
\<close>

definition side_inv :: "log_codec \<Rightarrow> key_ring option \<Rightarrow> string \<Rightarrow> u32 \<Rightarrow> chunk list \<Rightarrow> plog_dir \<Rightarrow> bool" where
  "side_inv lc ring stream p cs d \<longleftrightarrow>
     dir_inv lc ring stream p cs (d\<lparr>pd_segments := map (\<lambda>c. (chunk_id c, chunk_contents c)) cs\<rparr>)"

lemma dir_inv_side:
  "dir_inv lc ring stream p cs d \<longleftrightarrow> side_inv lc ring stream p cs d \<and> pd_segments d = map (\<lambda>c. (chunk_id c, chunk_contents c)) cs"
  by (auto simp: side_inv_def dir_inv_def read_retention_offset_def)

lemma side_inv_index:
  "side_inv lc ring stream p cs d \<Longrightarrow> c \<in> set cs \<Longrightarrow> index_file_good c (Some f) \<Longrightarrow>
     side_inv lc ring stream p cs (d\<lparr>pd_index := bt_insert (chunk_id c) f (pd_index d)\<rparr>)"
  using dir_inv_index [of lc ring stream p cs "d\<lparr>pd_segments := map (\<lambda>c. (chunk_id c, chunk_contents c)) cs\<rparr>" c f]
  by (cases d) (simp add: side_inv_def)

text \<open>What opening leaves unchanged.\<close>

definition same_store :: "plog_dir \<Rightarrow> plog_dir \<Rightarrow> bool" where
  "same_store d d' \<longleftrightarrow> pd_segments d' = pd_segments d \<and> pd_retention_offset d' = pd_retention_offset d"

lemma same_store_trans: "same_store d d' \<Longrightarrow> same_store d' d'' \<Longrightarrow> same_store d d''"
  by (simp add: same_store_def)

lemma open_segment_chunk:
  assumes replay: "replay_segment lc ring (plog_segment_name (chunk_id c)) active stream p
        (plog_contents (os_dir st) (chunk_id c)) (os_replay st)
      = (Ok t, replay_all (chunk_envelopes c) (chunk_batches c) (os_replay st), chunk_contents c)"
    and d0: "d0 = (os_dir st)\<lparr>pd_segments := bt_insert (chunk_id c) (chunk_contents c) (pd_segments (os_dir st))\<rparr>"
    and dir: "side_inv lc ring stream p cs d0" and contents: "plog_contents d0 (chunk_id c) = chunk_contents c"
    and c: "c \<in> set cs" and ring: "ring_ok ring" and cd: "snapshot_ok cd"
  shows "\<exists>st'. open_segment lc ring cd stream p active (chunk_id c) st = (Ok (), st')
    \<and> os_replay st' = replay_all (chunk_envelopes c) (chunk_batches c) (os_replay st)
    \<and> os_truncations st' = os_truncations st + t \<and> side_inv lc ring stream p cs (os_dir st') \<and> same_store d0 (os_dir st')
    \<and> (\<exists>rs. os_ranges st' = os_ranges st @ rs \<and> list_all2 range_for rs (non_empty [c]))
    \<and> (active \<longrightarrow> os_active_subjects st' = subject_records (chunk_envelopes c) \<and> os_sealed st' = os_sealed st
        \<and> pd_sidx (os_dir st') = pd_sidx d0)
    \<and> (\<not> active \<longrightarrow> (\<exists>seg body. os_sealed st' = os_sealed st @ [seg]
        \<and> pd_sidx (os_dir st') = bt_insert (chunk_id c) body (pd_sidx d0) \<and> sealed_for lc ring cd stream p (os_dir st') seg c))"
proof -
  let ?i = "chunk_id c" and ?es = "chunk_envelopes c" and ?bs = "chunk_batches c"
  have ok: "chunk_ok lc ring stream p c" using dir c by (simp add: side_inv_def dir_inv_def)
  have stored: "list_all2 (stored_as lc ring stream p) ?es ?bs" using ok by (simp add: chunk_ok_def)
  define indexed where "indexed = (if t > 0 \<or> \<not> bt_contains ?i (pd_index (os_dir st)) then rebuild_index lc ring stream p ?i d0 else Ok d0)"
  obtain d1 where d1: "indexed = Ok d1" "side_inv lc ring stream p cs d1" "same_store d0 d1" "pd_sidx d1 = pd_sidx d0"
  proof (cases "t > 0 \<or> \<not> bt_contains ?i (pd_index (os_dir st))")
    case True
    obtain f where f: "rebuild_index lc ring stream p ?i d0 = Ok (d0\<lparr>pd_index := bt_insert ?i f (pd_index d0)\<rparr>)"
      "index_file_good c (Some f)"
      using rebuild_index_chunk [OF ok ring contents] by blast
    show ?thesis
      by (rule that [of "d0\<lparr>pd_index := bt_insert ?i f (pd_index d0)\<rparr>"])
        (use True f side_inv_index [OF dir c f(2)] in \<open>auto simp: indexed_def same_store_def\<close>)
  next
    case False
    show ?thesis by (rule that [of d0]) (use False dir in \<open>auto simp: indexed_def same_store_def\<close>)
  qed
  have idx: "index_good c (load_sparse_index d1 ?i)"
    using d1(2) c by (intro index_file_loaded) (simp add: side_inv_def dir_inv_def)
  let ?replay = "replay_all ?es ?bs (os_replay st)"
  have new: "drop (length (rp_envelopes (os_replay st))) (rp_envelopes ?replay) = map into_resident_metadata ?es"
    using replay_all_envelopes [OF list_all2_lengthD [OF stored]] by simp
  let ?rs = "range_of ?i (map into_resident_metadata ?es) (load_sparse_index d1 ?i)"
  note rs = range_of_resident [OF idx]
  let ?st1 = "st\<lparr>os_dir := d1, os_replay := ?replay, os_truncations := os_truncations st + t, os_ranges := os_ranges st @ ?rs\<rparr>"
  have run: "open_segment lc ring cd stream p active ?i st =
      (if active then (Ok (), ?st1\<lparr>os_active_subjects := subject_records ?es\<rparr>)
       else let (cached, seg, d) = seal_subjects cd (MAX_PARTITION_INDEX_CACHE_BYTES - os_cache_bytes st) ?i (subject_records ?es) d1
            in (Ok (), ?st1\<lparr>os_dir := d, os_cache_bytes := os_cache_bytes st + cached, os_sealed := os_sealed st @ [seg]\<rparr>))"
  proof (cases "t > 0 \<or> \<not> bt_contains ?i (pd_index (os_dir st))")
    case True
    then have "rebuild_index lc ring stream p ?i d0 = Ok d1" using d1(1) by (simp add: indexed_def)
    then show ?thesis using replay new True by (simp add: open_segment_def Let_def flip: d0)
  next
    case False
    then have "d1 = d0" using d1(1) by (simp add: indexed_def)
    then show ?thesis using replay new False by (simp add: open_segment_def Let_def flip: d0)
  qed
  show ?thesis
  proof (cases active)
    case True
    show ?thesis using True run d1 rs by (intro exI [of _ "?st1\<lparr>os_active_subjects := subject_records ?es\<rparr>"]) auto
  next
    case False
    have wf: "bt_wf (pd_sidx d1)" using d1(2) by (simp add: side_inv_def dir_inv_def)
    have "plog_contents d1 ?i = chunk_contents c" using contents d1(3) by (simp add: same_store_def plog_contents_def)
    then obtain n seg body where seal: "seal_subjects cd (MAX_PARTITION_INDEX_CACHE_BYTES - os_cache_bytes st) ?i (subject_records ?es) d1
        = (n, seg, d1\<lparr>pd_sidx := bt_insert ?i body (pd_sidx d1)\<rparr>)"
      "sealed_for lc ring cd stream p (d1\<lparr>pd_sidx := bt_insert ?i body (pd_sidx d1)\<rparr>) seg c"
      using seal_subjects_holds [OF cd _ wf stored] by blast
    let ?d2 = "d1\<lparr>pd_sidx := bt_insert ?i body (pd_sidx d1)\<rparr>"
    let ?st2 = "?st1\<lparr>os_dir := ?d2, os_cache_bytes := os_cache_bytes st + n, os_sealed := os_sealed st @ [seg]\<rparr>"
    have "side_inv lc ring stream p cs ?d2" using d1(2) by (simp add: side_inv_def dir_inv_def read_retention_offset_def)
    moreover have "same_store d0 ?d2" using d1(3) by (simp add: same_store_def)
    moreover have "open_segment lc ring cd stream p active ?i st = (Ok (), ?st2)" using run False seal(1) by simp
    ultimately show ?thesis using False d1(4) rs seal(2) by (intro exI [of _ ?st2]) auto
  qed
qed

section \<open>Opening all segments\<close>

definition replay_chunks :: "chunk list \<Rightarrow> replay_state \<Rightarrow> replay_state" where
  "replay_chunks cs st = fold (\<lambda>c. replay_all (chunk_envelopes c) (chunk_batches c)) cs st"

lemma replay_chunks_envelopes:
  assumes "\<And>c. c \<in> set cs \<Longrightarrow> chunk_ok lc ring stream p c"
  shows "rp_envelopes (replay_chunks cs st) = rp_envelopes st @ map into_resident_metadata (records_of cs)"
  using assms
proof (induction cs arbitrary: st)
  case (Cons c cs)
  have "length (chunk_envelopes c) = length (chunk_batches c)"
    using Cons.prems [of c] by (auto simp: chunk_ok_def dest: list_all2_lengthD)
  then show ?case using Cons by (simp add: replay_chunks_def replay_all_envelopes)
qed (simp add: replay_chunks_def)

lemma bt_insert_same: "bt_wf m \<Longrightarrow> map_of m k = Some v \<Longrightarrow> bt_insert k v m = m"
  by (intro bt_ext) (auto simp: fun_upd_idem)

lemma open_sealed:
  assumes "set pre \<subseteq> set cs" "post \<noteq> []" "distinct (map chunk_id pre)" "ring_ok ring" "snapshot_ok cd"
    and "side_inv lc ring stream p cs (os_dir st)" "bt_wf (pd_segments (os_dir st))"
    and "\<And>c. c \<in> set pre \<Longrightarrow> map_of (pd_segments (os_dir st)) (chunk_id c) = Some (chunk_contents c)"
  shows "\<exists>st'. open_segments lc ring cd stream p (map chunk_id (pre @ post)) st = open_segments lc ring cd stream p (map chunk_id post) st'
    \<and> os_replay st' = replay_chunks pre (os_replay st) \<and> os_truncations st' = os_truncations st
    \<and> side_inv lc ring stream p cs (os_dir st') \<and> same_store (os_dir st) (os_dir st')
    \<and> (\<forall>i. i \<notin> chunk_id ` set pre \<longrightarrow> map_of (pd_sidx (os_dir st')) i = map_of (pd_sidx (os_dir st)) i)
    \<and> (\<exists>rs. os_ranges st' = os_ranges st @ rs \<and> list_all2 range_for rs (non_empty pre))
    \<and> (\<exists>segs. os_sealed st' = os_sealed st @ segs \<and> list_all2 (sealed_for lc ring cd stream p (os_dir st')) segs pre)"
  using assms(1,3,6-8)
proof (induction pre arbitrary: st)
  case Nil
  show ?case using Nil by (intro exI [of _ st]) (simp add: replay_chunks_def same_store_def non_empty_def)
next
  case (Cons c pre)
  let ?d = "os_dir st"
  have segs: "map_of (pd_segments ?d) (chunk_id c) = Some (chunk_contents c)" using Cons.prems(5) by simp
  then have contents: "plog_contents ?d (chunk_id c) = chunk_contents c" by (simp add: plog_contents_def)
  have c: "c \<in> set cs" using Cons.prems(1) by simp
  then have stored: "list_all2 (stored_as lc ring stream p) (chunk_envelopes c) (chunk_batches c)"
    using Cons.prems(3) by (simp add: side_inv_def dir_inv_def chunk_ok_def)
  have replay: "replay_segment lc ring (plog_segment_name (chunk_id c)) False stream p (plog_contents ?d (chunk_id c)) (os_replay st)
      = (Ok 0, replay_all (chunk_envelopes c) (chunk_batches c) (os_replay st), chunk_contents c)"
    using replay_segment_whole [OF stored assms(4)] by (simp add: contents) (simp add: chunk_contents_def)
  have same: "?d = ?d\<lparr>pd_segments := bt_insert (chunk_id c) (chunk_contents c) (pd_segments ?d)\<rparr>"
    using bt_insert_same [OF Cons.prems(4) segs] by simp
  obtain st1 rs seg body where one: "open_segment lc ring cd stream p False (chunk_id c) st = (Ok (), st1)"
    "os_replay st1 = replay_all (chunk_envelopes c) (chunk_batches c) (os_replay st)" "os_truncations st1 = os_truncations st"
    "side_inv lc ring stream p cs (os_dir st1)" "same_store ?d (os_dir st1)"
    "os_ranges st1 = os_ranges st @ rs" "list_all2 range_for rs (non_empty [c])" "os_sealed st1 = os_sealed st @ [seg]"
    "pd_sidx (os_dir st1) = bt_insert (chunk_id c) body (pd_sidx ?d)" "sealed_for lc ring cd stream p (os_dir st1) seg c"
    using open_segment_chunk [OF replay same Cons.prems(3) contents c assms(4,5)] by auto
  have keep: "pd_segments (os_dir st1) = pd_segments ?d" using one(5) by (simp add: same_store_def)
  have "bt_wf (pd_sidx ?d)" using Cons.prems(3) by (simp add: side_inv_def dir_inv_def)
  then have sidx: "map_of (pd_sidx (os_dir st1)) i = map_of (pd_sidx ?d) i" if "i \<noteq> chunk_id c" for i
    using that by (simp add: one(9))
  obtain st' rs' segs' where rest: "open_segments lc ring cd stream p (map chunk_id (pre @ post)) st1
      = open_segments lc ring cd stream p (map chunk_id post) st'"
    "os_replay st' = replay_chunks pre (os_replay st1)" "os_truncations st' = os_truncations st1"
    "side_inv lc ring stream p cs (os_dir st')" "same_store (os_dir st1) (os_dir st')"
    "\<forall>i. i \<notin> chunk_id ` set pre \<longrightarrow> map_of (pd_sidx (os_dir st')) i = map_of (pd_sidx (os_dir st1)) i"
    "os_ranges st' = os_ranges st1 @ rs'" "list_all2 range_for rs' (non_empty pre)"
    "os_sealed st' = os_sealed st1 @ segs'" "list_all2 (sealed_for lc ring cd stream p (os_dir st')) segs' pre"
    using Cons.IH [OF _ _ one(4)] Cons.prems keep by auto
  have "plog_files (os_dir st') (chunk_id c) = plog_files (os_dir st1) (chunk_id c)"
    using rest(5,6) Cons.prems(2) by (intro plog_files_cong) (auto simp: same_store_def)
  then have "sealed_for lc ring cd stream p (os_dir st') seg c" using one(10) by (simp add: sealed_for_def)
  moreover have "non_empty (c # pre) = non_empty [c] @ non_empty pre" by (simp add: non_empty_def)
  moreover have "open_segments lc ring cd stream p (map chunk_id ((c # pre) @ post)) st
      = open_segments lc ring cd stream p (map chunk_id post) st'"
    using one(1) rest(1) assms(2) by simp
  ultimately show ?case
    using one rest sidx same_store_trans [OF one(5) rest(5)]
    by (intro exI [of _ st']) (auto simp: replay_chunks_def intro!: list_all2_appendI)
qed

section \<open>Opening a log\<close>

text \<open>What an append that was cut short leaves behind the last whole batch.\<close>

definition torn_tail :: "log_codec \<Rightarrow> key_ring option \<Rightarrow> string \<Rightarrow> u32 \<Rightarrow> bytes \<Rightarrow> bool" where
  "torn_tail lc ring stream p tail' \<longleftrightarrow>
     tail' = [] \<or> (\<exists>e b m. stored_as lc ring stream p e b \<and> m < length b \<and> tail' = take m b)"

lemma replay_torn_chunk:
  assumes "chunk_ok lc ring stream p c" "ring_ok ring" "torn_tail lc ring stream p tail'"
  shows "\<exists>t. replay_segment lc ring path True stream p (chunk_contents c @ tail') st
    = (Ok t, replay_all (chunk_envelopes c) (chunk_batches c) st, chunk_contents c) \<and> (tail' = [] \<longrightarrow> t = 0)"
proof -
  have stored: "list_all2 (stored_as lc ring stream p) (chunk_envelopes c) (chunk_batches c)"
    using assms(1) by (simp add: chunk_ok_def)
  show ?thesis
  proof (cases "tail' = []")
    case True
    then show ?thesis using replay_segment_whole [OF stored assms(2)] by (simp add: chunk_contents_def)
  next
    case False
    then obtain e b m where "stored_as lc ring stream p e b" "m < length b" "tail' = take m b"
      using assms(3) by (auto simp: torn_tail_def)
    then show ?thesis using replay_segment_torn [OF stored assms(2)] False by (simp add: chunk_contents_def)
  qed
qed

text \<open>The whole loop: sealed segments, then the active one with its torn tail.\<close>

lemma open_segments_torn:
  assumes side: "side_inv lc ring stream p (old @ [c]) d" and tail': "torn_tail lc ring stream p tail'"
    and segs: "pd_segments d = map (\<lambda>c. (chunk_id c, chunk_contents c)) old @ [(chunk_id c, chunk_contents c @ tail')]"
    and ring: "ring_ok ring" and cd: "snapshot_ok cd"
  shows "\<exists>st t. open_segments lc ring cd stream p (bt_keys (pd_segments d))
        \<lparr>os_dir = d, os_replay = empty_replay, os_truncations = 0, os_sealed = [], os_active_subjects = [], os_cache_bytes = 0, os_ranges = []\<rparr>
      = (Ok (), st)
    \<and> os_replay st = replay_chunks (old @ [c]) empty_replay \<and> os_truncations st = t \<and> (tail' = [] \<longrightarrow> t = 0)
    \<and> dir_inv lc ring stream p (old @ [c]) (os_dir st) \<and> pd_retention_offset (os_dir st) = pd_retention_offset d
    \<and> list_all2 range_for (os_ranges st) (non_empty (old @ [c]))
    \<and> list_all2 (sealed_for lc ring cd stream p (os_dir st)) (os_sealed st) old
    \<and> os_active_subjects st = subject_records (chunk_envelopes c)"
proof -
  let ?cs = "old @ [c]"
  let ?st0 = "\<lparr>os_dir = d, os_replay = empty_replay, os_truncations = 0, os_sealed = [], os_active_subjects = [], os_cache_bytes = 0, os_ranges = []\<rparr>"
  have fixed: "dir_inv lc ring stream p ?cs (d\<lparr>pd_segments := map (\<lambda>c. (chunk_id c, chunk_contents c)) ?cs\<rparr>)"
    using side by (simp add: side_inv_def)
  have ids: "distinct (map chunk_id ?cs)" by (rule dir_ids_distinct [OF fixed])
  have wf: "bt_wf (pd_segments d)"
    using fixed segs by (simp add: dir_inv_def bt_wf_def comp_def)
  have get: "map_of (pd_segments d) (chunk_id x) = Some (chunk_contents x)" if x: "x \<in> set old" for x
    using wf x segs by (intro map_of_is_SomeI bt_wf_distinct) auto
  obtain st1 rs sealed where one: "open_segments lc ring cd stream p (map chunk_id ?cs) ?st0
      = open_segments lc ring cd stream p [chunk_id c] st1"
    "os_replay st1 = replay_chunks old empty_replay" "os_truncations st1 = 0" "side_inv lc ring stream p ?cs (os_dir st1)"
    "same_store d (os_dir st1)" "os_ranges st1 = rs" "list_all2 range_for rs (non_empty old)" "os_sealed st1 = sealed"
    "list_all2 (sealed_for lc ring cd stream p (os_dir st1)) sealed old"
    using open_sealed [of old ?cs "[c]" ring cd lc stream p ?st0] ids ring cd side wf get by auto
  let ?d1 = "os_dir st1"
  have keep: "pd_segments ?d1 = pd_segments d" using one(5) by (simp add: same_store_def)
  have ok: "chunk_ok lc ring stream p c" using fixed by (simp add: dir_inv_def)
  have last: "map_of (pd_segments d) (chunk_id c) = Some (chunk_contents c @ tail')"
    using wf segs by (intro map_of_is_SomeI bt_wf_distinct) simp_all
  obtain t where replay: "replay_segment lc ring (plog_segment_name (chunk_id c)) True stream p (plog_contents ?d1 (chunk_id c)) (os_replay st1)
      = (Ok t, replay_all (chunk_envelopes c) (chunk_batches c) (os_replay st1), chunk_contents c)" and t: "tail' = [] \<longrightarrow> t = 0"
    using replay_torn_chunk [OF ok ring tail'] last keep by (auto simp: plog_contents_def)
  define d0 where "d0 = ?d1\<lparr>pd_segments := bt_insert (chunk_id c) (chunk_contents c) (pd_segments ?d1)\<rparr>"
  have "pd_segments d0 = map (\<lambda>c. (chunk_id c, chunk_contents c)) ?cs"
  proof -
    have "bt_insert (chunk_id c) (chunk_contents c) (pd_segments d) = bt_update (chunk_id c) (\<lambda>_. chunk_contents c) (pd_segments d)"
      by (rule bt_insert_present [OF last wf])
    also have "\<dots> = map (\<lambda>c. (chunk_id c, chunk_contents c)) ?cs"
      using ids by (auto simp: segs bt_update_def image_iff)
    finally show ?thesis by (simp add: d0_def keep)
  qed
  moreover have "side_inv lc ring stream p ?cs d0" using one(4) by (simp add: side_inv_def d0_def)
  ultimately have dir: "dir_inv lc ring stream p ?cs d0" by (simp add: dir_inv_side)
  obtain st rs' where two: "open_segment lc ring cd stream p True (chunk_id c) st1 = (Ok (), st)"
    "os_replay st = replay_all (chunk_envelopes c) (chunk_batches c) (os_replay st1)" "os_truncations st = t"
    "side_inv lc ring stream p ?cs (os_dir st)" "same_store d0 (os_dir st)" "os_ranges st = rs @ rs'"
    "list_all2 range_for rs' (non_empty [c])" "os_active_subjects st = subject_records (chunk_envelopes c)"
    "os_sealed st = sealed" "pd_sidx (os_dir st) = pd_sidx d0"
    using open_segment_chunk [OF replay d0_def _ _ _ ring cd, of ?cs] dir contents_of_chunk [OF dir, of c] one(3,6,8)
    by (auto simp: dir_inv_side)
  have same: "plog_files (os_dir st) (chunk_id x) = plog_files ?d1 (chunk_id x)" if x: "x \<in> set old" for x
  proof -
    have "chunk_id x \<noteq> chunk_id c" using ids x by (auto simp: image_iff)
    then have "plog_files d0 (chunk_id x) = plog_files ?d1 (chunk_id x)"
      using wf keep by (simp add: d0_def plog_files_def plog_contents_def)
    moreover have "plog_files (os_dir st) (chunk_id x) = plog_files d0 (chunk_id x)"
      using two(5,10) by (intro plog_files_cong) (simp_all add: same_store_def)
    ultimately show ?thesis by simp
  qed
  have "list_all2 (sealed_for lc ring cd stream p (os_dir st)) sealed old"
    using one(9) by (rule list_all2_keep) (simp add: sealed_for_def same)
  moreover have "list_all2 range_for (rs @ rs') (non_empty ?cs)"
    using one(7) two(7) by (simp add: non_empty_append list_all2_appendI)
  moreover have "dir_inv lc ring stream p ?cs (os_dir st)"
    using two(4,5) dir by (simp add: dir_inv_side same_store_def)
  moreover have "pd_retention_offset (os_dir st) = pd_retention_offset d" using two(5) one(5) by (simp add: same_store_def d0_def)
  moreover have "open_segments lc ring cd stream p (bt_keys (pd_segments d)) ?st0 = (Ok (), st)"
    using one(1) two(1) segs by (simp add: comp_def)
  moreover have "os_replay st = replay_chunks ?cs empty_replay" using two(2) one(2) by (simp add: replay_chunks_def)
  ultimately show ?thesis using two t by (intro exI [of _ st] exI [of _ t] conjI) simp_all
qed

lemma open_torn:
  assumes side: "side_inv lc ring stream p (old @ [c]) d" and tail': "torn_tail lc ring stream p tail'"
    and segs: "pd_segments d = map (\<lambda>c. (chunk_id c, chunk_contents c)) old @ [(chunk_id c, chunk_contents c @ tail')]"
    and ring: "ring_ok ring" and cd: "snapshot_ok cd"
  shows "\<exists>log d' t. plog_open lc ring cd stream p segment_bytes d
      = (Ok (log, map into_resident_metadata (records_of (old @ [c])), t), d') \<and> (tail' = [] \<longrightarrow> t = 0)
    \<and> plog_inv lc cd (old @ [c]) log d' \<and> pl_encryption log = ring \<and> pl_stream log = stream \<and> pl_partition log = p
    \<and> pl_segment_bytes log = segment_bytes
    \<and> read_retention_offset d' = read_retention_offset d
    \<and> pl_retention_records log = rp_retention_records (replay_chunks (old @ [c]) empty_replay)
    \<and> pl_retained_bytes log = rp_retained_bytes (replay_chunks (old @ [c]) empty_replay)"
proof -
  let ?cs = "old @ [c]"
  let ?st0 = "\<lparr>os_dir = d, os_replay = empty_replay, os_truncations = 0, os_sealed = [], os_active_subjects = [], os_cache_bytes = 0, os_ranges = []\<rparr>"
  obtain st t where run: "open_segments lc ring cd stream p (bt_keys (pd_segments d)) ?st0 = (Ok (), st)"
    and st: "os_replay st = replay_chunks ?cs empty_replay" "os_truncations st = t" "tail' = [] \<longrightarrow> t = 0"
    "dir_inv lc ring stream p ?cs (os_dir st)" "pd_retention_offset (os_dir st) = pd_retention_offset d"
    "list_all2 range_for (os_ranges st) (non_empty ?cs)"
    "list_all2 (sealed_for lc ring cd stream p (os_dir st)) (os_sealed st) old"
    "os_active_subjects st = subject_records (chunk_envelopes c)"
    using open_segments_torn [OF side tail' segs ring cd] by blast
  let ?d' = "os_dir st"
  have markers: "pd_rewrite_marker d = None" "pd_compaction_marker d = None"
    using side by (simp_all add: side_inv_def dir_inv_def)
  obtain n where n: "read_retention_offset ?d' = Ok n" using st(4) by (auto simp: dir_inv_def)
  have offset: "read_retention_offset d = read_retention_offset ?d'" using st(5) by (simp add: read_retention_offset_def)
  have envelopes: "rp_envelopes (os_replay st) = map into_resident_metadata (records_of ?cs)"
  proof -
    have "chunk_ok lc ring stream p x" if "x \<in> set ?cs" for x using that st(4) unfolding dir_inv_def by blast
    from replay_chunks_envelopes [of ?cs lc ring stream p empty_replay, OF this] show ?thesis by (simp add: st(1) empty_replay_def)
  qed
  have sorted: "sorted_wrt (<) (map en_offset (rp_envelopes (os_replay st)))"
    unfolding envelopes resident_offsets using st(4) by (simp add: dir_inv_def)
  then have sorted_id: "sort_key en_offset (rp_envelopes (os_replay st)) = rp_envelopes (os_replay st)"
    by (intro sort_key_id_if_sorted strict_sorted_imp_sorted)
  have last_id: "last (bt_keys (pd_segments d)) = chunk_id c" by (simp add: segs)
  have bytes: "plog_contents ?d' (chunk_id c) = chunk_contents c" by (rule contents_of_chunk [OF st(4)]) simp
  define log where "log = \<lparr>pl_stream = stream, pl_partition = p, pl_file = True, pl_segment_id = chunk_id c,
      pl_active_bytes = length (chunk_contents c), pl_segment_bytes = segment_bytes, pl_next_offset = next_offset_of ?cs n,
      pl_segment_ranges = os_ranges st, pl_sealed_subject_segments = os_sealed st, pl_active_subjects = os_active_subjects st,
      pl_subject_index_cache_bytes = os_cache_bytes st, pl_retention_records = rp_retention_records (os_replay st),
      pl_retained_bytes = rp_retained_bytes (os_replay st), pl_deleted_messages = 0, pl_deleted_bytes = 0, pl_encryption = ring\<rparr>"
  have next_off: "(if rp_envelopes (os_replay st) = [] then n
      else max n (sat_add64 (en_offset (last (rp_envelopes (os_replay st)))) 1)) = next_offset_of ?cs n"
    unfolding envelopes next_offset_of_def by (simp add: last_map into_resident_metadata_def del: map_append records_of_simps)
  have "plog_open lc ring cd stream p segment_bytes d = (Ok (log, map into_resident_metadata (records_of ?cs), t), ?d')"
  proof -
    have "install_pending_rewrite d = (Ok (), d)" "install_pending_segment_compaction d = (Ok (), d)"
      using markers by (simp_all add: install_pending_rewrite_def install_pending_segment_compaction_def)
    moreover have "pd_segments d \<noteq> []" by (simp add: segs)
    ultimately show ?thesis
      unfolding envelopes [symmetric]
      using run sorted n sorted_id next_off last_id bytes st(2) by (simp add: plog_open_def log_def)
  qed
  moreover have "plog_inv lc cd ?cs log ?d'"
    using ring cd st n by (simp add: plog_inv_def log_inv_def log_def)
  ultimately show ?thesis using st offset by (intro exI [of _ log] exI [of _ ?d'] exI [of _ t]) (simp add: log_def)
qed

lemma open_whole:
  assumes dir: "dir_inv lc ring stream p cs d" and ring: "ring_ok ring" and cd: "snapshot_ok cd"
  shows "\<exists>log d'. plog_open lc ring cd stream p segment_bytes d = (Ok (log, map into_resident_metadata (records_of cs), 0), d')
    \<and> plog_inv lc cd cs log d' \<and> pl_encryption log = ring \<and> pl_stream log = stream \<and> pl_partition log = p
    \<and> pl_segment_bytes log = segment_bytes
    \<and> read_retention_offset d' = read_retention_offset d
    \<and> pl_retention_records log = rp_retention_records (replay_chunks cs empty_replay)
    \<and> pl_retained_bytes log = rp_retained_bytes (replay_chunks cs empty_replay)"
proof -
  have cs: "cs = butlast cs @ [last cs]" using dir by (simp add: dir_inv_def)
  have "side_inv lc ring stream p (butlast cs @ [last cs]) d"
    "pd_segments d = map (\<lambda>c. (chunk_id c, chunk_contents c)) (butlast cs) @ [(chunk_id (last cs), chunk_contents (last cs) @ [])]"
    using dir cs by (simp add: dir_inv_side) (metis (no_types, lifting) append_Nil2 cs dir dir_inv_side list.simps(8,9) map_append)
  from open_torn [OF this(1) _ this(2) ring cd, of segment_bytes] show ?thesis
    unfolding cs [symmetric] by (simp add: torn_tail_def)
qed

end
