(* ===== verification/Partition_Rewrite.thy ===== *)
theory Partition_Rewrite
  imports Partition_Open
begin

text \<open>
  Rewriting a partition log (\<open>crates/server/src/partition_log/log.rs\<close>): retention replaces the
  segments by one that holds the retained records, through a temporary file and a marker. The
  sequence of file system calls is made explicit to say what a crash between any two of them
  leaves.
\<close>

section \<open>A rewrite without a crash\<close>

lemma write_batches_stored:
  "list_all2 (stored_as lc ring stream p) es bs \<Longrightarrow> write_batches lc ring es = (Ok (), concat bs)"
  by (induction es bs rule: list_all2_induct) (simp_all add: stored_as_def)

lemma fold_remove_segments:
  "pd_segments (fold remove_segment_files is d) = fold bt_remove is (pd_segments d)"
  "pd_index (fold remove_segment_files is d) = fold bt_remove is (pd_index d)"
  "pd_sidx (fold remove_segment_files is d) = fold bt_remove is (pd_sidx d)"
  "pd_retention_offset (fold remove_segment_files is d) = pd_retention_offset d"
  "pd_rewrite_tmp (fold remove_segment_files is d) = pd_rewrite_tmp d"
  "pd_rewrite_marker (fold remove_segment_files is d) = pd_rewrite_marker d"
  "pd_compaction_tmp (fold remove_segment_files is d) = pd_compaction_tmp d"
  "pd_compaction_marker (fold remove_segment_files is d) = pd_compaction_marker d"
  by (induction "is" arbitrary: d) (simp_all add: remove_segment_files_def)

lemma bt_remove_filter: "fold bt_remove ks m = filter (\<lambda>x. fst x \<notin> set ks) m"
  by (induction ks arbitrary: m) (auto simp: bt_remove_def intro!: filter_cong)

text \<open>The directory a rewrite ends with.\<close>

definition rewritten_dir :: "bytes \<Rightarrow> u64 \<Rightarrow> plog_dir \<Rightarrow> plog_dir" where
  "rewritten_dir tmp n d =
     d\<lparr>pd_segments := [(1, tmp)], pd_index := filter (\<lambda>x. fst x \<notin> fst ` set (pd_segments d)) (pd_index d),
       pd_sidx := filter (\<lambda>x. fst x \<notin> fst ` set (pd_segments d)) (pd_sidx d),
       pd_retention_offset := Some (to_le_bytes 8 n), pd_rewrite_tmp := None, pd_rewrite_marker := None\<rparr>"

lemma marker_read_back: "n \<le> u64_max \<Longrightarrow> from_le_bytes (to_le_bytes 8 n) = n"
  by (intro from_to_le_bytes u_max_less)

lemma install_rewrite:
  assumes "pd_rewrite_marker d = Some (to_le_bytes 8 n)" "pd_rewrite_tmp d = Some tmp" "n \<le> u64_max"
  shows "install_pending_rewrite d = (Ok (), rewritten_dir tmp n d)"
proof -
  have "filter (\<lambda>x. fst x \<notin> fst ` set (pd_segments d)) (pd_segments d) = []" by (auto simp: filter_empty_conv)
  then show ?thesis
    using assms by (simp add: install_pending_rewrite_def Let_def marker_read_back rewritten_dir_def persist_retention_offset_def
        fold_remove_segments bt_remove_filter)
qed

lemma index_file_good_None: "index_file_good c None"
  by (auto simp: index_file_good_def index_bytes_def index_good_def intro!: exI [of _ "[]"])

lemma rewritten_dir_inv:
  assumes dir: "dir_inv lc ring stream p cs d" and stored: "list_all2 (stored_as lc ring stream p) es bs"
    and sorted: "sorted_wrt (<) (map en_offset es)" and room: "length (SEGMENT_HEADER @ concat bs) \<le> u64_max"
  shows "dir_inv lc ring stream p [(1, es, bs)] (rewritten_dir (SEGMENT_HEADER @ concat bs) n d)"
proof -
  have "filter (\<lambda>x. fst x \<notin> fst ` set (pd_segments d)) (pd_index d) = []"
    using dir by (force simp: dir_inv_def filter_empty_conv image_image)
  then show ?thesis
    using assms index_file_good_None by (simp add: dir_inv_def rewritten_dir_def chunk_ok_def chunk_contents_def u64_max_def
        read_retention_offset_def)
qed

lemma rewrite_keeps:
  assumes inv: "plog_inv lc cd cs log d"
    and stored: "list_all2 (stored_as lc (pl_encryption log) (pl_stream log) (pl_partition log)) es bs"
    and sorted: "sorted_wrt (<) (map en_offset es)" and room: "length (SEGMENT_HEADER @ concat bs) \<le> u64_max"
    and n: "n = max (if es = [] then 0 else sat_add64 (en_offset (last es)) 1) (case floor' of None \<Rightarrow> 0 | Some k \<Rightarrow> k)"
      "n \<le> u64_max" "es \<noteq> [] \<Longrightarrow> en_offset (last es) < n"
  shows "\<exists>log' d'. plog_rewrite lc cd es floor' log d = (Ok (), log', d') \<and> plog_inv lc cd [(1, es, bs)] log' d'
    \<and> pl_next_offset log' = n \<and> pl_encryption log' = pl_encryption log \<and> pl_stream log' = pl_stream log
    \<and> pl_partition log' = pl_partition log \<and> pl_segment_bytes log' = pl_segment_bytes log
    \<and> pl_deleted_messages log' = pl_deleted_messages log \<and> pl_deleted_bytes log' = pl_deleted_bytes log
    \<and> pl_retention_records log' = rp_retention_records (replay_chunks [(1, es, bs)] empty_replay)
    \<and> pl_retained_bytes log' = rp_retained_bytes (replay_chunks [(1, es, bs)] empty_replay)"
proof -
  let ?ring = "pl_encryption log" and ?tmp = "SEGMENT_HEADER @ concat bs"
  have dir: "dir_inv lc ?ring (pl_stream log) (pl_partition log) cs d" and ring: "ring_ok ?ring" and cd: "snapshot_ok cd"
    using inv by (simp_all add: plog_inv_def)
  let ?d1 = "d\<lparr>pd_rewrite_tmp := Some ?tmp, pd_rewrite_marker := Some (to_le_bytes 8 n)\<rparr>"
  have stage: "stage_rewrite lc ?ring es n d = (Ok (), ?d1)"
    using sorted n(3) write_batches_stored [OF stored] by (auto simp: stage_rewrite_def)
  have install: "install_pending_rewrite ?d1 = (Ok (), rewritten_dir ?tmp n ?d1)"
    by (rule install_rewrite) (simp_all add: n(2))
  have "rewritten_dir ?tmp n ?d1 = rewritten_dir ?tmp n d" by (simp add: rewritten_dir_def)
  then have dir': "dir_inv lc ?ring (pl_stream log) (pl_partition log) [(1, es, bs)] (rewritten_dir ?tmp n ?d1)"
    using rewritten_dir_inv [OF dir stored sorted room] by simp
  obtain log' d' where op: "plog_open lc ?ring cd (pl_stream log) (pl_partition log) (pl_segment_bytes log) (rewritten_dir ?tmp n ?d1)
        = (Ok (log', map into_resident_metadata (records_of [(1, es, bs)]), 0), d')"
    and inv': "plog_inv lc cd [(1, es, bs)] log' d'" and same: "pl_encryption log' = ?ring" "pl_stream log' = pl_stream log"
    "pl_partition log' = pl_partition log" "pl_segment_bytes log' = pl_segment_bytes log"
    "read_retention_offset d' = read_retention_offset (rewritten_dir ?tmp n ?d1)"
    "pl_retention_records log' = rp_retention_records (replay_chunks [(1, es, bs)] empty_replay)"
    "pl_retained_bytes log' = rp_retained_bytes (replay_chunks [(1, es, bs)] empty_replay)"
    using open_whole [OF dir' ring cd, of "pl_segment_bytes log"] by blast
  let ?log' = "log'\<lparr>pl_deleted_messages := pl_deleted_messages log, pl_deleted_bytes := pl_deleted_bytes log\<rparr>"
  have "pl_next_offset log' = n"
  proof -
    have "read_retention_offset d' = Ok n"
      using same(5) n(2) by (simp add: read_retention_offset_def rewritten_dir_def marker_read_back)
    moreover have "sat_add64 (en_offset (last es)) 1 \<le> n" if "es \<noteq> []" using n(1) that by simp
    ultimately show ?thesis using inv' by (auto simp: plog_inv_def log_inv_def next_offset_of_def)
  qed
  moreover have "plog_rewrite lc cd es floor' log d = (Ok (), ?log', d')"
    using stage install op by (simp add: plog_rewrite_def plog_flush_def n(1))
  moreover have "plog_inv lc cd [(1, es, bs)] ?log' d'" using inv' by (simp add: plog_inv_def log_inv_def)
  ultimately show ?thesis using same by auto
qed

section \<open>Retention\<close>

definition batches_of :: "chunk list \<Rightarrow> bytes list" where
  "batches_of cs = concat (map chunk_batches cs)"

text \<open>All batches of the log fit in one segment file.\<close>

definition log_fits :: "chunk list \<Rightarrow> bool" where
  "log_fits cs \<longleftrightarrow> length (SEGMENT_HEADER @ concat (batches_of cs)) \<le> u64_max"

lemma records_stored:
  "(\<And>c. c \<in> set cs \<Longrightarrow> chunk_ok lc ring stream p c) \<Longrightarrow> list_all2 (stored_as lc ring stream p) (records_of cs) (batches_of cs)"
  by (induction cs) (auto simp: batches_of_def chunk_ok_def intro!: list_all2_appendI)

lemma list_all2_filter:
  "list_all2 P xs ys \<Longrightarrow> \<exists>zs. list_all2 P (filter Q xs) zs \<and> length (concat zs) \<le> length (concat ys)"
proof (induction xs ys rule: list_all2_induct)
  case (Cons x xs y ys)
  then obtain zs where zs: "list_all2 P (filter Q xs) zs" "length (concat zs) \<le> length (concat ys)" by blast
  show ?case
  proof (cases "Q x")
    case True
    then show ?thesis using Cons.hyps(1) zs by (intro exI [of _ "y # zs"]) simp
  next
    case False
    then show ?thesis using zs by (intro exI [of _ zs]) simp
  qed
qed simp

lemma filter_stored:
  assumes "dir_inv lc ring stream p cs d" "log_fits cs"
  shows "\<exists>bs. list_all2 (stored_as lc ring stream p) (filter Q (records_of cs)) bs \<and> length (SEGMENT_HEADER @ concat bs) \<le> u64_max"
proof -
  have "list_all2 (stored_as lc ring stream p) (records_of cs) (batches_of cs)"
    using assms(1) by (intro records_stored) (simp add: dir_inv_def)
  from list_all2_filter [OF this, of Q] show ?thesis using assms(2) by (auto simp: log_fits_def)
qed

text \<open>Collecting the records at the offsets from the floor is filtering them.\<close>

lemma read_present_find:
  assumes "plog_inv lc cd cs log d"
  shows "read_present lc log d offsets = Ok (List.map_filter (\<lambda>n. find (\<lambda>e. en_offset e = n) (records_of cs)) offsets)"
  by (induction offsets) (simp_all add: read_offset_find [OF assms] List.map_filter_def split: option.splits)

lemma collect_range:
  assumes "sorted_wrt (<) (map en_offset es)" "\<And>e. e \<in> set es \<Longrightarrow> en_offset e < m"
  shows "List.map_filter (\<lambda>n. find (\<lambda>e. en_offset e = n) es) [a..<m] = filter (\<lambda>e. a \<le> en_offset e) es"
  using assms
proof (induction m arbitrary: es)
  case 0
  then have "es = []" by (cases es) auto
  then show ?case by (simp add: List.map_filter_def)
next
  case (Suc m)
  let ?f = "\<lambda>n. find (\<lambda>e. en_offset e = n) es"
  show ?case
  proof (cases "es \<noteq> [] \<and> en_offset (last es) = m")
    case False
    have "en_offset e < m" if e: "e \<in> set es" for e
    proof -
      have "es \<noteq> []" using e by auto
      moreover from this have "en_offset (last es) < Suc m" by (intro Suc.prems(2) last_in_set)
      moreover have "en_offset e \<le> en_offset (last es)" using sorted_offset_bounds [OF Suc.prems(1) e] by simp
      ultimately show ?thesis using False by auto
    qed
    moreover from this have "?f m = None" by (auto simp: find_None_iff)
    ultimately show ?thesis using Suc.IH [OF Suc.prems(1)]
      by (cases "a \<le> m") (auto simp: List.map_filter_def filter_empty_conv)
  next
    case True
    then obtain ys y where es: "es = ys @ [y]" and y: "en_offset y = m" by (metis append_butlast_last_id)
    have below: "en_offset e < m" if "e \<in> set ys" for e using Suc.prems(1) that y es by (simp add: sorted_wrt_append)
    have "find (\<lambda>e. en_offset e = m) ys = None" using below by (auto simp: find_None_iff)
    then have here: "?f m = Some y" using es y by (simp add: find_append)
    have "List.map_filter ?f [a..<m] = List.map_filter (\<lambda>n. find (\<lambda>e. en_offset e = n) ys) [a..<m]"
      unfolding List.map_filter_def using es y
      by (intro arg_cong [of _ _ "map _"] map_cong filter_cong) (auto simp: find_append split: option.splits)
    also have "\<dots> = filter (\<lambda>e. a \<le> en_offset e) ys"
      using Suc.prems(1) below es by (intro Suc.IH) (simp_all add: sorted_wrt_append)
    finally have rest: "List.map_filter ?f [a..<m] = filter (\<lambda>e. a \<le> en_offset e) ys" .
    show ?thesis
    proof (cases "a \<le> m")
      case True
      then show ?thesis using rest here es y by (simp add: List.map_filter_def)
    next
      case False
      then have "filter (\<lambda>e. a \<le> en_offset e) ys = []" using below by (fastforce simp: filter_empty_conv)
      then show ?thesis using False es y by (simp add: List.map_filter_def)
    qed
  qed
qed

lemma advance_floor_keeps:
  assumes inv: "plog_inv lc cd cs log d" and fits: "log_fits cs" and small: "pl_next_offset log < u64_max"
    and floor': "earliest \<le> pl_next_offset log"
  defines "retained \<equiv> filter (\<lambda>e. earliest \<le> en_offset e) (records_of cs)"
  shows "\<exists>log' d' bs. advance_retention_floor lc cd earliest log d = (Ok (), log', d')
    \<and> plog_inv lc cd [(1, retained, bs)] log' d'
    \<and> pl_next_offset log' = max (if retained = [] then 0 else en_offset (last retained) + 1) earliest
    \<and> pl_encryption log' = pl_encryption log \<and> pl_stream log' = pl_stream log \<and> pl_partition log' = pl_partition log"
proof -
  have dir: "dir_inv lc (pl_encryption log) (pl_stream log) (pl_partition log) cs d" using inv by (simp add: plog_inv_def)
  then have sorted: "sorted_wrt (<) (map en_offset (records_of cs))" by (simp add: dir_inv_def)
  have read: "read_present lc log d [earliest..<pl_next_offset log] = Ok retained"
    unfolding read_present_find [OF inv] retained_def
    using collect_range [OF sorted offsets_below_next [OF inv small]] by simp
  obtain bs where bs: "list_all2 (stored_as lc (pl_encryption log) (pl_stream log) (pl_partition log)) retained bs"
    "length (SEGMENT_HEADER @ concat bs) \<le> u64_max"
    using filter_stored [OF dir fits] unfolding retained_def by blast
  have below: "en_offset (last retained) < pl_next_offset log" if "retained \<noteq> []"
    using that offsets_below_next [OF inv small] last_in_set [OF that] by (auto simp: retained_def)
  let ?n = "max (if retained = [] then 0 else en_offset (last retained) + 1) earliest"
  have n: "?n = max (if retained = [] then 0 else sat_add64 (en_offset (last retained)) 1) (case Some earliest of None \<Rightarrow> 0 | Some k \<Rightarrow> k)"
    using below small by (auto simp: sat_add64_exact)
  have "sorted_wrt (<) (map en_offset retained)"
    using sorted unfolding retained_def by (simp add: sorted_wrt_map sorted_wrt_filter)
  moreover have "?n \<le> u64_max" "retained \<noteq> [] \<Longrightarrow> en_offset (last retained) < ?n"
    using below floor' small by (cases "retained = []") auto
  ultimately obtain log' d' where "plog_rewrite lc cd retained (Some earliest) log d = (Ok (), log', d')"
    "plog_inv lc cd [(1, retained, bs)] log' d'" "pl_next_offset log' = ?n" "pl_encryption log' = pl_encryption log"
    "pl_stream log' = pl_stream log" "pl_partition log' = pl_partition log"
    using rewrite_keeps [OF inv bs(1) _ bs(2) n] by blast
  then show ?thesis using read floor' by (auto simp: advance_retention_floor_def)
qed

end
