(* ===== verification/Partition_Crash.thy ===== *)
theory Partition_Crash
  imports Partition_Rewrite
begin

text \<open>
  Crashes inside a rewrite of a partition log (\<open>crates/server/src/partition_log/log.rs\<close>). The calls
  that \<open>stage_rewrite\<close> and \<open>install_pending_rewrite\<close> make on the directory are a list of
  operations whose run is what the two functions compute; a crash leaves the directory after
  some of them.
\<close>

section \<open>The calls of a rewrite\<close>

datatype rewrite_op =
    CreateTmp
  | AppendTmp bytes
  | WriteMarker bytes
  | RemoveSegment u64
  | RemoveIndex u64
  | RemoveSubjectIndex u64
  | RenameTmp
  | PersistOffset u64
  | RemoveMarker

fun run_op :: "rewrite_op \<Rightarrow> plog_dir \<Rightarrow> plog_dir" where
  "run_op CreateTmp d = d\<lparr>pd_rewrite_tmp := Some SEGMENT_HEADER\<rparr>"
| "run_op (AppendTmp b) d = d\<lparr>pd_rewrite_tmp := map_option (\<lambda>old. old @ b) (pd_rewrite_tmp d)\<rparr>"
| "run_op (WriteMarker m) d = d\<lparr>pd_rewrite_marker := Some m\<rparr>"
| "run_op (RemoveSegment i) d = d\<lparr>pd_segments := bt_remove i (pd_segments d)\<rparr>"
| "run_op (RemoveIndex i) d = d\<lparr>pd_index := bt_remove i (pd_index d)\<rparr>"
| "run_op (RemoveSubjectIndex i) d = d\<lparr>pd_sidx := bt_remove i (pd_sidx d)\<rparr>"
| "run_op RenameTmp d =
     (case pd_rewrite_tmp d of None \<Rightarrow> d | Some tmp \<Rightarrow> d\<lparr>pd_segments := bt_insert 1 tmp (pd_segments d), pd_rewrite_tmp := None\<rparr>)"
| "run_op (PersistOffset n) d = persist_retention_offset n d"
| "run_op RemoveMarker d = d\<lparr>pd_rewrite_marker := None\<rparr>"

definition stage_ops :: "bytes list \<Rightarrow> rewrite_op list" where
  "stage_ops bs = CreateTmp # map AppendTmp bs"

definition remove_ops :: "u64 list \<Rightarrow> rewrite_op list" where
  "remove_ops ids = concat (map (\<lambda>i. [RemoveSegment i, RemoveIndex i, RemoveSubjectIndex i]) ids)"

definition rewrite_ops :: "bytes list \<Rightarrow> u64 \<Rightarrow> u64 list \<Rightarrow> rewrite_op list" where
  "rewrite_ops bs n ids = stage_ops bs @ WriteMarker (to_le_bytes 8 n) # remove_ops ids @ [RenameTmp, PersistOffset n, RemoveMarker]"

lemma run_appends:
  "fold run_op (map AppendTmp bs) d = d\<lparr>pd_rewrite_tmp := map_option (\<lambda>old. old @ concat bs) (pd_rewrite_tmp d)\<rparr>"
  by (induction bs arbitrary: d) (simp_all add: option.map_comp comp_def option.map_ident)

lemma run_stage: "fold run_op (stage_ops bs) d = d\<lparr>pd_rewrite_tmp := Some (SEGMENT_HEADER @ concat bs)\<rparr>"
  by (simp add: stage_ops_def run_appends)

lemma run_removes: "fold run_op (remove_ops ids) d = fold remove_segment_files ids d"
  by (induction ids arbitrary: d) (simp_all add: remove_ops_def remove_segment_files_def)

text \<open>Run to the end, the calls are the two functions.\<close>

lemma rewrite_ops_run:
  assumes "stage_rewrite lc ring es n d = (Ok (), d1)" "list_all2 (stored_as lc ring stream p) es bs" "n \<le> u64_max"
  shows "install_pending_rewrite d1 = (Ok (), fold run_op (rewrite_ops bs n (bt_keys (pd_segments d))) d)"
proof -
  have d1: "d1 = d\<lparr>pd_rewrite_tmp := Some (SEGMENT_HEADER @ concat bs), pd_rewrite_marker := Some (to_le_bytes 8 n)\<rparr>"
    using assms(1) write_batches_stored [OF assms(2)] by (auto simp: stage_rewrite_def split: if_splits)
  have "fold run_op (rewrite_ops bs n (bt_keys (pd_segments d))) d
      = fold run_op [RenameTmp, PersistOffset n, RemoveMarker] (fold remove_segment_files (bt_keys (pd_segments d1)) d1)"
    by (simp add: rewrite_ops_def run_stage run_removes d1)
  then show ?thesis
    using assms(3) d1 by (simp add: install_pending_rewrite_def Let_def marker_read_back fold_remove_segments)
qed

section \<open>Opening after a crash\<close>

text \<open>With one segment and nothing pending, a log opens to its records whatever the index files hold.\<close>

lemma open_single:
  assumes segs: "pd_segments d = [(1, SEGMENT_HEADER @ concat bs)]"
    and stored: "list_all2 (stored_as lc ring stream p) es bs" and ring: "ring_ok ring"
    and sorted: "sorted_wrt (<) (map en_offset es)"
    and pending: "pd_rewrite_marker d = None" "pd_compaction_marker d = None" "read_retention_offset d = Ok n"
  shows "\<exists>log d'. plog_open lc ring cd stream p segment_bytes d = (Ok (log, map into_resident_metadata es, 0), d')
    \<and> pl_next_offset log = next_offset_of [(1, es, bs)] n
    \<and> (bt_contains 1 (pd_index d) \<longrightarrow> d' = d \<and> pl_segment_ranges log = range_of 1 (map into_resident_metadata es) (load_sparse_index d 1))
    \<and> pl_encryption log = ring"
proof -
  let ?st0 = "\<lparr>os_dir = d, os_replay = empty_replay, os_truncations = 0, os_sealed = [], os_active_subjects = [], os_cache_bytes = 0, os_ranges = []\<rparr>"
  have contents: "plog_contents d 1 = SEGMENT_HEADER @ concat bs" by (simp add: plog_contents_def segs)
  have replay: "replay_segment lc ring (plog_segment_name 1) True stream p (plog_contents d 1) empty_replay
      = (Ok 0, replay_all es bs empty_replay, SEGMENT_HEADER @ concat bs)"
    unfolding contents by (rule replay_segment_whole [OF stored ring])
  have new: "rp_envelopes (replay_all es bs empty_replay) = map into_resident_metadata es"
    using replay_all_envelopes [OF list_all2_lengthD [OF stored], of empty_replay] by (simp add: empty_replay_def)
  have same: "d\<lparr>pd_segments := bt_insert 1 (SEGMENT_HEADER @ concat bs) (pd_segments d)\<rparr> = d" by (simp add: segs)
  obtain d' where d': "(if \<not> bt_contains 1 (pd_index d) then rebuild_index lc ring stream p 1 d else Ok d) = Ok d'"
    and keep: "pd_retention_offset d' = pd_retention_offset d" "pd_segments d' = pd_segments d"
  proof (cases "bt_contains 1 (pd_index d)")
    case True
    then show ?thesis by (intro that [of d]) simp_all
  next
    case False
    then show ?thesis
      using index_entries_stored [OF stored ring, of SEGMENT_HEADER_LEN]
      by (intro that [of "d\<lparr>pd_index := bt_insert 1 (index_bytes (stride_entries es bs SEGMENT_HEADER_LEN)) (pd_index d)\<rparr>"])
        (simp_all add: rebuild_index_def contents validate_header del: One_nat_def)
  qed
  define st where "st = ?st0\<lparr>os_dir := d', os_replay := replay_all es bs empty_replay,
      os_ranges := range_of 1 (map into_resident_metadata es) (load_sparse_index d' 1), os_active_subjects := subject_records es\<rparr>"
  have run: "open_segments lc ring cd stream p [1] ?st0 = (Ok (), st)"
    using replay new same d' by (simp add: open_segment_def Let_def st_def empty_replay_def del: One_nat_def split: if_splits)
  let ?envelopes = "rp_envelopes (os_replay st)"
  have envelopes: "?envelopes = map into_resident_metadata es" by (simp add: st_def new)
  have sorted': "sorted_wrt (<) (map en_offset ?envelopes)" unfolding envelopes resident_offsets by (rule sorted)
  then have id: "sort_key en_offset ?envelopes = ?envelopes"
    by (intro sort_key_id_if_sorted strict_sorted_imp_sorted)
  have next_off: "(if ?envelopes = [] then n else max n (sat_add64 (en_offset (last ?envelopes)) 1)) = next_offset_of [(1, es, bs)] n"
    unfolding envelopes by (simp add: next_offset_of_def last_map into_resident_metadata_def)
  have st: "os_dir st = d'" "os_truncations st = 0" "os_ranges st = range_of 1 ?envelopes (load_sparse_index d' 1)"
    by (simp_all add: st_def new)
  define log where "log = \<lparr>pl_stream = stream, pl_partition = p, pl_file = True, pl_segment_id = 1,
      pl_active_bytes = length (plog_contents d' 1), pl_segment_bytes = segment_bytes, pl_next_offset = next_offset_of [(1, es, bs)] n,
      pl_segment_ranges = os_ranges st, pl_sealed_subject_segments = os_sealed st, pl_active_subjects = os_active_subjects st,
      pl_subject_index_cache_bytes = os_cache_bytes st, pl_retention_records = rp_retention_records (os_replay st),
      pl_retained_bytes = rp_retained_bytes (os_replay st), pl_deleted_messages = 0, pl_deleted_bytes = 0, pl_encryption = ring\<rparr>"
  have "install_pending_rewrite d = (Ok (), d)" "install_pending_segment_compaction d = (Ok (), d)"
    using pending by (simp_all add: install_pending_rewrite_def install_pending_segment_compaction_def)
  moreover have "read_retention_offset d' = Ok n" using pending(3) keep by (simp add: read_retention_offset_def)
  ultimately have "plog_open lc ring cd stream p segment_bytes d = (Ok (log, ?envelopes, 0), d')"
    using run sorted' id segs st next_off by (cases "?envelopes = []") (simp_all add: plog_open_def log_def Let_def del: One_nat_def)
  moreover have "bt_contains 1 (pd_index d) \<longrightarrow> d' = d" using d' by auto
  ultimately show ?thesis
    using st unfolding envelopes by (intro exI [of _ log] exI [of _ d']) (auto simp: log_def simp del: One_nat_def)
qed

lemma plog_open_installed:
  assumes "install_pending_rewrite d = (Ok (), d')" "pd_rewrite_marker d' = None"
  shows "plog_open lc ring cd stream p segment_bytes d = plog_open lc ring cd stream p segment_bytes d'"
  using assms by (simp add: plog_open_def install_pending_rewrite_def)

lemma staged_prefix: "\<exists>x. fold run_op (take k (stage_ops bs)) d = d\<lparr>pd_rewrite_tmp := x\<rparr>"
proof (cases k)
  case 0
  then show ?thesis by (intro exI [of _ "pd_rewrite_tmp d"]) simp
next
  case (Suc j)
  then show ?thesis
    by (intro exI [of _ "Some (SEGMENT_HEADER @ concat (take j bs))"]) (simp add: stage_ops_def take_map run_appends)
qed

definition removal :: "rewrite_op \<Rightarrow> bool" where
  "removal op \<longleftrightarrow> (case op of RemoveSegment _ \<Rightarrow> True | RemoveIndex _ \<Rightarrow> True | RemoveSubjectIndex _ \<Rightarrow> True | _ \<Rightarrow> False)"

lemma removals_keep:
  assumes "list_all removal ops"
  shows "pd_rewrite_tmp (fold run_op ops d) = pd_rewrite_tmp d \<and> pd_rewrite_marker (fold run_op ops d) = pd_rewrite_marker d
    \<and> pd_compaction_marker (fold run_op ops d) = pd_compaction_marker d"
  using assms
proof (induction ops arbitrary: d)
  case (Cons op ops)
  then show ?case by (cases op) (simp_all add: removal_def)
qed simp

lemma remove_ops_removal: "list_all removal (remove_ops ids)"
  by (induction ids) (simp_all add: remove_ops_def removal_def)

text \<open>From the marker on, opening first completes the rewrite.\<close>

lemma crash_installs:
  assumes marker: "pd_rewrite_marker d = Some (to_le_bytes 8 n)" "pd_rewrite_tmp d = Some tmp" "pd_compaction_marker d = None"
    and n: "n \<le> u64_max"
  shows "\<exists>d'. install_pending_rewrite
      (fold run_op (take j (remove_ops (bt_keys (pd_segments d)) @ [RenameTmp, PersistOffset n, RemoveMarker])) d) = (Ok (), d')
    \<and> pd_segments d' = [(1, tmp)] \<and> pd_rewrite_marker d' = None \<and> pd_compaction_marker d' = None \<and> read_retention_offset d' = Ok n"
proof -
  let ?ops = "remove_ops (bt_keys (pd_segments d))"
  show ?thesis
  proof (cases "j \<le> length ?ops")
    case True
    let ?dk = "fold run_op (take j ?ops) d"
    have "list_all removal (take j ?ops)" using remove_ops_removal [of "bt_keys (pd_segments d)"] by (auto simp: list_all_iff dest: in_set_takeD)
    note keep = removals_keep [OF this, of d]
    have "install_pending_rewrite ?dk = (Ok (), rewritten_dir tmp n ?dk)"
      using keep marker n by (intro install_rewrite) simp_all
    then show ?thesis
      using True keep marker n by (simp add: rewritten_dir_def read_retention_offset_def marker_read_back)
  next
    case False
    let ?d1 = "fold remove_segment_files (bt_keys (pd_segments d)) d"
    have none: "pd_segments ?d1 = []" by (auto simp: fold_remove_segments bt_remove_filter filter_empty_conv)
    obtain i where i: "j = length ?ops + Suc i" using False by (metis add_Suc_right less_imp_Suc_add not_le)
    let ?last = "take (Suc i) [RenameTmp, PersistOffset n, RemoveMarker]"
    have run: "fold run_op (take j (?ops @ [RenameTmp, PersistOffset n, RemoveMarker])) d = fold run_op ?last ?d1"
      by (simp add: i run_removes)
    let ?d2 = "?d1\<lparr>pd_segments := [(1, tmp)], pd_rewrite_tmp := None\<rparr>"
    have first: "run_op RenameTmp ?d1 = ?d2" using none marker(2) by (simp add: fold_remove_segments)
    have fields: "pd_rewrite_marker ?d1 = Some (to_le_bytes 8 n)" "pd_compaction_marker ?d1 = None"
      using marker by (simp_all add: fold_remove_segments)
    consider "i = 0" | "i = 1" | "i \<ge> 2" by linarith
    then show ?thesis
    proof cases
      case 1
      then show ?thesis
        using run first fields n by (simp add: install_pending_rewrite_def bt_contains_def persist_retention_offset_def
            read_retention_offset_def marker_read_back)
    next
      case 2
      then show ?thesis
        using run first fields n by (simp add: install_pending_rewrite_def bt_contains_def persist_retention_offset_def
            read_retention_offset_def marker_read_back)
    next
      case 3
      then have "?last = [RenameTmp, PersistOffset n, RemoveMarker]" by simp
      then show ?thesis
        using run first fields n by (simp add: install_pending_rewrite_def persist_retention_offset_def
            read_retention_offset_def marker_read_back)
    qed
  qed
qed

theorem rewrite_crash_atomic:
  assumes inv: "plog_inv lc cd cs log d"
    and stored: "list_all2 (stored_as lc (pl_encryption log) (pl_stream log) (pl_partition log)) es bs"
    and sorted: "sorted_wrt (<) (map en_offset es)" and n: "n \<le> u64_max" "list_all (\<lambda>e. en_offset e < n) es"
  shows "\<exists>log' d' es'. plog_open lc (pl_encryption log) cd (pl_stream log) (pl_partition log) (pl_segment_bytes log)
        (fold run_op (take k (rewrite_ops bs n (bt_keys (pd_segments d)))) d) = (Ok (log', map into_resident_metadata es', 0), d')
    \<and> (if k \<le> length (stage_ops bs) then es' = records_of cs \<and> pl_next_offset log' = pl_next_offset log
       else es' = es \<and> pl_next_offset log' = n)"
proof -
  let ?ring = "pl_encryption log" and ?stream = "pl_stream log" and ?p = "pl_partition log"
  let ?ids = "bt_keys (pd_segments d)" and ?tmp = "SEGMENT_HEADER @ concat bs"
  have dir: "dir_inv lc ?ring ?stream ?p cs d" and ring: "ring_ok ?ring" and cd: "snapshot_ok cd"
    using inv by (simp_all add: plog_inv_def)
  show ?thesis
  proof (cases "k \<le> length (stage_ops bs)")
    case True
    then obtain x where x: "fold run_op (take k (rewrite_ops bs n ?ids)) d = d\<lparr>pd_rewrite_tmp := x\<rparr>"
      using staged_prefix [of k bs d] by (auto simp: rewrite_ops_def)
    have "dir_inv lc ?ring ?stream ?p cs (d\<lparr>pd_rewrite_tmp := x\<rparr>)" using dir by (simp add: dir_inv_def read_retention_offset_def)
    then obtain log' d' where op: "plog_open lc ?ring cd ?stream ?p (pl_segment_bytes log) (d\<lparr>pd_rewrite_tmp := x\<rparr>)
        = (Ok (log', map into_resident_metadata (records_of cs), 0), d')" "plog_inv lc cd cs log' d'"
      "read_retention_offset d' = read_retention_offset (d\<lparr>pd_rewrite_tmp := x\<rparr>)"
      using open_whole [OF _ ring cd, of lc ?stream ?p cs _ "pl_segment_bytes log"] by blast
    moreover have "pl_next_offset log' = pl_next_offset log"
      using op(2,3) inv by (auto simp: plog_inv_def log_inv_def read_retention_offset_def)
    ultimately show ?thesis using True x by auto
  next
    case False
    then obtain j where j: "k = length (stage_ops bs) + Suc j" by (metis add_Suc_right less_imp_Suc_add not_le)
    let ?d1 = "d\<lparr>pd_rewrite_tmp := Some ?tmp, pd_rewrite_marker := Some (to_le_bytes 8 n)\<rparr>"
    have run: "fold run_op (take k (rewrite_ops bs n ?ids)) d
        = fold run_op (take j (remove_ops (bt_keys (pd_segments ?d1)) @ [RenameTmp, PersistOffset n, RemoveMarker])) ?d1"
      by (simp add: j rewrite_ops_def run_stage)
    have "pd_compaction_marker d = None" using dir by (simp add: dir_inv_def)
    then obtain d2 where d2: "install_pending_rewrite (fold run_op (take k (rewrite_ops bs n ?ids)) d) = (Ok (), d2)"
      "pd_segments d2 = [(1, ?tmp)]" "pd_rewrite_marker d2 = None" "pd_compaction_marker d2 = None" "read_retention_offset d2 = Ok n"
      unfolding run using crash_installs [of ?d1 n ?tmp j] n(1) by auto
    obtain log' d' where "plog_open lc ?ring cd ?stream ?p (pl_segment_bytes log) d2 = (Ok (log', map into_resident_metadata es, 0), d')"
      "pl_next_offset log' = next_offset_of [(1, es, bs)] n"
      using open_single [OF d2(2) stored ring sorted d2(3-5), of cd "pl_segment_bytes log"] by blast
    moreover have "next_offset_of [(1, es, bs)] n = n"
    proof (cases "es = []")
      case False
      then have "en_offset (last es) < n" using n(2) by (simp add: list_all_iff)
      then show ?thesis using n(1) False by (auto simp: next_offset_of_def sat_add64_def)
    qed (simp add: next_offset_of_def)
    ultimately show ?thesis using False plog_open_installed [OF d2(1,3)] by auto
  qed
qed

section \<open>A sparse index that outlives its segment\<close>

text \<open>
  A segment file is removed before its index file. When a crash falls between the two, the
  index file stays behind, opening installs the rewritten segment under the same number, and as an
  index file exists it is not rebuilt: its positions belong to the old segment. A log with
  two records shows it; the first is dropped by retention, and the second, which is in the file and
  among the records the log opens with, can no longer be read.
\<close>

lemma rewrite_crash_hides_record:
  assumes stored: "stored_as lc ring stream p e b" "stored_as lc ring stream p e' b'" and ring: "ring_ok ring"
    and index: "en_offset e' mod INDEX_STRIDE = 0" "length b' \<le> length b" "length (SEGMENT_HEADER @ b) \<le> u64_max"
    and offsets: "en_offset e < en_offset e'" "en_offset e' < u64_max"
  defines "d \<equiv> \<lparr>pd_segments = [(1, SEGMENT_HEADER @ b @ b')],
      pd_index = [(1, index_entry (en_offset e') (length (SEGMENT_HEADER @ b)))], pd_sidx = [],
      pd_retention_offset = Some (to_le_bytes 8 (en_offset e)), pd_rewrite_tmp = None, pd_rewrite_marker = None, pd_compaction_tmp = None, pd_compaction_marker = None\<rparr>"
  shows "\<exists>log d'. plog_open lc ring cd stream p segment_bytes
        (fold run_op (take 4 (rewrite_ops [b'] (en_offset e' + 1) (bt_keys (pd_segments d)))) d)
      = (Ok (log, [into_resident_metadata e'], 0), d') \<and> read_offset lc log d' (en_offset e') = Ok None"
proof -
  let ?n = "en_offset e' + 1" and ?tmp = "SEGMENT_HEADER @ concat [b']" and ?pos = "length (SEGMENT_HEADER @ b)"
  let ?dk = "d\<lparr>pd_segments := [], pd_rewrite_tmp := Some ?tmp, pd_rewrite_marker := Some (to_le_bytes 8 ?n)\<rparr>"
  have ops: "take 4 (rewrite_ops [b'] ?n (bt_keys (pd_segments d))) = [CreateTmp, AppendTmp b', WriteMarker (to_le_bytes 8 ?n), RemoveSegment 1]"
    by (simp add: rewrite_ops_def stage_ops_def remove_ops_def d_def)
  have run: "fold run_op (take 4 (rewrite_ops [b'] ?n (bt_keys (pd_segments d)))) d = ?dk"
    unfolding ops by (simp add: d_def bt_remove_def)
  let ?d2 = "rewritten_dir ?tmp ?n ?dk"
  have install: "install_pending_rewrite ?dk = (Ok (), ?d2)"
    using offsets(2) by (intro install_rewrite) simp_all
  have d2: "pd_segments ?d2 = [(1, ?tmp)]" "pd_rewrite_marker ?d2 = None" "pd_compaction_marker ?d2 = None"
    "read_retention_offset ?d2 = Ok ?n" "pd_index ?d2 = [(1, index_entry (en_offset e') ?pos)]"
    using offsets(2) by (simp_all add: rewritten_dir_def d_def read_retention_offset_def marker_read_back)
  have "load_sparse_index ?d2 1 = [(en_offset e', ?pos)]"
    using index(3) offsets(2) load_entries_entry [of "en_offset e'" ?pos "[]"] unfolding load_sparse_index_def d2(5) by simp
  moreover obtain log d' where op: "plog_open lc ring cd stream p segment_bytes ?d2 = (Ok (log, map into_resident_metadata [e'], 0), d')"
    "bt_contains 1 (pd_index ?d2) \<longrightarrow> d' = ?d2 \<and> pl_segment_ranges log = range_of 1 (map into_resident_metadata [e']) (load_sparse_index ?d2 1)"
    "pl_encryption log = ring"
    using open_single [OF d2(1) _ ring _ d2(2-4), of lc stream p "[e']" cd segment_bytes] stored(2) by auto
  moreover have "bt_contains 1 (pd_index ?d2)" unfolding d2(5) by (simp add: bt_contains_def)
  ultimately have "d' = ?d2" and ranges: "pl_segment_ranges log = range_of 1 [into_resident_metadata e'] [(en_offset e', ?pos)]" by simp_all
  have "read_offset lc log ?d2 (en_offset e') = Ok None"
  proof -
    have "drop ?pos ?tmp = []" using index(2) by simp
    moreover have "find_offset lc ring (en_offset e') [] = Ok None"
      by (subst find_offset.simps) (simp add: read_batch_with_key_def)
    moreover have "plog_contents ?d2 1 = ?tmp" unfolding plog_contents_def d2(1) by simp
    moreover have "validate_segment_header path ?tmp = Ok b'" for path using validate_header [of path b'] by simp
    ultimately show ?thesis
      using op(3) by (simp add: read_offset_def ranges range_of_def into_resident_metadata_def indexed_position_def del: One_nat_def)
  qed
  then show ?thesis
    using op(1) plog_open_installed [OF install d2(2)] \<open>d' = ?d2\<close> unfolding run by auto
qed

section \<open>Other crash points\<close>

text \<open>
  The marker is written in place. Cut short it is no longer ignored, and every later start fails,
  although the old segments are all there.
\<close>

lemma torn_rewrite_marker_blocks_open:
  assumes "pd_rewrite_marker d = Some (take m (to_le_bytes 8 n))" "m < 8"
  shows "plog_open lc ring cd stream p segment_bytes d = (Err ''invalid partition rewrite marker'', d)"
  using assms by (simp add: plog_open_def install_pending_rewrite_def)

text \<open>So does a compaction marker whose file was created but not yet written.\<close>

lemma empty_compaction_marker_blocks_open:
  assumes "pd_rewrite_marker d = None" "pd_compaction_marker d = Some []" "pd_compaction_tmp d = Some tmp"
  shows "plog_open lc ring cd stream p segment_bytes d = (Err ''Is a directory'', d)"
  using assms by (simp add: plog_open_def install_pending_rewrite_def install_pending_segment_compaction_def from_utf8_def
      string_of_bytes_def)

text \<open>
  An index entry is written in two halves. A crash between them leaves eight bytes that no one
  removes; the next entry is appended behind them, and from then on offsets are read as
  positions: the entry for \<open>offset'\<close> is lost and the one for \<open>offset\<close> points at byte \<open>offset'\<close>.
\<close>

lemma torn_index_entry_shifts:
  assumes "offset \<le> u64_max" "offset' \<le> u64_max"
  shows "load_entries (to_le_bytes 8 offset @ index_entry offset' position') = [(offset, offset')]"
proof -
  have "load_entries (index_entry offset offset' @ to_le_bytes 8 position') = (offset, offset') # load_entries (to_le_bytes 8 position')"
    by (rule load_entries_entry [OF assms])
  moreover have "load_entries xs = []" if "length xs = 8" for xs
    using eight_bytes [OF that] by auto
  ultimately show ?thesis by (simp add: index_entry_def)
qed

end
