(* ===== verification/Partition_Compaction.thy ===== *)
theory Partition_Compaction
  imports Partition_Rewrite
begin

text \<open>
  Compaction of a partition log (\<open>crates/server/src/partition_log/log.rs\<close>): a round rewrites the
  first sealed range with an invisible record, keeping only its visible records. A round keeps the
  invariant and removes just the invisible records of one chunk, and the rounds come to an end.
\<close>

section \<open>The marker\<close>

lemma segment_name_chars: "c \<in> set (plog_segment_name i) \<Longrightarrow> of_char c < (128 :: nat)"
proof -
  assume "c \<in> set (plog_segment_name i)"
  then consider "c = CHR ''0''" | "c \<in> set (decimal i)" | "c \<in> set ''.plog''" by (auto simp: plog_segment_name_def)
  then show ?thesis
  proof cases
    case 2
    then have "is_ascii_digit c" using decimal_digits [of i] by (simp add: list_all_iff)
    then show ?thesis by (simp add: is_ascii_digit_def Let_def)
  qed (auto simp: of_char_def)
qed

lemma utf8_ascii: "(\<And>b. b \<in> set bs \<Longrightarrow> b < (0x80 :: 8 word)) \<Longrightarrow> utf8_valid bs"
proof (induction bs)
  case (Cons b bs)
  then have "utf8_valid bs" "b < 0x80" by simp_all
  then show ?case by (subst utf8_valid.simps) simp
qed simp

lemma segment_name_utf8: "from_utf8 (bytes_of_string (plog_segment_name i)) = Some (plog_segment_name i)"
proof -
  have "b < 0x80" if b: "b \<in> set (bytes_of_string (plog_segment_name i))" for b
  proof -
    obtain c where c: "c \<in> set (plog_segment_name i)" "b = of_char c" using b by (auto simp: bytes_of_string_def)
    have "unat b = of_char c" using c(2) unat_of_char8 by simp
    then show ?thesis using segment_name_chars [OF c(1)] by (simp add: word_less_nat_alt)
  qed
  then have "utf8_valid (bytes_of_string (plog_segment_name i))" by (rule utf8_ascii)
  then show ?thesis by (simp add: from_utf8_def string_of_bytes_of_string)
qed

lemma segment_name_inj: "i \<le> u64_max \<Longrightarrow> j \<le> u64_max \<Longrightarrow> plog_segment_name i = plog_segment_name j \<longleftrightarrow> i = j"
  using segment_of_name by (metis option.inject)

text \<open>Staging and installing replaces the segment file and drops the index files beside it.\<close>

definition compacted_dir :: "u64 \<Rightarrow> bytes \<Rightarrow> plog_dir \<Rightarrow> plog_dir" where
  "compacted_dir i tmp d =
     d\<lparr>pd_index := bt_remove i (pd_index d), pd_sidx := bt_remove i (pd_sidx d), pd_segments := bt_insert i tmp (pd_segments d),
       pd_compaction_tmp := None, pd_compaction_marker := None\<rparr>"

lemma stage_install_compaction:
  assumes "list_all2 (stored_as lc ring stream p) es bs" "i \<le> u64_max"
  shows "\<exists>d1. stage_segment_compaction lc ring i es d = (Ok (), d1)
    \<and> install_pending_segment_compaction d1 = (Ok (), compacted_dir i (SEGMENT_HEADER @ concat bs) d)"
proof -
  have "plog_segment_name i \<noteq> []" by (simp add: plog_segment_name_def)
  then show ?thesis
    using write_batches_stored [OF assms(1)] segment_name_utf8 [of i] segment_of_name [OF assms(2)]
    by (simp add: stage_segment_compaction_def install_pending_segment_compaction_def compacted_dir_def)
qed

section \<open>The directory\<close>

lemma sorted_records_filter:
  assumes "sorted_wrt (<) (map en_offset (records_of (pre @ c # post)))"
  shows "sorted_wrt (<) (map en_offset (records_of (pre @ (chunk_id c, filter Q (chunk_envelopes c), bs) # post)))"
  using assms by (auto simp: sorted_wrt_append sorted_wrt_map sorted_wrt_filter)

lemma compacted_dir_inv:
  assumes dir: "dir_inv lc ring stream p (pre @ c # post) d"
    and c': "c' = (chunk_id c, filter Q (chunk_envelopes c), bs)" "chunk_ok lc ring stream p c'"
    and f: "index_file_good c' (Some f)"
  shows "dir_inv lc ring stream p (pre @ c' # post)
    ((compacted_dir (chunk_id c) (chunk_contents c') d)\<lparr>pd_index := bt_insert (chunk_id c) f (bt_remove (chunk_id c) (pd_index d))\<rparr>)"
    (is "dir_inv _ _ _ _ _ ?d'")
proof -
  let ?i = "chunk_id c"
  have ids: "distinct (map chunk_id (pre @ c # post))" by (rule dir_ids_distinct [OF dir])
  have wf: "bt_wf (pd_index d)" "bt_wf (pd_segments d)" using dir dir_segments_wf [OF dir] by (simp_all add: dir_inv_def)
  have present: "map_of (pd_segments d) ?i = Some (chunk_contents c)"
    using bt_wf_distinct [OF wf(2)] dir by (intro map_of_is_SomeI) (simp_all add: dir_inv_def)
  have "bt_insert ?i (chunk_contents c') (pd_segments d) = bt_update ?i (\<lambda>_. chunk_contents c') (pd_segments d)"
    by (rule bt_insert_present [OF present wf(2)])
  also have "\<dots> = map (\<lambda>c. (chunk_id c, chunk_contents c)) (pre @ c' # post)"
    using dir ids c'(1) by (auto simp: dir_inv_def bt_update_def image_iff)
  finally have segs: "pd_segments ?d' = map (\<lambda>c. (chunk_id c, chunk_contents c)) (pre @ c' # post)"
    by (simp add: compacted_dir_def)
  have others: "map_of (pd_index ?d') (chunk_id x) = map_of (pd_index d) (chunk_id x)" if "x \<in> set pre \<union> set post" for x
  proof -
    have "chunk_id x \<noteq> ?i" using ids that by (auto simp: image_iff)
    then show ?thesis using wf(1) by simp
  qed
  have "index_file_good x (map_of (pd_index ?d') (chunk_id x))" if "x \<in> set (pre @ c' # post)" for x
  proof (cases "x \<in> set pre \<union> set post")
    case True
    then show ?thesis using others dir by (auto simp: dir_inv_def)
  next
    case False
    then have "x = c'" using that by auto
    then show ?thesis using f c'(1) wf(1) by simp
  qed
  moreover have "fst ` set (pd_index ?d') \<subseteq> chunk_id ` set (pre @ c' # post)"
    using dir c'(1) by (auto simp: dir_inv_def bt_remove_def)
  moreover have "sorted_wrt (<) (map en_offset (records_of (pre @ c' # post)))"
    unfolding c'(1) using dir by (intro sorted_records_filter) (simp add: dir_inv_def)
  moreover have "map chunk_id (pre @ c' # post) = map chunk_id (pre @ c # post)" using c'(1) by simp
  moreover have "read_retention_offset ?d' = read_retention_offset d" by (simp add: read_retention_offset_def compacted_dir_def)
  ultimately show ?thesis
    using dir segs c'(2) wf by (simp add: dir_inv_def) (simp add: compacted_dir_def)
qed

lemma removed_dir_inv:
  assumes dir: "dir_inv lc ring stream p (pre @ c # post) d" and post: "post \<noteq> []"
  shows "dir_inv lc ring stream p (pre @ post) (remove_segment_files (chunk_id c) d)"
proof -
  let ?i = "chunk_id c" and ?d' = "remove_segment_files (chunk_id c) d"
  have ids: "distinct (map chunk_id (pre @ c # post))" by (rule dir_ids_distinct [OF dir])
  then have neq: "chunk_id x \<noteq> ?i" if "x \<in> set (pre @ post)" for x using that by (auto simp: image_iff)
  have "filter (\<lambda>x. chunk_id x \<noteq> ?i) pre = pre" "filter (\<lambda>x. chunk_id x \<noteq> ?i) post = post"
    using neq by (intro filter_True; auto)+
  then have segs: "pd_segments ?d' = map (\<lambda>c. (chunk_id c, chunk_contents c)) (pre @ post)"
    using dir by (simp add: dir_inv_def remove_segment_files_def bt_remove_def filter_map comp_def)
  have "index_file_good x (map_of (pd_index ?d') (chunk_id x))" if "x \<in> set (pre @ post)" for x
  proof -
    have "map_of (pd_index ?d') (chunk_id x) = map_of (pd_index d) (chunk_id x)" using neq [OF that] by (simp add: remove_segment_files_def)
    then show ?thesis using dir that by (auto simp: dir_inv_def)
  qed
  moreover have "fst ` set (pd_index ?d') \<subseteq> chunk_id ` set (pre @ post)"
    using dir by (auto simp: dir_inv_def remove_segment_files_def bt_remove_def)
  moreover have "sorted_wrt (<) (map en_offset (records_of (pre @ post)))" "sorted_wrt (<) (map chunk_id (pre @ post))"
    using dir by (auto simp: dir_inv_def sorted_wrt_append)
  ultimately show ?thesis
    using dir segs post by (simp add: dir_inv_def) (simp add: remove_segment_files_def read_retention_offset_def)
qed

section \<open>One round\<close>

text \<open>The log and the directory behind a round that compacts \<open>c\<close>: the retention bookkeeping is kept apart.\<close>

lemma next_offset_of_cong:
  "records_of cs' \<noteq> [] \<Longrightarrow> records_of cs \<noteq> [] \<Longrightarrow> last (records_of cs') = last (records_of cs) \<Longrightarrow> next_offset_of cs' = next_offset_of cs"
  by (rule ext) (simp add: next_offset_of_def)

lemma sealed_for_cong:
  "plog_files d' (chunk_id c) = plog_files d (chunk_id c) \<Longrightarrow> sealed_for lc ring cd stream p d' seg c = sealed_for lc ring cd stream p d seg c"
  by (simp add: sealed_for_def)

lemma list_all2_in: "list_all2 P xs ys \<Longrightarrow> x \<in> set xs \<Longrightarrow> \<exists>y\<in>set ys. P x y"
  by (induction xs ys rule: list_all2_induct) auto

lemma compact_range_keeps:
  assumes inv: "plog_inv lc cd (pre @ c # post) log d" and c: "chunk_envelopes c \<noteq> []" and post: "records_of post \<noteq> []"
    and n: "n = length (non_empty pre)" and retained: "retained = filter Q (chunk_envelopes c)"
  shows "\<exists>log' d' bs. compact_range lc cd n retained log d = (Ok (), log', d')
    \<and> plog_inv lc cd (if retained = [] then pre @ post else pre @ (chunk_id c, retained, bs) # post) log' d'
    \<and> pl_encryption log' = pl_encryption log \<and> pl_stream log' = pl_stream log \<and> pl_partition log' = pl_partition log
    \<and> pl_next_offset log' = pl_next_offset log"
proof -
  let ?ring = "pl_encryption log" and ?stream = "pl_stream log" and ?p = "pl_partition log" and ?i = "chunk_id c"
  have dir: "dir_inv lc ?ring ?stream ?p (pre @ c # post) d" and log: "log_inv lc cd (pre @ c # post) log d"
    and ring: "ring_ok ?ring" and cd: "snapshot_ok cd"
    using inv by (simp_all add: plog_inv_def)
  have ids: "distinct (map chunk_id (pre @ c # post))" by (rule dir_ids_distinct [OF dir])
  have ok: "chunk_ok lc ?ring ?stream ?p c" using dir by (simp add: dir_inv_def)
  have u64: "chunk_id x \<le> u64_max" if "x \<in> set (pre @ c # post)" for x using dir that unfolding dir_inv_def chunk_ok_def by blast
  have post_ne: "post \<noteq> []" using post by auto
  obtain bs where bs: "list_all2 (stored_as lc ?ring ?stream ?p) retained bs" "length (concat bs) \<le> length (concat (chunk_batches c))"
    using list_all2_filter [of "stored_as lc ?ring ?stream ?p" "chunk_envelopes c" "chunk_batches c" Q] ok retained
    by (auto simp: chunk_ok_def)
  define c' where "c' = (?i, retained, bs)"
  have ok': "chunk_ok lc ?ring ?stream ?p c'" using ok bs by (simp add: chunk_ok_def c'_def chunk_contents_def)
  let ?d1 = "compacted_dir ?i (chunk_contents c') d"
  have contents: "chunk_contents c' = SEGMENT_HEADER @ concat bs" by (simp add: chunk_contents_def c'_def)
  obtain d0 where stage: "stage_segment_compaction lc ?ring ?i retained d = (Ok (), d0)"
    "install_pending_segment_compaction d0 = (Ok (), ?d1)"
    using stage_install_compaction [OF bs(1) u64 [of c], of d] contents by auto
  have wf: "bt_wf (pd_segments d)" "bt_wf (pd_index d)" "bt_wf (pd_sidx d)" using dir_segments_wf [OF dir] dir by (simp_all add: dir_inv_def)
  have "plog_contents ?d1 (chunk_id c') = chunk_contents c'" using wf(1) by (simp add: plog_contents_def compacted_dir_def c'_def)
  from rebuild_index_chunk [OF ok' ring this] obtain f where
    rebuild: "rebuild_index lc ?ring ?stream ?p ?i ?d1 = Ok (?d1\<lparr>pd_index := bt_insert ?i f (pd_index ?d1)\<rparr>)"
    and f: "index_file_good c' (Some f)"
    by (auto simp: c'_def)
  define d2 where "d2 = ?d1\<lparr>pd_index := bt_insert ?i f (pd_index ?d1)\<rparr>"
  have dir2: "dir_inv lc ?ring ?stream ?p (pre @ c' # post) d2"
    using compacted_dir_inv [OF dir, of c' Q bs f] ok' f c'_def retained by (simp add: d2_def compacted_dir_def)
  have files: "plog_files d2 j = plog_files d j" if "j \<noteq> ?i" for j
    using that wf by (simp add: plog_files_def plog_contents_def d2_def compacted_dir_def)
  have offset2: "read_retention_offset d2 = read_retention_offset d" by (simp add: read_retention_offset_def d2_def compacted_dir_def)
  have other: "chunk_id x \<noteq> ?i" if "x \<in> set pre \<union> set post" for x using ids that by (auto simp: image_iff)
  obtain rs1 r rs2 where ranges: "pl_segment_ranges log = rs1 @ r # rs2" "list_all2 range_for rs1 (non_empty pre)" "range_for r c"
    "list_all2 range_for rs2 (non_empty post)"
  proof -
    have "non_empty (pre @ c # post) = non_empty pre @ c # non_empty post" using c by (simp add: non_empty_def)
    then have "list_all2 range_for (pl_segment_ranges log) (non_empty pre @ c # non_empty post)" using log by (simp add: log_inv_def)
    then show ?thesis by (auto simp: list_all2_append2 list_all2_Cons2 intro: that)
  qed
  have n': "length rs1 = n" using list_all2_lengthD [OF ranges(2)] n by simp
  obtain s1 seg s2 where sealed: "pl_sealed_subject_segments log = s1 @ seg # s2"
    "list_all2 (sealed_for lc ?ring cd ?stream ?p d) s1 pre" "sealed_for lc ?ring cd ?stream ?p d seg c"
    "list_all2 (sealed_for lc ?ring cd ?stream ?p d) s2 (butlast post)"
  proof -
    have "butlast (pre @ c # post) = pre @ c # butlast post" using post_ne by (simp add: butlast_append)
    then have "list_all2 (sealed_for lc ?ring cd ?stream ?p d) (pl_sealed_subject_segments log) (pre @ c # butlast post)"
      using log by (simp add: log_inv_def)
    then show ?thesis by (auto simp: list_all2_append2 list_all2_Cons2 intro: that)
  qed
  have paths: "sg_path s \<noteq> plog_segment_name ?i" if s: "s \<in> set s1 \<union> set s2" for s
  proof -
    obtain x where x: "x \<in> set pre \<union> set post" "sealed_for lc ?ring cd ?stream ?p d s x"
      using s list_all2_in [OF sealed(2)] list_all2_in [OF sealed(4)] by (blast dest: in_set_butlastD)
    then show ?thesis using other [OF x(1)] segment_name_inj u64 [of x] u64 [of c] by (auto simp: sealed_for_def)
  qed
  have keep: "list_all2 (sealed_for lc ?ring cd ?stream ?p d') s1 pre" "list_all2 (sealed_for lc ?ring cd ?stream ?p d') s2 (butlast post)"
    if same: "\<And>j. j \<noteq> ?i \<Longrightarrow> plog_files d' j = plog_files d j" for d'
  proof -
    have eq: "sealed_for lc ?ring cd ?stream ?p d' s x = sealed_for lc ?ring cd ?stream ?p d s x" if "x \<in> set pre \<union> set post" for s x
      using that by (intro sealed_for_cong same other)
    show "list_all2 (sealed_for lc ?ring cd ?stream ?p d') s1 pre"
      by (rule list_all2_keep [OF sealed(2)]) (simp add: eq)
    show "list_all2 (sealed_for lc ?ring cd ?stream ?p d') s2 (butlast post)"
    proof (rule list_all2_keep [OF sealed(4)])
      show "sealed_for lc ?ring cd ?stream ?p d' s x" if "x \<in> set (butlast post)" "sealed_for lc ?ring cd ?stream ?p d s x" for s x
        using that eq [of x s] in_set_butlastD [OF that(1)] by simp
    qed
  qed
  have nth: "pl_segment_ranges log ! n = r" "sgr_segment r = ?i" using ranges(1,3) n' by (auto simp: nth_append range_for_def)
  have active: "last (pre @ c # post) = last post" "last (pre @ c' # post) = last post" "last (pre @ post) = last post"
    using post_ne by simp_all
  obtain m where m: "read_retention_offset d = Ok m" "pl_next_offset log = next_offset_of (pre @ c # post) m"
    using log by (auto simp: log_inv_def)
  have next': "next_offset_of (pre @ c' # post) = next_offset_of (pre @ c # post)" "next_offset_of (pre @ post) = next_offset_of (pre @ c # post)"
    using post by (intro next_offset_of_cong; simp)+
  show ?thesis
  proof (cases "retained = []")
    case True
    let ?d3 = "remove_segment_files ?i d2"
    obtain log' where run: "compact_range lc cd n retained log d = (Ok (), log', ?d3)"
      and fields: "pl_segment_ranges log' = rs1 @ rs2" "pl_sealed_subject_segments log' = s1 @ s2" "pl_segment_id log' = pl_segment_id log"
      "pl_active_bytes log' = pl_active_bytes log" "pl_next_offset log' = pl_next_offset log" "pl_active_subjects log' = pl_active_subjects log"
      "pl_encryption log' = ?ring" "pl_stream log' = ?stream" "pl_partition log' = ?p"
      using paths True stage rebuild nth ranges(1) sealed(1,3) n'
      by (auto simp: compact_range_def Let_def filter_id_conv sealed_for_def simp flip: d2_def)
    have "dir_inv lc ?ring ?stream ?p (pre @ post) ?d3"
      using removed_dir_inv [OF dir2 post_ne] by (simp add: c'_def)
    moreover have "plog_files ?d3 j = plog_files d j" if "j \<noteq> ?i" for j
      using that files [OF that] by (simp add: plog_files_def plog_contents_def remove_segment_files_def)
    moreover have "read_retention_offset ?d3 = Ok m" using offset2 m(1) by (simp add: read_retention_offset_def remove_segment_files_def)
    moreover have "list_all2 range_for (rs1 @ rs2) (non_empty (pre @ post))"
      using ranges(2,4) by (simp add: non_empty_append list_all2_appendI)
    moreover have "butlast (pre @ post) = pre @ butlast post" using post_ne by (simp add: butlast_append)
    ultimately have "plog_inv lc cd (pre @ post) log' ?d3"
      using ring cd log keep [of ?d3] fields active next' m(2)
      by (simp add: plog_inv_def log_inv_def list_all2_appendI)
    then show ?thesis using run True fields by auto
  next
    case False
    have c'_stored: "list_all2 (stored_as lc ?ring ?stream ?p) (chunk_envelopes c') (chunk_batches c')"
      using ok' by (simp add: chunk_ok_def)
    have wf2: "bt_wf (pd_sidx d2)" using dir2 by (simp add: dir_inv_def)
    have "plog_contents d2 (chunk_id c') = chunk_contents c'" by (rule contents_of_chunk [OF dir2]) simp
    from seal_subjects_holds [OF cd this wf2 c'_stored, of 0] obtain k seg' body where
      seal: "seal_subjects cd 0 ?i (subject_records retained) d2 = (k, seg', d2\<lparr>pd_sidx := bt_insert ?i body (pd_sidx d2)\<rparr>)"
      and seg': "sealed_for lc ?ring cd ?stream ?p (d2\<lparr>pd_sidx := bt_insert ?i body (pd_sidx d2)\<rparr>) seg' c'"
      by (auto simp: c'_def)
    define d3 where "d3 = d2\<lparr>pd_sidx := bt_insert ?i body (pd_sidx d2)\<rparr>"
    let ?r = "r\<lparr>sgr_first_offset := en_offset (hd retained), sgr_last_offset := en_offset (last retained),
        sgr_sparse_index := load_sparse_index d2 ?i\<rparr>"
    have some: "list_ex (\<lambda>seg. sg_path seg = plog_segment_name ?i) (pl_sealed_subject_segments log)"
      using sealed(1,3) by (simp add: sealed_for_def)
    have repl: "map (\<lambda>old. if sg_path old = plog_segment_name ?i then seg' else old) (s1 @ seg # s2) = s1 @ seg' # s2"
    proof -
      have "map (\<lambda>old. if sg_path old = plog_segment_name ?i then seg' else old) s = s" if "set s \<subseteq> set s1 \<union> set s2" for s
        using that paths by (intro map_idI) auto
      then show ?thesis using sealed(3) by (simp add: sealed_for_def)
    qed
    obtain log' where run: "compact_range lc cd n retained log d = (Ok (), log', d3)"
      and fields: "pl_segment_ranges log' = rs1 @ ?r # rs2" "pl_sealed_subject_segments log' = s1 @ seg' # s2" "pl_segment_id log' = pl_segment_id log"
      "pl_active_bytes log' = pl_active_bytes log" "pl_next_offset log' = pl_next_offset log" "pl_active_subjects log' = pl_active_subjects log"
      "pl_encryption log' = ?ring" "pl_stream log' = ?stream" "pl_partition log' = ?p"
    proof -
      have "(rs1 @ r # rs2)[n := ?r] = rs1 @ ?r # rs2" using n' by (simp add: list_update_append)
      then show ?thesis
        using False stage rebuild nth ranges(1) some seal repl sealed(1) that
        by (simp add: compact_range_def Let_def flip: d2_def d3_def)
    qed
    have "dir_inv lc ?ring ?stream ?p (pre @ c' # post) d3" using dir2 by (simp add: d3_def dir_inv_def read_retention_offset_def)
    moreover have files3: "plog_files d3 j = plog_files d j" if "j \<noteq> ?i" for j
      using files [OF that] that wf2 by (simp add: plog_files_def plog_contents_def d3_def)
    moreover have "read_retention_offset d3 = Ok m" using offset2 m(1) by (simp add: read_retention_offset_def d3_def)
    moreover have "list_all2 range_for (rs1 @ ?r # rs2) (non_empty (pre @ c' # post))"
    proof -
      have "index_good c' (load_sparse_index d2 ?i)"
        using dir2 index_file_loaded [of c' d2 ?i] by (simp add: dir_inv_def c'_def)
      then have "range_for ?r c'" using False nth(2) by (simp add: range_for_def c'_def)
      moreover have "non_empty (pre @ c' # post) = non_empty pre @ c' # non_empty post" using False by (simp add: non_empty_def c'_def)
      ultimately show ?thesis using ranges(2,4) by (simp add: list_all2_appendI)
    qed
    moreover have "list_all2 (sealed_for lc ?ring cd ?stream ?p d3) (s1 @ seg' # s2) (butlast (pre @ c' # post))"
      using keep [OF files3] seg' post_ne by (simp add: butlast_append list_all2_appendI d3_def)
    ultimately have "plog_inv lc cd (pre @ c' # post) log' d3"
      using ring cd log fields active next' m(2) by (simp add: plog_inv_def log_inv_def)
    then show ?thesis using run False fields by (auto simp: c'_def)
  qed
qed

section \<open>Rounds until nothing is left to compact\<close>

text \<open>The loop of \<open>compact_visible_offsets\<close> in \<open>set.rs\<close> over one log.\<close>

partial_function (option) compact_all ::
  "log_codec \<Rightarrow> (subject_index_file, bytes) snapshot_codec \<Rightarrow> u64 set \<Rightarrow> partition_log \<Rightarrow> plog_dir
     \<Rightarrow> (unit result \<times> partition_log \<times> plog_dir) option" where
  "compact_all lc cd visible log d =
     (case plog_compact_visible_offsets lc cd visible log d of
        (Err m, log, d) \<Rightarrow> Some (Err m, log, d)
      | (Ok again, log, d) \<Rightarrow> if again then compact_all lc cd visible log d else Some (Ok (), log, d))"

lemma non_empty_nth:
  assumes "n + 1 < length (non_empty cs)"
  shows "\<exists>pre c post. cs = pre @ c # post \<and> length (non_empty pre) = n \<and> non_empty cs ! n = c \<and> chunk_envelopes c \<noteq> []
    \<and> non_empty post \<noteq> [] \<and> last (non_empty post) = last (non_empty cs)"
  using assms
proof (induction cs arbitrary: n)
  case (Cons x cs)
  show ?case
  proof (cases "chunk_envelopes x = [] \<or> n > 0")
    case False
    then have "non_empty (x # cs) = x # non_empty cs" by (simp add: non_empty_def)
    then show ?thesis using False Cons.prems by (intro exI [of _ "[]"] exI [of _ x] exI [of _ cs]) (auto simp: non_empty_def)
  next
    case True
    define k where "k = (if chunk_envelopes x = [] then n else n - 1)"
    have ne: "non_empty (x # cs) = (if chunk_envelopes x = [] then [] else [x]) @ non_empty cs" by (simp add: non_empty_def)
    have "k + 1 < length (non_empty cs)" using True Cons.prems ne by (auto simp: k_def split: if_splits)
    then obtain pre c post where "cs = pre @ c # post" "length (non_empty pre) = k" "non_empty cs ! k = c" "chunk_envelopes c \<noteq> []"
      "non_empty post \<noteq> []" "last (non_empty post) = last (non_empty cs)" "non_empty cs \<noteq> []"
      using Cons.IH [of k] by fastforce
    then show ?thesis
      using True ne by (intro exI [of _ "x # pre"] exI [of _ c] exI [of _ post]) (auto simp: k_def non_empty_def)
  qed
qed (simp add: non_empty_def)

lemma read_chunk_records:
  assumes "dir_inv lc ring stream p cs d" "ring_ok ring" "c \<in> set cs"
  shows "read_segment_records lc ring path (plog_contents d (chunk_id c)) = Ok (chunk_envelopes c)"
proof -
  have "list_all2 (stored_as lc ring stream p) (chunk_envelopes c) (chunk_batches c)" using assms(1,3) by (simp add: dir_inv_def chunk_ok_def)
  then show ?thesis
    unfolding contents_of_chunk [OF assms(1,3)] using read_records_whole [OF _ assms(2)]
    by (simp add: read_segment_records_def chunk_contents_def validate_header)
qed

lemma compact_from_cases:
  assumes inv: "plog_inv lc cd cs log d" and ns: "\<And>n. n \<in> set ns \<Longrightarrow> n + 1 < length (non_empty cs)"
  shows "(compact_from lc cd visible ns log d = (Ok False, log, d)
      \<and> (\<forall>n\<in>set ns. \<forall>e\<in>set (chunk_envelopes (non_empty cs ! n)). en_offset e \<in> visible))
    \<or> (\<exists>n\<in>set ns. \<exists>e\<in>set (chunk_envelopes (non_empty cs ! n)). en_offset e \<notin> visible
      \<and> compact_from lc cd visible ns log d
        = (case compact_range lc cd n (filter (\<lambda>e. en_offset e \<in> visible) (chunk_envelopes (non_empty cs ! n))) log d of
             (Err m, log, d) \<Rightarrow> (Err m, log, d) | (Ok _, log, d) \<Rightarrow> (Ok True, log, d)))"
  using ns
proof (induction ns)
  case (Cons n ns)
  let ?c = "non_empty cs ! n"
  have dir: "dir_inv lc (pl_encryption log) (pl_stream log) (pl_partition log) cs d" and ring: "ring_ok (pl_encryption log)"
    using inv by (simp_all add: plog_inv_def)
  have n: "n < length (non_empty cs)" using Cons.prems [of n] by simp
  then have c: "?c \<in> set cs" using nth_mem [OF n] by (simp add: non_empty_def)
  have "list_all2 range_for (pl_segment_ranges log) (non_empty cs)" using inv by (simp add: plog_inv_def log_inv_def)
  from list_all2_nthD2 [OF this n] have seg: "sgr_segment (pl_segment_ranges log ! n) = chunk_id ?c" by (simp add: range_for_def)
  note read = read_chunk_records [OF dir ring c]
  show ?case
  proof (cases "\<forall>e\<in>set (chunk_envelopes ?c). en_offset e \<in> visible")
    case True
    then have "filter (\<lambda>e. en_offset e \<in> visible) (chunk_envelopes ?c) = chunk_envelopes ?c" by simp
    then show ?thesis using Cons True read seg by auto
  next
    case False
    then have "length (filter (\<lambda>e. en_offset e \<in> visible) (chunk_envelopes ?c)) \<noteq> length (chunk_envelopes ?c)"
      by (metis (no_types, lifting) length_filter_less less_irrefl)
    then show ?thesis using False read seg by (intro disjI2 bexI [of _ n]) auto
  qed
qed simp

text \<open>Where the last range begins; compaction leaves it and all behind it alone.\<close>

definition last_range_start :: "partition_log \<Rightarrow> u64" where
  "last_range_start log = (if pl_segment_ranges log = [] then 0 else sgr_first_offset (last (pl_segment_ranges log)))"

lemma last_range_start_chunk:
  assumes "plog_inv lc cd cs log d" "non_empty cs \<noteq> []"
  shows "last_range_start log = en_offset (hd (chunk_envelopes (last (non_empty cs))))"
proof -
  have "list_all2 range_for (pl_segment_ranges log) (non_empty cs)" using assms(1) by (simp add: plog_inv_def log_inv_def)
  moreover have "non_empty cs = butlast (non_empty cs) @ [last (non_empty cs)]" using assms(2) by simp
  ultimately obtain rs r where "pl_segment_ranges log = rs @ [r]" "range_for r (last (non_empty cs))"
    by (metis (no_types, lifting) list_all2_Cons2 list_all2_Nil2 list_all2_append2)
  then show ?thesis by (simp add: last_range_start_def range_for_def)
qed

lemma records_split_last:
  assumes "non_empty cs \<noteq> []"
  shows "records_of cs = records_of (butlast (non_empty cs)) @ chunk_envelopes (last (non_empty cs))"
proof -
  have "records_of cs = records_of (non_empty cs)" by simp
  also have "\<dots> = records_of (butlast (non_empty cs) @ [last (non_empty cs)])" using assms by simp
  finally show ?thesis by simp
qed

lemma last_chunk_start:
  assumes "sorted_wrt (<) (map en_offset (records_of cs))" "non_empty cs \<noteq> []"
  shows "e \<in> set (records_of (butlast (non_empty cs))) \<Longrightarrow> en_offset e < en_offset (hd (chunk_envelopes (last (non_empty cs))))"
    and "e \<in> set (chunk_envelopes (last (non_empty cs))) \<Longrightarrow> en_offset (hd (chunk_envelopes (last (non_empty cs)))) \<le> en_offset e"
proof -
  let ?l = "chunk_envelopes (last (non_empty cs))"
  have sorted: "sorted_wrt (<) (map en_offset (records_of (butlast (non_empty cs)) @ ?l))"
    using assms records_split_last [OF assms(2)] by simp
  have "last (non_empty cs) \<in> set (non_empty cs)" using assms(2) by simp
  then have "?l \<noteq> []" by (simp add: non_empty_def)
  then have "hd ?l \<in> set ?l" by simp
  then show "e \<in> set (records_of (butlast (non_empty cs))) \<Longrightarrow> en_offset e < en_offset (hd ?l)"
    using sorted by (simp add: sorted_wrt_append)
  show "e \<in> set ?l \<Longrightarrow> en_offset (hd ?l) \<le> en_offset e"
    using sorted_offset_bounds [of ?l e] sorted by (simp add: sorted_wrt_append)
qed

definition compaction_keeps :: "u64 set \<Rightarrow> u64 \<Rightarrow> message_envelope \<Rightarrow> bool" where
  "compaction_keeps visible start e \<longleftrightarrow> en_offset e \<in> visible \<or> start \<le> en_offset e"

lemma compaction_round:
  assumes inv: "plog_inv lc cd cs log d"
  shows "(plog_compact_visible_offsets lc cd visible log d = (Ok False, log, d)
      \<and> filter (compaction_keeps visible (last_range_start log)) (records_of cs) = records_of cs)
    \<or> (\<exists>log' d' cs'. plog_compact_visible_offsets lc cd visible log d = (Ok True, log', d') \<and> plog_inv lc cd cs' log' d'
      \<and> length (records_of cs') < length (records_of cs) \<and> last_range_start log' = last_range_start log
      \<and> pl_next_offset log' = pl_next_offset log \<and> pl_encryption log' = pl_encryption log \<and> pl_stream log' = pl_stream log \<and> pl_partition log' = pl_partition log
      \<and> filter (compaction_keeps visible (last_range_start log)) (records_of cs')
        = filter (compaction_keeps visible (last_range_start log)) (records_of cs))"
proof -
  have dir: "dir_inv lc (pl_encryption log) (pl_stream log) (pl_partition log) cs d" using inv by (simp add: plog_inv_def)
  then have sorted: "sorted_wrt (<) (map en_offset (records_of cs))" by (simp add: dir_inv_def)
  have "list_all2 range_for (pl_segment_ranges log) (non_empty cs)" using inv by (simp add: plog_inv_def log_inv_def)
  then have len: "length (pl_segment_ranges log) = length (non_empty cs)" by (rule list_all2_lengthD)
  let ?ns = "[0..<length (pl_segment_ranges log) - 1]" and ?keep = "compaction_keeps visible (last_range_start log)"
  have ns: "n + 1 < length (non_empty cs)" if "n \<in> set ?ns" for n using that len by auto
  consider (all) "compact_from lc cd visible ?ns log d = (Ok False, log, d)"
      "\<forall>n\<in>set ?ns. \<forall>e\<in>set (chunk_envelopes (non_empty cs ! n)). en_offset e \<in> visible"
    | (some) n e where "n \<in> set ?ns" "e \<in> set (chunk_envelopes (non_empty cs ! n))" "en_offset e \<notin> visible"
      "compact_from lc cd visible ?ns log d
        = (case compact_range lc cd n (filter (\<lambda>e. en_offset e \<in> visible) (chunk_envelopes (non_empty cs ! n))) log d of
             (Err m, log, d) \<Rightarrow> (Err m, log, d) | (Ok _, log, d) \<Rightarrow> (Ok True, log, d))"
    using compact_from_cases [OF inv ns] by blast
  then show ?thesis
  proof cases
    case all
    have "?keep e" if e: "e \<in> set (records_of cs)" for e
    proof -
      have ne: "non_empty cs \<noteq> []" using e by (metis empty_iff list.set(1) records_of_non_empty records_of_simps(1))
      note start = last_range_start_chunk [OF inv ne]
      show ?thesis
      proof (cases "e \<in> set (chunk_envelopes (last (non_empty cs)))")
        case True
        then show ?thesis using last_chunk_start(2) [OF sorted ne] start by (simp add: compaction_keeps_def)
      next
        case False
        then have "e \<in> set (records_of (butlast (non_empty cs)))" using e records_split_last [OF ne] by simp
        then obtain c where c: "c \<in> set (butlast (non_empty cs))" "e \<in> set (chunk_envelopes c)" by (auto simp: records_of_def)
        then obtain n where n: "n < length (butlast (non_empty cs))" "butlast (non_empty cs) ! n = c" by (auto simp: in_set_conv_nth)
        then have "en_offset e \<in> visible" using all(2) c(2) len by (auto simp: nth_butlast)
        then show ?thesis by (simp add: compaction_keeps_def)
      qed
    qed
    then show ?thesis using all(1) by (simp add: plog_compact_visible_offsets_def)
  next
    case some
    obtain pre c post where cs: "cs = pre @ c # post" "length (non_empty pre) = n" "non_empty cs ! n = c" "chunk_envelopes c \<noteq> []"
      "non_empty post \<noteq> []" "last (non_empty post) = last (non_empty cs)"
      using non_empty_nth [OF ns [OF some(1)]] by blast
    let ?retained = "filter (\<lambda>e. en_offset e \<in> visible) (chunk_envelopes c)"
    have post: "records_of post \<noteq> []"
    proof -
      have "last (non_empty post) \<in> set (non_empty post)" using cs(5) by simp
      then show ?thesis by (auto simp: non_empty_def records_of_def)
    qed
    obtain log' d' bs where run: "compact_range lc cd n ?retained log d = (Ok (), log', d')"
      and inv': "plog_inv lc cd (if ?retained = [] then pre @ post else pre @ (chunk_id c, ?retained, bs) # post) log' d'"
      and same: "pl_next_offset log' = pl_next_offset log" "pl_encryption log' = pl_encryption log \<and> pl_stream log' = pl_stream log \<and> pl_partition log' = pl_partition log"
      using compact_range_keeps [OF inv [unfolded cs(1)] cs(4) post cs(2) [symmetric] refl, of "\<lambda>e. en_offset e \<in> visible"] by blast
    define cs' where "cs' = (if ?retained = [] then pre @ post else pre @ (chunk_id c, ?retained, bs) # post)"
    have recs: "records_of cs' = records_of pre @ ?retained @ records_of post" by (simp add: cs'_def)
    have ne: "non_empty cs \<noteq> []" using cs(5) by (simp add: cs(1) non_empty_append) (simp add: non_empty_def)
    have "\<exists>xs. non_empty cs' = xs @ non_empty post" by (simp add: cs'_def non_empty_append) (simp add: non_empty_def)
    then have ne': "non_empty cs' \<noteq> []" and lasts: "last (non_empty cs') = last (non_empty cs)" using cs(5,6) by auto
    have "last_range_start log' = last_range_start log"
      unfolding last_range_start_chunk [OF inv' [folded cs'_def] ne'] last_range_start_chunk [OF inv ne] lasts ..
    moreover have "length ?retained < length (chunk_envelopes c)"
      using some(2,3) cs(3) by (auto intro!: length_filter_less)
    moreover have "filter ?keep ?retained = filter ?keep (chunk_envelopes c)"
    proof -
      have "en_offset x \<in> visible" if x: "x \<in> set (chunk_envelopes c)" "?keep x" for x
      proof -
        have "en_offset x < en_offset (hd (chunk_envelopes (last (non_empty cs))))"
        proof -
          have "hd (chunk_envelopes (last (non_empty post))) \<in> set (records_of post)"
          proof -
            have "last (non_empty post) \<in> set (non_empty post)" using cs(5) by simp
            then show ?thesis by (auto simp: non_empty_def records_of_def intro!: bexI [of _ "last (non_empty post)"])
          qed
          then show ?thesis using sorted x(1) cs(1,6) by (simp add: sorted_wrt_append)
        qed
        then show ?thesis using x(2) last_range_start_chunk [OF inv ne] by (simp add: compaction_keeps_def)
      qed
      then show ?thesis by (auto simp: filter_filter intro!: filter_cong)
    qed
    ultimately show ?thesis
      using run inv' same some(4) cs(3) recs
      by (intro disjI2 exI [of _ log'] exI [of _ d'] exI [of _ cs']) (simp add: plog_compact_visible_offsets_def cs(1) flip: cs'_def)
  qed
qed

lemma compact_all_ends:
  assumes "plog_inv lc cd cs log d"
  shows "\<exists>log' d' cs'. compact_all lc cd visible log d = Some (Ok (), log', d') \<and> plog_inv lc cd cs' log' d'
    \<and> records_of cs' = filter (compaction_keeps visible (last_range_start log)) (records_of cs)
    \<and> pl_next_offset log' = pl_next_offset log \<and> pl_encryption log' = pl_encryption log \<and> pl_stream log' = pl_stream log \<and> pl_partition log' = pl_partition log"
  using assms
proof (induction "length (records_of cs)" arbitrary: cs log d rule: less_induct)
  case less
  from compaction_round [OF less.prems, of visible] show ?case
  proof (elim disjE exE conjE)
    assume "plog_compact_visible_offsets lc cd visible log d = (Ok False, log, d)"
      "filter (compaction_keeps visible (last_range_start log)) (records_of cs) = records_of cs"
    then show ?case using less.prems by (subst compact_all.simps) auto
  next
    fix log1 d1 cs1
    assume run: "plog_compact_visible_offsets lc cd visible log d = (Ok True, log1, d1)" and inv1: "plog_inv lc cd cs1 log1 d1"
      and less1: "length (records_of cs1) < length (records_of cs)" and start: "last_range_start log1 = last_range_start log"
      and same: "pl_next_offset log1 = pl_next_offset log" "pl_encryption log1 = pl_encryption log" "pl_stream log1 = pl_stream log" "pl_partition log1 = pl_partition log"
      and keep: "filter (compaction_keeps visible (last_range_start log)) (records_of cs1)
        = filter (compaction_keeps visible (last_range_start log)) (records_of cs)"
    obtain log' d' cs' where "compact_all lc cd visible log1 d1 = Some (Ok (), log', d')" "plog_inv lc cd cs' log' d'"
      "records_of cs' = filter (compaction_keeps visible (last_range_start log1)) (records_of cs1)" "pl_next_offset log' = pl_next_offset log1"
      "pl_encryption log' = pl_encryption log1 \<and> pl_stream log' = pl_stream log1 \<and> pl_partition log' = pl_partition log1"
      using less.hyps [OF less1 inv1] by blast
    then show ?case using run start same keep by (subst compact_all.simps) auto
  qed
qed

end
