(* ===== verification/Partition_History.thy ===== *)
theory Partition_History
  imports Partition_Crash Partition_Compaction
begin

text \<open>
  A partition log as a sequence of records (\<open>crates/server/src/partition_log/log.rs\<close>). The
  specification is a list of envelopes and the next offset. A run starts by opening an empty
  directory and goes on with appends, flushes, retention, rewrites, compaction, and crashes inside an
  append followed by opening again, in any order; beside the log and its directory it carries the
  specification's state. Whatever happened, the log reads as the specification says.
\<close>

section \<open>The specification and its runs\<close>

record log_spec =
  ls_records :: "message_envelope list"
  ls_next :: u64

definition spec_append :: "message_envelope \<Rightarrow> log_spec \<Rightarrow> log_spec" where
  "spec_append e s =
     (if en_offset e = ls_next s then \<lparr>ls_records = ls_records s @ [e], ls_next = ls_next s + 1\<rparr> else s)"

definition spec_retain :: "u64 \<Rightarrow> log_spec \<Rightarrow> log_spec" where
  "spec_retain earliest s =
     (let retained = filter (\<lambda>e. earliest \<le> en_offset e) (ls_records s)
      in \<lparr>ls_records = retained, ls_next = max (if retained = [] then 0 else en_offset (last retained) + 1) earliest\<rparr>)"

definition spec_compact :: "u64 set \<Rightarrow> u64 \<Rightarrow> log_spec \<Rightarrow> log_spec" where
  "spec_compact visible start s = s\<lparr>ls_records := filter (compaction_keeps visible start) (ls_records s)\<rparr>"

definition spec_rewrite :: "message_envelope list \<Rightarrow> u64 option \<Rightarrow> log_spec" where
  "spec_rewrite es floor' =
     \<lparr>ls_records = es, ls_next = max (if es = [] then 0 else en_offset (last es) + 1) (case floor' of None \<Rightarrow> 0 | Some n \<Rightarrow> n)\<rparr>"

text \<open>Records that a rewrite can store: in order, each within a batch, together within a segment.\<close>

definition rewrite_fits :: "log_codec \<Rightarrow> partition_log \<Rightarrow> message_envelope list \<Rightarrow> u64 option \<Rightarrow> bool" where
  "rewrite_fits lc log es floor' \<longleftrightarrow>
     (\<exists>bs. list_all2 (stored_as lc (pl_encryption log) (pl_stream log) (pl_partition log)) es bs
        \<and> length (SEGMENT_HEADER @ concat bs) \<le> u64_max)
     \<and> sorted_wrt (<) (map en_offset es) \<and> list_all (\<lambda>e. en_offset e < u64_max) es
     \<and> (case floor' of None \<Rightarrow> True | Some n \<Rightarrow> n \<le> u64_max)"

definition empty_dir :: plog_dir where
  "empty_dir = \<lparr>pd_segments = [], pd_index = [], pd_sidx = [], pd_retention_offset = None, pd_rewrite_tmp = None,
     pd_rewrite_marker = None, pd_compaction_tmp = None, pd_compaction_marker = None\<rparr>"

text \<open>The directory after a crash inside an append: the active segment ends in a part of a batch.\<close>

definition cut_append :: "bytes \<Rightarrow> partition_log \<Rightarrow> plog_dir \<Rightarrow> plog_dir" where
  "cut_append tail' log d = d\<lparr>pd_segments := bt_update (pl_segment_id log) (\<lambda>old. old @ tail') (pd_segments d)\<rparr>"

definition dir_bytes :: "plog_dir \<Rightarrow> nat" where
  "dir_bytes d = sum_list (map (\<lambda>x. length (snd x)) (pd_segments d))"

inductive plog_run ::
  "log_codec \<Rightarrow> key_ring option \<Rightarrow> (subject_index_file, bytes) snapshot_codec \<Rightarrow> string \<Rightarrow> u32 \<Rightarrow> u64
     \<Rightarrow> partition_log \<Rightarrow> plog_dir \<Rightarrow> log_spec \<Rightarrow> bool"
  for lc ring cd stream p segment_bytes
where
  open_new: "plog_open lc ring cd stream p segment_bytes empty_dir = (Ok (log, es, t), d) \<Longrightarrow>
    plog_run lc ring cd stream p segment_bytes log d \<lparr>ls_records = [], ls_next = 0\<rparr>"
| append: "plog_run lc ring cd stream p segment_bytes log d s \<Longrightarrow> append_fits lc log e \<Longrightarrow>
    plog_append_committed lc cd e log d = (r, log', d') \<Longrightarrow>
    plog_run lc ring cd stream p segment_bytes log' d' (spec_append e s)"
| flush: "plog_run lc ring cd stream p segment_bytes log d s \<Longrightarrow>
    plog_run lc ring cd stream p segment_bytes (release_resources log) d s"
| expire: "plog_run lc ring cd stream p segment_bytes log d s \<Longrightarrow> plog_enforce_retention policy now log = (r, log') \<Longrightarrow>
    plog_run lc ring cd stream p segment_bytes log' d s"
| advance: "plog_run lc ring cd stream p segment_bytes log d s \<Longrightarrow> earliest \<le> pl_next_offset log \<Longrightarrow> pl_next_offset log < u64_max \<Longrightarrow>
    dir_bytes d \<le> u64_max \<Longrightarrow> advance_retention_floor lc cd earliest log d = (r, log', d') \<Longrightarrow>
    plog_run lc ring cd stream p segment_bytes log' d' (spec_retain earliest s)"
| rewrite: "plog_run lc ring cd stream p segment_bytes log d s \<Longrightarrow> rewrite_fits lc log es floor' \<Longrightarrow>
    plog_rewrite lc cd es floor' log d = (r, log', d') \<Longrightarrow>
    plog_run lc ring cd stream p segment_bytes log' d' (spec_rewrite es floor')"
| compact: "plog_run lc ring cd stream p segment_bytes log d s \<Longrightarrow> compact_all lc cd visible log d = Some (r, log', d') \<Longrightarrow>
    plog_run lc ring cd stream p segment_bytes log' d' (spec_compact visible (last_range_start log) s)"
| crash: "plog_run lc ring cd stream p segment_bytes log d s \<Longrightarrow> torn_tail lc ring stream p tail' \<Longrightarrow>
    plog_open lc ring cd stream p segment_bytes (cut_append tail' log d) = (Ok (log', es, t), d') \<Longrightarrow>
    plog_run lc ring cd stream p segment_bytes log' d' s"

section \<open>Every operation refines its specification\<close>

lemma open_fresh:
  assumes "ring_ok ring" "snapshot_ok cd"
  shows "\<exists>log d. plog_open lc ring cd stream p segment_bytes empty_dir = (Ok (log, [], 0), d) \<and> plog_inv lc cd [(1, [], [])] log d
    \<and> pl_next_offset log = 0 \<and> pl_encryption log = ring \<and> pl_stream log = stream \<and> pl_partition log = p \<and> pl_segment_bytes log = segment_bytes"
proof -
  let ?d = "empty_dir\<lparr>pd_segments := [(1, SEGMENT_HEADER)]\<rparr>"
  have dir: "dir_inv lc ring stream p [(1, [], [])] ?d"
    using index_file_good_None
    by (simp add: dir_inv_def empty_dir_def chunk_ok_def chunk_contents_def u64_max_def SEGMENT_HEADER_def bytes_of_string_def
        read_retention_offset_def)
  have "plog_open lc ring cd stream p segment_bytes empty_dir = plog_open lc ring cd stream p segment_bytes ?d"
    by (simp add: plog_open_def install_pending_rewrite_def install_pending_segment_compaction_def empty_dir_def)
  moreover obtain log d' where "plog_open lc ring cd stream p segment_bytes ?d = (Ok (log, map into_resident_metadata (records_of [(1, [], [])]), 0), d')"
    "plog_inv lc cd [(1, [], [])] log d'" "pl_encryption log = ring" "pl_stream log = stream" "pl_partition log = p"
    "pl_segment_bytes log = segment_bytes" "read_retention_offset d' = read_retention_offset ?d"
    using open_whole [OF dir assms, of segment_bytes] by blast
  moreover from this(2,7) have "pl_next_offset log = 0"
    by (simp add: plog_inv_def log_inv_def next_offset_of_def) (simp add: read_retention_offset_def empty_dir_def)
  ultimately show ?thesis by simp
qed

lemma append_committed_old:
  assumes "en_offset e \<noteq> pl_next_offset log" "plog_append_committed lc cd e log d = (r, log', d')"
  shows "log' = log \<and> d' = d"
  using assms by (auto simp: plog_append_committed_def split: sum.splits if_splits)

lemma retention_record_fields:
  "pl_segment_id (remove_oldest_retention_record log) = pl_segment_id log"
  "pl_active_bytes (remove_oldest_retention_record log) = pl_active_bytes log"
  "pl_next_offset (remove_oldest_retention_record log) = pl_next_offset log"
  "pl_segment_ranges (remove_oldest_retention_record log) = pl_segment_ranges log"
  "pl_sealed_subject_segments (remove_oldest_retention_record log) = pl_sealed_subject_segments log"
  "pl_active_subjects (remove_oldest_retention_record log) = pl_active_subjects log"
  "pl_encryption (remove_oldest_retention_record log) = pl_encryption log"
  "pl_stream (remove_oldest_retention_record log) = pl_stream log"
  "pl_partition (remove_oldest_retention_record log) = pl_partition log"
  "pl_segment_bytes (remove_oldest_retention_record log) = pl_segment_bytes log"
  by (simp_all add: remove_oldest_retention_record_def split: list.splits)

text \<open>Retention only touches its own bookkeeping.\<close>

definition same_log :: "partition_log \<Rightarrow> partition_log \<Rightarrow> bool" where
  "same_log log log' \<longleftrightarrow>
     pl_segment_id log' = pl_segment_id log \<and> pl_active_bytes log' = pl_active_bytes log \<and> pl_next_offset log' = pl_next_offset log
     \<and> pl_segment_ranges log' = pl_segment_ranges log \<and> pl_sealed_subject_segments log' = pl_sealed_subject_segments log
     \<and> pl_active_subjects log' = pl_active_subjects log \<and> pl_encryption log' = pl_encryption log \<and> pl_stream log' = pl_stream log
     \<and> pl_partition log' = pl_partition log \<and> pl_segment_bytes log' = pl_segment_bytes log"

lemma same_log_inv: "same_log log log' \<Longrightarrow> plog_inv lc cd cs log d \<Longrightarrow> plog_inv lc cd cs log' d"
  by (simp add: same_log_def plog_inv_def log_inv_def)

lemma remove_aged_same: "same_log log (remove_aged now a rs log)"
  by (induction rs arbitrary: log) (auto simp: same_log_def retention_record_fields)

lemma remove_excess_same: "same_log log (remove_excess b rs log)"
  by (induction rs arbitrary: log) (auto simp: same_log_def retention_record_fields)

lemma enforce_retention_same: "plog_enforce_retention policy now log = (r, log') \<Longrightarrow> same_log log log'"
  using remove_aged_same remove_excess_same
  by (auto simp: plog_enforce_retention_def Let_def same_log_def split: option.splits)

text \<open>
  Retention drops the oldest records until the first that is left is young enough and the bytes are
  within the limit, and reports the earliest offset when it moved.
\<close>

lemma remove_oldest_records: "pl_retention_records (remove_oldest_retention_record log) = tl (pl_retention_records log)"
  by (simp add: remove_oldest_retention_record_def split: list.splits)

lemma remove_aged_result:
  assumes "pl_retention_records log = rs"
  shows "pl_retention_records (remove_aged now a rs log) = dropWhile (\<lambda>r. now - rr_timestamp_ms r > a) rs"
  using assms by (induction rs arbitrary: log) (simp_all add: remove_oldest_records)

lemma remove_excess_result:
  assumes "pl_retention_records log = rs"
  shows "\<exists>k. pl_retention_records (remove_excess b rs log) = drop k rs
    \<and> (pl_retained_bytes (remove_excess b rs log) \<le> b \<or> pl_retention_records (remove_excess b rs log) = [])"
  using assms
proof (induction rs arbitrary: log)
  case (Cons r rs)
  show ?case
  proof (cases "pl_retained_bytes log > b")
    case True
    have "pl_retention_records (remove_oldest_retention_record log) = rs" using Cons.prems by (simp add: remove_oldest_records)
    then obtain k where "pl_retention_records (remove_excess b rs (remove_oldest_retention_record log)) = drop k rs"
      "pl_retained_bytes (remove_excess b rs (remove_oldest_retention_record log)) \<le> b
        \<or> pl_retention_records (remove_excess b rs (remove_oldest_retention_record log)) = []"
      using Cons.IH by blast
    then show ?thesis using True by (intro exI [of _ "Suc k"]) simp
  next
    case False
    then show ?thesis using Cons.prems by (intro exI [of _ 0]) simp
  qed
qed simp

lemma enforce_retention_bounds:
  assumes "plog_enforce_retention policy now log = (r, log')"
  shows "\<exists>k. pl_retention_records log' = drop k (pl_retention_records log)"
    and "rp_max_bytes policy = Some b \<Longrightarrow> pl_retained_bytes log' \<le> b \<or> pl_retention_records log' = []"
    and "rp_max_bytes policy = None \<Longrightarrow> rp_max_age_ms policy = Some a \<Longrightarrow> pl_retention_records log' = x # xs \<Longrightarrow> now - rr_timestamp_ms x \<le> a"
    and "r = (if earliest_offset log' = earliest_offset log then None else Some (earliest_offset log'))"
proof -
  define log1 where "log1 = (case rp_max_age_ms policy of None \<Rightarrow> log | Some a \<Rightarrow> remove_aged now a (pl_retention_records log) log)"
  have log': "log' = (case rp_max_bytes policy of None \<Rightarrow> log1 | Some b \<Rightarrow> remove_excess b (pl_retention_records log1) log1)"
    and r: "r = (if earliest_offset log' = earliest_offset log then None else Some (earliest_offset log'))"
    using assms [unfolded plog_enforce_retention_def Let_def, folded log1_def] by auto
  have "\<exists>k. pl_retention_records log1 = drop k (pl_retention_records log)"
    using dropWhile_eq_drop remove_aged_result [OF refl, of now] by (fastforce simp: log1_def intro: exI [of _ 0] split: option.splits)
  moreover have "\<exists>k. pl_retention_records log' = drop k (pl_retention_records log1)"
    using remove_excess_result [OF refl] by (fastforce simp: log' intro: exI [of _ 0] split: option.splits)
  ultimately show "\<exists>k. pl_retention_records log' = drop k (pl_retention_records log)" by (metis drop_drop)
  show "pl_retained_bytes log' \<le> b \<or> pl_retention_records log' = []" if "rp_max_bytes policy = Some b"
    using remove_excess_result [OF refl, of b log1] that by (auto simp: log')
  show "now - rr_timestamp_ms x \<le> a"
    if "rp_max_bytes policy = None" "rp_max_age_ms policy = Some a" "pl_retention_records log' = x # xs"
    using that remove_aged_result [OF refl, of now a log] hd_dropWhile [of "\<lambda>r. now - rr_timestamp_ms r > a" "pl_retention_records log"]
    by (simp add: log' log1_def)
  show "r = (if earliest_offset log' = earliest_offset log then None else Some (earliest_offset log'))" by (rule r)
qed

lemma dir_bytes_fits:
  assumes "dir_inv lc ring stream p cs d" "dir_bytes d \<le> u64_max"
  shows "log_fits cs"
proof -
  have "length SEGMENT_HEADER + length (concat (batches_of cs)) \<le> sum_list (map (\<lambda>c. length (chunk_contents c)) cs)" if "cs \<noteq> []" for cs
    using that
  proof (induction cs)
    case (Cons c cs)
    then show ?case by (cases "cs = []") (auto simp: batches_of_def chunk_contents_def)
  qed simp
  from this [of cs] show ?thesis using assms by (simp add: dir_inv_def dir_bytes_def log_fits_def comp_def)
qed

lemma reopen_cut:
  assumes inv: "plog_inv lc cd cs log d" and tail': "torn_tail lc (pl_encryption log) (pl_stream log) (pl_partition log) tail'"
  shows "\<exists>log' d' t. plog_open lc (pl_encryption log) cd (pl_stream log) (pl_partition log) segment_bytes (cut_append tail' log d)
      = (Ok (log', map into_resident_metadata (records_of cs), t), d')
    \<and> plog_inv lc cd cs log' d' \<and> pl_next_offset log' = pl_next_offset log
    \<and> pl_encryption log' = pl_encryption log \<and> pl_stream log' = pl_stream log \<and> pl_partition log' = pl_partition log
    \<and> pl_segment_bytes log' = segment_bytes"
proof -
  let ?ring = "pl_encryption log" and ?stream = "pl_stream log" and ?p = "pl_partition log" and ?d = "cut_append tail' log d"
  have dir: "dir_inv lc ?ring ?stream ?p cs d" and ring: "ring_ok ?ring" and cd: "snapshot_ok cd" and log: "log_inv lc cd cs log d"
    using inv by (simp_all add: plog_inv_def)
  obtain old c where cs: "cs = old @ [c]" using dir by (metis append_butlast_last_id dir_inv_def)
  have i: "pl_segment_id log = chunk_id c" using log cs by (simp add: log_inv_def)
  have ids: "distinct (map chunk_id (old @ [c]))" using dir_ids_distinct [OF dir] cs by simp
  have segs: "pd_segments ?d = map (\<lambda>c. (chunk_id c, chunk_contents c)) old @ [(chunk_id c, chunk_contents c @ tail')]"
    using dir ids cs i by (auto simp: cut_append_def dir_inv_def bt_update_def image_iff)
  have side: "side_inv lc ?ring ?stream ?p (old @ [c]) ?d"
    using dir cs unfolding dir_inv_side by (simp add: side_inv_def cut_append_def)
  obtain log' d' t where op: "plog_open lc ?ring cd ?stream ?p segment_bytes ?d = (Ok (log', map into_resident_metadata (records_of (old @ [c])), t), d')"
    "plog_inv lc cd (old @ [c]) log' d'" "pl_encryption log' = ?ring" "pl_stream log' = ?stream" "pl_partition log' = ?p"
    "pl_segment_bytes log' = segment_bytes" "read_retention_offset d' = read_retention_offset ?d"
    using open_torn [OF side tail' segs ring cd, of segment_bytes] by blast
  have "read_retention_offset ?d = read_retention_offset d" by (simp add: read_retention_offset_def cut_append_def)
  moreover obtain n m where "read_retention_offset d = Ok n" "pl_next_offset log = next_offset_of cs n"
    "read_retention_offset d' = Ok m" "pl_next_offset log' = next_offset_of cs m"
    using log op(2) [unfolded plog_inv_def] cs unfolding log_inv_def by auto
  ultimately have "pl_next_offset log' = pl_next_offset log" using op(7) by simp
  then show ?thesis using op cs by (intro exI [of _ log'] exI [of _ d'] exI [of _ t]) simp
qed

lemma rewrite_run:
  assumes inv: "plog_inv lc cd cs log d" and fits: "rewrite_fits lc log es floor'"
  shows "\<exists>log' d' bs. plog_rewrite lc cd es floor' log d = (Ok (), log', d') \<and> plog_inv lc cd [(1, es, bs)] log' d'
    \<and> pl_next_offset log' = ls_next (spec_rewrite es floor') \<and> pl_encryption log' = pl_encryption log
    \<and> pl_stream log' = pl_stream log \<and> pl_partition log' = pl_partition log"
proof -
  obtain bs where bs: "list_all2 (stored_as lc (pl_encryption log) (pl_stream log) (pl_partition log)) es bs"
    "length (SEGMENT_HEADER @ concat bs) \<le> u64_max"
    and sorted: "sorted_wrt (<) (map en_offset es)" and small: "list_all (\<lambda>e. en_offset e < u64_max) es"
    and floor': "case floor' of None \<Rightarrow> True | Some n \<Rightarrow> n \<le> u64_max"
    using fits by (auto simp: rewrite_fits_def)
  have last: "en_offset (last es) < u64_max" if "es \<noteq> []" using that small by (simp add: list_all_iff)
  have "ls_next (spec_rewrite es floor')
      = max (if es = [] then 0 else sat_add64 (en_offset (last es)) 1) (case floor' of None \<Rightarrow> 0 | Some k \<Rightarrow> k)"
    using last by (auto simp: spec_rewrite_def sat_add64_def)
  moreover have "ls_next (spec_rewrite es floor') \<le> u64_max"
    using last floor' by (auto simp: spec_rewrite_def split: option.splits)
  moreover have "es \<noteq> [] \<Longrightarrow> en_offset (last es) < ls_next (spec_rewrite es floor')" by (simp add: spec_rewrite_def)
  ultimately show ?thesis using rewrite_keeps [OF inv bs(1) sorted bs(2)] by blast
qed

lemma run_refines:
  assumes "plog_run lc ring cd stream p segment_bytes log d s" "ring_ok ring" "snapshot_ok cd"
  shows "\<exists>cs. plog_inv lc cd cs log d \<and> records_of cs = ls_records s \<and> pl_next_offset log = ls_next s
    \<and> pl_encryption log = ring \<and> pl_stream log = stream \<and> pl_partition log = p"
  using assms(1)
proof (induction rule: plog_run.induct)
  case (open_new log es t d)
  then show ?case using open_fresh [OF assms(2,3), of lc stream p segment_bytes] by auto
next
  case (append log d s e r log' d')
  then obtain cs where cs: "plog_inv lc cd cs log d" "records_of cs = ls_records s" "pl_next_offset log = ls_next s"
    "pl_encryption log = ring" "pl_stream log = stream" "pl_partition log = p"
    by blast
  show ?case
  proof (cases "en_offset e = pl_next_offset log")
    case True
    then show ?thesis using append_committed_keeps [OF cs(1) append.hyps(2) True] append.hyps(3) cs by (auto simp: spec_append_def)
  next
    case False
    then show ?thesis using append_committed_old [OF False append.hyps(3)] cs by (auto simp: spec_append_def)
  qed
next
  case (flush log d s)
  then show ?case by (auto simp: release_resources_def plog_flush_def plog_inv_def log_inv_def)
next
  case (expire log d s policy now r log')
  then show ?case using enforce_retention_same [OF expire.hyps(2)] same_log_inv by (fastforce simp: same_log_def)
next
  case (advance log d s earliest r log' d')
  then obtain cs where cs: "plog_inv lc cd cs log d" "records_of cs = ls_records s" "pl_next_offset log = ls_next s"
    "pl_encryption log = ring" "pl_stream log = stream" "pl_partition log = p"
    by blast
  have fits: "log_fits cs" using cs(1) advance.hyps(4) dir_bytes_fits by (auto simp: plog_inv_def)
  show ?case
    using advance_floor_keeps [OF cs(1) fits advance.hyps(3,2)] advance.hyps(5) cs
    by (auto simp: spec_retain_def Let_def)
next
  case (rewrite log d s es floor' r log' d')
  then obtain cs where cs: "plog_inv lc cd cs log d" "pl_encryption log = ring" "pl_stream log = stream" "pl_partition log = p"
    by blast
  show ?case using rewrite_run [OF cs(1) rewrite.hyps(2)] rewrite.hyps(3) cs by (auto simp: spec_rewrite_def)
next
  case (compact log d s visible r log' d')
  then obtain cs where cs: "plog_inv lc cd cs log d" "records_of cs = ls_records s" "pl_next_offset log = ls_next s"
    "pl_encryption log = ring" "pl_stream log = stream" "pl_partition log = p"
    by blast
  show ?case using compact_all_ends [OF cs(1), of visible] compact.hyps(2) cs by (auto simp: spec_compact_def)
next
  case (crash log d s tail' log' es t d')
  then obtain cs where cs: "plog_inv lc cd cs log d" "records_of cs = ls_records s" "pl_next_offset log = ls_next s"
    "pl_encryption log = ring" "pl_stream log = stream" "pl_partition log = p"
    by blast
  then show ?case using reopen_cut [OF cs(1), of tail' segment_bytes] crash.hyps by auto
qed

section \<open>What a log promises\<close>



text \<open>
  C29. Compaction comes to an end: on every log that was reached, the rounds stop after finitely many
  without an error, and what is left is each record whose offset is visible or that lies in the
  last range, with the next offset unchanged.
\<close>

theorem compaction_ends:
  assumes "plog_run lc ring cd stream p segment_bytes log d s" and "ring_ok ring" and "snapshot_ok cd"
  shows "\<exists>log' d'. compact_all lc cd visible log d = Some (Ok (), log', d')
    \<and> plog_run lc ring cd stream p segment_bytes log' d' (spec_compact visible (last_range_start log) s)
    \<and> read_offset lc log' d' offset
      = Ok (find (\<lambda>e. en_offset e = offset) (filter (compaction_keeps visible (last_range_start log)) (ls_records s)))
    \<and> pl_next_offset log' = pl_next_offset log"
proof -
  obtain cs where cs: "plog_inv lc cd cs log d" "records_of cs = ls_records s" using run_refines [OF assms] by blast
  obtain log' d' cs' where run: "compact_all lc cd visible log d = Some (Ok (), log', d')" and inv: "plog_inv lc cd cs' log' d'"
    "records_of cs' = filter (compaction_keeps visible (last_range_start log)) (records_of cs)" "pl_next_offset log' = pl_next_offset log"
    using compact_all_ends [OF cs(1), of visible] by blast
  show ?thesis using plog_run.compact [OF assms(1) run] run read_offset_find [OF inv(1)] inv(2,3) cs(2) by auto
qed


section \<open>A concrete log\<close>

text \<open>An encoding of index files as bytes: numbers in unary, lists with their length in front.\<close>

definition tally :: "nat \<Rightarrow> bytes" where
  "tally n = replicate n 1 @ [0]"

fun read_tally :: "bytes \<Rightarrow> nat \<times> bytes" where
  "read_tally [] = (0, [])"
| "read_tally (b # bs) = (if b = 0 then (0, bs) else (let (n, rest) = read_tally bs in (Suc n, rest)))"

definition tally_list :: "('a \<Rightarrow> bytes) \<Rightarrow> 'a list \<Rightarrow> bytes" where
  "tally_list w xs = tally (length xs) @ concat (map w xs)"

fun read_many :: "(bytes \<Rightarrow> 'a \<times> bytes) \<Rightarrow> nat \<Rightarrow> bytes \<Rightarrow> 'a list \<times> bytes" where
  "read_many r 0 bs = ([], bs)"
| "read_many r (Suc n) bs = (let (x, bs) = r bs; (xs, bs) = read_many r n bs in (x # xs, bs))"

definition read_list :: "(bytes \<Rightarrow> 'a \<times> bytes) \<Rightarrow> bytes \<Rightarrow> 'a list \<times> bytes" where
  "read_list r bs = (let (n, bs) = read_tally bs in read_many r n bs)"

definition read_char :: "bytes \<Rightarrow> char \<times> bytes" where
  "read_char bs = (let (n, bs) = read_tally bs in (char_of n, bs))"

definition tally_codec :: "(subject_index_file, bytes) snapshot_codec" where
  "tally_codec = \<lparr>
     sn_encode = (\<lambda>idx. tally (sf_version idx) @ tally (unat (sf_source_checksum idx)) @ tally (unat (sf_index_checksum idx))
       @ tally_list (tally_list (\<lambda>c. tally (of_char c))) (sf_dictionary idx) @ tally_list (tally_list tally) (sf_postings idx)),
     sn_decode = (\<lambda>bs. let (v, bs) = read_tally bs; (s, bs) = read_tally bs; (c, bs) = read_tally bs;
         (dict, bs) = read_list (read_list read_char) bs; (ps, bs) = read_list (read_list read_tally) bs
       in Some \<lparr>sf_version = v, sf_source_checksum = word_of_nat s, sf_dictionary = dict, sf_postings = ps,
         sf_index_checksum = word_of_nat c\<rparr>)\<rparr>"

lemma read_tally_back: "read_tally (tally n @ rest) = (n, rest)"
  by (induction n) (simp_all add: tally_def)

lemma read_many_back:
  "(\<And>x rest. r (w x @ rest) = (x, rest)) \<Longrightarrow> read_many r (length xs) (concat (map w xs) @ rest) = (xs, rest)"
  by (induction xs) simp_all

lemma read_list_back:
  "(\<And>x rest. r (w x @ rest) = (x, rest)) \<Longrightarrow> read_list r (tally_list w xs @ rest) = (xs, rest)"
  by (simp add: read_list_def tally_list_def read_tally_back read_many_back)

lemma read_char_back: "read_char (tally (of_char c) @ rest) = (c, rest)"
  by (simp add: read_char_def read_tally_back)

lemma tally_codec_ok: "snapshot_ok tally_codec"
  using read_list_back [OF read_list_back [OF read_char_back]] read_list_back [OF read_list_back [OF read_tally_back], of _ "[]"]
  by (simp add: snapshot_ok_def tally_codec_def read_tally_back)

lemma sample_stored: "\<exists>b. stored_as sample_codec (Some sample_ring) ''o'' 0 sample_message b \<and> length b = 139"
proof -
  obtain b where b: "encode_for_log sample_codec (Some sample_ring) sample_message = Ok (b, length b)" "length b = 139"
    using sample_batch by blast
  then show ?thesis
    using sample_message_fits
    by (intro exI [of _ b]) (simp add: stored_as_def BATCH_PREFIX_LEN_def MAX_BATCH_BYTES_def, simp add: sample_message_def)
qed

lemma sample_new_log:
  "\<exists>log d. plog_run sample_codec (Some sample_ring) tally_codec ''o'' 0 4096 log d \<lparr>ls_records = [], ls_next = 0\<rparr>
     \<and> append_fits sample_codec log sample_message \<and> plog_inv sample_codec tally_codec [(1, [], [])] log d
     \<and> pl_next_offset log = 0
     \<and> plog_open sample_codec (Some sample_ring) tally_codec ''o'' 0 4096 empty_dir = (Ok (log, [], 0), d)"
proof -
  obtain log d where op: "plog_open sample_codec (Some sample_ring) tally_codec ''o'' 0 4096 empty_dir = (Ok (log, [], 0), d)"
    and inv: "plog_inv sample_codec tally_codec [(1, [], [])] log d"
    and f: "pl_next_offset log = 0" "pl_encryption log = Some sample_ring" "pl_stream log = ''o''" "pl_partition log = 0"
    using open_fresh [OF sample_ring_ok tally_codec_ok, of sample_codec "''o''" 0 4096] by blast
  have "pl_segment_id log = 1" "pl_active_bytes log = length SEGMENT_HEADER"
    using inv by (simp_all add: plog_inv_def log_inv_def chunk_contents_def)
  moreover have "length SEGMENT_HEADER = 11" by (simp add: SEGMENT_HEADER_def bytes_of_string_def)
  moreover obtain b where "stored_as sample_codec (Some sample_ring) ''o'' 0 sample_message b" "length b = 139"
    using sample_stored by blast
  ultimately have "append_fits sample_codec log sample_message"
    unfolding append_fits_def f by (auto simp: u64_max_def intro!: exI [of _ b])
  then show ?thesis using plog_run.open_new [OF op] inv f(1) op by blast
qed

lemma sample_log_run:
  "\<exists>log d. plog_run sample_codec (Some sample_ring) tally_codec ''o'' 0 4096 log d \<lparr>ls_records = [sample_message], ls_next = 1\<rparr>"
proof -
  obtain log d where run: "plog_run sample_codec (Some sample_ring) tally_codec ''o'' 0 4096 log d \<lparr>ls_records = [], ls_next = 0\<rparr>"
    and fits: "append_fits sample_codec log sample_message" and inv: "plog_inv sample_codec tally_codec [(1, [], [])] log d"
    "pl_next_offset log = 0"
    using sample_new_log by blast
  have offset: "en_offset sample_message = 0" by (simp add: sample_message_def)
  obtain log' d' where "plog_append_committed sample_codec tally_codec sample_message log d = (Ok sample_message, log', d')"
    using append_committed_keeps [OF inv(1) fits] offset inv(2) by auto
  from plog_run.append [OF run fits this] show ?thesis using offset by (auto simp: spec_append_def)
qed



theorem compaction_ends_witness:
  "\<exists>log d log' d'. plog_run sample_codec (Some sample_ring) tally_codec ''o'' 0 4096 log d \<lparr>ls_records = [sample_message], ls_next = 1\<rparr>
     \<and> compact_all sample_codec tally_codec {0} log d = Some (Ok (), log', d')
     \<and> read_offset sample_codec log' d' 0 = Ok (Some sample_message)"
proof -
  obtain log d where run: "plog_run sample_codec (Some sample_ring) tally_codec ''o'' 0 4096 log d \<lparr>ls_records = [sample_message], ls_next = 1\<rparr>"
    using sample_log_run by blast
  have "en_offset sample_message = 0" by (simp add: sample_message_def)
  then show ?thesis
    using compaction_ends [OF run sample_ring_ok tally_codec_ok, of "{0}" 0] run by (auto simp: compaction_keeps_def)
qed


end
