(* ===== verification/Partition_Log_Set.thy ===== *)
theory Partition_Log_Set
  imports Partition_History Partition_Lifecycle
begin

text \<open>
  The logs of all partitions, from \<open>crates/server/src/partition_log/set.rs\<close> and \<open>dynamic.rs\<close>: opening in
  parallel, appending with sequence numbers, flushing, retention and compaction over the logs, the cache
  in front of them, and the partitions that are activated while the broker runs. The file system maps
  the path of a partition to its directory. A call holds the locks it needs one after the other;
  here it is one step. \<open>None\<close> is a panic or a loop that does not end. The environment's variables and the
  number of processors are arguments; \<open>resident_metadata_bytes\<close>, a sum of allocated capacities, is left out.
\<close>

section \<open>State\<close>

type_synonym partition_key = "string \<times> u32"

text \<open>Where a partition's directory is: below the data directory, or at the root for an absolute name, through these names.\<close>

type_synonym plog_path = "bool \<times> string list"

record runtime_env =
  re_recovery_workers :: "string option"
  re_available_parallelism :: "nat option"
  re_metadata_cache_capacity :: "string option"
  re_max_active_dynamic_partitions :: "string option"
  re_elapsed_ms :: u64

record append_request =
  ar_namespace :: string
  ar_stream :: stream_definition
  ar_subject :: string
  ar_key :: "bytes option"
  ar_partition_hint :: "u32 option"
  ar_headers :: "message_header list"
  ar_timestamp_ms :: u64
  ar_reply_to :: "string option"
  ar_payload :: bytes
  ar_leader_epoch :: u64
  ar_legacy_seq :: "u64 option"

record retention_change =
  rc_stream :: string
  rc_partition :: u32
  rc_earliest_offset :: u64

record partition_recovery_status =
  pr_configured_partitions :: nat
  pr_assigned_partitions :: nat
  pr_total_partitions :: nat
  pr_completed_partitions :: nat
  pr_active_partitions :: nat
  pr_evicted_partitions :: u64
  pr_recovering_partitions :: nat
  pr_blocked_partitions :: nat
  pr_records_scanned :: nat
  pr_elapsed_ms :: u64
  pr_workers :: nat

record log_set =
  pls_logs :: "(partition_key, partition_log) btree_map"
  pls_sticky :: "(string, u64) btree_map"
  pls_dirty :: "partition_key list"
  pls_next_legacy_seq :: u64
  pls_truncations :: u64
  pls_recovery :: partition_recovery_status
  pls_metadata_cache :: "(string \<times> u32 \<times> u64, message_envelope) partition_resource_cache"
  pls_dynamic_logs :: "(partition_key, partition_log) btree_map"
  pls_dynamic_partition_count :: u64
  pls_segment_bytes :: u64
  pls_encryption :: "key_ring option"
  pls_dirs :: "plog_path \<Rightarrow> plog_dir"

text \<open>\<open>root.join(stream).join("partition-{:05}")\<close>: an absolute name replaces the root, repeated separators are one.\<close>

definition partition_dir :: "partition_key \<Rightarrow> plog_path" where
  "partition_dir k =
     (fst k \<noteq> [] \<and> hd (fst k) = CHR ''/'',
      filter (\<lambda>name. name \<noteq> []) (split_char CHR ''/'' (fst k))
        @ [''partition-'' @ replicate (5 - length (decimal (snd k))) CHR ''0'' @ decimal (snd k)])"

definition dir_at :: "partition_key \<Rightarrow> log_set \<Rightarrow> plog_dir" where
  "dir_at k s = pls_dirs s (partition_dir k)"

definition key_of :: "message_envelope \<Rightarrow> partition_key" where
  "key_of e = (en_stream e, en_partition e)"

definition parse_usize :: "string \<Rightarrow> nat option" where
  "parse_usize v =
     (let digits = (case v of c # cs \<Rightarrow> if c = CHR ''+'' then cs else v | [] \<Rightarrow> []); n = decimal_value digits
      in if digits \<noteq> [] \<and> list_all is_ascii_digit digits \<and> n \<le> u64_max then Some n else None)"

definition clamp_nat :: "nat \<Rightarrow> nat \<Rightarrow> nat \<Rightarrow> nat" where
  "clamp_nat n low high = max low (min n high)"

definition env_usize :: "string option \<Rightarrow> nat \<Rightarrow> nat" where
  "env_usize v default_value = (case Option.bind v parse_usize of None \<Rightarrow> default_value | Some n \<Rightarrow> n)"

definition MAX_RECOVERY_WORKERS :: nat where
  "MAX_RECOVERY_WORKERS = 8"

definition MIN_RECOVERY_WORKERS :: nat where
  "MIN_RECOVERY_WORKERS = 1"

definition DEFAULT_METADATA_CACHE_CAPACITY :: nat where
  "DEFAULT_METADATA_CACHE_CAPACITY = 4096"

definition MAX_METADATA_CACHE_CAPACITY :: nat where
  "MAX_METADATA_CACHE_CAPACITY = 1000000"

definition DEFAULT_MAX_DYNAMIC_PARTITIONS :: nat where
  "DEFAULT_MAX_DYNAMIC_PARTITIONS = 4096"

definition MAX_DYNAMIC_PARTITIONS :: nat where
  "MAX_DYNAMIC_PARTITIONS = 65536"

definition max_dynamic_partitions :: "runtime_env \<Rightarrow> nat" where
  "max_dynamic_partitions env =
     clamp_nat (env_usize (re_max_active_dynamic_partitions env) DEFAULT_MAX_DYNAMIC_PARTITIONS) 1 MAX_DYNAMIC_PARTITIONS"

section \<open>Opening\<close>

definition recovery_work :: "stream_definition list \<Rightarrow> partition_key list option \<Rightarrow> partition_key list" where
  "recovery_work streams assigned =
     concat (map (\<lambda>d. map (Pair (sd_name d))
       (filter (\<lambda>p. case assigned of None \<Rightarrow> True | Some ks \<Rightarrow> (sd_name d, p) \<in> set ks) [0..<sd_partitions d])) streams)"

definition recovery_workers :: "runtime_env \<Rightarrow> nat \<Rightarrow> nat" where
  "recovery_workers env work =
     (let configured = clamp_nat (env_usize (re_recovery_workers env) MAX_RECOVERY_WORKERS) MIN_RECOVERY_WORKERS MAX_RECOVERY_WORKERS
      in min (min (case re_available_parallelism env of None \<Rightarrow> 1 | Some n \<Rightarrow> n) configured) (max work 1))"

text \<open>\<open>slice::chunks\<close>, for a positive size.\<close>

fun chunks_of :: "nat \<Rightarrow> 'a list \<Rightarrow> 'a list list" where
  "chunks_of n [] = []"
| "chunks_of n (x # xs) = (x # take (n - 1) xs) # chunks_of n (drop (n - 1) xs)"

type_synonym recovered = "(partition_key \<times> partition_log \<times> message_envelope list \<times> u64) list"

text \<open>A worker stops at its first error; the other workers finish their chunks, on other directories.\<close>

fun recover_chunk ::
  "log_codec \<Rightarrow> key_ring option \<Rightarrow> (subject_index_file, bytes) snapshot_codec \<Rightarrow> u64 \<Rightarrow> partition_key list
     \<Rightarrow> (plog_path \<Rightarrow> plog_dir) \<Rightarrow> recovered result \<times> (plog_path \<Rightarrow> plog_dir)" where
  "recover_chunk lc ring cd segment_bytes [] dirs = (Ok [], dirs)"
| "recover_chunk lc ring cd segment_bytes (k # ks) dirs =
     (case plog_open lc ring cd (fst k) (snd k) segment_bytes (dirs (partition_dir k)) of
        (Err m, d) \<Rightarrow> (Err m, dirs(partition_dir k := d))
      | (Ok opened, d) \<Rightarrow>
          (let (r, dirs) = recover_chunk lc ring cd segment_bytes ks (dirs(partition_dir k := d))
           in (map_ok (\<lambda>rest. (k, opened) # rest) r, dirs)))"

fun recover_chunks ::
  "log_codec \<Rightarrow> key_ring option \<Rightarrow> (subject_index_file, bytes) snapshot_codec \<Rightarrow> u64 \<Rightarrow> partition_key list list
     \<Rightarrow> (plog_path \<Rightarrow> plog_dir) \<Rightarrow> recovered result \<times> (plog_path \<Rightarrow> plog_dir)" where
  "recover_chunks lc ring cd segment_bytes [] dirs = (Ok [], dirs)"
| "recover_chunks lc ring cd segment_bytes (c # cs) dirs =
     (let (r, dirs) = recover_chunk lc ring cd segment_bytes c dirs;
          (rs, dirs) = recover_chunks lc ring cd segment_bytes cs dirs
      in (and_then r (\<lambda>xs. map_ok (\<lambda>rest. xs @ rest) rs), dirs))"

definition set_open ::
  "log_codec \<Rightarrow> (subject_index_file, bytes) snapshot_codec \<Rightarrow> runtime_env \<Rightarrow> stream_definition list \<Rightarrow> u64 \<Rightarrow> key_ring option
     \<Rightarrow> partition_key list option \<Rightarrow> (plog_path \<Rightarrow> plog_dir) \<Rightarrow> (log_set \<times> message_envelope list) result \<times> (plog_path \<Rightarrow> plog_dir)" where
  "set_open lc cd env streams segment_bytes ring assigned dirs =
     (let work = recovery_work streams assigned;
          workers = recovery_workers env (length work);
          chunk_size = (max (length work) 1 + workers - 1) div workers;
          (recovered, dirs) = recover_chunks lc ring cd segment_bytes (chunks_of chunk_size work) dirs
      in (and_then recovered (\<lambda>opened.
            let logs = fold (\<lambda>(k, log, replay, repaired). bt_insert k log) opened [];
                envelopes = sort_key en_legacy_seq (concat (map (\<lambda>(k, log, replay, repaired). replay) opened));
                capacity = clamp_nat (env_usize (re_metadata_cache_capacity env) DEFAULT_METADATA_CACHE_CAPACITY) 1 MAX_METADATA_CACHE_CAPACITY
            in case cache_new capacity of
                 None \<Rightarrow> Err ''metadata cache capacity is clamped above zero''
               | Some cache \<Rightarrow> Ok (\<lparr>pls_logs = logs, pls_sticky = [], pls_dirty = [],
                   pls_next_legacy_seq = sat_add64 (if envelopes = [] then 0 else Max (set (map en_legacy_seq envelopes))) 1,
                   pls_truncations = sum_list (map (\<lambda>(k, log, replay, repaired). repaired) opened),
                   pls_recovery = \<lparr>pr_configured_partitions = sum_list (map sd_partitions streams),
                     pr_assigned_partitions = length work, pr_total_partitions = length work, pr_completed_partitions = length work,
                     pr_active_partitions = length work, pr_evicted_partitions = 0, pr_recovering_partitions = 0,
                     pr_blocked_partitions = 0, pr_records_scanned = length envelopes, pr_elapsed_ms = re_elapsed_ms env,
                     pr_workers = workers\<rparr>,
                   pls_metadata_cache = cache, pls_dynamic_logs = [], pls_dynamic_partition_count = 0,
                   pls_segment_bytes = segment_bytes, pls_encryption = ring, pls_dirs = dirs\<rparr>, envelopes)), dirs))"

section \<open>Access to the logs\<close>

text \<open>An operation on a log behind its lock, and on its directory.\<close>

type_synonym 'a log_op = "partition_log \<Rightarrow> plog_dir \<Rightarrow> 'a result \<times> partition_log \<times> plog_dir"

definition on_log :: "partition_key \<Rightarrow> 'a log_op \<Rightarrow> log_set \<Rightarrow> 'a result \<times> log_set" where
  "on_log k f s =
     (case map_of (pls_logs s) k of
        None \<Rightarrow> (Err ''unknown stream partition'', s)
      | Some log \<Rightarrow>
          (let (r, log, d) = f log (dir_at k s)
           in (r, s\<lparr>pls_logs := bt_insert k log (pls_logs s), pls_dirs := (pls_dirs s)(partition_dir k := d)\<rparr>)))"

definition on_dynamic_log :: "partition_key \<Rightarrow> 'a log_op \<Rightarrow> log_set \<Rightarrow> 'a result \<times> log_set" where
  "on_dynamic_log k f s =
     (case map_of (pls_dynamic_logs s) k of
        None \<Rightarrow> (Err ''unknown stream partition'', s)
      | Some log \<Rightarrow>
          (let (r, log, d) = f log (dir_at k s)
           in (r, s\<lparr>pls_dynamic_logs := bt_insert k log (pls_dynamic_logs s), pls_dirs := (pls_dirs s)(partition_dir k := d)\<rparr>)))"

definition release_op :: "unit log_op" where
  "release_op log d = (Ok (), release_resources log, d)"

definition append_dynamic ::
  "log_codec \<Rightarrow> (subject_index_file, bytes) snapshot_codec \<Rightarrow> message_envelope \<Rightarrow> log_set \<Rightarrow> message_envelope result \<times> log_set" where
  "append_dynamic lc cd e s = on_dynamic_log (key_of e) (plog_append lc cd e) s"

definition append_dynamic_committed ::
  "log_codec \<Rightarrow> (subject_index_file, bytes) snapshot_codec \<Rightarrow> message_envelope \<Rightarrow> log_set \<Rightarrow> message_envelope result \<times> log_set" where
  "append_dynamic_committed lc cd e s = on_dynamic_log (key_of e) (plog_append_committed lc cd e) s"

definition flush_dynamic_partition :: "partition_key \<Rightarrow> log_set \<Rightarrow> unit result \<times> log_set" where
  "flush_dynamic_partition k s = on_dynamic_log k release_op s"

definition load_dynamic :: "log_codec \<Rightarrow> partition_key \<Rightarrow> u64 \<Rightarrow> log_set \<Rightarrow> message_envelope option result" where
  "load_dynamic lc k offset s =
     (case map_of (pls_dynamic_logs s) k of None \<Rightarrow> Ok None | Some log \<Rightarrow> read_offset lc log (dir_at k s) offset)"

definition dynamic_active_resource_count :: "log_set \<Rightarrow> nat" where
  "dynamic_active_resource_count s = length (filter pl_file (bt_values (pls_dynamic_logs s)))"

definition active_resource_count :: "log_set \<Rightarrow> nat" where
  "active_resource_count s =
     sat_add64 (length (filter pl_file (bt_values (pls_logs s)))) (dynamic_active_resource_count s)"

definition metadata_cache_stats :: "log_set \<Rightarrow> nat \<times> u64" where
  "metadata_cache_stats s = (cache_len (pls_metadata_cache s), pc_evictions (pls_metadata_cache s))"

definition recovery_status :: "log_set \<Rightarrow> partition_recovery_status" where
  "recovery_status s = (pls_recovery s)\<lparr>pr_active_partitions := active_resource_count s,
     pr_evicted_partitions := pc_evictions (pls_metadata_cache s)\<rparr>"

definition put_cached :: "partition_key \<Rightarrow> u64 \<Rightarrow> message_envelope \<Rightarrow> log_set \<Rightarrow> log_set option" where
  "put_cached k offset e s =
     map_option (\<lambda>(previous, cache). s\<lparr>pls_metadata_cache := cache\<rparr>)
       (cache_insert (pls_metadata_cache s) (fst k, snd k, offset) e)"

definition cache_envelope :: "message_envelope \<Rightarrow> log_set \<Rightarrow> log_set option" where
  "cache_envelope e s = put_cached (key_of e) (en_offset e) e s"

definition mark_dirty :: "partition_key \<Rightarrow> log_set \<Rightarrow> log_set" where
  "mark_dirty k s = s\<lparr>pls_dirty := List.insert k (pls_dirty s)\<rparr>"

definition clear_metadata_cache :: "log_set \<Rightarrow> log_set" where
  "clear_metadata_cache s = s\<lparr>pls_metadata_cache := cache_clear (pls_metadata_cache s)\<rparr>"

section \<open>Appending and flushing\<close>

definition raise_legacy_seq :: "u64 \<Rightarrow> log_set \<Rightarrow> log_set" where
  "raise_legacy_seq seq s = s\<lparr>pls_next_legacy_seq := max (pls_next_legacy_seq s) (sat_add64 seq 1)\<rparr>"

text \<open>What follows an append to one of the logs.\<close>

definition note_appended :: "message_envelope result \<times> log_set \<Rightarrow> (message_envelope result \<times> log_set) option" where
  "note_appended rs =
     (case rs of
        (Err m, s) \<Rightarrow> Some (Err m, s)
      | (Ok e, s) \<Rightarrow> map_option (\<lambda>s. (Ok e, mark_dirty (key_of e) s)) (cache_envelope e s))"

definition append_envelope ::
  "log_codec \<Rightarrow> (subject_index_file, bytes) snapshot_codec \<Rightarrow> message_envelope \<Rightarrow> log_set \<Rightarrow> (message_envelope result \<times> log_set) option" where
  "append_envelope lc cd e s =
     (let s = raise_legacy_seq (en_legacy_seq e) s
      in note_appended (if bt_contains (key_of e) (pls_logs s) then on_log (key_of e) (plog_append lc cd e) s
                        else append_dynamic lc cd e s))"

definition set_append_committed ::
  "log_codec \<Rightarrow> (subject_index_file, bytes) snapshot_codec \<Rightarrow> message_envelope \<Rightarrow> log_set \<Rightarrow> (message_envelope result \<times> log_set) option" where
  "set_append_committed lc cd e s =
     (let s = raise_legacy_seq (en_legacy_seq e) s
      in note_appended (if bt_contains (key_of e) (pls_logs s) then on_log (key_of e) (plog_append_committed lc cd e) s
                        else append_dynamic_committed lc cd e s))"

definition request_envelope :: "append_request \<Rightarrow> u32 \<Rightarrow> u64 \<Rightarrow> message_envelope" where
  "request_envelope q p legacy_seq =
     \<lparr>en_namespace = ar_namespace q, en_stream = sd_name (ar_stream q), en_partition = p, en_offset = 0,
      en_subject = ar_subject q, en_key = ar_key q, en_headers = ar_headers q, en_timestamp_ms = ar_timestamp_ms q,
      en_reply_to = ar_reply_to q, en_schema_id = None, en_payload = ar_payload q,
      en_partitioning_epoch = pp_epoch (sd_partitioning (ar_stream q)), en_leader_epoch = ar_leader_epoch q,
      en_legacy_seq = legacy_seq\<rparr>"

text \<open>The choice of partition and sequence number. The counter is an atomic, whose \<open>fetch_add\<close> wraps.\<close>

definition prepare_append :: "append_request \<Rightarrow> log_set \<Rightarrow> (message_envelope \<times> log_set) option" where
  "prepare_append q s =
     (let name = sd_name (ar_stream q);
          sticky = (case map_of (pls_sticky s) name of None \<Rightarrow> 0 | Some n \<Rightarrow> n)
      in map_option (\<lambda>p.
           let s = s\<lparr>pls_sticky := bt_insert name (sat_add64 sticky 1) (pls_sticky s)\<rparr>;
               (legacy_seq, s) =
                 (case ar_legacy_seq q of
                    Some seq \<Rightarrow> (seq, s)
                  | None \<Rightarrow> (pls_next_legacy_seq s, s\<lparr>pls_next_legacy_seq := (pls_next_legacy_seq s + 1) mod 2 ^ 64\<rparr>))
           in (request_envelope q p legacy_seq, raise_legacy_seq legacy_seq s))
         (case ar_partition_hint q of
            Some p \<Rightarrow> Some p
          | None \<Rightarrow> select_partition (ar_stream q) (ar_subject q) (ar_key q) (of_nat sticky)))"

definition set_append ::
  "log_codec \<Rightarrow> (subject_index_file, bytes) snapshot_codec \<Rightarrow> append_request \<Rightarrow> log_set \<Rightarrow> (message_envelope result \<times> log_set) option" where
  "set_append lc cd q s = Option.bind (prepare_append q s) (\<lambda>(e, s). append_envelope lc cd e s)"

fun flush_keys :: "partition_key list \<Rightarrow> log_set \<Rightarrow> unit result \<times> log_set" where
  "flush_keys [] s = (Ok (), s)"
| "flush_keys (k # ks) s =
     (case (if bt_contains k (pls_logs s) then on_log k release_op s
            else if bt_contains k (pls_dynamic_logs s) then flush_dynamic_partition k s
            else (Ok (), s)) of
        (Err m, s) \<Rightarrow> (Err m, s)
      | (Ok _, s) \<Rightarrow> flush_keys ks s)"

definition set_flush :: "log_set \<Rightarrow> unit result \<times> log_set" where
  "set_flush s = flush_keys (pls_dirty s) (s\<lparr>pls_dirty := []\<rparr>)"

definition flush_partition :: "partition_key \<Rightarrow> log_set \<Rightarrow> unit result \<times> log_set" where
  "flush_partition k s =
     (let s = s\<lparr>pls_dirty := removeAll k (pls_dirty s)\<rparr>
      in if bt_contains k (pls_logs s) then on_log k release_op s else flush_dynamic_partition k s)"

section \<open>Rewriting, retention and compaction\<close>

text \<open>A log that is unknown is reported before anything is marked or cleared.\<close>

definition maintain :: "partition_key \<Rightarrow> unit log_op \<Rightarrow> log_set \<Rightarrow> unit result \<times> log_set" where
  "maintain k f s =
     (if bt_contains k (pls_logs s)
      then let (r, s) = on_log k f s in (r, clear_metadata_cache (mark_dirty k s))
      else (Err ''unknown stream partition'', s))"

definition rewrite_partition ::
  "log_codec \<Rightarrow> (subject_index_file, bytes) snapshot_codec \<Rightarrow> partition_key \<Rightarrow> message_envelope list \<Rightarrow> log_set \<Rightarrow> unit result \<times> log_set" where
  "rewrite_partition lc cd k records s = maintain k (plog_rewrite lc cd records None) s"

definition retain_partition ::
  "log_codec \<Rightarrow> (subject_index_file, bytes) snapshot_codec \<Rightarrow> retention_change \<Rightarrow> message_envelope list \<Rightarrow> log_set \<Rightarrow> unit result \<times> log_set" where
  "retain_partition lc cd change records s =
     maintain (rc_stream change, rc_partition change) (plog_rewrite lc cd records (Some (rc_earliest_offset change))) s"

definition advance_retention ::
  "log_codec \<Rightarrow> (subject_index_file, bytes) snapshot_codec \<Rightarrow> retention_change \<Rightarrow> log_set \<Rightarrow> unit result \<times> log_set" where
  "advance_retention lc cd change s =
     maintain (rc_stream change, rc_partition change) (advance_retention_floor lc cd (rc_earliest_offset change)) s"

definition partition_keys :: "stream_definition list \<Rightarrow> (stream_definition \<times> u32) list" where
  "partition_keys streams = concat (map (\<lambda>d. map (Pair d) [0..<sd_partitions d]) streams)"

fun retention_changes_from ::
  "u64 \<Rightarrow> (stream_definition \<times> u32) list \<Rightarrow> log_set \<Rightarrow> retention_change list \<times> log_set" where
  "retention_changes_from now [] s = ([], s)"
| "retention_changes_from now ((d, p) # ps) s =
     (let k = (sd_name d, p)
      in case map_of (pls_logs s) k of
           None \<Rightarrow> retention_changes_from now ps s
         | Some log \<Rightarrow>
            (let (earliest, log) = plog_enforce_retention (sd_retention d) now log;
                 (changes, s) = retention_changes_from now ps (s\<lparr>pls_logs := bt_insert k log (pls_logs s)\<rparr>)
             in case earliest of
                  None \<Rightarrow> (changes, s)
                | Some offset \<Rightarrow>
                    (\<lparr>rc_stream = sd_name d, rc_partition = p, rc_earliest_offset = offset\<rparr> # changes, s)))"

definition retention_changes :: "stream_definition list \<Rightarrow> u64 \<Rightarrow> log_set \<Rightarrow> retention_change list \<times> log_set" where
  "retention_changes streams now s = retention_changes_from now (partition_keys streams) s"

fun read_retained ::
  "log_codec \<Rightarrow> partition_log \<Rightarrow> plog_dir \<Rightarrow> message_envelope list \<Rightarrow> message_envelope list result" where
  "read_retained lc log d [] = Ok []"
| "read_retained lc log d (m # ms) =
     and_then (read_offset lc log d (en_offset m)) (\<lambda>found.
       case found of
         None \<Rightarrow> Err ''retained partition record is missing''
       | Some e \<Rightarrow> map_ok (\<lambda>rest. e # rest) (read_retained lc log d ms))"

definition retain_op ::
  "log_codec \<Rightarrow> (subject_index_file, bytes) snapshot_codec \<Rightarrow> message_envelope list \<Rightarrow> u64 \<Rightarrow> unit log_op" where
  "retain_op lc cd metadata earliest log d =
     (case read_retained lc log d metadata of
        Err m \<Rightarrow> (Err m, log, d)
      | Ok retained \<Rightarrow> plog_rewrite lc cd retained (Some earliest) log d)"

definition retained_under :: "retention_change \<Rightarrow> message_envelope \<Rightarrow> bool" where
  "retained_under change e \<longleftrightarrow>
     en_stream e \<noteq> rc_stream change \<or> en_partition e \<noteq> rc_partition change \<or> rc_earliest_offset change \<le> en_offset e"

fun apply_retention ::
  "log_codec \<Rightarrow> (subject_index_file, bytes) snapshot_codec \<Rightarrow> retention_change list \<Rightarrow> message_envelope list \<Rightarrow> log_set
     \<Rightarrow> (unit result \<times> message_envelope list \<times> log_set) option" where
  "apply_retention lc cd [] envelopes s = Some (Ok (), envelopes, s)"
| "apply_retention lc cd (change # changes) envelopes s =
     (let k = (rc_stream change, rc_partition change);
          envelopes = filter (retained_under change) envelopes;
          metadata = filter (\<lambda>e. key_of e = k) envelopes
      in if \<not> bt_contains k (pls_logs s) then None
         else case on_log k (retain_op lc cd metadata (rc_earliest_offset change)) s of
                (Err m, s) \<Rightarrow> Some (Err m, envelopes, s)
              | (Ok _, s) \<Rightarrow> apply_retention lc cd changes envelopes (mark_dirty k s))"

definition set_enforce_retention ::
  "log_codec \<Rightarrow> (subject_index_file, bytes) snapshot_codec \<Rightarrow> stream_definition list \<Rightarrow> u64 \<Rightarrow> message_envelope list \<Rightarrow> log_set
     \<Rightarrow> (retention_change list result \<times> message_envelope list \<times> log_set) option" where
  "set_enforce_retention lc cd streams now envelopes s =
     (let (changes, s) = retention_changes streams now s
      in map_option (\<lambda>(r, envelopes, s).
           case r of
             Err m \<Rightarrow> (Err m, envelopes, s)
           | Ok _ \<Rightarrow> (Ok changes, envelopes, clear_metadata_cache s)) (apply_retention lc cd changes envelopes s))"

fun compact_keys ::
  "log_codec \<Rightarrow> (subject_index_file, bytes) snapshot_codec \<Rightarrow> (partition_key \<Rightarrow> u64 set option) \<Rightarrow> (stream_definition \<times> u32) list
     \<Rightarrow> log_set \<Rightarrow> (unit result \<times> log_set) option" where
  "compact_keys lc cd visible [] s = Some (Ok (), s)"
| "compact_keys lc cd visible ((d, p) # ps) s =
     (let k = (sd_name d, p)
      in case visible k of
           None \<Rightarrow> compact_keys lc cd visible ps s
         | Some offsets \<Rightarrow>
            (case map_of (pls_logs s) k of
               None \<Rightarrow> Some (Err ''unknown stream partition'', s)
             | Some log \<Rightarrow>
                (case compact_all lc cd offsets log (dir_at k s) of
                   None \<Rightarrow> None
                 | Some (r, log, dir) \<Rightarrow>
                    (let s = s\<lparr>pls_logs := bt_insert k log (pls_logs s), pls_dirs := (pls_dirs s)(partition_dir k := dir)\<rparr>
                     in case r of
                          Err m \<Rightarrow> Some (Err m, s)
                        | Ok _ \<Rightarrow> compact_keys lc cd visible ps s))))"

definition set_compact_visible_offsets ::
  "log_codec \<Rightarrow> (subject_index_file, bytes) snapshot_codec \<Rightarrow> (partition_key \<Rightarrow> u64 set option) \<Rightarrow> stream_definition list
     \<Rightarrow> log_set \<Rightarrow> (unit result \<times> log_set) option" where
  "set_compact_visible_offsets lc cd visible streams s =
     compact_keys lc cd visible (partition_keys (filter (\<lambda>d. rp_compaction (sd_retention d) = KeyCompaction) streams)) s"

section \<open>Lookups\<close>

definition set_retention_status :: "partition_key \<Rightarrow> log_set \<Rightarrow> partition_retention_status result" where
  "set_retention_status k s =
     (case map_of (pls_logs s) k of
        Some log \<Rightarrow> Ok (plog_retention_status (snd k) log)
      | None \<Rightarrow>
         (case map_of (pls_dynamic_logs s) k of
            None \<Rightarrow> Err ''unknown stream partition''
          | Some log \<Rightarrow> Ok (plog_retention_status (snd k) log)))"

definition is_before_retention_floor :: "partition_key \<Rightarrow> u64 \<Rightarrow> log_set \<Rightarrow> bool" where
  "is_before_retention_floor k offset s =
     (case map_of (pls_logs s) k of
        None \<Rightarrow> False
      | Some log \<Rightarrow> offset < prs_earliest_offset (plog_retention_status (snd k) log))"

definition logs_matching_offsets ::
  "log_codec \<Rightarrow> (subject_index_file, bytes) snapshot_codec \<Rightarrow> partition_key \<Rightarrow> string \<Rightarrow> log_set \<Rightarrow> subject_index_query result" where
  "logs_matching_offsets lc cd k filter_subject s =
     (case map_of (pls_logs s) k of
        None \<Rightarrow> Err ''unknown stream partition''
      | Some log \<Rightarrow> plog_matching_offsets lc cd log (dir_at k s) filter_subject)"

definition load_envelope ::
  "log_codec \<Rightarrow> partition_key \<Rightarrow> u64 \<Rightarrow> log_set \<Rightarrow> (message_envelope option result \<times> log_set) option" where
  "load_envelope lc k offset s =
     (let (cached, cache) = cache_get (pls_metadata_cache s) (fst k, snd k, offset);
          s = s\<lparr>pls_metadata_cache := cache\<rparr>
      in case cached of
           Some e \<Rightarrow> Some (Ok (Some e), s)
         | None \<Rightarrow>
            (case (case map_of (pls_logs s) k of
                     Some log \<Rightarrow> read_offset lc log (dir_at k s) offset
                   | None \<Rightarrow> load_dynamic lc k offset s) of
               Err m \<Rightarrow> Some (Err m, s)
             | Ok None \<Rightarrow> Some (Ok None, s)
             | Ok (Some e) \<Rightarrow> map_option (Pair (Ok (Some e))) (put_cached k offset e s)))"

definition load_record ::
  "log_codec \<Rightarrow> publish_record \<Rightarrow> log_set \<Rightarrow> (publish_record result \<times> log_set) option" where
  "load_record lc metadata s =
     (case (pub_stream metadata, pub_partition metadata, pub_offset metadata) of
        (Some stream, Some p, Some offset) \<Rightarrow>
          map_option (\<lambda>(r, s).
            (and_then r (\<lambda>found. case found of
               None \<Rightarrow> Err ''partition record is unavailable''
             | Some e \<Rightarrow> Ok (publish_record_of e)), s)) (load_envelope lc (stream, p) offset s)
      | _ \<Rightarrow> Some (Ok metadata, s))"

section \<open>Partitions activated at run time\<close>

text \<open>\<open>order\<close> is the order in which the hash map is iterated.\<close>

definition evict_idle_dynamic_partition :: "partition_key list \<Rightarrow> log_set \<Rightarrow> log_set" where
  "evict_idle_dynamic_partition order s =
     (case find (\<lambda>k. k \<notin> set (pls_dirty s)
               \<and> (case map_of (pls_dynamic_logs s) k of None \<Rightarrow> False | Some log \<Rightarrow> \<not> pl_file log)) order of
        None \<Rightarrow> s
      | Some k \<Rightarrow> s\<lparr>pls_dynamic_logs := bt_remove k (pls_dynamic_logs s),
                    pls_dynamic_partition_count := (pls_dynamic_partition_count s + (2 ^ 64 - 1)) mod 2 ^ 64\<rparr>)"

text \<open>The part of \<open>activate_partition\<close> behind the reservation of a slot.\<close>

definition open_dynamic ::
  "log_codec \<Rightarrow> (subject_index_file, bytes) snapshot_codec \<Rightarrow> partition_key \<Rightarrow> log_set \<Rightarrow> unit result \<times> log_set" where
  "open_dynamic lc cd k s =
     (case stream_id_new (fst k) of
        Err m \<Rightarrow> (Err m, s)
      | Ok stream \<Rightarrow>
         (case plog_open lc (pls_encryption s) cd stream (snd k) (pls_segment_bytes s) (dir_at k s) of
            (Err m, d) \<Rightarrow>
              (Err m, s\<lparr>pls_dynamic_partition_count := (pls_dynamic_partition_count s + (2 ^ 64 - 1)) mod 2 ^ 64,
                        pls_dirs := (pls_dirs s)(partition_dir k := d)\<rparr>)
          | (Ok (log, replay, repaired), d) \<Rightarrow>
              (let s = s\<lparr>pls_dirs := (pls_dirs s)(partition_dir k := d)\<rparr>
               in if replay \<noteq> []
                  then (Err ''dynamic partition contains unreconciled records'',
                        s\<lparr>pls_dynamic_partition_count := (pls_dynamic_partition_count s + (2 ^ 64 - 1)) mod 2 ^ 64\<rparr>)
                  else (Ok (), s\<lparr>pls_dynamic_logs := bt_insert k log (pls_dynamic_logs s)\<rparr>))))"

definition activate_partition ::
  "log_codec \<Rightarrow> (subject_index_file, bytes) snapshot_codec \<Rightarrow> runtime_env \<Rightarrow> partition_key list \<Rightarrow> partition_key \<Rightarrow> log_set
     \<Rightarrow> unit result \<times> log_set" where
  "activate_partition lc cd env order k s =
     (if bt_contains k (pls_logs s) \<or> bt_contains k (pls_dynamic_logs s) then (Ok (), s)
      else
        let limit = max_dynamic_partitions env;
            s = (if pls_dynamic_partition_count s \<ge> limit then evict_idle_dynamic_partition order s else s)
        in if pls_dynamic_partition_count s < limit
           then open_dynamic lc cd k (s\<lparr>pls_dynamic_partition_count := sat_add64 (pls_dynamic_partition_count s) 1\<rparr>)
           else (Err ''dynamic partition resource limit reached'', s))"

end
