(* ===== verification/Partition_Set_Safety.thy ===== *)
theory Partition_Set_Safety
  imports Partition_Log_Set
begin

text \<open>
  What the set of partition logs keeps (\<open>crates/server/src/partition_log/set.rs\<close>, \<open>dynamic.rs\<close>). The
  specification is one list of records per partition. The logs and their directories are related to it
  partition by partition, through the runs of \<open>Partition_History\<close>; a partition that no log is open for is
  dormant: its directory would open to what the specification holds. Then come the cache, the sequence
  numbers and the slots of dynamic partitions.
\<close>

section \<open>Directories of different partitions\<close>

definition plain_name :: "string \<Rightarrow> bool" where
  "plain_name n \<longleftrightarrow> CHR ''/'' \<notin> set n"

lemma decimal_value_padded: "decimal_value (replicate k CHR ''0'' @ decimal n) = n"
proof -
  have "foldl (\<lambda>v c. v * 10 + (of_char c - 48)) 0 (replicate k CHR ''0'') = (0 :: nat)"
    by (induction k) (simp_all add: of_char_def)
  then show ?thesis using decimal_value_decimal [of n] by (simp add: decimal_value_def)
qed

lemma partition_dir_inj:
  assumes "plain_name (fst k)" "plain_name (fst k')" "partition_dir k = partition_dir k'"
  shows "k = k'"
proof -
  let ?pad = "\<lambda>n. replicate (5 - length (decimal n)) CHR ''0'' @ decimal n"
  have split: "split_char CHR ''/'' (fst k) = [fst k]" "split_char CHR ''/'' (fst k') = [fst k']"
    using assms(1,2) by (simp_all add: plain_name_def split_char_token)
  have "?pad (snd k) = ?pad (snd k')" and name: "fst k = fst k'"
    using assms(3) unfolding partition_dir_def split by (auto split: if_splits)
  then have "snd k = snd k'" using decimal_value_padded by metis
  then show ?thesis using name by (simp add: prod_eq_iff)
qed

text \<open>
  Names with a separator are accepted for streams. Two streams whose names differ by one share their
  directories, and an absolute name leaves the data directory.
\<close>

lemma stream_directories_collide:
  "stream_id_new ''a'' = Ok ''a'' \<and> stream_id_new ''a/'' = Ok ''a/'' \<and> partition_dir (''a'', p) = partition_dir (''a/'', p)"
  by (simp add: stream_id_new_def partition_dir_def) code_simp

lemma absolute_stream_name: "stream_id_new ''/tmp'' = Ok ''/tmp'' \<and> fst (partition_dir (''/tmp'', p))"
  by (simp add: stream_id_new_def partition_dir_def) code_simp

section \<open>The specification\<close>

definition fresh_spec :: log_spec where
  "fresh_spec = \<lparr>ls_records = [], ls_next = 0\<rparr>"

definition active_log :: "partition_key \<Rightarrow> log_set \<Rightarrow> partition_log option" where
  "active_log k s = (map_of (pls_dynamic_logs s) ++ map_of (pls_logs s)) k"

definition dormant ::
  "log_codec \<Rightarrow> key_ring option \<Rightarrow> (subject_index_file, bytes) snapshot_codec \<Rightarrow> u64 \<Rightarrow> partition_key \<Rightarrow> plog_dir \<Rightarrow> log_spec \<Rightarrow> bool" where
  "dormant lc ring cd sb k d sp \<longleftrightarrow>
     d = empty_dir \<and> sp = fresh_spec
     \<or> (\<exists>log d0 tail'. plog_run lc ring cd (fst k) (snd k) sb log d0 sp \<and> torn_tail lc ring (fst k) (snd k) tail'
          \<and> d = cut_append tail' log d0)"

definition partition_holds ::
  "log_codec \<Rightarrow> key_ring option \<Rightarrow> (subject_index_file, bytes) snapshot_codec \<Rightarrow> u64 \<Rightarrow> partition_key \<Rightarrow> partition_log option
     \<Rightarrow> plog_dir \<Rightarrow> log_spec \<Rightarrow> bool" where
  "partition_holds lc ring cd sb k active d sp \<longleftrightarrow>
     (case active of
        Some log \<Rightarrow> plog_run lc ring cd (fst k) (snd k) sb log d sp
      | None \<Rightarrow> dormant lc ring cd sb k d sp)"

lemma cut_append_nothing [simp]: "cut_append [] log d = d"
proof -
  have "(\<lambda>e. if fst e = i then (fst e, snd e) else e) = (\<lambda>e :: u64 \<times> bytes. e)" for i by auto
  then show ?thesis by (simp add: cut_append_def bt_update_def case_prod_unfold)
qed

lemma run_dormant:
  "plog_run lc ring cd (fst k) (snd k) sb log d sp \<Longrightarrow> torn_tail lc ring (fst k) (snd k) tail' \<Longrightarrow> dormant lc ring cd sb k (cut_append tail' log d) sp"
  by (auto simp: dormant_def)

lemma run_dormant_whole: "plog_run lc ring cd (fst k) (snd k) sb log d sp \<Longrightarrow> dormant lc ring cd sb k d sp"
  using run_dormant [of lc ring cd k sb log d sp "[]"] by (simp add: torn_tail_def)

lemma dormant_opens:
  assumes "dormant lc ring cd sb k d sp" "ring_ok ring" "snapshot_ok cd"
  shows "\<exists>log t d'. plog_open lc ring cd (fst k) (snd k) sb d = (Ok (log, map into_resident_metadata (ls_records sp), t), d')
    \<and> plog_run lc ring cd (fst k) (snd k) sb log d' sp"
proof (cases "d = empty_dir \<and> sp = fresh_spec")
  case True
  obtain log d' where op: "plog_open lc ring cd (fst k) (snd k) sb empty_dir = (Ok (log, [], 0), d')"
    using open_fresh [OF assms(2,3)] by blast
  then show ?thesis using plog_run.open_new [OF op] True by (auto simp: fresh_spec_def)
next
  case False
  then obtain log d0 tail' where run: "plog_run lc ring cd (fst k) (snd k) sb log d0 sp"
    and torn: "torn_tail lc ring (fst k) (snd k) tail'" and d: "d = cut_append tail' log d0"
    using assms(1) by (auto simp: dormant_def)
  obtain cs where cs: "plog_inv lc cd cs log d0" "records_of cs = ls_records sp" "pl_encryption log = ring" "pl_stream log = fst k"
    "pl_partition log = snd k"
    using run_refines [OF run assms(2,3)] by blast
  obtain log' d' t where op: "plog_open lc ring cd (fst k) (snd k) sb d = (Ok (log', map into_resident_metadata (ls_records sp), t), d')"
    using reopen_cut [OF cs(1), of tail' sb] torn unfolding cs(2-5) d by blast
  then show ?thesis using plog_run.crash [OF run torn] d by blast
qed

section \<open>Records of one log\<close>

lemma sorted_last_offset: "sorted_wrt (<) (map en_offset es) \<Longrightarrow> x \<in> set es \<Longrightarrow> en_offset x \<le> en_offset (last es)"
  by (induction es) (auto simp: less_imp_le)

lemma run_offsets:
  assumes "plog_run lc ring cd stream p sb log d sp" "ring_ok ring" "snapshot_ok cd"
  shows "sorted_wrt (<) (map en_offset (ls_records sp)) \<and> (\<forall>x\<in>set (ls_records sp). en_stream x = stream \<and> en_partition x = p)"
proof -
  obtain cs where cs: "plog_inv lc cd cs log d" "records_of cs = ls_records sp" "pl_encryption log = ring" "pl_stream log = stream"
    "pl_partition log = p"
    using run_refines [OF assms] by blast
  then have dir: "dir_inv lc ring stream p cs d" by (simp add: plog_inv_def)
  then have "list_all2 (stored_as lc ring stream p) (records_of cs) (batches_of cs)"
    by (intro records_stored) (auto simp: dir_inv_def list_all_iff)
  then have "\<forall>x\<in>set (records_of cs). en_stream x = stream \<and> en_partition x = p"
    by (auto simp: list_all2_conv_all_nth in_set_conv_nth stored_as_def)
  then show ?thesis using dir cs(2) by (simp add: dir_inv_def)
qed

lemma run_below_next:
  assumes "plog_run lc ring cd stream p sb log d sp" "ring_ok ring" "snapshot_ok cd"
  shows "\<forall>x\<in>set (ls_records sp). en_offset x < ls_next sp"
  using assms(1)
proof (induction rule: plog_run.induct)
  case (append log d s e r log' d')
  then show ?case by (auto simp: spec_append_def)
next
  case (advance log d s earliest r log' d')
  have "sorted_wrt (<) (map en_offset (filter (\<lambda>e. earliest \<le> en_offset e) (ls_records s)))"
    using run_offsets [OF advance.hyps(1) assms(2,3)] by (simp add: sorted_wrt_map sorted_wrt_filter)
  from sorted_last_offset [OF this] show ?case by (fastforce simp: spec_retain_def Let_def less_Suc_eq_le max_def filter_empty_conv)
next
  case (rewrite log d s es floor' r log' d')
  then have "sorted_wrt (<) (map en_offset es)" by (simp add: rewrite_fits_def)
  from sorted_last_offset [OF this] show ?case by (auto simp: spec_rewrite_def less_Suc_eq_le Suc_le_eq max_def intro: le_less_trans)
next
  case (compact log d s visible r log' d')
  then show ?case by (auto simp: spec_compact_def)
qed simp_all

lemma run_reads:
  assumes "plog_run lc ring cd stream p sb log d sp" "ring_ok ring" "snapshot_ok cd"
  shows "read_offset lc log d offset = Ok (find (\<lambda>e. en_offset e = offset) (ls_records sp))" "pl_next_offset log = ls_next sp"
proof -
  obtain cs where "plog_inv lc cd cs log d" "records_of cs = ls_records sp" "pl_next_offset log = ls_next sp"
    using run_refines [OF assms] by blast
  then show "read_offset lc log d offset = Ok (find (\<lambda>e. en_offset e = offset) (ls_records sp))" "pl_next_offset log = ls_next sp"
    using read_offset_find by auto
qed

section \<open>The invariant\<close>

type_synonym set_spec = "partition_key \<Rightarrow> log_spec"

definition log_keys :: "log_set \<Rightarrow> partition_key set" where
  "log_keys s = fst ` set (pls_logs s) \<union> fst ` set (pls_dynamic_logs s)"

definition logs_hold ::
  "log_codec \<Rightarrow> key_ring option \<Rightarrow> (subject_index_file, bytes) snapshot_codec \<Rightarrow> log_set \<Rightarrow> set_spec \<Rightarrow> bool" where
  "logs_hold lc ring cd s \<sigma> \<longleftrightarrow>
     bt_wf (pls_logs s) \<and> bt_wf (pls_dynamic_logs s) \<and> fst ` set (pls_logs s) \<inter> fst ` set (pls_dynamic_logs s) = {}
     \<and> (\<forall>k\<in>log_keys s. plain_name (fst k)) \<and> pls_encryption s = ring
     \<and> (\<forall>k. plain_name (fst k) \<longrightarrow> partition_holds lc ring cd (pls_segment_bytes s) k (active_log k s) (dir_at k s) (\<sigma> k))"

text \<open>
  A cached record is the one at its place, as long as that place holds a record at all. After a
  compaction the cache may hold records that are no longer in the log.
\<close>

definition cache_holds :: "log_set \<Rightarrow> set_spec \<Rightarrow> bool" where
  "cache_holds s \<sigma> \<longleftrightarrow>
     cache_inv (pls_metadata_cache s)
     \<and> (\<forall>stream p offset e. map_of (pc_values (pls_metadata_cache s)) (stream, p, offset) = Some e \<longrightarrow>
          key_of e = (stream, p) \<and> en_offset e = offset \<and> offset < ls_next (\<sigma> (stream, p))
          \<and> (\<forall>x\<in>set (ls_records (\<sigma> (stream, p))). en_offset x = offset \<longrightarrow> x = e))"

text \<open>The next sequence number is above those of the open logs, until the numbers are used up.\<close>

definition seqs_below :: "log_set \<Rightarrow> set_spec \<Rightarrow> bool" where
  "seqs_below s \<sigma> \<longleftrightarrow>
     pls_next_legacy_seq s \<le> u64_max
     \<and> (\<forall>k\<in>log_keys s. \<forall>x\<in>set (ls_records (\<sigma> k)). en_legacy_seq x < pls_next_legacy_seq s \<or> pls_next_legacy_seq s = u64_max)"

definition slots_hold :: "log_set \<Rightarrow> bool" where
  "slots_hold s \<longleftrightarrow>
     length (pls_dynamic_logs s) \<le> pls_dynamic_partition_count s \<and> pls_dynamic_partition_count s \<le> MAX_DYNAMIC_PARTITIONS"

definition set_inv ::
  "log_codec \<Rightarrow> key_ring option \<Rightarrow> (subject_index_file, bytes) snapshot_codec \<Rightarrow> log_set \<Rightarrow> set_spec \<Rightarrow> bool" where
  "set_inv lc ring cd s \<sigma> \<longleftrightarrow> logs_hold lc ring cd s \<sigma> \<and> cache_holds s \<sigma> \<and> seqs_below s \<sigma> \<and> slots_hold s"

section \<open>A change of one log\<close>

lemma active_log_Some: "active_log k s = Some log \<Longrightarrow> k \<in> log_keys s"
  by (force simp: active_log_def log_keys_def dest: map_of_SomeD)

lemma active_iff: "k \<in> log_keys s \<longleftrightarrow> (\<exists>log. active_log k s = Some log)"
proof -
  have "k \<in> fst ` set m \<longleftrightarrow> map_of m k \<noteq> None" for m :: "(partition_key, partition_log) btree_map" by (simp add: map_of_eq_None_iff)
  then show ?thesis by (auto simp: active_log_def log_keys_def map_add_Some_iff)
qed

lemma holdsD:
  "logs_hold lc ring cd s \<sigma> \<Longrightarrow> plain_name (fst k) \<Longrightarrow> partition_holds lc ring cd (pls_segment_bytes s) k (active_log k s) (dir_at k s) (\<sigma> k)"
  unfolding logs_hold_def by blast

lemma active_run:
  assumes "logs_hold lc ring cd s \<sigma>" "active_log k s = Some log"
  shows "plog_run lc ring cd (fst k) (snd k) (pls_segment_bytes s) log (dir_at k s) (\<sigma> k)" "plain_name (fst k)"
proof -
  show "plain_name (fst k)" using assms active_log_Some [OF assms(2)] by (auto simp: logs_hold_def)
  from holdsD [OF assms(1) this] show "plog_run lc ring cd (fst k) (snd k) (pls_segment_bytes s) log (dir_at k s) (\<sigma> k)"
    using assms(2) by (simp add: partition_holds_def)
qed

lemma holds_after:
  assumes holds: "logs_hold lc ring cd s \<sigma>"
    and wf: "bt_wf (pls_logs s')" "bt_wf (pls_dynamic_logs s')" "fst ` set (pls_logs s') \<inter> fst ` set (pls_dynamic_logs s') = {}"
    and same: "pls_encryption s' = ring" "pls_segment_bytes s' = pls_segment_bytes s" "log_keys s' \<subseteq> insert k (log_keys s)"
    and k: "plain_name (fst k)" "partition_holds lc ring cd (pls_segment_bytes s) k (active_log k s') (dir_at k s') sp"
    and other: "\<And>k'. k' \<noteq> k \<Longrightarrow> active_log k' s' = active_log k' s" "\<And>path. path \<noteq> partition_dir k \<Longrightarrow> pls_dirs s' path = pls_dirs s path"
  shows "logs_hold lc ring cd s' (\<sigma>(k := sp))"
proof -
  have "partition_holds lc ring cd (pls_segment_bytes s') k' (active_log k' s') (dir_at k' s') ((\<sigma>(k := sp)) k')" if "plain_name (fst k')" for k'
  proof (cases "k' = k")
    case False
    then have "partition_dir k' \<noteq> partition_dir k" using partition_dir_inj that k(1) by blast
    then have "dir_at k' s' = dir_at k' s" using other(2) by (simp add: dir_at_def)
    then show ?thesis using False holdsD [OF holds that] other(1) same(2) by simp
  qed (use k same in simp)
  moreover have "\<forall>k'\<in>log_keys s'. plain_name (fst k')" using same(3) k(1) holds by (auto simp: logs_hold_def)
  ultimately show ?thesis using wf same(1) unfolding logs_hold_def by blast
qed

lemma log_store:
  assumes holds: "logs_hold lc ring cd s \<sigma>" and k: "map_of (pls_logs s) k = Some log"
    and run: "plog_run lc ring cd (fst k) (snd k) (pls_segment_bytes s) log' d sp"
  shows "logs_hold lc ring cd (s\<lparr>pls_logs := bt_insert k log' (pls_logs s), pls_dirs := (pls_dirs s)(partition_dir k := d)\<rparr>) (\<sigma>(k := sp))"
proof -
  have wf: "bt_wf (pls_logs s)" "bt_wf (pls_dynamic_logs s)" "fst ` set (pls_logs s) \<inter> fst ` set (pls_dynamic_logs s) = {}"
    using holds by (simp_all add: logs_hold_def)
  have "active_log k s = Some log" using k by (simp add: active_log_def)
  from active_run(2) [OF holds this] have plain: "plain_name (fst k)" .
  have mem: "k \<in> fst ` set (pls_logs s)" using k by (force dest: map_of_SomeD)
  show ?thesis
    using wf mem holds run plain
    by (intro holds_after [OF holds, where k = k]) (auto simp: log_keys_def active_log_def partition_holds_def dir_at_def logs_hold_def)
qed

lemma dynamic_store:
  assumes holds: "logs_hold lc ring cd s \<sigma>" and k: "map_of (pls_logs s) k = None" "plain_name (fst k)"
    and run: "plog_run lc ring cd (fst k) (snd k) (pls_segment_bytes s) log' d sp"
  shows "logs_hold lc ring cd (s\<lparr>pls_dynamic_logs := bt_insert k log' (pls_dynamic_logs s), pls_dirs := (pls_dirs s)(partition_dir k := d)\<rparr>) (\<sigma>(k := sp))"
proof -
  have wf: "bt_wf (pls_logs s)" "bt_wf (pls_dynamic_logs s)" "fst ` set (pls_logs s) \<inter> fst ` set (pls_dynamic_logs s) = {}"
    using holds by (simp_all add: logs_hold_def)
  have mem: "k \<notin> fst ` set (pls_logs s)" using k by (simp add: map_of_eq_None_iff)
  show ?thesis
    using wf mem holds run k
    by (intro holds_after [OF holds, where k = k])
      (auto simp: log_keys_def active_log_def map_add_def partition_holds_def dir_at_def logs_hold_def split: option.splits)
qed

text \<open>Fields that the relation to the logs does not mention.\<close>

lemma active_log_other [simp]:
  "active_log k (s\<lparr>pls_sticky := a\<rparr>) = active_log k s"
  "active_log k (s\<lparr>pls_dirty := b\<rparr>) = active_log k s"
  "active_log k (s\<lparr>pls_next_legacy_seq := n\<rparr>) = active_log k s"
  "active_log k (s\<lparr>pls_metadata_cache := c\<rparr>) = active_log k s"
  "active_log k (s\<lparr>pls_dynamic_partition_count := n\<rparr>) = active_log k s"
  by (simp_all add: active_log_def)

lemma log_keys_other [simp]:
  "log_keys (s\<lparr>pls_sticky := a\<rparr>) = log_keys s"
  "log_keys (s\<lparr>pls_dirty := b\<rparr>) = log_keys s"
  "log_keys (s\<lparr>pls_next_legacy_seq := n\<rparr>) = log_keys s"
  "log_keys (s\<lparr>pls_metadata_cache := c\<rparr>) = log_keys s"
  "log_keys (s\<lparr>pls_dynamic_partition_count := n\<rparr>) = log_keys s"
  by (simp_all add: log_keys_def)

lemma logs_hold_other [simp]:
  "logs_hold lc ring cd (s\<lparr>pls_sticky := a\<rparr>) \<sigma> = logs_hold lc ring cd s \<sigma>"
  "logs_hold lc ring cd (s\<lparr>pls_dirty := b\<rparr>) \<sigma> = logs_hold lc ring cd s \<sigma>"
  "logs_hold lc ring cd (s\<lparr>pls_next_legacy_seq := n\<rparr>) \<sigma> = logs_hold lc ring cd s \<sigma>"
  "logs_hold lc ring cd (s\<lparr>pls_metadata_cache := c\<rparr>) \<sigma> = logs_hold lc ring cd s \<sigma>"
  "logs_hold lc ring cd (s\<lparr>pls_dynamic_partition_count := n\<rparr>) \<sigma> = logs_hold lc ring cd s \<sigma>"
  by (simp_all add: logs_hold_def dir_at_def)

section \<open>The cache\<close>

lemma linked_recency_mem: "cache_linked c \<Longrightarrow> (k, e) \<in> set (cache_recency c) \<Longrightarrow> map_of (pc_values c) k = Some e"
  by (auto simp: cache_recency_def cache_linked_def)

lemma cached_after_insert:
  assumes inv: "cache_inv c"
  obtains previous c' where "cache_insert c key v = Some (previous, c')" "cache_inv c'"
    "\<And>k e. map_of (pc_values c') k = Some e \<Longrightarrow> k = key \<and> e = v \<or> map_of (pc_values c) k = Some e"
proof -
  obtain c' where c': "cache_insert c key v = Some (map_of (cache_recency c) key, c')" "cache_inv c'"
    "cache_recency c' = recency_put (pc_capacity c) key v (cache_recency c)"
    using cache_insert_law [OF inv] by blast
  have "k = key \<and> e = v \<or> map_of (pc_values c) k = Some e" if "map_of (pc_values c') k = Some e" for k e
  proof -
    have "map_of (cache_recency c') k = Some e" using that c'(2) linked_recency [of c'] by (simp add: cache_inv_def)
    then have "(k, e) \<in> set (cache_recency c')" by (rule map_of_SomeD)
    then have "(k, e) \<in> set (filter (\<lambda>e. fst e \<noteq> key) (cache_recency c) @ [(key, v)])"
      unfolding c'(3) recency_put_def Let_def by (rule in_set_dropD)
    then show ?thesis using inv linked_recency_mem [of c k e] by (auto simp: cache_inv_def)
  qed
  then show thesis using that c'(1,2) by blast
qed

lemma cached_after_get:
  assumes "cache_inv c"
  shows "cache_inv (snd (cache_get c key))" "fst (cache_get c key) = map_of (pc_values c) key"
    "pc_values (snd (cache_get c key)) = pc_values c"
  using cache_get_law [OF assms, of key] linked_recency [of c] assms
  by (simp_all add: cache_get_def cache_touch_def cache_inv_def Let_def)

lemma sorted_offsets_inj:
  assumes "sorted_wrt (<) (map en_offset es)" "x \<in> set es" "y \<in> set es" "en_offset x = en_offset y"
  shows "x = y"
proof -
  have "distinct (map en_offset es)" using assms(1) strict_sorted_iff by blast
  then show ?thesis using assms(2-4) by (auto simp: distinct_map dest: inj_onD)
qed

lemma put_cached_holds:
  assumes c: "cache_holds s \<sigma>" and e: "key_of e = k" "en_offset e = offset" "e \<in> set (ls_records (\<sigma> k))" "offset < ls_next (\<sigma> k)"
    and sorted: "sorted_wrt (<) (map en_offset (ls_records (\<sigma> k)))"
  shows "\<exists>c. put_cached k offset e s = Some (s\<lparr>pls_metadata_cache := c\<rparr>) \<and> cache_holds (s\<lparr>pls_metadata_cache := c\<rparr>) \<sigma>"
proof -
  obtain previous c' where ins: "cache_insert (pls_metadata_cache s) (fst k, snd k, offset) e = Some (previous, c')" "cache_inv c'"
    and old: "\<And>key v. map_of (pc_values c') key = Some v \<Longrightarrow>
      key = (fst k, snd k, offset) \<and> v = e \<or> map_of (pc_values (pls_metadata_cache s)) key = Some v"
    using cached_after_insert [of "pls_metadata_cache s" "(fst k, snd k, offset)" e] c unfolding cache_holds_def by blast
  have same: "x = e" if "x \<in> set (ls_records (\<sigma> k))" "en_offset x = offset" for x
    using that e(2,3) sorted_offsets_inj [OF sorted] by blast
  have "key_of v = (stream, p) \<and> en_offset v = n \<and> n < ls_next (\<sigma> (stream, p))
      \<and> (\<forall>x\<in>set (ls_records (\<sigma> (stream, p))). en_offset x = n \<longrightarrow> x = v)"
    if m: "map_of (pc_values c') (stream, p, n) = Some v" for stream p n v
  proof (cases "(stream, p, n) = (fst k, snd k, offset) \<and> v = e")
    case True
    then have eqs: "(stream, p) = k" "n = offset" "v = e" by (simp_all add: prod_eq_iff)
    show ?thesis unfolding eqs using e same by blast
  next
    case False
    then have "map_of (pc_values (pls_metadata_cache s)) (stream, p, n) = Some v" using old [OF m] by blast
    then show ?thesis using c unfolding cache_holds_def by blast
  qed
  then have "cache_holds (s\<lparr>pls_metadata_cache := c'\<rparr>) \<sigma>" using ins(2) by (simp add: cache_holds_def)
  then show ?thesis using ins(1) by (auto simp: put_cached_def)
qed

text \<open>A change of the specification that the cache need not see.\<close>

definition spec_grows :: "set_spec \<Rightarrow> set_spec \<Rightarrow> bool" where
  "spec_grows \<sigma> \<sigma>' \<longleftrightarrow> (\<forall>k. ls_next (\<sigma> k) \<le> ls_next (\<sigma>' k)
     \<and> (\<forall>x\<in>set (ls_records (\<sigma>' k)). x \<in> set (ls_records (\<sigma> k)) \<or> ls_next (\<sigma> k) \<le> en_offset x))"

lemma cache_spec_grows: "cache_holds s \<sigma> \<Longrightarrow> spec_grows \<sigma> \<sigma>' \<Longrightarrow> cache_holds s \<sigma>'"
proof (unfold cache_holds_def, intro conjI allI impI)
  fix stream p offset e
  assume c: "cache_inv (pls_metadata_cache s) \<and>
      (\<forall>stream p offset e. map_of (pc_values (pls_metadata_cache s)) (stream, p, offset) = Some e \<longrightarrow>
         key_of e = (stream, p) \<and> en_offset e = offset \<and> offset < ls_next (\<sigma> (stream, p))
         \<and> (\<forall>x\<in>set (ls_records (\<sigma> (stream, p))). en_offset x = offset \<longrightarrow> x = e))"
    and grows: "spec_grows \<sigma> \<sigma>'" and e: "map_of (pc_values (pls_metadata_cache s)) (stream, p, offset) = Some e"
  then have old: "key_of e = (stream, p)" "en_offset e = offset" "offset < ls_next (\<sigma> (stream, p))"
    "\<forall>x\<in>set (ls_records (\<sigma> (stream, p))). en_offset x = offset \<longrightarrow> x = e"
    by blast+
  have new: "ls_next (\<sigma> (stream, p)) \<le> ls_next (\<sigma>' (stream, p))"
    "\<forall>x\<in>set (ls_records (\<sigma>' (stream, p))). x \<in> set (ls_records (\<sigma> (stream, p))) \<or> ls_next (\<sigma> (stream, p)) \<le> en_offset x"
    using grows unfolding spec_grows_def by blast+
  show "key_of e = (stream, p)" "en_offset e = offset" "offset < ls_next (\<sigma>' (stream, p))"
    using old new(1) by simp_all
  show "\<forall>x\<in>set (ls_records (\<sigma>' (stream, p))). en_offset x = offset \<longrightarrow> x = e"
    using old(3,4) new(2) by force
qed (simp_all add: cache_holds_def)

lemma spec_grows_append: "spec_grows \<sigma> (\<sigma>(k := spec_append e (\<sigma> k)))"
  by (auto simp: spec_grows_def spec_append_def)

lemma spec_grows_refl [simp]: "spec_grows \<sigma> \<sigma>"
  by (simp add: spec_grows_def)

lemma cache_cleared: "cache_holds s \<sigma> \<Longrightarrow> cache_holds (clear_metadata_cache s) \<sigma>'"
  by (simp add: cache_holds_def clear_metadata_cache_def cache_clear_def cache_inv_def cache_linked_def)

end
