(* ===== verification/Partition_Set_Operations.thy ===== *)
theory Partition_Set_Operations
  imports Partition_Set_Safety
begin

text \<open>
  Every operation on the set of partition logs (\<open>crates/server/src/partition_log/set.rs\<close>, \<open>dynamic.rs\<close>) keeps
  the relation to its specification: appending, flushing, retention, rewriting, compaction, lookups,
  activation of partitions, and opening after a crash.
\<close>

section \<open>One log\<close>

text \<open>What an operation on a log leaves alone.\<close>

definition same_frame :: "log_set \<Rightarrow> log_set \<Rightarrow> bool" where
  "same_frame s s' \<longleftrightarrow>
     log_keys s' = log_keys s \<and> pls_metadata_cache s' = pls_metadata_cache s \<and> pls_next_legacy_seq s' = pls_next_legacy_seq s
     \<and> length (pls_dynamic_logs s') = length (pls_dynamic_logs s) \<and> pls_dynamic_partition_count s' = pls_dynamic_partition_count s
     \<and> pls_segment_bytes s' = pls_segment_bytes s \<and> fst ` set (pls_logs s') = fst ` set (pls_logs s)"

lemma length_bt_insert_present: "bt_wf m \<Longrightarrow> map_of m k = Some v \<Longrightarrow> length (bt_insert k w m) = length m"
  by (simp add: bt_insert_present bt_update_def)

lemma map_of_present: "map_of m k = Some v \<Longrightarrow> k \<in> fst ` set m"
  by (force dest: map_of_SomeD)

lemma on_log_holds:
  assumes holds: "logs_hold lc ring cd s \<sigma>" and k: "map_of (pls_logs s) k = Some log" and f: "f log (dir_at k s) = (r, log', d)"
    and run: "plog_run lc ring cd (fst k) (snd k) (pls_segment_bytes s) log' d sp"
  shows "\<exists>s'. on_log k f s = (r, s') \<and> logs_hold lc ring cd s' (\<sigma>(k := sp)) \<and> same_frame s s'"
  using log_store [OF holds k run] f k map_of_present [OF k]
  by (auto simp: on_log_def same_frame_def log_keys_def insert_absorb)

lemma on_dynamic_log_holds:
  assumes holds: "logs_hold lc ring cd s \<sigma>" and k: "map_of (pls_logs s) k = None" "map_of (pls_dynamic_logs s) k = Some log"
    and f: "f log (dir_at k s) = (r, log', d)" and run: "plog_run lc ring cd (fst k) (snd k) (pls_segment_bytes s) log' d sp"
  shows "\<exists>s'. on_dynamic_log k f s = (r, s') \<and> logs_hold lc ring cd s' (\<sigma>(k := sp)) \<and> same_frame s s'"
proof -
  have "active_log k s = Some log" using k by (simp add: active_log_def map_add_def)
  then have plain: "plain_name (fst k)" using active_run [OF holds] by blast
  have "bt_wf (pls_dynamic_logs s)" using holds by (simp add: logs_hold_def)
  then show ?thesis
    using dynamic_store [OF holds k(1) plain run] f k map_of_present [OF k(2)]
    by (auto simp: on_dynamic_log_def same_frame_def log_keys_def insert_absorb length_bt_insert_present)
qed

text \<open>Where the log of a partition is.\<close>

definition on_active :: "partition_key \<Rightarrow> 'a log_op \<Rightarrow> log_set \<Rightarrow> 'a result \<times> log_set" where
  "on_active k f s = (if bt_contains k (pls_logs s) then on_log k f s else on_dynamic_log k f s)"

lemma on_active_holds:
  assumes holds: "logs_hold lc ring cd s \<sigma>" and k: "active_log k s = Some log" and f: "f log (dir_at k s) = (r, log', d)"
    and run: "plog_run lc ring cd (fst k) (snd k) (pls_segment_bytes s) log' d sp"
  shows "\<exists>s'. on_active k f s = (r, s') \<and> logs_hold lc ring cd s' (\<sigma>(k := sp)) \<and> same_frame s s'"
proof (cases "map_of (pls_logs s) k")
  case None
  then have "\<not> bt_contains k (pls_logs s)" "map_of (pls_dynamic_logs s) k = Some log"
    using k by (simp_all add: bt_contains_def active_log_def map_add_def)
  then show ?thesis using on_dynamic_log_holds [where f = f, OF holds None _ f run] by (simp add: on_active_def)
next
  case (Some x)
  then have "x = log" using k by (simp add: active_log_def map_add_def)
  then show ?thesis
    using on_log_holds [where f = f, OF holds _ f run] Some by (simp add: on_active_def bt_contains_def)
qed

lemma on_inactive:
  assumes "active_log k s = None"
  shows "on_active k f s = (Err ''unknown stream partition'', s)"
proof -
  have "map_of (pls_logs s) k = None" "map_of (pls_dynamic_logs s) k = None" using assms by (simp_all add: active_log_def)
  then show ?thesis by (simp add: on_active_def on_dynamic_log_def bt_contains_def)
qed

lemma frame_cache: "same_frame s s' \<Longrightarrow> cache_holds s' \<sigma> = cache_holds s \<sigma>"
  by (simp add: same_frame_def cache_holds_def)

lemma frame_slots: "same_frame s s' \<Longrightarrow> slots_hold s' = slots_hold s"
  by (simp add: same_frame_def slots_hold_def)

lemma frame_seqs: "same_frame s s' \<Longrightarrow> seqs_below s' \<sigma> = seqs_below s \<sigma>"
  by (simp add: same_frame_def seqs_below_def)

lemma cache_holds_other [simp]:
  "cache_holds (s\<lparr>pls_dirty := b\<rparr>) \<sigma> = cache_holds s \<sigma>"
  "cache_holds (s\<lparr>pls_sticky := a\<rparr>) \<sigma> = cache_holds s \<sigma>"
  "cache_holds (s\<lparr>pls_next_legacy_seq := n\<rparr>) \<sigma> = cache_holds s \<sigma>"
  by (simp_all add: cache_holds_def)

lemma seqs_below_other [simp]:
  "seqs_below (s\<lparr>pls_dirty := b\<rparr>) \<sigma> = seqs_below s \<sigma>"
  "seqs_below (s\<lparr>pls_sticky := a\<rparr>) \<sigma> = seqs_below s \<sigma>"
  "seqs_below (s\<lparr>pls_metadata_cache := c\<rparr>) \<sigma> = seqs_below s \<sigma>"
  by (simp_all add: seqs_below_def)

lemma slots_hold_other [simp]:
  "slots_hold (s\<lparr>pls_dirty := b\<rparr>) = slots_hold s"
  "slots_hold (s\<lparr>pls_sticky := a\<rparr>) = slots_hold s"
  "slots_hold (s\<lparr>pls_next_legacy_seq := n\<rparr>) = slots_hold s"
  "slots_hold (s\<lparr>pls_metadata_cache := c\<rparr>) = slots_hold s"
  by (simp_all add: slots_hold_def)

lemma set_inv_dirty [simp]: "set_inv lc ring cd (s\<lparr>pls_dirty := b\<rparr>) \<sigma> = set_inv lc ring cd s \<sigma>"
  by (simp add: set_inv_def)

lemma mark_dirty_inv [simp]: "set_inv lc ring cd (mark_dirty k s) \<sigma> = set_inv lc ring cd s \<sigma>"
  by (simp add: mark_dirty_def)

section \<open>Appending\<close>

text \<open>Sequence numbers only rise, and a given one is below the next.\<close>

lemma raise_legacy_inv: "set_inv lc ring cd s \<sigma> \<Longrightarrow> set_inv lc ring cd (raise_legacy_seq seq s) \<sigma>"
  unfolding set_inv_def raise_legacy_seq_def seqs_below_def by (fastforce simp: sat_add64_def max_def)

lemma raised_above: "seq < pls_next_legacy_seq (raise_legacy_seq seq s) \<or> u64_max \<le> pls_next_legacy_seq (raise_legacy_seq seq s)"
  by (simp add: raise_legacy_seq_def sat_add64_def) linarith

lemma raise_legacy_active [simp]: "active_log k (raise_legacy_seq seq s) = active_log k s" "dir_at k (raise_legacy_seq seq s) = dir_at k s"
  "log_keys (raise_legacy_seq seq s) = log_keys s" "pls_segment_bytes (raise_legacy_seq seq s) = pls_segment_bytes s"
  by (simp_all add: raise_legacy_seq_def dir_at_def)

lemma noted:
  assumes holds: "logs_hold lc ring cd s \<sigma>" "cache_holds s \<sigma>" "seqs_below s \<sigma>" "slots_hold s" and ok: "ring_ok ring" "snapshot_ok cd"
    and k: "active_log (key_of e) s = Some log" and e: "e \<in> set (ls_records (\<sigma> (key_of e)))"
  shows "\<exists>s'. note_appended (Ok e, s) = Some (Ok e, s') \<and> set_inv lc ring cd s' \<sigma> \<and> log_keys s' = log_keys s
    \<and> pls_segment_bytes s' = pls_segment_bytes s"
proof -
  note run = active_run(1) [OF holds(1) k]
  have "en_offset e < ls_next (\<sigma> (key_of e))" "sorted_wrt (<) (map en_offset (ls_records (\<sigma> (key_of e))))"
    using run_below_next [OF run ok] run_offsets [OF run ok] e by auto
  from put_cached_holds [OF holds(2) refl refl e this] obtain c
    where c: "put_cached (key_of e) (en_offset e) e s = Some (s\<lparr>pls_metadata_cache := c\<rparr>)" "cache_holds (s\<lparr>pls_metadata_cache := c\<rparr>) \<sigma>"
    by blast
  then have "set_inv lc ring cd (s\<lparr>pls_metadata_cache := c\<rparr>) \<sigma>" using holds by (simp add: set_inv_def)
  then show ?thesis using c(1) by (simp add: note_appended_def cache_envelope_def) (simp add: mark_dirty_def)
qed

text \<open>An append is acknowledged if it extends the log, or if the log has a record with the same checksum in its place.\<close>

lemma append_new_result: "append_new lc cd e log d = (Ok a, log', d') \<Longrightarrow> a = e"
  by (auto simp: append_new_def Let_def split: sum.splits prod.splits if_splits)

lemma append_result:
  assumes run: "plog_run lc ring cd stream p sb log d sp" "ring_ok ring" "snapshot_ok cd"
    and app: "plog_append_committed lc cd e log d = (Ok a, log', d')"
  shows "a = e" "en_offset e = ls_next sp \<or>
    (\<exists>x\<in>set (ls_records sp). en_offset x = en_offset e \<and> envelope_checksum lc x = envelope_checksum lc e)"
proof -
  note reads = run_reads [OF run]
  show "a = e" using app append_new_result by (fastforce simp: plog_append_committed_def split: sum.splits if_splits)
  show "en_offset e = ls_next sp \<or>
    (\<exists>x\<in>set (ls_records sp). en_offset x = en_offset e \<and> envelope_checksum lc x = envelope_checksum lc e)"
  proof (cases "en_offset e < ls_next sp")
    case True
    then obtain x sum where x: "find (\<lambda>x. en_offset x = en_offset e) (ls_records sp) = Some x" "envelope_checksum lc x = Ok sum"
      "envelope_checksum lc e = Ok sum"
      using app reads by (auto simp: plog_append_committed_def and_then_def map_ok_def split: sum.splits option.splits if_splits)
    then show ?thesis using find_Some_iff [THEN iffD1, OF x(1)] by (metis nth_mem)
  next
    case False
    then show ?thesis using app reads(2) by (auto simp: plog_append_committed_def split: if_splits)
  qed
qed

lemma append_step:
  assumes inv: "set_inv lc ring cd s \<sigma>" and ok: "ring_ok ring" "snapshot_ok cd" and k: "active_log (key_of e) s = Some log"
    and fits: "append_fits lc log e" and op: "f log (dir_at (key_of e) s) = plog_append_committed lc cd e log (dir_at (key_of e) s)"
    and clash: "\<And>x. x \<in> set (ls_records (\<sigma> (key_of e))) \<Longrightarrow> en_offset x = en_offset e \<Longrightarrow> envelope_checksum lc x = envelope_checksum lc e \<Longrightarrow> x = e"
  shows "\<exists>r s'. note_appended (on_active (key_of e) f (raise_legacy_seq (en_legacy_seq e) s)) = Some (r, s')
    \<and> set_inv lc ring cd s' (\<sigma>(key_of e := spec_append e (\<sigma> (key_of e)))) \<and> log_keys s' = log_keys s
    \<and> pls_segment_bytes s' = pls_segment_bytes s \<and> (en_offset e = ls_next (\<sigma> (key_of e)) \<longrightarrow> r = Ok e)"
proof -
  let ?k = "key_of e" and ?s = "raise_legacy_seq (en_legacy_seq e) s"
  let ?\<sigma> = "\<sigma>(?k := spec_append e (\<sigma> ?k))"
  have inv': "set_inv lc ring cd ?s \<sigma>" by (rule raise_legacy_inv [OF inv])
  then have holds: "logs_hold lc ring cd ?s \<sigma>" "cache_holds ?s \<sigma>" "seqs_below ?s \<sigma>" "slots_hold ?s" by (simp_all add: set_inv_def)
  have k': "active_log ?k ?s = Some log" using k by simp
  note run = active_run(1) [OF holds(1) k']
  obtain r log' d where app: "plog_append_committed lc cd e log (dir_at ?k ?s) = (r, log', d)" by (cases "plog_append_committed lc cd e log (dir_at ?k ?s)") auto
  note run' = plog_run.append [OF run fits app]
  have f: "f log (dir_at ?k ?s) = (r, log', d)" using op app by simp
  obtain s1 where s1: "on_active ?k f ?s = (r, s1)" "logs_hold lc ring cd s1 ?\<sigma>" "same_frame ?s s1"
    using on_active_holds [where f = f, OF holds(1) k' f run'] by blast
  have cache: "cache_holds s1 ?\<sigma>" using cache_spec_grows [OF holds(2) spec_grows_append] frame_cache [OF s1(3)] by simp
  have seqs: "seqs_below s1 ?\<sigma>"
  proof -
    have "pls_next_legacy_seq ?s \<le> u64_max" using holds(3) by (simp add: seqs_below_def)
    then have "en_legacy_seq e < pls_next_legacy_seq ?s \<or> pls_next_legacy_seq ?s = u64_max"
      using raised_above [of "en_legacy_seq e" s] by linarith
    then have "seqs_below ?s ?\<sigma>" using holds(3) by (auto simp: seqs_below_def spec_append_def)
    then show ?thesis using frame_seqs [OF s1(3)] by simp
  qed
  have slots: "slots_hold s1" using frame_slots [OF s1(3)] holds(4) by simp
  have keys: "log_keys s1 = log_keys s" "pls_segment_bytes s1 = pls_segment_bytes s" using s1(3) by (simp_all add: same_frame_def)
  then obtain log1 where k1: "active_log ?k s1 = Some log1" using k active_log_Some active_iff by metis
  show ?thesis
  proof (cases r)
    case (Inl m)
    have "r = Ok e" if "en_offset e = ls_next (\<sigma> ?k)"
    proof -
      obtain cs where "plog_inv lc cd cs log (dir_at ?k ?s)" "pl_next_offset log = ls_next (\<sigma> ?k)"
        using run_refines [OF run ok] by blast
      then show ?thesis using append_committed_keeps [OF _ fits] that app by fastforce
    qed
    then show ?thesis using Inl s1 cache seqs slots keys by (auto simp: note_appended_def set_inv_def)
  next
    case (Inr a)
    have mem: "a = e \<and> e \<in> set (ls_records (spec_append e (\<sigma> ?k)))"
      using append_result [OF run ok app [unfolded Inr]] clash by (auto simp: spec_append_def)
    then show ?thesis using noted [OF s1(2) cache seqs slots ok k1] s1(1) Inr keys by auto
  qed
qed

lemma key_of_offset [simp]: "key_of (e\<lparr>en_offset := n\<rparr>) = key_of e"
  by (simp add: key_of_def)

lemma append_envelope_active:
  assumes inv: "set_inv lc ring cd s \<sigma>" and ok: "ring_ok ring" "snapshot_ok cd" and k: "active_log (key_of e) s = Some log"
    and fits: "append_fits lc log (e\<lparr>en_offset := ls_next (\<sigma> (key_of e))\<rparr>)"
  defines "e' \<equiv> e\<lparr>en_offset := ls_next (\<sigma> (key_of e))\<rparr>"
  shows "\<exists>s'. append_envelope lc cd e s = Some (Ok e', s') \<and> set_inv lc ring cd s' (\<sigma>(key_of e := spec_append e' (\<sigma> (key_of e))))
    \<and> log_keys s' = log_keys s \<and> pls_segment_bytes s' = pls_segment_bytes s"
proof -
  have holds: "logs_hold lc ring cd s \<sigma>" using inv by (simp add: set_inv_def)
  note run = active_run(1) [OF holds k]
  have e': "key_of e' = key_of e" "en_legacy_seq e' = en_legacy_seq e" "en_offset e' = ls_next (\<sigma> (key_of e))" by (simp_all add: e'_def)
  have op: "plog_append lc cd e log d = plog_append_committed lc cd e' log d" for d
    using run_reads(2) [OF run ok] by (simp add: plog_append_def e'_def)
  have clash: "x = e'" if "x \<in> set (ls_records (\<sigma> (key_of e')))" "en_offset x = en_offset e'" for x
    using that run_below_next [OF run ok] e' by auto
  have "append_envelope lc cd e s = note_appended (on_active (key_of e') (plog_append lc cd e) (raise_legacy_seq (en_legacy_seq e') s))"
    by (simp add: append_envelope_def append_dynamic_def on_active_def e' Let_def)
  then show ?thesis
    using append_step [where f = "plog_append lc cd e", OF inv ok, of e' log] k fits op clash unfolding e'_def [symmetric] e' by auto
qed

lemma append_committed_active:
  assumes inv: "set_inv lc ring cd s \<sigma>" and ok: "ring_ok ring" "snapshot_ok cd" and k: "active_log (key_of e) s = Some log"
    and fits: "append_fits lc log e"
    and clash: "\<And>x. x \<in> set (ls_records (\<sigma> (key_of e))) \<Longrightarrow> en_offset x = en_offset e \<Longrightarrow> envelope_checksum lc x = envelope_checksum lc e \<Longrightarrow> x = e"
  shows "\<exists>r s'. set_append_committed lc cd e s = Some (r, s') \<and> set_inv lc ring cd s' (\<sigma>(key_of e := spec_append e (\<sigma> (key_of e))))
    \<and> log_keys s' = log_keys s \<and> pls_segment_bytes s' = pls_segment_bytes s \<and> (en_offset e = ls_next (\<sigma> (key_of e)) \<longrightarrow> r = Ok e)"
proof -
  have "set_append_committed lc cd e s
      = note_appended (on_active (key_of e) (plog_append_committed lc cd e) (raise_legacy_seq (en_legacy_seq e) s))"
    by (simp add: set_append_committed_def append_dynamic_committed_def on_active_def Let_def)
  then show ?thesis using append_step [where f = "plog_append_committed lc cd e", OF inv ok k fits refl] clash by simp
qed

lemma append_inactive:
  assumes inv: "set_inv lc ring cd s \<sigma>" and k: "active_log (key_of e) s = None"
  shows "\<exists>s'. append_envelope lc cd e s = Some (Err ''unknown stream partition'', s') \<and> set_inv lc ring cd s' \<sigma>"
    and "\<exists>s'. set_append_committed lc cd e s = Some (Err ''unknown stream partition'', s') \<and> set_inv lc ring cd s' \<sigma>"
proof -
  let ?s = "raise_legacy_seq (en_legacy_seq e) s"
  have k': "active_log (key_of e) ?s = None" using k by simp
  have "append_envelope lc cd e s = note_appended (on_active (key_of e) (plog_append lc cd e) ?s)"
    "set_append_committed lc cd e s = note_appended (on_active (key_of e) (plog_append_committed lc cd e) ?s)"
    by (simp_all add: append_envelope_def append_dynamic_def set_append_committed_def append_dynamic_committed_def on_active_def Let_def)
  then show "\<exists>s'. append_envelope lc cd e s = Some (Err ''unknown stream partition'', s') \<and> set_inv lc ring cd s' \<sigma>"
    "\<exists>s'. set_append_committed lc cd e s = Some (Err ''unknown stream partition'', s') \<and> set_inv lc ring cd s' \<sigma>"
    using raise_legacy_inv [OF inv] unfolding on_inactive [OF k'] by (simp_all add: note_appended_def)
qed

text \<open>The choice of a sequence number: it is above those of all open logs.\<close>

lemma prepare_append_counted:
  assumes inv: "set_inv lc ring cd s \<sigma>" and q: "prepare_append q s = Some (e, s1)" and given: "ar_legacy_seq q = None"
  shows "set_inv lc ring cd s1 \<sigma> \<and> (\<forall>k. active_log k s1 = active_log k s) \<and> log_keys s1 = log_keys s \<and> pls_segment_bytes s1 = pls_segment_bytes s
    \<and> (pls_next_legacy_seq s < u64_max \<longrightarrow> (\<forall>k\<in>log_keys s. \<forall>x\<in>set (ls_records (\<sigma> k)). en_legacy_seq x < en_legacy_seq e))"
proof -
  let ?n = "pls_next_legacy_seq s"
  obtain sticky where s1: "s1 = raise_legacy_seq ?n (s\<lparr>pls_sticky := sticky, pls_next_legacy_seq := (?n + 1) mod 2 ^ 64\<rparr>)"
    and e: "en_legacy_seq e = ?n"
    using q given by (auto simp: prepare_append_def request_envelope_def Let_def)
  have n: "?n \<le> u64_max" using inv by (simp add: set_inv_def seqs_below_def)
  have next1: "pls_next_legacy_seq s1 = min (?n + 1) u64_max"
  proof (cases "?n = u64_max")
    case True
    then show ?thesis by (simp add: s1 raise_legacy_seq_def sat_add64_def u64_max_def)
  next
    case False
    then have "(?n + 1) mod 2 ^ 64 = ?n + 1" using n by (intro mod_less) (simp add: u64_max_def)
    then show ?thesis using False n by (simp add: s1 raise_legacy_seq_def sat_add64_def)
  qed
  have other: "logs_hold lc ring cd s1 \<sigma>" "cache_holds s1 \<sigma>" "slots_hold s1" "log_keys s1 = log_keys s" "pls_segment_bytes s1 = pls_segment_bytes s"
    "\<forall>k. active_log k s1 = active_log k s"
    using inv by (simp_all add: set_inv_def s1 raise_legacy_seq_def)
  moreover have "seqs_below s1 \<sigma>"
    using inv n unfolding set_inv_def seqs_below_def next1 other(4) by fastforce
  moreover have "en_legacy_seq x < en_legacy_seq e" if "?n < u64_max" "k \<in> log_keys s" "x \<in> set (ls_records (\<sigma> k))" for k x
    using inv that unfolding set_inv_def seqs_below_def e by auto
  ultimately show ?thesis by (simp add: set_inv_def)
qed

lemma prepare_append_inv:
  assumes inv: "set_inv lc ring cd s \<sigma>" and q: "prepare_append q s = Some (e, s1)"
  shows "set_inv lc ring cd s1 \<sigma> \<and> (\<forall>k. active_log k s1 = active_log k s) \<and> log_keys s1 = log_keys s \<and> pls_segment_bytes s1 = pls_segment_bytes s"
proof (cases "ar_legacy_seq q")
  case None
  then show ?thesis using prepare_append_counted [OF inv q] by blast
next
  case (Some seq)
  then obtain sticky where s1: "s1 = raise_legacy_seq seq (s\<lparr>pls_sticky := sticky\<rparr>)"
    using q by (auto simp: prepare_append_def request_envelope_def Let_def)
  have "set_inv lc ring cd (s\<lparr>pls_sticky := sticky\<rparr>) \<sigma>" using inv by (simp add: set_inv_def)
  then show ?thesis using raise_legacy_inv s1 by simp
qed

section \<open>Flushing\<close>

lemma release_holds:
  assumes holds: "logs_hold lc ring cd s \<sigma>" and k: "active_log k s = Some log"
  shows "\<exists>s'. on_active k release_op s = (Ok (), s') \<and> logs_hold lc ring cd s' \<sigma> \<and> same_frame s s'"
  using on_active_holds [where f = release_op, OF holds k _ plog_run.flush [OF active_run(1) [OF holds k]]]
  by (simp add: release_op_def)

lemma frame_inv: "logs_hold lc ring cd s' \<sigma> \<Longrightarrow> same_frame s s' \<Longrightarrow> set_inv lc ring cd s \<sigma> \<Longrightarrow> set_inv lc ring cd s' \<sigma>"
  by (simp add: set_inv_def frame_cache frame_seqs frame_slots)

lemma frame_trans: "same_frame s s' \<Longrightarrow> same_frame s' s'' \<Longrightarrow> same_frame s s''"
  by (simp add: same_frame_def)

lemma flush_keys_holds:
  "logs_hold lc ring cd s \<sigma> \<Longrightarrow> \<exists>s'. flush_keys ks s = (Ok (), s') \<and> logs_hold lc ring cd s' \<sigma> \<and> same_frame s s'"
proof (induction ks arbitrary: s)
  case Nil
  then show ?case by (simp add: same_frame_def)
next
  case (Cons k ks)
  let ?one = "if bt_contains k (pls_logs s) then on_log k release_op s
    else if bt_contains k (pls_dynamic_logs s) then flush_dynamic_partition k s else (Ok (), s)"
  have "\<exists>s'. ?one = (Ok (), s') \<and> logs_hold lc ring cd s' \<sigma> \<and> same_frame s s'"
  proof (cases "active_log k s")
    case None
    then have "map_of (pls_logs s) k = None" "map_of (pls_dynamic_logs s) k = None" by (simp_all add: active_log_def)
    then show ?thesis using Cons.prems by (simp add: bt_contains_def same_frame_def)
  next
    case (Some log)
    then have "?one = on_active k release_op s"
      by (auto simp: on_active_def flush_dynamic_partition_def bt_contains_def active_log_def)
    then show ?thesis using release_holds [OF Cons.prems Some] by simp
  qed
  then obtain s1 where s1: "?one = (Ok (), s1)" "logs_hold lc ring cd s1 \<sigma>" "same_frame s s1" by blast
  obtain s2 where "flush_keys ks s1 = (Ok (), s2)" "logs_hold lc ring cd s2 \<sigma>" "same_frame s1 s2" using Cons.IH [OF s1(2)] by blast
  then show ?case using s1(1) frame_trans [OF s1(3)] by simp
qed

lemma set_flush_holds:
  assumes "set_inv lc ring cd s \<sigma>"
  shows "\<exists>s'. set_flush s = (Ok (), s') \<and> set_inv lc ring cd s' \<sigma>"
proof -
  let ?s = "s\<lparr>pls_dirty := []\<rparr>"
  have "set_inv lc ring cd ?s \<sigma>" "logs_hold lc ring cd ?s \<sigma>" using assms by (simp_all add: set_inv_def)
  then show ?thesis using flush_keys_holds [of lc ring cd ?s \<sigma> "pls_dirty s"] frame_inv by (fastforce simp: set_flush_def)
qed

lemma flush_partition_holds:
  assumes inv: "set_inv lc ring cd s \<sigma>"
  shows "set_inv lc ring cd (snd (flush_partition k s)) \<sigma>"
proof -
  let ?s = "s\<lparr>pls_dirty := removeAll k (pls_dirty s)\<rparr>"
  have inv': "set_inv lc ring cd ?s \<sigma>" and holds: "logs_hold lc ring cd ?s \<sigma>" using inv by (simp_all add: set_inv_def)
  have flush: "flush_partition k s = on_active k release_op ?s"
    by (simp add: flush_partition_def flush_dynamic_partition_def on_active_def)
  show ?thesis
  proof (cases "active_log k ?s")
    case None
    then show ?thesis using inv' by (simp add: flush on_inactive [OF None])
  next
    case (Some log)
    then show ?thesis using release_holds [OF holds Some] frame_inv inv' by (auto simp: flush)
  qed
qed

section \<open>Maintenance\<close>

lemma maintain_holds:
  assumes inv: "set_inv lc ring cd s \<sigma>" and k: "map_of (pls_logs s) k = Some log" and f: "f log (dir_at k s) = (r, log', d)"
    and run: "plog_run lc ring cd (fst k) (snd k) (pls_segment_bytes s) log' d sp" and sub: "set (ls_records sp) \<subseteq> set (ls_records (\<sigma> k))"
  shows "\<exists>s'. maintain k f s = (r, s') \<and> set_inv lc ring cd s' (\<sigma>(k := sp)) \<and> log_keys s' = log_keys s
    \<and> pls_segment_bytes s' = pls_segment_bytes s"
proof -
  have holds: "logs_hold lc ring cd s \<sigma>" "cache_holds s \<sigma>" "seqs_below s \<sigma>" "slots_hold s" using inv by (simp_all add: set_inv_def)
  obtain s1 where s1: "on_log k f s = (r, s1)" "logs_hold lc ring cd s1 (\<sigma>(k := sp))" "same_frame s s1"
    using on_log_holds [where f = f, OF holds(1) k f run] by blast
  have "seqs_below s (\<sigma>(k := sp))" using holds(3) sub unfolding seqs_below_def by auto
  then have "set_inv lc ring cd (clear_metadata_cache (mark_dirty k s1)) (\<sigma>(k := sp))"
    using s1(2) cache_cleared [of "mark_dirty k s1" \<sigma>] holds(2,4) frame_seqs [OF s1(3)] frame_slots [OF s1(3)] frame_cache [OF s1(3)]
    by (simp add: set_inv_def clear_metadata_cache_def mark_dirty_def)
  then show ?thesis using s1 k by (simp add: maintain_def bt_contains_def same_frame_def) (simp add: clear_metadata_cache_def mark_dirty_def)
qed

lemma retention_holds:
  assumes inv: "set_inv lc ring cd s \<sigma>" and ok: "ring_ok ring" "snapshot_ok cd"
  shows "set_inv lc ring cd (snd (retention_changes_from now ps s)) \<sigma>"
  using inv
proof (induction now ps s rule: retention_changes_from.induct)
  case (2 now d p ps s)
  let ?k = "(sd_name d, p)"
  show ?case
  proof (cases "map_of (pls_logs s) ?k")
    case None
    then show ?thesis using 2 by simp
  next
    case (Some log)
    obtain r log' where e: "plog_enforce_retention (sd_retention d) now log = (r, log')" by fastforce
    let ?s = "s\<lparr>pls_logs := bt_insert ?k log' (pls_logs s)\<rparr>"
    have holds: "logs_hold lc ring cd s \<sigma>" using 2(3) by (simp add: set_inv_def)
    have "active_log ?k s = Some log" using Some by (simp add: active_log_def)
    from active_run(1) [OF holds this] have "plog_run lc ring cd (fst ?k) (snd ?k) (pls_segment_bytes s) log' (dir_at ?k s) (\<sigma> ?k)"
      using plog_run.expire e by fastforce
    from log_store [OF holds Some this] have "logs_hold lc ring cd ?s \<sigma>" by (simp add: dir_at_def)
    moreover have "same_frame s ?s" using map_of_present [OF Some] by (auto simp: same_frame_def log_keys_def)
    ultimately have "set_inv lc ring cd ?s \<sigma>" using frame_inv 2(3) by blast
    from 2(2) [OF refl Some e [symmetric] refl this] show ?thesis
      using Some e by (auto simp: Let_def split: prod.splits option.splits)
  qed
qed simp

section \<open>Compaction\<close>

text \<open>What compaction makes of the specification, given the logs before it.\<close>

definition compacted :: "(partition_key \<Rightarrow> u64 set option) \<Rightarrow> partition_key set \<Rightarrow> log_set \<Rightarrow> set_spec \<Rightarrow> set_spec" where
  "compacted visible ks s \<sigma> k =
     (case (visible k, map_of (pls_logs s) k) of
        (Some offsets, Some log) \<Rightarrow> if k \<in> ks then spec_compact offsets (last_range_start log) (\<sigma> k) else \<sigma> k
      | _ \<Rightarrow> \<sigma> k)"

lemma compact_one:
  assumes inv: "set_inv lc ring cd s \<sigma>" and ok: "ring_ok ring" "snapshot_ok cd" and k: "map_of (pls_logs s) k = Some log"
  shows "\<exists>log' d. compact_all lc cd offsets log (dir_at k s) = Some (Ok (), log', d)
    \<and> set_inv lc ring cd (s\<lparr>pls_logs := bt_insert k log' (pls_logs s), pls_dirs := (pls_dirs s)(partition_dir k := d)\<rparr>)
        (\<sigma>(k := spec_compact offsets (last_range_start log) (\<sigma> k)))"
proof -
  have holds: "logs_hold lc ring cd s \<sigma>" "cache_holds s \<sigma>" "seqs_below s \<sigma>" "slots_hold s" using inv by (simp_all add: set_inv_def)
  let ?\<sigma> = "\<sigma>(k := spec_compact offsets (last_range_start log) (\<sigma> k))"
  have act: "active_log k s = Some log" using k by (simp add: active_log_def)
  note run = active_run(1) [OF holds(1) act]
  obtain log' d where c: "compact_all lc cd offsets log (dir_at k s) = Some (Ok (), log', d)"
    "plog_run lc ring cd (fst k) (snd k) (pls_segment_bytes s) log' d (spec_compact offsets (last_range_start log) (\<sigma> k))"
    using compaction_ends [OF run ok, of offsets] by blast
  let ?s = "s\<lparr>pls_logs := bt_insert k log' (pls_logs s), pls_dirs := (pls_dirs s)(partition_dir k := d)\<rparr>"
  have frame: "same_frame s ?s" using map_of_present [OF k] by (auto simp: same_frame_def log_keys_def)
  have "spec_grows \<sigma> ?\<sigma>" by (auto simp: spec_grows_def spec_compact_def)
  from cache_spec_grows [OF holds(2) this] have "cache_holds ?s ?\<sigma>" using frame_cache [OF frame] by simp
  moreover have "seqs_below s ?\<sigma>" using holds(3) by (auto simp: seqs_below_def spec_compact_def)
  ultimately show ?thesis
    using c(1) log_store [OF holds(1) k c(2)] frame_seqs [OF frame] frame_slots [OF frame] holds(4) by (auto simp: set_inv_def)
qed

lemma compact_keys_hold:
  assumes "set_inv lc ring cd s \<sigma>" "ring_ok ring" "snapshot_ok cd" "distinct (map (\<lambda>(d, p). (sd_name d, p)) ps)"
  shows "\<exists>r s'. compact_keys lc cd visible ps s = Some (r, s')
    \<and> (r = Ok () \<longrightarrow> set_inv lc ring cd s' (compacted visible (set (map (\<lambda>(d, p). (sd_name d, p)) ps)) s \<sigma>))
    \<and> ((\<forall>(d, p)\<in>set ps. visible (sd_name d, p) \<noteq> None \<longrightarrow> (sd_name d, p) \<in> fst ` set (pls_logs s)) \<longrightarrow> r = Ok ())"
  using assms
proof (induction lc cd visible ps s arbitrary: \<sigma> rule: compact_keys.induct)
  case (1 lc cd visible s)
  have "compacted visible {} s \<sigma> = \<sigma>" by (rule ext) (simp add: compacted_def split: option.splits)
  then show ?case using 1 by simp
next
  case (2 lc cd visible d p ps s)
  let ?k = "(sd_name d, p)" and ?ks = "set (map (\<lambda>(d, p). (sd_name d, p)) ps)"
  show ?case
  proof (cases "visible ?k")
    case None
    have "compacted visible (insert ?k ?ks) s \<sigma> = compacted visible ?ks s \<sigma>"
      by (rule ext) (simp add: compacted_def None split: option.splits)
    then show ?thesis using 2(1) [OF refl None 2(3-5)] 2(6) None by auto
  next
    case offsets: (Some offsets)
    show ?thesis
    proof (cases "map_of (pls_logs s) ?k")
      case None
      then have "?k \<notin> fst ` set (pls_logs s)" by (simp add: map_of_eq_None_iff)
      then show ?thesis using offsets None by simp
    next
      case (Some log)
      let ?\<sigma> = "\<sigma>(?k := spec_compact offsets (last_range_start log) (\<sigma> ?k))"
      obtain log' d' where c: "compact_all lc cd offsets log (dir_at ?k s) = Some (Ok (), log', d')"
        "set_inv lc ring cd (s\<lparr>pls_logs := bt_insert ?k log' (pls_logs s), pls_dirs := (pls_dirs s)(partition_dir ?k := d')\<rparr>) ?\<sigma>"
        using compact_one [OF 2(3-5) Some] by blast
      let ?s = "s\<lparr>pls_logs := bt_insert ?k log' (pls_logs s), pls_dirs := (pls_dirs s)(partition_dir ?k := d')\<rparr>"
      have wf: "bt_wf (pls_logs s)" using 2(3) by (simp add: set_inv_def logs_hold_def)
      have distinct: "?k \<notin> ?ks" "distinct (map (\<lambda>(d, p). (sd_name d, p)) ps)" using 2(6) by auto
      have same: "compacted visible ?ks ?s ?\<sigma> = compacted visible (insert ?k ?ks) s \<sigma>"
      proof
        fix k
        show "compacted visible ?ks ?s ?\<sigma> k = compacted visible (insert ?k ?ks) s \<sigma> k"
          using distinct(1) wf offsets Some by (cases "k = ?k") (auto simp: compacted_def split: option.splits)
      qed
      have keys: "fst ` set (pls_logs ?s) = fst ` set (pls_logs s)" using map_of_present [OF Some] by auto
      from 2(2) [OF refl offsets Some c(1) refl refl refl refl c(2) 2(4,5) distinct(2)] obtain r s'
        where "compact_keys lc cd visible ps ?s = Some (r, s')"
          "r = Ok () \<longrightarrow> set_inv lc ring cd s' (compacted visible (insert ?k ?ks) s \<sigma>)"
          "(\<forall>(d, p)\<in>set ps. visible (sd_name d, p) \<noteq> None \<longrightarrow> (sd_name d, p) \<in> fst ` set (pls_logs s)) \<longrightarrow> r = Ok ()"
        unfolding same keys by blast
      then show ?thesis using c(1) offsets Some by (intro exI [of _ r] exI [of _ s']) simp
    qed
  qed
qed

section \<open>Lookups\<close>

lemma load_cached:
  assumes inv: "set_inv lc ring cd s \<sigma>"
  shows "\<exists>c. cache_get (pls_metadata_cache s) key = (map_of (pc_values (pls_metadata_cache s)) key, c)
    \<and> set_inv lc ring cd (s\<lparr>pls_metadata_cache := c\<rparr>) \<sigma>"
proof -
  obtain v c where get: "cache_get (pls_metadata_cache s) key = (v, c)" by fastforce
  have "cache_inv (pls_metadata_cache s)" using inv by (simp add: set_inv_def cache_holds_def)
  from cached_after_get [OF this, of key] get have "cache_inv c" "v = map_of (pc_values (pls_metadata_cache s)) key"
    "pc_values c = pc_values (pls_metadata_cache s)"
    by simp_all
  then show ?thesis using get inv by (simp add: set_inv_def cache_holds_def)
qed

text \<open>A lookup on an open log; behind the cache it reads the log.\<close>

lemma load_active:
  assumes inv: "set_inv lc ring cd s \<sigma>" and ok: "ring_ok ring" "snapshot_ok cd" and k: "active_log k s = Some log"
  shows "\<exists>r s'. load_envelope lc k offset s = Some (Ok r, s') \<and> set_inv lc ring cd s' \<sigma> \<and> log_keys s' = log_keys s
    \<and> pls_segment_bytes s' = pls_segment_bytes s
    \<and> (\<forall>e. e \<in> set (ls_records (\<sigma> k)) \<and> en_offset e = offset \<longrightarrow> r = Some e)
    \<and> (\<forall>e. r = Some e \<longrightarrow> key_of e = k \<and> en_offset e = offset)
    \<and> (map_of (pc_values (pls_metadata_cache s)) (fst k, snd k, offset) = None \<longrightarrow> r = find (\<lambda>e. en_offset e = offset) (ls_records (\<sigma> k)))"
proof -
  obtain c where get: "cache_get (pls_metadata_cache s) (fst k, snd k, offset)
      = (map_of (pc_values (pls_metadata_cache s)) (fst k, snd k, offset), c)"
    and inv1: "set_inv lc ring cd (s\<lparr>pls_metadata_cache := c\<rparr>) \<sigma>"
    using load_cached [OF inv] by blast
  let ?s = "s\<lparr>pls_metadata_cache := c\<rparr>"
  have holds: "logs_hold lc ring cd s \<sigma>" "cache_holds s \<sigma>" using inv by (simp_all add: set_inv_def)
  note run = active_run(1) [OF holds(1) k]
  note sorted = run_offsets [OF run ok]
  show ?thesis
  proof (cases "map_of (pc_values (pls_metadata_cache s)) (fst k, snd k, offset)")
    case (Some e)
    then have "key_of e = (fst k, snd k)" "en_offset e = offset" "\<forall>x\<in>set (ls_records (\<sigma> (fst k, snd k))). en_offset x = offset \<longrightarrow> x = e"
      using holds(2) unfolding cache_holds_def by blast+
    then show ?thesis using get Some inv1 by (auto simp: load_envelope_def Let_def)
  next
    case None
    let ?found = "find (\<lambda>e. en_offset e = offset) (ls_records (\<sigma> k))"
    have "(case map_of (pls_logs ?s) k of Some log \<Rightarrow> read_offset lc log (dir_at k ?s) offset | None \<Rightarrow> load_dynamic lc k offset ?s)
        = read_offset lc log (dir_at k s) offset"
      using k by (auto simp: active_log_def map_add_def load_dynamic_def dir_at_def split: option.splits)
    then have load: "load_envelope lc k offset s = (case ?found of None \<Rightarrow> Some (Ok None, ?s)
        | Some e \<Rightarrow> map_option (Pair (Ok (Some e))) (put_cached k offset e ?s))"
      using get None run_reads(1) [OF run ok, of offset] by (simp add: load_envelope_def Let_def split: option.splits)
    show ?thesis
    proof (cases ?found)
      case no: None
      then have "\<forall>e. e \<in> set (ls_records (\<sigma> k)) \<longrightarrow> en_offset e \<noteq> offset" by (simp add: find_None_iff)
      then show ?thesis using load inv1 no by auto
    next
      case (Some e)
      then have e: "e \<in> set (ls_records (\<sigma> k))" "en_offset e = offset" using find_Some_iff [THEN iffD1, OF Some] by (auto intro: nth_mem)
      then have key: "key_of e = k" using sorted by (simp add: key_of_def)
      have below: "offset < ls_next (\<sigma> k)" using run_below_next [OF run ok] e by auto
      have "cache_holds ?s \<sigma>" using inv1 by (simp add: set_inv_def)
      from put_cached_holds [OF this key e(2,1) below] sorted obtain c' where put: "put_cached k offset e ?s = Some (?s\<lparr>pls_metadata_cache := c'\<rparr>)"
        "cache_holds (?s\<lparr>pls_metadata_cache := c'\<rparr>) \<sigma>"
        by blast
      show ?thesis
      proof (intro exI conjI)
        show "load_envelope lc k offset s = Some (Ok (Some e), ?s\<lparr>pls_metadata_cache := c'\<rparr>)" using load put(1) Some by simp
        show "set_inv lc ring cd (?s\<lparr>pls_metadata_cache := c'\<rparr>) \<sigma>" using put(2) inv1 by (simp add: set_inv_def)
        show "\<forall>x. x \<in> set (ls_records (\<sigma> k)) \<and> en_offset x = offset \<longrightarrow> Some e = Some x"
          using e sorted_offsets_inj sorted by blast
      qed (use key e Some in simp_all)
    qed
  qed
qed

lemma load_inactive:
  assumes inv: "set_inv lc ring cd s \<sigma>" and k: "active_log k s = None"
  shows "\<exists>r s'. load_envelope lc k offset s = Some (Ok r, s') \<and> set_inv lc ring cd s' \<sigma>"
proof -
  obtain c where get: "cache_get (pls_metadata_cache s) (fst k, snd k, offset)
      = (map_of (pc_values (pls_metadata_cache s)) (fst k, snd k, offset), c)"
    and inv1: "set_inv lc ring cd (s\<lparr>pls_metadata_cache := c\<rparr>) \<sigma>"
    using load_cached [OF inv] by blast
  have "map_of (pls_logs s) k = None" "map_of (pls_dynamic_logs s) k = None" using k by (simp_all add: active_log_def)
  then show ?thesis using get inv1 by (cases "map_of (pc_values (pls_metadata_cache s)) (fst k, snd k, offset)") (auto simp: load_envelope_def load_dynamic_def Let_def)
qed

section \<open>Partitions activated at run time\<close>

lemma length_bt_remove_present: "bt_wf m \<Longrightarrow> map_of m k = Some v \<Longrightarrow> Suc (length (bt_remove k m)) = length m"
proof (induction m)
  case (Cons e m)
  then have "bt_wf m" "fst e \<notin> fst ` set m" by (auto simp: bt_wf_Cons_iff)
  moreover from this(2) have "filter (\<lambda>x. fst x \<noteq> fst e) m = m" by (intro filter_True ballI) (metis image_eqI)
  ultimately show ?case using Cons by (auto simp: bt_remove_def split: if_splits)
qed simp

lemma fetch_sub: "0 < n \<Longrightarrow> n \<le> MAX_DYNAMIC_PARTITIONS \<Longrightarrow> (n + (2 ^ 64 - 1)) mod 2 ^ 64 = n - 1"
proof -
  assume n: "0 < n" "n \<le> MAX_DYNAMIC_PARTITIONS"
  then have "n + (2 ^ 64 - 1) = (n - 1) + 2 ^ 64" by simp
  then have "(n + (2 ^ 64 - 1)) mod 2 ^ 64 = (n - 1) mod 2 ^ 64" by (metis mod_add_self2)
  also have "\<dots> = n - 1" using n by (intro mod_less) (simp add: MAX_DYNAMIC_PARTITIONS_def)
  finally show ?thesis .
qed

lemma evict_inv:
  assumes inv: "set_inv lc ring cd s \<sigma>"
  shows "set_inv lc ring cd (evict_idle_dynamic_partition order s) \<sigma> \<and> pls_logs (evict_idle_dynamic_partition order s) = pls_logs s
    \<and> fst ` set (pls_dynamic_logs (evict_idle_dynamic_partition order s)) \<subseteq> fst ` set (pls_dynamic_logs s)
    \<and> pls_segment_bytes (evict_idle_dynamic_partition order s) = pls_segment_bytes s"
proof (cases "find (\<lambda>k. k \<notin> set (pls_dirty s) \<and> (case map_of (pls_dynamic_logs s) k of None \<Rightarrow> False | Some log \<Rightarrow> \<not> pl_file log)) order")
  case None
  then show ?thesis using inv by (simp add: evict_idle_dynamic_partition_def)
next
  case (Some k)
  then obtain log where k: "map_of (pls_dynamic_logs s) k = Some log" by (auto simp: find_Some_iff split: option.splits)
  let ?s = "s\<lparr>pls_dynamic_logs := bt_remove k (pls_dynamic_logs s)\<rparr>"
  let ?s' = "?s\<lparr>pls_dynamic_partition_count := (pls_dynamic_partition_count s + (2 ^ 64 - 1)) mod 2 ^ 64\<rparr>"
  have evict: "evict_idle_dynamic_partition order s = ?s'" using Some by (simp add: evict_idle_dynamic_partition_def)
  have holds: "logs_hold lc ring cd s \<sigma>" "cache_holds s \<sigma>" "seqs_below s \<sigma>" "slots_hold s" using inv by (simp_all add: set_inv_def)
  then have wf: "bt_wf (pls_logs s)" "bt_wf (pls_dynamic_logs s)" "fst ` set (pls_logs s) \<inter> fst ` set (pls_dynamic_logs s) = {}"
    by (simp_all add: logs_hold_def)
  have none: "map_of (pls_logs s) k = None" using wf(3) map_of_present [OF k] by (auto simp: map_of_eq_None_iff)
  then have act: "active_log k s = Some log" using k by (simp add: active_log_def map_add_def)
  note run = active_run [OF holds(1) act]
  have sub: "set (bt_remove k (pls_dynamic_logs s)) \<subseteq> set (pls_dynamic_logs s)" by (auto simp: bt_remove_def)
  then have keys: "log_keys ?s \<subseteq> log_keys s" and apart: "fst ` set (pls_logs ?s) \<inter> fst ` set (pls_dynamic_logs ?s) = {}"
    using wf(3) by (auto simp: log_keys_def)
  have "logs_hold lc ring cd ?s (\<sigma>(k := \<sigma> k))"
    using wf(1,2) apart holds(1) run keys none run_dormant_whole [OF run(1)]
    by (intro holds_after [OF holds(1), where k = k])
      (auto simp: active_log_def map_add_def partition_holds_def dir_at_def logs_hold_def split: option.splits)
  moreover have "cache_holds ?s' \<sigma>" using holds(2) by (simp add: cache_holds_def)
  moreover have "seqs_below ?s' \<sigma>" using holds(3) keys by (auto simp: seqs_below_def)
  moreover have "slots_hold ?s'"
    using holds(4) length_bt_remove_present [OF wf(2) k] fetch_sub [of "pls_dynamic_partition_count s"] by (auto simp: slots_hold_def)
  ultimately show ?thesis using sub unfolding evict by (auto simp: set_inv_def)
qed

text \<open>Opening a partition whose slot is reserved.\<close>

lemma reopened_holds:
  assumes holds: "logs_hold lc ring cd s \<sigma>" and k: "active_log k s = None" "plain_name (fst k)"
    and run: "plog_run lc ring cd (fst k) (snd k) (pls_segment_bytes s) log d (\<sigma> k)"
  shows "logs_hold lc ring cd (s\<lparr>pls_dirs := (pls_dirs s)(partition_dir k := d)\<rparr>) \<sigma>"
proof -
  let ?s = "s\<lparr>pls_dirs := (pls_dirs s)(partition_dir k := d)\<rparr>"
  have "logs_hold lc ring cd ?s (\<sigma>(k := \<sigma> k))"
    using holds k run_dormant_whole [OF run]
    by (intro holds_after [OF holds, where k = k])
      (auto simp: active_log_def map_add_def log_keys_def partition_holds_def dir_at_def logs_hold_def split: option.splits)
  then show ?thesis by simp
qed

lemma open_dynamic_inv:
  assumes holds: "logs_hold lc ring cd s \<sigma>" "cache_holds s \<sigma>" "seqs_below s \<sigma>"
    and slots: "length (pls_dynamic_logs s) < pls_dynamic_partition_count s" "pls_dynamic_partition_count s \<le> MAX_DYNAMIC_PARTITIONS"
    and ok: "ring_ok ring" "snapshot_ok cd" and k: "active_log k s = None" "plain_name (fst k)"
  shows "set_inv lc ring cd (snd (open_dynamic lc cd k s)) \<sigma>"
proof (cases "stream_id_new (fst k)")
  case (Inl m)
  then show ?thesis using holds slots by (simp add: open_dynamic_def set_inv_def slots_hold_def)
next
  case (Inr stream)
  then have stream: "stream = fst k" by (auto simp: stream_id_new_def split: if_splits)
  have "dormant lc ring cd (pls_segment_bytes s) k (dir_at k s) (\<sigma> k)" using holdsD [OF holds(1) k(2)] k(1) by (simp add: partition_holds_def)
  from dormant_opens [OF this ok] obtain log t d
    where op: "plog_open lc ring cd (fst k) (snd k) (pls_segment_bytes s) (dir_at k s) = (Ok (log, map into_resident_metadata (ls_records (\<sigma> k)), t), d)"
      and run: "plog_run lc ring cd (fst k) (snd k) (pls_segment_bytes s) log d (\<sigma> k)"
    by blast
  have ring: "pls_encryption s = ring" using holds(1) by (simp add: logs_hold_def)
  let ?s = "s\<lparr>pls_dirs := (pls_dirs s)(partition_dir k := d)\<rparr>"
  have count: "length (pls_dynamic_logs s) \<le> (pls_dynamic_partition_count s + (2 ^ 64 - 1)) mod 2 ^ 64"
    "(pls_dynamic_partition_count s + (2 ^ 64 - 1)) mod 2 ^ 64 \<le> MAX_DYNAMIC_PARTITIONS"
    using fetch_sub [of "pls_dynamic_partition_count s"] slots by linarith+
  show ?thesis
  proof (cases "ls_records (\<sigma> k) = []")
    case False
    have "cache_holds ?s \<sigma>" "seqs_below ?s \<sigma>" using holds(2,3) by (simp_all add: cache_holds_def seqs_below_def log_keys_def)
    then show ?thesis
      using Inr stream op ring False count reopened_holds [OF holds(1) k run]
      by (simp add: open_dynamic_def set_inv_def Let_def) (simp add: slots_hold_def cache_holds_def seqs_below_def)
  next
    case True
    let ?s' = "s\<lparr>pls_dynamic_logs := bt_insert k log (pls_dynamic_logs s), pls_dirs := (pls_dirs s)(partition_dir k := d)\<rparr>"
    have none: "map_of (pls_logs s) k = None" "map_of (pls_dynamic_logs s) k = None" using k(1) by (simp_all add: active_log_def)
    have "logs_hold lc ring cd ?s' (\<sigma>(k := \<sigma> k))" by (rule dynamic_store [OF holds(1) none(1) k(2) run])
    moreover have "cache_holds ?s' \<sigma>" using holds(2) by (simp add: cache_holds_def)
    moreover have "seqs_below ?s' \<sigma>" using holds(3) True by (auto simp: seqs_below_def log_keys_def)
    moreover have "slots_hold ?s'"
      using slots holds(1) length_bt_insert [of "pls_dynamic_logs s" k log] by (simp add: slots_hold_def logs_hold_def)
    moreover have "snd (open_dynamic lc cd k s) = ?s'" using Inr stream op ring True by (simp add: open_dynamic_def Let_def)
    ultimately show ?thesis by (simp add: set_inv_def)
  qed
qed

lemma activate_inv:
  assumes inv: "set_inv lc ring cd s \<sigma>" and ok: "ring_ok ring" "snapshot_ok cd" and k: "plain_name (fst k)"
  shows "set_inv lc ring cd (snd (activate_partition lc cd env order k s)) \<sigma>"
proof (cases "bt_contains k (pls_logs s) \<or> bt_contains k (pls_dynamic_logs s)")
  case True
  then show ?thesis using inv by (simp add: activate_partition_def)
next
  case False
  let ?limit = "max_dynamic_partitions env"
  define s1 where "s1 = (if pls_dynamic_partition_count s \<ge> ?limit then evict_idle_dynamic_partition order s else s)"
  have inv1: "set_inv lc ring cd s1 \<sigma>" and sub: "pls_logs s1 = pls_logs s"
    "fst ` set (pls_dynamic_logs s1) \<subseteq> fst ` set (pls_dynamic_logs s)"
    using evict_inv [OF inv, of order] inv by (auto simp: s1_def)
  have act: "active_log k s1 = None" using False sub by (auto simp: active_log_def bt_contains_iff map_of_eq_None_iff)
  have limit: "?limit \<le> MAX_DYNAMIC_PARTITIONS" by (simp add: max_dynamic_partitions_def clamp_nat_def MAX_DYNAMIC_PARTITIONS_def)
  let ?s = "s1\<lparr>pls_dynamic_partition_count := sat_add64 (pls_dynamic_partition_count s1) 1\<rparr>"
  have run: "activate_partition lc cd env order k s = (if pls_dynamic_partition_count s1 < ?limit
      then open_dynamic lc cd k ?s else (Err ''dynamic partition resource limit reached'', s1))"
    using False by (simp add: activate_partition_def s1_def Let_def)
  show ?thesis
  proof (cases "pls_dynamic_partition_count s1 < ?limit")
    case True
    then have "sat_add64 (pls_dynamic_partition_count s1) 1 = pls_dynamic_partition_count s1 + 1"
      using limit by (simp add: sat_add64_def MAX_DYNAMIC_PARTITIONS_def u64_max_def)
    then have "set_inv lc ring cd (snd (open_dynamic lc cd k ?s)) \<sigma>"
      using inv1 act k True limit
      by (intro open_dynamic_inv [OF _ _ _ _ _ ok]) (simp_all add: set_inv_def slots_hold_def cache_holds_def seqs_below_def)
    then show ?thesis using True run by simp
  qed (use inv1 run in simp)
qed

end
