(* ===== verification/Partition_Set_History.thy ===== *)
theory Partition_Set_History
  imports Partition_Set_Operations
begin

text \<open>
  Runs of the set of partition logs (\<open>crates/server/src/partition_log/set.rs\<close>, \<open>dynamic.rs\<close>): opened on an
  empty disk, used by any sequence of calls, crashing at any moment and opened again. Beside the set a
  run carries what was appended to each partition and not yet removed by retention or compaction.
\<close>

section \<open>Opening\<close>

lemma concat_chunks: "concat (chunks_of n xs) = xs"
  by (induction n xs rule: chunks_of.induct) simp_all

lemma recover_append:
  "recover_chunk lc ring cd sb (ks @ rest) dirs = (Ok xs, dirs') \<Longrightarrow>
    \<exists>ys zs dirs1. recover_chunk lc ring cd sb ks dirs = (Ok ys, dirs1) \<and> recover_chunk lc ring cd sb rest dirs1 = (Ok zs, dirs') \<and> xs = ys @ zs"
proof (induction ks arbitrary: dirs xs)
  case (Cons k ks)
  obtain opened d zs where op: "plog_open lc ring cd (fst k) (snd k) sb (dirs (partition_dir k)) = (Ok opened, d)"
    "recover_chunk lc ring cd sb (ks @ rest) (dirs(partition_dir k := d)) = (Ok zs, dirs')" "xs = (k, opened) # zs"
    using Cons.prems by (auto simp: map_ok_def and_then_def split: prod.splits sum.splits)
  obtain ys zs' dirs1 where "recover_chunk lc ring cd sb ks (dirs(partition_dir k := d)) = (Ok ys, dirs1)"
    "recover_chunk lc ring cd sb rest dirs1 = (Ok zs', dirs')" "zs = ys @ zs'"
    using Cons.IH [OF op(2)] by blast
  then show ?case using op(1,3) by (simp add: map_ok_def and_then_def)
qed simp

text \<open>The workers together do what one would.\<close>

lemma recover_chunks_seq:
  "recover_chunk lc ring cd sb (concat cs) dirs = (Ok xs, dirs') \<Longrightarrow> recover_chunks lc ring cd sb cs dirs = (Ok xs, dirs')"
proof (induction cs arbitrary: dirs xs)
  case (Cons c cs)
  then obtain ys zs dirs1 where "recover_chunk lc ring cd sb c dirs = (Ok ys, dirs1)"
    "recover_chunk lc ring cd sb (concat cs) dirs1 = (Ok zs, dirs')" "xs = ys @ zs"
    using recover_append [of lc ring cd sb c "concat cs" dirs xs dirs'] by auto
  then show ?case using Cons.IH by (simp add: map_ok_def and_then_def)
qed simp

lemma recover_holds:
  assumes ok: "ring_ok ring" "snapshot_ok cd"
  shows "distinct ks \<Longrightarrow> (\<And>k. k \<in> set ks \<Longrightarrow> plain_name (fst k) \<and> dormant lc ring cd sb k (dirs (partition_dir k)) (\<sigma> k)) \<Longrightarrow>
    \<exists>xs dirs'. recover_chunk lc ring cd sb ks dirs = (Ok xs, dirs') \<and> map fst xs = ks
      \<and> (\<forall>path. path \<notin> partition_dir ` set ks \<longrightarrow> dirs' path = dirs path)
      \<and> (\<forall>(k, log, replay, t)\<in>set xs. replay = map into_resident_metadata (ls_records (\<sigma> k))
           \<and> plog_run lc ring cd (fst k) (snd k) sb log (dirs' (partition_dir k)) (\<sigma> k))"
proof (induction ks arbitrary: dirs)
  case (Cons k ks)
  have k: "plain_name (fst k)" "dormant lc ring cd sb k (dirs (partition_dir k)) (\<sigma> k)" using Cons.prems(2) by auto
  obtain log t d where op: "plog_open lc ring cd (fst k) (snd k) sb (dirs (partition_dir k))
      = (Ok (log, map into_resident_metadata (ls_records (\<sigma> k)), t), d)" "plog_run lc ring cd (fst k) (snd k) sb log d (\<sigma> k)"
    using dormant_opens [OF k(2) ok] by blast
  let ?dirs = "dirs(partition_dir k := d)"
  have other: "partition_dir k' \<noteq> partition_dir k" if "k' \<in> set ks" for k'
    using that Cons.prems k(1) partition_dir_inj [of k' k] by auto
  then have rest: "plain_name (fst k') \<and> dormant lc ring cd sb k' (?dirs (partition_dir k')) (\<sigma> k')" if "k' \<in> set ks" for k'
    using that Cons.prems(2) by simp
  have "distinct ks" using Cons.prems(1) by simp
  from Cons.IH [OF this rest] obtain xs dirs' where xs: "recover_chunk lc ring cd sb ks ?dirs = (Ok xs, dirs')" "map fst xs = ks"
    "\<forall>path. path \<notin> partition_dir ` set ks \<longrightarrow> dirs' path = ?dirs path"
    "\<forall>(k, log, replay, t)\<in>set xs. replay = map into_resident_metadata (ls_records (\<sigma> k))
       \<and> plog_run lc ring cd (fst k) (snd k) sb log (dirs' (partition_dir k)) (\<sigma> k)"
    by blast
  have "partition_dir k \<notin> partition_dir ` set ks" using other by (metis imageE)
  then have "dirs' (partition_dir k) = d" using xs(3) by (simp del: split_paired_All)
  then show ?case
    using op xs
    by (intro exI [of _ "(k, log, map into_resident_metadata (ls_records (\<sigma> k)), t) # xs"] exI [of _ dirs'])
      (simp add: map_ok_def and_then_def)
qed simp

definition streams_plain :: "stream_definition list \<Rightarrow> bool" where
  "streams_plain streams \<longleftrightarrow> distinct (map sd_name streams) \<and> list_all (\<lambda>d. plain_name (sd_name d)) streams"

lemma recovery_work_distinct:
  assumes "streams_plain streams"
  shows "distinct (recovery_work streams assigned) \<and> (\<forall>k\<in>set (recovery_work streams assigned). plain_name (fst k))"
proof -
  have "distinct (recovery_work streams assigned) \<and> fst ` set (recovery_work streams assigned) \<subseteq> sd_name ` set streams"
    if "distinct (map sd_name streams)" for streams
    using that
  proof (induction streams)
    case (Cons d streams)
    have "distinct (map (Pair (sd_name d)) (filter P [0..<n]))" for P n by (simp add: distinct_map inj_on_def)
    then show ?case using Cons by (force simp: recovery_work_def)
  qed (simp add: recovery_work_def)
  from this [of streams] show ?thesis using assms by (force simp: streams_plain_def list_all_iff)
qed

lemma cache_new_clamped:
  obtains cache :: "('k::linorder, 'v) partition_resource_cache"
  where "cache_new (clamp_nat n 1 m) = Some cache" "cache_inv cache" "pc_values cache = []"
proof (rule that)
  show "cache_new (clamp_nat n 1 m) = Some \<lparr>pc_capacity = clamp_nat n 1 m, pc_values = [], pc_lru = [], pc_evictions = 0\<rparr>"
    by (simp add: cache_new_def clamp_nat_def)
qed (simp_all add: cache_inv_def cache_linked_def clamp_nat_def)

lemma set_open_holds:
  assumes dormant: "\<And>k. plain_name (fst k) \<Longrightarrow> dormant lc ring cd sb k (dirs (partition_dir k)) (\<sigma> k)"
    and streams: "streams_plain streams" and ok: "ring_ok ring" "snapshot_ok cd"
  shows "\<exists>s dirs'. set_open lc cd env streams sb ring assigned dirs
      = (Ok (s, sort_key en_legacy_seq (concat (map (\<lambda>k. map into_resident_metadata (ls_records (\<sigma> k))) (recovery_work streams assigned)))), dirs')
    \<and> set_inv lc ring cd s \<sigma> \<and> pls_segment_bytes s = sb \<and> log_keys s = set (recovery_work streams assigned)"
proof -
  let ?work = "recovery_work streams assigned"
  note work = recovery_work_distinct [OF streams, of assigned]
  obtain xs dirs' where xs: "recover_chunk lc ring cd sb ?work dirs = (Ok xs, dirs')" "map fst xs = ?work"
    "\<forall>path. path \<notin> partition_dir ` set ?work \<longrightarrow> dirs' path = dirs path"
    "\<forall>(k, log, replay, t)\<in>set xs. replay = map into_resident_metadata (ls_records (\<sigma> k))
       \<and> plog_run lc ring cd (fst k) (snd k) sb log (dirs' (partition_dir k)) (\<sigma> k)"
    using recover_holds [OF ok, of ?work lc sb dirs \<sigma>] work dormant by blast
  have chunks: "recover_chunks lc ring cd sb (chunks_of n ?work) dirs = (Ok xs, dirs')" for n
    using recover_chunks_seq [of lc ring cd sb "chunks_of n ?work"] xs(1) by (simp add: concat_chunks)
  have replays: "concat (map (\<lambda>(k, log, replay, repaired). replay) xs)
      = concat (map (\<lambda>k. map into_resident_metadata (ls_records (\<sigma> k))) ?work)"
  proof -
    have "map (\<lambda>(k, log, replay, repaired). replay) xs = map (\<lambda>x. map into_resident_metadata (ls_records (\<sigma> (fst x)))) xs"
      using xs(4) by (intro map_cong) auto
    also have "\<dots> = map (\<lambda>k. map into_resident_metadata (ls_records (\<sigma> k))) (map fst xs)" by (simp add: comp_def)
    finally show ?thesis using xs(2) by simp
  qed
  define logs where "logs = fold (\<lambda>(k, log, replay, repaired). bt_insert k log) xs []"
  have "logs = fold (\<lambda>x. bt_insert (fst x) (fst (snd x))) xs []" unfolding logs_def by (intro fold_cong) auto
  then have logs: "logs = bt_collect (map (\<lambda>x. (fst x, fst (snd x))) xs)" by (simp add: fold_bt_insert)
  have found: "map_of logs k = Some log \<longleftrightarrow> (\<exists>replay t. (k, log, replay, t) \<in> set xs)" for k log
  proof -
    have "distinct (map fst (rev (map (\<lambda>x. (fst x, fst (snd x))) xs)))" using work xs(2) by (simp add: rev_map [symmetric] comp_def)
    then show ?thesis unfolding logs by (force simp: map_of_eq_Some_iff)
  qed
  have keys: "fst ` set logs = set ?work"
  proof -
    have "k \<in> fst ` set logs \<longleftrightarrow> k \<in> fst ` set xs" for k
      using found [of k] by (metis (no_types, lifting) image_iff map_of_eq_None_iff not_None_eq prod.collapse fst_conv)
    then have "fst ` set logs = fst ` set xs" by blast
    also have "\<dots> = set ?work" using xs(2) by (metis set_map)
    finally show ?thesis .
  qed
  let ?es = "sort_key en_legacy_seq (concat (map (\<lambda>k. map into_resident_metadata (ls_records (\<sigma> k))) ?work))"
  obtain cache :: "(string \<times> u32 \<times> u64, message_envelope) partition_resource_cache"
    where cache: "cache_new (clamp_nat (env_usize (re_metadata_cache_capacity env) DEFAULT_METADATA_CACHE_CAPACITY) 1 MAX_METADATA_CACHE_CAPACITY) = Some cache"
      "cache_inv cache" "pc_values cache = []"
    by (rule cache_new_clamped)
  have "\<exists>s. set_open lc cd env streams sb ring assigned dirs = (Ok (s, ?es), dirs') \<and> pls_logs s = logs \<and> pls_dynamic_logs s = []
      \<and> pls_dirs s = dirs' \<and> pls_encryption s = ring \<and> pls_segment_bytes s = sb \<and> pls_metadata_cache s = cache
      \<and> pls_next_legacy_seq s = sat_add64 (if ?es = [] then 0 else Max (set (map en_legacy_seq ?es))) 1 \<and> pls_dynamic_partition_count s = 0"
    unfolding set_open_def Let_def chunks replays prod.case and_then_def sum.case cache(1) option.case logs_def by simp
  then obtain s where s: "set_open lc cd env streams sb ring assigned dirs = (Ok (s, ?es), dirs')" "pls_logs s = logs" "pls_dynamic_logs s = []"
    "pls_dirs s = dirs'" "pls_encryption s = ring" "pls_segment_bytes s = sb" "pls_metadata_cache s = cache"
    "pls_next_legacy_seq s = sat_add64 (if ?es = [] then 0 else Max (set (map en_legacy_seq ?es))) 1" "pls_dynamic_partition_count s = 0"
    by blast
  have active: "active_log k s = map_of logs k" for k by (simp add: active_log_def s)
  have log_keys: "log_keys s = set ?work" by (simp add: log_keys_def s keys)
  have "partition_holds lc ring cd sb k (active_log k s) (dir_at k s) (\<sigma> k)" if k: "plain_name (fst k)" for k
  proof (cases "map_of logs k")
    case None
    then have "k \<notin> set ?work" using keys by (auto simp: map_of_eq_None_iff)
    then have "partition_dir k \<notin> partition_dir ` set ?work" using k work partition_dir_inj by blast
    then have "dirs' (partition_dir k) = dirs (partition_dir k)" using xs(3) by blast
    then show ?thesis using None dormant [OF k] by (simp add: partition_holds_def active dir_at_def s)
  next
    case (Some log)
    then obtain replay t where "(k, log, replay, t) \<in> set xs" using found by blast
    then have "plog_run lc ring cd (fst k) (snd k) sb log (dirs' (partition_dir k)) (\<sigma> k)" using xs(4) by blast
    then show ?thesis using Some by (simp add: partition_holds_def active dir_at_def s)
  qed
  then have "logs_hold lc ring cd s \<sigma>"
    unfolding logs_hold_def log_keys using work by (simp add: s logs del: split_paired_All)
  moreover have "cache_holds s \<sigma>" by (simp add: cache_holds_def s cache)
  moreover have "seqs_below s \<sigma>"
  proof -
    have "en_legacy_seq x < pls_next_legacy_seq s \<or> pls_next_legacy_seq s = u64_max" if "k \<in> set ?work" "x \<in> set (ls_records (\<sigma> k))" for k x
    proof -
      have mem: "into_resident_metadata x \<in> set ?es" using that by auto
      then have "?es \<noteq> []" by (metis list.set(1) empty_iff)
      moreover have "en_legacy_seq (into_resident_metadata x) \<le> Max (set (map en_legacy_seq ?es))" using mem by (intro Max_ge) auto
      ultimately show ?thesis unfolding s(8) by (auto simp: into_resident_metadata_def sat_add64_def)
    qed
    then show ?thesis unfolding seqs_below_def log_keys by (simp add: s(8) sat_add64_def)
  qed
  moreover have "slots_hold s" by (simp add: slots_hold_def s)
  ultimately show ?thesis using s(1,6) log_keys by (intro exI [of _ s] exI [of _ dirs']) (simp add: set_inv_def)
qed

section \<open>Runs\<close>

text \<open>A crash leaves each directory as it is, but that of an open log may end in a part of a batch.\<close>

definition crash_cut :: "log_codec \<Rightarrow> log_set \<Rightarrow> (plog_path \<Rightarrow> plog_dir) \<Rightarrow> bool" where
  "crash_cut lc s dirs \<longleftrightarrow> (\<forall>k. plain_name (fst k) \<longrightarrow>
     (case active_log k s of
        None \<Rightarrow> dirs (partition_dir k) = dir_at k s
      | Some log \<Rightarrow> \<exists>tail'. torn_tail lc (pls_encryption s) (fst k) (snd k) tail' \<and> dirs (partition_dir k) = cut_append tail' log (dir_at k s)))"

lemma crash_dormant:
  assumes "logs_hold lc ring cd s \<sigma>" "crash_cut lc s dirs" "plain_name (fst k)"
  shows "dormant lc ring cd (pls_segment_bytes s) k (dirs (partition_dir k)) (\<sigma> k)"
proof -
  have ring: "pls_encryption s = ring" using assms(1) by (simp add: logs_hold_def)
  have "case active_log k s of None \<Rightarrow> dirs (partition_dir k) = dir_at k s
      | Some log \<Rightarrow> \<exists>tail'. torn_tail lc (pls_encryption s) (fst k) (snd k) tail' \<and> dirs (partition_dir k) = cut_append tail' log (dir_at k s)"
    using assms(2,3) unfolding crash_cut_def by blast
  then show ?thesis
    using holdsD [OF assms(1,3)] run_dormant [of lc ring cd k] unfolding partition_holds_def ring by (auto split: option.splits)
qed

text \<open>The specification after a call on the log of a partition, which has no effect if there is none.\<close>

definition with_log :: "partition_key \<Rightarrow> partition_log option \<Rightarrow> log_spec \<Rightarrow> set_spec \<Rightarrow> set_spec" where
  "with_log k log sp \<sigma> = (case log of None \<Rightarrow> \<sigma> | Some _ \<Rightarrow> \<sigma>(k := sp))"

abbreviation placed :: "message_envelope \<Rightarrow> set_spec \<Rightarrow> message_envelope" where
  "placed e \<sigma> \<equiv> e\<lparr>en_offset := ls_next (\<sigma> (key_of e))\<rparr>"

abbreviation change_key :: "retention_change \<Rightarrow> partition_key" where
  "change_key c \<equiv> (rc_stream c, rc_partition c)"

inductive set_run ::
  "log_codec \<Rightarrow> key_ring option \<Rightarrow> (subject_index_file, bytes) snapshot_codec \<Rightarrow> log_set \<Rightarrow> set_spec \<Rightarrow> bool"
  for lc ring cd
where
  start: "streams_plain streams \<Longrightarrow> set_open lc cd env streams sb ring assigned (\<lambda>_. empty_dir) = (Ok (s, es), dirs) \<Longrightarrow>
    set_run lc ring cd s (\<lambda>_. fresh_spec)"
| restart: "set_run lc ring cd s \<sigma> \<Longrightarrow> crash_cut lc s dirs \<Longrightarrow> streams_plain streams \<Longrightarrow>
    set_open lc cd env streams (pls_segment_bytes s) ring assigned dirs = (Ok (s', es), dirs') \<Longrightarrow> set_run lc ring cd s' \<sigma>"
| append: "set_run lc ring cd s \<sigma> \<Longrightarrow> prepare_append q s = Some (e, s1) \<Longrightarrow>
    (\<And>log. active_log (key_of e) s = Some log \<Longrightarrow> append_fits lc log (placed e \<sigma>)) \<Longrightarrow> set_append lc cd q s = Some (r, s') \<Longrightarrow>
    set_run lc ring cd s' (with_log (key_of e) (active_log (key_of e) s) (spec_append (placed e \<sigma>) (\<sigma> (key_of e))) \<sigma>)"
| publish: "set_run lc ring cd s \<sigma> \<Longrightarrow>
    (\<And>log. active_log (key_of e) s = Some log \<Longrightarrow> append_fits lc log (placed e \<sigma>)) \<Longrightarrow> append_envelope lc cd e s = Some (r, s') \<Longrightarrow>
    set_run lc ring cd s' (with_log (key_of e) (active_log (key_of e) s) (spec_append (placed e \<sigma>) (\<sigma> (key_of e))) \<sigma>)"
| replicate: "set_run lc ring cd s \<sigma> \<Longrightarrow>
    (\<And>log. active_log (key_of e) s = Some log \<Longrightarrow> append_fits lc log e) \<Longrightarrow>
    (\<And>x. x \<in> set (ls_records (\<sigma> (key_of e))) \<Longrightarrow> en_offset x = en_offset e \<Longrightarrow> envelope_checksum lc x = envelope_checksum lc e \<Longrightarrow> x = e) \<Longrightarrow>
    set_append_committed lc cd e s = Some (r, s') \<Longrightarrow>
    set_run lc ring cd s' (with_log (key_of e) (active_log (key_of e) s) (spec_append e (\<sigma> (key_of e))) \<sigma>)"
| flush: "set_run lc ring cd s \<sigma> \<Longrightarrow> set_flush s = (r, s') \<Longrightarrow> set_run lc ring cd s' \<sigma>"
| flush_one: "set_run lc ring cd s \<sigma> \<Longrightarrow> flush_partition k s = (r, s') \<Longrightarrow> set_run lc ring cd s' \<sigma>"
| expire: "set_run lc ring cd s \<sigma> \<Longrightarrow> retention_changes streams now s = (cs, s') \<Longrightarrow> set_run lc ring cd s' \<sigma>"
| advance: "set_run lc ring cd s \<sigma> \<Longrightarrow>
    (\<And>log. map_of (pls_logs s) (change_key c) = Some log \<Longrightarrow> rc_earliest_offset c \<le> pl_next_offset log \<and> pl_next_offset log < u64_max
      \<and> dir_bytes (dir_at (change_key c) s) \<le> u64_max) \<Longrightarrow>
    advance_retention lc cd c s = (r, s') \<Longrightarrow>
    set_run lc ring cd s' (with_log (change_key c) (map_of (pls_logs s) (change_key c)) (spec_retain (rc_earliest_offset c) (\<sigma> (change_key c))) \<sigma>)"
| rewrite: "set_run lc ring cd s \<sigma> \<Longrightarrow>
    (\<And>log. map_of (pls_logs s) k = Some log \<Longrightarrow> rewrite_fits lc log es None) \<Longrightarrow> set es \<subseteq> set (ls_records (\<sigma> k)) \<Longrightarrow>
    rewrite_partition lc cd k es s = (r, s') \<Longrightarrow>
    set_run lc ring cd s' (with_log k (map_of (pls_logs s) k) (spec_rewrite es None) \<sigma>)"
| retain: "set_run lc ring cd s \<sigma> \<Longrightarrow>
    (\<And>log. map_of (pls_logs s) (change_key c) = Some log \<Longrightarrow> rewrite_fits lc log es (Some (rc_earliest_offset c))) \<Longrightarrow>
    set es \<subseteq> set (ls_records (\<sigma> (change_key c))) \<Longrightarrow> retain_partition lc cd c es s = (r, s') \<Longrightarrow>
    set_run lc ring cd s' (with_log (change_key c) (map_of (pls_logs s) (change_key c)) (spec_rewrite es (Some (rc_earliest_offset c))) \<sigma>)"
| compact: "set_run lc ring cd s \<sigma> \<Longrightarrow> streams_plain streams \<Longrightarrow> set_compact_visible_offsets lc cd visible streams s = Some (Ok (), s') \<Longrightarrow>
    set_run lc ring cd s' (compacted visible
      {(sd_name d, p) |d p. d \<in> set streams \<and> rp_compaction (sd_retention d) = KeyCompaction \<and> p < sd_partitions d} s \<sigma>)"
| load: "set_run lc ring cd s \<sigma> \<Longrightarrow> load_envelope lc k offset s = Some (r, s') \<Longrightarrow> set_run lc ring cd s' \<sigma>"
| activate: "set_run lc ring cd s \<sigma> \<Longrightarrow> plain_name (fst k) \<Longrightarrow> activate_partition lc cd env order k s = (r, s') \<Longrightarrow> set_run lc ring cd s' \<sigma>"

lemma maintain_unknown: "map_of (pls_logs s) k = None \<Longrightarrow> maintain k f s = (Err ''unknown stream partition'', s)"
  by (simp add: maintain_def bt_contains_def)

lemma maintained:
  assumes inv: "set_inv lc ring cd s \<sigma>" and call: "maintain k f s = (r, s')" and sub: "set (ls_records sp) \<subseteq> set (ls_records (\<sigma> k))"
    and run: "\<And>log r log' d. map_of (pls_logs s) k = Some log \<Longrightarrow> f log (dir_at k s) = (r, log', d) \<Longrightarrow>
      plog_run lc ring cd (fst k) (snd k) (pls_segment_bytes s) log (dir_at k s) (\<sigma> k) \<Longrightarrow>
      plog_run lc ring cd (fst k) (snd k) (pls_segment_bytes s) log' d sp"
  shows "set_inv lc ring cd s' (with_log k (map_of (pls_logs s) k) sp \<sigma>)"
proof (cases "map_of (pls_logs s) k")
  case None
  then show ?thesis using inv call maintain_unknown by (auto simp: with_log_def)
next
  case (Some log)
  obtain r1 log' d where f: "f log (dir_at k s) = (r1, log', d)" by (cases "f log (dir_at k s)") auto
  have "active_log k s = Some log" using Some by (simp add: active_log_def)
  moreover have "logs_hold lc ring cd s \<sigma>" using inv by (simp add: set_inv_def)
  ultimately have "plog_run lc ring cd (fst k) (snd k) (pls_segment_bytes s) log' d sp" using run [OF Some f] active_run(1) by blast
  from maintain_holds [where f = f, OF inv Some f this sub] show ?thesis using Some call by (auto simp: with_log_def)
qed

lemma partition_keys_names:
  assumes "streams_plain streams"
  shows "distinct (map (\<lambda>(d, p). (sd_name d, p)) (partition_keys (filter P streams)))
    \<and> set (map (\<lambda>(d, p). (sd_name d, p)) (partition_keys (filter P streams))) = {(sd_name d, p) |d p. d \<in> set streams \<and> P d \<and> p < sd_partitions d}"
proof
  have "distinct (map (\<lambda>(d, p). (sd_name d, p)) (partition_keys ds))" if "distinct (map sd_name ds)" for ds
    using that
  proof (induction ds)
    case (Cons d ds)
    have "distinct (map (Pair (sd_name d)) [0..<n])" for n by (simp add: distinct_map inj_on_def)
    then show ?case using Cons by (force simp: partition_keys_def comp_def)
  qed (simp add: partition_keys_def)
  then show "distinct (map (\<lambda>(d, p). (sd_name d, p)) (partition_keys (filter P streams)))"
    using assms by (simp add: streams_plain_def distinct_map_filter)
  show "set (map (\<lambda>(d, p). (sd_name d, p)) (partition_keys (filter P streams))) = {(sd_name d, p) |d p. d \<in> set streams \<and> P d \<and> p < sd_partitions d}"
    by (force simp: partition_keys_def)
qed

lemma run_inv:
  assumes "set_run lc ring cd s \<sigma>" and ok: "ring_ok ring" "snapshot_ok cd"
  shows "set_inv lc ring cd s \<sigma>"
  using assms(1)
proof (induction rule: set_run.induct)
  case (start streams env sb assigned s es dirs)
  have "dormant lc ring cd sb k empty_dir fresh_spec" for k by (simp add: dormant_def)
  from set_open_holds [where dirs = "\<lambda>_. empty_dir" and \<sigma> = "\<lambda>_. fresh_spec" and env = env and assigned = assigned, OF this start.hyps(1) ok]
  show ?case using start.hyps(2) by auto
next
  case (restart s \<sigma> dirs streams env assigned s' es dirs')
  have "logs_hold lc ring cd s \<sigma>" using restart.IH by (simp add: set_inv_def)
  from set_open_holds [where env = env and assigned = assigned, OF crash_dormant [OF this restart.hyps(2)] restart.hyps(3) ok]
  show ?case using restart.hyps(4) by auto
next
  case (append s \<sigma> q e s1 r s')
  have s1: "set_inv lc ring cd s1 \<sigma>" "active_log (key_of e) s1 = active_log (key_of e) s" using prepare_append_inv [OF append.IH append.hyps(2)] by blast+
  have call: "append_envelope lc cd e s1 = Some (r, s')" using append.hyps(2,4) by (simp add: set_append_def)
  show ?case
  proof (cases "active_log (key_of e) s")
    case None
    then show ?thesis using append_inactive(1) [OF s1(1), of e] s1(2) call by (auto simp: with_log_def fun_upd_def)
  next
    case (Some log)
    then show ?thesis using append_envelope_active [OF s1(1) ok, of e log] append.hyps(3) s1(2) call by (auto simp: with_log_def fun_upd_def)
  qed
next
  case (publish s \<sigma> e r s')
  show ?case
  proof (cases "active_log (key_of e) s")
    case None
    then show ?thesis using append_inactive(1) [OF publish.IH None] publish.hyps by (auto simp: with_log_def fun_upd_def)
  next
    case (Some log)
    then show ?thesis using append_envelope_active [OF publish.IH ok Some publish.hyps(2) [OF Some]] publish.hyps(3) by (auto simp: with_log_def fun_upd_def)
  qed
next
  case (replicate s \<sigma> e r s')
  show ?case
  proof (cases "active_log (key_of e) s")
    case None
    then show ?thesis using append_inactive(2) [OF replicate.IH None] replicate.hyps by (auto simp: with_log_def fun_upd_def)
  next
    case (Some log)
    obtain r1 s1 where "set_append_committed lc cd e s = Some (r1, s1)" "set_inv lc ring cd s1 (\<sigma>(key_of e := spec_append e (\<sigma> (key_of e))))"
      using append_committed_active [OF replicate.IH ok Some replicate.hyps(2) [OF Some]] replicate.hyps(3) by blast
    then show ?thesis using Some replicate.hyps(4) by (simp add: with_log_def fun_upd_def)
  qed
next
  case (flush s \<sigma> r s')
  then show ?case using set_flush_holds [OF flush.IH] by auto
next
  case (flush_one s \<sigma> k r s')
  then show ?case using flush_partition_holds [OF flush_one.IH, of k] by auto
next
  case (expire s \<sigma> streams now cs s')
  then show ?case using retention_holds [OF expire.IH ok, of now "partition_keys streams"] by (simp add: retention_changes_def)
next
  case (advance s \<sigma> c r s')
  have "set (ls_records (spec_retain (rc_earliest_offset c) (\<sigma> (change_key c)))) \<subseteq> set (ls_records (\<sigma> (change_key c)))"
    by (auto simp: spec_retain_def Let_def)
  from maintained [OF advance.IH advance.hyps(3) [unfolded advance_retention_def] this] show ?case
    using advance.hyps(2) plog_run.advance by blast
next
  case (rewrite s \<sigma> k es r s')
  then have "set (ls_records (spec_rewrite es None)) \<subseteq> set (ls_records (\<sigma> k))" by (simp add: spec_rewrite_def)
  from maintained [OF rewrite.IH rewrite.hyps(4) [unfolded rewrite_partition_def] this] show ?case
    using rewrite.hyps(2) plog_run.rewrite by blast
next
  case (retain s \<sigma> c es r s')
  then have "set (ls_records (spec_rewrite es (Some (rc_earliest_offset c)))) \<subseteq> set (ls_records (\<sigma> (change_key c)))" by (simp add: spec_rewrite_def)
  from maintained [OF retain.IH retain.hyps(4) [unfolded retain_partition_def] this] show ?case
    using retain.hyps(2) plog_run.rewrite by blast
next
  case (compact s \<sigma> streams visible s')
  let ?P = "\<lambda>d. rp_compaction (sd_retention d) = KeyCompaction"
  note keys = partition_keys_names [OF compact.hyps(2), of ?P]
  from compact_keys_hold [OF compact.IH ok conjunct1 [OF keys], of visible] show ?case
    using compact.hyps(3) unfolding set_compact_visible_offsets_def conjunct2 [OF keys] by auto
next
  case (load s \<sigma> k offset r s')
  then show ?case
    using load_inactive [OF load.IH, of k offset] load_active [OF load.IH ok, of k _ offset] by (cases "active_log k s") fastforce+
next
  case (activate s \<sigma> k env order r s')
  then show ?case using activate_inv [OF activate.IH ok activate.hyps(2), of env order] by auto
qed

section \<open>What the set promises\<close>



text \<open>
  C3. What is published is served: in every state that was reached, an append to an open partition that
  fits is acknowledged with the next offset of the partition, and the next lookup at that offset
  returns it.
\<close>

theorem log_set_appends:
  assumes "set_run lc ring cd s \<sigma>" and "ring_ok ring" and "snapshot_ok cd"
    and "active_log (key_of e) s = Some log" and "append_fits lc log (placed e \<sigma>)"
  shows "\<exists>s' s''. append_envelope lc cd e s = Some (Ok (placed e \<sigma>), s')
    \<and> set_run lc ring cd s' (\<sigma>(key_of e := spec_append (placed e \<sigma>) (\<sigma> (key_of e))))
    \<and> load_envelope lc (key_of e) (ls_next (\<sigma> (key_of e))) s' = Some (Ok (Some (placed e \<sigma>)), s'')"
proof -
  let ?\<sigma> = "\<sigma>(key_of e := spec_append (placed e \<sigma>) (\<sigma> (key_of e)))"
  obtain s' where app: "append_envelope lc cd e s = Some (Ok (placed e \<sigma>), s')" and inv: "set_inv lc ring cd s' ?\<sigma>" and keys: "log_keys s' = log_keys s"
    using append_envelope_active [OF run_inv [OF assms(1-3)] assms(2-5)] by blast
  have run: "set_run lc ring cd s' ?\<sigma>"
    using set_run.publish [OF assms(1) _ app] assms(4,5) by (simp add: with_log_def)
  obtain log' where "active_log (key_of e) s' = Some log'" using keys assms(4) active_iff by metis
  from load_active [OF inv assms(2,3) this, of "ls_next (\<sigma> (key_of e))"]
  obtain r s'' where load: "load_envelope lc (key_of e) (ls_next (\<sigma> (key_of e))) s' = Some (Ok r, s'')"
    and r: "\<forall>x. x \<in> set (ls_records (?\<sigma> (key_of e))) \<and> en_offset x = ls_next (\<sigma> (key_of e)) \<longrightarrow> r = Some x"
    by (elim exE conjE) (rule that)
  have "r = Some (placed e \<sigma>)" using r by (auto simp: spec_append_def)
  then show ?thesis using app run load by blast
qed

text \<open>
  Dynamic partitions have their own slots, of which there are never more than the limit, and no partition is
  open twice. A sequence number that the set chooses is above those of all open partitions until the
  numbers are used up.
\<close>

theorem dynamic_partitions_bounded:
  assumes "set_run lc ring cd s \<sigma>" and "ring_ok ring" and "snapshot_ok cd"
  shows "length (pls_dynamic_logs s) \<le> pls_dynamic_partition_count s \<and> pls_dynamic_partition_count s \<le> MAX_DYNAMIC_PARTITIONS
    \<and> fst ` set (pls_logs s) \<inter> fst ` set (pls_dynamic_logs s) = {}"
  using run_inv [OF assms] by (simp add: set_inv_def slots_hold_def logs_hold_def)

theorem sequence_numbers_fresh:
  assumes "set_run lc ring cd s \<sigma>" and "ring_ok ring" and "snapshot_ok cd"
    and "prepare_append q s = Some (e, s1)" and "ar_legacy_seq q = None" and "pls_next_legacy_seq s < u64_max"
    and "k \<in> log_keys s" and "x \<in> set (ls_records (\<sigma> k))"
  shows "en_legacy_seq x < en_legacy_seq e"
  using prepare_append_counted [OF run_inv [OF assms(1-3)] assms(4,5)] assms(6-8) by blast

section \<open>Where the code falls short of its intent\<close>

text \<open>Compaction does not clear the cache: a record that it removes is still served from there.\<close>

lemma compact_keys_cache:
  "compact_keys lc cd visible ps s = Some (r, s') \<Longrightarrow> pls_metadata_cache s' = pls_metadata_cache s"
  by (induction lc cd visible ps s rule: compact_keys.induct) (auto simp: Let_def split: option.splits sum.splits prod.splits)

lemma compacted_record_still_served:
  assumes "map_of (pc_values (pls_metadata_cache s)) (fst k, snd k, offset) = Some e"
    and "set_compact_visible_offsets lc cd visible streams s = Some (r, s')"
  shows "\<exists>s''. load_envelope lc k offset s' = Some (Ok (Some e), s'')"
  using assms compact_keys_cache [OF assms(2) [unfolded set_compact_visible_offsets_def]]
  by (simp add: load_envelope_def cache_get_def cache_touch_def bt_contains_def Let_def)

text \<open>A dynamic partition with records that was evicted cannot be activated again.\<close>

lemma evicted_partition_blocked:
  assumes inv: "set_inv lc ring cd s \<sigma>" and ok: "ring_ok ring" "snapshot_ok cd" and k: "active_log k s = None" "stream_id_new (fst k) = Ok (fst k)"
    "plain_name (fst k)" and records: "ls_records (\<sigma> k) \<noteq> []" and slot: "pls_dynamic_partition_count s < max_dynamic_partitions env"
  shows "fst (activate_partition lc cd env order k s) = Err ''dynamic partition contains unreconciled records''"
proof -
  have holds: "logs_hold lc ring cd s \<sigma>" using inv by (simp add: set_inv_def)
  have "dormant lc ring cd (pls_segment_bytes s) k (dir_at k s) (\<sigma> k)" using holdsD [OF holds k(3)] k(1) by (simp add: partition_holds_def)
  from dormant_opens [OF this ok] obtain log t d where "plog_open lc ring cd (fst k) (snd k) (pls_segment_bytes s) (dir_at k s)
      = (Ok (log, map into_resident_metadata (ls_records (\<sigma> k)), t), d)"
    by blast
  moreover have "pls_encryption s = ring" using holds by (simp add: logs_hold_def)
  moreover have "map_of (pls_logs s) k = None" "map_of (pls_dynamic_logs s) k = None" using k(1) by (simp_all add: active_log_def)
  ultimately show ?thesis
    using k(2) records slot by (simp add: activate_partition_def open_dynamic_def bt_contains_def dir_at_def Let_def)
qed

text \<open>An activation that fails on the name of the stream keeps its slot.\<close>

lemma activation_leaks_slot:
  assumes "active_log k s = None" and "stream_id_new (fst k) = Err m" and "pls_dynamic_partition_count s < max_dynamic_partitions env"
  shows "activate_partition lc cd env order k s
    = (Err m, s\<lparr>pls_dynamic_partition_count := sat_add64 (pls_dynamic_partition_count s) 1\<rparr>)"
proof -
  have "map_of (pls_logs s) k = None" "map_of (pls_dynamic_logs s) k = None" using assms(1) by (simp_all add: active_log_def)
  then show ?thesis using assms(2,3) by (simp add: activate_partition_def open_dynamic_def bt_contains_def)
qed

text \<open>
  The metadata handed out at the start is in the order of the sequence numbers. If these are not in the
  order of the offsets, because two appends to a partition overtook each other, retention at the start
  fails.
\<close>

lemma unordered_sequences_block_retention:
  assumes inv: "set_inv lc ring cd s \<sigma>" and ok: "ring_ok ring" "snapshot_ok cd" and k: "map_of (pls_logs s) (change_key c) = Some log"
    and xy: "x \<in> set (ls_records (\<sigma> (change_key c)))" "y \<in> set (ls_records (\<sigma> (change_key c)))" "en_offset x < en_offset y"
    and keep: "rc_earliest_offset c \<le> en_offset x"
  shows "\<exists>s'. apply_retention lc cd [c] [into_resident_metadata y, into_resident_metadata x] s
    = Some (Err ''partition rewrite offsets are not strictly increasing'', [into_resident_metadata y, into_resident_metadata x], s')"
proof -
  have holds: "logs_hold lc ring cd s \<sigma>" using inv by (simp add: set_inv_def)
  have "active_log (change_key c) s = Some log" using k by (simp add: active_log_def)
  note run = active_run(1) [OF holds this]
  note sorted = run_offsets [OF run ok]
  have find: "find (\<lambda>e. en_offset e = en_offset z) (ls_records (\<sigma> (change_key c))) = Some z" if z: "z \<in> set (ls_records (\<sigma> (change_key c)))" for z
  proof -
    obtain w where w: "find (\<lambda>e. en_offset e = en_offset z) (ls_records (\<sigma> (change_key c))) = Some w"
      using z by (metis (mono_tags, lifting) find_None_iff not_None_eq)
    then have "w \<in> set (ls_records (\<sigma> (change_key c)))" "en_offset w = en_offset z" by (auto simp: find_Some_iff)
    then show ?thesis using w z sorted sorted_offsets_inj by metis
  qed
  have key: "key_of (into_resident_metadata x) = change_key c" "key_of (into_resident_metadata y) = change_key c"
    "en_offset (into_resident_metadata x) = en_offset x" "en_offset (into_resident_metadata y) = en_offset y"
    using sorted xy(1,2) by (auto simp: key_of_def into_resident_metadata_def)
  have "read_retained lc log (dir_at (change_key c) s) [into_resident_metadata y, into_resident_metadata x] = Ok [y, x]"
    using run_reads(1) [OF run ok] find xy(1,2) key by (simp add: and_then_def map_ok_def)
  then have "retain_op lc cd [into_resident_metadata y, into_resident_metadata x] (rc_earliest_offset c) log (dir_at (change_key c) s)
      = (Err ''partition rewrite offsets are not strictly increasing'', log, dir_at (change_key c) s)"
    using xy(3) by (simp add: retain_op_def plog_rewrite_def stage_rewrite_def plog_flush_def Let_def)
  moreover have "retained_under c (into_resident_metadata x)" "retained_under c (into_resident_metadata y)"
    using keep xy(3) key by (simp_all add: retained_under_def)
  ultimately show ?thesis using k key by (simp add: on_log_def bt_contains_def Let_def)
qed

section \<open>A concrete set\<close>

definition orders_stream :: stream_definition where
  "orders_stream = \<lparr>sd_name = ''o'', sd_subjects = [''o/**''], sd_partitions = 1,
     sd_partitioning = \<lparr>pp_strategy = KeyStrategy, pp_fallback = SubjectHash, pp_epoch = 1\<rparr>,
     sd_storage = \<lparr>sp_mode = LocalMode, sp_replicas = 1, sp_min_ack_replicas = 1\<rparr>,
     sd_retention = \<lparr>rp_max_age_ms = None, rp_max_bytes = None, rp_compaction = NoCompaction\<rparr>\<rparr>"

definition bare_env :: runtime_env where
  "bare_env = \<lparr>re_recovery_workers = None, re_available_parallelism = Some 4, re_metadata_cache_capacity = None,
     re_max_active_dynamic_partitions = None, re_elapsed_ms = 0\<rparr>"

lemma orders_plain: "streams_plain [orders_stream]" "recovery_work [orders_stream] None = [(''o'', 0)]"
  by (simp_all add: streams_plain_def plain_name_def orders_stream_def recovery_work_def)

lemma sample_set:
  "\<exists>s log. set_run sample_codec (Some sample_ring) tally_codec s (\<lambda>_. fresh_spec) \<and> active_log (''o'', 0) s = Some log
     \<and> append_fits sample_codec log sample_message"
proof -
  obtain log d where op: "plog_open sample_codec (Some sample_ring) tally_codec ''o'' 0 4096 empty_dir = (Ok (log, [], 0), d)"
    and fits: "append_fits sample_codec log sample_message"
    using sample_new_log by blast
  have one: "chunks_of n [(''o'', 0 :: u32)] = [[(''o'', 0)]]" for n by simp
  have "recover_chunks sample_codec (Some sample_ring) tally_codec 4096 [[(''o'', 0)]] (\<lambda>_. empty_dir)
      = (Ok [((''o'', 0), log, [], 0)], (\<lambda>_. empty_dir)(partition_dir (''o'', 0) := d))"
    using op by (simp add: map_ok_def and_then_def fun_upd_def)
  moreover obtain cache :: "(string \<times> u32 \<times> u64, message_envelope) partition_resource_cache"
    where "cache_new (clamp_nat (env_usize (re_metadata_cache_capacity bare_env) DEFAULT_METADATA_CACHE_CAPACITY) 1 MAX_METADATA_CACHE_CAPACITY) = Some cache"
    by (rule cache_new_clamped)
  ultimately have "\<exists>s dirs. set_open sample_codec tally_codec bare_env [orders_stream] 4096 (Some sample_ring) None (\<lambda>_. empty_dir) = (Ok (s, []), dirs)
      \<and> pls_logs s = [((''o'', 0), log)] \<and> pls_dynamic_logs s = []"
    unfolding set_open_def Let_def orders_plain(2) one by (simp add: and_then_def)
  then obtain s dirs where "set_open sample_codec tally_codec bare_env [orders_stream] 4096 (Some sample_ring) None (\<lambda>_. empty_dir) = (Ok (s, []), dirs)"
    "pls_logs s = [((''o'', 0), log)]" "pls_dynamic_logs s = []"
    by blast
  then show ?thesis
    using set_run.start [OF orders_plain(1)] fits by (intro exI [of _ s] exI [of _ log]) (simp add: active_log_def)
qed

definition sample_spec :: set_spec where
  "sample_spec = (\<lambda>_. fresh_spec)((''o'', 0) := \<lparr>ls_records = [sample_message], ls_next = 1\<rparr>)"

lemma sample_placed: "key_of sample_message = (''o'', 0)" "sample_message\<lparr>en_offset := 0\<rparr> = sample_message"
  "spec_append sample_message fresh_spec = \<lparr>ls_records = [sample_message], ls_next = 1\<rparr>"
  by (simp_all add: key_of_def sample_message_def spec_append_def fresh_spec_def)

theorem log_set_appends_witness:
  "\<exists>s s' s''. set_run sample_codec (Some sample_ring) tally_codec s (\<lambda>_. fresh_spec)
     \<and> append_envelope sample_codec tally_codec sample_message s = Some (Ok sample_message, s')
     \<and> set_run sample_codec (Some sample_ring) tally_codec s' sample_spec
     \<and> load_envelope sample_codec (''o'', 0) 0 s' = Some (Ok (Some sample_message), s'')"
proof -
  obtain s log where s: "set_run sample_codec (Some sample_ring) tally_codec s (\<lambda>_. fresh_spec)" "active_log (''o'', 0) s = Some log"
    "append_fits sample_codec log sample_message"
    using sample_set by blast
  have next0: "ls_next fresh_spec = 0" by (simp add: fresh_spec_def)
  show ?thesis
    using log_set_appends [OF s(1) sample_ring_ok tally_codec_ok, of sample_message log] s
    by (auto simp: sample_placed next0 sample_spec_def simp del: fun_upd_apply)
qed

lemma sample_set_filled:
  "\<exists>s log. set_run sample_codec (Some sample_ring) tally_codec s sample_spec \<and> active_log (''o'', 0) s = Some log"
proof -
  obtain s log where s: "set_run sample_codec (Some sample_ring) tally_codec s (\<lambda>_. fresh_spec)" "active_log (''o'', 0) s = Some log"
    "append_fits sample_codec log sample_message"
    using sample_set by blast
  note inv = run_inv [OF s(1) sample_ring_ok tally_codec_ok]
  have next0: "ls_next fresh_spec = 0" by (simp add: fresh_spec_def)
  obtain s' where app: "append_envelope sample_codec tally_codec sample_message s = Some (Ok sample_message, s')" "log_keys s' = log_keys s"
    using append_envelope_active [OF inv sample_ring_ok tally_codec_ok, of sample_message log] s by (auto simp: sample_placed next0)
  have "set_run sample_codec (Some sample_ring) tally_codec s' sample_spec"
    using set_run.publish [OF s(1) _ app(1)] s(2,3) by (simp add: sample_placed next0 with_log_def sample_spec_def del: fun_upd_apply)
  moreover have "(''o'', 0) \<in> log_keys s'" using app(2) active_log_Some [OF s(2)] by simp
  ultimately show ?thesis using active_iff by blast
qed



end
