(* ===== verification/Tenant_Policy.thy ===== *)
theory Tenant_Policy
  imports Message_Envelope
begin

text \<open>
  Roles and their bindings to tenants, from \<open>crates/server/src/tenancy.rs\<close>: identifiers, scopes, the policy
  store with its index of bindings by subject and scope, snapshots and their replacement. The
  store's lock makes every call one step. The theorem says that the index never differs from a scan of
  the bindings, so that a revocation takes effect at once.
\<close>

section \<open>Data\<close>

definition MAX_IDENTIFIER_BYTES :: nat where
  "MAX_IDENTIFIER_BYTES = 128"

record resource_scope =
  rs_tenant :: string
  rs_namespace :: string

datatype permission =
    PublishPermission | SubscribePermission | ManageStreams | ManageConsumers | ManageConnectors
  | ManageMiddleware | OperateCluster | Observe | ManageAuth | ManageKeys

record role =
  ro_name :: string
  ro_permissions :: "permission set"

record role_binding =
  rb_subject :: string
  rb_scope :: resource_scope
  rb_role :: string
  rb_expires_at_ms :: "u64 option"

record policy_snapshot =
  po_generation :: u64
  po_roles :: "(string, role) btree_map"
  po_bindings :: "role_binding list"

type_synonym binding_key = "string \<times> string \<times> string"

record policy_state =
  ps_generation :: u64
  ps_roles :: "(string, role) btree_map"
  ps_bindings :: "role_binding list"
  ps_bindings_by_subject_scope :: "(binding_key, role_binding list) btree_map"

definition policy_default :: policy_state where
  "policy_default = \<lparr>ps_generation = 0, ps_roles = [], ps_bindings = [], ps_bindings_by_subject_scope = []\<rparr>"

section \<open>Identifiers and scopes\<close>

definition validate_identifier :: "string \<Rightarrow> string \<Rightarrow> unit result" where
  "validate_identifier v kind =
     (if \<not> (v \<noteq> [] \<and> length v \<le> MAX_IDENTIFIER_BYTES) then Err (kind @ '' identifier must be non-empty and bounded'')
      else if \<not> list_all name_char v then Err (kind @ '' identifier contains an invalid character'')
      else Ok ())"

definition tenant_id_new :: "string \<Rightarrow> string result" where
  "tenant_id_new v = (case validate_identifier v ''tenant'' of Err m \<Rightarrow> Err m | Ok _ \<Rightarrow> Ok v)"

definition namespace_id_new :: "string \<Rightarrow> string result" where
  "namespace_id_new v = (case validate_identifier v ''namespace'' of Err m \<Rightarrow> Err m | Ok _ \<Rightarrow> Ok v)"

definition subject_prefix :: "resource_scope \<Rightarrow> string" where
  "subject_prefix s = rs_tenant s @ ''.'' @ rs_namespace s @ ''.''"

definition contains_subject :: "resource_scope \<Rightarrow> string \<Rightarrow> bool" where
  "contains_subject s subject = prefix (subject_prefix s) subject"

definition validate_role :: "role \<Rightarrow> unit result" where
  "validate_role r = validate_identifier (ro_name r) ''role''"

definition validate_binding :: "role_binding \<Rightarrow> unit result" where
  "validate_binding b =
     (if rb_subject b \<noteq> [] \<and> length (rb_subject b) \<le> MAX_IDENTIFIER_BYTES \<and> \<not> has_whitespace (rb_subject b) then Ok ()
      else Err ''policy subject must be non-empty, bounded, and contain no whitespace'')"

section \<open>The store\<close>

definition key_of_scope :: "string \<Rightarrow> resource_scope \<Rightarrow> binding_key" where
  "key_of_scope subject s = (subject, rs_tenant s, rs_namespace s)"

definition push_binding :: "role_binding \<Rightarrow> (binding_key, role_binding list) btree_map \<Rightarrow> (binding_key, role_binding list) btree_map" where
  "push_binding b m =
     (let k = key_of_scope (rb_subject b) (rb_scope b)
      in bt_insert k ((case map_of m k of None \<Rightarrow> [] | Some bs \<Rightarrow> bs) @ [b]) m)"

definition rebuild_binding_index :: "policy_state \<Rightarrow> policy_state" where
  "rebuild_binding_index st = st\<lparr>ps_bindings_by_subject_scope := fold push_binding (ps_bindings st) []\<rparr>"

definition upsert_role :: "role \<Rightarrow> policy_state \<Rightarrow> u64 result \<times> policy_state" where
  "upsert_role r st =
     (case validate_role r of
        Err m \<Rightarrow> (Err m, st)
      | Ok _ \<Rightarrow>
         (let st = st\<lparr>ps_roles := bt_insert (ro_name r) r (ps_roles st), ps_generation := sat_add64 (ps_generation st) 1\<rparr>
          in (Ok (ps_generation st), st)))"

definition policy_bind :: "role_binding \<Rightarrow> policy_state \<Rightarrow> u64 result \<times> policy_state" where
  "policy_bind b st =
     (case validate_binding b of
        Err m \<Rightarrow> (Err m, st)
      | Ok _ \<Rightarrow>
         if \<not> bt_contains (rb_role b) (ps_roles st) then (Err ''cannot bind an unknown role'', st)
         else
           let kept = filter (\<lambda>x. \<not> (rb_subject x = rb_subject b \<and> rb_scope x = rb_scope b \<and> rb_role x = rb_role b)) (ps_bindings st);
               st = rebuild_binding_index (st\<lparr>ps_bindings := kept @ [b]\<rparr>);
               st = st\<lparr>ps_generation := sat_add64 (ps_generation st) 1\<rparr>
           in (Ok (ps_generation st), st))"

definition revoke :: "string \<Rightarrow> resource_scope \<Rightarrow> string option \<Rightarrow> policy_state \<Rightarrow> u64 \<times> policy_state" where
  "revoke subject s role_name st =
     (let kept = filter (\<lambda>x. \<not> (rb_subject x = subject \<and> rb_scope x = s
                   \<and> (case role_name of None \<Rightarrow> True | Some r \<Rightarrow> rb_role x = r))) (ps_bindings st);
          st = rebuild_binding_index (st\<lparr>ps_bindings := kept\<rparr>);
          st = st\<lparr>ps_generation := sat_add64 (ps_generation st) 1\<rparr>
      in (ps_generation st, st))"

text \<open>A binding that is in force and whose role has the permission.\<close>

definition binding_allows ::
  "(string, role) btree_map \<Rightarrow> string \<Rightarrow> resource_scope \<Rightarrow> permission \<Rightarrow> u64 \<Rightarrow> role_binding \<Rightarrow> bool" where
  "binding_allows roles subject s perm now b \<longleftrightarrow>
     rb_subject b = subject \<and> rb_scope b = s
     \<and> (case rb_expires_at_ms b of None \<Rightarrow> True | Some expires \<Rightarrow> now < expires)
     \<and> (case map_of roles (rb_role b) of None \<Rightarrow> False | Some r \<Rightarrow> perm \<in> ro_permissions r)"

definition authorize :: "string \<Rightarrow> resource_scope \<Rightarrow> permission \<Rightarrow> u64 \<Rightarrow> policy_state \<Rightarrow> unit result" where
  "authorize subject s perm now st =
     (let candidates = (case map_of (ps_bindings_by_subject_scope st) (key_of_scope subject s) of None \<Rightarrow> [] | Some bs \<Rightarrow> bs)
      in if list_ex (binding_allows (ps_roles st) subject s perm now) candidates then Ok ()
         else Err ''tenant permission denied'')"

definition policy_snapshot_of :: "policy_state \<Rightarrow> policy_snapshot" where
  "policy_snapshot_of st = \<lparr>po_generation = ps_generation st, po_roles = ps_roles st, po_bindings = ps_bindings st\<rparr>"

definition snapshot_for_scope :: "resource_scope \<Rightarrow> policy_state \<Rightarrow> policy_snapshot" where
  "snapshot_for_scope s st =
     (let bindings = filter (\<lambda>b. rb_scope b = s) (ps_bindings st);
          roles = bt_collect (List.map_filter (\<lambda>b. map_option (\<lambda>r. (ro_name r, r)) (map_of (ps_roles st) (rb_role b))) bindings)
      in \<lparr>po_generation = ps_generation st, po_roles = roles, po_bindings = bindings\<rparr>)"

fun check_all :: "('a \<Rightarrow> unit result) \<Rightarrow> 'a list \<Rightarrow> unit result" where
  "check_all f [] = Ok ()"
| "check_all f (x # xs) = (case f x of Err m \<Rightarrow> Err m | Ok _ \<Rightarrow> check_all f xs)"

definition check_snapshot_binding :: "(string, role) btree_map \<Rightarrow> role_binding \<Rightarrow> unit result" where
  "check_snapshot_binding roles b =
     (case validate_binding b of
        Err m \<Rightarrow> Err m
      | Ok _ \<Rightarrow> if bt_contains (rb_role b) roles then Ok () else Err ''policy snapshot binds an unknown role'')"

definition policy_replace :: "policy_snapshot \<Rightarrow> policy_state \<Rightarrow> unit result \<times> policy_state" where
  "policy_replace sn st =
     (case check_all validate_role (bt_values (po_roles sn)) of
        Err m \<Rightarrow> (Err m, st)
      | Ok _ \<Rightarrow>
     (case check_all (check_snapshot_binding (po_roles sn)) (po_bindings sn) of
        Err m \<Rightarrow> (Err m, st)
      | Ok _ \<Rightarrow>
         if \<not> po_generation sn \<ge> ps_generation st then (Err ''policy generation would move backwards'', st)
         else (Ok (), rebuild_binding_index (st\<lparr>ps_generation := po_generation sn, ps_roles := po_roles sn, ps_bindings := po_bindings sn\<rparr>))))"

section \<open>The index is the list of bindings\<close>

lemma scope_eqI: "rs_tenant s = rs_tenant t \<Longrightarrow> rs_namespace s = rs_namespace t \<Longrightarrow> s = (t :: resource_scope)"
  by simp

lemma key_of_scope_inj [simp]: "key_of_scope a s = key_of_scope b t \<longleftrightarrow> a = b \<and> s = t"
  by (auto simp: key_of_scope_def)

definition bindings_at :: "binding_key \<Rightarrow> role_binding list \<Rightarrow> role_binding list" where
  "bindings_at k bs = filter (\<lambda>b. key_of_scope (rb_subject b) (rb_scope b) = k) bs"

lemma fold_push_binding:
  assumes "bt_wf m"
  shows "bt_wf (fold push_binding bs m)
    \<and> (case map_of (fold push_binding bs m) k of None \<Rightarrow> [] | Some xs \<Rightarrow> xs)
      = (case map_of m k of None \<Rightarrow> [] | Some xs \<Rightarrow> xs) @ bindings_at k bs"
  using assms
proof (induction bs arbitrary: m)
  case (Cons b bs)
  have "bt_wf (push_binding b m)" using Cons.prems by (simp add: push_binding_def Let_def)
  from Cons.IH [OF this] show ?case using Cons.prems by (auto simp: push_binding_def bindings_at_def Let_def split: option.splits)
qed (simp add: bindings_at_def)

definition index_exact :: "policy_state \<Rightarrow> bool" where
  "index_exact st \<longleftrightarrow> bt_wf (ps_roles st)
     \<and> (\<forall>subject s. (case map_of (ps_bindings_by_subject_scope st) (key_of_scope subject s) of None \<Rightarrow> [] | Some bs \<Rightarrow> bs)
          = bindings_at (key_of_scope subject s) (ps_bindings st))"

lemma rebuilt_exact: "bt_wf (ps_roles st) \<Longrightarrow> index_exact (rebuild_binding_index st)"
  using fold_push_binding [of "[]" "ps_bindings st"] by (simp add: index_exact_def rebuild_binding_index_def)

inductive policy_step :: "policy_state \<Rightarrow> policy_state \<Rightarrow> bool" where
  pstep_role: "upsert_role r st = (res, st') \<Longrightarrow> policy_step st st'"
| pstep_bind: "policy_bind b st = (res, st') \<Longrightarrow> policy_step st st'"
| pstep_revoke: "revoke subject s role_name st = (g, st') \<Longrightarrow> policy_step st st'"
| pstep_replace: "bt_wf (po_roles sn) \<Longrightarrow> po_generation sn \<le> u64_max \<Longrightarrow> policy_replace sn st = (res, st') \<Longrightarrow> policy_step st st'"

lemma check_all_ok: "check_all f xs = Ok () \<longleftrightarrow> (\<forall>x\<in>set xs. f x = Ok ())"
  by (induction xs) (auto split: sum.splits)

text \<open>Every role is valid and every binding names a role, so that a snapshot passes the checks of a replacement.\<close>

definition policy_valid :: "policy_state \<Rightarrow> bool" where
  "policy_valid st \<longleftrightarrow> (\<forall>(n, r)\<in>set (ps_roles st). validate_role r = Ok ())
     \<and> (\<forall>b\<in>set (ps_bindings st). check_snapshot_binding (ps_roles st) b = Ok ())"

lemma check_binding_ok: "check_snapshot_binding roles b = Ok () \<longleftrightarrow> validate_binding b = Ok () \<and> bt_contains (rb_role b) roles"
  by (auto simp: check_snapshot_binding_def split: sum.splits)

lemma valid_role:
  assumes "policy_valid st" "bt_wf (ps_roles st)" "validate_role r = Ok ()"
  shows "policy_valid (st\<lparr>ps_roles := bt_insert (ro_name r) r (ps_roles st), ps_generation := g\<rparr>)"
  using assms set_bt_insert_subset [of "ro_name r" r "ps_roles st"]
  by (auto simp: policy_valid_def check_binding_ok bt_contains_def)

lemma valid_bindings:
  assumes "policy_valid st" "\<forall>b\<in>set bs. b \<in> set (ps_bindings st) \<or> check_snapshot_binding (ps_roles st) b = Ok ()"
  shows "policy_valid (rebuild_binding_index (st\<lparr>ps_bindings := bs\<rparr>))"
  using assms by (auto simp: policy_valid_def rebuild_binding_index_def)

lemma valid_generation [simp]: "policy_valid (st\<lparr>ps_generation := g\<rparr>) = policy_valid st"
  by (simp add: policy_valid_def)

definition policy_inv :: "policy_state \<Rightarrow> bool" where
  "policy_inv st \<longleftrightarrow> index_exact st \<and> policy_valid st \<and> ps_generation st \<le> u64_max"

lemma exact_generation [simp]: "index_exact (st\<lparr>ps_generation := g\<rparr>) = index_exact st"
  by (simp add: index_exact_def)

lemma exact_role: "index_exact st \<Longrightarrow> index_exact (st\<lparr>ps_roles := bt_insert n r (ps_roles st)\<rparr>)"
  by (simp add: index_exact_def)

lemma rebuild_fields [simp]:
  "ps_generation (rebuild_binding_index st) = ps_generation st" "ps_roles (rebuild_binding_index st) = ps_roles st"
  "ps_bindings (rebuild_binding_index st) = ps_bindings st"
  by (simp_all add: rebuild_binding_index_def)

lemma exact_roles: "index_exact st \<Longrightarrow> bt_wf (ps_roles st)"
  by (simp add: index_exact_def)

lemma policy_step_inv:
  assumes "policy_inv st" "policy_step st st'"
  shows "policy_inv st' \<and> ps_generation st \<le> ps_generation st'"
  using assms(2)
proof (cases rule: policy_step.cases)
  case (pstep_role r res)
  then show ?thesis
    using assms(1) exact_role [of st] exact_roles [of st] valid_role [of st r]
    by (auto simp: upsert_role_def policy_inv_def sat_add64_def Let_def split: sum.splits)
next
  case (pstep_bind b res)
  show ?thesis
  proof (cases "validate_binding b = Ok () \<and> bt_contains (rb_role b) (ps_roles st)")
    case True
    define bs where "bs = filter (\<lambda>x. \<not> (rb_subject x = rb_subject b \<and> rb_scope x = rb_scope b \<and> rb_role x = rb_role b)) (ps_bindings st) @ [b]"
    have "policy_valid (rebuild_binding_index (st\<lparr>ps_bindings := bs\<rparr>))"
      using assms(1) True by (intro valid_bindings) (auto simp: policy_inv_def check_binding_ok bs_def)
    then show ?thesis
      using assms(1) rebuilt_exact [of "st\<lparr>ps_bindings := bs\<rparr>"] exact_roles [of st] pstep_bind True
      by (auto simp: policy_bind_def policy_inv_def sat_add64_def Let_def bs_def)
  next
    case False
    then have "st' = st" using pstep_bind by (auto simp: policy_bind_def split: sum.splits if_splits)
    then show ?thesis using assms(1) by simp
  qed
next
  case (pstep_revoke subject s role_name g)
  define bs where "bs = filter (\<lambda>x. \<not> (rb_subject x = subject \<and> rb_scope x = s
      \<and> (case role_name of None \<Rightarrow> True | Some r \<Rightarrow> rb_role x = r))) (ps_bindings st)"
  have "policy_valid (rebuild_binding_index (st\<lparr>ps_bindings := bs\<rparr>))"
    using assms(1) by (intro valid_bindings) (auto simp: policy_inv_def bs_def)
  then show ?thesis
    using assms(1) rebuilt_exact [of "st\<lparr>ps_bindings := bs\<rparr>"] exact_roles [of st] pstep_revoke
    by (auto simp: revoke_def policy_inv_def sat_add64_def Let_def bs_def)
next
  case (pstep_replace sn res)
  show ?thesis
  proof (cases "st' = st")
    case False
    then have st': "st' = rebuild_binding_index (st\<lparr>ps_generation := po_generation sn, ps_roles := po_roles sn, ps_bindings := po_bindings sn\<rparr>)"
      and ok: "check_all validate_role (bt_values (po_roles sn)) = Ok ()" "check_all (check_snapshot_binding (po_roles sn)) (po_bindings sn) = Ok ()"
      and gen: "ps_generation st \<le> po_generation sn"
      using pstep_replace by (auto simp: policy_replace_def split: sum.splits if_splits)
    have "policy_valid st'" using ok by (auto simp: st' policy_valid_def check_all_ok)
    moreover have "index_exact st'" unfolding st' by (rule rebuilt_exact) (simp add: pstep_replace)
    ultimately show ?thesis using gen pstep_replace by (simp add: policy_inv_def st')
  qed (use assms(1) in simp)
qed

interpretation policy: monotone_epoch "\<lambda>st. st = policy_default" policy_step policy_inv ps_generation
proof unfold_locales
  show "policy_inv st" if "st = policy_default" for st
    using that by (simp add: policy_default_def policy_inv_def policy_valid_def index_exact_def bindings_at_def)
qed (use policy_step_inv in blast)+

lemma authorize_by_bindings:
  assumes "policy_inv st"
  shows "authorize subject s perm now st = Ok () \<longleftrightarrow> (\<exists>b\<in>set (ps_bindings st). binding_allows (ps_roles st) subject s perm now b)"
proof -
  have "(case map_of (ps_bindings_by_subject_scope st) (key_of_scope subject s) of None \<Rightarrow> [] | Some bs \<Rightarrow> bs)
      = bindings_at (key_of_scope subject s) (ps_bindings st)"
    using assms by (simp add: policy_inv_def index_exact_def)
  then show ?thesis by (auto simp: authorize_def list_ex_iff bindings_at_def binding_allows_def)
qed

section \<open>Decisions\<close>

text \<open>
  Permissions are granted by bindings in force and by nothing else: in every state that the store can
  reach, a call is authorized exactly if some binding of the subject to the scope has not expired and
  its role has the permission. A revocation takes effect at once: of the bindings revoked none
  authorizes anything any more, and those of other subjects, scopes and roles decide as before. The
  generation never goes back.
\<close>

theorem policy_decides_by_bindings:
  assumes "reaches (\<lambda>st. st = policy_default) policy_step st" and "revoke subject s role_name st = (g, st')"
  shows "(authorize subject' s' perm now st = Ok () \<longleftrightarrow> (\<exists>b\<in>set (ps_bindings st). binding_allows (ps_roles st) subject' s' perm now b))
    \<and> (authorize subject' s' perm now st' = Ok () \<longleftrightarrow>
        (\<exists>b\<in>set (ps_bindings st). binding_allows (ps_roles st) subject' s' perm now b
          \<and> \<not> (subject' = subject \<and> s' = s \<and> (role_name = None \<or> role_name = Some (rb_role b)))))
    \<and> ps_generation st \<le> g \<and> ps_generation st' = g"
proof -
  have inv: "policy_inv st" by (rule policy.reaches_inv [OF assms(1)])
  have step: "policy_step st st'" using assms(2) by (rule pstep_revoke)
  have inv': "policy_inv st'" using policy.step_inv [OF inv step] .
  have st': "ps_roles st' = ps_roles st" "ps_generation st' = g"
    "ps_bindings st' = filter (\<lambda>x. \<not> (rb_subject x = subject \<and> rb_scope x = s
      \<and> (case role_name of None \<Rightarrow> True | Some r \<Rightarrow> rb_role x = r))) (ps_bindings st)"
    using assms(2) by (auto simp: revoke_def Let_def)
  have "(\<exists>b\<in>set (ps_bindings st'). binding_allows (ps_roles st') subject' s' perm now b) \<longleftrightarrow>
      (\<exists>b\<in>set (ps_bindings st). binding_allows (ps_roles st) subject' s' perm now b
        \<and> \<not> (subject' = subject \<and> s' = s \<and> (role_name = None \<or> role_name = Some (rb_role b))))"
  proof -
    have "(rb_subject b = subject \<and> rb_scope b = s \<and> (case role_name of None \<Rightarrow> True | Some r \<Rightarrow> rb_role b = r))
        = (subject' = subject \<and> s' = s \<and> (role_name = None \<or> role_name = Some (rb_role b)))"
      if "binding_allows (ps_roles st) subject' s' perm now b" for b
      using that by (cases role_name) (auto simp: binding_allows_def)
    then show ?thesis unfolding st'(1,3) set_filter by blast
  qed
  then show ?thesis
    using authorize_by_bindings [OF inv] authorize_by_bindings [OF inv'] policy.epoch_step [OF inv step] st'(2) by simp
qed

text \<open>
  A snapshot of a store that was reached is accepted by every store that is not ahead of it, and makes
  the same decisions there.
\<close>

lemma snapshot_installs:
  assumes "reaches (\<lambda>st. st = policy_default) policy_step st" "ps_generation st2 \<le> ps_generation st"
  shows "\<exists>st3. policy_replace (policy_snapshot_of st) st2 = (Ok (), st3)
    \<and> (\<forall>subject s perm now. authorize subject s perm now st3 = authorize subject s perm now st)"
proof -
  have inv: "policy_inv st" by (rule policy.reaches_inv [OF assms(1)])
  define st3 where "st3 = rebuild_binding_index (st2\<lparr>ps_generation := ps_generation st, ps_roles := ps_roles st, ps_bindings := ps_bindings st\<rparr>)"
  have "check_all validate_role (bt_values (ps_roles st)) = Ok ()" "check_all (check_snapshot_binding (ps_roles st)) (ps_bindings st) = Ok ()"
    using inv by (auto simp: check_all_ok policy_inv_def policy_valid_def)
  then have "policy_replace (policy_snapshot_of st) st2 = (Ok (), st3)"
    using assms(2) by (simp add: policy_replace_def policy_snapshot_of_def st3_def)
  moreover have "policy_inv st3"
    using inv rebuilt_exact exact_roles [of st] unfolding st3_def policy_inv_def by (auto simp: policy_valid_def)
  then have same: "authorize subject s perm now st3 = Ok () \<longleftrightarrow> authorize subject s perm now st = Ok ()" for subject s perm now
    using authorize_by_bindings inv by (simp add: st3_def)
  have "authorize subject s perm now st3 = authorize subject s perm now st" for subject s perm now
    using same [of subject s perm now] by (auto simp: authorize_def Let_def split: if_splits)
  ultimately show ?thesis by blast
qed

text \<open>
  The names of tenants and namespaces may contain the character that separates them in a prefix, so
  that two scopes have the same prefix: a subject of one tenant lies in the scope of another.
\<close>

lemma scopes_share_prefix:
  "tenant_id_new ''a'' = Ok ''a'' \<and> namespace_id_new ''b.c'' = Ok ''b.c'' \<and> tenant_id_new ''a.b'' = Ok ''a.b'' \<and> namespace_id_new ''c'' = Ok ''c''
    \<and> contains_subject \<lparr>rs_tenant = ''a'', rs_namespace = ''b.c''\<rparr> ''a.b.c.orders''
    \<and> contains_subject \<lparr>rs_tenant = ''a.b'', rs_namespace = ''c''\<rparr> ''a.b.c.orders''"
  by code_simp

definition sample_role :: role where
  "sample_role = \<lparr>ro_name = ''p'', ro_permissions = {PublishPermission}\<rparr>"

definition sample_scope :: resource_scope where
  "sample_scope = \<lparr>rs_tenant = ''t'', rs_namespace = ''n''\<rparr>"

definition sample_binding :: role_binding where
  "sample_binding = \<lparr>rb_subject = ''c'', rb_scope = sample_scope, rb_role = ''p'', rb_expires_at_ms = Some 100\<rparr>"

definition sample_policy :: policy_state where
  "sample_policy = snd (policy_bind sample_binding (snd (upsert_role sample_role policy_default)))"

lemma sample_policy_reached: "reaches (\<lambda>st. st = policy_default) policy_step sample_policy"
proof -
  have "reaches (\<lambda>st. st = policy_default) policy_step policy_default"
    by (rule reaches_init) (rule refl)
  moreover have "policy_step policy_default (snd (upsert_role sample_role policy_default))"
    by (rule pstep_role [of sample_role]) (rule prod.collapse [symmetric])
  ultimately have "reaches (\<lambda>st. st = policy_default) policy_step (snd (upsert_role sample_role policy_default))"
    by (rule reaches_step)
  moreover have "policy_step (snd (upsert_role sample_role policy_default)) sample_policy"
    unfolding sample_policy_def by (rule pstep_bind [of sample_binding]) (rule prod.collapse [symmetric])
  ultimately show ?thesis by (rule reaches_step)
qed

lemma sample_authorized: "authorize ''c'' sample_scope PublishPermission 99 sample_policy = Ok ()"
proof -
  have "validate_role sample_role = Ok ()" by (simp add: validate_role_def validate_identifier_def sample_role_def MAX_IDENTIFIER_BYTES_def name_char_def of_char_def)
  moreover have "validate_binding sample_binding = Ok ()"
    by (simp add: validate_binding_def sample_binding_def MAX_IDENTIFIER_BYTES_def has_whitespace.simps whitespace_encodings_def)
  ultimately have "ps_bindings sample_policy = [sample_binding]" "ps_roles sample_policy = [(''p'', sample_role)]"
    by (simp_all add: sample_policy_def policy_bind_def upsert_role_def policy_default_def sample_role_def sample_binding_def bt_contains_def Let_def)
  then show ?thesis
    using authorize_by_bindings [OF policy.reaches_inv [OF sample_policy_reached]]
    by (simp add: binding_allows_def sample_binding_def sample_role_def)
qed

theorem policy_decides_by_bindings_witness:
  "authorize ''c'' sample_scope PublishPermission 99 sample_policy = Ok ()
   \<and> authorize ''c'' sample_scope PublishPermission 99 (snd (revoke ''c'' sample_scope None sample_policy)) \<noteq> Ok ()
   \<and> ps_generation sample_policy \<le> fst (revoke ''c'' sample_scope None sample_policy)"
proof -
  obtain g st' where r: "revoke ''c'' sample_scope None sample_policy = (g, st')" by fastforce
  show ?thesis
    using policy_decides_by_bindings [OF sample_policy_reached r, of "''c''" sample_scope PublishPermission 99] sample_authorized
    by (simp add: r)
qed

end
