(* ===== verification/Spec2Isabelle.thy ===== *)
theory Spec2Isabelle
  imports
    Group_Coordination
    Replication_Safety
    Transaction_Safety
    Placement_Planning
    Tenant_Quota
    Partition_Lifecycle
    Cursor_Search
    Schema_Registry
    Cross_Region
    Materialized_View
    Wal_Checkpoint
    Partition_Set_History
    Tenant_Policy
begin

text \<open>
  \<^bold>\<open>A verification of the Morrow message broker.\<close>

  Morrow (\<open>src/crates\<close>) is a message broker: clients publish to subjects, a catalogue of streams
  assigns each subject to a stream and one of its partitions, partitions are replicated logs,
  consumers read them alone or as groups, producers write atomically through transactions, and
  control loops move partitions between nodes and bound the work of tenants. The asynchronous
  runtime (\<open>server/src/broker\<close>) calls synchronous components that hold the state and make the
  decisions; the development models those components, operation by operation, and proves what
  they promise.

  \<^bold>\<open>Conventions\<close> (\<open>Morrow_Prelude\<close>). \<open>Result\<close> is a sum with \<open>Err\<close> and \<open>Ok\<close>, a panic is \<open>None\<close> or a
  distinguished error, \<open>&mut self\<close> is a record that is returned updated. Unsigned integers that
  move by saturating operations are naturals with the saturation written out; where a plain
  addition can overflow (the release profile panics on overflow) or bits matter they are words.
  \<open>str\<close> is its list of UTF-8 bytes, \<open>BTreeMap\<close> a list sorted by key. Clocks, random values and
  wake-ups are arguments. Interfaces are locales: \<open>finite_map\<close>, \<open>invariant_system\<close>,
  \<open>monotone_epoch\<close> (prelude), \<open>interest_index\<close> (\<open>Subject_Routing\<close>), \<open>resource_budget\<close>
  (\<open>Resource_Budget\<close>), \<open>field_codec\<close> (\<open>Log_Codec\<close>) and \<open>wal_field\<close> (\<open>Wal_Record\<close>); each is interpreted on the model's own
  definitions and the properties rest on the interpretations.

  \<^bold>\<open>What is modelled, and what is proved.\<close>

  \<^item> \<open>Subject_Routing\<close>: \<open>protocol/src/subject.rs\<close>. Validation, the matcher, and the subject trie with
    insertion, removal and both lookups. After any operations the trie answers like a scan of
    the live patterns (C1).
  \<^item> \<open>Stream_Catalog\<close>: \<open>server/src/stream.rs\<close>. Stream definitions, their validation, overlap of
    patterns, resolution of a subject and selection by a filter. The overlap test is exact, an
    accepted catalogue gives each subject one owner, a filter selects just the streams it can
    receive from (C4, C5; exactness of the overlap is a theorem of the theory).
  \<^item> \<open>Consumer_Group\<close>, \<open>Group_Coordination\<close>: \<open>server/src/consumer_group.rs\<close>. Membership, the three
    assignment strategies, generations, offset commits, recovery from records. Exclusive
    ownership, bounded shares, fencing, monotone commits, recovery (C6, C7, C9 to C11), and
    stickiness.
  \<^item> \<open>Message_Envelope\<close>: envelopes and partition selection of \<open>server/src/partition_log.rs\<close> and
    \<open>wal.rs\<close>.
  \<^item> \<open>Partition_Replication\<close>, \<open>Replication_Safety\<close>: \<open>server/src/partition_replication.rs\<close>. Quorum
    appends, catch-up, elections. Acknowledged records are on a majority, committed history is
    never rewritten, deposed leaders are fenced, catch-up restores a replica, no call panics
    (C12 to C16). Two lemmas show where the code falls short of its intent.
  \<^item> \<open>Transaction_Coordinator\<close>, \<open>Transaction_Recovery\<close>, \<open>Transaction_Safety\<close>:
    \<open>server/src/transaction.rs\<close> with its snapshot and journal on an explicit disk. Restart gives
    back the coordinator, batches appear by commit only, limits hold, fenced producers stay
    fenced (C17 to C20); two lemmas on crashes inside a checkpoint and inside a journal write.
  \<^item> \<open>Reassignment\<close>, \<open>Reassignment_Safety\<close>, \<open>Placement_Planning\<close>: \<open>server/src/reassignment.rs\<close>. The
    controller refines its phase diagram and resumes after a restart, plans are valid
    (C21 to C23), the throttle stays in bounds; three lemmas on the planners and the throttle.
  \<^item> \<open>Resource_Budget\<close>, \<open>Tenant_Quota\<close>: \<open>server/src/work_scheduler.rs\<close>, \<open>server/src/quota.rs\<close>. Both are
    budgets: reservations are exact, bounded, and neutral when released (C25 for the scheduler, the
    interpretation and theorems of \<open>Tenant_Quota\<close> for tenants).
  \<^item> \<open>Partition_Lifecycle\<close>: \<open>partition_expansion.rs\<close>, \<open>partition_cache.rs\<close>, \<open>partition_batch.rs\<close>,
    \<open>state_shards.rs\<close>. The routing epoch identifies the partition count, the cache is a
    least-recently-used list, the batcher cuts its input (C28 is the epoch).
  \<^item> \<open>Log_Codec\<close>, \<open>Log_Segment\<close>: \<open>server/src/partition_log/codec.rs\<close> and the segment reading and
    replay of \<open>log.rs\<close>, on bytes. Batches read back as written; a segment cut anywhere behind its
    header is recovered to its complete records (C32); two lemmas on oversized batches and
    torn headers.
  \<^item> \<open>Subject_Index\<close>: \<open>server/src/partition_log/subject_index.rs\<close> and the queries of \<open>log.rs\<close> and
    \<open>set.rs\<close> over it. Every way to answer a query is the scan of the log.
  \<^item> \<open>Partition_Log\<close> with \<open>Partition_Log_Safety\<close>, \<open>Partition_Append\<close>, \<open>Partition_Open\<close>, \<open>Partition_Rewrite\<close>,
    \<open>Partition_Compaction\<close>, \<open>Partition_Crash\<close> and \<open>Partition_History\<close>: \<open>server/src/partition_log/log.rs\<close>. Opening,
    appending with rotation and the sparse index, flushing, retention, rewriting and compaction of
    one partition, over a directory of files. \<open>Partition_Log\<close> holds the definitions, the next theories
    one operation each, \<open>Partition_History\<close> the runs of operations and crashes and the refinement of a
    list of records with a next offset (C26, C29, C31, C33); four lemmas of \<open>Partition_Crash\<close> on crash
    points where an index outlives its segment, markers block the start, or index entries shift.
  \<^item> \<open>Partition_Log_Set\<close> with \<open>Partition_Set_Safety\<close>, \<open>Partition_Set_Operations\<close> and \<open>Partition_Set_History\<close>:
    \<open>server/src/partition_log/set.rs\<close> and \<open>dynamic.rs\<close>. All partitions of a node: opening in parallel chunks, the
    choice of partitions and sequence numbers, the metadata cache, dynamic partitions. Appends
    are served by the next lookup (C3), lookups return what the specification holds (C8), a
    restart hands out exactly the records on disk (C27); lemmas on shared directories, evicted
    partitions, leaked slots, unordered sequence numbers and stale cache entries.
  \<^item> \<open>Tenant_Policy\<close>: the policy store of \<open>server/src/tenancy.rs\<close>. The index by subject and scope never
    differs from a scan of the bindings, a revocation takes effect at once, a snapshot is accepted
    and decides alike; one lemma on scopes that share a prefix.
  \<^item> \<open>Consumer_Cursor\<close>, \<open>Cursor_Search\<close>: \<open>server/src/consumer_cursor.rs\<close>. Acknowledgements skip
    nothing and keep the window, the indexed search is the reference scan (C34, C35); one lemma
    on acknowledgements of compacted records.
  \<^item> \<open>Schema_Registry\<close>: \<open>server/src/schema_registry.rs\<close>. Registration, lookups, deletion, rollback and
    the file. The identifier index is exact and rebuilt by a restart, an identifier denotes one
    schema for ever (C36, C37); one lemma on policies that a restart forgets.
  \<^item> \<open>Retry_Policy\<close>: \<open>RetryPolicy\<close> of \<open>protocol/src/protocol.rs\<close>; delays are bounded and, without jitter, monotone.
  \<^item> \<open>Wal_Record\<close>, \<open>Wal_Replay\<close>, \<open>Wal_Log\<close>, \<open>Wal_Checkpoint\<close>: \<open>server/src/wal.rs\<close> and \<open>server/src/wal\<close>. Records on
    bytes, replay, appending with rotation and batches, flushing and checkpoints, over a directory whose unsynced
    bytes a crash may cut. Unacknowledged messages are due again after a replay (C2), a
    checkpoint keeps its consumers (C24), flushed records survive (C30); five lemmas on torn
    lengths and headers, batches and checkpoints.
  \<^item> \<open>Cross_Region\<close>: \<open>server/src/cross_region.rs\<close>. Accepted chunks are contiguous and verified, old fencing
    tokens are refused for ever (C38, C39); one lemma on a limit that never limits.
  \<^item> \<open>Materialized_View\<close>: \<open>server/src/materialized_view.rs\<close>. A view is the fold of the accepted updates
    (C40); two lemmas on restarts that lose updates or fail.

  \<^bold>\<open>How the components meet.\<close> The catalogue resolves publications through the subject trie; the
  envelopes of \<open>Message_Envelope\<close> are what replication, the log codec and the quotas handle; the
  subject index reads segments with the codec; cursors are created from the catalogue's
  selection and fed by the subject index's queries, whose answers are proved sorted, which the
  cursors' invariant needs; the write-ahead log carries cursors, group records and retry policies and
  matches filters with the subject matcher.

  \<^bold>\<open>Termination and bounds.\<close> No definition uses fuel. Loops are structural recursion, or
  recursion with a measure (input length for reading segments and journals, number of acknowledgements for
  cursor advance, digits for decimal keys), except the cache's eviction loop and the compaction loop, which are
  partial functions that are proved to return in every reachable state. Hypotheses of the form
  \<open>x \<le> u64_max\<close> say that a natural is a value of its Rust type.

  \<^bold>\<open>Parameters.\<close> Library code is an argument: JSON and CRC of the transaction journal
  (\<open>txn_codec\<close>), JSON snapshots (\<open>snapshot_codec\<close>), CRC-32 and legacy envelopes of the log
  (\<open>log_codec\<close>), CRC-32 and JSON of the write-ahead log and of view journals (\<open>wal_codec\<close>, \<open>view_codec\<close>),
  SHA-256 (\<open>digest\<close>), authenticated encryption (\<open>key_ring\<close>). What is assumed of one is that decoding
  returns what was encoded; a witness instantiates each with a concrete function.

  \<^bold>\<open>Not modelled.\<close> The asynchronous broker (tasks, channels, sockets, HTTP, WebSocket, TLS), the
  Raft plane (the \<open>openraft\<close> library behind storage traits), backup and encryption (file copies
  and cryptographic libraries), WebAssembly middleware, the client, command line, connectors,
  configuration parsing and the simulation harness are I/O or glue around libraries, and the frame
  syntax of the protocol rests on serde and a CBOR library. Of the
  modelled files: semaphores of \<open>quota.rs\<close>; the audit log of \<open>tenancy.rs\<close>; failures of file system calls other than the crash
  points treated; \<open>connector_control_streams\<close>, a constant table.

  \<^bold>\<open>What could follow.\<close> The delivery index of the broker and the audit chain of \<open>tenancy.rs\<close> are the parts
  with logic of their own that are left.
\<close>

end
